(* ===== verification/Prelude.thy ===== *)
theory Prelude
  imports Main "HOL-Library.List_Lexorder" "HOL-Library.Char_ord"
begin

text \<open>
  Shared vocabulary of the development: the theorem collections the component proofs draw on,
  Go's byte strings and the few functions of its standard library that several components call,
  generic lemmas on tables kept as lists, and 64-bit wrap-around.

  A Go \<^verbatim>\<open>string\<close> is a sequence of bytes, which is what \<^typ>\<open>string\<close> is here; the order on
  strings (\<^verbatim>\<open>sort.Strings\<close>, SQLite's BINARY collation) is the lexicographic one. A
  \<^verbatim>\<open>time.Time\<close> or \<^verbatim>\<open>time.Duration\<close> is a number of nanoseconds.
\<close>

named_theorems store_simps \<open>unfolding one store statement\<close>
named_theorems chain_simps \<open>walking a hash chain\<close>
named_theorems env_simps \<open>clock, randomness and the statement counter\<close>

type_synonym time = int
type_synonym duration = int

abbreviation second :: duration where "second \<equiv> 1000000000"
abbreviation minute :: duration where "minute \<equiv> 60000000000"
abbreviation hour :: duration where "hour \<equiv> 3600000000000"

text \<open>The zero \<^verbatim>\<open>time.Time\<close>, January 1 of the year 1.\<close>

definition zero_time :: time where
  "zero_time = - 62135596800 * second"

section \<open>Decimal numerals\<close>

text \<open>\<^verbatim>\<open>strconv.Itoa\<close> on a non-negative argument and \<^verbatim>\<open>strconv.FormatInt(_, 10)\<close>.\<close>

definition digit_char :: "nat \<Rightarrow> char" where
  "digit_char n = char_of (48 + n)"

fun itoa :: "nat \<Rightarrow> string" where
  "itoa n = (if n < 10 then [digit_char n] else itoa (n div 10) @ [digit_char (n mod 10)])"

declare itoa.simps [simp del]

definition format_int :: "int \<Rightarrow> string" where
  "format_int i = (if i < 0 then CHR ''-'' # itoa (nat (- i)) else itoa (nat i))"

definition is_digit :: "char \<Rightarrow> bool" where
  "is_digit c \<longleftrightarrow> 48 \<le> (of_char c :: nat) \<and> (of_char c :: nat) \<le> 57"

definition digit_value :: "char \<Rightarrow> nat" where
  "digit_value c = of_char c - 48"

lemma of_char_digit_char [simp]: "n < 10 \<Longrightarrow> (of_char (digit_char n) :: nat) = 48 + n"
  by (simp add: digit_char_def)

lemma is_digit_digit_char [simp]: "n < 10 \<Longrightarrow> is_digit (digit_char n)"
  by (simp add: is_digit_def)

lemma digit_value_digit_char [simp]: "n < 10 \<Longrightarrow> digit_value (digit_char n) = n"
  by (simp add: digit_value_def)

lemma itoa_digits: "c \<in> set (itoa n) \<Longrightarrow> is_digit c"
proof (induction n rule: itoa.induct)
  case (1 n)
  then show ?case
    by (subst (asm) (2) itoa.simps) (auto split: if_splits)
qed

lemma itoa_nonempty [simp]: "itoa n \<noteq> []"
  by (subst itoa.simps) simp

text \<open>Reading the digits back gives the number: printing is injective.\<close>

fun atoi_acc :: "nat \<Rightarrow> string \<Rightarrow> nat" where
  "atoi_acc a [] = a"
| "atoi_acc a (c # cs) = atoi_acc (10 * a + digit_value c) cs"

lemma atoi_acc_append: "atoi_acc a (xs @ ys) = atoi_acc (atoi_acc a xs) ys"
  by (induction xs arbitrary: a) auto

lemma atoi_itoa: "atoi_acc 0 (itoa n) = n"
proof (induction n rule: itoa.induct)
  case (1 n)
  show ?case
  proof (cases "n < 10")
    case True
    then show ?thesis by (subst itoa.simps) simp
  next
    case False
    with 1 have "atoi_acc 0 (itoa (n div 10)) = n div 10" by simp
    with False show ?thesis by (subst itoa.simps) (simp add: atoi_acc_append)
  qed
qed

lemma itoa_inject [simp]: "itoa m = itoa n \<longleftrightarrow> m = n"
  by (metis atoi_itoa)

lemma colon_not_in_itoa [simp]: "CHR '':'' \<notin> set (itoa n)"
  using itoa_digits [of "CHR '':''" n] by (auto simp: is_digit_def)

lemma minus_not_in_itoa: "CHR ''-'' \<notin> set (itoa n)"
  using itoa_digits [of "CHR ''-''" n] by (auto simp: is_digit_def)

lemma format_int_inject [simp]: "format_int i = format_int j \<longleftrightarrow> i = j"
proof
  assume eq: "format_int i = format_int j"
  have neg: "CHR ''-'' \<in> set (format_int k) \<longleftrightarrow> k < 0" for k
    using minus_not_in_itoa by (auto simp: format_int_def)
  have "i < 0 \<longleftrightarrow> j < 0" using neg [of i] neg [of j] eq by simp
  with eq show "i = j" by (auto simp: format_int_def split: if_splits)
qed simp

section \<open>64-bit integers\<close>

definition wrap64 :: "int \<Rightarrow> int" where
  "wrap64 i = (i + 2 ^ 63) mod 2 ^ 64 - 2 ^ 63"

definition in_int64 :: "int \<Rightarrow> bool" where
  "in_int64 i \<longleftrightarrow> - (2 ^ 63) \<le> i \<and> i < 2 ^ 63"

lemma wrap64_id [simp]: "in_int64 i \<Longrightarrow> wrap64 i = i"
  by (simp add: wrap64_def in_int64_def)

lemma in_int64_wrap64 [simp]: "in_int64 (wrap64 i)"
proof -
  have "0 \<le> (i + 2 ^ 63) mod 2 ^ 64" and "(i + 2 ^ 63) mod 2 ^ 64 < (2 ^ 64 :: int)"
    by simp_all
  then show ?thesis by (simp add: wrap64_def in_int64_def)
qed

text \<open>Go's integer division truncates towards zero.\<close>

definition go_div :: "int \<Rightarrow> int \<Rightarrow> int" where
  "go_div a b = sgn a * sgn b * (\<bar>a\<bar> div \<bar>b\<bar>)"

lemma go_div_nonneg [simp]: "0 \<le> a \<Longrightarrow> 0 < b \<Longrightarrow> go_div a b = a div b"
  by (cases "a = 0") (simp_all add: go_div_def)

section \<open>Strings\<close>

text \<open>The functions of package \<^verbatim>\<open>strings\<close> the components use.\<close>

fun has_prefix :: "string \<Rightarrow> string \<Rightarrow> bool" where
  "has_prefix s [] = True"
| "has_prefix [] (p # ps) = False"
| "has_prefix (c # cs) (p # ps) = (c = p \<and> has_prefix cs ps)"

fun contains_str :: "string \<Rightarrow> string \<Rightarrow> bool" where
  "contains_str [] sub = (sub = [])"
| "contains_str (c # cs) sub = (has_prefix (c # cs) sub \<or> contains_str cs sub)"

definition trim_prefix :: "string \<Rightarrow> string \<Rightarrow> string" where
  "trim_prefix s p = (if has_prefix s p then drop (length p) s else s)"

definition to_lower_char :: "char \<Rightarrow> char" where
  "to_lower_char c = (let n = (of_char c :: nat) in if 65 \<le> n \<and> n \<le> 90 then char_of (n + 32) else c)"

definition to_lower :: "string \<Rightarrow> string" where
  "to_lower s = map to_lower_char s"

fun join_str :: "string \<Rightarrow> string list \<Rightarrow> string" where
  "join_str sep [] = []"
| "join_str sep [x] = x"
| "join_str sep (x # y # xs) = x @ sep @ join_str sep (y # xs)"

lemma has_prefix_append [simp]: "has_prefix (p @ s) p"
  by (induction p) auto

lemma has_prefix_iff: "has_prefix s p \<longleftrightarrow> (\<exists>t. s = p @ t)"
  by (induction s p rule: has_prefix.induct) auto

lemma trim_prefix_append [simp]: "trim_prefix (p @ s) p = s"
  by (simp add: trim_prefix_def)

lemma contains_str_iff: "contains_str s sub \<longleftrightarrow> (\<exists>u v. s = u @ sub @ v)"
proof (induction s)
  case Nil
  then show ?case by auto
next
  case (Cons c cs)
  have "(\<exists>u v. c # cs = u @ sub @ v) \<longleftrightarrow>
        (\<exists>v. c # cs = sub @ v) \<or> (\<exists>u v. cs = u @ sub @ v)"
    by (metis append_Cons append_Nil list.exhaust list.inject)
  with Cons show ?case by (simp add: has_prefix_iff)
qed

section \<open>Tables as lists of rows\<close>

text \<open>
  \<open>update_where P f\<close> is the effect of an SQL \<^verbatim>\<open>UPDATE ... WHERE P\<close>, \<open>count_where P\<close> its
  \<^verbatim>\<open>RowsAffected\<close>.
\<close>

definition update_where :: "('a \<Rightarrow> bool) \<Rightarrow> ('a \<Rightarrow> 'a) \<Rightarrow> 'a list \<Rightarrow> 'a list" where
  "update_where P f xs = map (\<lambda>x. if P x then f x else x) xs"

definition count_where :: "('a \<Rightarrow> bool) \<Rightarrow> 'a list \<Rightarrow> nat" where
  "count_where P xs = length (filter P xs)"

definition key_unique :: "('a \<Rightarrow> 'k) \<Rightarrow> 'a list \<Rightarrow> bool" where
  "key_unique k xs \<longleftrightarrow> distinct (map k xs)"

lemma update_where_Nil [simp]: "update_where P f [] = []"
  by (simp add: update_where_def)

lemma update_where_Cons [simp]:
  "update_where P f (x # xs) = (if P x then f x else x) # update_where P f xs"
  by (simp add: update_where_def)

lemma length_update_where [simp]: "length (update_where P f xs) = length xs"
  by (simp add: update_where_def)

lemma update_where_append [simp]:
  "update_where P f (xs @ ys) = update_where P f xs @ update_where P f ys"
  by (simp add: update_where_def)

lemma update_where_none: "(\<And>x. x \<in> set xs \<Longrightarrow> \<not> P x) \<Longrightarrow> update_where P f xs = xs"
  by (simp add: update_where_def map_idI)

lemma set_update_where: "set (update_where P f xs) = (\<lambda>x. if P x then f x else x) ` set xs"
  by (simp add: update_where_def)

lemma update_where_hit: "x \<in> set xs \<Longrightarrow> P x \<Longrightarrow> f x \<in> set (update_where P f xs)"
  by (force simp: set_update_where image_iff)

lemma update_where_miss: "x \<in> set xs \<Longrightarrow> \<not> P x \<Longrightarrow> x \<in> set (update_where P f xs)"
  by (force simp: set_update_where image_iff)

lemma in_update_whereE:
  assumes "x \<in> set (update_where P f xs)"
  obtains y where "y \<in> set xs" and "P y" and "x = f y" | "x \<in> set xs" and "\<not> P x"
  using assms by (auto simp: set_update_where split: if_splits)

lemma count_where_0_iff [simp]: "count_where P xs = 0 \<longleftrightarrow> (\<forall>x\<in>set xs. \<not> P x)"
  by (simp add: count_where_def filter_empty_conv)

lemma count_where_pos_iff [simp]: "0 < count_where P xs \<longleftrightarrow> (\<exists>x\<in>set xs. P x)"
  by (metis count_where_0_iff neq0_conv)

lemma map_key_update_where [simp]:
  "(\<And>x. k (f x) = k x) \<Longrightarrow> map k (update_where P f xs) = map k xs"
  by (simp add: update_where_def)

lemma key_unique_update_where [simp]:
  "(\<And>x. k (f x) = k x) \<Longrightarrow> key_unique k (update_where P f xs) = key_unique k xs"
  by (simp add: key_unique_def)

lemma key_image_update_where:
  assumes "\<And>x. k (f x) = k x"
  shows "k ` set (update_where P f xs) = k ` set xs"
  using map_key_update_where [of k f P xs, OF assms] by (metis list.set_map)

lemma key_unique_Cons [simp]:
  "key_unique k (x # xs) \<longleftrightarrow> k x \<notin> k ` set xs \<and> key_unique k xs"
  by (simp add: key_unique_def)

lemma key_unique_Nil [simp]: "key_unique k []"
  by (simp add: key_unique_def)

lemma key_unique_append:
  "key_unique k (xs @ ys) \<longleftrightarrow> key_unique k xs \<and> key_unique k ys \<and> (\<forall>y\<in>set ys. k y \<notin> k ` set xs)"
  by (induction xs) (auto simp: key_unique_def image_iff)

lemma key_unique_filter: "key_unique k xs \<Longrightarrow> key_unique k (filter P xs)"
  by (simp add: key_unique_def distinct_map_filter)

lemma key_unique_eq:
  "key_unique k xs \<Longrightarrow> x \<in> set xs \<Longrightarrow> y \<in> set xs \<Longrightarrow> k x = k y \<Longrightarrow> x = y"
  by (auto simp: key_unique_def distinct_map inj_on_def)

lemma find_key_Some: "find (\<lambda>x. k x = v) xs = Some x \<Longrightarrow> x \<in> set xs \<and> k x = v"
  by (auto simp: find_Some_iff)

lemma find_key_unique:
  assumes "key_unique k xs" and "x \<in> set xs"
  shows "find (\<lambda>y. k y = k x) xs = Some x"
  using assms by (induction xs) auto

lemma find_key_None: "find (\<lambda>x. k x = v) xs = None \<longleftrightarrow> v \<notin> k ` set xs"
  by (auto simp: find_None_iff)

lemma find_append: "find P (xs @ ys) = (case find P xs of None \<Rightarrow> find P ys | Some x \<Rightarrow> Some x)"
  by (induction xs) auto

text \<open>Updating the row with a given key and reading it back.\<close>

lemma find_update_where:
  assumes "\<And>x. k (f x) = k x"
  shows "find (\<lambda>x. k x = v) (update_where P f xs) =
         map_option (\<lambda>x. if P x then f x else x) (find (\<lambda>x. k x = v) xs)"
  using assms by (induction xs) auto

section \<open>Updating ordered tables\<close>

lemma insort_map_key:
  assumes "\<And>x. f (g x) = f x"
  shows "insort_key f (g y) (map g xs) = map g (insort_key f y xs)"
  using assms by (induction xs) auto

lemma sort_map_key:
  assumes "\<And>x. f (g x) = f x"
  shows "sort_key f (map g xs) = map g (sort_key f xs)"
  using assms by (induction xs) (auto simp: insort_map_key)

lemma update_where_at:
  assumes "key_unique k (ds @ a # rs)" and "\<And>x. k (f x) = k x"
  shows "update_where (\<lambda>x. k x = k a) f (ds @ a # rs) = ds @ f a # rs"
proof -
  have "update_where (\<lambda>x. k x = k a) f ds = ds" "update_where (\<lambda>x. k x = k a) f rs = rs"
    using assms(1) by (auto simp: key_unique_def intro!: update_where_none) (metis imageI)+
  then show ?thesis by simp
qed

lemma filter_update_where:
  "(\<And>x. Q (f x) = Q x) \<Longrightarrow> filter Q (update_where P f xs) = update_where P f (filter Q xs)"
  by (induction xs) auto

lemma sort_update_where:
  "(\<And>x. k (f x) = k x) \<Longrightarrow> sort_key k (update_where P f xs) = update_where P f (sort_key k xs)"
  unfolding update_where_def by (rule sort_map_key) simp

text \<open>A row that sorts behind all others comes last.\<close>

lemma insort_before_last: "f x \<le> f n \<Longrightarrow> insort_key f x (ys @ [n]) = insort_key f x ys @ [n]"
  by (induction ys) auto

lemma insort_last: "\<forall>y\<in>set ys. f y < f n \<Longrightarrow> insort_key f n ys = ys @ [n]"
  by (induction ys) auto

lemma sort_key_last:
  assumes "\<forall>b\<in>set bs. f b < f n" and "\<forall>a\<in>set as. f a \<le> f n"
  shows "sort_key f (as @ n # bs) = sort_key f (as @ bs) @ [n]"
  using assms(2)
proof (induction as)
  case Nil
  then show ?case using assms(1) by (simp add: insort_last)
qed (simp add: insort_before_last)

lemma sort_two_keys_last:
  fixes f :: "'a \<Rightarrow> 'b::linorder" and g :: "'a \<Rightarrow> 'c::linorder"
  assumes "g n \<notin> g ` set xs" and "\<forall>x\<in>set xs. f x < f n \<or> f x = f n \<and> g x < g n"
  shows "sort_key f (sort_key g (xs @ [n])) = sort_key f (sort_key g xs) @ [n]"
proof -
  let ?zs = "sort_key g (xs @ [n])"
  have "n \<in> set ?zs" by simp
  then obtain as bs where zs: "?zs = as @ n # bs" by (meson split_list)
  have dist: "length (filter (\<lambda>x. x = n) ?zs) = length (filter (\<lambda>x. x = n) (xs @ [n]))"
    by (simp only: filter_sort length_sort)
  have notin: "n \<notin> set xs" using assms(1) by auto
  then have "length (filter (\<lambda>x. x = n) (xs @ [n])) = 1" by (auto simp: filter_empty_conv)
  with dist zs have no: "n \<notin> set as" "n \<notin> set bs" by (auto simp: filter_empty_conv)
  have "filter (\<lambda>x. x \<noteq> n) ?zs = sort_key g (filter (\<lambda>x. x \<noteq> n) (xs @ [n]))" by (simp only: filter_sort)
  moreover have "filter (\<lambda>x. x \<noteq> n) (xs @ [n]) = xs" using notin by (auto simp: filter_id_conv)
  moreover have "filter (\<lambda>x. x \<noteq> n) as = as" "filter (\<lambda>x. x \<noteq> n) bs = bs"
    using no by (auto simp: filter_id_conv)
  then have "filter (\<lambda>x. x \<noteq> n) ?zs = as @ bs" unfolding zs by simp
  ultimately have rest: "as @ bs = sort_key g xs" by simp
  then have mem: "x \<in> set xs" if "x \<in> set as \<or> x \<in> set bs" for x
    using that by (metis Un_iff set_append set_sort)
  have "sorted (map g ?zs)" by simp
  then have "\<forall>b\<in>set bs. g n \<le> g b" unfolding zs by (simp add: sorted_append)
  with assms(2) mem have "\<forall>b\<in>set bs. f b < f n" by (metis leD)
  moreover have "\<forall>a\<in>set as. f a \<le> f n" using assms(2) mem by (metis less_imp_le order_refl)
  ultimately show ?thesis unfolding zs rest [symmetric] by (rule sort_key_last)
qed

end
