(* ===== verification/State_Store.thy ===== *)
theory State_Store
  imports Prelude
begin

text \<open>
  The persistence layer: \<^verbatim>\<open>internal/state\<close>, in its SQLite implementation
  (\<^verbatim>\<open>sqlite.go\<close>) over the schema of \<^verbatim>\<open>schema.sql\<close>.

  A table is the list of its rows in insertion order. One method of the store is one SQL
  statement (the one method that is a transaction is marked), and a statement is atomic. What
  the statement's surroundings may do is explicit in \<open>world\<close>:
  \<^item> \<open>w_fault n\<close> says that the driver fails at the \<open>n\<close>-th effect; the method then returns
    an error and the statement has no effect on the tables;
  \<^item> \<open>w_clock n\<close> and \<open>w_rand n\<close> are what \<^verbatim>\<open>time.Now\<close> and \<^verbatim>\<open>crypto/rand\<close> give at the
    \<open>n\<close>-th effect (\<open>None\<close>: the read of random bytes fails);
  \<^item> \<open>w_intf n\<close> is what other processes did to the tables since the previous statement.
  Every effect advances \<open>w_tick\<close>, so a theorem that quantifies over a \<open>world\<close> quantifies
  over all schedules of faults, clock readings and interference. A world is \<open>quiet\<close> when
  nothing fails and nobody interferes.
\<close>

section \<open>Rows\<close>

record run_row =
  run_id :: string
  run_workflow_name :: string
  run_template_name :: string
  run_params :: string
  run_plan_hash :: string
  run_plan_json :: string
  run_status :: string
  run_approval_status :: string
  run_approval_level :: string
  run_priority :: string
  run_created_at :: time
  run_updated_at :: time
  run_creator :: string
  run_incident_id :: string
  run_tenant_id :: string

record step_row =
  step_id :: string
  step_run_id :: string
  step_batch_id :: string
  step_host :: string
  step_step_name :: string
  step_action :: string
  step_status :: string
  step_exit_code :: "int option"
  step_stdout :: string
  step_stderr :: string
  step_duration_ms :: int
  step_started_at :: "time option"
  step_completed_at :: "time option"
  step_tenant_id :: string

record batch_row =
  bt_id :: string
  bt_run_id :: string
  bt_batch_no :: int
  bt_status :: string
  bt_total_hosts :: int
  bt_succeeded :: int
  bt_failed :: int
  bt_started_at :: "time option"
  bt_completed_at :: "time option"
  bt_tenant_id :: string

record trace_row =
  tr_id :: string
  tr_run_id :: string
  tr_event :: string
  tr_actor :: string
  tr_detail :: string
  tr_prev_hash :: string
  tr_curr_hash :: string
  tr_timestamp :: time
  tr_tenant_id :: string

record approval_row =
  ap_id :: string
  ap_run_id :: string
  ap_level :: string
  ap_approver :: string
  ap_status :: string
  ap_comment :: string
  ap_timeout_at :: "time option"
  ap_acted_at :: "time option"
  ap_plan_hash :: string
  ap_revision :: int
  ap_tenant_id :: string

record lock_row =
  lk_id :: string
  lk_scope :: string
  lk_owner :: string
  lk_ttl_seconds :: int
  lk_acquired_at :: time
  lk_expires_at :: time

record audit_row =
  au_id :: string
  au_run_id :: string
  au_action :: string
  au_actor :: string
  au_target :: string
  au_result :: string
  au_tenant_id :: string
  au_prev_hash :: string
  au_curr_hash :: string
  au_timestamp :: time

record assignment_row =
  as_run_id :: string
  as_owner_node :: string
  as_epoch :: int
  as_state :: string
  as_result :: string
  as_assigned_at :: time
  as_updated_at :: time
  as_tenant_id :: string

text \<open>The tables of a cluster: execution leases, lease locks and members (\<^verbatim>\<open>pg_registry.go\<close>).\<close>

record exec_row =
  xr_run_id :: string
  xr_owner :: string
  xr_epoch :: int
  xr_registered_at :: time
  xr_lease_expires :: time

record cluster_lock_row =
  cl_key :: string
  cl_owner :: string
  cl_fence_token :: int
  cl_acquired_at :: time
  cl_lease_expires :: time

record node =
  nd_id :: string
  nd_address :: string
  nd_status :: string
  nd_role :: string
  nd_last_heartbeat :: time
  nd_capabilities :: string
  nd_joined_at :: time

text \<open>An approval attests to one plan; the empty hash is a row written before plans were bound.\<close>

definition MatchesPlan :: "approval_row option \<Rightarrow> string \<Rightarrow> bool \<times> bool" where
  "MatchesPlan a plan_hash = (case a of
     None \<Rightarrow> (False, False)
   | Some a \<Rightarrow> if ap_plan_hash a = '''' then (True, True)
       else (plan_hash \<noteq> '''' \<and> ap_plan_hash a = plan_hash, False))"

section \<open>The database and its surroundings\<close>

record tables =
  t_runs :: "run_row list"
  t_steps :: "step_row list"
  t_traces :: "trace_row list"
  t_approvals :: "approval_row list"
  t_locks :: "lock_row list"
  t_audits :: "audit_row list"
  t_assignments :: "assignment_row list"
  t_executions :: "exec_row list"
  t_cluster_locks :: "cluster_lock_row list"
  t_nodes :: "node list"
  seq_epoch :: int
  seq_fence :: int
  t_batches :: "batch_row list"

record world =
  w_tbl :: tables
  w_tick :: nat
  w_clock :: "nat \<Rightarrow> time"
  w_rand :: "nat \<Rightarrow> string option"
  w_fault :: "nat \<Rightarrow> bool"
  w_intf :: "nat \<Rightarrow> tables \<Rightarrow> tables"

datatype store_error =
    DriverError
  | UniqueViolation
  | ForeignKeyViolation
  | WormViolation
  | SyntaxError
  | RowNotFound
  | ErrTraceExists
  | BadArgument

type_synonym 'a op = "world \<Rightarrow> (store_error + 'a) \<times> world"

definition quiet :: "world \<Rightarrow> bool" where
  "quiet w \<longleftrightarrow> (\<forall>n. \<not> w_fault w n) \<and> (\<forall>n. w_intf w n = id)"

text \<open>\<^verbatim>\<open>time.Now().UTC()\<close> and a read of random bytes rendered as text.\<close>

definition time_now :: "world \<Rightarrow> time \<times> world" where
  "time_now w = (w_clock w (w_tick w), w\<lparr>w_tick := Suc (w_tick w)\<rparr>)"

definition rand_read :: "world \<Rightarrow> string option \<times> world" where
  "rand_read w = (w_rand w (w_tick w), w\<lparr>w_tick := Suc (w_tick w)\<rparr>)"

text \<open>
  One statement: the others' writes since the last statement become visible, then the driver
  fails or the statement runs. A statement that returns an error leaves the tables alone.
\<close>

definition stmt :: "(tables \<Rightarrow> (store_error + 'a) \<times> tables) \<Rightarrow> 'a op" where
  "stmt f w = (let n = w_tick w; t = w_intf w n (w_tbl w) in
     if w_fault w n then (Inl DriverError, w\<lparr>w_tbl := t, w_tick := Suc n\<rparr>)
     else (case f t of (r, t') \<Rightarrow> (r, w\<lparr>w_tbl := t', w_tick := Suc n\<rparr>)))"

definition query :: "(tables \<Rightarrow> 'a) \<Rightarrow> 'a op" where
  "query f = stmt (\<lambda>t. (Inr (f t), t))"

text \<open>A statement that reads the database's clock (\<^verbatim>\<open>NOW()\<close>).\<close>

definition stmt_at :: "(time \<Rightarrow> tables \<Rightarrow> (store_error + 'a) \<times> tables) \<Rightarrow> 'a op" where
  "stmt_at f w = stmt (f (w_clock w (w_tick w))) w"

lemma quiet_update [simp]:
  "quiet (w\<lparr>w_tick := n\<rparr>) = quiet w"
  "quiet (w\<lparr>w_tbl := t\<rparr>) = quiet w"
  "quiet (w\<lparr>w_tbl := t, w_tick := n\<rparr>) = quiet w"
  by (simp_all add: quiet_def)

lemma quiet_env [simp]:
  "quiet w \<Longrightarrow> \<not> w_fault w n" "quiet w \<Longrightarrow> w_intf w n = id"
  by (simp_all add: quiet_def)

lemma stmt_quiet [store_simps]:
  "quiet w \<Longrightarrow> stmt f w =
    (fst (f (w_tbl w)), w\<lparr>w_tbl := snd (f (w_tbl w)), w_tick := Suc (w_tick w)\<rparr>)"
  by (simp add: stmt_def split: prod.splits)

lemma query_quiet [store_simps]:
  "quiet w \<Longrightarrow> query f w = (Inr (f (w_tbl w)), w\<lparr>w_tick := Suc (w_tick w)\<rparr>)"
  by (simp add: query_def stmt_quiet)

lemma stmt_env:
  assumes "stmt f w = (r, w')"
  shows "w_clock w' = w_clock w" "w_rand w' = w_rand w" "w_fault w' = w_fault w"
    "w_intf w' = w_intf w" "w_tick w' = Suc (w_tick w)"
  using assms by (auto simp: stmt_def Let_def split: if_splits prod.splits)

lemma stmt_cases:
  assumes "stmt f w = (r, w')"
  obtains (fault) "r = Inl DriverError" "w_tbl w' = w_intf w (w_tick w) (w_tbl w)"
  | (ran) "f (w_intf w (w_tick w) (w_tbl w)) = (r, w_tbl w')"
  using assms by (auto simp: stmt_def Let_def split: if_splits prod.splits)

lemma query_cases:
  assumes "query f w = (r, w')"
  obtains (fault) "r = Inl DriverError" "w_tbl w' = w_intf w (w_tick w) (w_tbl w)"
  | (ran) "r = Inr (f (w_tbl w'))" "w_tbl w' = w_intf w (w_tick w) (w_tbl w)"
  using assms unfolding query_def
proof (cases rule: stmt_cases)
  case ran
  then show ?thesis using that(2) by (metis Pair_inject)
qed (rule that(1))

section \<open>Runs\<close>

definition CreateRun :: "run_row \<Rightarrow> unit op" where
  "CreateRun r = stmt (\<lambda>t.
     if run_id r \<in> run_id ` set (t_runs t) then (Inl UniqueViolation, t)
     else (Inr (), t\<lparr>t_runs := t_runs t @ [r]\<rparr>))"

definition GetRun :: "string \<Rightarrow> run_row option op" where
  "GetRun i = query (\<lambda>t. find (\<lambda>r. run_id r = i) (t_runs t))"

text \<open>The columns \<^verbatim>\<open>UpdateRun\<close> writes: all but \<^verbatim>\<open>id\<close> and \<^verbatim>\<open>created_at\<close>.\<close>

definition set_run :: "run_row \<Rightarrow> run_row \<Rightarrow> run_row" where
  "set_run new old = new\<lparr>run_id := run_id old, run_created_at := run_created_at old\<rparr>"

definition UpdateRun :: "run_row \<Rightarrow> unit op" where
  "UpdateRun r = stmt (\<lambda>t.
     if count_where (\<lambda>x. run_id x = run_id r) (t_runs t) = 0 then (Inl RowNotFound, t)
     else (Inr (), t\<lparr>t_runs := update_where (\<lambda>x. run_id x = run_id r) (set_run r) (t_runs t)\<rparr>))"

text \<open>A transaction: the status is read and the row written under one write lock.\<close>

definition UpdateRunReturningPrevStatus :: "run_row \<Rightarrow> string op" where
  "UpdateRunReturningPrevStatus r = stmt (\<lambda>t.
     case find (\<lambda>x. run_id x = run_id r) (t_runs t) of
       None \<Rightarrow> (Inl RowNotFound, t)
     | Some old \<Rightarrow> (Inr (run_status old),
         t\<lparr>t_runs := update_where (\<lambda>x. run_id x = run_id r) (set_run r) (t_runs t)\<rparr>))"

definition UpdateRunStatusIf :: "string \<Rightarrow> string \<Rightarrow> string \<Rightarrow> time \<Rightarrow> bool op" where
  "UpdateRunStatusIf i frm to at = stmt (\<lambda>t.
     (Inr (0 < count_where (\<lambda>x. run_id x = i \<and> run_status x = frm) (t_runs t)),
      t\<lparr>t_runs := update_where (\<lambda>x. run_id x = i \<and> run_status x = frm)
                   (\<lambda>x. x\<lparr>run_status := to, run_updated_at := at\<rparr>) (t_runs t)\<rparr>))"

definition UpdateRunApprovalStatusIf ::
    "string \<Rightarrow> string \<Rightarrow> string \<Rightarrow> string \<Rightarrow> time \<Rightarrow> bool op" where
  "UpdateRunApprovalStatusIf i frm to ast at = stmt (\<lambda>t.
     (Inr (0 < count_where (\<lambda>x. run_id x = i \<and> run_status x = frm) (t_runs t)),
      t\<lparr>t_runs := update_where (\<lambda>x. run_id x = i \<and> run_status x = frm)
          (\<lambda>x. x\<lparr>run_status := to, run_approval_status := ast, run_updated_at := at\<rparr>) (t_runs t)\<rparr>))"

definition UpdateRunPlan :: "string \<Rightarrow> string \<Rightarrow> string \<Rightarrow> time \<Rightarrow> unit op" where
  "UpdateRunPlan i pj ph at = stmt (\<lambda>t.
     if count_where (\<lambda>x. run_id x = i) (t_runs t) = 0 then (Inl RowNotFound, t)
     else (Inr (), t\<lparr>t_runs := update_where (\<lambda>x. run_id x = i)
            (\<lambda>x. x\<lparr>run_plan_json := pj, run_plan_hash := ph, run_updated_at := at\<rparr>) (t_runs t)\<rparr>))"

definition MarkNonTerminalSteps :: "string \<Rightarrow> string \<Rightarrow> nat op" where
  "MarkNonTerminalSteps rid marker = stmt (\<lambda>t.
     let P = (\<lambda>s. step_run_id s = rid \<and> step_status s \<in> {''running'', ''pending''}) in
     (Inr (count_where P (t_steps t)),
      t\<lparr>t_steps := update_where P (\<lambda>s. s\<lparr>step_status := marker\<rparr>) (t_steps t)\<rparr>))"

text \<open>An empty filter field adds no clause; a non-positive limit or offset adds none either.\<close>

definition opt_eq :: "string \<Rightarrow> string \<Rightarrow> bool" where
  "opt_eq f v \<longleftrightarrow> f = '''' \<or> v = f"

record run_filter =
  rf_status :: string
  rf_workflow_name :: string
  rf_template_name :: string
  rf_creator :: string
  rf_incident_id :: string
  rf_limit :: int
  rf_offset :: int
  rf_tenant_id :: string

definition empty_run_filter :: run_filter where
  "empty_run_filter = \<lparr>rf_status = '''', rf_workflow_name = '''', rf_template_name = '''',
     rf_creator = '''', rf_incident_id = '''', rf_limit = 0, rf_offset = 0, rf_tenant_id = ''''\<rparr>"

definition run_matches :: "run_filter \<Rightarrow> run_row \<Rightarrow> bool" where
  "run_matches f r \<longleftrightarrow> opt_eq (rf_status f) (run_status r) \<and>
     opt_eq (rf_workflow_name f) (run_workflow_name r) \<and>
     opt_eq (rf_template_name f) (run_template_name r) \<and>
     opt_eq (rf_creator f) (run_creator r) \<and>
     opt_eq (rf_incident_id f) (run_incident_id r) \<and>
     opt_eq (rf_tenant_id f) (run_tenant_id r)"

definition limit_rows :: "int \<Rightarrow> int \<Rightarrow> 'a list \<Rightarrow> 'a list" where
  "limit_rows lim off xs =
     (let ys = (if 0 < off then drop (nat off) xs else xs)
      in if 0 < lim then take (nat lim) ys else ys)"

text \<open>
  \<^verbatim>\<open>ListRuns\<close> and \<^verbatim>\<open>ListAudits\<close> append \<^verbatim>\<open>OFFSET\<close> whether or not they appended
  \<^verbatim>\<open>LIMIT\<close>; SQLite's grammar has no \<^verbatim>\<open>OFFSET\<close> without \<^verbatim>\<open>LIMIT\<close>, so that text does not
  parse. Rows with equal sort keys come in insertion order here; the engine promises no order
  among them, and nothing proved about these two listings depends on it.
\<close>

definition ListRuns :: "run_filter \<Rightarrow> run_row list op" where
  "ListRuns f = stmt (\<lambda>t.
     if rf_limit f \<le> 0 \<and> 0 < rf_offset f then (Inl SyntaxError, t)
     else (Inr (limit_rows (rf_limit f) (rf_offset f)
             (sort_key (\<lambda>r. - run_created_at r) (filter (run_matches f) (t_runs t)))), t))"

text \<open>
  The cascade of a run's deletion reaches its traces, where the WORM trigger aborts the whole
  statement; a run without traces goes with its batches, their steps, its steps and its approvals.
\<close>

definition DeleteRun :: "string \<Rightarrow> unit op" where
  "DeleteRun i = stmt (\<lambda>t.
     if i \<notin> run_id ` set (t_runs t) then (Inr (), t)
     else if i \<in> tr_run_id ` set (t_traces t) then (Inl WormViolation, t)
     else (let gone = {bt_id b |b. b \<in> set (t_batches t) \<and> bt_run_id b = i} in
       (Inr (), t\<lparr>t_runs := filter (\<lambda>r. run_id r \<noteq> i) (t_runs t),
             t_batches := filter (\<lambda>b. bt_run_id b \<noteq> i) (t_batches t),
             t_steps := filter (\<lambda>s. step_run_id s \<noteq> i \<and> step_batch_id s \<notin> gone) (t_steps t),
             t_approvals := filter (\<lambda>a. ap_run_id a \<noteq> i) (t_approvals t)\<rparr>)))"

section \<open>Batches\<close>

record batch_filter =
  bf_run_id :: string
  bf_status :: string
  bf_limit :: int
  bf_tenant_id :: string

definition batch_matches :: "batch_filter \<Rightarrow> batch_row \<Rightarrow> bool" where
  "batch_matches f b \<longleftrightarrow> opt_eq (bf_run_id f) (bt_run_id b) \<and> opt_eq (bf_status f) (bt_status b) \<and>
     opt_eq (bf_tenant_id f) (bt_tenant_id b)"

text \<open>The constraints of the table: the key, one batch per run and number, and the run exists.\<close>

definition batch_violation :: "batch_row \<Rightarrow> batch_row list \<Rightarrow> tables \<Rightarrow> store_error option" where
  "batch_violation b others t =
     (if bt_id b \<in> bt_id ` set others \<or> (bt_run_id b, bt_batch_no b) \<in> (\<lambda>x. (bt_run_id x, bt_batch_no x)) ` set others
      then Some UniqueViolation
      else if bt_run_id b \<notin> run_id ` set (t_runs t) then Some ForeignKeyViolation
      else None)"

definition CreateBatch :: "batch_row \<Rightarrow> unit op" where
  "CreateBatch b = stmt (\<lambda>t. case batch_violation b (t_batches t) t of
     Some e \<Rightarrow> (Inl e, t)
   | None \<Rightarrow> (Inr (), t\<lparr>t_batches := t_batches t @ [b]\<rparr>))"

definition GetBatch :: "string \<Rightarrow> batch_row option op" where
  "GetBatch i = query (\<lambda>t. find (\<lambda>b. bt_id b = i) (t_batches t))"

definition UpdateBatch :: "batch_row \<Rightarrow> unit op" where
  "UpdateBatch b = stmt (\<lambda>t.
     if count_where (\<lambda>x. bt_id x = bt_id b) (t_batches t) = 0 then (Inl RowNotFound, t)
     else case batch_violation b (filter (\<lambda>x. bt_id x \<noteq> bt_id b) (t_batches t)) t of
       Some e \<Rightarrow> (Inl e, t)
     | None \<Rightarrow> (Inr (), t\<lparr>t_batches := update_where (\<lambda>x. bt_id x = bt_id b) (\<lambda>_. b) (t_batches t)\<rparr>))"

definition ListBatches :: "batch_filter \<Rightarrow> batch_row list op" where
  "ListBatches f = query (\<lambda>t. limit_rows (bf_limit f) 0 (sort_key bt_batch_no (filter (batch_matches f) (t_batches t))))"

text \<open>The steps of a batch go with it.\<close>

definition DeleteBatch :: "string \<Rightarrow> unit op" where
  "DeleteBatch i = stmt (\<lambda>t.
     if i \<notin> bt_id ` set (t_batches t) then (Inr (), t)
     else (Inr (), t\<lparr>t_batches := filter (\<lambda>b. bt_id b \<noteq> i) (t_batches t),
            t_steps := filter (\<lambda>s. step_batch_id s \<noteq> i) (t_steps t)\<rparr>))"

section \<open>Steps\<close>

definition step_violation :: "step_row \<Rightarrow> tables \<Rightarrow> bool" where
  "step_violation s t \<longleftrightarrow> step_run_id s \<notin> run_id ` set (t_runs t) \<or> step_batch_id s \<notin> bt_id ` set (t_batches t)"

definition CreateStep :: "step_row \<Rightarrow> unit op" where
  "CreateStep s = stmt (\<lambda>t.
     if step_id s \<in> step_id ` set (t_steps t) then (Inl UniqueViolation, t)
     else if step_violation s t then (Inl ForeignKeyViolation, t)
     else (Inr (), t\<lparr>t_steps := t_steps t @ [s]\<rparr>))"

definition GetStep :: "string \<Rightarrow> step_row option op" where
  "GetStep i = query (\<lambda>t. find (\<lambda>s. step_id s = i) (t_steps t))"

definition UpdateStep :: "step_row \<Rightarrow> unit op" where
  "UpdateStep s = stmt (\<lambda>t.
     if count_where (\<lambda>x. step_id x = step_id s) (t_steps t) = 0 then (Inl RowNotFound, t)
     else if step_violation s t then (Inl ForeignKeyViolation, t)
     else (Inr (), t\<lparr>t_steps := update_where (\<lambda>x. step_id x = step_id s) (\<lambda>_. s) (t_steps t)\<rparr>))"

definition DeleteStep :: "string \<Rightarrow> unit op" where
  "DeleteStep i = stmt (\<lambda>t. (Inr (), t\<lparr>t_steps := filter (\<lambda>s. step_id s \<noteq> i) (t_steps t)\<rparr>))"

record step_filter =
  sf_run_id :: string
  sf_batch_id :: string
  sf_host :: string
  sf_status :: string
  sf_limit :: int
  sf_tenant_id :: string

definition empty_step_filter :: step_filter where
  "empty_step_filter = \<lparr>sf_run_id = '''', sf_batch_id = '''', sf_host = '''', sf_status = '''',
     sf_limit = 0, sf_tenant_id = ''''\<rparr>"

definition step_matches :: "step_filter \<Rightarrow> step_row \<Rightarrow> bool" where
  "step_matches f s \<longleftrightarrow> opt_eq (sf_run_id f) (step_run_id s) \<and>
     opt_eq (sf_batch_id f) (step_batch_id s) \<and> opt_eq (sf_host f) (step_host s) \<and>
     opt_eq (sf_status f) (step_status s) \<and> opt_eq (sf_tenant_id f) (step_tenant_id s)"

text \<open>\<^verbatim>\<open>ORDER BY started_at ASC\<close> puts the rows without a start time first.\<close>

definition null_first :: "time option \<Rightarrow> int list" where
  "null_first t = (case t of None \<Rightarrow> [] | Some v \<Rightarrow> [v])"

definition ListSteps :: "step_filter \<Rightarrow> step_row list op" where
  "ListSteps f = query (\<lambda>t. limit_rows (sf_limit f) 0
     (sort_key (\<lambda>s. null_first (step_started_at s)) (filter (step_matches f) (t_steps t))))"

section \<open>Traces\<close>

text \<open>The columns \<^verbatim>\<open>worm_prevent_trace_update\<close> protects; the hash columns stay writable.\<close>

definition same_trace_content :: "trace_row \<Rightarrow> trace_row \<Rightarrow> bool" where
  "same_trace_content a b \<longleftrightarrow> tr_id a = tr_id b \<and> tr_run_id a = tr_run_id b \<and>
     tr_event a = tr_event b \<and> tr_actor a = tr_actor b \<and> tr_detail a = tr_detail b \<and>
     tr_tenant_id a = tr_tenant_id b \<and> tr_timestamp a = tr_timestamp b"

definition CreateTrace :: "trace_row \<Rightarrow> unit op" where
  "CreateTrace x = stmt (\<lambda>t.
     if tr_id x \<in> tr_id ` set (t_traces t) then (Inl ErrTraceExists, t)
     else if tr_run_id x \<notin> run_id ` set (t_runs t) then (Inl ForeignKeyViolation, t)
     else (Inr (), t\<lparr>t_traces := t_traces t @ [x]\<rparr>))"

definition GetTrace :: "string \<Rightarrow> trace_row option op" where
  "GetTrace i = query (\<lambda>t. find (\<lambda>x. tr_id x = i) (t_traces t))"

definition UpdateTrace :: "trace_row \<Rightarrow> unit op" where
  "UpdateTrace x = stmt (\<lambda>t.
     if \<exists>y\<in>set (t_traces t). tr_id y = tr_id x \<and> \<not> same_trace_content x y
     then (Inl WormViolation, t)
     else if count_where (\<lambda>y. tr_id y = tr_id x) (t_traces t) = 0 then (Inl RowNotFound, t)
     else (Inr (), t\<lparr>t_traces := update_where (\<lambda>y. tr_id y = tr_id x) (\<lambda>y. x) (t_traces t)\<rparr>))"

definition UpdateTraceChecksum :: "string \<Rightarrow> string \<Rightarrow> unit op" where
  "UpdateTraceChecksum i cs w =
     (if i = '''' \<or> cs = '''' then (Inl BadArgument, w)
      else stmt (\<lambda>t. let P = (\<lambda>y. tr_id y = i \<and> tr_curr_hash y = '''') in
        if count_where P (t_traces t) = 0 then (Inl RowNotFound, t)
        else (Inr (), t\<lparr>t_traces := update_where P (\<lambda>y. y\<lparr>tr_curr_hash := cs\<rparr>) (t_traces t)\<rparr>)) w)"

definition UpdateTraceChain :: "string \<Rightarrow> string \<Rightarrow> string \<Rightarrow> unit op" where
  "UpdateTraceChain i ph ch = stmt (\<lambda>t.
     if count_where (\<lambda>y. tr_id y = i) (t_traces t) = 0 then (Inl RowNotFound, t)
     else (Inr (), t\<lparr>t_traces := update_where (\<lambda>y. tr_id y = i)
            (\<lambda>y. y\<lparr>tr_prev_hash := ph, tr_curr_hash := ch\<rparr>) (t_traces t)\<rparr>))"

record trace_filter =
  tf_run_id :: string
  tf_event :: string
  tf_limit :: int
  tf_offset :: int
  tf_tenant_id :: string

definition run_traces_filter :: "string \<Rightarrow> trace_filter" where
  "run_traces_filter rid =
     \<lparr>tf_run_id = rid, tf_event = '''', tf_limit = 0, tf_offset = 0, tf_tenant_id = ''''\<rparr>"

definition trace_matches :: "trace_filter \<Rightarrow> trace_row \<Rightarrow> bool" where
  "trace_matches f x \<longleftrightarrow> opt_eq (tf_run_id f) (tr_run_id x) \<and> opt_eq (tf_event f) (tr_event x) \<and>
     opt_eq (tf_tenant_id f) (tr_tenant_id x)"

text \<open>\<^verbatim>\<open>ORDER BY timestamp ASC, id ASC\<close>: a total order, by sorting on the id first.\<close>

definition trace_order :: "trace_row list \<Rightarrow> trace_row list" where
  "trace_order xs = sort_key tr_timestamp (sort_key tr_id xs)"

definition ListTraces :: "trace_filter \<Rightarrow> trace_row list op" where
  "ListTraces f = query (\<lambda>t. let xs = trace_order (filter (trace_matches f) (t_traces t)) in
     if 0 < tf_limit f then limit_rows (tf_limit f) (tf_offset f) xs else xs)"

definition DeleteTrace :: "string \<Rightarrow> unit op" where
  "DeleteTrace i = stmt (\<lambda>t.
     if i \<in> tr_id ` set (t_traces t) then (Inl WormViolation, t) else (Inr (), t))"

section \<open>Approvals\<close>

definition CreateApproval :: "approval_row \<Rightarrow> unit op" where
  "CreateApproval a = stmt (\<lambda>t.
     if ap_id a \<in> ap_id ` set (t_approvals t) then (Inl UniqueViolation, t)
     else if ap_run_id a \<notin> run_id ` set (t_runs t) then (Inl ForeignKeyViolation, t)
     else (Inr (), t\<lparr>t_approvals := t_approvals t @ [a]\<rparr>))"

definition GetApproval :: "string \<Rightarrow> approval_row option op" where
  "GetApproval i = query (\<lambda>t. find (\<lambda>a. ap_id a = i) (t_approvals t))"

text \<open>Both updates write every column but the id and count the stored revision up.\<close>

definition set_approval :: "approval_row \<Rightarrow> approval_row \<Rightarrow> approval_row" where
  "set_approval new old = new\<lparr>ap_id := ap_id old, ap_revision := ap_revision old + 1\<rparr>"

definition UpdateApproval :: "approval_row \<Rightarrow> unit op" where
  "UpdateApproval a = stmt (\<lambda>t.
     if count_where (\<lambda>x. ap_id x = ap_id a) (t_approvals t) = 0 then (Inl RowNotFound, t)
     else (Inr (), t\<lparr>t_approvals :=
            update_where (\<lambda>x. ap_id x = ap_id a) (set_approval a) (t_approvals t)\<rparr>))"

definition UpdateApprovalIfPending :: "approval_row \<Rightarrow> bool op" where
  "UpdateApprovalIfPending a = stmt (\<lambda>t.
     let P = (\<lambda>x. ap_id x = ap_id a \<and> ap_status x = ''pending'' \<and> ap_revision x = ap_revision a) in
     (Inr (0 < count_where P (t_approvals t)),
      t\<lparr>t_approvals := update_where P (set_approval a) (t_approvals t)\<rparr>))"

record approval_filter =
  af_run_id :: string
  af_level :: string
  af_status :: string
  af_limit :: int
  af_tenant_id :: string

definition approval_matches :: "approval_filter \<Rightarrow> approval_row \<Rightarrow> bool" where
  "approval_matches f a \<longleftrightarrow> opt_eq (af_run_id f) (ap_run_id a) \<and> opt_eq (af_level f) (ap_level a) \<and>
     opt_eq (af_status f) (ap_status a) \<and> opt_eq (af_tenant_id f) (ap_tenant_id a)"

definition ListApprovals :: "approval_filter \<Rightarrow> approval_row list op" where
  "ListApprovals f = query (\<lambda>t. limit_rows (af_limit f) 0
     (sort_key (\<lambda>a. null_first (ap_timeout_at a)) (filter (approval_matches f) (t_approvals t))))"

definition DeleteApproval :: "string \<Rightarrow> unit op" where
  "DeleteApproval i = stmt (\<lambda>t.
     (Inr (), t\<lparr>t_approvals := filter (\<lambda>a. ap_id a \<noteq> i) (t_approvals t)\<rparr>))"

section \<open>Locks\<close>

definition CreateLock :: "lock_row \<Rightarrow> unit op" where
  "CreateLock l = stmt (\<lambda>t.
     if lk_id l \<in> lk_id ` set (t_locks t) \<or> lk_scope l \<in> lk_scope ` set (t_locks t)
     then (Inl UniqueViolation, t)
     else (Inr (), t\<lparr>t_locks := t_locks t @ [l]\<rparr>))"

definition GetLock :: "string \<Rightarrow> lock_row option op" where
  "GetLock i = query (\<lambda>t. find (\<lambda>l. lk_id l = i) (t_locks t))"

definition GetLockByScope :: "string \<Rightarrow> lock_row option op" where
  "GetLockByScope sc = query (\<lambda>t. find (\<lambda>l. lk_scope l = sc) (t_locks t))"

definition UpdateLock :: "lock_row \<Rightarrow> unit op" where
  "UpdateLock l = stmt (\<lambda>t.
     if count_where (\<lambda>x. lk_id x = lk_id l) (t_locks t) = 0 then (Inl RowNotFound, t)
     else if \<exists>x\<in>set (t_locks t). lk_scope x = lk_scope l \<and> lk_id x \<noteq> lk_id l
     then (Inl UniqueViolation, t)
     else (Inr (), t\<lparr>t_locks := update_where (\<lambda>x. lk_id x = lk_id l) (\<lambda>x. l) (t_locks t)\<rparr>))"

definition UpdateLockOwnedBy :: "string \<Rightarrow> string \<Rightarrow> int \<Rightarrow> time \<Rightarrow> nat op" where
  "UpdateLockOwnedBy i owner ttl_seconds now = stmt (\<lambda>t.
     let P = (\<lambda>x. lk_id x = i \<and> lk_expires_at x \<le> now) in
     (Inr (count_where P (t_locks t)),
      t\<lparr>t_locks := update_where P (\<lambda>x. x\<lparr>lk_owner := owner, lk_ttl_seconds := ttl_seconds,
          lk_acquired_at := now, lk_expires_at := now + ttl_seconds * second\<rparr>) (t_locks t)\<rparr>))"

definition ListLocks :: "lock_row list op" where
  "ListLocks = query (\<lambda>t. sort_key lk_expires_at (t_locks t))"

definition DeleteLock :: "string \<Rightarrow> unit op" where
  "DeleteLock i = stmt (\<lambda>t. (Inr (), t\<lparr>t_locks := filter (\<lambda>l. lk_id l \<noteq> i) (t_locks t)\<rparr>))"

definition DeleteLockByIDAndOwner :: "string \<Rightarrow> string \<Rightarrow> bool op" where
  "DeleteLockByIDAndOwner i owner = stmt (\<lambda>t.
     let P = (\<lambda>l. lk_id l = i \<and> lk_owner l = owner) in
     (Inr (0 < count_where P (t_locks t)), t\<lparr>t_locks := filter (\<lambda>l. \<not> P l) (t_locks t)\<rparr>))"

definition DeleteExpiredLocks :: "time \<Rightarrow> nat op" where
  "DeleteExpiredLocks now = stmt (\<lambda>t.
     (Inr (count_where (\<lambda>l. lk_expires_at l < now) (t_locks t)),
      t\<lparr>t_locks := filter (\<lambda>l. \<not> lk_expires_at l < now) (t_locks t)\<rparr>))"

section \<open>Assignments\<close>

definition CreateAssignment :: "assignment_row \<Rightarrow> unit op" where
  "CreateAssignment a w = (case time_now w of (now, w1) \<Rightarrow>
     stmt (\<lambda>t. if as_run_id a \<in> as_run_id ` set (t_assignments t) then (Inl UniqueViolation, t)
       else (Inr (), t\<lparr>t_assignments :=
              t_assignments t @ [a\<lparr>as_assigned_at := now, as_updated_at := now\<rparr>]\<rparr>)) w1)"

definition GetAssignment :: "string \<Rightarrow> assignment_row option op" where
  "GetAssignment rid = query (\<lambda>t. find (\<lambda>a. as_run_id a = rid) (t_assignments t))"

text \<open>The shape the five conditional updates of an assignment share.\<close>

definition update_assignment ::
    "(assignment_row \<Rightarrow> bool) \<Rightarrow> (time \<Rightarrow> assignment_row \<Rightarrow> assignment_row) \<Rightarrow> bool op" where
  "update_assignment P f w = (case time_now w of (now, w1) \<Rightarrow>
     stmt (\<lambda>t. (Inr (0 < count_where P (t_assignments t)),
       t\<lparr>t_assignments := update_where P (f now) (t_assignments t)\<rparr>)) w1)"

definition UpdateAssignmentStateIf :: "string \<Rightarrow> int \<Rightarrow> string \<Rightarrow> string \<Rightarrow> bool op" where
  "UpdateAssignmentStateIf rid epoch expected next_st = update_assignment
     (\<lambda>a. as_run_id a = rid \<and> as_epoch a = epoch \<and> as_state a = expected)
     (\<lambda>now a. a\<lparr>as_state := next_st, as_updated_at := now\<rparr>)"

definition UpdateAssignmentState :: "string \<Rightarrow> string \<Rightarrow> bool op" where
  "UpdateAssignmentState rid next_st = update_assignment
     (\<lambda>a. as_run_id a = rid \<and> as_state a \<in> {''pending'', ''executing''})
     (\<lambda>now a. a\<lparr>as_state := next_st, as_updated_at := now\<rparr>)"

definition Reassign :: "string \<Rightarrow> int \<Rightarrow> string \<Rightarrow> bool op" where
  "Reassign rid prev_epoch new_node = update_assignment
     (\<lambda>a. as_run_id a = rid \<and> as_epoch a = prev_epoch)
     (\<lambda>now a. a\<lparr>as_owner_node := new_node, as_epoch := as_epoch a + 1, as_state := ''pending'',
                as_result := '''', as_updated_at := now\<rparr>)"

definition ReclaimAssignment :: "string \<Rightarrow> int \<Rightarrow> string \<Rightarrow> bool op" where
  "ReclaimAssignment rid epoch new_node = update_assignment
     (\<lambda>a. as_run_id a = rid \<and> as_epoch a = epoch \<and> as_state a = ''pending'')
     (\<lambda>now a. a\<lparr>as_owner_node := new_node, as_epoch := as_epoch a + 1, as_state := ''pending'',
                as_result := '''', as_updated_at := now\<rparr>)"

definition isAssignResult :: "string \<Rightarrow> bool" where
  "isAssignResult s \<longleftrightarrow> s \<in> set [''completed'', ''failed'', ''rolled_back'']"

definition SetAssignmentResult :: "string \<Rightarrow> int \<Rightarrow> string \<Rightarrow> unit op" where
  "SetAssignmentResult rid epoch res w =
     (if \<not> isAssignResult res then (Inl BadArgument, w)
      else case update_assignment (\<lambda>a. as_run_id a = rid \<and> as_epoch a = epoch)
             (\<lambda>now a. a\<lparr>as_result := res, as_updated_at := now\<rparr>) w of
        (Inl e, w1) \<Rightarrow> (Inl e, w1) | (Inr _, w1) \<Rightarrow> (Inr (), w1))"

record assignment_filter =
  sgf_run_id :: string
  sgf_owner_node :: string
  sgf_state :: string
  sgf_exclude_states :: "string list"
  sgf_tenant_id :: string
  sgf_limit :: int

definition assignment_matches :: "assignment_filter \<Rightarrow> assignment_row \<Rightarrow> bool" where
  "assignment_matches f a \<longleftrightarrow> opt_eq (sgf_run_id f) (as_run_id a) \<and>
     opt_eq (sgf_owner_node f) (as_owner_node a) \<and> opt_eq (sgf_state f) (as_state a) \<and>
     as_state a \<notin> set (sgf_exclude_states f) \<and> opt_eq (sgf_tenant_id f) (as_tenant_id a)"

definition ListAssignments :: "assignment_filter \<Rightarrow> assignment_row list op" where
  "ListAssignments f = query (\<lambda>t. limit_rows (sgf_limit f) 0
     (sort_key as_assigned_at (filter (assignment_matches f) (t_assignments t))))"

definition DeleteAssignment :: "string \<Rightarrow> unit op" where
  "DeleteAssignment rid = stmt (\<lambda>t.
     (Inr (), t\<lparr>t_assignments := filter (\<lambda>a. as_run_id a \<noteq> rid) (t_assignments t)\<rparr>))"

section \<open>Audit rows\<close>

definition CreateAudit :: "audit_row \<Rightarrow> unit op" where
  "CreateAudit a = stmt (\<lambda>t.
     if au_id a \<in> au_id ` set (t_audits t) then (Inl UniqueViolation, t)
     else (Inr (), t\<lparr>t_audits := t_audits t @ [a]\<rparr>))"

definition GetAudit :: "string \<Rightarrow> audit_row option op" where
  "GetAudit i = query (\<lambda>t. find (\<lambda>a. au_id a = i) (t_audits t))"

definition UpdateAuditChain :: "string \<Rightarrow> string \<Rightarrow> string \<Rightarrow> unit op" where
  "UpdateAuditChain i ph ch = stmt (\<lambda>t.
     if count_where (\<lambda>a. au_id a = i) (t_audits t) = 0 then (Inl RowNotFound, t)
     else (Inr (), t\<lparr>t_audits := update_where (\<lambda>a. au_id a = i)
            (\<lambda>a. a\<lparr>au_prev_hash := ph, au_curr_hash := ch\<rparr>) (t_audits t)\<rparr>))"

record audit_filter =
  adf_run_id :: string
  adf_action :: string
  adf_actor :: string
  adf_target :: string
  adf_limit :: int
  adf_offset :: int
  adf_tenant_id :: string

definition audit_matches :: "audit_filter \<Rightarrow> audit_row \<Rightarrow> bool" where
  "audit_matches f a \<longleftrightarrow> opt_eq (adf_run_id f) (au_run_id a) \<and> opt_eq (adf_action f) (au_action a) \<and>
     opt_eq (adf_actor f) (au_actor a) \<and> opt_eq (adf_target f) (au_target a) \<and>
     opt_eq (adf_tenant_id f) (au_tenant_id a)"

definition ListAudits :: "audit_filter \<Rightarrow> audit_row list op" where
  "ListAudits f = stmt (\<lambda>t.
     if adf_limit f \<le> 0 \<and> 0 < adf_offset f then (Inl SyntaxError, t)
     else (Inr (limit_rows (adf_limit f) (adf_offset f)
             (sort_key (\<lambda>a. - au_timestamp a) (filter (audit_matches f) (t_audits t)))), t))"

definition DefaultAuditChainPageSize :: nat where
  "DefaultAuditChainPageSize = 1000"

text \<open>The chain order \<^verbatim>\<open>(timestamp, id)\<close> and the keyset predicate of one page.\<close>

type_synonym audit_cursor = "time \<times> string"

definition audit_key :: "audit_row \<Rightarrow> audit_cursor" where
  "audit_key a = (au_timestamp a, au_id a)"

definition key_after :: "audit_cursor \<Rightarrow> audit_cursor \<Rightarrow> bool" where
  "key_after c k \<longleftrightarrow> fst c < fst k \<or> (fst k = fst c \<and> snd c < snd k)"

definition chain_order :: "audit_row list \<Rightarrow> audit_row list" where
  "chain_order xs = sort_key au_timestamp (sort_key au_id xs)"

definition ListAuditChainPage :: "audit_cursor option \<Rightarrow> nat \<Rightarrow> string \<Rightarrow> audit_row list op" where
  "ListAuditChainPage after limit tenant = query (\<lambda>t.
     take (if limit = 0 then DefaultAuditChainPageSize else limit)
       (chain_order (filter (\<lambda>a. (case after of None \<Rightarrow> True | Some c \<Rightarrow> key_after c (audit_key a))
          \<and> opt_eq tenant (au_tenant_id a)) (t_audits t))))"

definition AuditTargetHost :: "string \<Rightarrow> string \<Rightarrow> string" where
  "AuditTargetHost rid host = rid @ ''/'' @ host"

section \<open>A store with given tables and quiet surroundings\<close>

text \<open>The clock advances one second per effect, random reads give the numerals.\<close>

definition no_rows :: tables where
  "no_rows = \<lparr>t_runs = [], t_steps = [], t_traces = [], t_approvals = [], t_locks = [],
     t_audits = [], t_assignments = [], t_executions = [], t_cluster_locks = [], t_nodes = [],
     seq_epoch = 0, seq_fence = 0, t_batches = []\<rparr>"

definition still_world :: "tables \<Rightarrow> world" where
  "still_world t = \<lparr>w_tbl = t, w_tick = 0, w_clock = (\<lambda>n. int n * second),
     w_rand = (\<lambda>n. Some (itoa n)), w_fault = (\<lambda>n. False), w_intf = (\<lambda>n. id)\<rparr>"

lemma quiet_still_world [simp]: "quiet (still_world t)"
  by (simp add: quiet_def still_world_def)

lemma still_world_simps [simp]:
  "w_tbl (still_world t) = t" "w_tick (still_world t) = 0" "w_clock (still_world t) n = int n * second"
  "w_rand (still_world t) n = Some (itoa n)"
  by (simp_all add: still_world_def)

section \<open>What holds of the tables whatever the surroundings do\<close>

text \<open>
  \<open>upheld I w\<close>: the tables satisfy \<open>I\<close> now, and the other processes keep it. A statement
  that keeps \<open>I\<close> then leaves it upheld, whether it ran or failed, and saw tables satisfying it.
\<close>

definition upheld :: "(tables \<Rightarrow> bool) \<Rightarrow> world \<Rightarrow> bool" where
  "upheld I w \<longleftrightarrow> I (w_tbl w) \<and> (\<forall>n t. I t \<longrightarrow> I (w_intf w n t))"

lemma upheld_tick [simp]: "upheld I (w\<lparr>w_tick := n\<rparr>) = upheld I w"
  by (simp add: upheld_def)

lemma upheld_stmt:
  assumes "upheld I w" and "stmt f w = (r, w')" and "\<And>t. I t \<Longrightarrow> I (snd (f t))"
  shows "upheld I w'"
proof -
  let ?t = "w_intf w (w_tick w) (w_tbl w)"
  have t: "I ?t" using assms(1) by (simp add: upheld_def)
  from assms(2) have "I (w_tbl w')"
  proof (cases rule: stmt_cases)
    case ran
    then show ?thesis using assms(3) [OF t] by simp
  qed (use t in simp)
  with assms(1) stmt_env(4) [OF assms(2)] show ?thesis by (simp add: upheld_def)
qed

lemma upheld_query:
  assumes "upheld I w" and "query f w = (r, w')"
  shows "upheld I w'"
  using upheld_stmt [OF assms(1) assms(2) [unfolded query_def]] by simp

lemma upheld_saw:
  assumes "upheld I w" and "stmt f w = (r, w')"
  shows "r = Inl DriverError \<or> (\<exists>t. I t \<and> f t = (r, w_tbl w'))"
  using assms(2)
proof (cases rule: stmt_cases)
  case ran
  then show ?thesis using assms(1) by (auto simp: upheld_def)
qed simp

lemma upheld_read:
  assumes "upheld I w" and "query f w = (r, w')"
  shows "r = Inl DriverError \<or> (\<exists>t. I t \<and> r = Inr (f t))"
  using upheld_saw [OF assms(1) assms(2) [unfolded query_def]] by auto

lemma query_env:
  assumes "query f w = (r, w')"
  shows "w_clock w' = w_clock w" "w_rand w' = w_rand w" "w_fault w' = w_fault w" "w_intf w' = w_intf w"
  using stmt_env [OF assms [unfolded query_def]] by simp_all

lemma quiet_upheld: "quiet w \<Longrightarrow> upheld I w \<longleftrightarrow> I (w_tbl w)"
  by (simp add: upheld_def)

text \<open>An operation changes the tables and the count of effects, never the surroundings.\<close>

definition same_env :: "world \<Rightarrow> world \<Rightarrow> bool" where
  "same_env w w' \<longleftrightarrow> w_clock w' = w_clock w \<and> w_rand w' = w_rand w \<and> w_fault w' = w_fault w \<and> w_intf w' = w_intf w"

lemma same_env_stmt: "stmt f w = (r, w') \<Longrightarrow> same_env w w'"
  using stmt_env [of f w r w'] by (simp add: same_env_def)

lemma same_env_trans: "same_env w w1 \<Longrightarrow> same_env w1 w2 \<Longrightarrow> same_env w w2"
  by (simp add: same_env_def)

lemma same_env_refl [simp]: "same_env w w" "same_env w (w\<lparr>w_tick := n\<rparr>)"
  by (simp_all add: same_env_def)

text \<open>
  \<open>framed R w w'\<close>: from \<open>w\<close> to \<open>w'\<close> the surroundings stayed and the tables changed within \<open>R\<close>. Nobody
  else writes (\<open>undisturbed\<close>); statements may fail.
\<close>

definition undisturbed :: "world \<Rightarrow> bool" where
  "undisturbed w \<longleftrightarrow> (\<forall>n. w_intf w n = id)"

definition framed :: "(tables \<Rightarrow> tables \<Rightarrow> bool) \<Rightarrow> world \<Rightarrow> world \<Rightarrow> bool" where
  "framed R w w' \<longleftrightarrow> same_env w w' \<and> R (w_tbl w) (w_tbl w')"

lemma quiet_undisturbed: "quiet w \<Longrightarrow> undisturbed w"
  unfolding quiet_def undisturbed_def by blast

lemma framed_env: "framed R w w' \<Longrightarrow> undisturbed w' = undisturbed w" "framed R w w' \<Longrightarrow> quiet w' = quiet w"
  "framed R w w' \<Longrightarrow> w_clock w' = w_clock w"
  unfolding framed_def same_env_def undisturbed_def quiet_def by simp_all

lemma framed_refl: "reflp R \<Longrightarrow> framed R w w" "reflp R \<Longrightarrow> framed R w (w\<lparr>w_tick := n\<rparr>)"
  by (simp_all add: framed_def reflpD)

lemma framed_trans:
  assumes "transp R" and "framed R w w1" and "framed R w1 w2"
  shows "framed R w w2"
proof -
  have "same_env w w2" using same_env_trans assms(2,3) unfolding framed_def by blast
  moreover have "R (w_tbl w) (w_tbl w2)" using transpD [OF assms(1)] assms(2,3) unfolding framed_def by blast
  ultimately show ?thesis unfolding framed_def by blast
qed

lemma framed_mono: "(\<And>a b. R a b \<Longrightarrow> S a b) \<Longrightarrow> framed R w w' \<Longrightarrow> framed S w w'"
  by (simp add: framed_def)

lemma framed_stmt:
  assumes "undisturbed w" and "stmt f w = (r, w')" and "reflp R" and "\<And>t. R t (snd (f t))"
  shows "framed R w w'"
proof -
  have i: "w_intf w (w_tick w) = id" using assms(1) by (simp add: undisturbed_def)
  from assms(2) have "R (w_tbl w) (w_tbl w')"
  proof (cases rule: stmt_cases)
    case ran
    then show ?thesis using assms(4) [of "w_tbl w"] i by (metis id_apply snd_conv)
  qed (use i assms(3) in \<open>simp add: reflpD\<close>)
  then show ?thesis using same_env_stmt [OF assms(2)] by (simp add: framed_def)
qed

lemma framed_query:
  assumes "undisturbed w" and "query f w = (r, w')"
  shows "framed (=) w w'"
  using framed_stmt [OF assms(1) assms(2) [unfolded query_def], of "(=)"] by simp

end
