(* ===== verification/Audit_Canonical.thy ===== *)
theory Audit_Canonical
  imports State_Store "HOL-Library.Word"
begin

text \<open>
  \<^verbatim>\<open>internal/audit/canonical.go\<close>: how audit and trace rows are turned into bytes and hashed.

  SHA-256 and HMAC-SHA256 are parameters (the record \<open>crypto\<close>): functions into 256-bit words,
  about which nothing else is assumed. In particular nothing assumes that they are injective;
  where a statement needs that, it says instead that the alternative is a collision.
\<close>

record crypto =
  c_sha256 :: "string \<Rightarrow> 256 word"
  c_hmac_sha256 :: "string \<Rightarrow> string \<Rightarrow> 256 word"
  c_env_hmac_key :: string

section \<open>Hex encoding of a digest\<close>

definition hex_char :: "nat \<Rightarrow> char" where
  "hex_char n = (if n < 10 then char_of (48 + n) else char_of (87 + n))"

definition hex_encode :: "256 word \<Rightarrow> string" where
  "hex_encode w = map (\<lambda>i. hex_char (unat (drop_bit (4 * (63 - i)) w) mod 16)) [0..<64]"

lemma of_char_hex_char: "k < 16 \<Longrightarrow> (of_char (hex_char k) :: nat) = (if k < 10 then 48 + k else 87 + k)"
  by (simp add: hex_char_def)

lemma hex_char_inject:
  assumes "m < 16" and "n < 16"
  shows "hex_char m = hex_char n \<longleftrightarrow> m = n"
proof
  assume "hex_char m = hex_char n"
  then have "(of_char (hex_char m) :: nat) = of_char (hex_char n)" by simp
  then show "m = n" using assms by (simp add: of_char_hex_char split: if_splits)
qed simp

lemma length_hex_encode [simp]: "length (hex_encode w) = 64"
  by (simp add: hex_encode_def)

lemma hex_encode_nonempty [simp]: "hex_encode w \<noteq> ''''"
  using length_hex_encode [of w] by (metis length_0_conv zero_neq_numeral)

lemma bit_nibble: "bit (unat (drop_bit (4 * j) w) mod 16) k \<longleftrightarrow> k < 4 \<and> bit (w :: 256 word) (4 * j + k)"
proof -
  have "unat (drop_bit (4 * j) w) mod 16 = take_bit 4 (unat (drop_bit (4 * j) w))"
    by (simp add: take_bit_eq_mod)
  then show ?thesis
    using bit_imp_le_length [of w "4 * j + k"]
    by (auto simp: bit_take_bit_iff unsigned_drop_bit_eq bit_drop_bit_eq bit_unsigned_iff)
qed

lemma hex_encode_inject [simp]: "hex_encode v = hex_encode w \<longleftrightarrow> v = w"
proof
  assume eq: "hex_encode v = hex_encode w"
  have nib: "unat (drop_bit (4 * j) v) mod 16 = unat (drop_bit (4 * j) w) mod 16" if "j < 64" for j
  proof -
    have "hex_encode v ! (63 - j) = hex_encode w ! (63 - j)" using eq by simp
    moreover have "[0..<64] ! (63 - j) = 63 - j" by (subst nth_upt) auto
    ultimately show ?thesis using that by (simp add: hex_encode_def hex_char_inject)
  qed
  show "v = w"
  proof (rule bit_word_eqI)
    fix n assume "n < LENGTH(256)"
    then have "n div 4 < 64" by simp
    from nib [OF this] have "bit v (4 * (n div 4) + n mod 4) \<longleftrightarrow> bit w (4 * (n div 4) + n mod 4)"
      using bit_nibble [of "n div 4" v "n mod 4"] bit_nibble [of "n div 4" w "n mod 4"] by simp
    then show "bit v n \<longleftrightarrow> bit w n" by simp
  qed
qed simp

section \<open>Digests\<close>

definition minHMACKeyLen :: nat where
  "minHMACKeyLen = 16"

definition auditKey :: "crypto \<Rightarrow> string option" where
  "auditKey c = (let raw = c_env_hmac_key c in
     if raw = '''' then None else if length raw < minHMACKeyLen then None else Some raw)"

definition Keyed :: "crypto \<Rightarrow> bool" where
  "Keyed c \<longleftrightarrow> auditKey c \<noteq> None"

definition digest :: "crypto \<Rightarrow> string \<Rightarrow> string" where
  "digest c payload = (case auditKey c of
     Some key \<Rightarrow> hex_encode (c_hmac_sha256 c key payload)
   | None \<Rightarrow> hex_encode (c_sha256 c payload))"

lemma digest_nonempty [simp]: "digest c p \<noteq> ''''"
  by (simp add: digest_def split: option.splits)

text \<open>
  Two given payloads collide. (That some pair collides is true of every digest, so no theorem
  below excludes that: a theorem that allows for a collision names the two payloads, each the
  hashed bytes of a row that is at hand.)
\<close>

definition collision :: "(string \<Rightarrow> string) \<Rightarrow> string \<Rightarrow> string \<Rightarrow> bool" where
  "collision D x y \<longleftrightarrow> x \<noteq> y \<and> D x = D y"

section \<open>Canonical encodings\<close>

definition canonicalV2 :: "string list \<Rightarrow> string" where
  "canonicalV2 fs = concat (map (\<lambda>f. itoa (length f) @ '':'' @ f) fs)"

definition canonicalV1 :: "string list \<Rightarrow> string" where
  "canonicalV1 fs = join_str ''|'' fs"

lemma canonicalV2_Nil [simp]: "canonicalV2 [] = ''''"
  by (simp add: canonicalV2_def)

lemma canonicalV2_Cons: "canonicalV2 (f # fs) = itoa (length f) @ '':'' @ f @ canonicalV2 fs"
  by (simp add: canonicalV2_def)

lemma split_at_colon:
  "u @ CHR '':'' # s = v @ CHR '':'' # t \<Longrightarrow> CHR '':'' \<notin> set u \<Longrightarrow> CHR '':'' \<notin> set v \<Longrightarrow> u = v \<and> s = t"
proof (induction u arbitrary: v)
  case Nil
  then show ?case by (cases v) auto
next
  case (Cons x u)
  then show ?case by (cases v) auto
qed

lemma canonicalV2_inject_aux: "canonicalV2 fs = canonicalV2 gs \<Longrightarrow> fs = gs"
proof (induction fs arbitrary: gs)
  case Nil
  then show ?case by (cases gs) (auto simp: canonicalV2_Cons)
next
  case (Cons f fs)
  then obtain g gs' where gs: "gs = g # gs'" by (cases gs) (auto simp: canonicalV2_Cons)
  with Cons.prems have "itoa (length f) @ CHR '':'' # (f @ canonicalV2 fs) =
      itoa (length g) @ CHR '':'' # (g @ canonicalV2 gs')"
    by (simp add: canonicalV2_Cons)
  from split_at_colon [OF this] have "length f = length g" and "f @ canonicalV2 fs = g @ canonicalV2 gs'"
    by simp_all
  with Cons.IH [of gs'] gs show ?case by simp
qed

lemma canonicalV2_inject [simp]: "canonicalV2 fs = canonicalV2 gs \<longleftrightarrow> fs = gs"
  by (auto dest: canonicalV2_inject_aux)

section \<open>Hashed content\<close>

text \<open>\<^verbatim>\<open>Timestamp.UnixNano()\<close> is a signed 64-bit number.\<close>

definition UnixNano :: "time \<Rightarrow> int" where
  "UnixNano t = wrap64 t"

definition contentFields :: "trace_row \<Rightarrow> string list" where
  "contentFields t = [tr_id t, tr_run_id t, tr_event t, tr_actor t, tr_detail t,
     format_int (UnixNano (tr_timestamp t))]"

definition ComputeChecksum :: "crypto \<Rightarrow> trace_row \<Rightarrow> string" where
  "ComputeChecksum c t = digest c (canonicalV2 (contentFields t))"

definition legacyChecksum :: "crypto \<Rightarrow> trace_row \<Rightarrow> string" where
  "legacyChecksum c t = digest c (canonicalV1 (contentFields t))"

definition ComputeHashV2 :: "crypto \<Rightarrow> trace_row \<Rightarrow> string \<Rightarrow> string" where
  "ComputeHashV2 c t prev = digest c (canonicalV2 (prev # contentFields t))"

definition legacyHash :: "crypto \<Rightarrow> trace_row \<Rightarrow> string \<Rightarrow> string" where
  "legacyHash c t prev = digest c (canonicalV1 (prev # contentFields t))"

text \<open>
  The V2 encoding is injective on lists of fields of any content and any length, while the
  retired V1 encoding maps two different records (same number of fields) to the same bytes: the
  ambiguity that the length prefixes remove.
\<close>

theorem canonical_encodings:
  "inj canonicalV2 \<and> (\<exists>fs gs. fs \<noteq> gs \<and> length fs = length gs \<and> canonicalV1 fs = canonicalV1 gs)"
proof
  show "inj canonicalV2" by (rule injI) simp
  have "canonicalV1 [''a|b'', ''c''] = canonicalV1 [''a'', ''b|c'']"
    by (simp add: canonicalV1_def)
  then show "\<exists>fs gs. fs \<noteq> gs \<and> length fs = length gs \<and> canonicalV1 fs = canonicalV1 gs"
    by (intro exI [of _ "[''a|b'', ''c'']"] exI [of _ "[''a'', ''b|c'']"]) simp
qed

end
