(* ===== verification/Hash_Chain.thy ===== *)
theory Hash_Chain
  imports Audit_Canonical
begin

text \<open>
  What the two hash chains of \<^verbatim>\<open>internal/audit\<close> (over audit rows and over a run's traces) have
  in common, stated once: a row has a list of hashed content fields and two link columns; a
  chain is intact when every row carries its predecessor's hash and the hash of its own content
  bound to it. The locale \<open>hash_chain\<close> is the interface the sealing and verifying walks rely
  on; it is interpreted on the audit rows in \<open>Audit_Chain\<close> and on the trace rows in
  \<open>Trace_Chain\<close>.
\<close>

definition payload :: "('r \<Rightarrow> string list) \<Rightarrow> string \<Rightarrow> 'r \<Rightarrow> string" where
  "payload content p r = canonicalV2 (p # content r)"

definition chain_hash :: "(string \<Rightarrow> string) \<Rightarrow> ('r \<Rightarrow> string list) \<Rightarrow> 'r \<Rightarrow> string \<Rightarrow> string" where
  "chain_hash D content r p = D (payload content p r)"

text \<open>\<open>intact h prv cur p rs\<close>: the rows \<open>rs\<close> form a chain that starts behind the hash \<open>p\<close>.\<close>

fun intact :: "('r \<Rightarrow> string \<Rightarrow> string) \<Rightarrow> ('r \<Rightarrow> string) \<Rightarrow> ('r \<Rightarrow> string) \<Rightarrow> string \<Rightarrow> 'r list \<Rightarrow> bool" where
  "intact h prv cur p [] = True"
| "intact h prv cur p (r # rs) = (prv r = p \<and> cur r = h r p \<and> intact h prv cur (h r p) rs)"

text \<open>The last hash of a chain, \<open>p\<close> when there is no row.\<close>

fun tail_hash :: "('r \<Rightarrow> string) \<Rightarrow> string \<Rightarrow> 'r list \<Rightarrow> string" where
  "tail_hash cur p [] = p"
| "tail_hash cur p (r # rs) = tail_hash cur (cur r) rs"

text \<open>Relinking all rows, whatever they carried.\<close>

fun relink :: "('r \<Rightarrow> string \<Rightarrow> string) \<Rightarrow> (string \<Rightarrow> string \<Rightarrow> 'r \<Rightarrow> 'r) \<Rightarrow> string \<Rightarrow> 'r list \<Rightarrow> 'r list" where
  "relink h link p [] = []"
| "relink h link p (r # rs) = link p (h r p) r # relink h link (h r p) rs"

lemma intact_append:
  "intact h prv cur p (xs @ ys) \<longleftrightarrow>
     intact h prv cur p xs \<and> intact h prv cur (tail_hash cur p xs) ys"
  by (induction xs arbitrary: p) (simp_all cong: conj_cong)

lemma tail_hash_append: "tail_hash cur p (xs @ ys) = tail_hash cur (tail_hash cur p xs) ys"
  by (induction xs arbitrary: p) auto

locale hash_chain =
  fixes D :: "string \<Rightarrow> string"
    and content :: "'r \<Rightarrow> string list"
    and prv :: "'r \<Rightarrow> string"
    and cur :: "'r \<Rightarrow> string"
    and link :: "string \<Rightarrow> string \<Rightarrow> 'r \<Rightarrow> 'r"
  assumes digest_ne: "D x \<noteq> ''''"
    and content_link: "content (link p c r) = content r"
    and prv_link: "prv (link p c r) = p"
    and cur_link: "cur (link p c r) = c"
    and link_self: "link (prv r) (cur r) r = r"
begin

lemma hash_ne: "chain_hash D content r p \<noteq> ''''"
  by (simp add: chain_hash_def digest_ne)

lemma hash_link: "chain_hash D content (link q c r) p = chain_hash D content r p"
  by (simp add: chain_hash_def payload_def content_link)

lemma hash_eq_cases:
  "chain_hash D content r p = chain_hash D content s q \<Longrightarrow>
     (p = q \<and> content r = content s) \<or> collision D (payload content p r) (payload content q s)"
  by (auto simp: chain_hash_def payload_def collision_def)

lemma intact_relink: "intact (chain_hash D content) prv cur p (relink (chain_hash D content) link p rs)"
  by (induction rs arbitrary: p) (simp_all add: prv_link cur_link hash_link)

lemma map_content_relink: "map content (relink h link p rs) = map content rs"
  by (induction rs arbitrary: p) (simp_all add: content_link)

lemma relink_intact: "intact (chain_hash D content) prv cur p rs \<Longrightarrow> relink (chain_hash D content) link p rs = rs"
proof (induction rs arbitrary: p)
  case (Cons r rs)
  then show ?case using link_self [of r] by simp
qed simp

text \<open>
  Two intact chains of one length that end in the same hash have the same content, or two rows
  at the same place collide.
\<close>

abbreviation own_payload :: "'r \<Rightarrow> string" where
  "own_payload r \<equiv> payload content (prv r) r"

lemma binding:
  assumes "intact (chain_hash D content) prv cur p rs" and "intact (chain_hash D content) prv cur q ss"
    and "length rs = length ss" and "tail_hash cur p rs = tail_hash cur q ss"
  shows "(p = q \<and> map content rs = map content ss) \<or>
    (\<exists>(r, s)\<in>set (zip rs ss). collision D (own_payload r) (own_payload s))"
  using assms
proof (induction rs arbitrary: ss p q rule: rev_induct)
  case Nil
  then show ?case by simp
next
  case (snoc r rs)
  then obtain ss' s where ss: "ss = ss' @ [s]" by (cases ss rule: rev_cases) auto
  let ?h = "chain_hash D content"
  let ?p = "tail_hash cur p rs" and ?q = "tail_hash cur q ss'"
  from snoc.prems ss have "?h r ?p = ?h s ?q" and prv: "prv r = ?p" "prv s = ?q"
    by (simp_all add: intact_append tail_hash_append)
  then consider "?p = ?q" "content r = content s" | "collision D (own_payload r) (own_payload s)"
    using hash_eq_cases by metis
  then show ?case
  proof cases
    case 1
    with snoc.IH [of p q ss'] snoc.prems ss show ?thesis by (auto simp: intact_append)
  next
    case 2
    with ss snoc.prems(3) show ?thesis by auto
  qed
qed

text \<open>An intact chain in which one row's content is replaced, its link columns kept.\<close>

lemma altered_row_hash:
  assumes "intact (chain_hash D content) prv cur p (xs @ r # ys)" and "cur r' = cur r" and "prv r' = prv r"
    and "content r' \<noteq> content r"
  shows "cur r' \<noteq> chain_hash D content r' (prv r') \<or> collision D (own_payload r) (own_payload r')"
proof -
  from assms(1) have "cur r = chain_hash D content r (prv r)" by (simp add: intact_append)
  with assms(2) have "cur r' = chain_hash D content r' (prv r') \<Longrightarrow>
      chain_hash D content r (prv r) = chain_hash D content r' (prv r')" by simp
  with hash_eq_cases assms(4) show ?thesis by metis
qed

end

end
