(* ===== verification/Audit_Chain.thy ===== *)
theory Audit_Chain
  imports Hash_Chain "HOL-Library.Multiset"
begin

text \<open>
  The global chain over the audit table: \<^verbatim>\<open>internal/audit/auditchain.go\<close> and
  \<^verbatim>\<open>record.go\<close>. The walk reads the table page by page while its visitor writes link columns
  in between; it is modelled as the code runs it, over the store, and shown to do what one pass
  over the ordered table does (\<open>seal_rows\<close>, \<open>verify_rows\<close>). The page loop has fuel: in a
  quiet world one unit more than the table has rows is enough, and the theorems say so.
\<close>

datatype audit_error =
    ErrChainBroken
  | ErrChainAlreadyBuilt
  | ErrHashMismatch
  | ErrNoTraces
  | ErrEmptyRunID
  | ErrEmptyEvent
  | ErrInvalidBatchSize
  | ErrVerifyFailed
  | ErrAlreadyExists
  | ErrTampered
  | ErrWORMNotFound
  | ErrNilRecord
  | ErrEmptyID
  | ErrRand
  | AuditStore store_error

datatype failure_type = FailureHashMismatch | FailurePrevHashMismatch | FailureEmptyHash

record chain_failure =
  cf_row_id :: string
  cf_index :: nat
  cf_type :: failure_type
  cf_expected :: string
  cf_actual :: string
  cf_prev_expected :: string
  cf_prev_actual :: string

record audit_chain_result =
  acr_count :: nat
  acr_unsealed :: nat
  acr_valid :: bool
  acr_failures :: "chain_failure list"

definition auditContentFields :: "audit_row \<Rightarrow> string list" where
  "auditContentFields a = [au_id a, au_run_id a, au_action a, au_actor a, au_target a,
     au_result a, au_tenant_id a, format_int (UnixNano (au_timestamp a))]"

definition ComputeAuditHash :: "crypto \<Rightarrow> audit_row \<Rightarrow> string \<Rightarrow> string" where
  "ComputeAuditHash c a prev = digest c (canonicalV2 (prev # auditContentFields a))"

definition audit_link :: "string \<Rightarrow> string \<Rightarrow> audit_row \<Rightarrow> audit_row" where
  "audit_link p q a = a\<lparr>au_prev_hash := p, au_curr_hash := q\<rparr>"

lemma audit_hash_chain_hash: "ComputeAuditHash c = chain_hash (digest c) auditContentFields"
  by (simp add: fun_eq_iff ComputeAuditHash_def chain_hash_def payload_def)

text \<open>The bytes a sealed row's stored hash is the digest of.\<close>

definition audit_payload :: "audit_row \<Rightarrow> string" where
  "audit_payload a = canonicalV2 (au_prev_hash a # auditContentFields a)"

lemma audit_payload_own: "audit_payload a = payload auditContentFields (au_prev_hash a) a"
  by (simp add: audit_payload_def payload_def)

interpretation au: hash_chain "digest c" auditContentFields au_prev_hash au_curr_hash audit_link for c
  by unfold_locales (simp_all add: auditContentFields_def audit_link_def)

section \<open>The walk\<close>

type_synonym 'acc visitor = "audit_row \<Rightarrow> 'acc \<Rightarrow> world \<Rightarrow> audit_error option \<times> 'acc \<times> world"

fun visit_page :: "'acc visitor \<Rightarrow> audit_row list \<Rightarrow> 'acc \<Rightarrow> world \<Rightarrow> audit_error option \<times> 'acc \<times> world" where
  "visit_page fn [] acc w = (None, acc, w)"
| "visit_page fn (a # as) acc w = (case fn a acc w of
     (Some e, acc1, w1) \<Rightarrow> (Some e, acc1, w1)
   | (None, acc1, w1) \<Rightarrow> visit_page fn as acc1 w1)"

fun walk_pages :: "nat \<Rightarrow> nat \<Rightarrow> audit_cursor option \<Rightarrow> 'acc visitor \<Rightarrow> 'acc \<Rightarrow> world \<Rightarrow>
    (audit_error option \<times> 'acc \<times> world) option" where
  "walk_pages 0 limit cursor fn acc w = None"
| "walk_pages (Suc fuel) limit cursor fn acc w =
    (case ListAuditChainPage cursor limit '''' w of
       (Inl e, w1) \<Rightarrow> Some (Some (AuditStore e), acc, w1)
     | (Inr page, w1) \<Rightarrow>
        (case visit_page fn page acc w1 of
           (Some e, acc1, w2) \<Rightarrow> Some (Some e, acc1, w2)
         | (None, acc1, w2) \<Rightarrow>
            if length page < limit then Some (None, acc1, w2)
            else walk_pages fuel limit (Some (audit_key (last page))) fn acc1 w2))"

definition walkChain :: "nat \<Rightarrow> nat \<Rightarrow> 'acc visitor \<Rightarrow> 'acc \<Rightarrow> world \<Rightarrow>
    (audit_error option \<times> 'acc \<times> world) option" where
  "walkChain fuel pageSize fn acc w =
     walk_pages fuel (if pageSize = 0 then DefaultAuditChainPageSize else pageSize) None fn acc w"

section \<open>Sealing, rebuilding, verifying\<close>

text \<open>The visitor's accumulator is the closure's variables: rows written so far, previous hash.\<close>

definition seal_visit :: "crypto \<Rightarrow> (nat \<times> string) visitor" where
  "seal_visit c a = (\<lambda>(sealed, prev) w.
     let want = ComputeAuditHash c a prev in
     if au_prev_hash a = prev \<and> au_curr_hash a = want then (None, (sealed, want), w)
     else if au_curr_hash a = '''' then
       (case UpdateAuditChain (au_id a) prev want w of
          (Inl e, w1) \<Rightarrow> (Some (AuditStore e), (sealed, prev), w1)
        | (Inr _, w1) \<Rightarrow> (None, (Suc sealed, want), w1))
     else if ComputeAuditHash c a (au_prev_hash a) = au_curr_hash a then
       (case UpdateAuditChain (au_id a) prev want w of
          (Inl e, w1) \<Rightarrow> (Some (AuditStore e), (sealed, prev), w1)
        | (Inr _, w1) \<Rightarrow> (None, (Suc sealed, want), w1))
     else (Some ErrChainBroken, (sealed, prev), w))"

definition Seal :: "crypto \<Rightarrow> nat \<Rightarrow> nat \<Rightarrow> world \<Rightarrow> (nat \<times> audit_error option \<times> world) option" where
  "Seal c fuel pageSize w = (case walkChain fuel pageSize (seal_visit c) (0, '''') w of
     None \<Rightarrow> None | Some (e, (sealed, _), w1) \<Rightarrow> Some (sealed, e, w1))"

definition rebuild_visit :: "crypto \<Rightarrow> (nat \<times> string) visitor" where
  "rebuild_visit c a = (\<lambda>(written, prev) w.
     let want = ComputeAuditHash c a prev in
     if au_prev_hash a \<noteq> prev \<or> au_curr_hash a \<noteq> want then
       (case UpdateAuditChain (au_id a) prev want w of
          (Inl e, w1) \<Rightarrow> (Some (AuditStore e), (written, prev), w1)
        | (Inr _, w1) \<Rightarrow> (None, (Suc written, want), w1))
     else (None, (written, want), w))"

definition Rebuild :: "crypto \<Rightarrow> nat \<Rightarrow> nat \<Rightarrow> world \<Rightarrow> (nat \<times> audit_error option \<times> world) option" where
  "Rebuild c fuel pageSize w = (case walkChain fuel pageSize (rebuild_visit c) (0, '''') w of
     None \<Rightarrow> None | Some (e, (written, _), w1) \<Rightarrow> Some (written, e, w1))"

text \<open>One row's verdict: the three checks in the order of the code.\<close>

definition audit_failure :: "crypto \<Rightarrow> audit_row \<Rightarrow> nat \<Rightarrow> string \<Rightarrow> chain_failure option" where
  "audit_failure c a i prev =
     (let want = ComputeAuditHash c a prev;
          report = (\<lambda>ft. \<lparr>cf_row_id = au_id a, cf_index = i, cf_type = ft, cf_expected = want,
            cf_actual = au_curr_hash a, cf_prev_expected = prev, cf_prev_actual = au_prev_hash a\<rparr>)
      in if au_curr_hash a = '''' then Some (report FailureEmptyHash)
         else if au_prev_hash a \<noteq> prev then Some (report FailurePrevHashMismatch)
         else if au_curr_hash a \<noteq> want then Some (report FailureHashMismatch)
         else None)"

definition verify_visit :: "crypto \<Rightarrow> (audit_chain_result \<times> string \<times> nat) visitor" where
  "verify_visit c a = (\<lambda>(res, prev, i) w.
     (None,
      ((case audit_failure c a i prev of
          None \<Rightarrow> res
        | Some f \<Rightarrow> res\<lparr>acr_valid := False,
            acr_unsealed := (if cf_type f = FailureEmptyHash then Suc (acr_unsealed res)
                             else acr_unsealed res),
            acr_failures := acr_failures res @ [f]\<rparr>),
       au_curr_hash a, Suc i), w))"

definition Verify :: "crypto \<Rightarrow> nat \<Rightarrow> nat \<Rightarrow> world \<Rightarrow>
    ((audit_error + audit_chain_result) \<times> world) option" where
  "Verify c fuel pageSize w =
     (case walkChain fuel pageSize (verify_visit c)
             (\<lparr>acr_count = 0, acr_unsealed = 0, acr_valid = True, acr_failures = []\<rparr>, '''', 0) w of
        None \<Rightarrow> None
      | Some (Some e, _, w1) \<Rightarrow> Some (Inl e, w1)
      | Some (None, (res, _, i), w1) \<Rightarrow> Some (Inr (res\<lparr>acr_count := i\<rparr>), w1))"

text \<open>
  \<^verbatim>\<open>audit.Record\<close>: the row is inserted, then the chain is sealed; only the insert's error is
  returned.
\<close>

definition Record :: "crypto \<Rightarrow> nat \<Rightarrow> audit_row \<Rightarrow> world \<Rightarrow> ((audit_error + unit) \<times> world) option" where
  "Record c fuel a w = (case CreateAudit a w of
     (Inl e, w1) \<Rightarrow> Some (Inl (AuditStore e), w1)
   | (Inr _, w1) \<Rightarrow> (case Seal c fuel 0 w1 of
        None \<Rightarrow> None
      | Some (_, _, w2) \<Rightarrow> Some (Inr (), w2)))"

section \<open>Chain order\<close>

definition key_lt :: "audit_row \<Rightarrow> audit_row \<Rightarrow> bool" where
  "key_lt a b \<longleftrightarrow> key_after (audit_key a) (audit_key b)"

lemma key_lt_iff: "key_lt a b \<longleftrightarrow>
    au_timestamp a < au_timestamp b \<or> (au_timestamp b = au_timestamp a \<and> au_id a < au_id b)"
  by (simp add: key_lt_def key_after_def audit_key_def)

lemma key_after_irrefl [simp]: "\<not> key_after k k"
  by (simp add: key_after_def)

lemma key_lt_asym: "key_lt a b \<Longrightarrow> \<not> key_lt b a"
  by (auto simp: key_lt_iff)

lemma set_chain_order [simp]: "set (chain_order xs) = set xs"
  by (simp add: chain_order_def)

lemma length_chain_order [simp]: "length (chain_order xs) = length xs"
  by (simp add: chain_order_def)

lemma insort_key_lt:
  assumes "sorted_wrt key_lt zs" and "\<And>z. z \<in> set zs \<Longrightarrow> au_id y < au_id z"
  shows "sorted_wrt key_lt (insort_key au_timestamp y zs)"
  using assms
proof (induction zs)
  case (Cons z zs)
  have "key_lt y x" if "au_timestamp y \<le> au_timestamp z" "x \<in> set (z # zs)" for x
  proof -
    have "au_timestamp z \<le> au_timestamp x" using Cons.prems(1) that(2) by (auto simp: key_lt_iff)
    with that Cons.prems(2) [OF that(2)] show ?thesis by (auto simp: key_lt_iff)
  qed
  moreover have "key_lt z y" if "\<not> au_timestamp y \<le> au_timestamp z" using that by (simp add: key_lt_iff)
  ultimately show ?case using Cons by (auto simp: set_insort_key)
qed simp

lemma sorted_by_timestamp:
  assumes "sorted (map au_id ys)" and "distinct (map au_id ys)"
  shows "sorted_wrt key_lt (sort_key au_timestamp ys)"
  using assms
proof (induction ys)
  case (Cons y ys)
  then have "z \<in> set ys \<Longrightarrow> au_id y < au_id z" for z by (fastforce simp: order_le_less)
  with Cons insort_key_lt [of "sort_key au_timestamp ys" y] show ?case by simp
qed simp

lemma sorted_chain_order: "key_unique au_id xs \<Longrightarrow> sorted_wrt key_lt (chain_order xs)"
  unfolding chain_order_def key_unique_def
  by (rule sorted_by_timestamp) (auto simp: distinct_map)

lemma key_unique_chain_order [simp]: "key_unique au_id (chain_order xs) = key_unique au_id xs"
  by (simp add: key_unique_def distinct_map chain_order_def)

lemma filter_chain_order: "chain_order (filter P xs) = filter P (chain_order xs)"
  by (simp add: chain_order_def filter_sort)

lemma chain_order_update:
  "chain_order (update_where P (audit_link p q) xs) = update_where P (audit_link p q) (chain_order xs)"
  by (simp add: chain_order_def update_where_def sort_map_key audit_link_def)

section \<open>The paged walk is one pass over the ordered table\<close>

text \<open>
  What a visitor decides about a row: an error, the new accumulator and the link columns to
  write. \<open>decided_walk\<close> is the pass over a list; \<open>implements fn g\<close> says that on a quiet
  world the visitor \<open>fn\<close> does what \<open>g\<close> decides and nothing else to the tables.
\<close>

type_synonym 'acc chain_decision = "'acc \<Rightarrow> audit_row \<Rightarrow> audit_error option \<times> 'acc \<times> (string \<times> string) option"

definition put_link :: "(string \<times> string) option \<Rightarrow> audit_row \<Rightarrow> audit_row" where
  "put_link wr a = (case wr of None \<Rightarrow> a | Some (p, q) \<Rightarrow> audit_link p q a)"

fun decided_walk :: "'acc chain_decision \<Rightarrow> 'acc \<Rightarrow> audit_row list \<Rightarrow> audit_error option \<times> 'acc \<times> audit_row list" where
  "decided_walk g acc [] = (None, acc, [])"
| "decided_walk g acc (a # as) = (case g acc a of
     (Some e, acc1, wr) \<Rightarrow> (Some e, acc1, put_link wr a # as)
   | (None, acc1, wr) \<Rightarrow> (case decided_walk g acc1 as of
        (e, acc2, as') \<Rightarrow> (e, acc2, put_link wr a # as')))"

definition links_written :: "audit_row \<Rightarrow> (string \<times> string) option \<Rightarrow> world \<Rightarrow> world \<Rightarrow> bool" where
  "links_written a wr w w' \<longleftrightarrow> (\<exists>n. w' = w\<lparr>w_tbl := (w_tbl w)\<lparr>t_audits :=
     update_where (\<lambda>x. au_id x = au_id a) (put_link wr) (t_audits (w_tbl w))\<rparr>, w_tick := n\<rparr>)"

definition implements :: "'acc visitor \<Rightarrow> 'acc chain_decision \<Rightarrow> bool" where
  "implements fn g \<longleftrightarrow> (\<forall>a acc w. quiet w \<longrightarrow> au_id a \<in> au_id ` set (t_audits (w_tbl w)) \<longrightarrow>
     (\<exists>w'. fn a acc w = (fst (g acc a), fst (snd (g acc a)), w') \<and>
        links_written a (snd (snd (g acc a))) w w'))"

lemma put_link_id [simp]: "au_id (put_link wr a) = au_id a"
  by (simp add: put_link_def audit_link_def split: option.splits prod.splits)

lemma put_link_None [simp]: "put_link None = (\<lambda>a. a)"
  by (simp add: put_link_def fun_eq_iff)

lemma put_link_Some: "put_link (Some pq) = audit_link (fst pq) (snd pq)"
  by (simp add: put_link_def fun_eq_iff split_beta)

lemma chain_order_put_link:
  "chain_order (update_where P (put_link wr) xs) = update_where P (put_link wr) (chain_order xs)"
proof (cases wr)
  case None
  then show ?thesis by (simp add: update_where_def)
next
  case (Some pq)
  then show ?thesis by (simp add: put_link_Some chain_order_update)
qed

text \<open>One world is another with the audit table replaced and the counter advanced.\<close>

definition audits_become :: "world \<Rightarrow> audit_row list \<Rightarrow> world \<Rightarrow> bool" where
  "audits_become w rows w' \<longleftrightarrow> (\<exists>A n. w' = w\<lparr>w_tbl := (w_tbl w)\<lparr>t_audits := A\<rparr>, w_tick := n\<rparr> \<and>
     key_unique au_id A \<and> chain_order A = rows)"

lemma audits_becomeD:
  assumes "audits_become w rows w'" and "quiet w"
  shows "quiet w'" "key_unique au_id (t_audits (w_tbl w'))" "chain_order (t_audits (w_tbl w')) = rows"
  using assms by (auto simp: audits_become_def)

lemma audits_become_trans:
  "audits_become w rows w1 \<Longrightarrow> audits_become w1 rows' w2 \<Longrightarrow> audits_become w rows' w2"
  by (fastforce simp: audits_become_def)

lemma audits_become_tick:
  "key_unique au_id (t_audits (w_tbl w)) \<Longrightarrow>
   audits_become w (chain_order (t_audits (w_tbl w))) (w\<lparr>w_tick := n\<rparr>)"
  by (auto simp: audits_become_def intro!: exI [of _ "t_audits (w_tbl w)"])

lemma visit_one:
  assumes impl: "implements fn g" and quiet: "quiet w" and uniq: "key_unique au_id (t_audits (w_tbl w))"
    and order: "chain_order (t_audits (w_tbl w)) = ds @ a # rs" and g: "g acc a = (e, acc1, wr)"
  obtains w1 where "fn a acc w = (e, acc1, w1)" "audits_become w (ds @ put_link wr a # rs) w1"
proof -
  let ?A = "t_audits (w_tbl w)"
  have "a \<in> set ?A" using order by (metis in_set_conv_decomp set_chain_order)
  then obtain n where fn: "fn a acc w = (e, acc1, w\<lparr>w_tbl := (w_tbl w)\<lparr>t_audits :=
      update_where (\<lambda>x. au_id x = au_id a) (put_link wr) ?A\<rparr>, w_tick := n\<rparr>)"
    using impl [unfolded implements_def, rule_format, OF quiet, of a acc] g
    by (auto simp: links_written_def)
  have "key_unique au_id (ds @ a # rs)" using uniq order by (metis key_unique_chain_order)
  then have "chain_order (update_where (\<lambda>x. au_id x = au_id a) (put_link wr) ?A) = ds @ put_link wr a # rs"
    unfolding chain_order_put_link order by (rule update_where_at) simp
  with uniq have "audits_become w (ds @ put_link wr a # rs) (w\<lparr>w_tbl := (w_tbl w)\<lparr>t_audits :=
      update_where (\<lambda>x. au_id x = au_id a) (put_link wr) ?A\<rparr>, w_tick := n\<rparr>)"
    by (auto simp: audits_become_def)
  with fn that show thesis by blast
qed

lemma visit_page_decided:
  assumes "implements fn g" and "quiet w" and "key_unique au_id (t_audits (w_tbl w))"
    and "chain_order (t_audits (w_tbl w)) = ds @ page @ rs"
    and "decided_walk g acc page = (e, acc1, page')"
  shows "\<exists>w1. visit_page fn page acc w = (e, acc1, w1) \<and> audits_become w (ds @ page' @ rs) w1"
  using assms
proof (induction page arbitrary: ds acc w page')
  case Nil
  then show ?case using audits_become_tick [of w "w_tick w"] by auto
next
  case (Cons a page)
  obtain e0 acc0 wr where g: "g acc a = (e0, acc0, wr)" by (cases "g acc a")
  from visit_one [OF Cons.prems(1-3) _ g, of ds "page @ rs"] Cons.prems(4)
  obtain w0 where fn: "fn a acc w = (e0, acc0, w0)"
    and become: "audits_become w (ds @ put_link wr a # page @ rs) w0" by auto
  show ?case
  proof (cases e0)
    case (Some x)
    with g fn become Cons.prems(5) show ?thesis by auto
  next
    case None
    with g Cons.prems(5) obtain pg where pg: "decided_walk g acc0 page = (e, acc1, pg)"
      and page': "page' = put_link wr a # pg" by (auto split: prod.splits)
    note w0 = audits_becomeD [OF become Cons.prems(2)]
    from Cons.IH [OF Cons.prems(1) w0(1,2) _ pg, of "ds @ [put_link wr a]"] w0(3)
    obtain w1 where "visit_page fn page acc0 w0 = (e, acc1, w1)"
      "audits_become w0 (ds @ page' @ rs) w1" by (auto simp: page')
    with fn None become show ?thesis by (auto intro: audits_become_trans)
  qed
qed

lemma decided_walk_append:
  "decided_walk g acc (xs @ ys) = (case decided_walk g acc xs of
     (Some e, acc1, xs') \<Rightarrow> (Some e, acc1, xs' @ ys)
   | (None, acc1, xs') \<Rightarrow> (case decided_walk g acc1 ys of (e, acc2, ys') \<Rightarrow> (e, acc2, xs' @ ys')))"
  by (induction xs arbitrary: acc) (auto split: prod.splits option.splits)

lemma length_decided_walk: "decided_walk g acc xs = (e, acc1, xs') \<Longrightarrow> length xs' = length xs"
  by (induction xs arbitrary: acc xs') (auto split: prod.splits option.splits)

lemma put_link_key [simp]: "audit_key (put_link wr a) = audit_key a"
  by (simp add: put_link_def audit_link_def audit_key_def split: option.splits prod.splits)

lemma map_key_decided_walk:
  "decided_walk g acc xs = (e, acc1, xs') \<Longrightarrow> map audit_key xs' = map audit_key xs"
  by (induction xs arbitrary: acc xs') (auto split: prod.splits option.splits)

text \<open>The rows strictly after a position are what the keyset predicate selects.\<close>

definition after_rows :: "audit_cursor option \<Rightarrow> audit_row list \<Rightarrow> audit_row list" where
  "after_rows cursor rows =
     filter (\<lambda>a. case cursor of None \<Rightarrow> True | Some c \<Rightarrow> key_after c (audit_key a)) rows"

lemma after_rows_suffix:
  assumes "sorted_wrt key_lt (ds @ d # rs)"
  shows "after_rows (Some (audit_key d)) (ds @ d # rs) = rs"
proof -
  have "\<forall>x\<in>set ds. \<not> key_lt d x" "\<forall>x\<in>set rs. key_lt d x"
    using assms key_lt_asym by (auto simp: sorted_wrt_append)
  then show ?thesis
    by (auto simp: after_rows_def filter_empty_conv filter_id_conv key_lt_def
        key_lt_asym [unfolded key_lt_def])
qed

lemma page_quiet:
  assumes "quiet w" and "0 < limit"
  shows "ListAuditChainPage cursor limit '''' w =
    (Inr (take limit (after_rows cursor (chain_order (t_audits (w_tbl w))))), w\<lparr>w_tick := Suc (w_tick w)\<rparr>)"
  using assms
  by (simp add: ListAuditChainPage_def query_quiet opt_eq_def filter_chain_order after_rows_def)

lemma walk_pages_decided:
  assumes impl: "implements fn g" and lim: "0 < limit"
    and "quiet w" and "key_unique au_id (t_audits (w_tbl w))"
    and "chain_order (t_audits (w_tbl w)) = ds @ todo"
    and "after_rows cursor (chain_order (t_audits (w_tbl w))) = todo"
    and "length todo < fuel"
    and "decided_walk g acc todo = (e, acc1, todo')"
  shows "\<exists>w'. walk_pages fuel limit cursor fn acc w = Some (e, acc1, w') \<and> audits_become w (ds @ todo') w'"
  using assms(3-)
proof (induction fuel arbitrary: w ds todo cursor acc todo')
  case 0
  then show ?case by simp
next
  case (Suc fuel)
  let ?page = "take limit todo" and ?rest = "drop limit todo"
  let ?w1 = "w\<lparr>w_tick := Suc (w_tick w)\<rparr>"
  have page: "ListAuditChainPage cursor limit '''' w = (Inr ?page, ?w1)"
    using page_quiet [OF Suc.prems(1) lim] Suc.prems(4) by simp
  obtain e0 acc0 page' where pg: "decided_walk g acc ?page = (e0, acc0, page')"
    by (cases "decided_walk g acc ?page")
  have ord1: "chain_order (t_audits (w_tbl ?w1)) = ds @ ?page @ ?rest"
    using Suc.prems(3) by simp
  obtain w2 where visit: "visit_page fn ?page acc ?w1 = (e0, acc0, w2)"
    and become: "audits_become ?w1 (ds @ page' @ ?rest) w2"
    using visit_page_decided [OF impl _ _ ord1 pg] Suc.prems(1,2) by auto
  have become_w: "audits_become w (ds @ page' @ ?rest) w2"
    using audits_become_trans [OF audits_become_tick [OF Suc.prems(2)] become] .
  note step = decided_walk_append [of g acc ?page ?rest, unfolded append_take_drop_id Suc.prems(6) pg]
  show ?case
  proof (cases e0)
    case (Some x)
    with step page visit become_w show ?thesis by auto
  next
    case None
    then obtain rest' where rest': "decided_walk g acc0 ?rest = (e, acc1, rest')"
      and todo': "todo' = page' @ rest'"
      using step by (auto split: prod.splits)
    show ?thesis
    proof (cases "length ?page < limit")
      case True
      then have "?rest = []" by auto
      with rest' todo' None page visit become_w True show ?thesis by auto
    next
      case False
      note w2 = audits_becomeD [OF become_w Suc.prems(1)]
      from False lim have ne: "?page \<noteq> []" by auto
      have len: "length page' = length ?page" using length_decided_walk [OF pg] .
      with ne have ne': "page' \<noteq> []" by (metis length_0_conv)
      have "audit_key (last ?page) = audit_key (last page')"
        using map_key_decided_walk [OF pg] ne ne' by (metis last_map)
      moreover have split: "ds @ page' @ ?rest = (ds @ butlast page') @ last page' # ?rest"
        using ne' by (metis append.assoc append_Cons append_Nil append_butlast_last_id)
      moreover have "sorted_wrt key_lt (ds @ page' @ ?rest)"
        using sorted_chain_order [OF w2(2)] w2(3) by simp
      ultimately have after: "after_rows (Some (audit_key (last ?page)))
          (chain_order (t_audits (w_tbl w2))) = ?rest"
        using after_rows_suffix w2(3) by metis
      have fuel: "length ?rest < fuel" using Suc.prems(5) ne False lim by auto
      from Suc.IH [OF w2(1,2) _ after fuel rest', of "ds @ page'"] w2(3)
      obtain w' where "walk_pages fuel limit (Some (audit_key (last ?page))) fn acc0 w2 = Some (e, acc1, w')"
        and "audits_become w2 (ds @ page' @ rest') w'" by auto
      with False None page visit become_w todo' show ?thesis
        by (auto intro: audits_become_trans)
    qed
  qed
qed

lemma walkChain_decided:
  assumes "implements fn g" and "quiet w" and "key_unique au_id (t_audits (w_tbl w))"
    and "length (t_audits (w_tbl w)) < fuel"
    and "decided_walk g acc (chain_order (t_audits (w_tbl w))) = (e, acc1, rows)"
  shows "\<exists>w'. walkChain fuel pageSize fn acc w = Some (e, acc1, w') \<and> audits_become w rows w'"
proof -
  have "after_rows None (chain_order (t_audits (w_tbl w))) = chain_order (t_audits (w_tbl w))"
    by (simp add: after_rows_def)
  then show ?thesis
    using walk_pages_decided [where ds = "[]" and cursor = None, OF assms(1) _ assms(2,3) _ _ _ assms(5)]
      assms(4) by (simp add: walkChain_def DefaultAuditChainPageSize_def)
qed

section \<open>What the three walks decide\<close>

fun seal_decide :: "crypto \<Rightarrow> (nat \<times> string) chain_decision" where
  "seal_decide c (n, prev) a = (let want = ComputeAuditHash c a prev in
     if au_prev_hash a = prev \<and> au_curr_hash a = want then (None, (n, want), None)
     else if au_curr_hash a = '''' \<or> ComputeAuditHash c a (au_prev_hash a) = au_curr_hash a
     then (None, (Suc n, want), Some (prev, want))
     else (Some ErrChainBroken, (n, prev), None))"

fun rebuild_decide :: "crypto \<Rightarrow> (nat \<times> string) chain_decision" where
  "rebuild_decide c (n, prev) a = (let want = ComputeAuditHash c a prev in
     if au_prev_hash a \<noteq> prev \<or> au_curr_hash a \<noteq> want then (None, (Suc n, want), Some (prev, want))
     else (None, (n, want), None))"

fun failures :: "crypto \<Rightarrow> nat \<Rightarrow> string \<Rightarrow> audit_row list \<Rightarrow> chain_failure list" where
  "failures c i prev [] = []"
| "failures c i prev (a # as) =
     (case audit_failure c a i prev of None \<Rightarrow> [] | Some f \<Rightarrow> [f]) @ failures c (Suc i) (au_curr_hash a) as"

definition add_failures :: "chain_failure list \<Rightarrow> audit_chain_result \<Rightarrow> audit_chain_result" where
  "add_failures fs res = res\<lparr>acr_valid := acr_valid res \<and> fs = [],
     acr_unsealed := acr_unsealed res + length (filter (\<lambda>f. cf_type f = FailureEmptyHash) fs),
     acr_failures := acr_failures res @ fs\<rparr>"

definition verify_decide :: "crypto \<Rightarrow> (audit_chain_result \<times> string \<times> nat) chain_decision" where
  "verify_decide c = (\<lambda>(res, prev, i) a.
     (None, (add_failures (failures c i prev [a]) res, au_curr_hash a, Suc i), None))"

lemma update_chain_quiet:
  assumes "quiet w" and "i \<in> au_id ` set (t_audits (w_tbl w))"
  shows "UpdateAuditChain i p q w = (Inr (),
    w\<lparr>w_tbl := (w_tbl w)\<lparr>t_audits := update_where (\<lambda>x. au_id x = i) (audit_link p q) (t_audits (w_tbl w))\<rparr>,
      w_tick := Suc (w_tick w)\<rparr>)"
proof -
  have "count_where (\<lambda>a. au_id a = i) (t_audits (w_tbl w)) \<noteq> 0" using assms(2) by auto
  then show ?thesis using assms(1)
    by (simp add: UpdateAuditChain_def stmt_quiet audit_link_def [abs_def] del: count_where_0_iff)
qed

lemma links_written_None [simp]: "links_written a None w w"
  by (auto simp: links_written_def update_where_def intro!: exI [of _ "w_tick w"])

lemma links_written_Some:
  assumes "quiet w" and "au_id a \<in> au_id ` set (t_audits (w_tbl w))"
  obtains w' where "UpdateAuditChain (au_id a) p q w = (Inr (), w')" "links_written a (Some (p, q)) w w'"
  using update_chain_quiet [OF assms] by (auto simp: links_written_def put_link_Some)

lemma implements_seal: "implements (seal_visit c) (seal_decide c)"
unfolding implements_def
proof (intro allI impI)
  fix a :: audit_row and acc :: "nat \<times> string" and w :: world
  assume w: "quiet w" "au_id a \<in> au_id ` set (t_audits (w_tbl w))"
  obtain n p where acc: "acc = (n, p)" by (cases acc)
  obtain w' where "UpdateAuditChain (au_id a) p (ComputeAuditHash c a p) w = (Inr (), w')"
    "links_written a (Some (p, ComputeAuditHash c a p)) w w'" using links_written_Some [OF w] by blast
  then show "\<exists>w'. seal_visit c a acc w = (fst (seal_decide c acc a), fst (snd (seal_decide c acc a)), w') \<and>
      links_written a (snd (snd (seal_decide c acc a))) w w'"
    by (simp add: acc seal_visit_def Let_def)
qed

lemma implements_rebuild: "implements (rebuild_visit c) (rebuild_decide c)"
unfolding implements_def
proof (intro allI impI)
  fix a :: audit_row and acc :: "nat \<times> string" and w :: world
  assume w: "quiet w" "au_id a \<in> au_id ` set (t_audits (w_tbl w))"
  obtain n p where acc: "acc = (n, p)" by (cases acc)
  obtain w' where "UpdateAuditChain (au_id a) p (ComputeAuditHash c a p) w = (Inr (), w')"
    "links_written a (Some (p, ComputeAuditHash c a p)) w w'" using links_written_Some [OF w] by blast
  then show "\<exists>w'. rebuild_visit c a acc w = (fst (rebuild_decide c acc a), fst (snd (rebuild_decide c acc a)), w') \<and>
      links_written a (snd (snd (rebuild_decide c acc a))) w w'"
    by (simp add: acc rebuild_visit_def Let_def)
qed

lemma implements_verify: "implements (verify_visit c) (verify_decide c)"
  unfolding implements_def
  by (auto simp: verify_visit_def verify_decide_def add_failures_def split: option.splits)

section \<open>Pure facts about sealing and verifying a list of rows\<close>

abbreviation au_intact :: "crypto \<Rightarrow> string \<Rightarrow> audit_row list \<Rightarrow> bool" where
  "au_intact c \<equiv> intact (ComputeAuditHash c) au_prev_hash au_curr_hash"

abbreviation au_relink :: "crypto \<Rightarrow> string \<Rightarrow> audit_row list \<Rightarrow> audit_row list" where
  "au_relink c \<equiv> relink (ComputeAuditHash c) audit_link"

text \<open>A row is consistent when it was never sealed or its content matches its own link columns.\<close>

definition consistent :: "crypto \<Rightarrow> audit_row \<Rightarrow> bool" where
  "consistent c a \<longleftrightarrow> au_curr_hash a = '''' \<or> ComputeAuditHash c a (au_prev_hash a) = au_curr_hash a"

lemma audit_hash_ne [simp]: "ComputeAuditHash c a p \<noteq> ''''"
  by (simp add: ComputeAuditHash_def)

lemma audit_link_self: "au_prev_hash a = p \<Longrightarrow> au_curr_hash a = q \<Longrightarrow> audit_link p q a = a"
  by (auto simp: audit_link_def)

text \<open>Sealing consistent rows relinks all of them.\<close>

lemma seal_walk_ok:
  assumes "\<forall>a\<in>set rows. consistent c a"
  shows "\<exists>m. decided_walk (seal_decide c) (n, p) rows =
    (None, (m, tail_hash au_curr_hash p (au_relink c p rows)), au_relink c p rows)"
  using assms
proof (induction rows arbitrary: n p)
  case (Cons a rows)
  let ?w = "ComputeAuditHash c a p"
  have rest: "\<forall>a\<in>set rows. consistent c a" and a: "consistent c a" using Cons.prems by auto
  show ?case
  proof (cases "au_prev_hash a = p \<and> au_curr_hash a = ?w")
    case True
    with Cons.IH [OF rest, of n ?w] show ?thesis by (auto simp: Let_def audit_link_self)
  next
    case False
    with Cons.IH [OF rest, of "Suc n" ?w] a show ?thesis
      by (auto simp: Let_def put_link_Some consistent_def audit_link_def)
  qed
qed simp

lemma seal_walk_steady:
  "au_intact c p rows \<Longrightarrow>
     decided_walk (seal_decide c) (n, p) rows = (None, (n, tail_hash au_curr_hash p rows), rows)"
  by (induction rows arbitrary: p) (auto simp: Let_def)

lemma seal_walk_bad:
  assumes "\<forall>a\<in>set xs. consistent c a" and "\<not> consistent c a"
  shows "\<exists>acc. decided_walk (seal_decide c) (n, p) (xs @ a # ys) =
    (Some ErrChainBroken, acc, au_relink c p xs @ a # ys)"
  using seal_walk_ok [OF assms(1), of n p] assms(2)
  by (auto simp: decided_walk_append Let_def consistent_def split: if_splits)

lemma rebuild_walk:
  "\<exists>m. decided_walk (rebuild_decide c) (n, p) rows =
    (None, (m, tail_hash au_curr_hash p (au_relink c p rows)), au_relink c p rows)"
proof (induction rows arbitrary: n p)
  case (Cons a rows)
  let ?w = "ComputeAuditHash c a p"
  show ?case
  proof (cases "au_prev_hash a = p \<and> au_curr_hash a = ?w")
    case True
    with Cons.IH [of n ?w] show ?thesis by (auto simp: Let_def audit_link_self)
  next
    case False
    with Cons.IH [of "Suc n" ?w] show ?thesis by (auto simp: Let_def put_link_Some audit_link_def)
  qed
qed simp

lemma add_failures_Nil [simp]: "add_failures [] res = res"
  by (simp add: add_failures_def)

lemma add_failures_append: "add_failures gs (add_failures fs res) = add_failures (fs @ gs) res"
  by (simp add: add_failures_def)

lemma failures_append:
  "failures c i p (xs @ ys) = failures c i p xs @ failures c (i + length xs) (tail_hash au_curr_hash p xs) ys"
  by (induction xs arbitrary: i p) simp_all

lemma verify_walk:
  "decided_walk (verify_decide c) (res, p, i) rows =
     (None, (add_failures (failures c i p rows) res, tail_hash au_curr_hash p rows, i + length rows), rows)"
  by (induction rows arbitrary: res p i)
     (simp_all add: verify_decide_def add_failures_append split: option.splits)

lemma failures_Nil_iff: "failures c i p rows = [] \<longleftrightarrow> au_intact c p rows"
  by (induction rows arbitrary: i p) (auto simp: audit_failure_def Let_def split: option.splits)

lemma au_intact_relink: "au_intact c p (au_relink c p rows)"
  by (simp add: audit_hash_chain_hash au.intact_relink)

lemma intact_consistent: "au_intact c p rows \<Longrightarrow> a \<in> set rows \<Longrightarrow> consistent c a"
  by (induction rows arbitrary: p) (auto simp: consistent_def)

lemma length_relink [simp]: "length (relink h l p rows) = length rows"
  by (induction rows arbitrary: p) simp_all

lemma au_content_relink: "map auditContentFields (au_relink c p rows) = map auditContentFields rows"
  by (rule au.map_content_relink)

section \<open>The operations on a quiet store\<close>

text \<open>
  \<open>chain_ready fuel w\<close>: no statement fails and nobody else writes, row ids are unique (the
  table's primary key) and the page loop has more fuel than the table has rows.
\<close>

definition chain_rows :: "world \<Rightarrow> audit_row list" where
  "chain_rows w = chain_order (t_audits (w_tbl w))"

definition chain_ready :: "nat \<Rightarrow> world \<Rightarrow> bool" where
  "chain_ready fuel w \<longleftrightarrow> quiet w \<and> key_unique au_id (t_audits (w_tbl w)) \<and>
     length (t_audits (w_tbl w)) < fuel"

lemma chain_rows_become: "audits_become w rows w' \<Longrightarrow> chain_rows w' = rows"
  by (auto simp: audits_become_def chain_rows_def)

lemma audits_become_ready:
  assumes "audits_become w rows w'" and "chain_ready fuel w" and "length rows = length (chain_rows w)"
  shows "chain_ready fuel w'"
proof -
  have "length (t_audits (w_tbl w')) = length (t_audits (w_tbl w))"
    using assms(1,3) by (metis chain_rows_become chain_rows_def length_chain_order)
  with assms(1,2) show ?thesis using audits_becomeD [OF assms(1)] by (simp add: chain_ready_def)
qed

lemma walk_ready:
  assumes "implements fn g" and "chain_ready fuel w" and "decided_walk g acc (chain_rows w) = (e, acc1, rows)"
  shows "\<exists>w'. walkChain fuel pageSize fn acc w = Some (e, acc1, w') \<and> audits_become w rows w' \<and>
    chain_rows w' = rows \<and> chain_ready fuel w'"
proof -
  from assms(2) have r: "quiet w" "key_unique au_id (t_audits (w_tbl w))" "length (t_audits (w_tbl w)) < fuel"
    by (simp_all add: chain_ready_def)
  obtain w' where w': "walkChain fuel pageSize fn acc w = Some (e, acc1, w')" "audits_become w rows w'"
    using walkChain_decided [OF assms(1) r assms(3) [unfolded chain_rows_def]] by blast
  with audits_become_ready [OF w'(2) assms(2) length_decided_walk [OF assms(3)]] chain_rows_become
  show ?thesis by blast
qed

lemma Seal_ok:
  assumes "chain_ready fuel w" and "\<forall>a\<in>set (chain_rows w). consistent c a"
  shows "\<exists>m w'. Seal c fuel pageSize w = Some (m, None, w') \<and>
    chain_rows w' = au_relink c '''' (chain_rows w) \<and> chain_ready fuel w'"
proof -
  obtain m where "decided_walk (seal_decide c) (0, '''') (chain_rows w) =
      (None, (m, tail_hash au_curr_hash '''' (au_relink c '''' (chain_rows w))), au_relink c '''' (chain_rows w))"
    using seal_walk_ok [OF assms(2)] by blast
  from walk_ready [OF implements_seal assms(1) this, of pageSize] show ?thesis
    by (auto simp: Seal_def)
qed

lemma Seal_bad:
  assumes "chain_ready fuel w" and "chain_rows w = xs @ a # ys"
    and "\<forall>a\<in>set xs. consistent c a" and "\<not> consistent c a"
  shows "\<exists>m w'. Seal c fuel pageSize w = Some (m, Some ErrChainBroken, w') \<and>
    chain_rows w' = au_relink c '''' xs @ a # ys \<and> chain_ready fuel w'"
proof -
  obtain acc where "decided_walk (seal_decide c) (0, '''') (chain_rows w) =
      (Some ErrChainBroken, acc, au_relink c '''' xs @ a # ys)"
    using seal_walk_bad [OF assms(3,4)] assms(2) by metis
  from walk_ready [OF implements_seal assms(1) this, of pageSize] show ?thesis
    by (cases acc) (auto simp: Seal_def)
qed

lemma Seal_steady:
  assumes "chain_ready fuel w" and "au_intact c '''' (chain_rows w)"
  shows "\<exists>w'. Seal c fuel pageSize w = Some (0, None, w') \<and> chain_rows w' = chain_rows w \<and> chain_ready fuel w'"
  using walk_ready [OF implements_seal assms(1) seal_walk_steady [OF assms(2)], of pageSize 0]
  by (auto simp: Seal_def)

lemma Rebuild_ok:
  assumes "chain_ready fuel w"
  shows "\<exists>m w'. Rebuild c fuel pageSize w = Some (m, None, w') \<and>
    chain_rows w' = au_relink c '''' (chain_rows w) \<and> chain_ready fuel w'"
proof -
  obtain m where "decided_walk (rebuild_decide c) (0, '''') (chain_rows w) =
      (None, (m, tail_hash au_curr_hash '''' (au_relink c '''' (chain_rows w))), au_relink c '''' (chain_rows w))"
    using rebuild_walk by blast
  from walk_ready [OF implements_rebuild assms(1) this, of pageSize] show ?thesis
    by (auto simp: Rebuild_def)
qed

definition verdict :: "crypto \<Rightarrow> audit_row list \<Rightarrow> audit_chain_result" where
  "verdict c rows = \<lparr>acr_count = length rows,
     acr_unsealed = length (filter (\<lambda>f. cf_type f = FailureEmptyHash) (failures c 0 '''' rows)),
     acr_valid = (failures c 0 '''' rows = []), acr_failures = failures c 0 '''' rows\<rparr>"

lemma verdict_valid [simp]: "acr_valid (verdict c rows) \<longleftrightarrow> au_intact c '''' rows"
  by (simp add: verdict_def failures_Nil_iff)

lemma Verify_ok:
  assumes "chain_ready fuel w"
  shows "\<exists>w'. Verify c fuel pageSize w = Some (Inr (verdict c (chain_rows w)), w') \<and>
    chain_rows w' = chain_rows w \<and> chain_ready fuel w'"
proof -
  let ?res = "\<lparr>acr_count = 0, acr_unsealed = 0, acr_valid = True, acr_failures = []\<rparr>"
  obtain w' where "walkChain fuel pageSize (verify_visit c) (?res, '''', 0) w =
      Some (None, (add_failures (failures c 0 '''' (chain_rows w)) ?res,
        tail_hash au_curr_hash '''' (chain_rows w), 0 + length (chain_rows w)), w')"
    "chain_rows w' = chain_rows w" "chain_ready fuel w'"
    using walk_ready [OF implements_verify assms verify_walk] by blast
  then show ?thesis by (simp add: Verify_def add_failures_def verdict_def)
qed

section \<open>Sealing that is interrupted\<close>

text \<open>Rows that agree in everything but the link columns.\<close>

definition unlinked :: "audit_row \<Rightarrow> audit_row" where
  "unlinked a = audit_link '''' '''' a"

lemma unlinked_link [simp]: "unlinked (audit_link p q a) = unlinked a"
  by (simp add: unlinked_def audit_link_def)

lemma unlinkedD:
  assumes "unlinked a = unlinked b"
  shows "au_id a = au_id b" "au_timestamp a = au_timestamp b" "auditContentFields a = auditContentFields b"
    "audit_link p q a = audit_link p q b" "ComputeAuditHash c a r = ComputeAuditHash c b r"
  using assms
  by (cases a, cases b, simp add: unlinked_def audit_link_def auditContentFields_def ComputeAuditHash_def)+

lemma relink_unlinked:
  "map unlinked xs = map unlinked ys \<Longrightarrow> au_relink c p xs = au_relink c p ys"
proof (induction xs arbitrary: ys p)
  case (Cons x xs)
  then obtain y ys' where ys: "ys = y # ys'" "unlinked x = unlinked y" "map unlinked xs = map unlinked ys'"
    by (cases ys) auto
  with unlinkedD [OF ys(2)] Cons.IH [OF ys(3)] show ?case by simp
qed simp

lemma map_unlinked_chain_order: "map unlinked (chain_order xs) = chain_order (map unlinked xs)"
  by (simp add: chain_order_def sort_map_key unlinked_def audit_link_def)

text \<open>
  What holds of the store at every moment of a walk that only fails, never races: the rows
  are those of \<open>U\<close> up to their links, and every one is consistent.
\<close>

definition sealing_inv :: "crypto \<Rightarrow> audit_row list \<Rightarrow> world \<Rightarrow> bool" where
  "sealing_inv c U w \<longleftrightarrow> (\<forall>n. w_intf w n = id) \<and> key_unique au_id (t_audits (w_tbl w)) \<and>
     map unlinked (t_audits (w_tbl w)) = U \<and> (\<forall>a\<in>set (t_audits (w_tbl w)). consistent c a)"

lemma visit_page_inv:
  assumes "\<And>a acc w e acc' w'. I w \<Longrightarrow> good a \<Longrightarrow> fn a acc w = (e, acc', w') \<Longrightarrow> I w'"
    and "I w" and "\<forall>a\<in>set page. good a" and "visit_page fn page acc w = (e, acc', w')"
  shows "I w'"
  using assms(2-)
proof (induction page arbitrary: acc w)
  case (Cons a page)
  obtain e1 acc1 w1 where fn: "fn a acc w = (e1, acc1, w1)" by (cases "fn a acc w")
  have "I w1" using assms(1) [OF Cons.prems(1) _ fn] Cons.prems(2) by simp
  with Cons fn show ?case by (cases e1) auto
qed simp

lemma walk_pages_inv:
  assumes step: "\<And>a acc w e acc' w'. I w \<Longrightarrow> good a \<Longrightarrow> fn a acc w = (e, acc', w') \<Longrightarrow> I w'"
    and page: "\<And>cur r w w'. I w \<Longrightarrow> ListAuditChainPage cur limit '''' w = (r, w') \<Longrightarrow>
      I w' \<and> (\<forall>a\<in>set (projr r). isl r \<or> good a)"
    and "I w" and "walk_pages fuel limit cur fn acc w = Some (e, acc', w')"
  shows "I w'"
  using assms(3-)
proof (induction fuel arbitrary: cur acc w)
  case (Suc fuel)
  obtain r w1 where ls: "ListAuditChainPage cur limit '''' w = (r, w1)" by fastforce
  from page [OF Suc.prems(1) ls] have w1: "I w1" by simp
  show ?case
  proof (cases r)
    case (Inl x)
    with ls Suc.prems w1 show ?thesis by simp
  next
    case (Inr rows)
    with page [OF Suc.prems(1) ls] have good: "\<forall>a\<in>set rows. good a" by simp
    obtain e2 acc2 w2 where v: "visit_page fn rows acc w1 = (e2, acc2, w2)"
      by (cases "visit_page fn rows acc w1")
    have "I w2"
      using visit_page_inv [where I = I and good = good and fn = fn, OF _ w1 good v] step by blast
    with Suc ls Inr v show ?thesis by (cases e2) (auto split: if_splits)
  qed
qed simp

lemma update_link_inv:
  assumes inv: "sealing_inv c U w" and a: "unlinked a \<in> set U"
    and upd: "UpdateAuditChain (au_id a) p (ComputeAuditHash c a p) w = (r, w')"
  shows "sealing_inv c U w'"
proof -
  let ?T = "t_audits (w_tbl w)" and ?f = "audit_link p (ComputeAuditHash c a p)"
  let ?T' = "update_where (\<lambda>x. au_id x = au_id a) ?f ?T"
  from inv have intf: "w_intf w n = id" for n by (simp add: sealing_inv_def)
  have env: "w_intf w' = w_intf w" using stmt_env(4) upd unfolding UpdateAuditChain_def by blast
  have T': "t_audits (w_tbl w') = ?T \<or> t_audits (w_tbl w') = ?T'"
    using upd unfolding UpdateAuditChain_def
    by (cases rule: stmt_cases) (auto simp: intf audit_link_def [abs_def] dest!: sym [where t = "w_tbl w'"] split: if_splits)
  have "consistent c (?f x)" if "x \<in> set ?T" "au_id x = au_id a" for x
  proof -
    from a inv obtain y where y: "y \<in> set ?T" "unlinked a = unlinked y"
      unfolding sealing_inv_def by (metis imageE set_map)
    with that inv have "x = y" using unlinkedD(1) key_unique_eq [of au_id ?T x y]
      by (metis sealing_inv_def)
    with y(2) have "ComputeAuditHash c x p = ComputeAuditHash c a p" using unlinkedD(5) by metis
    then show ?thesis
      by (simp add: consistent_def audit_link_def ComputeAuditHash_def auditContentFields_def)
  qed
  then have "\<forall>x\<in>set ?T'. consistent c x" using inv by (auto simp: sealing_inv_def set_update_where)
  moreover have "map unlinked ?T' = map unlinked ?T" by simp
  moreover have "key_unique au_id ?T' = key_unique au_id ?T" by (simp add: audit_link_def)
  ultimately show ?thesis using T' inv env unfolding sealing_inv_def by metis
qed

lemma seal_visit_inv:
  assumes "sealing_inv c U w" and "unlinked a \<in> set U" and "seal_visit c a acc w = (e, acc', w')"
  shows "sealing_inv c U w'"
proof -
  obtain n p where acc: "acc = (n, p)" by (cases acc)
  obtain r w1 where upd: "UpdateAuditChain (au_id a) p (ComputeAuditHash c a p) w = (r, w1)" by fastforce
  have "w' = w \<or> w' = w1" using assms(3) upd
    by (cases r) (auto simp: acc seal_visit_def Let_def split: if_splits)
  with assms(1) update_link_inv [OF assms(1,2) upd] show ?thesis by blast
qed

lemma page_inv:
  assumes "sealing_inv c U w" and "ListAuditChainPage cur limit '''' w = (r, w')"
  shows "sealing_inv c U w' \<and> (\<forall>a\<in>set (projr r). isl r \<or> unlinked a \<in> set U)"
proof -
  have intf: "w_intf w n = id" for n using assms(1) by (simp add: sealing_inv_def)
  have env: "w_intf w' = w_intf w" using stmt_env(4) assms(2)
    unfolding ListAuditChainPage_def query_def by blast
  from assms(2) show ?thesis unfolding ListAuditChainPage_def
  proof (cases rule: query_cases)
    case fault
    with assms(1) env intf show ?thesis by (simp add: sealing_inv_def)
  next
    case ran
    have "unlinked a \<in> set U" if "a \<in> set (projr r)" for a
      using that ran assms(1) intf unfolding sealing_inv_def
      by (auto dest!: in_set_takeD split: if_splits)
    with ran assms(1) env intf show ?thesis by (simp add: sealing_inv_def)
  qed
qed

lemma Seal_inv:
  assumes "sealing_inv c U w" and "Seal c fuel ps w = Some (n, e, w')"
  shows "sealing_inv c U w'"
proof -
  from assms(2) obtain acc where
    "walkChain fuel ps (seal_visit c) (0, '''') w = Some (e, acc, w')"
    by (auto simp: Seal_def split: option.splits prod.splits)
  from walk_pages_inv [where I = "sealing_inv c U" and good = "\<lambda>a. unlinked a \<in> set U",
      OF _ _ assms(1) this [unfolded walkChain_def]]
  show ?thesis using seal_visit_inv page_inv by blast
qed

section \<open>Recording leaves the rest of the store alone\<close>

text \<open>
  Whatever the surroundings do, a property of the tables that does not look at the audit table
  stays upheld through sealing and recording, and the environment stays what it was.
\<close>

definition elsewhere :: "(tables \<Rightarrow> bool) \<Rightarrow> world \<Rightarrow> world \<Rightarrow> bool" where
  "elsewhere I w0 w \<longleftrightarrow> upheld I w \<and> same_env w0 w"

lemma seal_visit_elsewhere:
  assumes "\<And>t A. I (t\<lparr>t_audits := A\<rparr>) = I t" and "elsewhere I w0 w" and "seal_visit c a acc w = (e, acc', w')"
  shows "elsewhere I w0 w'"
proof -
  obtain n p where acc: "acc = (n, p)" by (cases acc)
  obtain r w1 where upd: "UpdateAuditChain (au_id a) p (ComputeAuditHash c a p) w = (r, w1)" by fastforce
  have "w' = w \<or> w' = w1" using assms(3) upd
    by (cases r) (auto simp: acc seal_visit_def Let_def split: if_splits)
  moreover have "upheld I w1"
    using assms(1,2) upheld_stmt [OF _ upd [unfolded UpdateAuditChain_def]] by (simp add: elsewhere_def)
  ultimately show ?thesis using assms(2) upd [unfolded UpdateAuditChain_def]
    by (auto simp: elsewhere_def dest: same_env_stmt intro: same_env_trans)
qed

lemma Seal_elsewhere:
  assumes "\<And>t A. I (t\<lparr>t_audits := A\<rparr>) = I t" and "elsewhere I w0 w" and "Seal c fuel ps w = Some (n, e, w')"
  shows "elsewhere I w0 w'"
proof -
  from assms(3) obtain acc where walk: "walkChain fuel ps (seal_visit c) (0, '''') w = Some (e, acc, w')"
    by (auto simp: Seal_def split: option.splits prod.splits)
  have page: "elsewhere I w0 v'" if "elsewhere I w0 v" "ListAuditChainPage cur limit '''' v = (r, v')" for cur limit r v v'
    using that(1) upheld_query [OF _ that(2) [unfolded ListAuditChainPage_def]]
      same_env_stmt [OF that(2) [unfolded ListAuditChainPage_def query_def]]
    by (auto simp: elsewhere_def intro: same_env_trans)
  show ?thesis
    using walk_pages_inv [where I = "elsewhere I w0" and good = "\<lambda>a. True", OF _ _ assms(2) walk [unfolded walkChain_def]]
      seal_visit_elsewhere [OF assms(1)] page by blast
qed

lemma Record_elsewhere:
  assumes "\<And>t A. I (t\<lparr>t_audits := A\<rparr>) = I t" and "upheld I w" and "Record c fuel a w = Some (r, w')"
  shows "upheld I w' \<and> same_env w w'"
proof -
  obtain r1 w1 where cr: "CreateAudit a w = (r1, w1)" by (cases "CreateAudit a w")
  have "upheld I w1" using assms(1,2) upheld_stmt [OF assms(2) cr [unfolded CreateAudit_def]] by simp
  moreover have "same_env w w1" using same_env_stmt [OF cr [unfolded CreateAudit_def]] .
  ultimately have w1: "elsewhere I w w1" by (simp add: elsewhere_def)
  show ?thesis
  proof (cases r1)
    case (Inl e)
    with assms(3) cr w1 show ?thesis by (simp add: Record_def elsewhere_def)
  next
    case (Inr u)
    with assms(3) cr obtain n e w2 where "Seal c fuel 0 w1 = Some (n, e, w2)" "w' = w2"
      by (auto simp: Record_def split: option.splits prod.splits)
    with Seal_elsewhere [OF assms(1) w1] show ?thesis by (auto simp: elsewhere_def)
  qed
qed

section \<open>Recording on a store that works\<close>

lemma decided_walk_unlinked:
  "decided_walk g acc xs = (e, acc1, xs') \<Longrightarrow> map unlinked xs' = map unlinked xs"
proof (induction xs arbitrary: acc xs')
  case (Cons a xs)
  have "unlinked (put_link wr a) = unlinked a" for wr
    by (cases wr) (auto simp: put_link_Some)
  with Cons show ?case by (auto split: prod.splits option.splits)
qed simp

lemma Seal_ready:
  assumes "chain_ready fuel w"
  shows "\<exists>n e w' rows. Seal c fuel ps w = Some (n, e, w') \<and> audits_become w rows w' \<and>
    map unlinked rows = map unlinked (chain_rows w) \<and> chain_ready fuel w'"
proof -
  obtain e acc rows where g: "decided_walk (seal_decide c) (0, '''') (chain_rows w) = (e, acc, rows)"
    by (cases "decided_walk (seal_decide c) (0, '''') (chain_rows w)")
  from walk_ready [OF implements_seal assms g, of ps] obtain w' where
    "walkChain fuel ps (seal_visit c) (0, '''') w = Some (e, acc, w')" "audits_become w rows w'" "chain_ready fuel w'"
    by blast
  then show ?thesis using decided_walk_unlinked [OF g] by (cases acc) (auto simp: Seal_def)
qed

text \<open>The new entry is in the log, the old ones are still there, and nothing else changed.\<close>

lemma Record_ready:
  assumes "chain_ready fuel w" and "Suc (length (t_audits (w_tbl w))) < fuel"
    and "au_id new \<notin> au_id ` set (t_audits (w_tbl w))"
  shows "\<exists>w' A n. Record c fuel new w = Some (Inr (), w') \<and>
    w' = w\<lparr>w_tbl := (w_tbl w)\<lparr>t_audits := A\<rparr>, w_tick := n\<rparr> \<and> chain_ready fuel w' \<and>
    mset (map unlinked A) = mset (map unlinked (new # t_audits (w_tbl w)))"
proof -
  let ?w1 = "w\<lparr>w_tbl := (w_tbl w)\<lparr>t_audits := t_audits (w_tbl w) @ [new]\<rparr>, w_tick := Suc (w_tick w)\<rparr>"
  have create: "CreateAudit new w = (Inr (), ?w1)"
    using assms(1,3) by (simp add: CreateAudit_def stmt_quiet chain_ready_def)
  have ready: "chain_ready fuel ?w1"
    using assms by (auto simp: chain_ready_def key_unique_def)
  from Seal_ready [OF ready, of c 0] obtain n e w' rows where
    seal: "Seal c fuel 0 ?w1 = Some (n, e, w')" and bec: "audits_become ?w1 rows w'"
    and rows: "map unlinked rows = map unlinked (chain_rows ?w1)" and ready': "chain_ready fuel w'" by blast
  from bec obtain A k where w': "w' = ?w1\<lparr>w_tbl := (w_tbl ?w1)\<lparr>t_audits := A\<rparr>, w_tick := k\<rparr>"
    and A: "chain_order A = rows" by (auto simp: audits_become_def)
  have order: "mset (chain_order xs) = mset xs" for xs by (simp add: chain_order_def)
  have "mset (map unlinked A) = mset (map unlinked rows)" using A order [of A] by (metis mset_map)
  also have "\<dots> = mset (map unlinked (t_audits (w_tbl w) @ [new]))"
    unfolding rows chain_rows_def by (simp add: order)
  finally have ms: "mset (map unlinked A) = mset (map unlinked (new # t_audits (w_tbl w)))" by simp
  have "Record c fuel new w = Some (Inr (), w')" using create seal by (simp add: Record_def)
  with w' ready' ms show ?thesis by (intro exI [of _ w'] exI [of _ A] exI [of _ k]) simp
qed

lemma Record_ready_entry:
  assumes "mset (map unlinked A) = mset (map unlinked (new # B))"
  shows "length A = Suc (length B)" and "\<exists>a\<in>set A. unlinked a = unlinked new"
proof -
  show "length A = Suc (length B)" using arg_cong [OF assms, of size] by simp
  have "unlinked new \<in># mset (map unlinked A)" unfolding assms by simp
  then show "\<exists>a\<in>set A. unlinked a = unlinked new" by (auto simp: image_iff dest: sym)
qed

section \<open>Properties\<close>

text \<open>
  C16. Sealing always returns on a quiet store. It succeeds exactly when every row is
  consistent (never sealed, or its content matches the pair of hashes it was sealed with); the
  chain is then valid under any page size and no row's content changed. Otherwise it returns
  \<open>ErrChainBroken\<close> and every inconsistent row is still there, with the hashes that give it
  away: sealing never launders an altered row.
\<close>

theorem Seal_outcome:
  assumes "chain_ready fuel w"
  shows "\<exists>n e w'. Seal c fuel ps w = Some (n, e, w') \<and>
    map auditContentFields (chain_rows w') = map auditContentFields (chain_rows w) \<and>
    (if \<forall>a\<in>set (chain_rows w). consistent c a
     then e = None \<and> (\<exists>w''. Verify c fuel ps' w' = Some (Inr (verdict c (chain_rows w')), w'')) \<and>
       acr_valid (verdict c (chain_rows w'))
     else e = Some ErrChainBroken \<and>
       (\<forall>a\<in>set (chain_rows w). \<not> consistent c a \<longrightarrow> a \<in> set (chain_rows w')))"
proof (cases "\<forall>a\<in>set (chain_rows w). consistent c a")
  case True
  from Seal_ok [OF assms True] obtain n w' where seal: "Seal c fuel ps w = Some (n, None, w')"
    and rows: "chain_rows w' = au_relink c '''' (chain_rows w)" and ready: "chain_ready fuel w'" by blast
  from Verify_ok [OF ready] seal rows show ?thesis
    by (auto simp: True au_content_relink au_intact_relink)
next
  case False
  then obtain xs a ys where rows: "chain_rows w = xs @ a # ys" and a: "\<not> consistent c a"
    and xs: "\<forall>x\<in>set xs. consistent c x"
    using split_list_first_prop [of "chain_rows w" "\<lambda>a. \<not> consistent c a"] by blast
  from Seal_bad [OF assms rows xs a] xs a show ?thesis
    by (fastforce simp: rows au_content_relink)
qed

text \<open>
  C21. One altered row of a sealed chain, its two hash columns left as they were: verification
  reports exactly that row, at its place, as a hash mismatch, and sealing refuses and leaves
  the table exactly as it found it; unless the payloads of the old and the new row collide.
\<close>

theorem altered_row_detected:
  assumes "chain_ready fuel w" and "chain_rows w = xs @ a' # ys" and "au_intact c '''' (xs @ a # ys)"
    and "auditContentFields a' \<noteq> auditContentFields a"
    and "au_prev_hash a' = au_prev_hash a" and "au_curr_hash a' = au_curr_hash a"
  shows "collision (digest c) (audit_payload a) (audit_payload a') \<or>
    (\<exists>res f w1 n w2. Verify c fuel ps w = Some (Inr res, w1) \<and> \<not> acr_valid res \<and>
       acr_count res = length (chain_rows w) \<and> acr_failures res = [f] \<and>
       cf_row_id f = au_id a' \<and> cf_index f = length xs \<and> cf_type f = FailureHashMismatch \<and>
       Seal c fuel ps w = Some (n, Some ErrChainBroken, w2) \<and> chain_rows w2 = chain_rows w)"
proof (cases "collision (digest c) (audit_payload a) (audit_payload a')")
  case False
  let ?p = "tail_hash au_curr_hash '''' xs"
  from assms(3) have xs: "au_intact c '''' xs" and a: "au_prev_hash a = ?p" "au_curr_hash a = ComputeAuditHash c a ?p"
    and ys: "au_intact c (au_curr_hash a) ys" by (simp_all add: intact_append)
  have bad: "au_curr_hash a' \<noteq> ComputeAuditHash c a' ?p"
    using au.altered_row_hash [OF assms(3) [unfolded audit_hash_chain_hash] assms(6,5,4)] False a(1) assms(5)
    by (simp add: audit_payload_own audit_hash_chain_hash)
  have fail: "audit_failure c a' (length xs) ?p = Some
      \<lparr>cf_row_id = au_id a', cf_index = length xs, cf_type = FailureHashMismatch,
       cf_expected = ComputeAuditHash c a' ?p, cf_actual = au_curr_hash a', cf_prev_expected = ?p,
       cf_prev_actual = ?p\<rparr>" (is "_ = Some ?f")
    using a bad assms(5,6) by (auto simp: audit_failure_def Let_def)
  have "failures c 0 '''' (chain_rows w) = [?f]"
    using xs ys fail assms(6) by (simp add: assms(2) failures_append failures_Nil_iff [THEN iffD2])
  then have v: "verdict c (chain_rows w) = \<lparr>acr_count = length (chain_rows w), acr_unsealed = 0,
      acr_valid = False, acr_failures = [?f]\<rparr>" by (simp add: verdict_def)
  have "\<not> consistent c a'" using bad a(2) assms(5,6) unfolding consistent_def by (metis a(1) audit_hash_ne)
  from Seal_bad [OF assms(1,2) _ this, of ps] obtain n w2 where
    "Seal c fuel ps w = Some (n, Some ErrChainBroken, w2)" "chain_rows w2 = au_relink c '''' xs @ a' # ys"
    using intact_consistent [OF xs] by blast
  moreover have "au_relink c '''' xs = xs"
    using au.relink_intact xs by (simp add: audit_hash_chain_hash)
  moreover from Verify_ok [OF assms(1), of c ps] obtain w1 where
    "Verify c fuel ps w = Some (Inr (verdict c (chain_rows w)), w1)" by blast
  ultimately show ?thesis unfolding v by (simp add: assms(2))
qed simp

text \<open>
  A row deleted behind the store's back: verification reports exactly the break at its
  successor (a previous-hash mismatch), unless its payload collides with its predecessor's; and
  the next seal closes the gap, after which the table verifies. This is the limit the code states for
  itself: deletion is left to the database triggers.
\<close>

theorem deleted_row_reported_until_seal:
  assumes "chain_ready fuel w" and "chain_rows w = xs @ b # ys" and "au_intact c '''' (xs @ a # b # ys)"
    and "au_id a \<notin> au_id ` set xs"
  shows "(xs \<noteq> [] \<and> collision (digest c) (audit_payload a) (audit_payload (last xs))) \<or>
    (\<exists>res f w1 n w2. Verify c fuel ps w = Some (Inr res, w1) \<and> acr_failures res = [f] \<and>
       cf_row_id f = au_id b \<and> cf_index f = length xs \<and> cf_type f = FailurePrevHashMismatch \<and>
       Seal c fuel ps w = Some (n, None, w2) \<and>
       (\<exists>res2 w3. Verify c fuel ps w2 = Some (Inr res2, w3) \<and> acr_valid res2))"
proof (cases "xs \<noteq> [] \<and> collision (digest c) (audit_payload a) (audit_payload (last xs))")
  case False
  let ?p = "tail_hash au_curr_hash '''' xs"
  let ?h = "ComputeAuditHash c a ?p"
  from assms(3) have xs: "au_intact c '''' xs" and b: "au_prev_hash b = ?h" "au_curr_hash b = ComputeAuditHash c b ?h"
    and ys: "au_intact c (au_curr_hash b) ys" by (simp_all add: intact_append)
  have ne: "?h \<noteq> ?p"
  proof (cases xs rule: rev_cases)
    case (snoc zs x)
    with xs have p: "?p = ComputeAuditHash c x (au_prev_hash x)"
      by (simp add: intact_append tail_hash_append)
    show ?thesis
    proof
      assume "?h = ?p"
      then have "auditContentFields a = auditContentFields x"
        using au.hash_eq_cases [of c a ?p x "au_prev_hash x"] False p snoc assms(3)
        by (simp add: audit_payload_own audit_hash_chain_hash intact_append)
      with snoc assms(4) show False by (simp add: auditContentFields_def)
    qed
  qed simp
  let ?f = "\<lparr>cf_row_id = au_id b, cf_index = length xs, cf_type = FailurePrevHashMismatch,
       cf_expected = ComputeAuditHash c b ?p, cf_actual = au_curr_hash b, cf_prev_expected = ?p,
       cf_prev_actual = ?h\<rparr>"
  have "audit_failure c b (length xs) ?p = Some ?f" using b ne by (simp add: audit_failure_def Let_def)
  then have "failures c 0 '''' (chain_rows w) = [?f]"
    using xs ys by (simp add: assms(2) failures_append failures_Nil_iff [THEN iffD2])
  then have v: "acr_failures (verdict c (chain_rows w)) = [?f]" by (simp add: verdict_def)
  have "\<forall>a\<in>set (chain_rows w). consistent c a" using intact_consistent [OF assms(3)] assms(2) by auto
  from Seal_ok [OF assms(1) this, of ps] obtain n w2 where seal: "Seal c fuel ps w = Some (n, None, w2)"
    "chain_rows w2 = au_relink c '''' (chain_rows w)" "chain_ready fuel w2" by blast
  from Verify_ok [OF seal(3), of c ps] seal(2) have
    "\<exists>res2 w3. Verify c fuel ps w2 = Some (Inr res2, w3) \<and> acr_valid res2" by (auto simp: au_intact_relink)
  with Verify_ok [OF assms(1), of c ps] seal(1) v show ?thesis by auto
qed simp

text \<open>
  The chain binds the log: two tables that both verify, have the same number of rows and
  end in the same hash hold the same records in the same order, or two rows at the same place
  have colliding payloads.
\<close>

theorem verified_chain_binds:
  assumes "chain_ready f1 w1" and "Verify c f1 p1 w1 = Some (Inr r1, v1)" and "acr_valid r1"
    and "chain_ready f2 w2" and "Verify c f2 p2 w2 = Some (Inr r2, v2)" and "acr_valid r2"
    and "acr_count r1 = acr_count r2"
    and "tail_hash au_curr_hash '''' (chain_rows w1) = tail_hash au_curr_hash '''' (chain_rows w2)"
  shows "map auditContentFields (chain_rows w1) = map auditContentFields (chain_rows w2) \<or>
    (\<exists>(a, b)\<in>set (zip (chain_rows w1) (chain_rows w2)). collision (digest c) (audit_payload a) (audit_payload b))"
proof -
  from Verify_ok [OF assms(1), of c p1] Verify_ok [OF assms(4), of c p2] assms(2,5)
  have r: "r1 = verdict c (chain_rows w1)" "r2 = verdict c (chain_rows w2)" by auto
  with assms(3,6) have "au_intact c '''' (chain_rows w1)" "au_intact c '''' (chain_rows w2)" by simp_all
  moreover from r assms(7) have "length (chain_rows w1) = length (chain_rows w2)" by (simp add: verdict_def)
  ultimately show ?thesis
    using au.binding [of c "''''" "chain_rows w1" "''''" "chain_rows w2"] assms(8)
    by (simp add: audit_hash_chain_hash audit_payload_own)
qed

text \<open>
  C23. Recording into a store whose rows are consistent: the entry is inserted wherever its
  timestamp puts it (back-dated entries included) with the content it was given, the call
  succeeds, and the whole chain verifies afterwards.
\<close>

theorem Record_keeps_chain_valid:
  assumes "chain_ready fuel w" and "Suc (length (t_audits (w_tbl w))) < fuel"
    and "\<forall>a\<in>set (chain_rows w). consistent c a"
    and "au_id new \<notin> au_id ` set (t_audits (w_tbl w))" and "au_curr_hash new = ''''"
  shows "\<exists>w' res w''. Record c fuel new w = Some (Inr (), w') \<and>
    map auditContentFields (chain_rows w') =
      map auditContentFields (chain_order (t_audits (w_tbl w) @ [new])) \<and>
    Verify c fuel ps w' = Some (Inr res, w'') \<and> acr_valid res \<and>
    acr_count res = Suc (length (t_audits (w_tbl w)))"
proof -
  let ?w1 = "w\<lparr>w_tbl := (w_tbl w)\<lparr>t_audits := t_audits (w_tbl w) @ [new]\<rparr>, w_tick := Suc (w_tick w)\<rparr>"
  have create: "CreateAudit new w = (Inr (), ?w1)"
    using assms(1,4) by (simp add: CreateAudit_def stmt_quiet chain_ready_def)
  have ready: "chain_ready fuel ?w1"
    using assms(1,2,4) by (auto simp: chain_ready_def key_unique_def)
  have rows1: "chain_rows ?w1 = chain_order (t_audits (w_tbl w) @ [new])" by (simp add: chain_rows_def)
  have "\<forall>a\<in>set (chain_rows ?w1). consistent c a"
    using assms(3,5) by (auto simp: chain_rows_def consistent_def)
  from Seal_ok [OF ready this, of 0] obtain n w' where
    seal: "Seal c fuel 0 ?w1 = Some (n, None, w')" "chain_rows w' = au_relink c '''' (chain_rows ?w1)"
    "chain_ready fuel w'" by blast
  from Verify_ok [OF seal(3), of c ps] obtain w'' where
    "Verify c fuel ps w' = Some (Inr (verdict c (chain_rows w')), w'')" by blast
  moreover have "acr_valid (verdict c (chain_rows w'))" using seal(2) by (simp add: au_intact_relink)
  moreover have "acr_count (verdict c (chain_rows w')) = Suc (length (t_audits (w_tbl w)))"
    using seal(2) rows1 by (simp add: verdict_def)
  moreover have "map auditContentFields (chain_rows w') = map auditContentFields (chain_rows ?w1)"
    using seal(2) by (simp add: au_content_relink)
  ultimately show ?thesis using create seal(1) rows1 by (auto simp: Record_def)
qed

text \<open>
  A seal cut off by driver errors, at whatever statements they strike, loses nothing: run
  again on a store that works it gives exactly the chain an undisturbed seal gives.
\<close>

theorem interrupted_seal_completes:
  assumes "\<And>n. w_intf w n = id" and "key_unique au_id (t_audits (w_tbl w))"
    and "\<forall>a\<in>set (t_audits (w_tbl w)). consistent c a"
    and "Seal c f1 p1 w = Some (n1, e1, w1)"
    and "chain_ready f2 w2" and "w_tbl w2 = w_tbl w1"
  shows "\<exists>n w'. Seal c f2 p2 w2 = Some (n, None, w') \<and> chain_rows w' = au_relink c '''' (chain_rows w)"
proof -
  let ?U = "map unlinked (t_audits (w_tbl w))"
  have "sealing_inv c ?U w" using assms(1-3) by (simp add: sealing_inv_def)
  from Seal_inv [OF this assms(4)] have inv: "sealing_inv c ?U w1" .
  then have "\<forall>a\<in>set (chain_rows w2). consistent c a"
    by (simp add: sealing_inv_def chain_rows_def assms(6))
  from Seal_ok [OF assms(5) this, of p2] obtain n w' where
    seal: "Seal c f2 p2 w2 = Some (n, None, w')" "chain_rows w' = au_relink c '''' (chain_rows w2)" by blast
  have "map unlinked (chain_rows w2) = map unlinked (chain_rows w)"
    using inv by (simp add: chain_rows_def map_unlinked_chain_order sealing_inv_def assms(6))
  with seal relink_unlinked show ?thesis by metis
qed

text \<open>
  The page size is invisible: two verifications, or two seals, with any page sizes give the
  same result and the same table.
\<close>

theorem page_size_invisible:
  assumes "chain_ready fuel w"
  shows "map_option fst (Verify c fuel p1 w) = map_option fst (Verify c fuel p2 w) \<and>
    map_option (\<lambda>(n, e, w'). (n, e, chain_rows w')) (Seal c fuel p1 w) =
    map_option (\<lambda>(n, e, w'). (n, e, chain_rows w')) (Seal c fuel p2 w)"
proof
  show "map_option fst (Verify c fuel p1 w) = map_option fst (Verify c fuel p2 w)"
    using Verify_ok [OF assms, of c p1] Verify_ok [OF assms, of c p2] by auto
next
  obtain e acc rows where g: "decided_walk (seal_decide c) (0, '''') (chain_rows w) = (e, acc, rows)"
    by (cases "decided_walk (seal_decide c) (0, '''') (chain_rows w)")
  have "map_option (\<lambda>(n, e, w'). (n, e, chain_rows w')) (Seal c fuel ps w) = Some (fst acc, e, rows)" for ps
    using walk_ready [OF implements_seal assms g, of ps] by (cases acc) (auto simp: Seal_def)
  from this [of p1] this [of p2] show "map_option (\<lambda>(n, e, w'). (n, e, chain_rows w')) (Seal c fuel p1 w) =
      map_option (\<lambda>(n, e, w'). (n, e, chain_rows w')) (Seal c fuel p2 w)" by (rule trans [OF _ sym])
qed

section \<open>Witnesses\<close>

definition demo_crypto :: crypto where
  "demo_crypto = \<lparr>c_sha256 = (\<lambda>s. of_nat (length s)), c_hmac_sha256 = (\<lambda>k s. 0), c_env_hmac_key = ''''\<rparr>"

definition demo_audit :: "string \<Rightarrow> time \<Rightarrow> audit_row" where
  "demo_audit i t = \<lparr>au_id = i, au_run_id = '''', au_action = ''login'', au_actor = ''ops'',
     au_target = '''', au_result = ''success'', au_tenant_id = '''', au_prev_hash = '''',
     au_curr_hash = '''', au_timestamp = t\<rparr>"

abbreviation demo_log :: "audit_row list \<Rightarrow> world" where
  "demo_log rows \<equiv> still_world (no_rows\<lparr>t_audits := rows\<rparr>)"

lemma demo_log_ready [simp]: "chain_ready fuel (demo_log rows) \<longleftrightarrow> key_unique au_id rows \<and> length rows < fuel"
  by (simp add: chain_ready_def)

lemma demo_log_rows [simp]: "chain_rows (demo_log rows) = chain_order rows"
  by (simp add: chain_rows_def)

text \<open>Three sealed rows, in chain order.\<close>

definition demo_row :: "nat \<Rightarrow> audit_row" where
  "demo_row i = au_relink demo_crypto '''' [demo_audit ''b'' 1, demo_audit ''a'' 2, demo_audit ''c'' 3] ! i"

lemma demo_simps [simp]:
  "au_id (demo_audit i t) = i" "au_timestamp (demo_audit i t) = t" "au_curr_hash (demo_audit i t) = ''''"
  "au_id (audit_link p q a) = au_id a" "au_timestamp (audit_link p q a) = au_timestamp a"
  "au_result (audit_link p q a) = au_result a" "au_result (demo_audit i t) = ''success''"
  by (simp_all add: demo_audit_def audit_link_def)

lemma demo_row_simps [simp]:
  "au_id (demo_row 0) = ''b''" "au_id (demo_row (Suc 0)) = ''a''" "au_id (demo_row 2) = ''c''"
  "au_timestamp (demo_row 0) = 1" "au_timestamp (demo_row (Suc 0)) = 2" "au_timestamp (demo_row 2) = 3"
  "au_result (demo_row (Suc 0)) = ''success''"
  by (simp_all add: demo_row_def)

lemma demo_intact: "au_intact demo_crypto '''' [demo_row 0, demo_row 1, demo_row 2]"
proof -
  have "[demo_row 0, demo_row 1, demo_row 2] =
      au_relink demo_crypto '''' [demo_audit ''b'' 1, demo_audit ''a'' 2, demo_audit ''c'' 3]"
    by (simp add: demo_row_def)
  then show ?thesis using au_intact_relink by metis
qed

theorem Seal_outcome_witness:
  "\<exists>n w'. Seal demo_crypto 3 1 (demo_log [demo_audit ''b'' 2, demo_audit ''a'' 1]) = Some (n, None, w') \<and>
     map auditContentFields (chain_rows w') = map auditContentFields [demo_audit ''a'' 1, demo_audit ''b'' 2]"
  using Seal_outcome [of 3 "demo_log [demo_audit ''b'' 2, demo_audit ''a'' 1]" demo_crypto 1 2]
  by (auto simp: chain_order_def consistent_def)

abbreviation demo_altered :: audit_row where
  "demo_altered \<equiv> (demo_row 1)\<lparr>au_result := ''failure''\<rparr>"

theorem altered_row_detected_witness:
  "let w = demo_log [demo_row 0, demo_altered, demo_row 2] in
   collision (digest demo_crypto) (audit_payload (demo_row 1)) (audit_payload demo_altered) \<or>
    (\<exists>res f w1 n w2. Verify demo_crypto 4 2 w = Some (Inr res, w1) \<and> \<not> acr_valid res \<and>
       acr_count res = 3 \<and> acr_failures res = [f] \<and>
       cf_row_id f = ''a'' \<and> cf_index f = 1 \<and> cf_type f = FailureHashMismatch \<and>
       Seal demo_crypto 4 2 w = Some (n, Some ErrChainBroken, w2) \<and> chain_rows w2 = chain_rows w)"
  using altered_row_detected [of 4 "demo_log [demo_row 0, demo_altered, demo_row 2]"
      "[demo_row 0]" demo_altered "[demo_row 2]" demo_crypto "demo_row 1" 2] demo_intact
  by (auto simp: chain_order_def auditContentFields_def Let_def simp del: intact.simps)

theorem deleted_row_reported_until_seal_witness:
  "let w = demo_log [demo_row 0, demo_row 2] in
   collision (digest demo_crypto) (audit_payload (demo_row 1)) (audit_payload (demo_row 0)) \<or>
    (\<exists>res f w1 n w2. Verify demo_crypto 3 0 w = Some (Inr res, w1) \<and> acr_failures res = [f] \<and>
       cf_row_id f = ''c'' \<and> cf_index f = 1 \<and> cf_type f = FailurePrevHashMismatch \<and>
       Seal demo_crypto 3 0 w = Some (n, None, w2) \<and>
       (\<exists>res2 w3. Verify demo_crypto 3 0 w2 = Some (Inr res2, w3) \<and> acr_valid res2))"
  using deleted_row_reported_until_seal [of 3 "demo_log [demo_row 0, demo_row 2]"
      "[demo_row 0]" "demo_row 2" "[]" demo_crypto "demo_row 1" 0] demo_intact
  by (auto simp: chain_order_def Let_def simp del: intact.simps)

theorem verified_chain_binds_witness:
  "map auditContentFields (chain_rows (demo_log [demo_row 0])) = map auditContentFields (chain_rows (demo_log [demo_row 0])) \<or>
    (\<exists>(a, b)\<in>set (zip (chain_rows (demo_log [demo_row 0])) (chain_rows (demo_log [demo_row 0]))).
       collision (digest demo_crypto) (audit_payload a) (audit_payload b))"
proof -
  have ready: "chain_ready 2 (demo_log [demo_row 0])" by simp
  have "au_intact demo_crypto '''' (chain_rows (demo_log [demo_row 0]))"
    using demo_intact by (simp add: chain_order_def)
  then have valid: "acr_valid (verdict demo_crypto (chain_rows (demo_log [demo_row 0])))"
    by (rule verdict_valid [THEN iffD2])
  from Verify_ok [OF ready, of demo_crypto 0] obtain v where
    "Verify demo_crypto 2 0 (demo_log [demo_row 0]) =
       Some (Inr (verdict demo_crypto (chain_rows (demo_log [demo_row 0]))), v)" by blast
  from verified_chain_binds [OF ready this valid ready this valid refl refl] show ?thesis .
qed

theorem Record_keeps_chain_valid_witness:
  "\<exists>w' res w''. Record demo_crypto 3 (demo_audit ''x'' 0) (demo_log [demo_row 0]) = Some (Inr (), w') \<and>
    map auditContentFields (chain_rows w') = map auditContentFields [demo_audit ''x'' 0, demo_row 0] \<and>
    Verify demo_crypto 3 1 w' = Some (Inr res, w'') \<and> acr_valid res \<and> acr_count res = 2"
  using Record_keeps_chain_valid [of 3 "demo_log [demo_row 0]" demo_crypto "demo_audit ''x'' 0" 1] demo_intact
  by (simp add: chain_order_def consistent_def numeral_2_eq_2)

definition demo_faulty :: world where
  "demo_faulty = (demo_log [demo_audit ''b'' 2, demo_audit ''a'' 1])\<lparr>w_fault := (\<lambda>n. n = 2)\<rparr>"

lemma demo_faulty_seal:
  "\<exists>w1. Seal demo_crypto 3 1 demo_faulty = Some (1, Some (AuditStore DriverError), w1) \<and>
     map au_id (t_audits (w_tbl w1)) = [''b'', ''a'']"
  by (simp add: demo_faulty_def Seal_def walkChain_def numeral_3_eq_3 ListAuditChainPage_def query_def
      stmt_def still_world_def no_rows_def opt_eq_def chain_order_def seal_visit_def Let_def
      UpdateAuditChain_def key_after_def audit_key_def count_where_def
      audit_hash_ne [symmetric])

theorem interrupted_seal_completes_witness:
  "\<exists>w1. Seal demo_crypto 3 1 demo_faulty = Some (1, Some (AuditStore DriverError), w1) \<and>
     (\<exists>n w'. Seal demo_crypto 3 1 (still_world (w_tbl w1)) = Some (n, None, w') \<and>
       chain_rows w' = au_relink demo_crypto '''' (chain_rows demo_faulty))"
proof -
  obtain w1 where seal: "Seal demo_crypto 3 1 demo_faulty = Some (1, Some (AuditStore DriverError), w1)"
    and ids: "map au_id (t_audits (w_tbl w1)) = [''b'', ''a'']" using demo_faulty_seal
    by (elim exE conjE) (rule that)
  have len: "length (t_audits (w_tbl w1)) = 2" using arg_cong [OF ids, of length] by simp
  have key: "key_unique au_id (t_audits (w_tbl w1))" unfolding key_unique_def ids by simp
  have "chain_ready 3 (still_world (w_tbl w1))" by (simp add: chain_ready_def key len)
  from interrupted_seal_completes [OF _ _ _ seal this, of 1] seal show ?thesis
    by (auto simp: demo_faulty_def still_world_def consistent_def)
qed

theorem page_size_invisible_witness:
  "map_option fst (Verify demo_crypto 4 1 (demo_log [demo_row 0, demo_row 2])) =
     map_option fst (Verify demo_crypto 4 1000 (demo_log [demo_row 0, demo_row 2]))"
  using page_size_invisible [of 4 "demo_log [demo_row 0, demo_row 2]" demo_crypto 1 1000] by simp

end
