(* ===== verification/Trace_Chain.thy ===== *)
theory Trace_Chain
  imports Audit_Chain
begin

text \<open>
  A run's own hash chain over its traces: \<^verbatim>\<open>internal/audit/hashchain.go\<close> (build and seal),
  \<^verbatim>\<open>verify.go\<close> (the read-only verifier), \<^verbatim>\<open>worm.go\<close> (write-once store), \<^verbatim>\<open>seal_trace.go\<close>
  and the recording half of \<^verbatim>\<open>trace.go\<close>. The store's order of a run's traces is
  \<open>run_rows\<close>; building and sealing are shown to relink that list, the two verifiers are shown
  to agree, and the one-row-at-a-time writes are followed through the table.

  A trace's detail column is the result of \<^verbatim>\<open>buildDetail\<close> (redaction and JSON); it is an
  argument of \<open>TraceRecord\<close> here.
\<close>

definition ComputeHash :: "crypto \<Rightarrow> trace_row \<Rightarrow> string \<Rightarrow> string" where
  "ComputeHash c t prev = ComputeHashV2 c t prev"

definition trace_link :: "string \<Rightarrow> string \<Rightarrow> trace_row \<Rightarrow> trace_row" where
  "trace_link p q t = t\<lparr>tr_prev_hash := p, tr_curr_hash := q\<rparr>"

section \<open>Building\<close>

definition chainExists :: "string \<Rightarrow> (bool \<times> bool) op" where
  "chainExists rid w = (case ListTraces (run_traces_filter rid) w of
     (Inl e, w1) \<Rightarrow> (Inl e, w1)
   | (Inr ts, w1) \<Rightarrow>
       if ts = [] then (Inr (False, False), w1)
       else if \<exists>t\<in>set ts. tr_curr_hash t \<noteq> '''' then (Inr (True, True), w1)
       else (Inr (True, False), w1))"

text \<open>\<^verbatim>\<open>HashChainBuilder.Verify\<close>: the count of the rows before the first mismatch, and the error.\<close>

fun verify_loop :: "crypto \<Rightarrow> trace_row list \<Rightarrow> string \<Rightarrow> nat \<Rightarrow> nat \<times> audit_error option" where
  "verify_loop c [] prev i = (i, None)"
| "verify_loop c (t # ts) prev i =
     (if tr_prev_hash t \<noteq> prev then (i, Some ErrHashMismatch)
      else if tr_curr_hash t \<noteq> ComputeHash c t prev \<and> tr_curr_hash t \<noteq> legacyHash c t prev
      then (i, Some ErrHashMismatch)
      else verify_loop c ts (tr_curr_hash t) (Suc i))"

definition BuilderVerify :: "crypto \<Rightarrow> string \<Rightarrow> world \<Rightarrow> (nat \<times> audit_error option) \<times> world" where
  "BuilderVerify c rid w =
     (if rid = '''' then ((0, Some ErrEmptyRunID), w)
      else case ListTraces (run_traces_filter rid) w of
        (Inl e, w1) \<Rightarrow> ((0, Some (AuditStore e)), w1)
      | (Inr ts, w1) \<Rightarrow> if ts = [] then ((0, Some ErrNoTraces), w1) else (verify_loop c ts '''' 0, w1))"

text \<open>Rows are written one at a time; the result carries how many were before an error.\<close>

fun build_loop :: "crypto \<Rightarrow> trace_row list \<Rightarrow> string \<Rightarrow> nat \<Rightarrow> world \<Rightarrow> (nat \<times> string \<times> audit_error option) \<times> world" where
  "build_loop c [] current i w = ((i, current, None), w)"
| "build_loop c (t # ts) current i w =
     (let t' = t\<lparr>tr_prev_hash := current, tr_curr_hash := ComputeHash c t current\<rparr>
      in case UpdateTrace t' w of
        (Inl e, w1) \<Rightarrow> ((i, '''', Some (AuditStore e)), w1)
      | (Inr _, w1) \<Rightarrow> build_loop c ts (tr_curr_hash t') (Suc i) w1)"

definition buildChainWithPrev ::
    "crypto \<Rightarrow> trace_row list \<Rightarrow> string \<Rightarrow> world \<Rightarrow> (nat \<times> string \<times> audit_error option) \<times> world" where
  "buildChainWithPrev c ts prev w = build_loop c ts prev 0 w"

definition buildChain :: "crypto \<Rightarrow> trace_row list \<Rightarrow> world \<Rightarrow> (nat \<times> string \<times> audit_error option) \<times> world" where
  "buildChain c ts w = buildChainWithPrev c ts '''' w"

definition Build :: "crypto \<Rightarrow> string \<Rightarrow> world \<Rightarrow> (nat \<times> string \<times> audit_error option) \<times> world" where
  "Build c rid w =
     (if rid = '''' then ((0, '''', Some ErrEmptyRunID), w)
      else case chainExists rid w of
        (Inl e, w1) \<Rightarrow> ((0, '''', Some (AuditStore e)), w1)
      | (Inr (ex, hashes), w1) \<Rightarrow>
          if \<not> ex then ((0, '''', Some ErrNoTraces), w1)
          else if hashes then
            (case BuilderVerify c rid w1 of ((n, err), w2) \<Rightarrow>
               ((0, '''', Some (if err = None then ErrChainAlreadyBuilt else ErrChainBroken)), w2))
          else case ListTraces (run_traces_filter rid) w1 of
            (Inl e, w2) \<Rightarrow> ((0, '''', Some (AuditStore e)), w2)
          | (Inr ts, w2) \<Rightarrow> if ts = [] then ((0, '''', Some ErrNoTraces), w2) else buildChain c ts w2)"

definition BuildForce :: "crypto \<Rightarrow> string \<Rightarrow> world \<Rightarrow> (nat \<times> string \<times> audit_error option) \<times> world" where
  "BuildForce c rid w =
     (if rid = '''' then ((0, '''', Some ErrEmptyRunID), w)
      else case ListTraces (run_traces_filter rid) w of
        (Inl e, w1) \<Rightarrow> ((0, '''', Some (AuditStore e)), w1)
      | (Inr ts, w1) \<Rightarrow> if ts = [] then ((0, '''', Some ErrNoTraces), w1) else buildChain c ts w1)"

function batch_loop ::
    "crypto \<Rightarrow> nat \<Rightarrow> trace_row list \<Rightarrow> string \<Rightarrow> nat \<Rightarrow> world \<Rightarrow> (nat \<times> string \<times> audit_error option) \<times> world" where
  "batch_loop c bsize ts prev tot w =
     (if ts = [] \<or> bsize = 0 then ((tot, prev, None), w)
      else case buildChainWithPrev c (take bsize ts) prev w of
        ((n, tail, Some e), w1) \<Rightarrow> ((tot, '''', Some e), w1)
      | ((n, tail, None), w1) \<Rightarrow> batch_loop c bsize (drop bsize ts) tail (tot + n) w1)"
  by pat_completeness auto
termination
  by (relation "measure (\<lambda>(c, bsize, ts, prev, tot, w). length ts)") auto

declare batch_loop.simps [simp del]

definition BuildBatch :: "crypto \<Rightarrow> string \<Rightarrow> int \<Rightarrow> world \<Rightarrow> (nat \<times> string \<times> audit_error option) \<times> world" where
  "BuildBatch c rid bsize w =
     (if rid = '''' then ((0, '''', Some ErrEmptyRunID), w)
      else if bsize \<le> 0 then ((0, '''', Some ErrInvalidBatchSize), w)
      else case chainExists rid w of
        (Inl e, w1) \<Rightarrow> ((0, '''', Some (AuditStore e)), w1)
      | (Inr (ex, hashes), w1) \<Rightarrow>
          if \<not> ex then ((0, '''', Some ErrNoTraces), w1)
          else if hashes then
            (case BuilderVerify c rid w1 of ((n, err), w2) \<Rightarrow>
               ((0, '''', Some (if err = None then ErrChainAlreadyBuilt else ErrChainBroken)), w2))
          else case ListTraces (run_traces_filter rid) w1 of
            (Inl e, w2) \<Rightarrow> ((0, '''', Some (AuditStore e)), w2)
          | (Inr ts, w2) \<Rightarrow> if ts = [] then ((0, '''', Some ErrNoTraces), w2)
              else batch_loop c (nat bsize) ts '''' 0 w2)"

section \<open>Sealing\<close>

record seal_result =
  sr_count :: nat
  sr_sealed :: nat
  sr_tail_hash :: string

fun seal_loop :: "crypto \<Rightarrow> trace_row list \<Rightarrow> string \<Rightarrow> nat \<Rightarrow> world \<Rightarrow> (audit_error option \<times> nat \<times> string) \<times> world" where
  "seal_loop c [] prev sealed w = ((None, sealed, prev), w)"
| "seal_loop c (t # ts) prev sealed w =
     (let want = ComputeHash c t prev in
      if tr_prev_hash t = prev \<and> tr_curr_hash t = want then seal_loop c ts want sealed w
      else if tr_curr_hash t = '''' then
        (case UpdateTraceChain (tr_id t) prev want w of
           (Inl e, w1) \<Rightarrow> ((Some (AuditStore e), sealed, prev), w1)
         | (Inr _, w1) \<Rightarrow> seal_loop c ts want (Suc sealed) w1)
      else ((Some ErrChainBroken, sealed, prev), w))"

text \<open>The result is returned beside an error too, with the tail hash not yet set.\<close>

definition TraceSeal :: "crypto \<Rightarrow> string \<Rightarrow> world \<Rightarrow> (seal_result option \<times> audit_error option) \<times> world" where
  "TraceSeal c rid w =
     (if rid = '''' then ((None, Some ErrEmptyRunID), w)
      else case ListTraces (run_traces_filter rid) w of
        (Inl e, w1) \<Rightarrow> ((None, Some (AuditStore e)), w1)
      | (Inr ts, w1) \<Rightarrow>
          if ts = [] then ((None, Some ErrNoTraces), w1)
          else case seal_loop c ts '''' 0 w1 of
            ((None, n, tail), w2) \<Rightarrow>
              ((Some \<lparr>sr_count = length ts, sr_sealed = n, sr_tail_hash = tail\<rparr>, None), w2)
          | ((Some e, n, tail), w2) \<Rightarrow>
              ((Some \<lparr>sr_count = length ts, sr_sealed = n, sr_tail_hash = ''''\<rparr>, Some e), w2))"

definition SealRunTraceChain :: "crypto \<Rightarrow> string \<Rightarrow> world \<Rightarrow> audit_error option \<times> world" where
  "SealRunTraceChain c rid w = (case TraceSeal c rid w of
     ((_, err), w1) \<Rightarrow> (if err = Some ErrNoTraces then None else err, w1))"

section \<open>Verifying\<close>

record verify_result =
  vr_run_id :: string
  vr_valid :: bool
  vr_count :: nat
  vr_legacy_count :: nat
  vr_failures :: "chain_failure list"

definition checkTrace :: "crypto \<Rightarrow> trace_row \<Rightarrow> nat \<Rightarrow> string \<Rightarrow> chain_failure option" where
  "checkTrace c t i prev =
     (let expected = ComputeHash c t prev;
          report = (\<lambda>ft. \<lparr>cf_row_id = tr_id t, cf_index = i, cf_type = ft, cf_expected = expected,
            cf_actual = tr_curr_hash t, cf_prev_expected = prev, cf_prev_actual = tr_prev_hash t\<rparr>)
      in if tr_curr_hash t = '''' then Some (report FailureEmptyHash)
         else if tr_prev_hash t \<noteq> prev then Some (report FailurePrevHashMismatch)
         else if tr_curr_hash t \<noteq> expected \<and> tr_curr_hash t \<noteq> legacyHash c t prev
         then Some (report FailureHashMismatch)
         else None)"

fun check_loop :: "crypto \<Rightarrow> trace_row list \<Rightarrow> string \<Rightarrow> nat \<Rightarrow> verify_result \<Rightarrow> verify_result" where
  "check_loop c [] prev i res = res"
| "check_loop c (t # ts) prev i res = check_loop c ts (tr_curr_hash t) (Suc i)
     (case checkTrace c t i prev of
        Some f \<Rightarrow> res\<lparr>vr_failures := vr_failures res @ [f], vr_valid := False\<rparr>
      | None \<Rightarrow> if tr_curr_hash t \<noteq> ComputeHash c t prev
                then res\<lparr>vr_legacy_count := Suc (vr_legacy_count res)\<rparr> else res)"

definition ChainVerify :: "crypto \<Rightarrow> string \<Rightarrow> world \<Rightarrow> (audit_error + verify_result) \<times> world" where
  "ChainVerify c rid w =
     (if rid = '''' then (Inl ErrEmptyRunID, w)
      else case ListTraces (run_traces_filter rid) w of
        (Inl e, w1) \<Rightarrow> (Inl (AuditStore e), w1)
      | (Inr ts, w1) \<Rightarrow>
          if ts = [] then (Inl ErrNoTraces, w1)
          else (Inr (check_loop c ts '''' 0 \<lparr>vr_run_id = rid, vr_valid = True, vr_count = length ts,
                  vr_legacy_count = 0, vr_failures = []\<rparr>), w1))"

definition VerifyStrict :: "crypto \<Rightarrow> string \<Rightarrow> world \<Rightarrow> audit_error option \<times> world" where
  "VerifyStrict c rid w = (case ChainVerify c rid w of
     (Inl e, w1) \<Rightarrow> (Some e, w1)
   | (Inr res, w1) \<Rightarrow> (if \<not> vr_valid res then Some ErrVerifyFailed else None, w1))"

section \<open>The write-once store\<close>

definition verifyChecksum :: "crypto \<Rightarrow> trace_row option \<Rightarrow> bool" where
  "verifyChecksum c tr = (case tr of
     None \<Rightarrow> False
   | Some t \<Rightarrow> if tr_curr_hash t = ComputeChecksum c t then True else tr_curr_hash t = legacyChecksum c t)"

definition Append :: "crypto \<Rightarrow> trace_row option \<Rightarrow> world \<Rightarrow> audit_error option \<times> world" where
  "Append c tr w = (case tr of
     None \<Rightarrow> (Some ErrNilRecord, w)
   | Some t \<Rightarrow>
      if tr_id t = '''' then (Some ErrEmptyID, w)
      else case GetTrace (tr_id t) w of
        (Inl e, w1) \<Rightarrow> (Some (AuditStore e), w1)
      | (Inr (Some _), w1) \<Rightarrow> (Some ErrAlreadyExists, w1)
      | (Inr None, w1) \<Rightarrow>
          (case CreateTrace (t\<lparr>tr_curr_hash := ComputeChecksum c t\<rparr>) w1 of
             (Inl e, w2) \<Rightarrow> (Some (if e = ErrTraceExists then ErrAlreadyExists else AuditStore e), w2)
           | (Inr _, w2) \<Rightarrow> (None, w2)))"

definition WormRead :: "crypto \<Rightarrow> string \<Rightarrow> world \<Rightarrow> (audit_error + trace_row) \<times> world" where
  "WormRead c i w = (case GetTrace i w of
     (Inl e, w1) \<Rightarrow> (Inl (AuditStore e), w1)
   | (Inr None, w1) \<Rightarrow> (Inl ErrWORMNotFound, w1)
   | (Inr (Some t), w1) \<Rightarrow> if \<not> verifyChecksum c (Some t) then (Inl ErrTampered, w1) else (Inr t, w1))"

definition ReadByRun :: "crypto \<Rightarrow> string \<Rightarrow> world \<Rightarrow> (audit_error + trace_row list) \<times> world" where
  "ReadByRun c rid w = (case ListTraces (run_traces_filter rid) w of
     (Inl e, w1) \<Rightarrow> (Inl (AuditStore e), w1)
   | (Inr ts, w1) \<Rightarrow> if \<exists>t\<in>set ts. \<not> verifyChecksum c (Some t) then (Inl ErrTampered, w1) else (Inr ts, w1))"

definition WormCount :: "string \<Rightarrow> world \<Rightarrow> (audit_error + nat) \<times> world" where
  "WormCount rid w = (case ListTraces (run_traces_filter rid) w of
     (Inl e, w1) \<Rightarrow> (Inl (AuditStore e), w1)
   | (Inr ts, w1) \<Rightarrow> (Inr (length ts), w1))"

section \<open>Recording a trace\<close>

record trace_record =
  rec_run_id :: string
  rec_event :: string
  rec_actor :: string

definition TraceRecord ::
    "crypto \<Rightarrow> trace_record \<Rightarrow> audit_error + string \<Rightarrow> world \<Rightarrow> (audit_error + trace_row) \<times> world" where
  "TraceRecord c rc detail w =
     (if rec_run_id rc = '''' then (Inl ErrEmptyRunID, w)
      else if rec_event rc = '''' then (Inl ErrEmptyEvent, w)
      else case rand_read w of
        (None, w1) \<Rightarrow> (Inl ErrRand, w1)
      | (Some i, w1) \<Rightarrow>
         (case detail of
            Inl e \<Rightarrow> (Inl e, w1)
          | Inr d \<Rightarrow>
             (case time_now w1 of (now, w2) \<Rightarrow>
                let t = \<lparr>tr_id = i, tr_run_id = rec_run_id rc, tr_event = rec_event rc,
                     tr_actor = rec_actor rc, tr_detail = d, tr_prev_hash = '''', tr_curr_hash = '''',
                     tr_timestamp = now, tr_tenant_id = ''''\<rparr>
                in case CreateTrace t w2 of
                  (Inl e, w3) \<Rightarrow> (Inl (AuditStore e), w3)
                | (Inr _, w3) \<Rightarrow> (case SealRunTraceChain c (tr_run_id t) w3 of (_, w4) \<Rightarrow> (Inr t, w4)))))"

section \<open>A run's rows\<close>

definition run_rows :: "string \<Rightarrow> trace_row list \<Rightarrow> trace_row list" where
  "run_rows rid T = trace_order (filter (\<lambda>t. tr_run_id t = rid) T)"

definition traces_of :: "string \<Rightarrow> world \<Rightarrow> trace_row list" where
  "traces_of rid w = run_rows rid (t_traces (w_tbl w))"

text \<open>
  \<open>trace_ready rid w\<close>: a quiet store, trace ids unique (the primary key), a run id given.
\<close>

definition trace_ready :: "string \<Rightarrow> world \<Rightarrow> bool" where
  "trace_ready rid w \<longleftrightarrow> quiet w \<and> key_unique tr_id (t_traces (w_tbl w)) \<and> rid \<noteq> ''''"

lemma trace_readyD:
  assumes "trace_ready rid w"
  shows "quiet w" "key_unique tr_id (t_traces (w_tbl w))" "rid \<noteq> ''''"
  using assms by (simp_all add: trace_ready_def)

lemma trace_ready_tick [simp]: "trace_ready rid (w\<lparr>w_tick := n\<rparr>) = trace_ready rid w"
  by (simp add: trace_ready_def)

lemma traces_of_tick [simp]: "traces_of rid (w\<lparr>w_tick := n\<rparr>) = traces_of rid w"
  by (simp add: traces_of_def)

lemma list_traces_quiet:
  "trace_ready rid w \<Longrightarrow> ListTraces (run_traces_filter rid) w = (Inr (traces_of rid w), w\<lparr>w_tick := Suc (w_tick w)\<rparr>)"
  by (simp add: ListTraces_def query_quiet trace_ready_def run_traces_filter_def trace_matches_def [abs_def]
      opt_eq_def run_rows_def traces_of_def)

lemma in_run_rows: "t \<in> set (run_rows rid T) \<longleftrightarrow> t \<in> set T \<and> tr_run_id t = rid"
  by (auto simp: run_rows_def trace_order_def)

lemma key_unique_run_rows: "key_unique tr_id T \<Longrightarrow> key_unique tr_id (run_rows rid T)"
  by (simp add: key_unique_def run_rows_def trace_order_def distinct_map inj_on_def)

lemma run_rows_update:
  "run_rows rid (update_where P (trace_link p q) T) = update_where P (trace_link p q) (run_rows rid T)"
  by (simp add: run_rows_def trace_order_def trace_link_def filter_update_where sort_update_where)

lemma trace_link_id [simp]: "tr_id (trace_link p q t) = tr_id t"
  by (simp add: trace_link_def)

text \<open>The store after a run's rows became \<open>rows\<close>; everything else but the counter is as before.\<close>

definition traces_become :: "string \<Rightarrow> world \<Rightarrow> trace_row list \<Rightarrow> world \<Rightarrow> bool" where
  "traces_become rid w rows w' \<longleftrightarrow> (\<exists>A n. w' = w\<lparr>w_tbl := (w_tbl w)\<lparr>t_traces := A\<rparr>, w_tick := n\<rparr> \<and>
     key_unique tr_id A \<and> run_rows rid A = rows \<and>
     (\<forall>r. r \<noteq> rid \<longrightarrow> run_rows r A = run_rows r (t_traces (w_tbl w))))"

lemma traces_become_ready:
  assumes "traces_become rid w rows w'" and "trace_ready rid w"
  shows "trace_ready rid w'" "traces_of rid w' = rows"
  using assms by (auto simp: traces_become_def trace_ready_def traces_of_def)

lemma traces_become_refl: "trace_ready rid w \<Longrightarrow> traces_become rid w (traces_of rid w) (w\<lparr>w_tick := n\<rparr>)"
  by (auto simp: traces_become_def trace_ready_def traces_of_def intro!: exI [of _ "t_traces (w_tbl w)"])

lemma traces_become_trans:
  "traces_become rid w rows w1 \<Longrightarrow> traces_become rid w1 rows' w2 \<Longrightarrow> traces_become rid w rows' w2"
proof -
  assume "traces_become rid w rows w1" and "traces_become rid w1 rows' w2"
  then obtain A n B m where "w1 = w\<lparr>w_tbl := (w_tbl w)\<lparr>t_traces := A\<rparr>, w_tick := n\<rparr>"
    "w2 = w1\<lparr>w_tbl := (w_tbl w1)\<lparr>t_traces := B\<rparr>, w_tick := m\<rparr>" "key_unique tr_id B"
    "run_rows rid B = rows'" "\<forall>r. r \<noteq> rid \<longrightarrow> run_rows r B = run_rows r (t_traces (w_tbl w1))"
    "\<forall>r. r \<noteq> rid \<longrightarrow> run_rows r A = run_rows r (t_traces (w_tbl w))"
    unfolding traces_become_def by blast
  then show ?thesis unfolding traces_become_def by (intro exI [of _ B] exI [of _ m]) simp
qed

lemma relink_one_become:
  assumes "trace_ready rid w" and "traces_of rid w = ds @ t # rs"
  shows "traces_become rid w (ds @ trace_link p q t # rs)
    (w\<lparr>w_tbl := (w_tbl w)\<lparr>t_traces :=
        update_where (\<lambda>y. tr_id y = tr_id t) (trace_link p q) (t_traces (w_tbl w))\<rparr>, w_tick := n\<rparr>)"
proof -
  let ?T = "t_traces (w_tbl w)" and ?f = "update_where (\<lambda>y. tr_id y = tr_id t) (trace_link p q)"
  note r = trace_readyD [OF assms(1)]
  have rows: "run_rows rid ?T = ds @ t # rs" using assms(2) by (simp add: traces_of_def)
  have t: "t \<in> set ?T" "tr_run_id t = rid" using in_run_rows [of t rid ?T] rows by auto
  have "run_rows rid (?f ?T) = ds @ trace_link p q t # rs"
    unfolding run_rows_update rows
    by (rule update_where_at) (use key_unique_run_rows [OF r(2), of rid] rows in \<open>auto simp: trace_link_def\<close>)
  moreover have "run_rows r' (?f ?T) = run_rows r' ?T" if "r' \<noteq> rid" for r'
    unfolding run_rows_update
  proof (rule update_where_none)
    fix x assume "x \<in> set (run_rows r' ?T)"
    then have "x \<in> set ?T" "tr_run_id x = r'" by (simp_all add: in_run_rows)
    with t that show "tr_id x \<noteq> tr_id t" using key_unique_eq [OF r(2) _ t(1), of x] by blast
  qed
  moreover have "key_unique tr_id (?f ?T)" using r(2) by (simp add: trace_link_def)
  ultimately show ?thesis unfolding traces_become_def by blast
qed

lemma in_traces_of: "traces_of rid w = ds @ t # rs \<Longrightarrow> t \<in> set (t_traces (w_tbl w))"
  using in_run_rows [of t rid "t_traces (w_tbl w)"] unfolding traces_of_def by simp

lemma update_chain_step:
  assumes "trace_ready rid w" and "traces_of rid w = ds @ t # rs"
  obtains w' where "UpdateTraceChain (tr_id t) p q w = (Inr (), w')"
    "traces_become rid w (ds @ trace_link p q t # rs) w'"
proof -
  have "t \<in> set (t_traces (w_tbl w))"
    using assms(2) by (rule in_traces_of)
  then have "count_where (\<lambda>y. tr_id y = tr_id t) (t_traces (w_tbl w)) \<noteq> 0" by auto
  then have "UpdateTraceChain (tr_id t) p q w = (Inr (), w\<lparr>w_tbl := (w_tbl w)\<lparr>t_traces :=
      update_where (\<lambda>y. tr_id y = tr_id t) (trace_link p q) (t_traces (w_tbl w))\<rparr>, w_tick := Suc (w_tick w)\<rparr>)"
    using trace_readyD(1) [OF assms(1)]
    by (simp add: UpdateTraceChain_def stmt_quiet trace_link_def [abs_def] del: count_where_0_iff)
  with relink_one_become [OF assms] that show thesis by blast
qed

lemma update_trace_step:
  assumes "trace_ready rid w" and "traces_of rid w = ds @ t # rs"
  obtains w' where "UpdateTrace (trace_link p q t) w = (Inr (), w')"
    "traces_become rid w (ds @ trace_link p q t # rs) w'"
proof -
  let ?T = "t_traces (w_tbl w)"
  note r = trace_readyD [OF assms(1)]
  have t: "t \<in> set ?T" using assms(2) by (rule in_traces_of)
  have same: "y = t" if "y \<in> set ?T" "tr_id y = tr_id t" for y using key_unique_eq [OF r(2) that(1) t that(2)] .
  have eq: "update_where (\<lambda>y. tr_id y = tr_id t) (\<lambda>y. trace_link p q t) ?T =
      update_where (\<lambda>y. tr_id y = tr_id t) (trace_link p q) ?T"
    using same by (auto simp: update_where_def)
  have worm: "\<not> (\<exists>y\<in>set ?T. tr_id y = tr_id t \<and> \<not> same_trace_content (trace_link p q t) y)"
    using same by (auto simp: same_trace_content_def trace_link_def)
  have cnt: "count_where (\<lambda>y. tr_id y = tr_id t) ?T \<noteq> 0" using t by auto
  have "UpdateTrace (trace_link p q t) w = (Inr (), w\<lparr>w_tbl := (w_tbl w)\<lparr>t_traces :=
      update_where (\<lambda>y. tr_id y = tr_id t) (trace_link p q) ?T\<rparr>, w_tick := Suc (w_tick w)\<rparr>)"
    using r(1) worm cnt by (simp add: UpdateTrace_def stmt_quiet eq del: count_where_0_iff)
  with relink_one_become [OF assms] that show thesis by blast
qed

section \<open>The chain of a run\<close>

lemma trace_hash_chain_hash: "ComputeHash c = chain_hash (digest c) contentFields"
  by (simp add: fun_eq_iff ComputeHash_def ComputeHashV2_def chain_hash_def payload_def)

interpretation tr: hash_chain "digest c" contentFields tr_prev_hash tr_curr_hash trace_link for c
  by unfold_locales (simp_all add: contentFields_def trace_link_def)

abbreviation tr_intact :: "crypto \<Rightarrow> string \<Rightarrow> trace_row list \<Rightarrow> bool" where
  "tr_intact c \<equiv> intact (ComputeHash c) tr_prev_hash tr_curr_hash"

abbreviation tr_relink :: "crypto \<Rightarrow> string \<Rightarrow> trace_row list \<Rightarrow> trace_row list" where
  "tr_relink c \<equiv> relink (ComputeHash c) trace_link"

lemma trace_hash_ne [simp]: "ComputeHash c t p \<noteq> ''''" "'''' \<noteq> ComputeHash c t p"
  using tr.hash_ne [of c t p] by (auto simp: trace_hash_chain_hash)

lemma legacy_hash_ne [simp]: "legacyHash c t p \<noteq> ''''" "'''' \<noteq> legacyHash c t p"
  by (simp_all add: legacyHash_def) (metis digest_nonempty)

lemma trace_link_self: "tr_prev_hash t = p \<Longrightarrow> tr_curr_hash t = q \<Longrightarrow> trace_link p q t = t"
  by (auto simp: trace_link_def)

lemma trace_hash_link [simp]: "ComputeHash c (trace_link q r t) p = ComputeHash c t p"
  by (simp add: trace_hash_chain_hash tr.hash_link)

lemma tr_intact_relink: "tr_intact c p (tr_relink c p rows)"
  by (simp add: trace_hash_chain_hash tr.intact_relink)

lemma tr_relink_intact: "tr_intact c p rows \<Longrightarrow> tr_relink c p rows = rows"
  by (simp add: trace_hash_chain_hash tr.relink_intact)

lemma tr_content_relink: "map contentFields (tr_relink c p rows) = map contentFields rows"
  by (rule tr.map_content_relink)

text \<open>What a seal accepts: a row it finds sealed is exactly the row it would write.\<close>

fun sealable :: "crypto \<Rightarrow> string \<Rightarrow> trace_row list \<Rightarrow> bool" where
  "sealable c p [] = True"
| "sealable c p (t # ts) =
     ((tr_curr_hash t = '''' \<or> tr_prev_hash t = p \<and> tr_curr_hash t = ComputeHash c t p) \<and>
      sealable c (ComputeHash c t p) ts)"

definition unsealed_count :: "trace_row list \<Rightarrow> nat" where
  "unsealed_count ts = count_where (\<lambda>t. tr_curr_hash t = '''') ts"

lemma seal_loop_ok:
  assumes "trace_ready rid w" and "traces_of rid w = ds @ ts" and "sealable c p ts"
  shows "\<exists>w'. seal_loop c ts p n w = ((None, n + unsealed_count ts, tail_hash tr_curr_hash p (tr_relink c p ts)), w') \<and>
    traces_become rid w (ds @ tr_relink c p ts) w'"
  using assms
proof (induction ts arbitrary: w ds p n)
  case Nil
  then show ?case using traces_become_refl [of rid w "w_tick w"] by (simp add: unsealed_count_def count_where_def)
next
  case (Cons t ts)
  let ?h = "ComputeHash c t p"
  show ?case
  proof (cases "tr_curr_hash t = ''''")
    case False
    with Cons.prems have t: "tr_prev_hash t = p" "tr_curr_hash t = ?h" by auto
    from Cons.IH [of w "ds @ [t]" ?h n] Cons.prems t show ?thesis
      by (auto simp: Let_def trace_link_self unsealed_count_def count_where_def)
  next
    case True
    obtain w1 where w1: "UpdateTraceChain (tr_id t) p ?h w = (Inr (), w1)"
      "traces_become rid w (ds @ trace_link p ?h t # ts) w1" using update_chain_step Cons.prems by metis
    note r1 = traces_become_ready [OF w1(2) Cons.prems(1)]
    from Cons.IH [of w1 "ds @ [trace_link p ?h t]" ?h "Suc n"] r1 Cons.prems(3)
    obtain w' where "seal_loop c ts ?h (Suc n) w1 =
        ((None, Suc n + unsealed_count ts, tail_hash tr_curr_hash ?h (tr_relink c ?h ts)), w')"
      "traces_become rid w1 (ds @ trace_link p ?h t # tr_relink c ?h ts) w'" by auto
    with w1 True show ?thesis
      by (auto simp: Let_def unsealed_count_def count_where_def tr.cur_link intro: traces_become_trans)
  qed
qed

lemma seal_loop_bad:
  assumes "trace_ready rid w" and "traces_of rid w = ds @ xs @ t # ys" and "sealable c p xs"
    and "tr_curr_hash t \<noteq> ''''"
    and "\<not> (tr_prev_hash t = tail_hash tr_curr_hash p (tr_relink c p xs) \<and>
           tr_curr_hash t = ComputeHash c t (tail_hash tr_curr_hash p (tr_relink c p xs)))"
  shows "\<exists>m q w'. seal_loop c (xs @ t # ys) p n w = ((Some ErrChainBroken, m, q), w') \<and>
    traces_become rid w (ds @ tr_relink c p xs @ t # ys) w'"
  using assms
proof (induction xs arbitrary: w ds p n)
  case Nil
  then show ?case using traces_become_refl [of rid w "w_tick w"] by (auto simp: Let_def)
next
  case (Cons x xs)
  let ?h = "ComputeHash c x p"
  show ?case
  proof (cases "tr_curr_hash x = ''''")
    case False
    with Cons.prems have x: "tr_prev_hash x = p" "tr_curr_hash x = ?h" by auto
    from Cons.IH [of w "ds @ [x]" ?h n] Cons.prems x show ?thesis by (auto simp: Let_def trace_link_self)
  next
    case True
    obtain w1 where w1: "UpdateTraceChain (tr_id x) p ?h w = (Inr (), w1)"
      "traces_become rid w (ds @ trace_link p ?h x # xs @ t # ys) w1" using update_chain_step Cons.prems
      by (metis append_Cons)
    note r1 = traces_become_ready [OF w1(2) Cons.prems(1)]
    from Cons.IH [of w1 "ds @ [trace_link p ?h x]" ?h "Suc n"] r1 Cons.prems(3-5)
    obtain m q w' where "seal_loop c (xs @ t # ys) ?h (Suc n) w1 = ((Some ErrChainBroken, m, q), w')"
      "traces_become rid w1 (ds @ trace_link p ?h x # tr_relink c ?h xs @ t # ys) w'"
      by (auto simp: tr.cur_link)
    with w1 True show ?thesis by (auto simp: Let_def intro: traces_become_trans)
  qed
qed

lemma not_sealable_split:
  assumes "\<not> sealable c p rows"
  obtains xs t ys where "rows = xs @ t # ys" "sealable c p xs" "tr_curr_hash t \<noteq> ''''"
    "\<not> (tr_prev_hash t = tail_hash tr_curr_hash p (tr_relink c p xs) \<and>
        tr_curr_hash t = ComputeHash c t (tail_hash tr_curr_hash p (tr_relink c p xs)))"
  using assms
proof (induction rows arbitrary: p thesis)
  case (Cons r rows)
  show ?case
  proof (cases "tr_curr_hash r = '''' \<or> tr_prev_hash r = p \<and> tr_curr_hash r = ComputeHash c r p")
    case True
    with Cons.prems(2) have "\<not> sealable c (ComputeHash c r p) rows" by simp
    then obtain xs t ys where "rows = xs @ t # ys" "sealable c (ComputeHash c r p) xs" "tr_curr_hash t \<noteq> ''''"
      "\<not> (tr_prev_hash t = tail_hash tr_curr_hash (ComputeHash c r p) (tr_relink c (ComputeHash c r p) xs) \<and>
        tr_curr_hash t = ComputeHash c t (tail_hash tr_curr_hash (ComputeHash c r p) (tr_relink c (ComputeHash c r p) xs)))"
      using Cons.IH by blast
    with True show ?thesis by (intro Cons.prems(1) [of "r # xs" t ys]) (simp_all add: tr.cur_link)
  next
    case False
    then show ?thesis by (intro Cons.prems(1) [of "[]" r rows]) simp_all
  qed
qed simp

lemma build_loop_ok:
  assumes "trace_ready rid w" and "traces_of rid w = ds @ ts"
  shows "\<exists>w'. build_loop c ts p n w = ((n + length ts, tail_hash tr_curr_hash p (tr_relink c p ts), None), w') \<and>
    traces_become rid w (ds @ tr_relink c p ts) w'"
  using assms
proof (induction ts arbitrary: w ds p n)
  case Nil
  then show ?case using traces_become_refl [of rid w "w_tick w"] by simp
next
  case (Cons t ts)
  let ?h = "ComputeHash c t p"
  obtain w1 where w1: "UpdateTrace (trace_link p ?h t) w = (Inr (), w1)"
    "traces_become rid w (ds @ trace_link p ?h t # ts) w1" using update_trace_step Cons.prems by metis
  note r1 = traces_become_ready [OF w1(2) Cons.prems(1)]
  from Cons.IH [of w1 "ds @ [trace_link p ?h t]" ?h "Suc n"] r1
  obtain w' where "build_loop c ts ?h (Suc n) w1 =
      ((Suc n + length ts, tail_hash tr_curr_hash ?h (tr_relink c ?h ts), None), w')"
    "traces_become rid w1 (ds @ trace_link p ?h t # tr_relink c ?h ts) w'" by auto
  with w1 show ?case
    by (auto simp: Let_def tr.cur_link trace_link_def [symmetric] intro: traces_become_trans)
qed

section \<open>The verifiers\<close>

text \<open>A chain the verifiers accept: each row hashed under the current or the legacy encoding.\<close>

fun accepted :: "crypto \<Rightarrow> string \<Rightarrow> trace_row list \<Rightarrow> bool" where
  "accepted c p [] = True"
| "accepted c p (t # ts) = (tr_prev_hash t = p \<and>
     (tr_curr_hash t = ComputeHash c t p \<or> tr_curr_hash t = legacyHash c t p) \<and> accepted c (tr_curr_hash t) ts)"

fun trace_failures :: "crypto \<Rightarrow> string \<Rightarrow> nat \<Rightarrow> trace_row list \<Rightarrow> chain_failure list" where
  "trace_failures c p i [] = []"
| "trace_failures c p i (t # ts) =
     (case checkTrace c t i p of None \<Rightarrow> [] | Some f \<Rightarrow> [f]) @ trace_failures c (tr_curr_hash t) (Suc i) ts"

fun legacy_rows :: "crypto \<Rightarrow> string \<Rightarrow> trace_row list \<Rightarrow> nat" where
  "legacy_rows c p [] = 0"
| "legacy_rows c p (t # ts) = (if tr_prev_hash t = p \<and> tr_curr_hash t \<noteq> ComputeHash c t p \<and>
     tr_curr_hash t = legacyHash c t p then 1 else 0) + legacy_rows c (tr_curr_hash t) ts"

definition trace_verdict :: "crypto \<Rightarrow> string \<Rightarrow> trace_row list \<Rightarrow> verify_result" where
  "trace_verdict c rid ts = \<lparr>vr_run_id = rid, vr_valid = accepted c '''' ts, vr_count = length ts,
     vr_legacy_count = legacy_rows c '''' ts, vr_failures = trace_failures c '''' 0 ts\<rparr>"

lemma checkTrace_None:
  "checkTrace c t i p = None \<longleftrightarrow>
     tr_prev_hash t = p \<and> (tr_curr_hash t = ComputeHash c t p \<or> tr_curr_hash t = legacyHash c t p)"
  by (auto simp: checkTrace_def Let_def)

lemma trace_failures_Nil: "trace_failures c p i ts = [] \<longleftrightarrow> accepted c p ts"
proof (induction ts arbitrary: p i)
  case (Cons t ts)
  then show ?case using checkTrace_None [of c t i p] by (cases "checkTrace c t i p") auto
qed simp

lemma check_loop_eq:
  "check_loop c ts p i res = res\<lparr>vr_valid := vr_valid res \<and> accepted c p ts,
     vr_failures := vr_failures res @ trace_failures c p i ts,
     vr_legacy_count := vr_legacy_count res + legacy_rows c p ts\<rparr>"
proof (induction ts arbitrary: p i res)
  case (Cons t ts)
  show ?case
  proof (cases "checkTrace c t i p")
    case None
    with checkTrace_None [of c t i p] show ?thesis by (auto simp: Cons.IH)
  next
    case (Some f)
    with checkTrace_None [of c t i p]
    have "\<not> (tr_prev_hash t = p \<and> (tr_curr_hash t = ComputeHash c t p \<or> tr_curr_hash t = legacyHash c t p))" by simp
    with Some show ?thesis by (auto simp: Cons.IH)
  qed
qed simp

lemma intact_accepted: "tr_intact c p ts \<longleftrightarrow> accepted c p ts \<and> legacy_rows c p ts = 0"
proof (induction ts arbitrary: p)
  case (Cons t ts)
  then show ?case by (cases "tr_curr_hash t = ComputeHash c t p") simp_all
qed simp

lemma ChainVerify_quiet:
  assumes "trace_ready rid w" and "traces_of rid w \<noteq> []"
  shows "ChainVerify c rid w = (Inr (trace_verdict c rid (traces_of rid w)), w\<lparr>w_tick := Suc (w_tick w)\<rparr>)"
  using assms trace_readyD(3) [OF assms(1)]
  by (simp add: ChainVerify_def list_traces_quiet check_loop_eq trace_verdict_def)

lemma verify_loop_eq:
  "verify_loop c ts p i = (case trace_failures c p i ts of
     [] \<Rightarrow> (i + length ts, None) | f # fs \<Rightarrow> (cf_index f, Some ErrHashMismatch))"
proof (induction ts arbitrary: p i)
  case (Cons t ts)
  show ?case
  proof (cases "checkTrace c t i p")
    case None
    with checkTrace_None [of c t i p] show ?thesis by (auto simp: Cons.IH split: list.splits)
  next
    case (Some f)
    moreover from Some have "cf_index f = i" by (auto simp: checkTrace_def Let_def split: if_splits)
    moreover from Some checkTrace_None [of c t i p]
    have "\<not> (tr_prev_hash t = p \<and> (tr_curr_hash t = ComputeHash c t p \<or> tr_curr_hash t = legacyHash c t p))" by simp
    ultimately show ?thesis by auto
  qed
qed simp

section \<open>Batches\<close>

lemma build_loop_append:
  "build_loop c (xs @ ys) p i w = (case build_loop c xs p i w of
     ((n, q, None), w1) \<Rightarrow> build_loop c ys q n w1 | ((n, q, Some e), w1) \<Rightarrow> ((n, q, Some e), w1))"
  by (induction xs arbitrary: p i w) (auto simp: Let_def split: prod.splits sum.splits)

lemma build_loop_offset:
  "build_loop c ts p (i + k) w = (case build_loop c ts p i w of ((n, q, e), w1) \<Rightarrow> ((n + k, q, e), w1))"
proof (induction ts arbitrary: p i w)
  case (Cons t ts)
  show ?case using Cons.IH [of _ "Suc i"] by (auto simp: Let_def split: prod.splits sum.splits)
qed simp

lemma build_loop_error_tail: "build_loop c ts p i w = ((k, q, Some e), w1) \<Longrightarrow> q = ''''"
  by (induction ts arbitrary: p i w) (auto simp: Let_def split: prod.splits sum.splits)

lemma batch_loop_build_loop:
  assumes "0 < n"
  shows "(\<exists>k m q e w1. build_loop c ts p tot w = ((k, q, Some e), w1) \<and> batch_loop c n ts p tot w = ((m, q, Some e), w1)) \<or>
    (\<exists>k q w1. build_loop c ts p tot w = ((k, q, None), w1) \<and> batch_loop c n ts p tot w = ((k, q, None), w1))"
proof (induction ts arbitrary: p tot w rule: length_induct)
  case (1 ts)
  show ?case
  proof (cases "ts = []")
    case True
    then show ?thesis by (simp add: batch_loop.simps)
  next
    case False
    with assms have shorter: "length (drop n ts) < length ts" by simp
    obtain k q e w1 where b: "build_loop c (take n ts) p 0 w = ((k, q, e), w1)"
      by (metis prod.exhaust)
    have whole: "build_loop c ts p tot w = (case e of
        None \<Rightarrow> build_loop c (drop n ts) q (k + tot) w1 | Some x \<Rightarrow> ((k + tot, q, Some x), w1))"
      using build_loop_append [of c "take n ts" "drop n ts" p tot w] build_loop_offset [of c "take n ts" p 0 tot w] b
      by (auto split: option.splits)
    have batch: "batch_loop c n ts p tot w = (case e of
        None \<Rightarrow> batch_loop c n (drop n ts) q (tot + k) w1 | Some x \<Rightarrow> ((tot, '''', Some x), w1))"
      using assms by (subst batch_loop.simps) (auto simp: False buildChainWithPrev_def b split: option.splits)
    have "q = ''''" if "e = Some x" for x
      using b that build_loop_error_tail by blast
    with 1 [rule_format, OF shorter, of q "k + tot" w1] whole batch show ?thesis
      by (cases e) (simp_all add: add.commute)
  qed
qed

section \<open>The two encodings never meet\<close>

text \<open>
  Behind a predecessor hash (or none) the bytes hashed under the legacy encoding are never the
  bytes hashed under the current one, whatever the contents are.
\<close>

lemma hex_char_not_colon: "n < 16 \<Longrightarrow> hex_char n \<noteq> CHR '':''"
  using of_char_hex_char [of n] by (auto split: if_splits)

lemma digest_shape: "\<exists>w. digest c x = hex_encode w"
  by (auto simp: digest_def split: option.splits)

lemma encodings_apart:
  assumes "p = '''' \<or> (\<exists>x. p = digest c x)" and "fs \<noteq> []"
  shows "canonicalV1 (p # fs) \<noteq> canonicalV2 (p # gs)"
  using assms(1)
proof
  assume "p = ''''"
  moreover have "itoa 0 = [CHR ''0'']" by code_simp
  ultimately show ?thesis using assms(2) by (cases fs) (auto simp: canonicalV1_def canonicalV2_Cons)
next
  assume "\<exists>x. p = digest c x"
  then obtain w where p: "p = hex_encode w" using digest_shape by metis
  have "canonicalV1 (p # fs) ! 2 = p ! 2"
    using assms(2) by (cases fs) (simp_all add: canonicalV1_def p nth_append)
  moreover have "p ! 2 \<noteq> CHR '':''"
    unfolding p hex_encode_def by (simp add: hex_char_not_colon)
  moreover have "canonicalV2 (p # gs) ! 2 = CHR '':''"
  proof -
    have "itoa 64 = [CHR ''6'', CHR ''4'']" by code_simp
    then show ?thesis by (simp add: canonicalV2_Cons p)
  qed
  ultimately show ?thesis by metis
qed

lemma encodings_meet_not: "fs \<noteq> [] \<Longrightarrow> canonicalV1 ('''' # fs) \<noteq> canonicalV2 gs"
proof (cases fs)
  case (Cons f fs')
  then have v1: "\<exists>s. canonicalV1 ('''' # fs) = CHR ''|'' # s" by (simp add: canonicalV1_def)
  show ?thesis
  proof (cases gs)
    case (Cons g gs')
    have "CHR ''|'' \<notin> set (itoa (length g))"
      using itoa_digits [of "CHR ''|''" "length g"] by (auto simp: is_digit_def)
    then show ?thesis using v1 Cons itoa_nonempty [of "length g"]
      by (cases "itoa (length g)") (auto simp: canonicalV2_Cons)
  qed (use v1 in auto)
qed simp

section \<open>Properties\<close>

definition trace_payload :: "trace_row \<Rightarrow> string" where
  "trace_payload t = canonicalV2 (tr_prev_hash t # contentFields t)"

definition legacy_payload :: "trace_row \<Rightarrow> string" where
  "legacy_payload t = canonicalV1 (tr_prev_hash t # contentFields t)"


text \<open>
  C35. The two verifiers agree in every world, also when the driver fails or others write: one
  accepts exactly when the other does, and where they reject, the builder's verifier stops at
  the index of the first failure the other lists.
\<close>

theorem verifiers_agree:
  "(snd (fst (BuilderVerify c rid w)) = None \<longleftrightarrow> (\<exists>res. fst (ChainVerify c rid w) = Inr res \<and> vr_valid res)) \<and>
   (fst (VerifyStrict c rid w) = None \<longleftrightarrow> snd (fst (BuilderVerify c rid w)) = None) \<and>
   (\<forall>res f fs. fst (ChainVerify c rid w) = Inr res \<longrightarrow> vr_failures res = f # fs \<longrightarrow>
      fst (BuilderVerify c rid w) = (cf_index f, Some ErrHashMismatch))"
proof (cases "ListTraces (run_traces_filter rid) w")
  case (Pair r w1)
  show ?thesis
  proof (cases r)
    case (Inl e)
    with Pair show ?thesis by (auto simp: BuilderVerify_def ChainVerify_def VerifyStrict_def)
  next
    case (Inr ts)
    have "trace_failures c '''' 0 ts = [] \<longleftrightarrow> accepted c '''' ts" by (rule trace_failures_Nil)
    with Pair Inr show ?thesis
      by (auto simp: BuilderVerify_def ChainVerify_def VerifyStrict_def verify_loop_eq check_loop_eq
          split: list.splits)
  qed
qed

text \<open>
  Building in batches is building: for every positive batch size, in every world, both make
  the same writes and end with the same error; without an error, with the same count and tail.
\<close>

theorem BuildBatch_is_Build:
  assumes "0 < bsize"
  shows "snd (BuildBatch c rid bsize w) = snd (Build c rid w) \<and>
    snd (fst (BuildBatch c rid bsize w)) = snd (fst (Build c rid w)) \<and>
    (snd (snd (fst (Build c rid w))) = None \<longrightarrow> BuildBatch c rid bsize w = Build c rid w)"
proof -
  have pos: "0 < nat bsize" using assms by simp
  let ?same = "\<lambda>x y. snd x = snd y \<and> snd (fst x) = snd (fst y) \<and> (snd (snd (fst y)) = None \<longrightarrow> x = y)"
  have loop: "?same (batch_loop c (nat bsize) ts '''' 0 v) (build_loop c ts '''' 0 v)" for ts v
    using batch_loop_build_loop [OF pos, of c ts "''''" 0 v] by auto
  obtain r w1 where ex: "chainExists rid w = (r, w1)" by (cases "chainExists rid w")
  show ?thesis
  proof (cases "\<exists>e. r = Inl e")
    case False
    then obtain a b where r: "r = Inr (a, b)" by (cases r) auto
    obtain r2 w2 where ls: "ListTraces (run_traces_filter rid) w1 = (r2, w2)"
      by (cases "ListTraces (run_traces_filter rid) w1")
    show ?thesis using assms loop [of "projr r2" w2]
      by (cases r2) (auto simp: BuildBatch_def Build_def buildChain_def buildChainWithPrev_def ex r ls
          split: prod.splits)
  qed (use assms ex in \<open>auto simp: BuildBatch_def Build_def\<close>)
qed

text \<open>
  Building over a run whose traces carry no hash: it succeeds with the run's count and tail,
  the chain then verifies with no legacy row, and building again is refused as already built,
  by both builders, with the traces left alone.
\<close>

theorem Build_then_refuse:
  assumes "trace_ready rid w" and "traces_of rid w \<noteq> []"
    and "\<forall>t\<in>set (traces_of rid w). tr_curr_hash t = ''''"
  shows "\<exists>tail w' res. Build c rid w = ((length (traces_of rid w), tail, None), w') \<and>
    map contentFields (traces_of rid w') = map contentFields (traces_of rid w) \<and>
    fst (ChainVerify c rid w') = Inr res \<and> vr_valid res \<and> vr_legacy_count res = 0 \<and>
    fst (Build c rid w') = (0, '''', Some ErrChainAlreadyBuilt) \<and>
    traces_of rid (snd (Build c rid w')) = traces_of rid w'"
proof -
  let ?rows = "traces_of rid w" and ?w2 = "w\<lparr>w_tick := Suc (Suc (w_tick w))\<rparr>"
  let ?rows' = "tr_relink c '''' ?rows"
  have ready: "trace_ready rid ?w2" "traces_of rid ?w2 = [] @ ?rows" using assms(1) by simp_all
  obtain w' where bl: "build_loop c ?rows '''' 0 ?w2 = ((length ?rows, tail_hash tr_curr_hash '''' ?rows', None), w')"
    and bec: "traces_become rid ?w2 ?rows' w'"
    using build_loop_ok [OF ready, of c "''''" 0] by auto
  have build: "Build c rid w = ((length ?rows, tail_hash tr_curr_hash '''' ?rows', None), w')"
    using assms bl trace_readyD(3) [OF assms(1)]
    by (simp add: Build_def chainExists_def list_traces_quiet buildChain_def buildChainWithPrev_def)
  note r' = traces_become_ready [OF bec ready(1)]
  have ne: "?rows' \<noteq> []" using assms(2) by (cases ?rows) simp_all
  have acc: "accepted c '''' ?rows'" "legacy_rows c '''' ?rows' = 0"
    using tr_intact_relink [of c "''''" ?rows] by (simp_all add: intact_accepted)
  have sealed: "\<exists>t\<in>set ?rows'. tr_curr_hash t \<noteq> ''''" using assms(2)
    by (cases ?rows) (simp_all add: tr.cur_link)
  have verify: "fst (ChainVerify c rid w') = Inr (trace_verdict c rid ?rows')"
    using ChainVerify_quiet [OF r'(1), of c] ne by (simp add: r'(2))
  have again: "Build c rid w' = ((0, '''', Some ErrChainAlreadyBuilt), w'\<lparr>w_tick := Suc (Suc (w_tick w'))\<rparr>)"
    using r' ne sealed acc(1) trace_failures_Nil [of c "''''" 0 ?rows'] trace_readyD(3) [OF assms(1)]
    by (simp add: Build_def chainExists_def list_traces_quiet BuilderVerify_def verify_loop_eq)
  show ?thesis
    using build verify again acc by (simp add: r'(2) tr_content_relink trace_verdict_def)
qed

text \<open>
  An altered trace of a sealed chain, its hash columns left as they were: verification
  reports exactly that row as a hash mismatch and sealing refuses and changes nothing, unless
  the old row's payload collides with the new row's under the current encoding or under the
  legacy one (which are different strings: the encodings never meet behind a chain's hash).
\<close>

theorem altered_trace_detected:
  assumes "trace_ready rid w" and "traces_of rid w = xs @ t' # ys" and "tr_intact c '''' (xs @ t # ys)"
    and "contentFields t' \<noteq> contentFields t"
    and "tr_prev_hash t' = tr_prev_hash t" and "tr_curr_hash t' = tr_curr_hash t"
  shows "collision (digest c) (trace_payload t) (trace_payload t') \<or>
    collision (digest c) (trace_payload t) (legacy_payload t') \<or>
    (\<exists>res f r w'. fst (ChainVerify c rid w) = Inr res \<and> \<not> vr_valid res \<and> vr_failures res = [f] \<and>
       cf_row_id f = tr_id t' \<and> cf_index f = length xs \<and> cf_type f = FailureHashMismatch \<and>
       TraceSeal c rid w = ((r, Some ErrChainBroken), w') \<and> traces_of rid w' = traces_of rid w)"
proof (cases "collision (digest c) (trace_payload t) (trace_payload t') \<or>
    collision (digest c) (trace_payload t) (legacy_payload t')")
  case False
  let ?p = "tail_hash tr_curr_hash '''' xs" and ?rows = "xs @ t' # ys"
  from assms(3) have xs: "tr_intact c '''' xs" and t: "tr_prev_hash t = ?p" "tr_curr_hash t = ComputeHash c t ?p"
    and ys: "tr_intact c (tr_curr_hash t) ys" by (simp_all add: intact_append)
  have shape: "?p = '''' \<or> (\<exists>x. ?p = digest c x)"
    using xs by (cases xs rule: rev_cases) (auto simp: intact_append tail_hash_append ComputeHash_def ComputeHashV2_def)
  have bad: "tr_curr_hash t' \<noteq> ComputeHash c t' ?p"
    using tr.altered_row_hash [OF assms(3) [unfolded trace_hash_chain_hash] assms(6,5,4)] False t(1) assms(5)
    by (auto simp: trace_payload_def payload_def trace_hash_chain_hash)
  have "digest c (trace_payload t) \<noteq> digest c (legacy_payload t')"
    using False encodings_apart [OF shape, of "contentFields t'" "contentFields t"] t(1) assms(5)
    by (auto simp: collision_def trace_payload_def legacy_payload_def contentFields_def)
  then have bad1: "tr_curr_hash t' \<noteq> legacyHash c t' ?p"
    using t assms(5,6) by (simp add: trace_payload_def legacy_payload_def legacyHash_def ComputeHash_def ComputeHashV2_def)
  have fail: "checkTrace c t' (length xs) ?p = Some
      \<lparr>cf_row_id = tr_id t', cf_index = length xs, cf_type = FailureHashMismatch,
       cf_expected = ComputeHash c t' ?p, cf_actual = tr_curr_hash t', cf_prev_expected = ?p,
       cf_prev_actual = ?p\<rparr>" (is "_ = Some ?f")
    using t bad bad1 assms(5,6) by (auto simp: checkTrace_def Let_def)
  have append: "trace_failures c p i (as @ bs) =
      trace_failures c p i as @ trace_failures c (tail_hash tr_curr_hash p as) (i + length as) bs" for p i as bs
    by (induction as arbitrary: p i) simp_all
  have none: "trace_failures c p i as = []" if "tr_intact c p as" for p i as
    using that by (simp add: trace_failures_Nil intact_accepted)
  have fails: "trace_failures c '''' 0 ?rows = [?f]" using xs ys fail assms(6) by (simp add: append none)
  then have nacc: "\<not> accepted c '''' ?rows" using trace_failures_Nil [of c "''''" 0 ?rows] by simp
  have sx: "sealable c p as" if "tr_intact c p as" for p as using that by (induction as arbitrary: p) simp_all
  let ?w1 = "w\<lparr>w_tick := Suc (w_tick w)\<rparr>"
  obtain m q w' where sl: "seal_loop c ?rows '''' 0 ?w1 = ((Some ErrChainBroken, m, q), w')"
    and bec: "traces_become rid ?w1 ?rows w'"
    using seal_loop_bad [of rid ?w1 "[]" xs t' ys c "''''" 0] assms(1,2) sx [OF xs] bad t assms(6)
    by (auto simp: tr_relink_intact [OF xs])
  have "TraceSeal c rid w = ((Some \<lparr>sr_count = length ?rows, sr_sealed = m, sr_tail_hash = ''''\<rparr>, Some ErrChainBroken), w')"
    using sl trace_readyD(3) [OF assms(1)] by (simp add: TraceSeal_def list_traces_quiet [OF assms(1)] assms(2))
  moreover have "traces_of rid w' = ?rows" using traces_become_ready(2) [OF bec] assms(1) by simp
  ultimately show ?thesis
    using ChainVerify_quiet [OF assms(1), of c] fails nacc by (simp add: assms(2) trace_verdict_def)
qed blast

text \<open>
  A trace that becomes visible late, with a timestamp before one already sealed (two
  recorders of one run whose inserts are ordered against their clocks): the seal that follows
  reports \<open>ErrChainBroken\<close> and so does the next one, although no row was altered, unless the
  late row's hash happens to be its predecessor's.
\<close>

theorem late_trace_breaks_chain:
  assumes "trace_ready rid w" and "traces_of rid w = xs @ new # t # ys" and "tr_intact c '''' (xs @ t # ys)"
    and "tr_curr_hash new = ''''"
  shows "tr_prev_hash t = ComputeHash c new (tr_prev_hash t) \<or>
    (\<exists>r w'. TraceSeal c rid w = ((r, Some ErrChainBroken), w') \<and>
      (\<exists>r' w''. TraceSeal c rid w' = ((r', Some ErrChainBroken), w'')))"
proof (cases "tr_prev_hash t = ComputeHash c new (tr_prev_hash t)")
  case False
  let ?p = "tail_hash tr_curr_hash '''' xs"
  let ?n = "trace_link ?p (ComputeHash c new ?p) new"
  from assms(3) have xs: "tr_intact c '''' xs" and t: "tr_prev_hash t = ?p" "tr_curr_hash t = ComputeHash c t ?p"
    by (simp_all add: intact_append)
  have sx: "sealable c p as" if "tr_intact c p as" for p as using that by (induction as arbitrary: p) simp_all
  have app: "sealable c p (as @ [b]) \<longleftrightarrow> sealable c p as \<and> (tr_curr_hash b = '''' \<or>
      tr_prev_hash b = tail_hash tr_curr_hash p (tr_relink c p as) \<and>
      tr_curr_hash b = ComputeHash c b (tail_hash tr_curr_hash p (tr_relink c p as)))" for p as b
    by (induction as arbitrary: p) (auto simp: tr.cur_link)
  have rl: "tr_relink c p (as @ bs) = tr_relink c p as @ tr_relink c (tail_hash tr_curr_hash p (tr_relink c p as)) bs" for p as bs
    by (induction as arbitrary: p) (simp_all add: tr.cur_link)
  have step: "\<exists>r v'. TraceSeal c rid v = ((r, Some ErrChainBroken), v') \<and> trace_ready rid v' \<and>
      traces_of rid v' = xs @ ?n # t # ys"
    if v: "trace_ready rid v" "traces_of rid v = xs @ m # t # ys" and m: "m = new \<or> m = ?n" for v m
  proof -
    let ?v1 = "v\<lparr>w_tick := Suc (w_tick v)\<rparr>"
    have hash: "ComputeHash c m ?p = ComputeHash c new ?p" using m by auto
    have seal: "sealable c '''' (xs @ [m])" using m sx [OF xs] assms(4)
      by (auto simp: app tr_relink_intact [OF xs] tr.prv_link tr.cur_link)
    have link: "trace_link ?p (ComputeHash c m ?p) m = ?n" unfolding hash
      using m by (elim disjE) (simp_all add: trace_link_def)
    have tl: "tail_hash tr_curr_hash '''' (tr_relink c '''' (xs @ [m])) = ComputeHash c new ?p"
      "tr_relink c '''' (xs @ [m]) = xs @ [?n]"
      by (simp_all add: rl tr_relink_intact [OF xs] tail_hash_append tr.cur_link
          link [unfolded hash] hash)
    obtain k q v' where "seal_loop c (xs @ m # t # ys) '''' 0 ?v1 = ((Some ErrChainBroken, k, q), v')"
      "traces_become rid ?v1 (xs @ ?n # t # ys) v'"
      using seal_loop_bad [of rid ?v1 "[]" "xs @ [m]" t ys c "''''" 0] v seal False t tl by auto
    then show ?thesis using traces_become_ready [of rid ?v1 _ v'] v trace_readyD(3) [OF v(1)]
      by (auto simp: TraceSeal_def list_traces_quiet [OF v(1)])
  qed
  from step [OF assms(1,2)] obtain r w' where "TraceSeal c rid w = ((r, Some ErrChainBroken), w')"
    "trace_ready rid w'" "traces_of rid w' = xs @ ?n # t # ys" by blast
  with step [of w' ?n] show ?thesis by blast
qed simp

text \<open>
  The write-once store: a first append of a well-formed trace of an existing run succeeds
  and reading it back returns that trace with its checksum; a second append under the same id
  is refused as \<open>ErrAlreadyExists\<close>, whatever it holds, and leaves the trace table exactly as
  it is.
\<close>

theorem worm_write_once:
  assumes "trace_ready rid w" and "tr_run_id t = rid" and "rid \<in> run_id ` set (t_runs (w_tbl w))"
    and "tr_id t \<noteq> ''''" and "tr_id t \<notin> tr_id ` set (t_traces (w_tbl w))" and "tr_id u = tr_id t"
  shows "\<exists>w'. Append c (Some t) w = (None, w') \<and>
    fst (WormRead c (tr_id t) w') = Inr (t\<lparr>tr_curr_hash := ComputeChecksum c t\<rparr>) \<and>
    fst (Append c (Some u) w') = Some ErrAlreadyExists \<and>
    t_traces (w_tbl (snd (Append c (Some u) w'))) = t_traces (w_tbl w')"
proof -
  let ?t = "t\<lparr>tr_curr_hash := ComputeChecksum c t\<rparr>"
  let ?w' = "w\<lparr>w_tbl := (w_tbl w)\<lparr>t_traces := t_traces (w_tbl w) @ [?t]\<rparr>, w_tick := Suc (Suc (w_tick w))\<rparr>"
  note r = trace_readyD [OF assms(1)]
  have none: "find (\<lambda>x. tr_id x = tr_id t) (t_traces (w_tbl w)) = None"
    using assms(5) by (simp add: find_key_None)
  have app: "Append c (Some t) w = (None, ?w')"
    using assms r(1) none by (simp add: Append_def GetTrace_def query_quiet CreateTrace_def stmt_quiet)
  have found: "find (\<lambda>x. tr_id x = tr_id t) (t_traces (w_tbl w) @ [?t]) = Some ?t"
    using find_key_unique [of tr_id "t_traces (w_tbl w) @ [?t]" ?t] r(2) assms(5)
    by (auto simp: key_unique_def)
  have chk: "verifyChecksum c (Some ?t)"
    by (simp add: verifyChecksum_def ComputeChecksum_def contentFields_def)
  have read: "fst (WormRead c (tr_id t) ?w') = Inr ?t"
    using r(1) found chk by (simp add: WormRead_def GetTrace_def query_quiet)
  have "Append c (Some u) ?w' = (Some ErrAlreadyExists, ?w'\<lparr>w_tick := Suc (w_tick ?w')\<rparr>)"
    using r(1) found assms(4,6) by (simp add: Append_def GetTrace_def query_quiet)
  with app read show ?thesis by simp
qed

text \<open>
  A trace the write-once store appended is not a link of a chain: sealing its run reports
  \<open>ErrChainBroken\<close> and building refuses likewise, unless the checksum payload collides with
  the chain payload or with the legacy one.
\<close>

theorem worm_append_blocks_chain:
  assumes "trace_ready rid w" and "traces_of rid w = t # ts" and "tr_curr_hash t = ComputeChecksum c t"
    and "tr_prev_hash t = ''''"
  shows "collision (digest c) (canonicalV2 (contentFields t)) (trace_payload t) \<or>
    collision (digest c) (canonicalV2 (contentFields t)) (legacy_payload t) \<or>
    (\<exists>r w1 w2. TraceSeal c rid w = ((r, Some ErrChainBroken), w1) \<and>
       Build c rid w = ((0, '''', Some ErrChainBroken), w2))"
proof (cases "collision (digest c) (canonicalV2 (contentFields t)) (trace_payload t) \<or>
    collision (digest c) (canonicalV2 (contentFields t)) (legacy_payload t)")
  case False
  then have bad: "tr_curr_hash t \<noteq> ComputeHash c t ''''"
    using assms(3,4) by (auto simp: collision_def trace_payload_def ComputeChecksum_def ComputeHash_def ComputeHashV2_def)
  have "legacy_payload t \<noteq> canonicalV2 (contentFields t)"
    using encodings_meet_not [of "contentFields t" "contentFields t"] assms(4)
    by (simp add: legacy_payload_def contentFields_def)
  then have bad1: "tr_curr_hash t \<noteq> legacyHash c t ''''"
    using False assms(3,4) by (auto simp: collision_def legacy_payload_def ComputeChecksum_def legacyHash_def)
  have ne: "tr_curr_hash t \<noteq> ''''" using assms(3) by (simp add: ComputeChecksum_def)
  show ?thesis
    using bad bad1 ne assms(2,4) trace_readyD(3) [OF assms(1)] list_traces_quiet [OF assms(1)]
      list_traces_quiet [of rid "w\<lparr>w_tick := Suc (w_tick w)\<rparr>"] assms(1)
    by (simp add: TraceSeal_def Build_def chainExists_def BuilderVerify_def Let_def)
qed blast

lemma run_rows_snoc:
  assumes "tr_id t \<notin> tr_id ` set T" and "tr_run_id t = rid"
    and "\<forall>x\<in>set (run_rows rid T). tr_timestamp x < tr_timestamp t \<or> tr_timestamp x = tr_timestamp t \<and> tr_id x < tr_id t"
  shows "run_rows rid (T @ [t]) = run_rows rid T @ [t]"
  using sort_two_keys_last [of tr_id t "filter (\<lambda>x. tr_run_id x = rid) T" tr_timestamp] assms
  by (auto simp: run_rows_def trace_order_def in_run_rows)

text \<open>Sealing an intact chain with one new row at its end.\<close>

lemma SealRunTraceChain_snoc:
  assumes "trace_ready rid w" and "traces_of rid w = rows @ [t]" and "tr_intact c '''' rows" and "tr_curr_hash t = ''''"
  shows "\<exists>t' w'. SealRunTraceChain c rid w = (None, w') \<and> traces_become rid w (rows @ [t']) w' \<and>
    contentFields t' = contentFields t \<and> tr_id t' = tr_id t \<and> tr_intact c '''' (rows @ [t'])"
proof -
  let ?p = "tail_hash tr_curr_hash '''' rows" and ?w1 = "w\<lparr>w_tick := Suc (w_tick w)\<rparr>"
  let ?t' = "trace_link ?p (ComputeHash c t ?p) t"
  have sx: "sealable c p (as @ [t])" if "tr_intact c p as" for p as
    using that assms(4) by (induction as arbitrary: p) simp_all
  have rl: "tr_relink c p (as @ [t]) = as @ [trace_link (tail_hash tr_curr_hash p as) (ComputeHash c t (tail_hash tr_curr_hash p as)) t]"
    if "tr_intact c p as" for p as
    using that by (induction as arbitrary: p) (simp_all add: trace_link_self)
  obtain k q w' where sl: "seal_loop c (rows @ [t]) '''' 0 ?w1 = ((None, k, q), w')"
    and bec: "traces_become rid ?w1 (rows @ [?t']) w'"
    using seal_loop_ok [of rid ?w1 "[]" "rows @ [t]" c "''''" 0] assms sx [OF assms(3)] by (auto simp: rl [OF assms(3)])
  have "SealRunTraceChain c rid w = (None, w')"
    using sl trace_readyD(3) [OF assms(1)] list_traces_quiet [OF assms(1)] assms(2) by (simp add: SealRunTraceChain_def TraceSeal_def)
  moreover have "traces_become rid w (rows @ [?t']) w'"
    using traces_become_trans [OF traces_become_refl [OF assms(1)] bec] .
  moreover have "contentFields ?t' = contentFields t" by (rule tr.content_link)
  moreover have "tr_intact c '''' (rows @ [?t'])" using assms(3) by (simp add: intact_append tr.prv_link tr.cur_link)
  ultimately show ?thesis by (intro exI [of _ ?t'] exI [of _ w']) simp
qed

text \<open>Sealing writes to the traces only, whatever fails.\<close>

definition traces_only :: "tables \<Rightarrow> tables \<Rightarrow> bool" where
  "traces_only t t' \<longleftrightarrow> (\<exists>A. t' = t\<lparr>t_traces := A\<rparr>)"

lemma traces_only_refl: "reflp traces_only"
proof (rule reflpI)
  show "traces_only t t" for t unfolding traces_only_def by (rule exI [of _ "t_traces t"]) simp
qed

lemma traces_only_trans: "transp traces_only"
proof (rule transpI)
  fix a b c assume "traces_only a b" and "traces_only b c"
  then obtain A B where "c = a\<lparr>t_traces := A\<rparr>\<lparr>t_traces := B\<rparr>" unfolding traces_only_def by blast
  then show "traces_only a c" unfolding traces_only_def by (intro exI [of _ B]) simp
qed

lemmas traces_frame_trans = framed_trans [OF traces_only_trans]

lemmas traces_frame_refl = framed_refl [OF traces_only_refl]

lemma seal_loop_frame:
  assumes "undisturbed w" and "seal_loop c ts prev n w = (r, w')"
  shows "framed traces_only w w'"
  using assms
proof (induction ts arbitrary: prev n w)
  case Nil
  then show ?case using traces_frame_refl by simp
next
  case (Cons t ts)
  let ?want = "ComputeHash c t prev"
  consider (same) "tr_prev_hash t = prev \<and> tr_curr_hash t = ?want"
    | (fresh) "\<not> (tr_prev_hash t = prev \<and> tr_curr_hash t = ?want)" "tr_curr_hash t = ''''"
    | (broken) "\<not> (tr_prev_hash t = prev \<and> tr_curr_hash t = ?want)" "tr_curr_hash t \<noteq> ''''" by blast
  then show ?case
  proof cases
    case same
    then show ?thesis using Cons.IH [OF Cons.prems(1)] Cons.prems(2) by simp
  next
    case fresh
    obtain x w1 where u: "UpdateTraceChain (tr_id t) prev ?want w = (x, w1)" by fastforce
    have f: "framed traces_only w w1"
      by (rule framed_stmt [OF Cons.prems(1) u [unfolded UpdateTraceChain_def]])
        (auto simp: traces_only_refl reflpD [OF traces_only_refl], auto simp: traces_only_def)
    show ?thesis
    proof (cases x)
      case (Inl e)
      then have "w' = w1" using Cons.prems(2) fresh u by (auto simp: Let_def)
      with f show ?thesis by simp
    next
      case (Inr y)
      then have "seal_loop c ts ?want (Suc n) w1 = (r, w')" using Cons.prems(2) fresh u by (auto simp: Let_def)
      then have "framed traces_only w1 w'" using Cons.IH framed_env(1) [OF f] Cons.prems(1) by blast
      then show ?thesis using traces_frame_trans [OF f] by blast
    qed
  next
    case broken
    then have "w' = w" using Cons.prems(2) by (auto simp: Let_def)
    then show ?thesis using traces_frame_refl by simp
  qed
qed

lemma SealRunTraceChain_frame:
  assumes "undisturbed w" and "SealRunTraceChain c rid w = (r, w')"
  shows "framed traces_only w w'"
proof (cases "rid = ''''")
  case True
  then have "w' = w" using assms(2) by (auto simp: SealRunTraceChain_def TraceSeal_def)
  then show ?thesis using traces_frame_refl by simp
next
  case False
  obtain x w1 where l: "ListTraces (run_traces_filter rid) w = (x, w1)" by fastforce
  have "framed (=) w w1" using framed_query [OF assms(1) l [unfolded ListTraces_def]] .
  then have f: "framed traces_only w w1" by (rule framed_mono [rotated]) (use reflpD [OF traces_only_refl] in simp)
  show ?thesis
  proof (cases "\<exists>ts. x = Inr ts \<and> ts \<noteq> []")
    case True
    then obtain ts where ts: "x = Inr ts" "ts \<noteq> []" by blast
    obtain y w2 where s: "seal_loop c ts '''' 0 w1 = (y, w2)" by fastforce
    have "w' = w2" using assms(2) l False ts s
      by (auto simp: SealRunTraceChain_def TraceSeal_def split: prod.splits option.splits)
    moreover have "framed traces_only w1 w2" using seal_loop_frame [OF _ s] framed_env(1) [OF f] assms(1) by blast
    ultimately show ?thesis using traces_frame_trans [OF f] by blast
  next
    case n: False
    then have "w' = w1" using assms(2) l False by (cases x) (auto simp: SealRunTraceChain_def TraceSeal_def split: if_splits)
    with f show ?thesis by simp
  qed
qed

text \<open>
  Recording a trace of a run whose chain is intact, when the new trace sorts behind the
  run's earlier ones: the row returned is stored at the end of the chain, the chain stays
  intact and the earlier rows keep their hashes.
\<close>

theorem TraceRecord_extends_chain:
  assumes "trace_ready rid w" and "tr_intact c '''' (traces_of rid w)"
    and "rec_run_id rc = rid" and "rec_event rc \<noteq> ''''" and "rid \<in> run_id ` set (t_runs (w_tbl w))"
    and "w_rand w (w_tick w) = Some i" and "i \<notin> tr_id ` set (t_traces (w_tbl w))"
    and "w_clock w (Suc (w_tick w)) = now"
    and "\<forall>x\<in>set (traces_of rid w). tr_timestamp x < now \<or> tr_timestamp x = now \<and> tr_id x < i"
  shows "\<exists>t t' w'. TraceRecord c rc (Inr d) w = (Inr t, w') \<and> tr_id t = i \<and> tr_detail t = d \<and>
    tr_timestamp t = now \<and> contentFields t' = contentFields t \<and>
    traces_of rid w' = traces_of rid w @ [t'] \<and> tr_intact c '''' (traces_of rid w')"
proof -
  let ?t = "\<lparr>tr_id = i, tr_run_id = rid, tr_event = rec_event rc, tr_actor = rec_actor rc, tr_detail = d,
    tr_prev_hash = '''', tr_curr_hash = '''', tr_timestamp = now, tr_tenant_id = ''''\<rparr>"
  let ?w2 = "w\<lparr>w_tick := Suc (Suc (w_tick w))\<rparr>"
  let ?w3 = "?w2\<lparr>w_tbl := (w_tbl w)\<lparr>t_traces := t_traces (w_tbl w) @ [?t]\<rparr>, w_tick := Suc (w_tick ?w2)\<rparr>"
  let ?rows = "traces_of rid w"
  note r = trace_readyD [OF assms(1)]
  have create: "CreateTrace ?t ?w2 = (Inr (), ?w3)"
    using r(1) assms(5,7) by (simp add: CreateTrace_def stmt_quiet)
  have ready: "trace_ready rid ?w3" using r assms(7) by (auto simp: trace_ready_def key_unique_def)
  have rows: "traces_of rid ?w3 = ?rows @ [?t]"
    using run_rows_snoc [of ?t "t_traces (w_tbl w)" rid] assms(7,9) by (simp add: traces_of_def)
  obtain t' w' where seal: "SealRunTraceChain c rid ?w3 = (None, w')" and bec: "traces_become rid ?w3 (?rows @ [t']) w'"
      and t': "contentFields t' = contentFields ?t" "tr_intact c '''' (?rows @ [t'])"
    using SealRunTraceChain_snoc [OF ready rows assms(2)] by auto
  have "TraceRecord c rc (Inr d) w = (Inr ?t, w')"
    using seal r(3) assms(3,4,6,8) create
    by (simp add: TraceRecord_def rand_read_def time_now_def Let_def)
  moreover have "traces_of rid w' = ?rows @ [t']"
    using traces_become_ready(2) [OF bec] ready by simp
  ultimately show ?thesis using t' by (intro exI [of _ ?t] exI [of _ t'] exI [of _ w']) simp
qed

section \<open>Witnesses\<close>

definition demo_trace :: "string \<Rightarrow> time \<Rightarrow> trace_row" where
  "demo_trace i at = \<lparr>tr_id = i, tr_run_id = ''r'', tr_event = ''step'', tr_actor = ''system'',
     tr_detail = ''{}'', tr_prev_hash = '''', tr_curr_hash = '''', tr_timestamp = at, tr_tenant_id = ''''\<rparr>"

definition demo_run :: "string \<Rightarrow> string \<Rightarrow> run_row" where
  "demo_run i st = \<lparr>run_id = i, run_workflow_name = ''w'', run_template_name = '''', run_params = '''',
     run_plan_hash = '''', run_plan_json = '''', run_status = st, run_approval_status = '''',
     run_approval_level = '''', run_priority = '''', run_created_at = 0, run_updated_at = 0,
     run_creator = ''ops'', run_incident_id = '''', run_tenant_id = ''''\<rparr>"

abbreviation demo_traces :: "trace_row list \<Rightarrow> world" where
  "demo_traces rows \<equiv> still_world (no_rows\<lparr>t_runs := [demo_run ''r'' ''running''], t_traces := rows\<rparr>)"

lemma demo_trace_simps [simp]:
  "tr_id (demo_trace i at) = i" "tr_timestamp (demo_trace i at) = at" "tr_curr_hash (demo_trace i at) = ''''"
  "tr_run_id (demo_trace i at) = ''r''" "tr_prev_hash (demo_trace i at) = ''''"
  "tr_timestamp (trace_link p q x) = tr_timestamp x"
  "tr_run_id (trace_link p q x) = tr_run_id x" "tr_detail (trace_link p q x) = tr_detail x"
  "tr_detail (demo_trace i at) = ''{}''" "run_id (demo_run i s) = i" "run_status (demo_run i s) = s"
  by (simp_all add: demo_trace_def trace_link_def demo_run_def)

lemma demo_traces_ready [simp]: "trace_ready rid (demo_traces rows) \<longleftrightarrow> key_unique tr_id rows \<and> rid \<noteq> ''''"
  by (simp add: trace_ready_def)

lemma demo_traces_of [simp]: "traces_of rid (demo_traces rows) = run_rows rid rows"
  by (simp add: traces_of_def)

text \<open>Two sealed traces.\<close>

definition demo_link :: "nat \<Rightarrow> trace_row" where
  "demo_link i = tr_relink demo_crypto '''' [demo_trace ''a'' 2, demo_trace ''b'' 5] ! i"

lemma demo_link_simps [simp]:
  "tr_id (demo_link 0) = ''a''" "tr_id (demo_link (Suc 0)) = ''b''" "tr_timestamp (demo_link 0) = 2"
  "tr_timestamp (demo_link (Suc 0)) = 5" "tr_run_id (demo_link 0) = ''r''" "tr_run_id (demo_link (Suc 0)) = ''r''"
  "tr_detail (demo_link (Suc 0)) = ''{}''"
  by (simp_all add: demo_link_def)

lemma demo_link_intact: "tr_intact demo_crypto '''' [demo_link 0, demo_link 1]"
proof -
  have "[demo_link 0, demo_link 1] = tr_relink demo_crypto '''' [demo_trace ''a'' 2, demo_trace ''b'' 5]"
    by (simp add: demo_link_def)
  then show ?thesis using tr_intact_relink by metis
qed


theorem verifiers_agree_witness:
  "fst (BuilderVerify demo_crypto ''r'' (demo_traces [demo_trace ''a'' 2])) = (0, Some ErrHashMismatch)"
proof -
  have "fst (ChainVerify demo_crypto ''r'' (demo_traces [demo_trace ''a'' 2])) =
      Inr (trace_verdict demo_crypto ''r'' [demo_trace ''a'' 2])"
    using ChainVerify_quiet [of "''r''" "demo_traces [demo_trace ''a'' 2]" demo_crypto]
    by (simp add: run_rows_def trace_order_def)
  moreover have "\<exists>f. vr_failures (trace_verdict demo_crypto ''r'' [demo_trace ''a'' 2]) = [f] \<and> cf_index f = 0"
    by (simp add: trace_verdict_def checkTrace_def Let_def)
  ultimately show ?thesis
    using verifiers_agree [of demo_crypto "''r''" "demo_traces [demo_trace ''a'' 2]"] by auto
qed

theorem BuildBatch_is_Build_witness:
  "snd (BuildBatch demo_crypto ''r'' 1 (demo_traces [demo_trace ''b'' 5, demo_trace ''a'' 2])) =
     snd (Build demo_crypto ''r'' (demo_traces [demo_trace ''b'' 5, demo_trace ''a'' 2]))"
  using BuildBatch_is_Build [of 1 demo_crypto "''r''" "demo_traces [demo_trace ''b'' 5, demo_trace ''a'' 2]"] by simp

theorem Build_then_refuse_witness:
  "\<exists>tail w'. Build demo_crypto ''r'' (demo_traces [demo_trace ''b'' 5, demo_trace ''a'' 2]) = ((2, tail, None), w') \<and>
     fst (Build demo_crypto ''r'' w') = (0, '''', Some ErrChainAlreadyBuilt)"
  using Build_then_refuse [of "''r''" "demo_traces [demo_trace ''b'' 5, demo_trace ''a'' 2]" demo_crypto]
  by (auto simp: run_rows_def trace_order_def)

abbreviation demo_altered_trace :: trace_row where
  "demo_altered_trace \<equiv> (demo_link 1)\<lparr>tr_detail := ''x''\<rparr>"

theorem altered_trace_detected_witness:
  "collision (digest demo_crypto) (trace_payload (demo_link 1)) (trace_payload demo_altered_trace) \<or>
    collision (digest demo_crypto) (trace_payload (demo_link 1)) (legacy_payload demo_altered_trace) \<or>
    (\<exists>res f. fst (ChainVerify demo_crypto ''r'' (demo_traces [demo_link 0, demo_altered_trace])) = Inr res \<and>
       vr_failures res = [f] \<and> cf_index f = 1 \<and> cf_type f = FailureHashMismatch)"
  using altered_trace_detected [of "''r''" "demo_traces [demo_link 0, demo_altered_trace]" "[demo_link 0]"
      demo_altered_trace "[]" demo_crypto "demo_link 1"] demo_link_intact
  by (auto simp: run_rows_def trace_order_def contentFields_def simp del: intact.simps)

theorem late_trace_breaks_chain_witness:
  "tr_intact demo_crypto '''' (traces_of ''r'' (demo_traces [demo_link 0, demo_link 1])) \<and>
   (\<exists>r w'. TraceSeal demo_crypto ''r'' (demo_traces [demo_link 0, demo_link 1, demo_trace ''late'' 1]) =
     ((r, Some ErrChainBroken), w'))"
proof
  show "tr_intact demo_crypto '''' (traces_of ''r'' (demo_traces [demo_link 0, demo_link 1]))"
    using demo_link_intact by (simp add: run_rows_def trace_order_def)
next
  have "tr_prev_hash (demo_link 0) = ''''" using demo_link_intact by simp
  then show "\<exists>r w'. TraceSeal demo_crypto ''r'' (demo_traces [demo_link 0, demo_link 1, demo_trace ''late'' 1]) =
     ((r, Some ErrChainBroken), w')"
    using late_trace_breaks_chain [of "''r''" "demo_traces [demo_link 0, demo_link 1, demo_trace ''late'' 1]" "[]"
        "demo_trace ''late'' 1" "demo_link 0" "[demo_link 1]" demo_crypto] demo_link_intact
    by (auto simp: run_rows_def trace_order_def simp del: intact.simps)
qed

theorem worm_write_once_witness:
  "\<exists>w'. Append demo_crypto (Some (demo_trace ''a'' 2)) (demo_traces []) = (None, w') \<and>
    fst (Append demo_crypto (Some ((demo_trace ''a'' 2)\<lparr>tr_detail := ''y''\<rparr>)) w') = Some ErrAlreadyExists"
  using worm_write_once [of "''r''" "demo_traces []" "demo_trace ''a'' 2" "(demo_trace ''a'' 2)\<lparr>tr_detail := ''y''\<rparr>" demo_crypto]
  by auto

theorem worm_append_blocks_chain_witness:
  "let t = (demo_trace ''a'' 2)\<lparr>tr_curr_hash := ComputeChecksum demo_crypto (demo_trace ''a'' 2)\<rparr> in
    collision (digest demo_crypto) (canonicalV2 (contentFields t)) (trace_payload t) \<or>
    collision (digest demo_crypto) (canonicalV2 (contentFields t)) (legacy_payload t) \<or>
    (\<exists>r w1. TraceSeal demo_crypto ''r'' (demo_traces [t]) = ((r, Some ErrChainBroken), w1))"
  using worm_append_blocks_chain [of "''r''" "demo_traces [(demo_trace ''a'' 2)\<lparr>tr_curr_hash := ComputeChecksum demo_crypto (demo_trace ''a'' 2)\<rparr>]"
      "(demo_trace ''a'' 2)\<lparr>tr_curr_hash := ComputeChecksum demo_crypto (demo_trace ''a'' 2)\<rparr>" "[]" demo_crypto]
  by (auto simp: run_rows_def trace_order_def Let_def ComputeChecksum_def contentFields_def)

theorem TraceRecord_extends_chain_witness:
  "\<exists>t w'. TraceRecord demo_crypto \<lparr>rec_run_id = ''r'', rec_event = ''gate'', rec_actor = ''ops''\<rparr> (Inr ''{}'')
      (demo_traces [demo_link 0]) = (Inr t, w') \<and> tr_id t = ''0'' \<and> length (traces_of ''r'' w') = 2"
proof -
  have "itoa 0 = ''0''" by code_simp
  then show ?thesis
    using TraceRecord_extends_chain [of "''r''" "demo_traces [demo_link 0]" demo_crypto
        "\<lparr>rec_run_id = ''r'', rec_event = ''gate'', rec_actor = ''ops''\<rparr>" "''0''" second "''{}''"] demo_link_intact
    by (auto simp: run_rows_def trace_order_def)
qed

end
