(* ===== verification/Locks.thy ===== *)
theory Locks
  imports Audit_Chain
begin

text \<open>
  \<^verbatim>\<open>internal/lock\<close>: host locks with a time to live. A \<open>lock_store\<close> is the Go interface
  \<^verbatim>\<open>LockStore\<close> as a record of functions, \<open>stateLockStore\<close> its implementation over the
  database, and the \<^verbatim>\<open>LockManager\<close> operations take the store they are built on. The locale
  \<open>safe_lock_store\<close> is what the manager relies on: while a target is held, no operation
  grants it or ends the holding. It is interpreted on \<open>stateLockStore\<close> in a world where
  faults and interference are arbitrary but for the one row that holds the target.

  The retry of \<^verbatim>\<open>ForceAcquire\<close> has fuel: another process can win every race, so the call need
  not end; on a quiet store with fresh random ids no retry happens at all, which is proved.
\<close>

section \<open>Data\<close>

definition DefaultTTL :: duration where
  "DefaultTTL = hour"

datatype lock_error =
    ErrLockHeld
  | ErrLockNotFound
  | ErrNotOwner
  | ErrTargetBusy
  | ErrEmptyTarget
  | ErrEmptyOwner
  | ErrLockID
  | LockStoreError store_error
  | NilDereference

record host_lock =
  hl_target :: string
  hl_owner :: string
  hl_acquired_at :: time
  hl_expires_at :: time
  hl_ttl :: duration

definition LockExpired :: "host_lock option \<Rightarrow> time \<Rightarrow> bool" where
  "LockExpired lo now = (case lo of
     None \<Rightarrow> False
   | Some l \<Rightarrow> if hl_expires_at l = zero_time then False else \<not> now < hl_expires_at l)"

definition scope :: "string \<Rightarrow> string" where
  "scope target = ''host:'' @ target"

definition newLockID :: "world \<Rightarrow> string option \<times> world" where
  "newLockID w = (case rand_read w of (None, w1) \<Rightarrow> (None, w1) | (Some r, w1) \<Rightarrow> (Some (''lock-'' @ r), w1))"

definition toStateLock :: "host_lock \<Rightarrow> world \<Rightarrow> lock_row option \<times> world" where
  "toStateLock l w = (case newLockID w of
     (None, w1) \<Rightarrow> (None, w1)
   | (Some i, w1) \<Rightarrow> (Some \<lparr>lk_id = i, lk_scope = scope (hl_target l), lk_owner = hl_owner l,
        lk_ttl_seconds = go_div (hl_ttl l) second, lk_acquired_at = hl_acquired_at l,
        lk_expires_at = hl_expires_at l\<rparr>, w1))"

definition fromStateLock :: "lock_row \<Rightarrow> host_lock" where
  "fromStateLock sl = \<lparr>hl_target = trim_prefix (lk_scope sl) ''host:'', hl_owner = lk_owner sl,
     hl_acquired_at = lk_acquired_at sl, hl_expires_at = lk_expires_at sl,
     hl_ttl = lk_ttl_seconds sl * second\<rparr>"

type_synonym 'a lock_op = "world \<Rightarrow> (lock_error + 'a) \<times> world"

record lock_store =
  ls_acquire :: "string \<Rightarrow> string \<Rightarrow> duration \<Rightarrow> host_lock lock_op"
  ls_release :: "string \<Rightarrow> string \<Rightarrow> unit lock_op"
  ls_get :: "string \<Rightarrow> host_lock option lock_op"
  ls_force_acquire :: "string \<Rightarrow> string \<Rightarrow> duration \<Rightarrow> world \<Rightarrow> ((lock_error + host_lock) \<times> world) option"
  ls_list_expired :: "host_lock list lock_op"

section \<open>The store-backed lock store\<close>

definition StoreAcquire :: "string \<Rightarrow> string \<Rightarrow> duration \<Rightarrow> host_lock lock_op" where
  "StoreAcquire target owner ttl0 w =
    (if target = '''' then (Inl ErrEmptyTarget, w)
     else if owner = '''' then (Inl ErrEmptyOwner, w)
     else let ttl = (if ttl0 \<le> 0 then DefaultTTL else ttl0) in
      case GetLockByScope (scope target) w of
        (Inl e, w1) \<Rightarrow> (Inl (LockStoreError e), w1)
      | (Inr (Some ex), w1) \<Rightarrow> (Inl ErrLockHeld, w1)
      | (Inr None, w1) \<Rightarrow>
         (case time_now w1 of (now, w2) \<Rightarrow>
          case toStateLock \<lparr>hl_target = target, hl_owner = owner, hl_acquired_at = now,
                 hl_expires_at = now + ttl, hl_ttl = ttl\<rparr> w2 of
            (None, w3) \<Rightarrow> (Inl ErrLockID, w3)
          | (Some sl, w3) \<Rightarrow>
             (case CreateLock sl w3 of
                (Inl e, w4) \<Rightarrow> (Inl (if e = UniqueViolation then ErrLockHeld else LockStoreError e), w4)
              | (Inr _, w4) \<Rightarrow> (Inr (fromStateLock sl), w4))))"

definition StoreRelease :: "string \<Rightarrow> string \<Rightarrow> unit lock_op" where
  "StoreRelease target owner w =
    (if target = '''' then (Inl ErrEmptyTarget, w)
     else case GetLockByScope (scope target) w of
        (Inl e, w1) \<Rightarrow> (Inl (LockStoreError e), w1)
      | (Inr None, w1) \<Rightarrow> (Inl ErrLockNotFound, w1)
      | (Inr (Some ex), w1) \<Rightarrow>
         if lk_owner ex \<noteq> owner then (Inl ErrNotOwner, w1)
         else (case DeleteLockByIDAndOwner (lk_id ex) owner w1 of
             (Inl e, w2) \<Rightarrow> (Inl (LockStoreError e), w2)
           | (Inr _, w2) \<Rightarrow> (Inr (), w2)))"

definition StoreGet :: "string \<Rightarrow> host_lock option lock_op" where
  "StoreGet target w =
    (if target = '''' then (Inl ErrEmptyTarget, w)
     else case GetLockByScope (scope target) w of
        (Inl e, w1) \<Rightarrow> (Inl (LockStoreError e), w1)
      | (Inr ex, w1) \<Rightarrow> (Inr (map_option fromStateLock ex), w1))"

fun ForceAcquire :: "nat \<Rightarrow> string \<Rightarrow> string \<Rightarrow> duration \<Rightarrow> world \<Rightarrow> ((lock_error + host_lock) \<times> world) option" where
  "ForceAcquire 0 target owner ttl0 w = None"
| "ForceAcquire (Suc fuel) target owner ttl0 w =
    (if target = '''' then Some (Inl ErrEmptyTarget, w)
     else if owner = '''' then Some (Inl ErrEmptyOwner, w)
     else let ttl = (if ttl0 \<le> 0 then DefaultTTL else ttl0) in
      case time_now w of (now, w0) \<Rightarrow>
      (case GetLockByScope (scope target) w0 of
        (Inl e, w1) \<Rightarrow> Some (Inl (LockStoreError e), w1)
      | (Inr (Some ex), w1) \<Rightarrow>
         if \<not> now > lk_expires_at ex \<and> now \<noteq> lk_expires_at ex then Some (Inl ErrLockHeld, w1)
         else (case UpdateLockOwnedBy (lk_id ex) owner (go_div ttl second) now w1 of
             (Inl e, w2) \<Rightarrow> Some (Inl (LockStoreError e), w2)
           | (Inr rows, w2) \<Rightarrow>
              if rows = 0 then ForceAcquire fuel target owner ttl w2
              else (case GetLockByScope (scope target) w2 of
                  (Inl e, w3) \<Rightarrow> Some (Inl (LockStoreError e), w3)
                | (Inr None, w3) \<Rightarrow> Some (Inl NilDereference, w3)
                | (Inr (Some l), w3) \<Rightarrow> Some (Inr (fromStateLock l), w3)))
      | (Inr None, w1) \<Rightarrow>
         (case toStateLock \<lparr>hl_target = target, hl_owner = owner, hl_acquired_at = now,
                 hl_expires_at = now + ttl, hl_ttl = ttl\<rparr> w1 of
            (None, w2) \<Rightarrow> Some (Inl ErrLockID, w2)
          | (Some sl, w2) \<Rightarrow>
             (case CreateLock sl w2 of
                (Inl e, w3) \<Rightarrow> if e = UniqueViolation then ForceAcquire fuel target owner ttl w3
                               else Some (Inl (LockStoreError e), w3)
              | (Inr _, w3) \<Rightarrow> Some (Inr (fromStateLock sl), w3)))))"

definition ListExpired :: "host_lock list lock_op" where
  "ListExpired w = (case ListLocks w of
     (Inl e, w1) \<Rightarrow> (Inl (LockStoreError e), w1)
   | (Inr ls, w1) \<Rightarrow> (case time_now w1 of (now, w2) \<Rightarrow>
        (Inr (map fromStateLock (filter (\<lambda>sl. now > lk_expires_at sl) ls)), w2)))"

definition stateLockStore :: "nat \<Rightarrow> lock_store" where
  "stateLockStore fuel = \<lparr>ls_acquire = StoreAcquire, ls_release = StoreRelease, ls_get = StoreGet,
     ls_force_acquire = ForceAcquire fuel, ls_list_expired = ListExpired\<rparr>"

section \<open>The manager\<close>

record lock_manager =
  lm_store :: lock_store
  lm_default_ttl :: duration

definition NewLockManager :: "lock_store \<Rightarrow> lock_manager" where
  "NewLockManager st = \<lparr>lm_store = st, lm_default_ttl = DefaultTTL\<rparr>"

definition SetTTL :: "duration \<Rightarrow> lock_manager \<Rightarrow> lock_manager" where
  "SetTTL ttl m = (if ttl > 0 then m\<lparr>lm_default_ttl := ttl\<rparr> else m)"

text \<open>The audit entry of a preemption; whatever fails is only logged. \<open>None\<close>: out of fuel.\<close>

definition recordAudit :: "crypto \<Rightarrow> nat \<Rightarrow> string \<Rightarrow> string \<Rightarrow> world \<Rightarrow> world option" where
  "recordAudit c fuel target newOwner w = (case newLockID w of
     (None, w1) \<Rightarrow> Some w1
   | (Some i, w1) \<Rightarrow>
      (case time_now w1 of (now, w2) \<Rightarrow>
       case Record c fuel \<lparr>au_id = i, au_run_id = newOwner, au_action = ''lock'', au_actor = newOwner,
              au_target = target, au_result = ''success'', au_tenant_id = '''', au_prev_hash = '''',
              au_curr_hash = '''', au_timestamp = now\<rparr> w2 of
         None \<Rightarrow> None | Some (_, w3) \<Rightarrow> Some w3))"

definition ManagerAcquire ::
    "crypto \<Rightarrow> nat \<Rightarrow> lock_manager \<Rightarrow> string \<Rightarrow> string \<Rightarrow> world \<Rightarrow> ((lock_error + host_lock) \<times> world) option" where
  "ManagerAcquire c fuel m target owner w =
    (if target = '''' then Some (Inl ErrEmptyTarget, w)
     else if owner = '''' then Some (Inl ErrEmptyOwner, w)
     else case ls_get (lm_store m) target w of
        (Inl e, w1) \<Rightarrow> Some (Inl e, w1)
      | (Inr None, w1) \<Rightarrow> Some (ls_acquire (lm_store m) target owner (lm_default_ttl m) w1)
      | (Inr (Some ex), w1) \<Rightarrow>
         (case time_now w1 of (now, w2) \<Rightarrow>
           if \<not> LockExpired (Some ex) now then Some (Inl ErrLockHeld, w2)
           else (case ls_force_acquire (lm_store m) target owner (lm_default_ttl m) w2 of
               None \<Rightarrow> None
             | Some (Inl e, w3) \<Rightarrow> Some (Inl e, w3)
             | Some (Inr l, w3) \<Rightarrow>
                (case recordAudit c fuel target owner w3 of None \<Rightarrow> None | Some w4 \<Rightarrow> Some (Inr l, w4)))))"

definition ManagerRelease :: "lock_manager \<Rightarrow> string \<Rightarrow> string \<Rightarrow> unit lock_op" where
  "ManagerRelease m target owner w = ls_release (lm_store m) target owner w"

definition StepStatusRunning :: string where "StepStatusRunning = ''running''"
definition StepStatusPending :: string where "StepStatusPending = ''pending''"

definition host_steps :: "string \<Rightarrow> string \<Rightarrow> step_filter" where
  "host_steps target st = empty_step_filter\<lparr>sf_host := target, sf_status := st\<rparr>"

definition isTargetBusy :: "string \<Rightarrow> bool lock_op" where
  "isTargetBusy target w = (case ListSteps (host_steps target StepStatusRunning) w of
     (Inl e, w1) \<Rightarrow> (Inl (LockStoreError e), w1)
   | (Inr running, w1) \<Rightarrow>
      if length running > 0 then (Inr True, w1)
      else (case ListSteps (host_steps target StepStatusPending) w1 of
         (Inl e, w2) \<Rightarrow> (Inl (LockStoreError e), w2)
       | (Inr pending, w2) \<Rightarrow> (Inr (length pending > 0), w2)))"

definition CheckAndAcquire ::
    "crypto \<Rightarrow> nat \<Rightarrow> lock_manager \<Rightarrow> string \<Rightarrow> string \<Rightarrow> world \<Rightarrow> ((lock_error + host_lock) \<times> world) option" where
  "CheckAndAcquire c fuel m target owner w =
    (if target = '''' then Some (Inl ErrEmptyTarget, w)
     else if owner = '''' then Some (Inl ErrEmptyOwner, w)
     else case isTargetBusy target w of
        (Inl e, w1) \<Rightarrow> Some (Inl e, w1)
      | (Inr busy, w1) \<Rightarrow> if busy then Some (Inl ErrTargetBusy, w1) else ManagerAcquire c fuel m target owner w1)"

definition CleanExpired :: "nat lock_op" where
  "CleanExpired w = (case time_now w of (now, w1) \<Rightarrow>
     (case DeleteExpiredLocks now w1 of (Inl e, w2) \<Rightarrow> (Inl (LockStoreError e), w2) | (Inr n, w2) \<Rightarrow> (Inr n, w2)))"

section \<open>What the manager relies on\<close>

text \<open>
  \<open>held t w\<close> stands for ``target \<open>t\<close> is held in \<open>w\<close> and stays so whatever the others do''.
  A safe lock store keeps a holding through every operation and grants no held target.
\<close>

locale safe_lock_store =
  fixes S :: lock_store
    and held :: "string \<Rightarrow> world \<Rightarrow> bool"
    and alien :: "string \<Rightarrow> bool"
  assumes get_held: "held t w \<Longrightarrow> ls_get S t' w = (g, w') \<Longrightarrow> held t w'"
    and acquire_held: "held t w \<Longrightarrow> ls_acquire S t' q ttl w = (r, w') \<Longrightarrow> held t w' \<and> (t' = t \<longrightarrow> isl r)"
    and force_held: "held t w \<Longrightarrow> ls_force_acquire S t' q ttl w = Some (r, w') \<Longrightarrow> held t w' \<and> (t' = t \<longrightarrow> isl r)"
    and release_held: "held t w \<Longrightarrow> alien q \<Longrightarrow> ls_release S t' q w = (d, w') \<Longrightarrow> held t w'"
    and record_held: "held t w \<Longrightarrow> Record c fuel a w = Some (r', w') \<Longrightarrow> held t w'"
    and tick_held: "held t (w\<lparr>w_tick := n\<rparr>) = held t w"
    and steps_held: "held t w \<Longrightarrow> ListSteps f w = (rs, w') \<Longrightarrow> held t w'"
begin

lemma recordAudit_held: "held t w \<Longrightarrow> recordAudit c fuel t' q w = Some w' \<Longrightarrow> held t w'"
  by (auto simp: recordAudit_def newLockID_def rand_read_def time_now_def tick_held
      split: prod.splits option.splits dest: record_held [rotated])

lemma manager_acquire_held:
  assumes "held t w" and "lm_store m = S" and "ManagerAcquire c fuel m t' q w = Some (r, w')"
  shows "held t w' \<and> (t' = t \<longrightarrow> isl r)"
proof (cases "t' = '''' \<or> q = ''''")
  case True
  with assms show ?thesis by (auto simp: ManagerAcquire_def split: if_splits)
next
  case False
  obtain g w1 where get: "ls_get S t' w = (g, w1)" by (cases "ls_get S t' w")
  have w1: "held t w1" by (rule get_held [OF assms(1) get])
  show ?thesis
  proof (cases "\<exists>ex. g = Inr (Some ex)")
    case True
    then obtain ex where g: "g = Inr (Some ex)" ..
    let ?w2 = "w1\<lparr>w_tick := Suc (w_tick w1)\<rparr>"
    have w2: "held t ?w2" using w1 by (simp add: tick_held)
    show ?thesis
    proof (cases "LockExpired (Some ex) (w_clock w1 (w_tick w1))")
      case True
      with assms(2,3) False get g obtain f w3 where force: "ls_force_acquire S t' q (lm_default_ttl m) ?w2 = Some (f, w3)"
        by (auto simp: ManagerAcquire_def time_now_def split: option.splits)
      from force_held [OF w2 this] have w3: "held t w3" "t' = t \<longrightarrow> isl f" by auto
      show ?thesis using assms(2,3) False get g True force w3 recordAudit_held [OF w3(1)]
        by (cases f) (auto simp: ManagerAcquire_def time_now_def split: option.splits)
    qed (use assms(2,3) False get g w2 in \<open>auto simp: ManagerAcquire_def time_now_def\<close>)
  next
    case no: False
    show ?thesis
    proof (cases g)
      case (Inl e)
      with assms(2,3) False get w1 show ?thesis by (auto simp: ManagerAcquire_def)
    next
      case (Inr y)
      with no have "g = Inr None" by (cases y) auto
      with assms(2,3) False get have "ls_acquire S t' q (lm_default_ttl m) w1 = (r, w')"
        by (simp add: ManagerAcquire_def)
      from acquire_held [OF w1 this] show ?thesis .
    qed
  qed
qed

lemma check_acquire_held:
  assumes "held t w" and "lm_store m = S" and "CheckAndAcquire c fuel m t' q w = Some (r, w')"
  shows "held t w' \<and> (t' = t \<longrightarrow> isl r)"
proof (cases "t' = '''' \<or> q = ''''")
  case True
  with assms show ?thesis by (auto simp: CheckAndAcquire_def split: if_splits)
next
  case False
  obtain b w1 where busy: "isTargetBusy t' w = (b, w1)" by (cases "isTargetBusy t' w")
  obtain ra wa where la: "ListSteps (host_steps t' StepStatusRunning) w = (ra, wa)" by fastforce
  obtain rb wb where lb: "ListSteps (host_steps t' StepStatusPending) wa = (rb, wb)" by fastforce
  have wa: "held t wa" and wb: "held t wb" using steps_held [OF assms(1) la] steps_held [OF _ lb] by auto
  have w1: "held t w1" using busy la lb wa wb
    by (auto simp: isTargetBusy_def split: sum.splits if_splits)
  show ?thesis
    using assms(2,3) False busy w1 manager_acquire_held [OF w1 assms(2)]
    by (cases b) (auto simp: CheckAndAcquire_def split: if_splits)
qed

end

section \<open>A held target\<close>

text \<open>
  The row \<open>R\<close> holds its scope: it is in the table, ids and scopes are unique (the table's
  constraints), the other processes keep it so, and no clock reading reaches its expiry. Faults,
  random bytes and whatever else the others do stay arbitrary.
\<close>

definition lock_inv :: "lock_row \<Rightarrow> tables \<Rightarrow> bool" where
  "lock_inv R t \<longleftrightarrow> R \<in> set (t_locks t) \<and> key_unique lk_id (t_locks t) \<and> key_unique lk_scope (t_locks t)"

definition held_by :: "lock_row \<Rightarrow> string \<Rightarrow> world \<Rightarrow> bool" where
  "held_by R target w \<longleftrightarrow> lk_scope R = scope target \<and> upheld (lock_inv R) w \<and>
     (\<forall>n. w_clock w n < lk_expires_at R)"

lemma held_by_tick [simp]: "held_by R t (w\<lparr>w_tick := n\<rparr>) = held_by R t w"
  by (simp add: held_by_def)

lemma held_by_stmt:
  assumes "held_by R t w" and "stmt f w = (r, w')" and "\<And>t. lock_inv R t \<Longrightarrow> lock_inv R (snd (f t))"
  shows "held_by R t w'"
  using assms(1) upheld_stmt [of "lock_inv R", OF _ assms(2)] assms(3) stmt_env(1) [OF assms(2)]
  by (simp add: held_by_def)

lemma held_by_query: "held_by R t w \<Longrightarrow> query f w = (r, w') \<Longrightarrow> held_by R t w'"
  unfolding query_def by (erule held_by_stmt, assumption) simp

lemma get_scope_held:
  assumes "held_by R t w" and "GetLockByScope (scope t) w = (r, w')"
  shows "r = Inl DriverError \<or> r = Inr (Some R)"
proof -
  have "find (\<lambda>l. lk_scope l = scope t) (t_locks tb) = Some R" if "lock_inv R tb" for tb
    using find_key_unique [of lk_scope "t_locks tb" R] that assms(1) by (simp add: lock_inv_def held_by_def)
  with upheld_read [OF _ assms(2) [unfolded GetLockByScope_def], of "lock_inv R"] assms(1)
  show ?thesis by (auto simp: held_by_def)
qed

lemma create_lock_held:
  "held_by R t w \<Longrightarrow> CreateLock sl w = (r, w') \<Longrightarrow> held_by R t w'"
  unfolding CreateLock_def
  by (erule held_by_stmt, assumption) (auto simp: lock_inv_def key_unique_def)

lemma update_lock_held:
  assumes "held_by R t w" and "now < lk_expires_at R" and "UpdateLockOwnedBy i q ttl now w = (r, w')"
  shows "held_by R t w'"
proof (rule held_by_stmt [OF assms(1) assms(3) [unfolded UpdateLockOwnedBy_def]])
  fix tb assume "lock_inv R tb"
  then show "lock_inv R (snd (let P = \<lambda>x. lk_id x = i \<and> lk_expires_at x \<le> now in
      (Inr (count_where P (t_locks tb)), tb\<lparr>t_locks := update_where P (\<lambda>x. x\<lparr>lk_owner := q,
         lk_ttl_seconds := ttl, lk_acquired_at := now, lk_expires_at := now + ttl * second\<rparr>) (t_locks tb)\<rparr>)))"
    using assms(2) by (auto simp: lock_inv_def Let_def set_update_where image_iff intro!: bexI [of _ R])
qed

lemma delete_lock_held:
  assumes "held_by R t w" and "q \<noteq> lk_owner R" and "DeleteLockByIDAndOwner i q w = (r, w')"
  shows "held_by R t w'"
  using assms(1) assms(3) [unfolded DeleteLockByIDAndOwner_def]
  by (rule held_by_stmt) (use assms(2) in \<open>auto simp: lock_inv_def Let_def intro: key_unique_filter\<close>)

lemma acquire_held_by:
  assumes "held_by R t w" and "StoreAcquire t' q ttl w = (r, w')"
  shows "held_by R t w' \<and> (t' = t \<longrightarrow> isl r)"
proof -
  obtain g w1 where get: "GetLockByScope (scope t') w = (g, w1)" by (cases "GetLockByScope (scope t') w")
  have w1: "held_by R t w1" using held_by_query [OF assms(1) get [unfolded GetLockByScope_def]] .
  have "t' = t \<Longrightarrow> g = Inl DriverError \<or> g = Inr (Some R)" using get_scope_held assms(1) get by blast
  with assms w1 get show ?thesis
    by (auto simp: StoreAcquire_def Let_def time_now_def toStateLock_def newLockID_def rand_read_def
        split: if_splits sum.splits option.splits prod.splits dest: create_lock_held [rotated])
qed

lemma force_held_by:
  assumes "held_by R t w" and "ForceAcquire fuel t' q ttl w = Some (r, w')"
  shows "held_by R t w' \<and> (t' = t \<longrightarrow> isl r)"
  using assms
proof (induction fuel arbitrary: w ttl)
  case (Suc fuel)
  let ?w0 = "w\<lparr>w_tick := Suc (w_tick w)\<rparr>" and ?now = "w_clock w (w_tick w)"
  let ?ttl = "if ttl \<le> 0 then DefaultTTL else ttl"
  have w0: "held_by R t ?w0" using Suc.prems(1) by simp
  have now: "?now < lk_expires_at R" using Suc.prems(1) by (simp add: held_by_def)
  obtain g w1 where get: "GetLockByScope (scope t') ?w0 = (g, w1)" by (cases "GetLockByScope (scope t') ?w0")
  have w1: "held_by R t w1" using held_by_query [OF w0 get [unfolded GetLockByScope_def]] .
  have same: "t' = t \<Longrightarrow> g = Inl DriverError \<or> g = Inr (Some R)" using get_scope_held w0 get by blast
  show ?case
  proof (cases "\<exists>ex. g = Inr (Some ex)")
    case True
    then obtain ex where g: "g = Inr (Some ex)" ..
    obtain u w2 where upd: "UpdateLockOwnedBy (lk_id ex) q (go_div ?ttl second) ?now w1 = (u, w2)" by fastforce
    have w2: "held_by R t w2" using update_lock_held [OF w1 now upd] .
    obtain l w3 where get2: "GetLockByScope (scope t') w2 = (l, w3)" by (cases "GetLockByScope (scope t') w2")
    have w3: "held_by R t w3" using held_by_query [OF w2 get2 [unfolded GetLockByScope_def]] .
    show ?thesis
      using Suc.prems Suc.IH [OF w2] get g upd get2 w1 w2 w3 same now
      by (auto simp: time_now_def Let_def split: if_splits sum.splits option.splits)
  next
    case False
    show ?thesis
      using Suc.prems Suc.IH get False w1 same
      by (auto simp: time_now_def Let_def toStateLock_def newLockID_def rand_read_def
          split: if_splits sum.splits option.splits prod.splits dest: create_lock_held [rotated])
  qed
qed simp

lemma release_held_by:
  assumes "held_by R t w" and "q \<noteq> lk_owner R" and "StoreRelease t' q w = (r, w')"
  shows "held_by R t w'"
proof -
  obtain g w1 where get: "GetLockByScope (scope t') w = (g, w1)" by (cases "GetLockByScope (scope t') w")
  have w1: "held_by R t w1" using held_by_query [OF assms(1) get [unfolded GetLockByScope_def]] .
  with assms get show ?thesis
    by (auto simp: StoreRelease_def split: if_splits sum.splits option.splits prod.splits
        intro: delete_lock_held)
qed

interpretation hl: safe_lock_store "stateLockStore fuel" "held_by R" "\<lambda>q. q \<noteq> lk_owner R" for fuel R
proof unfold_locales
  fix t w t' g w' assume "held_by R t w" and "ls_get (stateLockStore fuel) t' w = (g, w')"
  then show "held_by R t w'"
    by (auto simp: stateLockStore_def StoreGet_def GetLockByScope_def split: if_splits prod.splits sum.splits
        dest: held_by_query)
next
  fix t w c n a r' w' assume w: "held_by R t w" and rec: "Record c n a w = Some (r', w')"
  have "upheld (lock_inv R) w' \<and> same_env w w'"
    using Record_elsewhere [OF _ _ rec, of "lock_inv R"] w by (auto simp: held_by_def lock_inv_def)
  with w show "held_by R t w'" by (auto simp: held_by_def same_env_def)
next
  fix t w f rs w' assume "held_by R t w" and "ListSteps f w = (rs, w')"
  then show "held_by R t w'" unfolding ListSteps_def by (rule held_by_query)
qed (auto simp: stateLockStore_def dest: acquire_held_by force_held_by release_held_by)

section \<open>Properties\<close>

text \<open>
  C17. Mutual exclusion: while a row holds a target and has not expired, no acquisition through
  the manager, checked or not, by anyone and for any target, removes or changes that row, and
  every one for that target is refused; the cleaner leaves it; and a release by anyone but the
  owner does too. Driver faults, failing randomness, other processes' writes to all other rows
  and any number of lost races are allowed for.
\<close>

theorem held_target_stays_held:
  assumes "held_by R t w" and "lm_store m = stateLockStore f"
  shows "(\<forall>t' q r w'. ManagerAcquire c fuel m t' q w = Some (r, w') \<longrightarrow> held_by R t w' \<and> (t' = t \<longrightarrow> isl r)) \<and>
    (\<forall>t' q r w'. CheckAndAcquire c fuel m t' q w = Some (r, w') \<longrightarrow> held_by R t w' \<and> (t' = t \<longrightarrow> isl r)) \<and>
    (\<forall>t' q r w'. q \<noteq> lk_owner R \<longrightarrow> ManagerRelease m t' q w = (r, w') \<longrightarrow> held_by R t w') \<and>
    (\<forall>r w'. CleanExpired w = (r, w') \<longrightarrow> held_by R t w')"
proof -
  have release: "held_by R t w'" if "q \<noteq> lk_owner R" "ManagerRelease m t' q w = (r, w')" for t' q r w'
    using hl.release_held [OF assms(1) that(1)] that(2) assms(2) by (auto simp: ManagerRelease_def)
  have clean: "held_by R t w'" if "CleanExpired w = (r, w')" for r w'
  proof -
    let ?now = "w_clock w (w_tick w)" and ?w1 = "w\<lparr>w_tick := Suc (w_tick w)\<rparr>"
    have now: "\<not> lk_expires_at R < ?now" using assms(1) by (simp add: held_by_def not_less less_imp_le)
    obtain d w2 where del: "DeleteExpiredLocks ?now ?w1 = (d, w2)" by (cases "DeleteExpiredLocks ?now ?w1")
    have "held_by R t w2"
      using assms(1) by (intro held_by_stmt [OF _ del [unfolded DeleteExpiredLocks_def]])
        (use now in \<open>auto simp: lock_inv_def intro: key_unique_filter\<close>)
    with that del show ?thesis by (auto simp: CleanExpired_def time_now_def split: sum.splits)
  qed
  show ?thesis
    using hl.manager_acquire_held [OF assms] hl.check_acquire_held [OF assms] release clean by blast
qed

lemma trim_scope [simp]: "trim_prefix (scope t) ''host:'' = t"
  unfolding scope_def by (rule trim_prefix_append)

text \<open>The rows of one scope, and the manager's acquisition on a quiet store.\<close>

lemma get_scope_quiet:
  "quiet w \<Longrightarrow> GetLockByScope sc w =
    (Inr (find (\<lambda>l. lk_scope l = sc) (t_locks (w_tbl w))), w\<lparr>w_tick := Suc (w_tick w)\<rparr>)"
  by (simp add: GetLockByScope_def query_quiet)

lemma find_snoc_new: "v \<notin> k ` set xs \<Longrightarrow> k x = v \<Longrightarrow> find (\<lambda>y. k y = v) (xs @ [x]) = Some x"
  by (induction xs) auto

text \<open>
  Acquiring a free target and giving it back, on a store that works: the lock is granted
  with the expiry one time-to-live after the clock reading, is what a lookup then returns, is
  refused to every later caller, the owner included, whose clock reads an earlier time; a
  release by another is refused as \<open>ErrNotOwner\<close>, and one by the owner restores the lock
  table exactly.
\<close>

theorem acquire_release_round_trip:
  assumes "quiet w" and "lm_store m = stateLockStore f" and "0 < lm_default_ttl m"
    and "target \<noteq> ''''" and "owner \<noteq> ''''" and "other \<noteq> owner"
    and "scope target \<notin> lk_scope ` set (t_locks (w_tbl w))"
    and "w_rand w (w_tick w + 3) = Some i" and "''lock-'' @ i \<notin> lk_id ` set (t_locks (w_tbl w))"
    and "w_clock w (w_tick w + 2) = now"
  shows "\<exists>l w1. ManagerAcquire c fuel m target owner w = Some (Inr l, w1) \<and>
    hl_target l = target \<and> hl_owner l = owner \<and> hl_expires_at l = now + lm_default_ttl m \<and>
    fst (StoreGet target w1) = Inr (Some l) \<and>
    (w_clock w1 (w_tick w1 + 1) < hl_expires_at l \<longrightarrow> q \<noteq> '''' \<longrightarrow>
       (\<exists>w2. ManagerAcquire c fuel m target q w1 = Some (Inl ErrLockHeld, w2) \<and> w_tbl w2 = w_tbl w1)) \<and>
    fst (ManagerRelease m target other w1) = Inl ErrNotOwner \<and>
    w_tbl (snd (ManagerRelease m target other w1)) = w_tbl w1 \<and>
    fst (ManagerRelease m target owner w1) = Inr () \<and>
    t_locks (w_tbl (snd (ManagerRelease m target owner w1))) = t_locks (w_tbl w)"
proof -
  let ?L = "t_locks (w_tbl w)" and ?ttl = "lm_default_ttl m"
  let ?row = "\<lparr>lk_id = ''lock-'' @ i, lk_scope = scope target, lk_owner = owner,
      lk_ttl_seconds = go_div ?ttl second, lk_acquired_at = now, lk_expires_at = now + ?ttl\<rparr>"
  let ?w1 = "w\<lparr>w_tbl := (w_tbl w)\<lparr>t_locks := ?L @ [?row]\<rparr>, w_tick := w_tick w + 5\<rparr>"
  have none: "find (\<lambda>l. lk_scope l = scope target) ?L = None" using assms(7) by (simp add: find_key_None)
  have acq: "ManagerAcquire c fuel m target owner w = Some (Inr (fromStateLock ?row), ?w1)"
    using assms(1-5,7-10) none
    by (simp add: ManagerAcquire_def stateLockStore_def StoreGet_def StoreAcquire_def get_scope_quiet Let_def
        time_now_def toStateLock_def newLockID_def rand_read_def CreateLock_def stmt_quiet eval_nat_numeral)
  have found: "find (\<lambda>l. lk_scope l = scope target) (?L @ [?row]) = Some ?row"
    using assms(7) by (intro find_snoc_new) simp_all
  have q1: "quiet ?w1" using assms(1) by simp
  have get: "fst (StoreGet target ?w1) = Inr (Some (fromStateLock ?row))"
    using assms(4) q1 found by (simp add: StoreGet_def get_scope_quiet)
  have held: "\<exists>w2. ManagerAcquire c fuel m target q ?w1 = Some (Inl ErrLockHeld, w2) \<and> w_tbl w2 = w_tbl ?w1"
    if "w_clock ?w1 (w_tick ?w1 + 1) < now + ?ttl" "q \<noteq> ''''"
    using that assms(2,4) q1 found
    by (simp add: ManagerAcquire_def stateLockStore_def StoreGet_def get_scope_quiet time_now_def
        LockExpired_def fromStateLock_def)
  have other: "ManagerRelease m target other ?w1 = (Inl ErrNotOwner, ?w1\<lparr>w_tick := Suc (w_tick ?w1)\<rparr>)"
    using assms(2,4,6) q1 found
    by (simp add: ManagerRelease_def stateLockStore_def StoreRelease_def get_scope_quiet)
  have gone: "filter (\<lambda>l. \<not> (lk_id l = ''lock-'' @ i \<and> lk_owner l = owner)) (?L @ [?row]) = ?L"
    using assms(9) by (auto simp: filter_id_conv image_iff)
  have rel: "fst (ManagerRelease m target owner ?w1) = Inr ()"
    "t_locks (w_tbl (snd (ManagerRelease m target owner ?w1))) = ?L"
    using assms(2,4) q1 found gone
    by (simp_all add: ManagerRelease_def stateLockStore_def StoreRelease_def get_scope_quiet
        DeleteLockByIDAndOwner_def stmt_quiet Let_def)
  show ?thesis
    using acq get held other rel
    by (intro exI [of _ "fromStateLock ?row"] exI [of _ ?w1]) (simp add: fromStateLock_def)
qed

text \<open>
  An expired lock is taken over, on a store that works: the new owner gets the row, which
  keeps its id and its scope and now expires after the whole seconds of the time-to-live; no
  other lock changes; and an audit entry naming the new owner and the target is in the log.
\<close>

theorem expired_lock_preempted:
  assumes "chain_ready fuel w" and "Suc (length (t_audits (w_tbl w))) < fuel"
    and "lm_store m = stateLockStore (Suc f)" and "0 < lm_default_ttl m" and "target \<noteq> ''''" and "owner \<noteq> ''''"
    and "lock_inv ex (w_tbl w)" and "lk_scope ex = scope target" and "lk_expires_at ex \<noteq> zero_time"
    and "lk_expires_at ex \<le> w_clock w (w_tick w + 1)" and "lk_expires_at ex \<le> w_clock w (w_tick w + 2)"
    and "w_rand w (w_tick w + 6) = Some i" and "''lock-'' @ i \<notin> au_id ` set (t_audits (w_tbl w))"
  shows "\<exists>l w'. ManagerAcquire c fuel m target owner w = Some (Inr l, w') \<and> hl_owner l = owner \<and> hl_target l = target \<and>
    hl_expires_at l = w_clock w (w_tick w + 2) + (lm_default_ttl m div second) * second \<and>
    t_locks (w_tbl w') = update_where (\<lambda>x. lk_id x = lk_id ex)
      (\<lambda>x. x\<lparr>lk_owner := owner, lk_ttl_seconds := lm_default_ttl m div second,
         lk_acquired_at := w_clock w (w_tick w + 2), lk_expires_at := hl_expires_at l\<rparr>) (t_locks (w_tbl w)) \<and>
    (\<exists>a\<in>set (t_audits (w_tbl w')). au_action a = ''lock'' \<and> au_actor a = owner \<and> au_target a = target)"
proof -
  let ?ttl = "lm_default_ttl m" and ?now = "w_clock w (w_tick w + 2)" and ?L = "t_locks (w_tbl w)"
  let ?upd = "\<lambda>x. x\<lparr>lk_owner := owner, lk_ttl_seconds := ?ttl div second, lk_acquired_at := ?now,
      lk_expires_at := ?now + (?ttl div second) * second\<rparr>"
  let ?L' = "update_where (\<lambda>x. lk_id x = lk_id ex) ?upd ?L"
  let ?w5 = "w\<lparr>w_tbl := (w_tbl w)\<lparr>t_locks := ?L'\<rparr>, w_tick := w_tick w + 6\<rparr>"
  have q: "quiet w" using assms(1) by (simp add: chain_ready_def)
  from assms(7) have ex: "ex \<in> set ?L" "key_unique lk_id ?L" "key_unique lk_scope ?L" by (simp_all add: lock_inv_def)
  have found: "find (\<lambda>l. lk_scope l = scope target) ?L = Some ex"
    using find_key_unique [OF ex(3,1)] assms(8) by simp
  have only: "update_where (\<lambda>x. lk_id x = lk_id ex \<and> lk_expires_at x \<le> ?now) ?upd ?L = ?L'"
    using key_unique_eq [OF ex(2) _ ex(1)] assms(11) by (auto simp: update_where_def)
  have "count_where (\<lambda>x. lk_id x = lk_id ex \<and> lk_expires_at x \<le> ?now) ?L \<noteq> 0"
    using ex(1) assms(11) by auto
  then obtain k where some: "count_where (\<lambda>x. lk_id x = lk_id ex \<and> lk_expires_at x \<le> ?now) ?L = Suc k"
    by (metis not0_implies_Suc)
  have found': "find (\<lambda>l. lk_scope l = scope target) ?L' = Some (?upd ex)"
    using found by (subst find_update_where) simp_all
  have force: "ForceAcquire (Suc f) target owner ?ttl (w\<lparr>w_tick := w_tick w + 2\<rparr>) = Some (Inr (fromStateLock (?upd ex)), ?w5)"
    using q assms(4-6,11) found found' only some
    by (simp add: get_scope_quiet time_now_def UpdateLockOwnedBy_def stmt_quiet Let_def del: count_where_0_iff)
  let ?w7 = "?w5\<lparr>w_tick := w_tick w + 8\<rparr>"
  let ?a = "\<lparr>au_id = ''lock-'' @ i, au_run_id = owner, au_action = ''lock'', au_actor = owner,
      au_target = target, au_result = ''success'', au_tenant_id = '''', au_prev_hash = '''',
      au_curr_hash = '''', au_timestamp = w_clock w (w_tick w + 7)\<rparr>"
  have "chain_ready fuel ?w7" using assms(1) by (simp add: chain_ready_def)
  from Record_ready [OF this, of ?a c] assms(2,13) obtain w' A n where rec: "Record c fuel ?a ?w7 = Some (Inr (), w')"
    and w': "w' = ?w7\<lparr>w_tbl := (w_tbl ?w7)\<lparr>t_audits := A\<rparr>, w_tick := n\<rparr>"
    and A: "mset (map unlinked A) = mset (map unlinked (?a # t_audits (w_tbl ?w7)))" by auto
  obtain a where a: "a \<in> set A" "unlinked a = unlinked ?a" using Record_ready_entry(2) [OF A] by blast
  have fields: "au_action x = au_action (unlinked x)" "au_actor x = au_actor (unlinked x)"
    "au_target x = au_target (unlinked x)" for x by (simp_all add: unlinked_def audit_link_def)
  have entry: "au_action a = ''lock'' \<and> au_actor a = owner \<and> au_target a = target"
    unfolding fields [of a] a(2) by (simp add: unlinked_def audit_link_def)
  have "ManagerAcquire c fuel m target owner w = Some (Inr (fromStateLock (?upd ex)), w')"
    using q assms(3,5,6,9,10,12) found force rec
    by (simp add: ManagerAcquire_def stateLockStore_def StoreGet_def get_scope_quiet time_now_def LockExpired_def
        fromStateLock_def recordAudit_def newLockID_def rand_read_def eval_nat_numeral)
  then show ?thesis using a(1) entry assms(8)
    by (intro exI [of _ "fromStateLock (?upd ex)"] exI [of _ w']) (auto simp: w' fromStateLock_def)
qed

lemma list_host_steps:
  "quiet w \<Longrightarrow> target \<noteq> '''' \<Longrightarrow> st \<noteq> '''' \<Longrightarrow> \<exists>ss. ListSteps (host_steps target st) w = (Inr ss, w\<lparr>w_tick := Suc (w_tick w)\<rparr>) \<and>
     set ss = {s \<in> set (t_steps (w_tbl w)). step_host s = target \<and> step_status s = st}"
  by (auto simp: ListSteps_def query_quiet host_steps_def empty_step_filter_def step_matches_def opt_eq_def limit_rows_def)

text \<open>
  The checked acquisition refuses a busy host: on a store that works, while any step of the
  host is running or pending, it returns \<open>ErrTargetBusy\<close> and writes nothing, whatever the
  state of the lock; with no such step it does what the plain acquisition does.
\<close>

theorem busy_target_refused:
  assumes "quiet w" and "target \<noteq> ''''" and "owner \<noteq> ''''"
  shows "if \<exists>s\<in>set (t_steps (w_tbl w)). step_host s = target \<and> step_status s \<in> {''running'', ''pending''}
    then \<exists>w'. CheckAndAcquire c fuel m target owner w = Some (Inl ErrTargetBusy, w') \<and> w_tbl w' = w_tbl w
    else CheckAndAcquire c fuel m target owner w =
      ManagerAcquire c fuel m target owner (w\<lparr>w_tick := Suc (Suc (w_tick w))\<rparr>)"
proof -
  obtain ra where ra: "ListSteps (host_steps target StepStatusRunning) w = (Inr ra, w\<lparr>w_tick := Suc (w_tick w)\<rparr>)"
    "set ra = {s \<in> set (t_steps (w_tbl w)). step_host s = target \<and> step_status s = ''running''}"
    using list_host_steps [OF assms(1,2), of StepStatusRunning] by (auto simp: StepStatusRunning_def)
  obtain pe where pe: "ListSteps (host_steps target StepStatusPending) (w\<lparr>w_tick := Suc (w_tick w)\<rparr>) =
      (Inr pe, w\<lparr>w_tick := Suc (Suc (w_tick w))\<rparr>)"
    "set pe = {s \<in> set (t_steps (w_tbl w)). step_host s = target \<and> step_status s = ''pending''}"
    using list_host_steps [of "w\<lparr>w_tick := Suc (w_tick w)\<rparr>" target StepStatusPending] assms(1,2)
    by (auto simp: StepStatusPending_def)
  have "0 < length ra \<longleftrightarrow> (\<exists>s\<in>set (t_steps (w_tbl w)). step_host s = target \<and> step_status s = ''running'')"
    unfolding length_greater_0_conv set_empty [symmetric] ra(2) by blast
  moreover have "0 < length pe \<longleftrightarrow> (\<exists>s\<in>set (t_steps (w_tbl w)). step_host s = target \<and> step_status s = ''pending'')"
    unfolding length_greater_0_conv set_empty [symmetric] pe(2) by blast
  moreover have "isTargetBusy target w = (Inr (0 < length ra \<or> 0 < length pe),
      if 0 < length ra then w\<lparr>w_tick := Suc (w_tick w)\<rparr> else w\<lparr>w_tick := Suc (Suc (w_tick w))\<rparr>)"
    using ra(1) pe(1) by (simp add: isTargetBusy_def)
  ultimately show ?thesis using assms(2,3) unfolding CheckAndAcquire_def
    by (cases "0 < length ra"; cases "0 < length pe") auto
qed

text \<open>
  \<^verbatim>\<open>ForceAcquire\<close> does not take over a lock that has not expired, whoever holds it and
  whoever asks: on a store that works it answers \<open>ErrLockHeld\<close> and changes nothing.
\<close>

theorem force_acquire_respects_expiry:
  assumes "quiet w" and "target \<noteq> ''''" and "owner \<noteq> ''''"
    and "lock_inv ex (w_tbl w)" and "lk_scope ex = scope target" and "w_clock w (w_tick w) < lk_expires_at ex"
  shows "\<exists>w'. ForceAcquire (Suc f) target owner ttl w = Some (Inl ErrLockHeld, w') \<and> w_tbl w' = w_tbl w"
proof -
  have "find (\<lambda>l. lk_scope l = scope target) (t_locks (w_tbl w)) = Some ex"
    using find_key_unique [of lk_scope "t_locks (w_tbl w)" ex] assms(4,5) by (simp add: lock_inv_def)
  with assms(1-3,6) show ?thesis by (simp add: time_now_def get_scope_quiet Let_def)
qed

section \<open>Witnesses\<close>

definition demo_lock :: lock_row where
  "demo_lock = \<lparr>lk_id = ''lock-x'', lk_scope = ''host:h1'', lk_owner = ''run-a'', lk_ttl_seconds = 3600,
     lk_acquired_at = 0, lk_expires_at = hour\<rparr>"

abbreviation demo_locks :: "lock_row list \<Rightarrow> world" where
  "demo_locks ls \<equiv> still_world (no_rows\<lparr>t_locks := ls\<rparr>)"

lemma demo_lock_simps [simp]:
  "lk_id demo_lock = ''lock-x''" "lk_scope demo_lock = ''host:h1''" "lk_owner demo_lock = ''run-a''"
  "lk_expires_at demo_lock = hour"
  by (simp_all add: demo_lock_def)

text \<open>A frozen clock, a driver that fails at the third effect, and another process that deletes all other locks.\<close>

definition demo_contended :: world where
  "demo_contended = (demo_locks [demo_lock])\<lparr>w_clock := (\<lambda>n. 0), w_fault := (\<lambda>n. n = 2),
     w_intf := (\<lambda>n t. t\<lparr>t_locks := filter (\<lambda>l. lk_id l = ''lock-x'') (t_locks t)\<rparr>)\<rparr>"

lemma demo_contended_held: "held_by demo_lock ''h1'' demo_contended"
  by (auto simp: held_by_def scope_def upheld_def lock_inv_def demo_contended_def still_world_def key_unique_filter)

theorem held_target_stays_held_witness:
  "held_by demo_lock ''h1'' (snd (CleanExpired demo_contended)) \<and>
   held_by demo_lock ''h1'' (snd (ManagerRelease (NewLockManager (stateLockStore 3)) ''h1'' ''run-b'' demo_contended)) \<and>
   (case ManagerAcquire demo_crypto 1 (NewLockManager (stateLockStore 3)) ''h1'' ''run-b'' demo_contended of
      None \<Rightarrow> False | Some (r, w') \<Rightarrow> held_by demo_lock ''h1'' w' \<and> isl r)"
proof -
  let ?m = "NewLockManager (stateLockStore 3)"
  have st: "lm_store ?m = stateLockStore 3" by (simp add: NewLockManager_def)
  note all = held_target_stays_held [OF demo_contended_held st, of demo_crypto 1]
  have other: "''run-b'' \<noteq> lk_owner demo_lock" by simp
  have "held_by demo_lock ''h1'' (snd (CleanExpired demo_contended))" using all by (metis prod.collapse)
  moreover have "held_by demo_lock ''h1'' (snd (ManagerRelease ?m ''h1'' ''run-b'' demo_contended))"
    using all other by (metis prod.collapse)
  moreover have "ManagerAcquire demo_crypto 1 ?m ''h1'' ''run-b'' demo_contended \<noteq> None" (is "?a \<noteq> None")
    by (simp add: ManagerAcquire_def NewLockManager_def stateLockStore_def StoreGet_def GetLockByScope_def query_def stmt_def
        demo_contended_def still_world_def scope_def time_now_def LockExpired_def fromStateLock_def zero_time_def Let_def)
  then obtain r w' where "?a = Some (r, w')" by auto
  moreover from this have "held_by demo_lock ''h1'' w' \<and> isl r" using all by blast
  ultimately show ?thesis by simp
qed

theorem acquire_release_round_trip_witness:
  "\<exists>l w1. ManagerAcquire demo_crypto 1 (NewLockManager (stateLockStore 1)) ''h2'' ''run-b'' (demo_locks [demo_lock]) =
      Some (Inr l, w1) \<and> hl_owner l = ''run-b'' \<and>
     t_locks (w_tbl (snd (ManagerRelease (NewLockManager (stateLockStore 1)) ''h2'' ''run-b'' w1))) = [demo_lock]"
proof -
  have "itoa 3 = ''3''" by code_simp
  then show ?thesis
    using acquire_release_round_trip [of "demo_locks [demo_lock]" "NewLockManager (stateLockStore 1)" 1 "''h2''" "''run-b''"
        "''run-c''" "''3''" "2 * second" demo_crypto 1 "''q''"]
    by (auto simp: NewLockManager_def DefaultTTL_def scope_def)
qed

theorem expired_lock_preempted_witness:
  "\<exists>l w'. ManagerAcquire demo_crypto 2 (NewLockManager (stateLockStore 1)) ''h1'' ''run-b''
      (demo_locks [demo_lock\<lparr>lk_expires_at := 0\<rparr>]) = Some (Inr l, w') \<and> hl_owner l = ''run-b'' \<and>
     (\<exists>a\<in>set (t_audits (w_tbl w')). au_action a = ''lock'' \<and> au_actor a = ''run-b'')"
proof -
  have "itoa 6 = ''6''" by code_simp
  then show ?thesis
    using expired_lock_preempted [of 2 "demo_locks [demo_lock\<lparr>lk_expires_at := 0\<rparr>]" "NewLockManager (stateLockStore 1)" 0
        "''h1''" "''run-b''" "demo_lock\<lparr>lk_expires_at := 0\<rparr>" "''6''" demo_crypto]
    by (force simp: NewLockManager_def DefaultTTL_def scope_def chain_ready_def no_rows_def lock_inv_def zero_time_def)
qed

definition demo_pending_step :: step_row where
  "demo_pending_step = \<lparr>step_id = ''s'', step_run_id = ''r'', step_batch_id = ''b'', step_host = ''h1'',
     step_step_name = ''x'', step_action = ''a'', step_status = ''pending'', step_exit_code = None,
     step_stdout = '''', step_stderr = '''', step_duration_ms = 0, step_started_at = None,
     step_completed_at = None, step_tenant_id = ''''\<rparr>"

theorem busy_target_refused_witness:
  "\<exists>w'. CheckAndAcquire demo_crypto 1 (NewLockManager (stateLockStore 1)) ''h1'' ''run-b''
      (still_world (no_rows\<lparr>t_steps := [demo_pending_step]\<rparr>)) = Some (Inl ErrTargetBusy, w')"
  using busy_target_refused [of "still_world (no_rows\<lparr>t_steps := [demo_pending_step]\<rparr>)" "''h1''" "''run-b''" demo_crypto 1
      "NewLockManager (stateLockStore 1)"]
  by (auto simp: demo_pending_step_def)

theorem force_acquire_respects_expiry_witness:
  "\<exists>w'. ForceAcquire 1 ''h1'' ''admin'' hour (demo_locks [demo_lock]) = Some (Inl ErrLockHeld, w')"
  using force_acquire_respects_expiry [of "demo_locks [demo_lock]" "''h1''" "''admin''" demo_lock 0 hour]
  by (auto simp: lock_inv_def scope_def)

definition demo_reaped :: world where
  "demo_reaped = (demo_locks [demo_lock\<lparr>lk_expires_at := 0\<rparr>])\<lparr>w_intf := (\<lambda>n t. if n = 3
     then t\<lparr>t_locks := filter (\<lambda>l. \<not> lk_expires_at l < 2 * second) (t_locks t)\<rparr> else t)\<rparr>"

text \<open>
  The re-read after a takeover trusts that the row is still there. With a time-to-live below
  one second the takeover stores an expiry that is already reached, another process's cleaner
  may delete the row before the re-read, and the call then dereferences a nil lock.
\<close>

theorem force_acquire_nil_dereference:
  "\<exists>w'. ForceAcquire 1 ''h1'' ''run-b'' (second div 2) demo_reaped = Some (Inl NilDereference, w')"
  by (simp add: demo_reaped_def still_world_def time_now_def GetLockByScope_def query_def stmt_def Let_def
      UpdateLockOwnedBy_def scope_def no_rows_def count_where_def eval_nat_numeral)

end
