(* ===== verification/Run_Status.thy ===== *)
theory Run_Status
  imports Prelude
begin

text \<open>
  \<^verbatim>\<open>internal/runstatus\<close>: the vocabulary of \<^verbatim>\<open>runs.status\<close> and the sets the settle paths, the
  retry and the rollback admission consult.
\<close>

definition StatusDraft :: string where "StatusDraft = ''draft''"
definition StatusPending :: string where "StatusPending = ''pending''"
definition StatusPlanned :: string where "StatusPlanned = ''planned''"
definition StatusApproved :: string where "StatusApproved = ''approved''"
definition StatusRunning :: string where "StatusRunning = ''running''"
definition StatusPaused :: string where "StatusPaused = ''paused''"
definition StatusCompleted :: string where "StatusCompleted = ''completed''"
definition StatusFailed :: string where "StatusFailed = ''failed''"
definition StatusCancelled :: string where "StatusCancelled = ''cancelled''"
definition StatusRolledBack :: string where "StatusRolledBack = ''rolled_back''"
definition StatusRolledBackPartial :: string where "StatusRolledBackPartial = ''rolled_back_partial''"
definition StatusRollbackIncomplete :: string where "StatusRollbackIncomplete = ''rollback_incomplete''"
definition StatusRejected :: string where "StatusRejected = ''rejected''"
definition StatusArchived :: string where "StatusArchived = ''archived''"
definition StatusInterrupted :: string where "StatusInterrupted = ''interrupted''"
definition StatusRollingBackLegacy :: string where "StatusRollingBackLegacy = ''rolling_back''"

lemmas status_defs = StatusDraft_def StatusPending_def StatusPlanned_def StatusApproved_def
  StatusRunning_def StatusPaused_def StatusCompleted_def StatusFailed_def StatusCancelled_def
  StatusRolledBack_def StatusRolledBackPartial_def StatusRollbackIncomplete_def StatusRejected_def
  StatusArchived_def StatusInterrupted_def StatusRollingBackLegacy_def

definition AllStatuses :: "string list" where
  "AllStatuses = [StatusDraft, StatusPending, StatusPlanned, StatusApproved, StatusRunning,
     StatusPaused, StatusCompleted, StatusFailed, StatusCancelled, StatusRolledBack,
     StatusRolledBackPartial, StatusRollbackIncomplete, StatusRejected, StatusArchived,
     StatusInterrupted]"

definition Terminal :: "string list" where
  "Terminal = [StatusCompleted, StatusFailed, StatusCancelled, StatusRolledBack,
     StatusRolledBackPartial, StatusRollbackIncomplete, StatusRejected, StatusArchived,
     StatusInterrupted]"

definition RetryAdmitted :: "string list" where
  "RetryAdmitted = [StatusFailed, StatusRolledBack, StatusRolledBackPartial,
     StatusRollbackIncomplete, StatusInterrupted]"

definition RollbackAdmitted :: "string list" where
  "RollbackAdmitted = [StatusCompleted, StatusFailed, StatusRolledBackPartial, StatusRollbackIncomplete]"

definition RollbackVerdicts :: "string list" where
  "RollbackVerdicts = [StatusRolledBack, StatusRolledBackPartial, StatusRollbackIncomplete]"

definition humanList :: "string list \<Rightarrow> string" where
  "humanList xs = (case xs of [] \<Rightarrow> '''' | [x] \<Rightarrow> x
     | _ \<Rightarrow> join_str '', '' (take (length xs - 1) xs) @ '' or '' @ xs ! (length xs - 1))"

definition JoinRetryAdmitted :: string where "JoinRetryAdmitted = humanList RetryAdmitted"
definition JoinRollbackAdmitted :: string where "JoinRollbackAdmitted = humanList RollbackAdmitted"

fun inSet :: "string list \<Rightarrow> string \<Rightarrow> bool" where
  "inSet [] s = False"
| "inSet (known # rest) s = (if s = known then True else inSet rest s)"

definition IsValid :: "string \<Rightarrow> bool" where "IsValid s = inSet AllStatuses s"
definition IsTerminal :: "string \<Rightarrow> bool" where "IsTerminal s = inSet Terminal s"
definition IsLegacyRollingBack :: "string \<Rightarrow> bool" where
  "IsLegacyRollingBack s \<longleftrightarrow> s = StatusRollingBackLegacy"
definition InRetryAdmitted :: "string \<Rightarrow> bool" where "InRetryAdmitted s = inSet RetryAdmitted s"
definition InRollbackAdmitted :: "string \<Rightarrow> bool" where "InRollbackAdmitted s = inSet RollbackAdmitted s"
definition IsRollbackVerdict :: "string \<Rightarrow> bool" where "IsRollbackVerdict s = inSet RollbackVerdicts s"

lemma inSet_iff [simp]: "inSet xs s \<longleftrightarrow> s \<in> set xs"
  by (induction xs) auto

text \<open>
  The status sets fit together for every string: what retry or rollback admits and every
  rollback verdict is a terminal status, every terminal status is a known one; a known status
  is terminal exactly when it is none of the six a live run moves through; retry admits what a
  rollback left behind; and a status of the retired spelling is not part of the vocabulary.
\<close>

theorem status_sets:
  "(InRetryAdmitted s \<longrightarrow> IsTerminal s) \<and> (InRollbackAdmitted s \<longrightarrow> IsTerminal s) \<and>
   (IsRollbackVerdict s \<longrightarrow> InRetryAdmitted s) \<and> (IsTerminal s \<longrightarrow> IsValid s) \<and>
   (IsValid s \<longrightarrow> (IsTerminal s \<longleftrightarrow> s \<notin> {StatusDraft, StatusPending, StatusPlanned, StatusApproved,
      StatusRunning, StatusPaused})) \<and>
   (IsLegacyRollingBack s \<longrightarrow> \<not> IsValid s)"
  by (auto simp: IsValid_def IsTerminal_def InRetryAdmitted_def InRollbackAdmitted_def
      IsRollbackVerdict_def IsLegacyRollingBack_def AllStatuses_def Terminal_def RetryAdmitted_def
      RollbackAdmitted_def RollbackVerdicts_def status_defs)

theorem status_sets_witness:
  "InRetryAdmitted StatusFailed \<and> IsTerminal StatusFailed \<and> \<not> IsTerminal StatusRunning"
  using status_sets [of StatusFailed] status_sets [of StatusRunning]
  by (simp add: InRetryAdmitted_def RetryAdmitted_def IsTerminal_def Terminal_def status_defs)

end
