(* ===== verification/Pause.thy ===== *)
theory Pause
  imports Audit_Chain Run_Status
begin

text \<open>
  \<^verbatim>\<open>internal/pause\<close>: pausing and resuming one run or all of them, with the permission check of
  the global operations and the audit entries each writes; and the denial recorder of
  \<^verbatim>\<open>internal/audit/denial.go\<close> the checker is wired to. \<open>None\<close> is the audit chain's page loop
  out of fuel; on a store that works, more fuel than the log has rows (one more per entry
  written) is enough, and the theorems say so.
\<close>

datatype pause_error =
    ErrRunNotFound
  | ErrNotPausable
  | ErrNotResumable
  | ErrPermissionDenied
  | ErrPauseEmptyRunID
  | ErrEmptyActor
  | ErrPauseID
  | PauseStore store_error
  | PauseAudit audit_error

definition pausableStates :: "string list" where
  "pausableStates = [StatusRunning, StatusPending]"

definition resumableStates :: "string list" where
  "resumableStates = [StatusPaused]"

definition ActionPause :: string where "ActionPause = ''pause''"
definition ActionResume :: string where "ActionResume = ''resume''"
definition ActionPauseAll :: string where "ActionPauseAll = ''pause_all''"
definition ActionResumeAll :: string where "ActionResumeAll = ''resume_all''"
definition TargetAll :: string where "TargetAll = ''*''"
definition ResultSuccess :: string where "ResultSuccess = ''success''"
definition ResultFailed :: string where "ResultFailed = ''failed''"
definition ResultDenied :: string where "ResultDenied = ''denied''"
definition ActionPermissionDenied :: string where "ActionPermissionDenied = ''permission.denied''"
definition PermissionPauseAll :: string where "PermissionPauseAll = ''pause:all''"
definition PermissionResumeAll :: string where "PermissionResumeAll = ''resume:all''"

section \<open>Audit entries\<close>

definition newPauseID :: "world \<Rightarrow> string option \<times> world" where
  "newPauseID w = (case rand_read w of (None, w1) \<Rightarrow> (None, w1) | (Some r, w1) \<Rightarrow> (Some (''pause-'' @ r), w1))"

definition writeAudit ::
    "crypto \<Rightarrow> nat \<Rightarrow> string \<Rightarrow> string \<Rightarrow> string \<Rightarrow> string \<Rightarrow> string \<Rightarrow> world \<Rightarrow> (pause_error option \<times> world) option" where
  "writeAudit c fuel action actor target result rid w = (case newPauseID w of
     (None, w1) \<Rightarrow> Some (Some ErrPauseID, w1)
   | (Some i, w1) \<Rightarrow>
      (case time_now w1 of (now, w2) \<Rightarrow>
       case Record c fuel \<lparr>au_id = i, au_run_id = rid, au_action = action, au_actor = actor,
              au_target = target, au_result = result, au_tenant_id = '''', au_prev_hash = '''',
              au_curr_hash = '''', au_timestamp = now\<rparr> w2 of
         None \<Rightarrow> None
       | Some (Inl e, w3) \<Rightarrow> Some (Some (PauseAudit e), w3)
       | Some (Inr _, w3) \<Rightarrow> Some (None, w3)))"

definition DenialTarget :: "string \<Rightarrow> string \<Rightarrow> string" where
  "DenialTarget action env = (if env = '''' then action else action @ ''@'' @ env)"

definition denialRecorder :: "crypto \<Rightarrow> nat \<Rightarrow> string \<Rightarrow> string \<Rightarrow> string \<Rightarrow> world \<Rightarrow> world option" where
  "denialRecorder c fuel actor action env w = (case rand_read w of
     (None, w1) \<Rightarrow> Some w1
   | (Some i, w1) \<Rightarrow>
      (case time_now w1 of (now, w2) \<Rightarrow>
       case Record c fuel \<lparr>au_id = i, au_run_id = '''', au_action = ActionPermissionDenied, au_actor = actor,
              au_target = DenialTarget action env, au_result = ResultDenied, au_tenant_id = '''',
              au_prev_hash = '''', au_curr_hash = '''', au_timestamp = now\<rparr> w2 of
         None \<Rightarrow> None | Some (_, w3) \<Rightarrow> Some w3))"

section \<open>The permission checker\<close>

text \<open>A checker decides and may record; \<^verbatim>\<open>SimplePermissionChecker\<close> is a map with a deny hook.\<close>

type_synonym permission_checker = "string \<Rightarrow> string \<Rightarrow> world \<Rightarrow> (bool \<times> world) option"

record simple_checker =
  sc_perms :: "string \<Rightarrow> string list"
  sc_on_deny :: "(string \<Rightarrow> string \<Rightarrow> world \<Rightarrow> world option) option"

definition SetDenyRecorder ::
    "(string \<Rightarrow> string \<Rightarrow> world \<Rightarrow> world option) option \<Rightarrow> simple_checker option \<Rightarrow> simple_checker option" where
  "SetDenyRecorder fn ck = (if ck = None \<or> fn = None then ck else Some ((the ck)\<lparr>sc_on_deny := fn\<rparr>))"

definition HasPermission :: "simple_checker option \<Rightarrow> permission_checker" where
  "HasPermission ck actor permission w = (case ck of
     None \<Rightarrow> Some (False, w)
   | Some sc \<Rightarrow>
      if permission \<in> set (sc_perms sc actor) then Some (True, w)
      else (case sc_on_deny sc of
          None \<Rightarrow> Some (False, w)
        | Some rec \<Rightarrow> (case rec actor permission w of None \<Rightarrow> None | Some w1 \<Rightarrow> Some (False, w1))))"

definition NewDenialAuditRecorder :: "crypto \<Rightarrow> nat \<Rightarrow> string \<Rightarrow> string \<Rightarrow> world \<Rightarrow> world option" where
  "NewDenialAuditRecorder c fuel actor permission w = denialRecorder c fuel actor permission '''' w"

section \<open>One run\<close>

definition transitionOne ::
    "crypto \<Rightarrow> nat \<Rightarrow> string \<Rightarrow> string \<Rightarrow> string \<Rightarrow> string list \<Rightarrow> string \<Rightarrow> pause_error \<Rightarrow> world \<Rightarrow>
      (pause_error option \<times> world) option" where
  "transitionOne c fuel action rid actor allowed target stateErr w = (case GetRun rid w of
     (Inl e, w1) \<Rightarrow> Some (Some (PauseStore e), w1)
   | (Inr None, w1) \<Rightarrow> Some (Some ErrRunNotFound, w1)
   | (Inr (Some run), w1) \<Rightarrow>
      if run_status run \<notin> set allowed then Some (Some stateErr, w1)
      else (case time_now w1 of (now, w2) \<Rightarrow>
        (case UpdateRun (run\<lparr>run_status := target, run_updated_at := now\<rparr>) w2 of
           (Inl e, w3) \<Rightarrow> Some (Some (PauseStore e), w3)
         | (Inr _, w3) \<Rightarrow>
            (case writeAudit c fuel action actor rid ResultSuccess rid w3 of
               None \<Rightarrow> None | Some (_, w4) \<Rightarrow> Some (None, w4)))))"

definition PauseRun :: "crypto \<Rightarrow> nat \<Rightarrow> string \<Rightarrow> string \<Rightarrow> world \<Rightarrow> (pause_error option \<times> world) option" where
  "PauseRun c fuel rid actor w =
     (if rid = '''' then Some (Some ErrPauseEmptyRunID, w)
      else if actor = '''' then Some (Some ErrEmptyActor, w)
      else transitionOne c fuel ActionPause rid actor pausableStates StatusPaused ErrNotPausable w)"

definition ResumeRun :: "crypto \<Rightarrow> nat \<Rightarrow> string \<Rightarrow> string \<Rightarrow> world \<Rightarrow> (pause_error option \<times> world) option" where
  "ResumeRun c fuel rid actor w =
     (if rid = '''' then Some (Some ErrPauseEmptyRunID, w)
      else if actor = '''' then Some (Some ErrEmptyActor, w)
      else transitionOne c fuel ActionResume rid actor resumableStates StatusRunning ErrNotResumable w)"

section \<open>All runs\<close>

record pause_result =
  pr_action :: string
  pr_affected :: "string list"
  pr_failed :: "(string \<times> store_error) list"

fun add_unseen :: "run_row list \<Rightarrow> run_row list \<Rightarrow> run_row list" where
  "add_unseen runs [] = runs"
| "add_unseen runs (r # rs) =
     (if run_id r \<in> run_id ` set runs then add_unseen runs rs else add_unseen (runs @ [r]) rs)"

fun collect_runs :: "string list \<Rightarrow> run_row list \<Rightarrow> run_row list op" where
  "collect_runs [] runs w = (Inr runs, w)"
| "collect_runs (st # sts) runs w = (case ListRuns (empty_run_filter\<lparr>rf_status := st\<rparr>) w of
     (Inl e, w1) \<Rightarrow> (Inl e, w1)
   | (Inr rs, w1) \<Rightarrow> collect_runs sts (add_unseen runs rs) w1)"

fun transition_loop ::
    "crypto \<Rightarrow> nat \<Rightarrow> string \<Rightarrow> string \<Rightarrow> string \<Rightarrow> run_row list \<Rightarrow> pause_result \<Rightarrow> world \<Rightarrow> (pause_result \<times> world) option" where
  "transition_loop c fuel action actor target [] res w = Some (res, w)"
| "transition_loop c fuel action actor target (run # runs) res w = (case time_now w of (now, w1) \<Rightarrow>
     (case UpdateRun (run\<lparr>run_status := target, run_updated_at := now\<rparr>) w1 of
        (Inl e, w2) \<Rightarrow>
          (case writeAudit c fuel action actor (run_id run) ResultFailed (run_id run) w2 of
             None \<Rightarrow> None
           | Some (_, w3) \<Rightarrow> transition_loop c fuel action actor target runs
               (res\<lparr>pr_failed := pr_failed res @ [(run_id run, e)]\<rparr>) w3)
      | (Inr _, w2) \<Rightarrow>
          (case writeAudit c fuel action actor (run_id run) ResultSuccess (run_id run) w2 of
             None \<Rightarrow> None
           | Some (_, w3) \<Rightarrow> transition_loop c fuel action actor target runs
               (res\<lparr>pr_affected := pr_affected res @ [run_id run]\<rparr>) w3)))"

definition transitionAll ::
    "crypto \<Rightarrow> nat \<Rightarrow> string \<Rightarrow> string \<Rightarrow> string \<Rightarrow> string list \<Rightarrow> world \<Rightarrow> ((pause_error + pause_result) \<times> world) option" where
  "transitionAll c fuel action actor target sourceStatuses w = (case collect_runs sourceStatuses [] w of
     (Inl e, w1) \<Rightarrow> Some (Inl (PauseStore e), w1)
   | (Inr runs, w1) \<Rightarrow>
      (case transition_loop c fuel action actor target runs
              \<lparr>pr_action = action, pr_affected = [], pr_failed = []\<rparr> w1 of
         None \<Rightarrow> None
       | Some (res, w2) \<Rightarrow>
          (case writeAudit c fuel action actor TargetAll
                  (if length (pr_failed res) > 0 then ResultFailed else ResultSuccess) '''' w2 of
             None \<Rightarrow> None | Some (_, w3) \<Rightarrow> Some (Inr res, w3))))"

definition PauseAll ::
    "crypto \<Rightarrow> nat \<Rightarrow> string \<Rightarrow> permission_checker option \<Rightarrow> world \<Rightarrow> ((pause_error + pause_result) \<times> world) option" where
  "PauseAll c fuel actor perm w =
     (if actor = '''' then Some (Inl ErrEmptyActor, w)
      else case perm of
        None \<Rightarrow> Some (Inl ErrPermissionDenied, w)
      | Some has \<Rightarrow>
         (case has actor PermissionPauseAll w of
            None \<Rightarrow> None
          | Some (ok, w1) \<Rightarrow>
             if \<not> ok then Some (Inl ErrPermissionDenied, w1)
             else transitionAll c fuel ActionPauseAll actor StatusPaused [StatusRunning, StatusPending] w1))"

definition ResumeAll ::
    "crypto \<Rightarrow> nat \<Rightarrow> string \<Rightarrow> permission_checker option \<Rightarrow> world \<Rightarrow> ((pause_error + pause_result) \<times> world) option" where
  "ResumeAll c fuel actor perm w =
     (if actor = '''' then Some (Inl ErrEmptyActor, w)
      else case perm of
        None \<Rightarrow> Some (Inl ErrPermissionDenied, w)
      | Some has \<Rightarrow>
         (case has actor PermissionResumeAll w of
            None \<Rightarrow> None
          | Some (ok, w1) \<Rightarrow>
             if \<not> ok then Some (Inl ErrPermissionDenied, w1)
             else transitionAll c fuel ActionResumeAll actor StatusRunning [StatusPaused] w1))"

section \<open>Entries on a store that works\<close>

text \<open>The store changed in the audit table and the counter only, and the log is still usable.\<close>

definition only_log :: "nat \<Rightarrow> nat \<Rightarrow> world \<Rightarrow> world \<Rightarrow> bool" where
  "only_log fuel k w w' \<longleftrightarrow> (\<exists>A n. w' = w\<lparr>w_tbl := (w_tbl w)\<lparr>t_audits := A\<rparr>, w_tick := n\<rparr> \<and>
     chain_ready fuel w' \<and> length A \<le> length (t_audits (w_tbl w)) + k)"

lemma only_log_tick: "chain_ready fuel w \<Longrightarrow> only_log fuel 0 w (w\<lparr>w_tick := n\<rparr>)"
  unfolding only_log_def
  by (rule exI [of _ "t_audits (w_tbl w)"], rule exI [of _ n]) (simp add: chain_ready_def)

lemma record_log:
  assumes "chain_ready fuel w" and "Suc (length (t_audits (w_tbl w))) < fuel"
  shows "\<exists>r w'. Record c fuel a w = Some (r, w') \<and> only_log fuel 1 w w'"
proof (cases "au_id a \<in> au_id ` set (t_audits (w_tbl w))")
  case True
  let ?w = "w\<lparr>w_tick := Suc (w_tick w)\<rparr>"
  have "Record c fuel a w = Some (Inl (AuditStore UniqueViolation), ?w)"
    using assms(1) True by (simp add: Record_def CreateAudit_def stmt_quiet chain_ready_def)
  moreover have "only_log fuel 1 w ?w" using only_log_tick [OF assms(1)] by (fastforce simp: only_log_def)
  ultimately show ?thesis by blast
next
  case False
  from Record_ready [OF assms False, of c] obtain w' A n where
    "Record c fuel a w = Some (Inr (), w')" and w': "w' = w\<lparr>w_tbl := (w_tbl w)\<lparr>t_audits := A\<rparr>, w_tick := n\<rparr>"
    "chain_ready fuel w'" and A: "mset (map unlinked A) = mset (map unlinked (a # t_audits (w_tbl w)))" by blast
  moreover have "only_log fuel 1 w w'" using w' Record_ready_entry(1) [OF A] unfolding only_log_def by auto
  ultimately show ?thesis by blast
qed

lemma only_log_from_tick: "only_log fuel k (w\<lparr>w_tick := n\<rparr>) w' \<Longrightarrow> only_log fuel k w w'"
  by (auto simp: only_log_def)

lemma write_audit_log:
  assumes "chain_ready fuel w" and "Suc (length (t_audits (w_tbl w))) < fuel"
  shows "\<exists>r w'. writeAudit c fuel action actor target result rid w = Some (r, w') \<and> only_log fuel 1 w w'"
proof (cases "w_rand w (w_tick w)")
  case None
  let ?w = "w\<lparr>w_tick := Suc (w_tick w)\<rparr>"
  have "only_log fuel 1 w ?w" using only_log_tick [OF assms(1)] by (fastforce simp: only_log_def)
  with None show ?thesis by (simp add: writeAudit_def newPauseID_def rand_read_def)
next
  case (Some i)
  let ?w2 = "w\<lparr>w_tick := Suc (Suc (w_tick w))\<rparr>"
  let ?a = "\<lparr>au_id = ''pause-'' @ i, au_run_id = rid, au_action = action, au_actor = actor,
      au_target = target, au_result = result, au_tenant_id = '''', au_prev_hash = '''',
      au_curr_hash = '''', au_timestamp = w_clock w (Suc (w_tick w))\<rparr>"
  have "chain_ready fuel ?w2" using assms(1) by (simp add: chain_ready_def)
  with record_log [of fuel ?w2 c ?a] assms(2) obtain r w' where
    "Record c fuel ?a ?w2 = Some (r, w')" "only_log fuel 1 ?w2 w'" by auto
  with Some only_log_from_tick show ?thesis
    by (cases r) (auto simp: writeAudit_def newPauseID_def rand_read_def time_now_def)
qed

section \<open>Transitions on a store that works\<close>

definition set_status :: "string \<Rightarrow> time \<Rightarrow> run_row \<Rightarrow> run_row" where
  "set_status st at r = r\<lparr>run_status := st, run_updated_at := at\<rparr>"

lemma set_status_fun: "set_status st at = (\<lambda>r. r\<lparr>run_status := st, run_updated_at := at\<rparr>)"
  by (simp add: fun_eq_iff set_status_def)

lemma set_status_id [simp]: "run_id (set_status st at r) = run_id r"
  by (simp add: set_status_def)

text \<open>\<open>usable fuel k w\<close>: a quiet store with unique run and audit ids, and fuel for \<open>k\<close> more entries.\<close>

definition usable :: "nat \<Rightarrow> nat \<Rightarrow> world \<Rightarrow> bool" where
  "usable fuel k w \<longleftrightarrow> chain_ready fuel w \<and> length (t_audits (w_tbl w)) + k < fuel \<and>
     key_unique run_id (t_runs (w_tbl w))"

lemma usableD:
  assumes "usable fuel k w"
  shows "quiet w" "chain_ready fuel w" "key_unique run_id (t_runs (w_tbl w))"
  using assms by (simp_all add: usable_def chain_ready_def)

lemma only_log_usable:
  assumes "only_log fuel j w w'" and "usable fuel (j + k) w"
  shows "usable fuel k w'" "t_runs (w_tbl w') = t_runs (w_tbl w)"
  using assms by (auto simp: only_log_def usable_def)

lemma usable_tick [simp]: "usable fuel k (w\<lparr>w_tick := n\<rparr>) = usable fuel k w"
  by (simp add: usable_def chain_ready_def)

text \<open>Writing back the row that was read changes the columns that were set and no other.\<close>

lemma update_run_quiet:
  assumes "usable fuel k w" and "r \<in> set (t_runs (w_tbl w))"
  shows "\<exists>w'. UpdateRun (set_status st at r) w = (Inr (), w') \<and> usable fuel k w' \<and>
    t_runs (w_tbl w') = update_where (\<lambda>x. run_id x = run_id r) (set_status st at) (t_runs (w_tbl w)) \<and>
    t_audits (w_tbl w') = t_audits (w_tbl w)"
proof -
  let ?T = "t_runs (w_tbl w)"
  note u = usableD [OF assms(1)]
  have "set_run (set_status st at r) x = set_status st at x" if "x \<in> set ?T" "run_id x = run_id r" for x
    unfolding key_unique_eq [OF u(3) that(1) assms(2) that(2)] by (simp add: set_run_def set_status_def)
  then have eq: "update_where (\<lambda>x. run_id x = run_id r) (set_run (set_status st at r)) ?T =
      update_where (\<lambda>x. run_id x = run_id r) (set_status st at) ?T"
    by (simp add: update_where_def)
  have "\<exists>x\<in>set ?T. run_id x = run_id r" using assms(2) by blast
  then have "UpdateRun (set_status st at r) w = (Inr (), w\<lparr>w_tbl := (w_tbl w)\<lparr>t_runs :=
      update_where (\<lambda>x. run_id x = run_id r) (set_status st at) ?T\<rparr>, w_tick := Suc (w_tick w)\<rparr>)"
    using u(1) eq by (simp add: UpdateRun_def stmt_quiet)
  then show ?thesis using assms(1) by (auto simp: usable_def chain_ready_def)
qed

lemma transitionOne_quiet:
  assumes "usable fuel (1 + k) w"
  shows "case find (\<lambda>r. run_id r = rid) (t_runs (w_tbl w)) of
    None \<Rightarrow> \<exists>w'. transitionOne c fuel action rid actor allowed target err w = Some (Some ErrRunNotFound, w') \<and> w_tbl w' = w_tbl w
  | Some run \<Rightarrow> if run_status run \<in> set allowed
      then \<exists>w' at. transitionOne c fuel action rid actor allowed target err w = Some (None, w') \<and> usable fuel k w' \<and>
        t_runs (w_tbl w') = update_where (\<lambda>r. run_id r = rid) (set_status target at) (t_runs (w_tbl w))
      else \<exists>w'. transitionOne c fuel action rid actor allowed target err w = Some (Some err, w') \<and> w_tbl w' = w_tbl w"
proof (cases "find (\<lambda>r. run_id r = rid) (t_runs (w_tbl w))")
  case None
  then show ?thesis using usableD(1) [OF assms] by (simp add: transitionOne_def GetRun_def query_quiet)
next
  case (Some run)
  let ?w2 = "w\<lparr>w_tick := Suc (Suc (w_tick w))\<rparr>" and ?at = "w_clock w (Suc (w_tick w))"
  from find_key_Some [OF Some] have run: "run \<in> set (t_runs (w_tbl w))" "run_id run = rid" by auto
  have u2: "usable fuel (1 + k) ?w2" using assms by simp
  from update_run_quiet [OF u2, of run target ?at] run obtain w3 where
    upd: "UpdateRun (set_status target ?at run) ?w2 = (Inr (), w3)" "usable fuel (1 + k) w3"
    "t_runs (w_tbl w3) = update_where (\<lambda>r. run_id r = rid) (set_status target ?at) (t_runs (w_tbl w))" by auto
  from write_audit_log [of fuel w3] upd(2) obtain r w4 where
    wr: "writeAudit c fuel action actor rid ResultSuccess rid w3 = Some (r, w4)" "only_log fuel 1 w3 w4"
    by (fastforce simp: usable_def)
  note u4 = only_log_usable [OF wr(2) upd(2)]
  show ?thesis
    using Some usableD(1) [OF assms] upd(1,3) wr(1) u4
    by (auto simp: transitionOne_def GetRun_def query_quiet time_now_def set_status_def)
qed

section \<open>Collecting the runs\<close>

lemma add_unseen_distinct:
  assumes "\<And>x. x \<in> set xs \<Longrightarrow> run_id x \<notin> run_id ` set runs" and "key_unique run_id xs"
  shows "add_unseen runs xs = runs @ xs"
  using assms
proof (induction xs arbitrary: runs)
  case (Cons x xs)
  then have "add_unseen (runs @ [x]) xs = (runs @ [x]) @ xs" by (intro Cons.IH) (auto simp: image_iff)
  with Cons.prems(1) [of x] show ?case by simp
qed simp

lemma list_status_quiet:
  assumes "quiet w" and "st \<noteq> ''''"
  shows "ListRuns (empty_run_filter\<lparr>rf_status := st\<rparr>) w = (Inr (sort_key (\<lambda>r. - run_created_at r)
    (filter (\<lambda>r. run_status r = st) (t_runs (w_tbl w)))), w\<lparr>w_tick := Suc (w_tick w)\<rparr>)"
  using assms
  by (simp add: ListRuns_def stmt_quiet empty_run_filter_def limit_rows_def run_matches_def [abs_def] opt_eq_def)

lemma collect_quiet:
  assumes "quiet w" and "key_unique run_id (t_runs (w_tbl w))" and "distinct sts" and "'''' \<notin> set sts"
    and "\<forall>x\<in>set runs. run_status x \<notin> set sts \<and> x \<in> set (t_runs (w_tbl w))" and "key_unique run_id runs"
  shows "\<exists>rs n. collect_runs sts runs w = (Inr rs, w\<lparr>w_tick := n\<rparr>) \<and> key_unique run_id rs \<and>
    set rs = set runs \<union> {r \<in> set (t_runs (w_tbl w)). run_status r \<in> set sts}"
  using assms
proof (induction sts arbitrary: runs w)
  case Nil
  then show ?case by (auto intro!: exI [of _ "w_tick w"])
next
  case (Cons st sts)
  let ?T = "t_runs (w_tbl w)"
  let ?new = "sort_key (\<lambda>r. - run_created_at r) (filter (\<lambda>r. run_status r = st) ?T)"
  let ?w1 = "w\<lparr>w_tick := Suc (w_tick w)\<rparr>"
  have ku: "key_unique run_id ?new"
    using key_unique_filter [OF Cons.prems(2)] by (simp add: key_unique_def distinct_map)
  have fresh: "run_id x \<notin> run_id ` set runs" if "x \<in> set ?new" for x
  proof
    assume "run_id x \<in> run_id ` set runs"
    then obtain y where "y \<in> set runs" "run_id x = run_id y" by auto
    with that Cons.prems(5) key_unique_eq [OF Cons.prems(2), of x y] show False by auto
  qed
  have add: "add_unseen runs ?new = runs @ ?new" using fresh ku by (rule add_unseen_distinct)
  have ku': "key_unique run_id (runs @ ?new)"
    unfolding key_unique_append using Cons.prems(6) ku fresh by blast
  have "\<forall>x\<in>set (runs @ ?new). run_status x \<notin> set sts \<and> x \<in> set (t_runs (w_tbl ?w1))"
    using Cons.prems(3,5) by auto
  from Cons.IH [OF _ _ _ _ this ku'] Cons.prems(1-4)
  obtain rs n where rs: "collect_runs sts (runs @ ?new) ?w1 = (Inr rs, ?w1\<lparr>w_tick := n\<rparr>)" "key_unique run_id rs"
    "set rs = set (runs @ ?new) \<union> {r \<in> set ?T. run_status r \<in> set sts}" by auto
  have "collect_runs (st # sts) runs w = (Inr rs, w\<lparr>w_tick := n\<rparr>)"
    using Cons.prems(4) add list_status_quiet [OF Cons.prems(1), of st] rs(1) by fastforce
  moreover have "set rs = set runs \<union> {r \<in> set ?T. run_status r \<in> set (st # sts)}" using rs(3) by auto
  ultimately show ?case using rs(2) by blast
qed

text \<open>What the loop leaves: the runs with the given ids have the new status, the others are as before.\<close>

definition moved :: "string \<Rightarrow> string set \<Rightarrow> run_row list \<Rightarrow> run_row list \<Rightarrow> bool" where
  "moved st ids T T' \<longleftrightarrow> list_all2 (\<lambda>x y. if run_id x \<in> ids then \<exists>at. y = set_status st at x else y = x) T T'"

lemma moved_one:
  assumes "moved st ids T T'" and "r \<in> set T" and "run_id r \<notin> ids"
  shows "moved st (insert (run_id r) ids) T (update_where (\<lambda>x. run_id x = run_id r) (set_status st at) T')"
  using assms(1,3) unfolding moved_def update_where_def list.rel_map
  by (elim list_all2_mono) (auto simp: set_status_def)

lemma moved_kept:
  assumes "moved st ids T T'" and "r \<in> set T" and "run_id r \<notin> ids"
  shows "r \<in> set T'"
proof -
  from assms(2) obtain i where i: "i < length T" "T ! i = r" by (auto simp: in_set_conv_nth)
  with assms(1,3) have "T' ! i = r" "i < length T'" by (auto simp: moved_def list_all2_conv_all_nth)
  then show ?thesis using nth_mem by blast
qed

lemma transition_loop_quiet:
  assumes "usable fuel (length runs + k) w" and "moved st ids T (t_runs (w_tbl w))" and "key_unique run_id runs"
    and "set runs \<subseteq> set T" and "run_id ` set runs \<inter> ids = {}" and "key_unique run_id T"
  shows "\<exists>w'. transition_loop c fuel action actor st runs res w =
      Some (res\<lparr>pr_affected := pr_affected res @ map run_id runs\<rparr>, w') \<and> usable fuel k w' \<and>
    moved st (ids \<union> run_id ` set runs) T (t_runs (w_tbl w'))"
  using assms
proof (induction runs arbitrary: w ids res)
  case (Cons run runs)
  let ?w1 = "w\<lparr>w_tick := Suc (w_tick w)\<rparr>" and ?at = "w_clock w (w_tick w)"
  have same: "run \<in> set (t_runs (w_tbl w))" using moved_kept [OF Cons.prems(2)] Cons.prems(4,5) by simp
  have u1: "usable fuel (1 + (length runs + k)) ?w1" using Cons.prems(1) by simp
  from update_run_quiet [OF u1, of run st ?at] same obtain w2 where
    upd: "UpdateRun (set_status st ?at run) ?w1 = (Inr (), w2)" "usable fuel (1 + (length runs + k)) w2"
    "t_runs (w_tbl w2) = update_where (\<lambda>r. run_id r = run_id run) (set_status st ?at) (t_runs (w_tbl w))" by auto
  from write_audit_log [of fuel w2] upd(2) obtain r w3 where
    wr: "writeAudit c fuel action actor (run_id run) ResultSuccess (run_id run) w2 = Some (r, w3)" "only_log fuel 1 w2 w3"
    by (fastforce simp: usable_def)
  note u3 = only_log_usable [OF wr(2) upd(2)]
  have "moved st (insert (run_id run) ids) T (t_runs (w_tbl w3))"
    using moved_one [OF Cons.prems(2), of run ?at] Cons.prems(4,5) by (simp add: u3(2) upd(3))
  from Cons.IH [OF u3(1) this, of "res\<lparr>pr_affected := pr_affected res @ [run_id run]\<rparr>"] Cons.prems(3-6)
  obtain w' where "transition_loop c fuel action actor st runs (res\<lparr>pr_affected := pr_affected res @ [run_id run]\<rparr>) w3 =
      Some (res\<lparr>pr_affected := pr_affected res @ map run_id (run # runs)\<rparr>, w')" "usable fuel k w'"
    "moved st (insert (run_id run) ids \<union> run_id ` set runs) T (t_runs (w_tbl w'))" by auto
  moreover have "insert (run_id run) ids \<union> run_id ` set runs = ids \<union> run_id ` set (run # runs)" by auto
  ultimately show ?case using upd(1) wr(1) by (simp add: time_now_def set_status_def)
qed simp

lemma list_all2_right_member:
  assumes "list_all2 P xs ys" and "y \<in> set ys"
  shows "\<exists>x. P x y"
  using assms by (induction rule: list_all2_induct) auto

section \<open>Properties\<close>

text \<open>
  Pausing one run, every outcome, on a store that works: an unknown run is
  \<open>ErrRunNotFound\<close>, a run that is neither running nor pending is \<open>ErrNotPausable\<close>, both with
  the database untouched; otherwise the call succeeds and exactly that run's status and update
  time changed.
\<close>

theorem PauseRun_outcomes:
  assumes "usable fuel 1 w" and "rid \<noteq> ''''" and "actor \<noteq> ''''"
  shows "case find (\<lambda>r. run_id r = rid) (t_runs (w_tbl w)) of
    None \<Rightarrow> \<exists>w'. PauseRun c fuel rid actor w = Some (Some ErrRunNotFound, w') \<and> w_tbl w' = w_tbl w
  | Some run \<Rightarrow> if run_status run \<in> {''running'', ''pending''}
      then \<exists>w' at. PauseRun c fuel rid actor w = Some (None, w') \<and>
        t_runs (w_tbl w') = update_where (\<lambda>r. run_id r = rid)
          (\<lambda>r. r\<lparr>run_status := ''paused'', run_updated_at := at\<rparr>) (t_runs (w_tbl w))
      else \<exists>w'. PauseRun c fuel rid actor w = Some (Some ErrNotPausable, w') \<and> w_tbl w' = w_tbl w"
proof -
  have "PauseRun c fuel rid actor w =
      transitionOne c fuel ActionPause rid actor [''running'', ''pending''] ''paused'' ErrNotPausable w"
    using assms(2,3) by (simp add: PauseRun_def pausableStates_def StatusRunning_def StatusPending_def StatusPaused_def)
  then show ?thesis
    using transitionOne_quiet [of fuel 0 w c ActionPause rid actor "[''running'', ''pending'']" "''paused''" ErrNotPausable] assms(1)
    unfolding set_status_fun by (cases "find (\<lambda>r. run_id r = rid) (t_runs (w_tbl w))") (auto split: if_splits)
qed

text \<open>
  Pausing a running or pending run and resuming it, on a store that works: both succeed and
  the run is running again with every column but its update time as it was; a run that was
  pending is thereby running too, which is the one thing a round trip does not restore.
\<close>

theorem pause_then_resume:
  assumes "usable fuel 2 w" and "rid \<noteq> ''''" and "a \<noteq> ''''" and "b \<noteq> ''''"
    and "run \<in> set (t_runs (w_tbl w))" and "run_id run = rid" and "run_status run \<in> {''running'', ''pending''}"
  shows "\<exists>w1 w2 at. PauseRun c fuel rid a w = Some (None, w1) \<and> ResumeRun c fuel rid b w1 = Some (None, w2) \<and>
    t_runs (w_tbl w2) = update_where (\<lambda>r. run_id r = rid)
      (\<lambda>r. r\<lparr>run_status := ''running'', run_updated_at := at\<rparr>) (t_runs (w_tbl w))"
proof -
  let ?T = "t_runs (w_tbl w)"
  have found: "find (\<lambda>r. run_id r = rid) ?T = Some run"
    using find_key_unique [OF usableD(3) [OF assms(1)] assms(5)] assms(6) by simp
  have pause: "PauseRun c fuel rid a v =
      transitionOne c fuel ActionPause rid a [''running'', ''pending''] ''paused'' ErrNotPausable v" for v
    using assms(2,3) by (simp add: PauseRun_def pausableStates_def StatusRunning_def StatusPending_def StatusPaused_def)
  have resume: "ResumeRun c fuel rid b v =
      transitionOne c fuel ActionResume rid b [''paused''] ''running'' ErrNotResumable v" for v
    using assms(2,4) by (simp add: ResumeRun_def resumableStates_def StatusRunning_def StatusPaused_def)
  obtain w1 at1 where w1: "PauseRun c fuel rid a w = Some (None, w1)" "usable fuel 1 w1"
    "t_runs (w_tbl w1) = update_where (\<lambda>r. run_id r = rid) (set_status ''paused'' at1) ?T"
    using transitionOne_quiet [of fuel 1 w c ActionPause rid a "[''running'', ''pending'']" "''paused''" ErrNotPausable]
      assms(1,7) found unfolding pause by (auto simp: numeral_2_eq_2)
  have found1: "find (\<lambda>r. run_id r = rid) (t_runs (w_tbl w1)) = Some (set_status ''paused'' at1 run)"
    unfolding w1(3) using found assms(6) by (subst find_update_where) simp_all
  obtain w2 at2 where w2: "ResumeRun c fuel rid b w1 = Some (None, w2)"
    "t_runs (w_tbl w2) = update_where (\<lambda>r. run_id r = rid) (set_status ''running'' at2) (t_runs (w_tbl w1))"
    using transitionOne_quiet [of fuel 0 w1 c ActionResume rid b "[''paused'']" "''running''" ErrNotResumable]
      w1(2) found1 unfolding resume by (auto simp: set_status_def)
  have "update_where (\<lambda>r. run_id r = rid) (set_status ''running'' at2)
      (update_where (\<lambda>r. run_id r = rid) (set_status ''paused'' at1) ?T) =
      update_where (\<lambda>r. run_id r = rid) (set_status ''running'' at2) ?T"
    by (simp add: update_where_def set_status_def)
  with w1 w2 have "t_runs (w_tbl w2) = update_where (\<lambda>r. run_id r = rid)
      (\<lambda>r. r\<lparr>run_status := ''running'', run_updated_at := at2\<rparr>) ?T" by (simp add: set_status_fun)
  with w1(1) w2(1) show ?thesis by blast
qed

text \<open>
  C29. The global stop, on a store that works and for an actor who holds the permission: it
  succeeds, reports no failure and lists each running or pending run once; afterwards no run is
  running or pending, those runs are paused with only status and update time changed, and every
  other run is exactly as before.
\<close>

theorem PauseAll_stops_everything:
  assumes "usable fuel (length (t_runs (w_tbl w)) + 1) w" and "actor \<noteq> ''''"
    and "''pause:all'' \<in> set (sc_perms sc actor)"
  shows "\<exists>res w'. PauseAll c fuel actor (Some (HasPermission (Some sc))) w = Some (Inr res, w') \<and> pr_failed res = [] \<and>
    distinct (pr_affected res) \<and>
    set (pr_affected res) = run_id ` {r \<in> set (t_runs (w_tbl w)). run_status r \<in> {''running'', ''pending''}} \<and>
    list_all2 (\<lambda>r r'. if run_status r \<in> {''running'', ''pending''}
        then \<exists>at. r' = r\<lparr>run_status := ''paused'', run_updated_at := at\<rparr> else r' = r)
      (t_runs (w_tbl w)) (t_runs (w_tbl w')) \<and>
    (\<forall>r\<in>set (t_runs (w_tbl w')). run_status r \<notin> {''running'', ''pending''})"
proof -
  let ?T = "t_runs (w_tbl w)" and ?live = "{''running'', ''pending''}"
  note u = usableD [OF assms(1)]
  obtain rs n where col: "collect_runs [''running'', ''pending''] [] w = (Inr rs, w\<lparr>w_tick := n\<rparr>)"
    "key_unique run_id rs" "set rs = {r \<in> set ?T. run_status r \<in> ?live}"
    using collect_quiet [OF u(1,3), of "[''running'', ''pending'']" "[]"] by auto
  have "distinct rs" "set rs \<subseteq> set ?T" using col(2,3) by (auto simp: key_unique_def distinct_map)
  then have "length rs \<le> length ?T" by (metis card_length card_mono distinct_card finite_set order_trans)
  then have u1: "usable fuel (length rs + 1) (w\<lparr>w_tick := n\<rparr>)" using assms(1) by (simp add: usable_def chain_ready_def)
  have refl: "moved ''paused'' {} ?T (t_runs (w_tbl (w\<lparr>w_tick := n\<rparr>)))"
    by (simp add: moved_def list.rel_refl)
  let ?res = "\<lparr>pr_action = ActionPauseAll, pr_affected = map run_id rs, pr_failed = []\<rparr>"
  from transition_loop_quiet [OF u1 refl col(2), of c ActionPauseAll actor
      "\<lparr>pr_action = ActionPauseAll, pr_affected = [], pr_failed = []\<rparr>"] \<open>set rs \<subseteq> set ?T\<close> u(3)
  obtain w2 where loop: "transition_loop c fuel ActionPauseAll actor ''paused'' rs
      \<lparr>pr_action = ActionPauseAll, pr_affected = [], pr_failed = []\<rparr> (w\<lparr>w_tick := n\<rparr>) = Some (?res, w2)"
    "usable fuel 1 w2" and mv: "moved ''paused'' (run_id ` set rs) ?T (t_runs (w_tbl w2))" by auto
  from write_audit_log [of fuel w2] loop(2) obtain r w3 where
    wr: "writeAudit c fuel ActionPauseAll actor TargetAll ResultSuccess '''' w2 = Some (r, w3)" "only_log fuel 1 w2 w3"
    by (fastforce simp: usable_def)
  have runs3: "t_runs (w_tbl w3) = t_runs (w_tbl w2)" using wr(2) by (auto simp: only_log_def)
  have call: "PauseAll c fuel actor (Some (HasPermission (Some sc))) w = Some (Inr ?res, w3)"
    using assms(2,3) col(1) loop(1) wr(1)
    by (simp add: PauseAll_def HasPermission_def PermissionPauseAll_def transitionAll_def StatusRunning_def
        StatusPending_def StatusPaused_def)
  have ids: "run_id r \<in> run_id ` set rs \<longleftrightarrow> run_status r \<in> ?live" if "r \<in> set ?T" for r
    using that col(3) key_unique_eq [OF u(3) that] by (auto simp: image_iff)
  have rel: "list_all2 (\<lambda>r r'. if run_status r \<in> ?live
      then \<exists>at. r' = r\<lparr>run_status := ''paused'', run_updated_at := at\<rparr> else r' = r) ?T (t_runs (w_tbl w3))"
    using mv unfolding moved_def runs3 set_status_def
    by (rule list.rel_mono_strong) (use ids in \<open>auto split: if_splits\<close>)
  have "run_status r' \<notin> ?live" if r': "r' \<in> set (t_runs (w_tbl w3))" for r'
  proof -
    from list_all2_right_member [OF rel r'] obtain r where "if run_status r \<in> ?live
      then \<exists>at. r' = r\<lparr>run_status := ''paused'', run_updated_at := at\<rparr> else r' = r" by blast
    then show ?thesis by (cases "run_status r \<in> ?live") auto
  qed
  with call rel col(2,3) show ?thesis
    by (intro exI [of _ ?res] exI [of _ w3]) (simp add: key_unique_def)
qed

text \<open>
  The global stop refused, on a store that works: for an actor without the permission it
  returns \<open>ErrPermissionDenied\<close>, no run changes, and with the denial recorder installed the
  refusal is in the audit log under the actor's name, naming the permission.
\<close>

theorem PauseAll_refusal_recorded:
  assumes "usable fuel 1 w" and "actor \<noteq> ''''" and "''pause:all'' \<notin> set (sc_perms sc actor)"
    and "sc_on_deny sc = Some (NewDenialAuditRecorder c fuel)"
    and "w_rand w (w_tick w) = Some i" and "i \<notin> au_id ` set (t_audits (w_tbl w))"
  shows "\<exists>w'. PauseAll c fuel actor (Some (HasPermission (Some sc))) w = Some (Inl ErrPermissionDenied, w') \<and>
    t_runs (w_tbl w') = t_runs (w_tbl w) \<and>
    (\<exists>a\<in>set (t_audits (w_tbl w')). au_action a = ''permission.denied'' \<and> au_result a = ''denied'' \<and>
       au_actor a = actor \<and> au_target a = ''pause:all'')"
proof -
  let ?w2 = "w\<lparr>w_tick := Suc (Suc (w_tick w))\<rparr>"
  let ?a = "\<lparr>au_id = i, au_run_id = '''', au_action = ActionPermissionDenied, au_actor = actor,
      au_target = ''pause:all'', au_result = ResultDenied, au_tenant_id = '''', au_prev_hash = '''',
      au_curr_hash = '''', au_timestamp = w_clock w (Suc (w_tick w))\<rparr>"
  have "chain_ready fuel ?w2" using assms(1) by (simp add: usable_def chain_ready_def)
  from Record_ready [OF this, of ?a c] assms(1,6) obtain w' A n where rec: "Record c fuel ?a ?w2 = Some (Inr (), w')"
    and w': "w' = ?w2\<lparr>w_tbl := (w_tbl ?w2)\<lparr>t_audits := A\<rparr>, w_tick := n\<rparr>"
    and A: "mset (map unlinked A) = mset (map unlinked (?a # t_audits (w_tbl ?w2)))" by (auto simp: usable_def)
  obtain a where a: "a \<in> set A" "unlinked a = unlinked ?a" using Record_ready_entry(2) [OF A] by blast
  have fields: "au_action x = au_action (unlinked x)" "au_actor x = au_actor (unlinked x)"
    "au_target x = au_target (unlinked x)" "au_result x = au_result (unlinked x)" for x
    by (simp_all add: unlinked_def audit_link_def)
  have entry: "au_action a = ''permission.denied'' \<and> au_result a = ''denied'' \<and> au_actor a = actor \<and> au_target a = ''pause:all''"
    unfolding fields [of a] a(2) by (simp add: unlinked_def audit_link_def ActionPermissionDenied_def ResultDenied_def)
  have "PauseAll c fuel actor (Some (HasPermission (Some sc))) w = Some (Inl ErrPermissionDenied, w')"
    using assms(2-5) rec
    by (simp add: PauseAll_def HasPermission_def PermissionPauseAll_def NewDenialAuditRecorder_def denialRecorder_def
        rand_read_def time_now_def DenialTarget_def)
  with a(1) entry show ?thesis by (auto simp: w')
qed

section \<open>Witnesses\<close>

definition demo_live_run :: "string \<Rightarrow> string \<Rightarrow> run_row" where
  "demo_live_run i st = \<lparr>run_id = i, run_workflow_name = ''w'', run_template_name = '''', run_params = '''',
     run_plan_hash = '''', run_plan_json = '''', run_status = st, run_approval_status = '''',
     run_approval_level = '''', run_priority = '''', run_created_at = 0, run_updated_at = 0,
     run_creator = ''ops'', run_incident_id = '''', run_tenant_id = ''''\<rparr>"

lemma demo_live_run_simps [simp]: "run_id (demo_live_run i st) = i" "run_status (demo_live_run i st) = st"
  by (simp_all add: demo_live_run_def)

abbreviation demo_runs :: world where
  "demo_runs \<equiv> still_world (no_rows\<lparr>t_runs := [demo_live_run ''a'' ''running'', demo_live_run ''b'' ''completed'']\<rparr>)"

lemma no_audits [simp]: "t_audits no_rows = []"
  by (simp add: no_rows_def)

lemma demo_runs_usable: "usable fuel k demo_runs \<longleftrightarrow> k < fuel"
  by (auto simp: usable_def chain_ready_def no_rows_def)

theorem PauseRun_outcomes_witness:
  "(\<exists>w'. PauseRun demo_crypto 2 ''b'' ''ops'' demo_runs = Some (Some ErrNotPausable, w')) \<and>
   (\<exists>w'. PauseRun demo_crypto 2 ''a'' ''ops'' demo_runs = Some (None, w'))"
  using PauseRun_outcomes [of 2 demo_runs "''b''" "''ops''" demo_crypto]
    PauseRun_outcomes [of 2 demo_runs "''a''" "''ops''" demo_crypto]
  by (auto simp: demo_runs_usable)

theorem pause_then_resume_witness:
  "\<exists>w1 w2. PauseRun demo_crypto 3 ''a'' ''x'' demo_runs = Some (None, w1) \<and>
     ResumeRun demo_crypto 3 ''a'' ''y'' w1 = Some (None, w2)"
  using pause_then_resume [of 3 demo_runs "''a''" "''x''" "''y''" "demo_live_run ''a'' ''running''" demo_crypto]
  by (auto simp: demo_runs_usable)

theorem PauseAll_stops_everything_witness:
  "\<exists>res w'. PauseAll demo_crypto 4 ''ops'' (Some (HasPermission (Some \<lparr>sc_perms = (\<lambda>a. [''pause:all'']), sc_on_deny = None\<rparr>)))
      demo_runs = Some (Inr res, w') \<and> set (pr_affected res) = {''a''}"
proof -
  have "run_id ` {r \<in> {demo_live_run ''a'' ''running'', demo_live_run ''b'' ''completed''}.
      run_status r \<in> {''running'', ''pending''}} = {''a''}"
    by (auto simp: image_iff intro!: exI [of _ "demo_live_run ''a'' ''running''"])
  then show ?thesis
    using PauseAll_stops_everything [of 4 demo_runs "''ops''" "\<lparr>sc_perms = (\<lambda>a. [''pause:all'']), sc_on_deny = None\<rparr>" demo_crypto]
    by (auto simp: demo_runs_usable)
qed

theorem PauseAll_refusal_recorded_witness:
  "\<exists>w'. PauseAll demo_crypto 2 ''eve'' (Some (HasPermission (Some \<lparr>sc_perms = (\<lambda>a. []),
      sc_on_deny = Some (NewDenialAuditRecorder demo_crypto 2)\<rparr>))) demo_runs = Some (Inl ErrPermissionDenied, w') \<and>
    (\<exists>a\<in>set (t_audits (w_tbl w')). au_action a = ''permission.denied'' \<and> au_actor a = ''eve'')"
  using PauseAll_refusal_recorded [of 2 demo_runs "''eve''" "\<lparr>sc_perms = (\<lambda>a. []),
      sc_on_deny = Some (NewDenialAuditRecorder demo_crypto 2)\<rparr>" demo_crypto "itoa 0"]
  by (auto simp: demo_runs_usable no_audits)

text \<open>A run that another process completes between the read and the write of a pause.\<close>

definition demo_race :: world where
  "demo_race = demo_runs\<lparr>w_intf := (\<lambda>n t. if n = 2
     then t\<lparr>t_runs := update_where (\<lambda>r. run_id r = ''a'') (\<lambda>r. r\<lparr>run_status := ''completed''\<rparr>) (t_runs t)\<rparr> else t)\<rparr>"

text \<open>
  The pause is a read followed by a write of the whole row, with no condition on the status
  in between: a run that another process settles as completed in that window is overwritten as
  paused, and the call reports success.
\<close>

theorem pause_overwrites_verdict:
  "map run_status (t_runs (w_intf demo_race 2 (w_tbl demo_race))) = [''completed'', ''completed''] \<and>
   (\<exists>w'. PauseRun demo_crypto 2 ''a'' ''ops'' demo_race = Some (None, w') \<and>
      map run_status (t_runs (w_tbl w')) = [''paused'', ''completed''])"
proof
  show "map run_status (t_runs (w_intf demo_race 2 (w_tbl demo_race))) = [''completed'', ''completed'']"
    by (simp add: demo_race_def still_world_def)
  show "\<exists>w'. PauseRun demo_crypto 2 ''a'' ''ops'' demo_race = Some (None, w') \<and>
      map run_status (t_runs (w_tbl w')) = [''paused'', ''completed'']"
    by (simp add: demo_race_def still_world_def PauseRun_def transitionOne_def GetRun_def query_def stmt_def Let_def
        pausableStates_def status_defs UpdateRun_def set_run_def count_where_def time_now_def writeAudit_def
        newPauseID_def rand_read_def Record_def CreateAudit_def Seal_def walkChain_def numeral_2_eq_2
        ListAuditChainPage_def opt_eq_def chain_order_def seal_visit_def UpdateAuditChain_def
        DefaultAuditChainPageSize_def audit_hash_ne [symmetric])
qed

end
