(* ===== verification/Retry_Budget.thy ===== *)
theory Retry_Budget
  imports State_Store
begin

text \<open>
  \<^verbatim>\<open>internal/retrybudget\<close>: the cap on retries is enforced by counting audit rows, at most one
  more than the cap.
\<close>

definition MaxAttempts :: int where
  "MaxAttempts = 3"

definition AuditActionRetry :: string where "AuditActionRetry = ''retry''"
definition AuditActionRetryHost :: string where "AuditActionRetryHost = ''retry_host''"

definition retry_filter :: "string \<Rightarrow> string \<Rightarrow> string \<Rightarrow> audit_filter" where
  "retry_filter rid action target = \<lparr>adf_run_id = rid, adf_action = action, adf_actor = '''',
     adf_target = target, adf_limit = MaxAttempts + 1, adf_offset = 0, adf_tenant_id = ''''\<rparr>"

definition RunUsage :: "string \<Rightarrow> int op" where
  "RunUsage rid w = (case ListAudits (retry_filter rid AuditActionRetry '''') w of
     (Inl e, w1) \<Rightarrow> (Inl e, w1) | (Inr rows, w1) \<Rightarrow> (Inr (int (length rows)), w1))"

definition HostUsage :: "string \<Rightarrow> string \<Rightarrow> int op" where
  "HostUsage rid host w = (case ListAudits (retry_filter rid AuditActionRetryHost (AuditTargetHost rid host)) w of
     (Inl e, w1) \<Rightarrow> (Inl e, w1) | (Inr rows, w1) \<Rightarrow> (Inr (int (length rows)), w1))"

definition Exhausted :: "int \<Rightarrow> bool" where
  "Exhausted attempts \<longleftrightarrow> attempts \<ge> MaxAttempts"

text \<open>The rows that record an attempt.\<close>

definition run_attempts :: "string \<Rightarrow> audit_row list \<Rightarrow> nat" where
  "run_attempts rid A = count_where (\<lambda>a. au_run_id a = rid \<and> au_action a = ''retry'') A"

definition host_attempts :: "string \<Rightarrow> string \<Rightarrow> audit_row list \<Rightarrow> nat" where
  "host_attempts rid host A = count_where
     (\<lambda>a. au_run_id a = rid \<and> au_action a = ''retry_host'' \<and> au_target a = rid @ ''/'' @ host) A"

lemma list_retries:
  assumes "quiet w" and "rid \<noteq> ''''" and "action \<noteq> ''''"
  shows "ListAudits (retry_filter rid action target) w =
    (Inr (take 4 (sort_key (\<lambda>a. - au_timestamp a) (filter (\<lambda>a. au_run_id a = rid \<and> au_action a = action \<and>
        opt_eq target (au_target a)) (t_audits (w_tbl w))))), w\<lparr>w_tick := Suc (w_tick w)\<rparr>)"
  using assms
  by (simp add: ListAudits_def stmt_quiet retry_filter_def MaxAttempts_def limit_rows_def audit_matches_def
      opt_eq_def conj_ac cong: filter_cong)

text \<open>
  The budget is the audit trail: for every store that works, the usage reported for a run
  or for a host of it is exhausted exactly when at least three attempts are recorded for it, and
  below the cap the number reported is the number recorded; attempts of other runs, of other
  hosts and of the other kind do not count, however many and however recent they are.
\<close>

theorem budget_is_audit_trail:
  assumes "quiet w" and "rid \<noteq> ''''"
  shows "\<exists>n m w1 w2. RunUsage rid w = (Inr n, w1) \<and> HostUsage rid host w = (Inr m, w2) \<and>
    (Exhausted n \<longleftrightarrow> 3 \<le> run_attempts rid (t_audits (w_tbl w))) \<and>
    (\<not> Exhausted n \<longrightarrow> n = int (run_attempts rid (t_audits (w_tbl w)))) \<and>
    (Exhausted m \<longleftrightarrow> 3 \<le> host_attempts rid host (t_audits (w_tbl w))) \<and>
    (\<not> Exhausted m \<longrightarrow> m = int (host_attempts rid host (t_audits (w_tbl w))))"
proof -
  let ?A = "t_audits (w_tbl w)"
  have run: "RunUsage rid w = (Inr (int (min (run_attempts rid ?A) 4)), w\<lparr>w_tick := Suc (w_tick w)\<rparr>)"
    using list_retries [OF assms, of AuditActionRetry "''''"]
    by (simp add: RunUsage_def run_attempts_def count_where_def AuditActionRetry_def opt_eq_def)
  have host: "HostUsage rid host w = (Inr (int (min (host_attempts rid host ?A) 4)), w\<lparr>w_tick := Suc (w_tick w)\<rparr>)"
    using list_retries [OF assms, of AuditActionRetryHost "AuditTargetHost rid host"]
    by (simp add: HostUsage_def host_attempts_def count_where_def AuditActionRetryHost_def opt_eq_def
        AuditTargetHost_def)
  show ?thesis unfolding run host by (auto simp: Exhausted_def MaxAttempts_def)
qed

definition retry_row :: "string \<Rightarrow> audit_row" where
  "retry_row i = \<lparr>au_id = i, au_run_id = ''r'', au_action = ''retry'', au_actor = ''ops'',
     au_target = ''r'', au_result = ''success'', au_tenant_id = '''', au_prev_hash = '''',
     au_curr_hash = '''', au_timestamp = 0\<rparr>"

theorem budget_is_audit_trail_witness:
  "\<exists>n w1. RunUsage ''r'' (still_world (no_rows\<lparr>t_audits := map retry_row [''a'', ''b'', ''c'']\<rparr>)) = (Inr n, w1) \<and>
     Exhausted n"
  using budget_is_audit_trail [of "still_world (no_rows\<lparr>t_audits := map retry_row [''a'', ''b'', ''c'']\<rparr>)" "''r''" "''h''"]
  by (auto simp: run_attempts_def count_where_def retry_row_def)

end
