(* ===== verification/Risk.thy ===== *)
theory Risk
  imports Prelude "HOL-Library.Multiset"
begin

text \<open>
  \<^verbatim>\<open>internal/risk\<close>: the score of a plan, the approval tier it demands, and whether a tier
  may be approved automatically. Scores are Go \<^verbatim>\<open>int\<close>s; the two sums that take caller-supplied
  numbers wrap at 64 bits, the counts of list elements cannot.
\<close>

definition LevelStandard :: string where "LevelStandard = ''standard''"
definition LevelHigh :: string where "LevelHigh = ''high''"
definition LevelEmergency :: string where "LevelEmergency = ''emergency''"

lemmas level_defs = LevelStandard_def LevelHigh_def LevelEmergency_def

definition pointsIrreversibleStep :: int where "pointsIrreversibleStep = 20"
definition maxIrreversiblePoints :: int where "maxIrreversiblePoints = 40"
definition pointsDestructiveAction :: int where "pointsDestructiveAction = 8"
definition maxDestructivePoints :: int where "maxDestructivePoints = 24"
definition pointsPerBlastBand :: int where "pointsPerBlastBand = 10"
definition pointsNoRollbackStep :: int where "pointsNoRollbackStep = 5"
definition maxNoRollbackPoints :: int where "maxNoRollbackPoints = 15"
definition pointsPerBatch :: int where "pointsPerBatch = 2"
definition maxBatchPoints :: int where "maxBatchPoints = 6"
definition bandHighMax :: int where "bandHighMax = 39"
definition bandEmergencyAt :: int where "bandEmergencyAt = 70"

lemmas point_defs = pointsIrreversibleStep_def maxIrreversiblePoints_def pointsDestructiveAction_def
  maxDestructivePoints_def pointsPerBlastBand_def pointsNoRollbackStep_def maxNoRollbackPoints_def
  pointsPerBatch_def maxBatchPoints_def bandHighMax_def bandEmergencyAt_def

record risk_step =
  rs_name :: string
  rs_action :: string
  rs_irreversible :: bool
  rs_has_rollback :: bool

record risk_input =
  ri_steps :: "risk_step list"
  ri_batch_count :: int
  ri_direct_targets :: int
  ri_indirect_targets :: int
  ri_blast_high :: bool

record risk_factor =
  rf_rule :: string
  rf_points :: int
  rf_detail :: string

record assessment =
  asm_score :: int
  asm_factors :: "risk_factor list"
  asm_approval_floor :: string
  asm_irreversible_steps :: int

definition destructiveLexicon :: "string list" where
  "destructiveLexicon = [''remove'', ''delete'', ''drop'', ''truncate'', ''destroy'', ''purge'', ''wipe'']"

text \<open>Everything behind the first dot, the whole name when there is none.\<close>

definition after_dot :: "string \<Rightarrow> string" where
  "after_dot s = (if CHR ''.'' \<in> set s then tl (dropWhile (\<lambda>ch. ch \<noteq> CHR ''.'') s) else s)"

definition isDestructiveAction :: "string \<Rightarrow> bool" where
  "isDestructiveAction action =
     (if action = '''' then False
      else let seg = after_dot (to_lower action)
           in \<exists>w\<in>set destructiveLexicon. contains_str seg w)"

definition min2 :: "int \<Rightarrow> int \<Rightarrow> int" where
  "min2 a b = (if a < b then a else b)"

definition count_steps :: "(risk_step \<Rightarrow> bool) \<Rightarrow> risk_step list \<Rightarrow> int" where
  "count_steps P ss = int (count_where P ss)"

text \<open>One contributing rule: its points go to the score, its entry to the list.\<close>

definition contribute :: "bool \<Rightarrow> string \<Rightarrow> int \<Rightarrow> string \<Rightarrow> int \<times> risk_factor list \<Rightarrow> int \<times> risk_factor list" where
  "contribute applies rule pts detail acc =
     (if applies then (fst acc + pts, snd acc @ [\<lparr>rf_rule = rule, rf_points = pts, rf_detail = detail\<rparr>])
      else acc)"

definition blastBand :: "int \<Rightarrow> string" where
  "blastBand n = (if n > 50 then ''high'' else if n > 9 then ''medium'' else ''low'')"

text \<open>The five rules in the order of the code: the running score and the entries so far.\<close>

definition score_factors :: "risk_input \<Rightarrow> int \<times> risk_factor list" where
  "score_factors inp =
    (let irreversible = count_steps rs_irreversible (ri_steps inp);
         acc1 = contribute (irreversible > 0) ''irreversible_steps''
           (min2 (irreversible * pointsIrreversibleStep) maxIrreversiblePoints)
           (format_int irreversible @ '' irreversible step(s) stamped by the plan generator'') (0, []);
         destructive = count_steps (\<lambda>s. isDestructiveAction (rs_action s)) (ri_steps inp);
         acc2 = contribute (destructive > 0) ''destructive_actions''
           (min2 (destructive * pointsDestructiveAction) maxDestructivePoints)
           (format_int destructive @ '' step(s) with destructive action names (remove/delete/drop/...)'') acc1;
         total_targets = wrap64 (ri_direct_targets inp + ri_indirect_targets inp);
         band = blastBand total_targets;
         acc3 = contribute (band = ''medium'' \<or> band = ''high'') ''blast_radius''
           ((if band = ''high'' then 2 else 1) * pointsPerBlastBand)
           (format_int total_targets @ '' affected target(s) ('' @ band @ '' band)'') acc2;
         noRollback = count_steps (\<lambda>s. \<not> rs_has_rollback s) (ri_steps inp);
         acc4 = contribute (noRollback > 0) ''rollback_coverage''
           (min2 (noRollback * pointsNoRollbackStep) maxNoRollbackPoints)
           (format_int noRollback @ '' step(s) declare no rollback'') acc3;
         n = ri_batch_count inp
     in contribute (n > 1) ''batch_fanout''
           (min2 (wrap64 ((n - 1) * pointsPerBatch)) maxBatchPoints)
           (format_int n @ '' sequential batches'') acc4)"

text \<open>The tier the score bands give, then the red lines over it.\<close>

definition Assess :: "risk_input \<Rightarrow> assessment" where
  "Assess inp =
    (let irreversible = count_steps rs_irreversible (ri_steps inp);
         acc = score_factors inp;
         factors = sort_key rf_rule (snd acc);
         score = (if fst acc > 100 then 100 else fst acc);
         floor0 = (if score \<ge> bandEmergencyAt then LevelEmergency
                   else if score > bandHighMax then LevelHigh else LevelStandard);
         floor1 = (if irreversible > 0
                   then (let f = (if floor0 = LevelStandard then LevelHigh else floor0)
                         in if ri_blast_high inp then LevelEmergency else f)
                   else floor0)
     in \<lparr>asm_score = score, asm_factors = factors, asm_approval_floor = floor1,
         asm_irreversible_steps = irreversible\<rparr>)"

definition level_order :: "string \<Rightarrow> nat option" where
  "level_order l = (if l = LevelStandard then Some 0 else if l = LevelHigh then Some 1
     else if l = LevelEmergency then Some 2 else None)"

definition MaxLevel :: "string \<Rightarrow> string \<Rightarrow> string" where
  "MaxLevel a b =
     (let a' = (if level_order a = None then LevelStandard else a);
          b' = (if level_order b = None then LevelStandard else b)
      in if the (level_order b') \<le> the (level_order a') then a' else b')"

definition AutoApproveForbidden :: "string \<Rightarrow> bool" where
  "AutoApproveForbidden level =
     (if level = '''' then False
      else if level = LevelStandard then False
      else if level = LevelHigh \<or> level = LevelEmergency then True
      else if level \<in> {''low'', ''normal'', ''urgent''} then False
      else True)"

section \<open>Lemmas\<close>

text \<open>The rank of a tier; a word outside the vocabulary ranks as standard.\<close>

definition rank :: "string \<Rightarrow> nat" where
  "rank l = (case level_order l of None \<Rightarrow> 0 | Some n \<Rightarrow> n)"

lemma rank_levels [simp]: "rank LevelStandard = 0" "rank LevelHigh = 1" "rank LevelEmergency = 2"
  by (simp_all add: rank_def level_order_def level_defs)

lemma count_steps_nonneg [simp]: "0 \<le> count_steps P ss"
  by (simp add: count_steps_def)

lemma count_steps_pos [simp]: "0 < count_steps P ss \<longleftrightarrow> (\<exists>s\<in>set ss. P s)"
  by (simp add: count_steps_def)

lemma count_steps_zero [simp]: "count_steps P ss = 0 \<longleftrightarrow> (\<forall>s\<in>set ss. \<not> P s)"
  by (simp add: count_steps_def)

lemma count_steps_Cons: "count_steps P ss \<le> count_steps P (s # ss)"
  by (simp add: count_steps_def count_where_def)

lemma count_steps_mset: "mset xs = mset ys \<Longrightarrow> count_steps P xs = count_steps P ys"
  unfolding count_steps_def count_where_def by (metis mset_filter size_mset)

lemma min2_mono: "a \<le> b \<Longrightarrow> min2 a m \<le> min2 b m"
  by (simp add: min2_def)

text \<open>The five contributions, and the unclamped score as their sum.\<close>

definition irreversible_points :: "risk_input \<Rightarrow> int" where
  "irreversible_points inp = min2 (count_steps rs_irreversible (ri_steps inp) * 20) 40"

definition destructive_points :: "risk_input \<Rightarrow> int" where
  "destructive_points inp = min2 (count_steps (\<lambda>s. isDestructiveAction (rs_action s)) (ri_steps inp) * 8) 24"

definition blast_points :: "risk_input \<Rightarrow> int" where
  "blast_points inp = (let n = wrap64 (ri_direct_targets inp + ri_indirect_targets inp)
     in if n > 50 then 20 else if n > 9 then 10 else 0)"

definition rollback_points :: "risk_input \<Rightarrow> int" where
  "rollback_points inp = min2 (count_steps (\<lambda>s. \<not> rs_has_rollback s) (ri_steps inp) * 5) 15"

definition batch_points :: "risk_input \<Rightarrow> int" where
  "batch_points inp = (if ri_batch_count inp > 1 then min2 (wrap64 ((ri_batch_count inp - 1) * 2)) 6 else 0)"

definition raw_score :: "risk_input \<Rightarrow> int" where
  "raw_score inp = irreversible_points inp + destructive_points inp + blast_points inp +
     rollback_points inp + batch_points inp"

lemma contribute_fst: "fst (contribute b r p d acc) = fst acc + (if b then p else 0)"
  by (simp add: contribute_def)

lemma contribute_snd:
  "snd (contribute b r p d acc) = snd acc @ (if b then [\<lparr>rf_rule = r, rf_points = p, rf_detail = d\<rparr>] else [])"
  by (simp add: contribute_def)

lemma points_if:
  assumes "0 \<le> m" and "0 \<le> k"
  shows "(if 0 < count_steps P ss then min2 (count_steps P ss * k) m else 0) = min2 (count_steps P ss * k) m"
proof (cases "count_steps P ss = 0")
  case True
  with assms show ?thesis by (simp add: min2_def del: count_steps_zero)
next
  case False
  with count_steps_nonneg [of P ss] have "0 < count_steps P ss" by linarith
  then show ?thesis by (simp only: if_True)
qed

lemma blast_if: "(if blastBand n = ''medium'' \<or> blastBand n = ''high''
    then (if blastBand n = ''high'' then 2 else 1) * (10 :: int) else 0) =
    (if n > 50 then 20 else if n > 9 then 10 else 0)"
  by (simp add: blastBand_def)

lemma score_factors_raw: "fst (score_factors inp) = raw_score inp"
  unfolding score_factors_def Let_def contribute_fst raw_score_def irreversible_points_def
    destructive_points_def blast_points_def rollback_points_def batch_points_def point_defs blast_if
  by (simp add: points_if del: count_steps_pos count_steps_zero)

lemma Assess_score: "asm_score (Assess inp) = (if raw_score inp > 100 then 100 else raw_score inp)"
  by (simp add: Assess_def Let_def score_factors_raw)

lemma Assess_irreversible: "asm_irreversible_steps (Assess inp) = count_steps rs_irreversible (ri_steps inp)"
  by (simp add: Assess_def Let_def)

lemma Assess_floor: "asm_approval_floor (Assess inp) =
    (let base = (if asm_score (Assess inp) \<ge> 70 then LevelEmergency
                 else if asm_score (Assess inp) > 39 then LevelHigh else LevelStandard)
     in if \<exists>s\<in>set (ri_steps inp). rs_irreversible s
        then (if ri_blast_high inp then LevelEmergency
              else if base = LevelStandard then LevelHigh else base)
        else base)"
  by (simp add: Assess_def Let_def point_defs)

lemma levels_distinct [simp]:
  "LevelEmergency \<noteq> LevelStandard" "LevelHigh \<noteq> LevelStandard" "LevelEmergency \<noteq> LevelHigh"
  by (simp_all add: level_defs)

lemma rank_floor: "rank (asm_approval_floor (Assess inp)) =
    max (if asm_score (Assess inp) \<ge> 70 then 2 else if asm_score (Assess inp) > 39 then 1 else 0)
        (if \<exists>s\<in>set (ri_steps inp). rs_irreversible s then (if ri_blast_high inp then 2 else 1) else 0)"
  unfolding Assess_floor Let_def by simp

lemma batch_points_bounds:
  assumes "in_int64 ((ri_batch_count inp - 1) * 2)"
  shows "0 \<le> batch_points inp" "batch_points inp \<le> 6"
  using assms by (auto simp: batch_points_def min2_def)

lemma step_points_bounds:
  "0 \<le> irreversible_points inp" "irreversible_points inp \<le> 40" "0 \<le> destructive_points inp"
  "destructive_points inp \<le> 24" "0 \<le> blast_points inp" "blast_points inp \<le> 20"
  "0 \<le> rollback_points inp" "rollback_points inp \<le> 15"
  by (auto simp: irreversible_points_def destructive_points_def rollback_points_def blast_points_def
      Let_def min2_def)

lemma rules_of: "map rf_rule (snd (score_factors inp)) =
    (if count_steps rs_irreversible (ri_steps inp) > 0 then [''irreversible_steps''] else []) @
    (if count_steps (\<lambda>s. isDestructiveAction (rs_action s)) (ri_steps inp) > 0 then [''destructive_actions''] else []) @
    (if wrap64 (ri_direct_targets inp + ri_indirect_targets inp) > 9 then [''blast_radius''] else []) @
    (if count_steps (\<lambda>s. \<not> rs_has_rollback s) (ri_steps inp) > 0 then [''rollback_coverage''] else []) @
    (if ri_batch_count inp > 1 then [''batch_fanout''] else [])"
proof -
  have band: "blastBand n = ''medium'' \<or> blastBand n = ''high'' \<longleftrightarrow> n > 9" for n by (simp add: blastBand_def)
  show ?thesis unfolding score_factors_def Let_def contribute_snd band by simp
qed

lemma sum_of_points: "sum_list (map rf_points (snd (score_factors inp))) = fst (score_factors inp)"
  unfolding score_factors_def Let_def contribute_snd contribute_fst by (simp del: count_steps_pos)

lemma points_positive:
  assumes "in_int64 ((ri_batch_count inp - 1) * 2)" and "f \<in> set (snd (score_factors inp))"
  shows "0 < rf_points f"
proof -
  have pos: "0 < min2 (count_steps P ss * k) m" if "0 < count_steps P ss" "0 < k" "0 < m" for P ss k m
    using that by (simp add: min2_def del: count_steps_pos)
  from assms show ?thesis
    unfolding score_factors_def Let_def contribute_snd point_defs
    by (auto simp: pos min2_def simp del: count_steps_pos split: if_splits)
qed

text \<open>\<open>MaxLevel\<close> through ranks.\<close>

definition tier :: "nat \<Rightarrow> string" where
  "tier n = (if n = 0 then LevelStandard else if n = 1 then LevelHigh else LevelEmergency)"

lemma rank_le: "rank l \<le> 2"
  by (simp add: rank_def level_order_def)

lemma rank_tier: "n \<le> 2 \<Longrightarrow> rank (tier n) = n"
  by (auto simp: tier_def)

lemma normalised: "(if level_order l = None then LevelStandard else l) = tier (rank l)"
  by (auto simp: level_order_def tier_def rank_def levels_distinct [symmetric])

lemma the_order_tier: "n \<le> 2 \<Longrightarrow> the (level_order (tier n)) = n"
  by (auto simp: level_order_def tier_def levels_distinct [symmetric])

lemma MaxLevel_tier: "MaxLevel a b = tier (max (rank a) (rank b))"
  unfolding MaxLevel_def Let_def normalised by (simp add: the_order_tier rank_le max_def)

section \<open>Properties\<close>

text \<open>
  The score is between 0 and 100 and explained: it is the sum of the listed factors' points
  cut off at 100, every listed factor contributes, no rule is listed twice and the list is
  ordered by rule name; as long as twice the number of batches is a 64-bit number.
\<close>

theorem score_explained:
  assumes "in_int64 ((ri_batch_count inp - 1) * 2)"
  shows "0 \<le> asm_score (Assess inp) \<and> asm_score (Assess inp) \<le> 100 \<and>
    asm_score (Assess inp) = min 100 (sum_list (map rf_points (asm_factors (Assess inp)))) \<and>
    (\<forall>f\<in>set (asm_factors (Assess inp)). 0 < rf_points f) \<and>
    distinct (map rf_rule (asm_factors (Assess inp))) \<and> sorted (map rf_rule (asm_factors (Assess inp)))"
proof -
  have factors: "asm_factors (Assess inp) = sort_key rf_rule (snd (score_factors inp))"
    by (simp add: Assess_def Let_def)
  have "mset (map rf_points (asm_factors (Assess inp))) = mset (map rf_points (snd (score_factors inp)))"
    by (simp add: factors)
  then have "sum_list (map rf_points (asm_factors (Assess inp))) = raw_score inp"
    by (metis sum_of_points score_factors_raw sum_mset_sum_list)
  moreover have "0 \<le> raw_score inp" using step_points_bounds [of inp] batch_points_bounds [OF assms]
    by (simp add: raw_score_def)
  moreover have "distinct (map rf_rule (snd (score_factors inp)))" unfolding rules_of by simp
  then have "distinct (map rf_rule (asm_factors (Assess inp)))"
    by (simp add: factors distinct_map)
  ultimately show ?thesis using points_positive [OF assms] by (auto simp: Assess_score factors)
qed

text \<open>
  The approval floor, in full: its rank is the higher of what the score bands give and what
  the red lines give, and it is always one of the three tiers.
\<close>

theorem floor_derivation:
  "asm_approval_floor (Assess inp) \<in> {LevelStandard, LevelHigh, LevelEmergency} \<and>
   (asm_approval_floor (Assess inp) = LevelEmergency \<longleftrightarrow>
      asm_score (Assess inp) \<ge> 70 \<or> (ri_blast_high inp \<and> (\<exists>s\<in>set (ri_steps inp). rs_irreversible s))) \<and>
   (asm_approval_floor (Assess inp) = LevelStandard \<longleftrightarrow>
      asm_score (Assess inp) < 40 \<and> \<not> (\<exists>s\<in>set (ri_steps inp). rs_irreversible s))"
  unfolding Assess_floor Let_def by (auto simp: level_defs)

lemma floor_forbids:
  assumes "s \<in> set (ri_steps inp)" and "rs_irreversible s"
  shows "AutoApproveForbidden (MaxLevel declared (asm_approval_floor (Assess inp)))"
proof -
  have "asm_approval_floor (Assess inp) \<in> {LevelHigh, LevelEmergency}"
    using assms unfolding Assess_floor Let_def by auto
  then show ?thesis
    by (auto simp: MaxLevel_def Let_def level_order_def AutoApproveForbidden_def level_defs split: if_splits)
qed

text \<open>
  The red line of irreversible steps end to end: a plan with an irreversible step, whatever
  tier the workflow declares, is routed to a tier that forbids automatic approval; and the
  declaration can only raise the floor.
\<close>

theorem irreversible_never_auto_approved:
  assumes "s \<in> set (ri_steps inp)" and "rs_irreversible s"
  shows "AutoApproveForbidden (MaxLevel declared (asm_approval_floor (Assess inp))) \<and>
    rank (asm_approval_floor (Assess inp)) \<le> rank (MaxLevel declared (asm_approval_floor (Assess inp)))"
  using floor_forbids [OF assms] by (simp add: MaxLevel_tier rank_tier rank_le)

text \<open>
  \<open>MaxLevel\<close> is the maximum of the tier order on all strings: its rank is the higher rank,
  it answers with a tier even for words outside the vocabulary, and it is associative and, up
  to nothing at all, commutative and idempotent on tiers.
\<close>

theorem MaxLevel_is_maximum:
  "rank (MaxLevel a b) = max (rank a) (rank b) \<and>
   MaxLevel a b \<in> {LevelStandard, LevelHigh, LevelEmergency} \<and>
   MaxLevel a b = MaxLevel b a \<and> MaxLevel (MaxLevel a b) l = MaxLevel a (MaxLevel b l) \<and>
   MaxLevel (MaxLevel a b) (MaxLevel a b) = MaxLevel a b"
proof -
  have le: "max (rank x) (rank y) \<le> 2" for x y using rank_le by simp
  have "tier n \<in> {LevelStandard, LevelHigh, LevelEmergency}" for n by (simp add: tier_def)
  then show ?thesis by (simp add: MaxLevel_tier rank_tier [OF le] max.commute max.left_commute del: insert_iff)
qed

text \<open>
  More steps never look safer: adding a step to a plan, whatever the step is, lowers neither
  the score nor the approval floor.
\<close>

theorem adding_a_step_is_monotone:
  "asm_score (Assess inp) \<le> asm_score (Assess (inp\<lparr>ri_steps := s # ri_steps inp\<rparr>)) \<and>
   rank (asm_approval_floor (Assess inp)) \<le> rank (asm_approval_floor (Assess (inp\<lparr>ri_steps := s # ri_steps inp\<rparr>)))"
proof -
  let ?inp = "inp\<lparr>ri_steps := s # ri_steps inp\<rparr>"
  have pts: "min2 (count_steps P (ri_steps inp) * k) m \<le> min2 (count_steps P (s # ri_steps inp) * k) m"
    if "0 \<le> k" for P k m
    using that by (intro min2_mono mult_right_mono count_steps_Cons)
  have "raw_score inp \<le> raw_score ?inp"
    unfolding raw_score_def irreversible_points_def destructive_points_def rollback_points_def
      blast_points_def batch_points_def Let_def
    by (simp add: add_mono pts)
  then have score: "asm_score (Assess inp) \<le> asm_score (Assess ?inp)" by (simp add: Assess_score)
  moreover have "rank (asm_approval_floor (Assess inp)) \<le> rank (asm_approval_floor (Assess ?inp))"
    unfolding rank_floor using score by auto
  ultimately show ?thesis by blast
qed

text \<open>
  The order of the steps is irrelevant: two inputs with the same steps in any order have the
  same assessment.
\<close>

theorem step_order_irrelevant:
  assumes "mset (ri_steps a) = mset (ri_steps b)"
    and "ri_batch_count a = ri_batch_count b" and "ri_direct_targets a = ri_direct_targets b"
    and "ri_indirect_targets a = ri_indirect_targets b" and "ri_blast_high a = ri_blast_high b"
  shows "Assess a = Assess b"
proof -
  have eq: "count_steps P (ri_steps a) = count_steps P (ri_steps b)" for P
    using assms(1) by (rule count_steps_mset)
  show ?thesis unfolding Assess_def score_factors_def eq assms(2-) ..
qed

section \<open>Witnesses\<close>

definition demo_step :: "string \<Rightarrow> bool \<Rightarrow> risk_step" where
  "demo_step act irr = \<lparr>rs_name = ''s'', rs_action = act, rs_irreversible = irr, rs_has_rollback = \<not> irr\<rparr>"

definition demo_input :: risk_input where
  "demo_input = \<lparr>ri_steps = [demo_step ''pkg.remove'' True, demo_step ''file.copy'' False],
     ri_batch_count = 3, ri_direct_targets = 12, ri_indirect_targets = 0, ri_blast_high = False\<rparr>"

theorem score_explained_witness:
  "asm_score (Assess demo_input) = min 100 (sum_list (map rf_points (asm_factors (Assess demo_input)))) \<and>
   asm_score (Assess demo_input) = 47"
proof
  show "asm_score (Assess demo_input) = min 100 (sum_list (map rf_points (asm_factors (Assess demo_input))))"
    using score_explained [of demo_input] by (simp add: demo_input_def in_int64_def)
  show "asm_score (Assess demo_input) = 47" by code_simp
qed

theorem irreversible_never_auto_approved_witness:
  "AutoApproveForbidden (MaxLevel ''standard'' (asm_approval_floor (Assess demo_input)))"
  using irreversible_never_auto_approved [of "demo_step ''pkg.remove'' True" demo_input "''standard''"]
  by (simp add: demo_input_def demo_step_def)

theorem step_order_irrelevant_witness:
  "Assess demo_input = Assess (demo_input\<lparr>ri_steps := rev (ri_steps demo_input)\<rparr>)"
  using step_order_irrelevant [of demo_input "demo_input\<lparr>ri_steps := rev (ri_steps demo_input)\<rparr>"] by simp

end
