(* ===== verification/Go_Text.thy ===== *)
theory Go_Text
  imports Prelude
begin

text \<open>
  Text as \<^verbatim>\<open>unicode/utf8\<close> and \<^verbatim>\<open>strings\<close> see it: valid UTF-8, trimming of Unicode white space, and a
  self-delimiting encoding of lists of strings from which the codecs of the witnesses are made.
\<close>

section \<open>Valid UTF-8\<close>

text \<open>\<^verbatim>\<open>utf8.ValidString\<close>.\<close>

definition byte_in :: "nat \<Rightarrow> nat \<Rightarrow> char \<Rightarrow> bool" where
  "byte_in lo hi c \<longleftrightarrow> lo \<le> (of_char c :: nat) \<and> (of_char c :: nat) \<le> hi"

abbreviation cont :: "char \<Rightarrow> bool" where "cont \<equiv> byte_in 128 191"

fun utf8_valid :: "string \<Rightarrow> bool" where
  "utf8_valid [] = True"
| "utf8_valid (c # cs) =
    (if byte_in 0 127 c then utf8_valid cs
     else (case cs of
        [] \<Rightarrow> False
      | c1 # r1 \<Rightarrow>
         if byte_in 194 223 c then cont c1 \<and> utf8_valid r1
         else (case r1 of
            [] \<Rightarrow> False
          | c2 # r2 \<Rightarrow>
             if byte_in 224 239 c then
               (if byte_in 224 224 c then byte_in 160 191 c1 else if byte_in 237 237 c then byte_in 128 159 c1 else cont c1)
               \<and> cont c2 \<and> utf8_valid r2
             else (case r2 of
                [] \<Rightarrow> False
              | c3 # r3 \<Rightarrow>
                 byte_in 240 244 c \<and>
                 (if byte_in 240 240 c then byte_in 144 191 c1 else if byte_in 244 244 c then byte_in 128 143 c1 else cont c1)
                 \<and> cont c2 \<and> cont c3 \<and> utf8_valid r3))))"

declare utf8_valid.simps(2) [simp del]

lemma utf8_valid_ascii [simp]: "byte_in 0 127 c \<Longrightarrow> utf8_valid (c # cs) = utf8_valid cs"
  by (simp add: utf8_valid.simps(2))

section \<open>White space\<close>

text \<open>\<^verbatim>\<open>strings.TrimSpace\<close>: the encodings of the runes with \<^verbatim>\<open>unicode.IsSpace\<close>, off both ends.\<close>

definition space_runes :: "string list" where
  "space_runes = map (map char_of) ([[9 :: nat], [10], [11], [12], [13], [32], [194, 133], [194, 160], [225, 154, 128]] @
     map (\<lambda>n. [226, 128, n]) ([128..<139] @ [168, 169, 175]) @ [[226, 129, 159], [227, 128, 128]])"

definition leading :: "string list \<Rightarrow> string \<Rightarrow> nat" where
  "leading ps s = (case find (has_prefix s) ps of None \<Rightarrow> 0 | Some p \<Rightarrow> length p)"

function trim_left :: "string list \<Rightarrow> string \<Rightarrow> string" where
  "trim_left ps s = (let n = leading ps s in if n = 0 \<or> s = [] then s else trim_left ps (drop n s))"
  by auto
termination by (relation "measure (length \<circ> snd)") auto

declare trim_left.simps [simp del]

definition trim_space :: "string \<Rightarrow> string" where
  "trim_space s = rev (trim_left (map rev space_runes) (rev (trim_left space_runes s)))"

lemma trim_left_none: "(\<And>p. p \<in> set ps \<Longrightarrow> \<not> has_prefix s p) \<Longrightarrow> trim_left ps s = s"
proof -
  assume "\<And>p. p \<in> set ps \<Longrightarrow> \<not> has_prefix s p"
  then have "find (has_prefix s) ps = None" by (auto simp: find_None_iff)
  then show ?thesis by (subst trim_left.simps) (simp add: leading_def)
qed

lemma has_prefix_Cons: "has_prefix (c # cs) p \<longleftrightarrow> p = [] \<or> (hd p = c \<and> has_prefix cs (List.tl p))"
  by (cases p) auto

text \<open>A text that begins and ends with printable ASCII is left alone.\<close>

lemma trim_space_bracketed:
  assumes "byte_in 33 126 c" and "byte_in 33 126 d"
  shows "trim_space (c # s @ [d]) = c # s @ [d]"
proof -
  have hd: "\<not> byte_in 33 126 (hd p)" if "p \<in> set space_runes \<or> p \<in> set (map rev space_runes)" for p
    using that by (auto simp: space_runes_def byte_in_def of_char_of)
  have ne: "p \<noteq> []" if "p \<in> set space_runes \<or> p \<in> set (map rev space_runes)" for p
    using that by (auto simp: space_runes_def)
  have "trim_left space_runes (c # s @ [d]) = c # s @ [d]"
    by (rule trim_left_none) (use hd ne assms(1) in \<open>auto simp: has_prefix_Cons\<close>)
  moreover have "trim_left (map rev space_runes) (d # rev (c # s)) = d # rev (c # s)"
    by (rule trim_left_none) (use hd ne assms(2) in \<open>auto simp: has_prefix_Cons\<close>)
  ultimately show ?thesis by (simp add: trim_space_def)
qed

section \<open>Framed strings\<close>

text \<open>Each character behind a dash, each string ended by a dot.\<close>

fun frame_text :: "string list \<Rightarrow> string" where
  "frame_text [] = ''''"
| "frame_text (s # ss) = concat (map (\<lambda>ch. [CHR ''-'', ch]) s) @ [CHR ''.''] @ frame_text ss"

fun unframe_text :: "string \<Rightarrow> string \<Rightarrow> string list" where
  "unframe_text acc [] = []"
| "unframe_text acc [m] = [rev acc]"
| "unframe_text acc (m # ch # r) = (if m = CHR ''.'' then rev acc # unframe_text [] (ch # r) else unframe_text (ch # acc) r)"

lemma unframe_dot: "unframe_text acc (CHR ''.'' # r) = rev acc # unframe_text [] r"
  by (cases r) auto

lemma unframe_string:
  "unframe_text acc (concat (map (\<lambda>ch. [CHR ''-'', ch]) s) @ CHR ''.'' # r) = (rev acc @ s) # unframe_text [] r"
  by (induction s arbitrary: acc) (auto simp: unframe_dot)

lemma unframe_frame: "unframe_text [] (frame_text ss) = ss"
  by (induction ss) (auto simp: unframe_string)

definition parse_int :: "string \<Rightarrow> int" where
  "parse_int s = (case s of
     [] \<Rightarrow> 0 | ch # r \<Rightarrow> if ch = CHR ''-'' then - int (atoi_acc 0 r) else int (atoi_acc 0 s))"

lemma parse_format_int [simp]: "parse_int (format_int i) = i"
proof (cases "i < 0")
  case False
  obtain ch r where s: "itoa (nat i) = ch # r" by (meson itoa_nonempty neq_Nil_conv)
  with minus_not_in_itoa [of "nat i"] have "ch \<noteq> CHR ''-''" by auto
  with False s atoi_itoa [of "nat i"] show ?thesis by (simp add: format_int_def parse_int_def)
qed (simp add: format_int_def parse_int_def atoi_itoa)

end
