(* ===== verification/Approval.thy ===== *)
theory Approval
  imports State_Store Risk Go_Text
begin

text \<open>
  \<^verbatim>\<open>internal/approval\<close>: the approval record, the state machine over it, the three tiers and
  the expiry sweep, on the database through the adapter of \<^verbatim>\<open>cmd/levee/helpers.go\<close>.

  The Go interface \<^verbatim>\<open>Store\<close> is the record \<open>approval_store\<close> of functions; the service takes the
  store it drives. What does not fit a row's columns travels as JSON in its \<^verbatim>\<open>comment\<close>: the
  codec is \<^verbatim>\<open>encoding/json\<close> at the type \<^verbatim>\<open>approvalExtra\<close> and a parameter, with the law
  \<open>codec_ok\<close> (what it encodes it decodes, for valid UTF-8 and four-digit years, which is where
  the package guarantees it). Policy guards and decision observers are functions on the
  \<open>world\<close>, so they may read and write the database like anybody else.
\<close>

section \<open>Statuses and records\<close>

definition ApprovalPending :: string where "ApprovalPending = ''pending''"
definition ApprovalApproved :: string where "ApprovalApproved = ''approved''"
definition ApprovalRejected :: string where "ApprovalRejected = ''rejected''"
definition ApprovalExpired :: string where "ApprovalExpired = ''expired''"

lemmas approval_status_defs = ApprovalPending_def ApprovalApproved_def ApprovalRejected_def ApprovalExpired_def

definition StatusNames :: "string list" where
  "StatusNames = [ApprovalPending, ApprovalApproved, ApprovalRejected, ApprovalExpired]"

definition canTransition :: "string \<Rightarrow> string \<Rightarrow> bool" where
  "canTransition frm to =
     (if frm \<noteq> ApprovalPending then False
      else to = ApprovalApproved \<or> to = ApprovalRejected \<or> to = ApprovalExpired)"

definition ActionApprove :: string where "ActionApprove = ''approve''"
definition ActionReject :: string where "ActionReject = ''reject''"

record decision =
  dc_approver :: string
  dc_action :: string
  dc_reason :: string
  dc_at :: time

record approval =
  av_id :: string
  av_run_id :: string
  av_level :: string
  av_status :: string
  av_approvers :: "string list"
  av_min_approvers :: int
  av_decisions :: "decision list"
  av_created_at :: time
  av_expires_at :: time
  av_plan_hash :: string
  av_initiator :: string
  av_exclude_initiator :: bool
  av_revision :: int
  av_superseded_reason :: string

record create_request =
  cr_id :: string
  cr_run_id :: string
  cr_level :: string
  cr_approvers :: "string list"
  cr_min_approvers :: int
  cr_expires_at :: time
  cr_plan_hash :: string
  cr_initiator :: string
  cr_exclude_initiator :: bool

datatype approval_error =
    ErrApprovalNotFound
  | ErrInvalidTransition string string
  | ErrDuplicateDecision string
  | ErrUnauthorizedApprover string
  | ErrInitiatorExcluded string
  | ErrInvalidLevel string
  | ErrEmptyRunID
  | ErrMinApproversTooLarge int int
  | ErrConflict string string
  | ErrDecisionDenied string
  | ApprovalIDFailed
  | ApprovalStoreError store_error
  | MarshalFailed
  | UnparsableMetadata string
  | NilApproval

type_synonym 'a approval_op = "world \<Rightarrow> (approval_error + 'a) \<times> world"

section \<open>Tiers\<close>

definition levelOrder :: "string list" where
  "levelOrder = [LevelStandard, LevelHigh, LevelEmergency]"

definition LevelNamesJoined :: string where
  "LevelNamesJoined = join_str '', '' levelOrder"

definition IsLevel :: "string \<Rightarrow> bool" where
  "IsLevel l \<longleftrightarrow> l \<in> set levelOrder"

definition EscalateNotify :: string where "EscalateNotify = ''notify''"
definition EscalateEscalate :: string where "EscalateEscalate = ''escalate''"
definition EscalateAutoReject :: string where "EscalateAutoReject = ''auto-reject''"

record escalation_policy =
  ep_on_timeout :: string
  ep_escalate_to :: string
  ep_notify_approvers :: "string list"

record level_config =
  lc_level :: string
  lc_trigger_condition :: string
  lc_required_approvers :: int
  lc_min_approvers :: int
  lc_timeout :: duration
  lc_escalation_policy :: escalation_policy

text \<open>The zero value Go gives for a key the map does not have.\<close>

definition zero_config :: level_config where
  "zero_config = \<lparr>lc_level = '''', lc_trigger_condition = '''', lc_required_approvers = 0,
     lc_min_approvers = 0, lc_timeout = 0,
     lc_escalation_policy = \<lparr>ep_on_timeout = '''', ep_escalate_to = '''', ep_notify_approvers = []\<rparr>\<rparr>"

record level_step =
  lv_module :: string
  lv_action :: string
  lv_target :: string
  lv_irreversible :: bool
  lv_emergency :: bool

type_synonym level_manager = "string \<rightharpoonup> level_config"

definition NewLevelManager :: level_manager where
  "NewLevelManager = Map.empty
    (LevelStandard \<mapsto> \<lparr>lc_level = LevelStandard,
       lc_trigger_condition = ''default tier for reversible operations'',
       lc_required_approvers = 1, lc_min_approvers = 1, lc_timeout = 24 * hour,
       lc_escalation_policy = \<lparr>ep_on_timeout = EscalateNotify, ep_escalate_to = '''', ep_notify_approvers = []\<rparr>\<rparr>,
     LevelHigh \<mapsto> \<lparr>lc_level = LevelHigh,
       lc_trigger_condition = ''irreversible or destructive operations (explicit mark or whitelist match)'',
       lc_required_approvers = 2, lc_min_approvers = 2, lc_timeout = 4 * hour,
       lc_escalation_policy = \<lparr>ep_on_timeout = EscalateEscalate, ep_escalate_to = LevelEmergency,
         ep_notify_approvers = []\<rparr>\<rparr>,
     LevelEmergency \<mapsto> \<lparr>lc_level = LevelEmergency,
       lc_trigger_condition = ''emergency change channel, fast turnaround, single approver'',
       lc_required_approvers = 1, lc_min_approvers = 1, lc_timeout = 30 * minute,
       lc_escalation_policy = \<lparr>ep_on_timeout = EscalateAutoReject, ep_escalate_to = '''',
         ep_notify_approvers = []\<rparr>\<rparr>)"

definition LevelGet :: "level_manager \<Rightarrow> string \<Rightarrow> approval_error + level_config" where
  "LevelGet m l = (case m l of None \<Rightarrow> Inl (ErrInvalidLevel l) | Some c \<Rightarrow> Inr c)"

definition map_index :: "level_manager \<Rightarrow> string \<Rightarrow> level_config" where
  "map_index m l = (case m l of None \<Rightarrow> zero_config | Some c \<Rightarrow> c)"

definition LevelAll :: "level_manager \<Rightarrow> level_config list" where
  "LevelAll m = map (map_index m) levelOrder"

definition MinApproversFor :: "string \<Rightarrow> approval_error + int" where
  "MinApproversFor l = (case LevelGet NewLevelManager l of Inl e \<Rightarrow> Inl e | Inr c \<Rightarrow> Inr (lc_min_approvers c))"

definition ForcesInitiatorExclusion :: "string \<Rightarrow> bool" where
  "ForcesInitiatorExclusion l \<longleftrightarrow> l = LevelHigh"

definition SetConfig :: "level_config \<Rightarrow> level_manager \<Rightarrow> (approval_error + unit) \<times> level_manager" where
  "SetConfig cfg m = (if lc_level cfg \<notin> dom m then (Inl (ErrInvalidLevel (lc_level cfg)), m)
     else (Inr (), m(lc_level cfg \<mapsto> cfg)))"

definition DetermineLevel :: "level_manager \<Rightarrow> level_step \<Rightarrow> level_config" where
  "DetermineLevel m s = (if lv_emergency s then map_index m LevelEmergency
     else if lv_irreversible s then map_index m LevelHigh else map_index m LevelStandard)"

definition DetermineLevelName :: "level_manager \<Rightarrow> level_step \<Rightarrow> string" where
  "DetermineLevelName m s = lc_level (DetermineLevel m s)"

section \<open>The row of a record\<close>

record approval_extra =
  ex_approvers :: "string list"
  ex_min_approvers :: int
  ex_decisions :: "decision list"
  ex_created_at :: time
  ex_expires_at :: time
  ex_initiator :: string
  ex_exclude_initiator :: bool
  ex_superseded_reason :: string

text \<open>\<^verbatim>\<open>json.Marshal\<close> and \<^verbatim>\<open>json.Unmarshal\<close> at \<^verbatim>\<open>approvalExtra\<close>; \<open>None\<close> is their error.\<close>

record approval_codec =
  json_marshal :: "approval_extra \<Rightarrow> string option"
  json_unmarshal :: "string \<Rightarrow> approval_extra option"

definition empty_extra :: approval_extra where
  "empty_extra = \<lparr>ex_approvers = [], ex_min_approvers = 0, ex_decisions = [], ex_created_at = zero_time,
     ex_expires_at = zero_time, ex_initiator = '''', ex_exclude_initiator = False, ex_superseded_reason = ''''\<rparr>"

definition extra_of :: "approval \<Rightarrow> approval_extra" where
  "extra_of a = \<lparr>ex_approvers = av_approvers a, ex_min_approvers = av_min_approvers a,
     ex_decisions = av_decisions a, ex_created_at = av_created_at a, ex_expires_at = av_expires_at a,
     ex_initiator = av_initiator a, ex_exclude_initiator = av_exclude_initiator a,
     ex_superseded_reason = av_superseded_reason a\<rparr>"

definition StateApproval :: "approval_codec \<Rightarrow> approval \<Rightarrow> approval_row option" where
  "StateApproval jc a = (case json_marshal jc (extra_of a) of
     None \<Rightarrow> None
   | Some blob \<Rightarrow>
      let (approver, acted) = (if av_decisions a = [] then ('''', None)
            else let d = last (av_decisions a) in
              (dc_approver d, if dc_at d = zero_time then None else Some (dc_at d)))
      in Some \<lparr>ap_id = av_id a, ap_run_id = av_run_id a, ap_level = av_level a, ap_approver = approver,
           ap_status = av_status a, ap_comment = blob,
           ap_timeout_at = (if av_expires_at a = zero_time then None else Some (av_expires_at a)),
           ap_acted_at = acted, ap_plan_hash = av_plan_hash a, ap_revision = av_revision a,
           ap_tenant_id = ''''\<rparr>)"

definition with_extra :: "approval_row \<Rightarrow> approval_extra \<Rightarrow> approval" where
  "with_extra sa e = \<lparr>av_id = ap_id sa, av_run_id = ap_run_id sa, av_level = ap_level sa,
     av_status = ap_status sa, av_approvers = ex_approvers e, av_min_approvers = ex_min_approvers e,
     av_decisions = ex_decisions e, av_created_at = ex_created_at e,
     av_expires_at = (case ap_timeout_at sa of
         Some t \<Rightarrow> if ex_expires_at e = zero_time then t else ex_expires_at e
       | None \<Rightarrow> ex_expires_at e),
     av_plan_hash = ap_plan_hash sa, av_initiator = ex_initiator e,
     av_exclude_initiator = ex_exclude_initiator e, av_revision = ap_revision sa,
     av_superseded_reason = ex_superseded_reason e\<rparr>"

definition ApprovalFromState :: "approval_codec \<Rightarrow> approval_row \<Rightarrow> approval_error + approval" where
  "ApprovalFromState jc sa =
     (if ap_comment sa \<noteq> '''' then
        (case json_unmarshal jc (ap_comment sa) of
           None \<Rightarrow> Inl (UnparsableMetadata (ap_id sa))
         | Some e \<Rightarrow> Inr (with_extra sa e))
      else Inr (with_extra sa empty_extra))"

definition MarkSuperseded :: "approval_codec \<Rightarrow> approval_row option \<Rightarrow> string \<Rightarrow> approval_error + approval_row" where
  "MarkSuperseded jc sao reason = (case sao of
     None \<Rightarrow> Inl NilApproval
   | Some sa \<Rightarrow>
      (case (if ap_comment sa \<noteq> '''' then json_unmarshal jc (ap_comment sa) else Some empty_extra) of
         None \<Rightarrow> Inl (UnparsableMetadata (ap_id sa))
       | Some e \<Rightarrow> (case json_marshal jc (e\<lparr>ex_superseded_reason := reason\<rparr>) of
             None \<Rightarrow> Inl MarshalFailed
           | Some blob \<Rightarrow> Inr (sa\<lparr>ap_comment := blob\<rparr>))))"

section \<open>The store interface and the adapter over the database\<close>

record approval_store =
  st_create :: "approval \<Rightarrow> unit approval_op"
  st_get :: "string \<Rightarrow> approval option approval_op"
  st_update :: "approval \<Rightarrow> unit approval_op"
  st_update_if_pending :: "approval \<Rightarrow> bool approval_op"
  st_list_pending :: "approval list approval_op"
  st_list_by_run :: "string \<Rightarrow> approval list approval_op"

definition AdapterCreate :: "approval_codec \<Rightarrow> approval \<Rightarrow> unit approval_op" where
  "AdapterCreate jc a w = (case StateApproval jc a of
     None \<Rightarrow> (Inl MarshalFailed, w)
   | Some sa \<Rightarrow> (case CreateApproval sa w of
       (Inl e, w1) \<Rightarrow> (Inl (ApprovalStoreError e), w1) | (Inr _, w1) \<Rightarrow> (Inr (), w1)))"

definition AdapterGet :: "approval_codec \<Rightarrow> string \<Rightarrow> approval option approval_op" where
  "AdapterGet jc i w = (case GetApproval i w of
     (Inl e, w1) \<Rightarrow> (Inl (ApprovalStoreError e), w1)
   | (Inr None, w1) \<Rightarrow> (Inr None, w1)
   | (Inr (Some sa), w1) \<Rightarrow> (case ApprovalFromState jc sa of Inl e \<Rightarrow> (Inl e, w1) | Inr a \<Rightarrow> (Inr (Some a), w1)))"

definition AdapterUpdate :: "approval_codec \<Rightarrow> approval \<Rightarrow> unit approval_op" where
  "AdapterUpdate jc a w = (case StateApproval jc a of
     None \<Rightarrow> (Inl MarshalFailed, w)
   | Some sa \<Rightarrow> (case UpdateApproval sa w of
       (Inl e, w1) \<Rightarrow> (Inl (ApprovalStoreError e), w1) | (Inr _, w1) \<Rightarrow> (Inr (), w1)))"

definition AdapterUpdateIfPending :: "approval_codec \<Rightarrow> approval \<Rightarrow> bool approval_op" where
  "AdapterUpdateIfPending jc a w = (case StateApproval jc a of
     None \<Rightarrow> (Inl MarshalFailed, w)
   | Some sa \<Rightarrow> (case UpdateApprovalIfPending sa w of
       (Inl e, w1) \<Rightarrow> (Inl (ApprovalStoreError e), w1) | (Inr ok, w1) \<Rightarrow> (Inr ok, w1)))"

text \<open>Rows whose metadata does not parse are left out of the lists.\<close>

definition parsable :: "approval_codec \<Rightarrow> approval_row list \<Rightarrow> approval list" where
  "parsable jc sas = concat (map (\<lambda>sa. case ApprovalFromState jc sa of Inl _ \<Rightarrow> [] | Inr a \<Rightarrow> [a]) sas)"

definition AdapterListPending :: "approval_codec \<Rightarrow> approval list approval_op" where
  "AdapterListPending jc w =
    (case ListApprovals \<lparr>af_run_id = '''', af_level = '''', af_status = ApprovalPending, af_limit = 0,
            af_tenant_id = ''''\<rparr> w of
       (Inl e, w1) \<Rightarrow> (Inl (ApprovalStoreError e), w1)
     | (Inr sas, w1) \<Rightarrow> (Inr (parsable jc sas), w1))"

text \<open>Newest first: descending creation time, then descending id.\<close>

definition newest_first :: "approval list \<Rightarrow> approval list" where
  "newest_first as = rev (sort_key av_created_at (sort_key av_id as))"

definition AdapterListByRun :: "approval_codec \<Rightarrow> string \<Rightarrow> approval list approval_op" where
  "AdapterListByRun jc rid w =
    (case ListApprovals \<lparr>af_run_id = rid, af_level = '''', af_status = '''', af_limit = 0,
            af_tenant_id = ''''\<rparr> w of
       (Inl e, w1) \<Rightarrow> (Inl (ApprovalStoreError e), w1)
     | (Inr sas, w1) \<Rightarrow> (Inr (newest_first (parsable jc sas)), w1))"

definition approvalStoreAdapter :: "approval_codec \<Rightarrow> approval_store" where
  "approvalStoreAdapter jc = \<lparr>st_create = AdapterCreate jc, st_get = AdapterGet jc,
     st_update = AdapterUpdate jc, st_update_if_pending = AdapterUpdateIfPending jc,
     st_list_pending = AdapterListPending jc, st_list_by_run = AdapterListByRun jc\<rparr>"

section \<open>The service\<close>

type_synonym decision_guard = "string \<Rightarrow> string \<Rightarrow> approval \<Rightarrow> world \<Rightarrow> string option \<times> world"
type_synonym decision_observer = "approval \<Rightarrow> string \<Rightarrow> world \<Rightarrow> world"

text \<open>
  A guard gives the text of its refusal or \<open>None\<close>; an observer's panic is recovered by the
  service, so an observer is what it did to the world.
\<close>

record approval_service =
  sv_store :: approval_store
  sv_guard :: "decision_guard option"
  sv_observers :: "decision_observer list"

definition NewService :: "approval_store \<Rightarrow> approval_service" where
  "NewService st = \<lparr>sv_store = st, sv_guard = None, sv_observers = []\<rparr>"

definition WithDecisionObserver :: "decision_observer option \<Rightarrow> approval_service \<Rightarrow> approval_service" where
  "WithDecisionObserver fo s = (case fo of
     None \<Rightarrow> s\<lparr>sv_observers := []\<rparr> | Some f \<Rightarrow> s\<lparr>sv_observers := sv_observers s @ [f]\<rparr>)"

definition WithDecisionGuard :: "decision_guard option \<Rightarrow> approval_service \<Rightarrow> approval_service" where
  "WithDecisionGuard g s = s\<lparr>sv_guard := g\<rparr>"

definition newApprovalID :: "world \<Rightarrow> string option \<times> world" where
  "newApprovalID w = (case rand_read w of
     (None, w1) \<Rightarrow> (None, w1) | (Some r, w1) \<Rightarrow> (Some (''approval-'' @ r), w1))"

definition new_record :: "create_request \<Rightarrow> string \<Rightarrow> int \<Rightarrow> time \<Rightarrow> approval" where
  "new_record req i m now = \<lparr>av_id = i, av_run_id = cr_run_id req, av_level = cr_level req,
     av_status = ApprovalPending, av_approvers = cr_approvers req, av_min_approvers = m,
     av_decisions = [], av_created_at = now, av_expires_at = cr_expires_at req,
     av_plan_hash = cr_plan_hash req, av_initiator = cr_initiator req,
     av_exclude_initiator = cr_exclude_initiator req, av_revision = 0, av_superseded_reason = ''''\<rparr>"

definition ServiceCreate :: "approval_service \<Rightarrow> create_request \<Rightarrow> approval approval_op" where
  "ServiceCreate s req w =
    (if cr_run_id req = '''' then (Inl ErrEmptyRunID, w)
     else if \<not> IsLevel (cr_level req) then (Inl (ErrInvalidLevel (cr_level req)), w)
     else let m = (if cr_min_approvers req \<le> 0 then 1 else cr_min_approvers req) in
      if cr_approvers req \<noteq> [] \<and> m > int (length (cr_approvers req))
      then (Inl (ErrMinApproversTooLarge m (int (length (cr_approvers req)))), w)
      else case time_now w of (now, w1) \<Rightarrow>
       case (if cr_id req = '''' then newApprovalID w1 else (Some (cr_id req), w1)) of
         (None, w2) \<Rightarrow> (Inl ApprovalIDFailed, w2)
       | (Some i, w2) \<Rightarrow>
          let a = new_record req i m now in
          (case st_create (sv_store s) a w2 of (Inl e, w3) \<Rightarrow> (Inl e, w3) | (Inr _, w3) \<Rightarrow> (Inr a, w3)))"

definition isAuthorized :: "string list \<Rightarrow> string \<Rightarrow> bool" where
  "isAuthorized approvers approver = (if approvers = [] then True else approver \<in> set approvers)"

definition hasDecided :: "decision list \<Rightarrow> string \<Rightarrow> bool" where
  "hasDecided ds approver \<longleftrightarrow> (\<exists>d\<in>set ds. dc_approver d = approver)"

definition countApproves :: "decision list \<Rightarrow> int" where
  "countApproves ds = int (count_where (\<lambda>d. dc_action d = ActionApprove) ds)"

definition casMaxAttempts :: nat where "casMaxAttempts = 4"

text \<open>The checks of one attempt on the record just read: the refusal, or the record to write.\<close>

definition clamp_min :: "approval \<Rightarrow> approval" where
  "clamp_min a = (if av_min_approvers a \<le> 0 then a\<lparr>av_min_approvers := 1\<rparr> else a)"

definition ballot_refusal :: "approval \<Rightarrow> string \<Rightarrow> approval_error option" where
  "ballot_refusal a approver =
    (if \<not> isAuthorized (av_approvers a) approver then Some (ErrUnauthorizedApprover approver)
     else if av_exclude_initiator a \<and> av_initiator a \<noteq> '''' \<and> approver = av_initiator a
     then Some (ErrInitiatorExcluded approver)
     else if hasDecided (av_decisions a) approver then Some (ErrDuplicateDecision approver)
     else None)"

definition settle :: "approval \<Rightarrow> decision \<Rightarrow> string \<Rightarrow> approval" where
  "settle a d target =
    (let a1 = a\<lparr>av_decisions := av_decisions a @ [d]\<rparr> in
     if target = ApprovalRejected then a1\<lparr>av_status := ApprovalRejected\<rparr>
     else if countApproves (av_decisions a1) \<ge> av_min_approvers a1 then a1\<lparr>av_status := ApprovalApproved\<rparr>
     else a1)"

definition consult_guard :: "decision_guard option \<Rightarrow> string \<Rightarrow> string \<Rightarrow> approval \<Rightarrow> world \<Rightarrow> string option \<times> world" where
  "consult_guard go approver action a w = (case go of None \<Rightarrow> (None, w) | Some g \<Rightarrow> g approver action a w)"

primrec notify_observers :: "decision_observer list \<Rightarrow> approval \<Rightarrow> string \<Rightarrow> world \<Rightarrow> world" where
  "notify_observers [] a action w = w"
| "notify_observers (f # fs) a action w = notify_observers fs a action (f a action w)"

text \<open>The loop: \<open>k\<close> attempts left, \<open>lastErr\<close> what the previous attempt left.\<close>

primrec decide_attempts ::
    "nat \<Rightarrow> approval_error option \<Rightarrow> approval_service \<Rightarrow> string \<Rightarrow> string \<Rightarrow> string \<Rightarrow> string \<Rightarrow> string \<Rightarrow> unit approval_op" where
  "decide_attempts 0 lastErr s i approver action reason target w =
     ((case lastErr of None \<Rightarrow> Inr () | Some e \<Rightarrow> Inl e), w)"
| "decide_attempts (Suc k) lastErr s i approver action reason target w =
    (case st_get (sv_store s) i w of
       (Inl e, w1) \<Rightarrow> (Inl e, w1)
     | (Inr None, w1) \<Rightarrow> (Inl ErrApprovalNotFound, w1)
     | (Inr (Some a0), w1) \<Rightarrow>
        if \<not> canTransition (av_status a0) target then (Inl (ErrInvalidTransition (av_status a0) target), w1)
        else (case consult_guard (sv_guard s) approver action a0 w1 of
           (Some why, w2) \<Rightarrow> (Inl (ErrDecisionDenied why), w2)
         | (None, w2) \<Rightarrow>
            let a = clamp_min a0 in
            (case ballot_refusal a approver of
               Some e \<Rightarrow> (Inl e, w2)
             | None \<Rightarrow>
               (case time_now w2 of (now, w3) \<Rightarrow>
                let a' = settle a \<lparr>dc_approver = approver, dc_action = action, dc_reason = reason, dc_at = now\<rparr> target in
                case st_update_if_pending (sv_store s) a' w3 of
                  (Inl e, w4) \<Rightarrow> (Inl e, w4)
                | (Inr True, w4) \<Rightarrow> (Inr (), notify_observers (sv_observers s) a' action w4)
                | (Inr False, w4) \<Rightarrow>
                   decide_attempts k (Some (ErrConflict i approver)) s i approver action reason target w4))))"

definition decide :: "approval_service \<Rightarrow> string \<Rightarrow> string \<Rightarrow> string \<Rightarrow> string \<Rightarrow> string \<Rightarrow> unit approval_op" where
  "decide = decide_attempts casMaxAttempts None"

definition Approve :: "approval_service \<Rightarrow> string \<Rightarrow> string \<Rightarrow> unit approval_op" where
  "Approve s i approver = decide s i approver ActionApprove '''' ApprovalApproved"

definition Reject :: "approval_service \<Rightarrow> string \<Rightarrow> string \<Rightarrow> string \<Rightarrow> unit approval_op" where
  "Reject s i approver reason = decide s i approver ActionReject reason ApprovalRejected"

definition ServiceGet :: "approval_service \<Rightarrow> string \<Rightarrow> approval option approval_op" where
  "ServiceGet s i w = st_get (sv_store s) i w"

definition ApprovalForRun :: "approval_service \<Rightarrow> string \<Rightarrow> approval option approval_op" where
  "ApprovalForRun s rid w = (case st_list_by_run (sv_store s) rid w of
     (Inl e, w1) \<Rightarrow> (Inl e, w1)
   | (Inr [], w1) \<Rightarrow> (Inr None, w1)
   | (Inr (a # as), w1) \<Rightarrow> (Inr (Some a), w1))"

fun expiry_loop :: "approval_store \<Rightarrow> time \<Rightarrow> approval list \<Rightarrow> string list \<Rightarrow> string list approval_op" where
  "expiry_loop st now [] expired w = (Inr expired, w)"
| "expiry_loop st now (a # as) expired w =
    (if av_expires_at a = zero_time \<or> \<not> now > av_expires_at a then expiry_loop st now as expired w
     else if \<not> canTransition (av_status a) ApprovalExpired then expiry_loop st now as expired w
     else case st_update_if_pending st (a\<lparr>av_status := ApprovalExpired\<rparr>) w of
        (Inl e, w1) \<Rightarrow> (Inl e, w1)
      | (Inr False, w1) \<Rightarrow> expiry_loop st now as expired w1
      | (Inr True, w1) \<Rightarrow> expiry_loop st now as (expired @ [av_id a]) w1)"

definition CheckExpiry :: "approval_service \<Rightarrow> string list approval_op" where
  "CheckExpiry s w = (case st_list_pending (sv_store s) w of
     (Inl e, w1) \<Rightarrow> (Inl e, w1)
   | (Inr pending, w1) \<Rightarrow> (case time_now w1 of (now, w2) \<Rightarrow> expiry_loop (sv_store s) now pending [] w2))"

text \<open>The sweeper: settled records are read back; one that cannot be read is skipped.\<close>

fun read_settled :: "approval_service \<Rightarrow> string list \<Rightarrow> approval list \<Rightarrow> world \<Rightarrow> approval list \<times> world" where
  "read_settled s [] acc w = (acc, w)"
| "read_settled s (i # is) acc w = (case ServiceGet s i w of
     (Inl _, w1) \<Rightarrow> read_settled s is acc w1
   | (Inr None, w1) \<Rightarrow> read_settled s is acc w1
   | (Inr (Some a), w1) \<Rightarrow> read_settled s is (acc @ [a]) w1)"

definition SweepOnce :: "approval_service \<Rightarrow> (approval list \<Rightarrow> world \<Rightarrow> world) option \<Rightarrow> approval list approval_op" where
  "SweepOnce s onExpired w = (case CheckExpiry s w of
     (Inl e, w1) \<Rightarrow> (Inl e, w1)
   | (Inr ids, w1) \<Rightarrow>
      if ids = [] then (Inr [], w1)
      else case read_settled s ids [] w1 of (expired, w2) \<Rightarrow>
        (Inr expired, case onExpired of
           Some f \<Rightarrow> if expired \<noteq> [] then f expired w2 else w2 | None \<Rightarrow> w2))"

section \<open>Valid text and times\<close>

text \<open>
  \<^verbatim>\<open>utf8.ValidString\<close>, and the years \<^verbatim>\<open>time.Time.MarshalJSON\<close> accepts. A Go string that is
  not valid UTF-8 does not survive \<^verbatim>\<open>encoding/json\<close>, a year behind 9999 is an error.
\<close>

definition time_ok :: "time \<Rightarrow> bool" where
  "time_ok t \<longleftrightarrow> - 62167219200 * second \<le> t \<and> t < 253402300800 * second"

definition decision_text_ok :: "decision \<Rightarrow> bool" where
  "decision_text_ok d \<longleftrightarrow> utf8_valid (dc_approver d) \<and> utf8_valid (dc_action d) \<and> utf8_valid (dc_reason d) \<and> time_ok (dc_at d)"

definition text_ok :: "approval_extra \<Rightarrow> bool" where
  "text_ok e \<longleftrightarrow> list_all utf8_valid (ex_approvers e) \<and> list_all decision_text_ok (ex_decisions e) \<and>
     time_ok (ex_created_at e) \<and> time_ok (ex_expires_at e) \<and> utf8_valid (ex_initiator e) \<and>
     utf8_valid (ex_superseded_reason e)"

definition codec_ok :: "approval_codec \<Rightarrow> bool" where
  "codec_ok jc \<longleftrightarrow> (\<forall>e. text_ok e \<longrightarrow>
     (\<exists>s. json_marshal jc e = Some s \<and> s \<noteq> '''' \<and> json_unmarshal jc s = Some e))"

lemma decode_updated:
  assumes "codec_ok jc" and "text_ok (extra_of a)" and "StateApproval jc a = Some sa" and "ap_id old = av_id a"
  shows "ApprovalFromState jc (set_approval sa old) = Inr (a\<lparr>av_revision := ap_revision old + 1\<rparr>)"
proof -
  obtain s where "json_marshal jc (extra_of a) = Some s" "s \<noteq> ''''" "json_unmarshal jc s = Some (extra_of a)"
    using assms(1,2) by (auto simp: codec_ok_def)
  with assms(3,4) show ?thesis
    by (cases a) (auto simp: StateApproval_def ApprovalFromState_def set_approval_def with_extra_def extra_of_def Let_def
        split: if_splits)
qed

lemma decode_fresh:
  assumes "codec_ok jc" and "text_ok (extra_of a)"
  shows "\<exists>sa. StateApproval jc a = Some sa \<and> ApprovalFromState jc sa = Inr a"
proof -
  obtain s where "json_marshal jc (extra_of a) = Some s" "s \<noteq> ''''" "json_unmarshal jc s = Some (extra_of a)"
    using assms by (auto simp: codec_ok_def)
  then show ?thesis
    by (cases a) (auto simp: StateApproval_def ApprovalFromState_def with_extra_def extra_of_def Let_def)
qed

section \<open>What a record may become\<close>

text \<open>The terms of a ballot, fixed at creation; a quorum below one counts as one.\<close>

definition ballot_terms :: "approval \<Rightarrow> (string \<times> string \<times> string) \<times> string list \<times> int \<times> (string \<times> bool) \<times> time \<times> time" where
  "ballot_terms a = ((av_run_id a, av_level a, av_plan_hash a), av_approvers a, max 1 (av_min_approvers a),
     (av_initiator a, av_exclude_initiator a), av_created_at a, av_expires_at a)"

definition evolves :: "approval \<Rightarrow> approval \<Rightarrow> bool" where
  "evolves a b \<longleftrightarrow> a = b \<or>
     av_status a = ApprovalPending \<and> av_revision a < av_revision b \<and> av_id b = av_id a \<and>
     ballot_terms b = ballot_terms a \<and> take (length (av_decisions a)) (av_decisions b) = av_decisions a"

definition entitled :: "approval \<Rightarrow> decision \<Rightarrow> bool" where
  "entitled a d \<longleftrightarrow> isAuthorized (av_approvers a) (dc_approver d) \<and>
     (av_exclude_initiator a \<longrightarrow> av_initiator a \<noteq> '''' \<longrightarrow> dc_approver d \<noteq> av_initiator a)"

text \<open>
  A sound record: nobody voted twice, everybody who voted was entitled to, and the status is the
  one the votes give: rejected by a veto, approved by a quorum without a veto, pending otherwise
  (an expired record was pending).
\<close>

definition vetoed :: "approval \<Rightarrow> bool" where
  "vetoed a \<longleftrightarrow> list_ex (\<lambda>d. dc_action d \<noteq> ActionApprove) (av_decisions a)"

definition quorum :: "approval \<Rightarrow> bool" where
  "quorum a \<longleftrightarrow> max 1 (av_min_approvers a) \<le> countApproves (av_decisions a)"

definition approval_ok :: "approval \<Rightarrow> bool" where
  "approval_ok a \<longleftrightarrow> distinct (map dc_approver (av_decisions a)) \<and> list_all (entitled a) (av_decisions a) \<and>
     text_ok (extra_of a) \<and>
     (av_status a = ApprovalApproved \<and> quorum a \<and> \<not> vetoed a \<or>
      av_status a = ApprovalRejected \<and> vetoed a \<or>
      (av_status a = ApprovalPending \<or> av_status a = ApprovalExpired) \<and> \<not> quorum a \<and> \<not> vetoed a)"

lemma evolves_refl [simp]: "evolves a a"
  by (simp add: evolves_def)

lemma evolves_trans:
  assumes "evolves a b" and "evolves b c"
  shows "evolves a c"
proof (cases "a = b \<or> b = c")
  case False
  with assms have ab: "take (length (av_decisions a)) (av_decisions b) = av_decisions a"
    and bc: "take (length (av_decisions b)) (av_decisions c) = av_decisions b"
    by (auto simp: evolves_def)
  have "take (length (av_decisions a)) (take (length (av_decisions b)) (av_decisions c)) = av_decisions a"
    using ab bc by simp
  moreover have "length (av_decisions a) \<le> length (av_decisions b)"
    using ab by (metis nat_le_linear take_all)
  ultimately have "take (length (av_decisions a)) (av_decisions c) = av_decisions a" by (simp add: min_def)
  with assms False show ?thesis by (auto simp: evolves_def)
qed (use assms in auto)

lemma evolves_same_revision: "evolves a b \<Longrightarrow> av_revision b = av_revision a \<Longrightarrow> b = a"
  by (auto simp: evolves_def)

lemma evolves_settled: "evolves a b \<Longrightarrow> av_status a \<noteq> ApprovalPending \<Longrightarrow> b = a"
  by (auto simp: evolves_def)

lemma evolves_keeps_vote: "evolves a b \<Longrightarrow> d \<in> set (av_decisions a) \<Longrightarrow> d \<in> set (av_decisions b)"
  unfolding evolves_def by (metis in_set_takeD)

lemma evolves_id: "evolves a b \<Longrightarrow> av_id b = av_id a"
  by (auto simp: evolves_def)

text \<open>The two writes the service makes.\<close>

lemma clamp_min_fields [simp]:
  "av_id (clamp_min a) = av_id a" "av_status (clamp_min a) = av_status a"
  "av_decisions (clamp_min a) = av_decisions a" "av_revision (clamp_min a) = av_revision a"
  "av_approvers (clamp_min a) = av_approvers a" "av_initiator (clamp_min a) = av_initiator a"
  "av_exclude_initiator (clamp_min a) = av_exclude_initiator a" "av_min_approvers (clamp_min a) = max 1 (av_min_approvers a)"
  "ballot_terms (clamp_min a) = ballot_terms a"
  by (auto simp: clamp_min_def ballot_terms_def)

lemma settle_fields [simp]:
  "av_id (settle a d t) = av_id a" "av_decisions (settle a d t) = av_decisions a @ [d]"
  "av_revision (settle a d t) = av_revision a" "ballot_terms (settle a d t) = ballot_terms a"
  "av_approvers (settle a d t) = av_approvers a" "av_initiator (settle a d t) = av_initiator a"
  "av_exclude_initiator (settle a d t) = av_exclude_initiator a" "av_min_approvers (settle a d t) = av_min_approvers a"
  "av_created_at (settle a d t) = av_created_at a" "av_expires_at (settle a d t) = av_expires_at a"
  "av_superseded_reason (settle a d t) = av_superseded_reason a"
  by (auto simp: settle_def Let_def ballot_terms_def)

lemma settle_status:
  "av_status (settle a d t) = (if t = ApprovalRejected then ApprovalRejected
     else if av_min_approvers a \<le> countApproves (av_decisions a @ [d]) then ApprovalApproved else av_status a)"
  by (simp add: settle_def Let_def)

definition bump :: "approval \<Rightarrow> approval" where
  "bump a = a\<lparr>av_revision := av_revision a + 1\<rparr>"

lemma bump_fields [simp]:
  "av_id (bump a) = av_id a" "av_status (bump a) = av_status a" "av_decisions (bump a) = av_decisions a"
  "av_revision (bump a) = av_revision a + 1" "ballot_terms (bump a) = ballot_terms a"
  "extra_of (bump a) = extra_of a" "approval_ok (bump a) = approval_ok a"
  by (simp_all add: bump_def ballot_terms_def extra_of_def approval_ok_def entitled_def [abs_def] vetoed_def quorum_def)

text \<open>\<open>permitted a b\<close>: the service may replace the pending record \<open>a\<close> by \<open>b\<close>.\<close>

definition permitted :: "approval \<Rightarrow> approval \<Rightarrow> bool" where
  "permitted a b \<longleftrightarrow> av_revision b = av_revision a \<and> av_id b = av_id a \<and> evolves a (bump b) \<and> approval_ok b"

lemma expire_permitted:
  assumes "approval_ok a" and "av_status a = ApprovalPending"
  shows "permitted a (a\<lparr>av_status := ApprovalExpired\<rparr>)"
proof -
  have "approval_ok (a\<lparr>av_status := ApprovalExpired\<rparr>)"
    using assms unfolding approval_ok_def entitled_def [abs_def]
    by (auto simp: extra_of_def vetoed_def quorum_def approval_status_defs)
  then show ?thesis using assms(2) by (simp add: permitted_def evolves_def ballot_terms_def bump_def)
qed

lemma text_ok_settle:
  assumes "text_ok (extra_of a)" and "decision_text_ok d"
  shows "text_ok (extra_of (settle (clamp_min a) d t))"
  using assms by (simp add: text_ok_def extra_of_def clamp_min_def)

lemma settle_permitted:
  assumes ok: "approval_ok a" and pending: "av_status a = ApprovalPending"
    and ballot: "ballot_refusal (clamp_min a) (dc_approver d) = None" and text_d: "decision_text_ok d"
    and kind: "dc_action d = ActionApprove \<and> t = ApprovalApproved \<or> dc_action d = ActionReject \<and> t = ApprovalRejected"
  shows "permitted a (settle (clamp_min a) d t)"
proof -
  let ?b = "settle (clamp_min a) d t"
  have ent: "entitled a d" and new: "\<not> hasDecided (av_decisions a) (dc_approver d)"
    using ballot by (auto simp: ballot_refusal_def entitled_def split: if_splits)
  have "entitled ?b = entitled a" by (rule ext) (simp add: entitled_def)
  then have votes: "distinct (map dc_approver (av_decisions ?b))" "list_all (entitled ?b) (av_decisions ?b)"
    using ok ent new by (auto simp: approval_ok_def hasDecided_def)
  have veto: "vetoed ?b \<longleftrightarrow> t = ApprovalRejected"
    using ok pending kind by (auto simp: approval_ok_def vetoed_def approval_status_defs ActionApprove_def ActionReject_def)
  have quorum: "quorum ?b \<longleftrightarrow> max 1 (av_min_approvers a) \<le> countApproves (av_decisions a @ [d])"
    by (simp add: quorum_def)
  have status: "av_status ?b = (if t = ApprovalRejected then ApprovalRejected
      else if quorum ?b then ApprovalApproved else ApprovalPending)"
    unfolding quorum by (simp add: settle_status pending)
  have "approval_ok ?b"
    using votes veto status text_ok_settle [OF _ text_d] ok kind
    by (auto simp: approval_ok_def approval_status_defs)
  then show ?thesis using pending by (simp add: permitted_def evolves_def)
qed

text \<open>A request in valid text, and the record it opens.\<close>

definition request_ok :: "create_request \<Rightarrow> bool" where
  "request_ok req \<longleftrightarrow> list_all utf8_valid (cr_approvers req) \<and> utf8_valid (cr_initiator req) \<and> time_ok (cr_expires_at req)"

lemma new_record_ok:
  assumes "request_ok req" and "time_ok now"
  shows "approval_ok (new_record req i m now)"
  using assms by (simp add: approval_ok_def new_record_def request_ok_def text_ok_def extra_of_def vetoed_def quorum_def
      countApproves_def count_where_def)

section \<open>The contract of the store\<close>

text \<open>
  What the service relies on. \<open>record_of w i\<close> is the record an id has in \<open>w\<close>; \<open>follows w w'\<close>
  says that \<open>w'\<close> came out of \<open>w\<close> by reads, by lawful writes of anybody, and by time passing. The
  compare-and-set law is the essential one: a write that is permitted to follow the record the
  caller read is applied to exactly that record, or not at all.
\<close>

locale ballot_store =
  fixes st :: approval_store
    and record_of :: "world \<Rightarrow> string \<Rightarrow> approval option"
    and follows :: "world \<Rightarrow> world \<Rightarrow> bool"
    and steady :: "world \<Rightarrow> bool"
  assumes follows_trans: "follows w w1 \<Longrightarrow> follows w1 w2 \<Longrightarrow> follows w w2"
    and follows_tick: "follows w (w\<lparr>w_tick := n\<rparr>)"
    and steady_follows: "steady w \<Longrightarrow> follows w w' \<Longrightarrow> steady w'"
    and steady_clock: "steady w \<Longrightarrow> time_ok (w_clock w n)"
    and steady_record: "steady w \<Longrightarrow> record_of w i = Some a \<Longrightarrow> approval_ok a \<and> av_id a = i"
    and record_follows: "follows w w' \<Longrightarrow> record_of w i = Some a \<Longrightarrow> \<exists>b. record_of w' i = Some b \<and> evolves a b"
    and get_record: "steady w \<Longrightarrow> st_get st i w = (r, w') \<Longrightarrow>
        follows w w' \<and> (\<forall>a. r = Inr (Some a) \<longrightarrow> record_of w' i = Some a)"
    and list_records: "steady w \<Longrightarrow> st_list_pending st w = (rs, w') \<Longrightarrow>
        follows w w' \<and> (\<forall>as a. rs = Inr as \<longrightarrow> a \<in> set as \<longrightarrow> record_of w' (av_id a) = Some a)"
    and create_record: "steady w \<Longrightarrow> approval_ok a \<Longrightarrow> st_create st a w = (u, w') \<Longrightarrow> follows w w'"
    and compare_and_set: "steady w \<Longrightarrow> follows w0 w \<Longrightarrow> record_of w0 (av_id b) = Some a \<Longrightarrow> permitted a b \<Longrightarrow>
        st_update_if_pending st b w = (ok, w') \<Longrightarrow>
        follows w w' \<and> (ok = Inr True \<longrightarrow> record_of w' (av_id b) = Some (bump b))"
begin

definition calm_service :: "approval_service \<Rightarrow> bool" where
  "calm_service s \<longleftrightarrow> sv_store s = st \<and>
     (\<forall>g n act a w. sv_guard s = Some g \<longrightarrow> steady w \<longrightarrow> follows w (snd (g n act a w))) \<and>
     (\<forall>f act a w. f \<in> set (sv_observers s) \<longrightarrow> steady w \<longrightarrow> follows w (f a act w))"

lemma guard_follows:
  "calm_service s \<Longrightarrow> steady w \<Longrightarrow> consult_guard (sv_guard s) n act a w = (r, w') \<Longrightarrow> follows w w'"
  using follows_tick [of w "w_tick w"]
  by (auto simp: consult_guard_def calm_service_def split: option.splits) (metis snd_conv)

lemma observers_follow:
  assumes "\<forall>f act a w. f \<in> set fs \<longrightarrow> steady w \<longrightarrow> follows w (f a act w)" and "steady w"
  shows "follows w (notify_observers fs a act w)"
  using assms
proof (induction fs arbitrary: w)
  case Nil
  then show ?case using follows_tick [of w "w_tick w"] by simp
next
  case (Cons f fs)
  then have "follows w (f a act w)" by simp
  moreover from this Cons.prems have "steady (f a act w)" using steady_follows by blast
  ultimately show ?case using Cons.IH Cons.prems(1) follows_trans by simp
qed

lemma Create_follows:
  assumes "steady w" and "sv_store s = st" and "request_ok req" and "ServiceCreate s req w = (r, w')"
  shows "follows w w'"
proof -
  have tick: "follows w w" "follows w (w\<lparr>w_tick := n\<rparr>)" for n using follows_tick [of w "w_tick w"] follows_tick by simp_all
  have "follows w w3" if "st_create st (new_record req i m (w_clock w (w_tick w))) (w\<lparr>w_tick := n\<rparr>) = (u, w3)" for i m n u w3
    using create_record [OF steady_follows [OF assms(1) tick(2)] new_record_ok that] assms(3)
      steady_clock [OF assms(1)] follows_trans tick(2) by blast
  then show ?thesis using assms(2,4) tick
    by (auto simp: ServiceCreate_def Let_def time_now_def newApprovalID_def rand_read_def
        split: if_splits option.splits prod.splits sum.splits)
qed

text \<open>One decision, with everything that may happen around it.\<close>

lemma decide_follows:
  assumes "steady w" and "calm_service s" and "utf8_valid approver" and "utf8_valid reason"
    and "action = ActionApprove \<and> target = ApprovalApproved \<or> action = ActionReject \<and> target = ApprovalRejected"
    and "decide_attempts k le s i approver action reason target w = (r, w')"
  shows "follows w w' \<and> (r = Inr () \<longrightarrow> k = 0 \<and> le = None \<or>
      (\<exists>a d. record_of w' i = Some a \<and> d \<in> set (av_decisions a) \<and> dc_approver d = approver \<and> dc_action d = action))"
  using assms(1,6)
proof (induction k arbitrary: w le)
  case 0
  then show ?case using follows_tick [of w "w_tick w"] by (auto split: option.splits)
next
  case (Suc k)
  have st: "sv_store s = st" using assms(2) by (simp add: calm_service_def)
  obtain g w1 where get: "st_get st i w = (g, w1)" by fastforce
  note rec = get_record [OF Suc.prems(1) get]
  show ?case
  proof (cases "\<exists>a. g = Inr (Some a) \<and> canTransition (av_status a) target")
    case False
    then show ?thesis using Suc.prems(2) get st rec by (auto split: sum.splits option.splits)
  next
    case True
    then obtain a where g: "g = Inr (Some a)" and can: "canTransition (av_status a) target" by blast
    have s1: "steady w1" using steady_follows [OF Suc.prems(1)] rec by blast
    have a: "record_of w1 i = Some a" "approval_ok a" "av_id a = i" using rec g steady_record [OF s1] by auto
    obtain gv w2 where gd: "consult_guard (sv_guard s) approver action a w1 = (gv, w2)" by fastforce
    have f12: "follows w1 w2" using guard_follows [OF assms(2) s1 gd] .
    have s2: "steady w2" using steady_follows [OF s1 f12] .
    have f2: "follows w w2" using follows_trans rec f12 by blast
    show ?thesis
    proof (cases "gv = None \<and> ballot_refusal (clamp_min a) approver = None")
      case False
      then show ?thesis using Suc.prems(2) get g can st gd f2 by (auto simp: Let_def split: option.splits)
    next
      case True
      let ?w3 = "w2\<lparr>w_tick := Suc (w_tick w2)\<rparr>"
      let ?d = "\<lparr>dc_approver = approver, dc_action = action, dc_reason = reason, dc_at = w_clock w2 (w_tick w2)\<rparr>"
      let ?b = "settle (clamp_min a) ?d target"
      obtain ok w4 where cas: "st_update_if_pending st ?b ?w3 = (ok, w4)" by fastforce
      have s3: "steady ?w3" using steady_follows [OF s2 follows_tick] .
      have "decision_text_ok ?d" using assms(3-5) steady_clock [OF s2]
        by (auto simp: decision_text_ok_def ActionApprove_def ActionReject_def byte_in_def)
      moreover have "av_status a = ApprovalPending" using can by (simp add: canTransition_def split: if_splits)
      ultimately have perm: "permitted a ?b" using settle_permitted [of a ?d target] a True assms(5) by simp
      have "follows ?w3 w4 \<and> (ok = Inr True \<longrightarrow> record_of w4 i = Some (bump ?b))"
        using compare_and_set [OF s3 follows_trans [OF f12 follows_tick] _ perm cas] a by simp
      then have f4: "follows w w4" and rb: "ok = Inr True \<Longrightarrow> record_of w4 i = Some (bump ?b)"
        using follows_trans [OF follows_trans [OF f2 follows_tick]] by blast+
      have s4: "steady w4" using steady_follows [OF Suc.prems(1) f4] .
      have obs: "follows w4 (notify_observers (sv_observers s) ?b action w4)"
        using observers_follow [OF _ s4] assms(2) by (simp add: calm_service_def)
      have step: "decide_attempts (Suc k) le s i approver action reason target w =
          (case ok of Inl e \<Rightarrow> (Inl e, w4)
           | Inr b \<Rightarrow> if b then (Inr (), notify_observers (sv_observers s) ?b action w4)
               else decide_attempts k (Some (ErrConflict i approver)) s i approver action reason target w4)"
        using get g can st gd True cas by (simp add: Let_def time_now_def split: sum.splits bool.splits)
      consider (err) e where "ok = Inl e" | (won) "ok = Inr True" | (lost) "ok = Inr False"
        by (cases ok) auto
      then show ?thesis
      proof cases
        case err
        then show ?thesis using Suc.prems(2) step f4 by simp
      next
        case won
        then obtain c where c: "record_of w' i = Some c" "evolves (bump ?b) c" and w': "r = Inr ()"
            "w' = notify_observers (sv_observers s) ?b action w4"
          using record_follows [OF obs rb [OF won]] Suc.prems(2) step by auto
        have "?d \<in> set (av_decisions c)" using evolves_keeps_vote [OF c(2)] by simp
        then show ?thesis using c(1) w' follows_trans [OF f4 obs] by (metis decision.select_convs(1,2))
      next
        case lost
        then show ?thesis
          using Suc.prems(2) step Suc.IH [OF s4] follows_trans [OF f4] by auto
      qed
    qed
  qed
qed

lemma expiry_loop_follows:
  assumes "steady w0" and "\<forall>a\<in>set as. record_of w0 (av_id a) = Some a" and "follows w0 w"
    and "expiry_loop st now as ex w = (r, w')"
  shows "follows w w'"
  using assms(2-)
proof (induction as arbitrary: w ex)
  case Nil
  then show ?case using follows_tick [of w "w_tick w"] by simp
next
  case (Cons a as)
  note skip = Cons.IH [OF _ Cons.prems(2)]
  show ?case
  proof (cases "av_expires_at a = zero_time \<or> \<not> now > av_expires_at a \<or> \<not> canTransition (av_status a) ApprovalExpired")
    case True
    then show ?thesis using skip Cons.prems(1,3) by (auto split: if_splits)
  next
    case False
    let ?b = "a\<lparr>av_status := ApprovalExpired\<rparr>"
    obtain ok w1 where cas: "st_update_if_pending st ?b w = (ok, w1)" by fastforce
    have "approval_ok a" using steady_record [OF assms(1)] Cons.prems(1) by auto
    moreover have "av_status a = ApprovalPending" using False by (auto simp: canTransition_def split: if_splits)
    ultimately have perm: "permitted a ?b" by (rule expire_permitted)
    have f1: "follows w w1"
      using compare_and_set [OF steady_follows [OF assms(1) Cons.prems(2)] Cons.prems(2) _ perm cas] Cons.prems(1)
      by simp
    note rest = Cons.IH [OF _ follows_trans [OF Cons.prems(2) f1]]
    show ?thesis
      using Cons.prems(1,3) False cas rest f1 follows_trans [OF f1]
      by (auto split: sum.splits bool.splits)
  qed
qed

lemma CheckExpiry_follows:
  assumes "steady w" and "sv_store s = st" and "CheckExpiry s w = (r, w')"
  shows "follows w w'"
proof -
  obtain ls w1 where ls: "st_list_pending st w = (ls, w1)" by fastforce
  note l = list_records [OF assms(1) ls]
  then have s1: "steady w1" using steady_follows assms(1) by blast
  show ?thesis
  proof (cases ls)
    case (Inr as)
    let ?w2 = "w1\<lparr>w_tick := Suc (w_tick w1)\<rparr>"
    have "expiry_loop st (w_clock w1 (w_tick w1)) as [] ?w2 = (r, w')"
      using assms(2,3) ls Inr by (simp add: CheckExpiry_def time_now_def)
    then have "follows ?w2 w'" using expiry_loop_follows [OF s1 _ follows_tick] l Inr by blast
    then show ?thesis using follows_trans [OF _ follows_trans [OF follows_tick]] l by blast
  qed (use assms ls l in \<open>simp add: CheckExpiry_def\<close>)
qed

lemma read_settled_follows:
  assumes "steady w" and "sv_store s = st" and "read_settled s is acc w = (r, w')"
  shows "follows w w'"
  using assms(1,3)
proof (induction "is" arbitrary: w acc)
  case Nil
  then show ?case using follows_tick [of w "w_tick w"] by simp
next
  case (Cons i "is")
  obtain g w1 where g: "st_get st i w = (g, w1)" by fastforce
  have f1: "follows w w1" using get_record [OF Cons.prems(1) g] by blast
  note rest = Cons.IH [OF steady_follows [OF Cons.prems(1) f1]]
  show ?case using Cons.prems(2) g assms(2) rest follows_trans [OF f1]
    by (auto simp: ServiceGet_def split: sum.splits option.splits)
qed

lemma SweepOnce_follows:
  assumes "steady w" and "sv_store s = st" and "SweepOnce s cb w = (r, w')"
    and "\<And>f as w. cb = Some f \<Longrightarrow> steady w \<Longrightarrow> follows w (f as w)"
  shows "follows w w'"
proof -
  obtain c w1 where c: "CheckExpiry s w = (c, w1)" by fastforce
  have f1: "follows w w1" using CheckExpiry_follows [OF assms(1,2) c] .
  have s1: "steady w1" using steady_follows [OF assms(1) f1] .
  show ?thesis
  proof (cases "\<exists>ids. c = Inr ids \<and> ids \<noteq> []")
    case True
    then obtain ids where ids: "c = Inr ids" "ids \<noteq> []" by blast
    obtain ex w2 where ex: "read_settled s ids [] w1 = (ex, w2)" by fastforce
    have f2: "follows w1 w2" using read_settled_follows [OF s1 assms(2) ex] .
    then have s2: "steady w2" using steady_follows s1 by blast
    have "w' = w2 \<or> (\<exists>f. cb = Some f \<and> w' = f ex w2)"
      using assms(3) c ids ex by (auto simp: SweepOnce_def split: option.splits if_splits)
    then have "w' = w2 \<or> follows w2 w'" using assms(4) s2 by blast
    then show ?thesis using follows_trans f1 f2 by blast
  qed (use assms(3) c f1 in \<open>auto simp: SweepOnce_def split: sum.splits\<close>)
qed

end

section \<open>The adapter keeps the contract\<close>

definition record_at :: "approval_codec \<Rightarrow> tables \<Rightarrow> string \<Rightarrow> approval option" where
  "record_at jc t i = (case find (\<lambda>sa. ap_id sa = i) (t_approvals t) of
     None \<Rightarrow> None
   | Some sa \<Rightarrow> (case ApprovalFromState jc sa of Inl _ \<Rightarrow> None | Inr a \<Rightarrow> Some a))"

definition row_ok :: "approval_codec \<Rightarrow> approval_row \<Rightarrow> bool" where
  "row_ok jc sa = (case ApprovalFromState jc sa of Inl _ \<Rightarrow> True | Inr a \<Rightarrow> approval_ok a)"

definition sound :: "approval_codec \<Rightarrow> tables \<Rightarrow> bool" where
  "sound jc t \<longleftrightarrow> key_unique ap_id (t_approvals t) \<and> list_all (row_ok jc) (t_approvals t)"

text \<open>What one process may assume of the others, and what it promises them.\<close>

definition lawful :: "approval_codec \<Rightarrow> tables \<Rightarrow> tables \<Rightarrow> bool" where
  "lawful jc t t' \<longleftrightarrow>
     (\<forall>i a. record_at jc t i = Some a \<longrightarrow> (\<exists>b. record_at jc t' i = Some b \<and> evolves a b)) \<and>
     (sound jc t \<longrightarrow> sound jc t')"

definition db_follows :: "approval_codec \<Rightarrow> world \<Rightarrow> world \<Rightarrow> bool" where
  "db_follows jc w w' \<longleftrightarrow> same_env w w' \<and> lawful jc (w_tbl w) (w_tbl w')"

definition db_steady :: "approval_codec \<Rightarrow> world \<Rightarrow> bool" where
  "db_steady jc w \<longleftrightarrow> sound jc (w_tbl w) \<and> (\<forall>n t. lawful jc t (w_intf w n t)) \<and> (\<forall>n. time_ok (w_clock w n))"

lemma lawful_refl [simp]: "lawful jc t t"
  by (auto simp: lawful_def)

lemma lawful_trans: "lawful jc t t1 \<Longrightarrow> lawful jc t1 t2 \<Longrightarrow> lawful jc t t2"
  unfolding lawful_def by (meson evolves_trans)

lemma record_at_decoded:
  assumes "record_at jc t i = Some a"
  obtains sa where "sa \<in> set (t_approvals t)" "ap_id sa = i" "ApprovalFromState jc sa = Inr a"
  using assms by (auto simp: record_at_def split: option.splits sum.splits dest: find_key_Some)

lemma decoded_fields:
  assumes "ApprovalFromState jc sa = Inr a"
  shows "av_id a = ap_id sa" "av_status a = ap_status sa" "av_revision a = ap_revision sa"
  using assms by (auto simp: ApprovalFromState_def with_extra_def split: if_splits option.splits)

lemma record_at_row:
  assumes "key_unique ap_id (t_approvals t)" and "sa \<in> set (t_approvals t)" and "ApprovalFromState jc sa = Inr a"
  shows "record_at jc t (ap_id sa) = Some a"
  using find_key_unique [OF assms(1,2)] assms(3) by (simp add: record_at_def)

lemma sound_record: "sound jc t \<Longrightarrow> record_at jc t i = Some a \<Longrightarrow> approval_ok a \<and> av_id a = i"
  by (elim record_at_decoded) (auto simp: sound_def list_all_iff row_ok_def decoded_fields dest!: bspec)

text \<open>The statement behind the compare-and-set: it hits the record the caller read, or nothing.\<close>

definition cas_rows :: "approval_row \<Rightarrow> tables \<Rightarrow> tables" where
  "cas_rows sa t = t\<lparr>t_approvals := update_where
     (\<lambda>x. ap_id x = ap_id sa \<and> ap_status x = ''pending'' \<and> ap_revision x = ap_revision sa) (set_approval sa) (t_approvals t)\<rparr>"

lemma record_at_cas:
  assumes "i \<noteq> ap_id sa"
  shows "record_at jc (cas_rows sa t) i = record_at jc t i"
proof -
  have "find (\<lambda>x. ap_id x = i) (t_approvals (cas_rows sa t)) = find (\<lambda>x. ap_id x = i) (t_approvals t)"
    unfolding cas_rows_def using assms
    by (auto simp: find_update_where [where k = ap_id] set_approval_def map_option_case split: option.splits dest: find_key_Some)
  then show ?thesis by (simp add: record_at_def)
qed

lemma cas_hit:
  assumes "codec_ok jc" and "sound jc t" and "record_at jc t (av_id b) = Some a'" and "evolves a a'"
    and "permitted a b" and "StateApproval jc b = Some sa"
    and "x \<in> set (t_approvals t)" "ap_id x = ap_id sa" "ap_revision x = ap_revision sa"
  shows "a' = a" "ApprovalFromState jc (set_approval sa x) = Inr (bump b)"
proof -
  have sa: "ap_id sa = av_id b" "ap_revision sa = av_revision b"
    using assms(6) by (auto simp: StateApproval_def Let_def split: option.splits if_splits)
  have "find (\<lambda>y. ap_id y = av_id b) (t_approvals t) = Some x"
    using find_key_unique [of ap_id "t_approvals t" x] assms(2,7,8) sa by (simp add: sound_def)
  then have "ApprovalFromState jc x = Inr a'" using assms(3) by (simp add: record_at_def split: sum.splits)
  then have "av_revision a' = av_revision a" using decoded_fields(3) assms(5,9) sa by (auto simp: permitted_def)
  then show "a' = a" using evolves_same_revision assms(4) by blast
  have "text_ok (extra_of b)" using assms(5) by (simp add: permitted_def approval_ok_def)
  then show "ApprovalFromState jc (set_approval sa x) = Inr (bump b)"
    using decode_updated [OF assms(1) _ assms(6)] assms(8,9) sa by (simp add: bump_def)
qed

lemma cas_lawful:
  assumes "codec_ok jc" and "sound jc t" and "record_at jc t (av_id b) = Some a'" and "evolves a a'"
    and "permitted a b" and "StateApproval jc b = Some sa"
  shows "lawful jc t (cas_rows sa t)"
    and "count_where (\<lambda>x. ap_id x = ap_id sa \<and> ap_status x = ''pending'' \<and> ap_revision x = ap_revision sa) (t_approvals t) > 0
      \<Longrightarrow> record_at jc (cas_rows sa t) (av_id b) = Some (bump b)"
proof -
  let ?P = "\<lambda>x. ap_id x = ap_id sa \<and> ap_status x = ''pending'' \<and> ap_revision x = ap_revision sa"
  have sa: "ap_id sa = av_id b" using assms(6) by (auto simp: StateApproval_def Let_def split: option.splits if_splits)
  note hit = cas_hit [OF assms]
  have uniq: "key_unique ap_id (t_approvals (cas_rows sa t))"
    using assms(2) by (simp add: cas_rows_def sound_def set_approval_def)
  have okb: "approval_ok (bump b)" using assms(5) by (simp add: permitted_def)
  have rows: "list_all (row_ok jc) (t_approvals (cas_rows sa t))"
    using assms(2) hit(2) okb by (auto simp: cas_rows_def sound_def list_all_iff set_update_where row_ok_def)
  have rec: "record_at jc (cas_rows sa t) (av_id b) = Some (bump b)" if "x \<in> set (t_approvals t)" "?P x" for x
  proof -
    have "set_approval sa x \<in> set (t_approvals (cas_rows sa t))"
      using that by (auto simp: cas_rows_def set_update_where image_iff intro!: bexI [of _ x])
    from record_at_row [OF uniq this hit(2)] that show ?thesis by (simp add: set_approval_def sa)
  qed
  show "count_where ?P (t_approvals t) > 0 \<Longrightarrow> record_at jc (cas_rows sa t) (av_id b) = Some (bump b)"
    using rec by auto
  have "\<exists>d. record_at jc (cas_rows sa t) i = Some d \<and> evolves c d" if "record_at jc t i = Some c" for i c
  proof (cases "i = av_id b \<and> (\<exists>x\<in>set (t_approvals t). ?P x)")
    case True
    then obtain x where x: "x \<in> set (t_approvals t)" "?P x" by blast
    have "c = a" using hit(1) [of x] x True that assms(3) by simp
    then show ?thesis using rec [OF x] True assms(5) by (simp add: permitted_def)
  next
    case False
    then have "record_at jc (cas_rows sa t) i = record_at jc t i"
      using record_at_cas [of i sa jc t] update_where_none [of "t_approvals t" ?P "set_approval sa"]
      by (cases "i = av_id b") (auto simp: sa cas_rows_def)
    then show ?thesis using that by simp
  qed
  then show "lawful jc t (cas_rows sa t)" using uniq rows by (simp add: lawful_def sound_def)
qed

text \<open>A new row under a new id.\<close>

lemma append_lawful:
  assumes "ApprovalFromState jc sa = Inr a" and "approval_ok a"
  shows "ap_id sa \<notin> ap_id ` set (t_approvals t) \<Longrightarrow> lawful jc t (t\<lparr>t_approvals := t_approvals t @ [sa]\<rparr>)"
proof -
  have "record_at jc (t\<lparr>t_approvals := t_approvals t @ [sa]\<rparr>) i = Some c" if "record_at jc t i = Some c" for i c
    using that by (auto simp: record_at_def find_append split: option.splits)
  then show ?thesis if "ap_id sa \<notin> ap_id ` set (t_approvals t)"
    using that assms by (auto simp: lawful_def sound_def key_unique_append row_ok_def)
qed

lemma db_follows_stmt:
  assumes "db_steady jc w" and "stmt f w = (r, w')" and "\<And>t. lawful jc (w_tbl w) t \<Longrightarrow> sound jc t \<Longrightarrow> lawful jc t (snd (f t))"
  shows "db_follows jc w w'"
proof -
  let ?t = "w_intf w (w_tick w) (w_tbl w)"
  have t: "lawful jc (w_tbl w) ?t" "sound jc ?t" using assms(1) by (auto simp: db_steady_def lawful_def)
  from assms(2) have "lawful jc (w_tbl w) (w_tbl w')"
  proof (cases rule: stmt_cases)
    case ran
    then show ?thesis using assms(3) [OF t] lawful_trans [OF t(1)] by simp
  qed (use t in simp)
  then show ?thesis using same_env_stmt [OF assms(2)] by (simp add: db_follows_def)
qed

lemma db_follows_query: "db_steady jc w \<Longrightarrow> query f w = (r, w') \<Longrightarrow> db_follows jc w w'"
  unfolding query_def by (erule db_follows_stmt, assumption) simp

lemma db_steady_follows: "db_steady jc w \<Longrightarrow> db_follows jc w w' \<Longrightarrow> db_steady jc w'"
  by (auto simp: db_steady_def db_follows_def same_env_def lawful_def)

interpretation db: ballot_store "approvalStoreAdapter jc" "\<lambda>w. record_at jc (w_tbl w)" "db_follows jc"
    "\<lambda>w. codec_ok jc \<and> db_steady jc w" for jc
proof unfold_locales
  fix w w1 w2 assume "db_follows jc w w1" "db_follows jc w1 w2"
  then show "db_follows jc w w2" by (auto simp: db_follows_def intro: lawful_trans same_env_trans)
next
  fix w i r w' assume w: "codec_ok jc \<and> db_steady jc w" and get: "st_get (approvalStoreAdapter jc) i w = (r, w')"
  obtain g w1 where g: "GetApproval i w = (g, w1)" by fastforce
  have "db_follows jc w w1" using db_follows_query [OF _ g [unfolded GetApproval_def]] w by simp
  with g get show "db_follows jc w w' \<and> (\<forall>a. r = Inr (Some a) \<longrightarrow> record_at jc (w_tbl w') i = Some a)"
    by (auto simp: approvalStoreAdapter_def AdapterGet_def GetApproval_def record_at_def
        split: sum.splits option.splits elim!: query_cases)
next
  fix w rs w' assume w: "codec_ok jc \<and> db_steady jc w" and ls: "st_list_pending (approvalStoreAdapter jc) w = (rs, w')"
  let ?f = "\<lparr>af_run_id = '''', af_level = '''', af_status = ApprovalPending, af_limit = 0, af_tenant_id = ''''\<rparr>"
  obtain l w1 where l: "ListApprovals ?f w = (l, w1)" by fastforce
  have f1: "db_follows jc w w1" using db_follows_query [OF _ l [unfolded ListApprovals_def]] w by simp
  then have "db_steady jc w1" using db_steady_follows w by blast
  then have "key_unique ap_id (t_approvals (w_tbl w1))" by (simp add: db_steady_def sound_def)
  then have "record_at jc (w_tbl w1) (av_id a) = Some a" if "l = Inr sas" "a \<in> set (parsable jc sas)" for sas a
    using that l record_at_row [of "w_tbl w1"]
    by (auto simp: ListApprovals_def parsable_def limit_rows_def decoded_fields split: sum.splits elim!: query_cases)
  with f1 l ls show "db_follows jc w w' \<and> (\<forall>as a. rs = Inr as \<longrightarrow> a \<in> set as \<longrightarrow> record_at jc (w_tbl w') (av_id a) = Some a)"
    by (auto simp: approvalStoreAdapter_def AdapterListPending_def split: sum.splits)
next
  fix w w0 b a ok w'
  assume w: "codec_ok jc \<and> db_steady jc w" and f: "db_follows jc w0 w" and a: "record_at jc (w_tbl w0) (av_id b) = Some a"
    and perm: "permitted a b" and cas: "st_update_if_pending (approvalStoreAdapter jc) b w = (ok, w')"
  obtain sa where sa: "StateApproval jc b = Some sa"
    using decode_fresh w perm by (auto simp: permitted_def approval_ok_def)
  obtain u w1 where u: "UpdateApprovalIfPending sa w = (u, w1)" by fastforce
  have at: "\<exists>a'. record_at jc t (av_id b) = Some a' \<and> evolves a a'" if "lawful jc (w_tbl w) t" for t
    using lawful_trans [OF _ that, of "w_tbl w0"] f a by (auto simp: db_follows_def lawful_def)
  have law: "lawful jc t (cas_rows sa t)" if "lawful jc (w_tbl w) t" "sound jc t" for t
    using at [OF that(1)] cas_lawful(1) [OF _ that(2) _ _ perm sa] w by blast
  have f1: "db_follows jc w w1"
    using db_follows_stmt [OF _ u [unfolded UpdateApprovalIfPending_def]] w law by (simp add: Let_def cas_rows_def)
  have "record_at jc (w_tbl w1) (av_id b) = Some (bump b)" if "u = Inr True"
    using u [unfolded UpdateApprovalIfPending_def]
  proof (cases rule: stmt_cases)
    case ran
    let ?t = "w_intf w (w_tick w) (w_tbl w)"
    have t: "lawful jc (w_tbl w) ?t" "sound jc ?t" using w by (auto simp: db_steady_def lawful_def)
    have "w_tbl w1 = cas_rows sa ?t" using ran by (auto simp: Let_def cas_rows_def)
    then show ?thesis
      using at [OF t(1)] cas_lawful(2) [OF _ t(2) _ _ perm sa] w ran that by (auto simp: Let_def simp del: count_where_pos_iff)
  qed (use that in simp)
  with f1 u cas sa show "db_follows jc w w' \<and> (ok = Inr True \<longrightarrow> record_at jc (w_tbl w') (av_id b) = Some (bump b))"
    by (auto simp: approvalStoreAdapter_def AdapterUpdateIfPending_def split: sum.splits)
next
  fix w a r w' assume w: "codec_ok jc \<and> db_steady jc w" and a: "approval_ok a"
    and create: "st_create (approvalStoreAdapter jc) a w = (r, w')"
  obtain sa where sa: "StateApproval jc a = Some sa" "ApprovalFromState jc sa = Inr a"
    using decode_fresh w a by (auto simp: approval_ok_def)
  obtain u w1 where u: "CreateApproval sa w = (u, w1)" by fastforce
  have "lawful jc t (snd (if ap_id sa \<in> ap_id ` set (t_approvals t) then (Inl UniqueViolation, t)
     else if ap_run_id sa \<notin> run_id ` set (t_runs t) then (Inl ForeignKeyViolation, t)
     else (Inr (), t\<lparr>t_approvals := t_approvals t @ [sa]\<rparr>)))" for t
    using append_lawful [OF sa(2) a, of t] by simp
  then have "db_follows jc w w1" using db_follows_stmt [OF _ u [unfolded CreateApproval_def]] w by blast
  with u create sa show "db_follows jc w w'"
    by (auto simp: approvalStoreAdapter_def AdapterCreate_def split: sum.splits)
next
  fix w w' assume "codec_ok jc \<and> db_steady jc w" "db_follows jc w w'"
  then show "codec_ok jc \<and> db_steady jc w'" using db_steady_follows by blast
qed (auto simp: db_follows_def lawful_def db_steady_def dest: sound_record)

section \<open>The protocol as a state machine\<close>

text \<open>
  A service is calm when its guard and its observers only do lawful things to the approvals; so
  is an expiry callback. One step is one call of the service with text that is valid UTF-8; the
  calls of other processes are the interference inside a step.
\<close>

definition calm :: "approval_codec \<Rightarrow> approval_service \<Rightarrow> bool" where
  "calm jc s \<longleftrightarrow> sv_store s = approvalStoreAdapter jc \<and>
     (\<forall>g n act a w. sv_guard s = Some g \<longrightarrow> db_steady jc w \<longrightarrow> db_follows jc w (snd (g n act a w))) \<and>
     (\<forall>f act a w. f \<in> set (sv_observers s) \<longrightarrow> db_steady jc w \<longrightarrow> db_follows jc w (f a act w))"

inductive service_step :: "approval_codec \<Rightarrow> approval_service \<Rightarrow> world \<Rightarrow> world \<Rightarrow> bool" for jc s where
  create: "request_ok req \<Longrightarrow> ServiceCreate s req w = (r, w') \<Longrightarrow> service_step jc s w w'"
| approve: "utf8_valid p \<Longrightarrow> Approve s i p w = (u, w') \<Longrightarrow> service_step jc s w w'"
| reject: "utf8_valid p \<Longrightarrow> utf8_valid why \<Longrightarrow> Reject s i p why w = (u, w') \<Longrightarrow> service_step jc s w w'"
| expire: "CheckExpiry s w = (ids, w') \<Longrightarrow> service_step jc s w w'"
| sweep: "SweepOnce s cb w = (as, w') \<Longrightarrow> (\<And>f as w. cb = Some f \<Longrightarrow> db_steady jc w \<Longrightarrow> db_follows jc w (f as w)) \<Longrightarrow>
    service_step jc s w w'"

lemma calm_service: "calm jc s \<Longrightarrow> codec_ok jc \<Longrightarrow> db.calm_service jc s"
  unfolding calm_def db.calm_service_def by blast

lemma decision_lawful:
  assumes "codec_ok jc" and "db_steady jc w" and "calm jc s" and "utf8_valid p" and "utf8_valid why"
    and "action = ActionApprove \<and> target = ApprovalApproved \<or> action = ActionReject \<and> target = ApprovalRejected"
    and "decide s i p action why target w = (r, w')"
  shows "db_follows jc w w'"
    and "r = Inr () \<Longrightarrow> \<exists>a d. record_at jc (w_tbl w') i = Some a \<and> d \<in> set (av_decisions a) \<and>
          dc_approver d = p \<and> dc_action d = action"
  using db.decide_follows [OF _ calm_service assms(4-6) assms(7) [unfolded decide_def]] assms(1-3)
  by (simp_all add: casMaxAttempts_def)

lemma step_follows:
  assumes "codec_ok jc" and "calm jc s" and "service_step jc s w w'" and "db_steady jc w"
  shows "db_follows jc w w'"
proof -
  have st: "sv_store s = approvalStoreAdapter jc" using assms(2) by (simp add: calm_def)
  have w: "codec_ok jc \<and> db_steady jc w" using assms by simp
  have nil: "utf8_valid ''''" by simp
  from assms(3) show ?thesis
  proof cases
    case (create req r)
    then show ?thesis using db.Create_follows [OF w st] by blast
  next
    case (approve p i u)
    then show ?thesis
      using decision_lawful(1) [OF assms(1,4,2) approve(1) nil _ approve(2) [unfolded Approve_def]] by simp
  next
    case (reject p why i u)
    then show ?thesis
      using decision_lawful(1) [OF assms(1,4,2) reject(1,2) _ reject(3) [unfolded Reject_def]] by simp
  next
    case (expire ids)
    then show ?thesis using db.CheckExpiry_follows [OF w st] by blast
  next
    case (sweep cb as)
    then show ?thesis using db.SweepOnce_follows [OF w st] by blast
  qed
qed

lemma steps_follow:
  assumes "codec_ok jc" and "calm jc s" and "(service_step jc s)\<^sup>*\<^sup>* w w'" and "db_steady jc w"
  shows "db_follows jc w w'"
  using assms(3)
proof (induction rule: rtranclp_induct)
  case base
  show ?case by (simp add: db_follows_def)
next
  case (step w1 w2)
  have "db_steady jc w1" using db_steady_follows assms(4) step.IH by blast
  then have "db_follows jc w1 w2" using step_follows assms(1,2) step.hyps(2) by blast
  then show ?case using step.IH by (auto simp: db_follows_def intro: lawful_trans same_env_trans)
qed

lemma sound_votes:
  assumes "sound jc t" and "record_at jc t i = Some a" and "av_status a = ApprovalApproved"
  shows "max 1 (av_min_approvers a) \<le> int (card {p. \<exists>d\<in>set (av_decisions a).
           dc_approver d = p \<and> dc_action d = ActionApprove \<and> entitled a d})"
proof -
  let ?D = "filter (\<lambda>d. dc_action d = ActionApprove) (av_decisions a)"
  have ok: "approval_ok a" using sound_record assms(1,2) by blast
  then have "distinct (map dc_approver ?D)" by (simp add: approval_ok_def distinct_map_filter)
  then have "card (dc_approver ` set ?D) = length ?D"
    by (metis distinct_card length_map list.set_map)
  moreover have "dc_approver ` set ?D = {p. \<exists>d\<in>set (av_decisions a).
           dc_approver d = p \<and> dc_action d = ActionApprove \<and> entitled a d}"
    using ok by (auto simp: approval_ok_def list_all_iff)
  moreover have "quorum a" using ok assms(3) by (auto simp: approval_ok_def approval_status_defs)
  ultimately show ?thesis by (simp add: quorum_def countApproves_def count_where_def)
qed

section \<open>A codec\<close>

text \<open>
  A self-delimiting text encoding of \<^verbatim>\<open>approvalExtra\<close> that has the law of the codec: the
  record as a list of framed strings.
\<close>

definition decision_text :: "decision \<Rightarrow> string list" where
  "decision_text d = [dc_approver d, dc_action d, dc_reason d, format_int (dc_at d)]"

fun decisions_of_text :: "string list \<Rightarrow> decision list" where
  "decisions_of_text (p # act # why # at # r) =
     \<lparr>dc_approver = p, dc_action = act, dc_reason = why, dc_at = parse_int at\<rparr> # decisions_of_text r"
| "decisions_of_text _ = []"

lemma decisions_of_decision_text: "decisions_of_text (concat (map decision_text ds)) = ds"
  by (induction ds) (auto simp: decision_text_def)

definition plain_codec :: approval_codec where
  "plain_codec = \<lparr>
     json_marshal = (\<lambda>e. Some (frame_text
       ([format_int (ex_min_approvers e), format_int (ex_created_at e), format_int (ex_expires_at e), ex_initiator e,
         if ex_exclude_initiator e then ''t'' else ''f'', ex_superseded_reason e, itoa (length (ex_approvers e))]
        @ ex_approvers e @ concat (map decision_text (ex_decisions e))))),
     json_unmarshal = (\<lambda>s. case unframe_text [] s of
         (m # cr # xp # ini # excl # why # n # r) \<Rightarrow> Some
           \<lparr>ex_approvers = take (atoi_acc 0 n) r, ex_min_approvers = parse_int m,
            ex_decisions = decisions_of_text (drop (atoi_acc 0 n) r), ex_created_at = parse_int cr,
            ex_expires_at = parse_int xp, ex_initiator = ini, ex_exclude_initiator = (excl = ''t''),
            ex_superseded_reason = why\<rparr>
       | _ \<Rightarrow> None)\<rparr>"

lemma plain_codec_ok: "codec_ok plain_codec"
  unfolding codec_ok_def
proof (intro allI impI)
  fix e :: approval_extra
  let ?s = "the (json_marshal plain_codec e)"
  have "json_marshal plain_codec e = Some ?s" "?s \<noteq> ''''" by (simp_all add: plain_codec_def)
  moreover have "json_unmarshal plain_codec ?s = Some e"
    unfolding plain_codec_def
    by (simp add: unframe_frame atoi_itoa decisions_of_decision_text del: frame_text.simps)
  ultimately show "\<exists>s. json_marshal plain_codec e = Some s \<and> s \<noteq> '''' \<and> json_unmarshal plain_codec s = Some e"
    by blast
qed

section \<open>The service on a quiet store\<close>

text \<open>The abstract ballot: what one vote makes of a record.\<close>

definition cast :: "approval \<Rightarrow> decision \<Rightarrow> string \<Rightarrow> approval_error + approval" where
  "cast a d target =
    (if \<not> canTransition (av_status a) target then Inl (ErrInvalidTransition (av_status a) target)
     else case ballot_refusal a (dc_approver d) of
       Some e \<Rightarrow> Inl e
     | None \<Rightarrow> Inr (bump (settle (clamp_min a) d target)))"

definition calm_time :: "world \<Rightarrow> bool" where
  "calm_time w \<longleftrightarrow> quiet w \<and> (\<forall>n. time_ok (w_clock w n))"

lemma ballot_refusal_clamp [simp]: "ballot_refusal (clamp_min a) p = ballot_refusal a p"
  by (simp add: ballot_refusal_def)

lemma calm_time_steady: "calm_time w \<Longrightarrow> sound jc (w_tbl w) \<Longrightarrow> db_steady jc w"
  by (simp add: calm_time_def db_steady_def)

lemma get_quiet:
  "quiet w \<Longrightarrow> record_at jc (w_tbl w) i = Some a \<Longrightarrow> AdapterGet jc i w = (Inr (Some a), w\<lparr>w_tick := Suc (w_tick w)\<rparr>)"
  by (auto simp: AdapterGet_def GetApproval_def query_quiet record_at_def split: option.splits sum.splits)

lemma cas_quiet:
  assumes "quiet w" and "codec_ok jc" and "sound jc (w_tbl w)" and "record_at jc (w_tbl w) (av_id b) = Some a"
    and "permitted a b" and "av_status a = ApprovalPending"
  shows "\<exists>w'. AdapterUpdateIfPending jc b w = (Inr True, w') \<and> quiet w' \<and> w_clock w' = w_clock w \<and>
     sound jc (w_tbl w') \<and> record_at jc (w_tbl w') (av_id b) = Some (bump b) \<and>
     (\<forall>j. j \<noteq> av_id b \<longrightarrow> record_at jc (w_tbl w') j = record_at jc (w_tbl w) j)"
proof -
  obtain sa where sa: "StateApproval jc b = Some sa"
    using decode_fresh assms(2,5) by (auto simp: permitted_def approval_ok_def)
  have cols: "ap_id sa = av_id b" "ap_revision sa = av_revision b"
    using sa by (auto simp: StateApproval_def Let_def split: option.splits if_splits)
  obtain x where x: "x \<in> set (t_approvals (w_tbl w))" "ap_id x = av_id b" "ApprovalFromState jc x = Inr a"
    using assms(4) by (rule record_at_decoded)
  let ?P = "\<lambda>x. ap_id x = ap_id sa \<and> ap_status x = ''pending'' \<and> ap_revision x = ap_revision sa"
  have "?P x" using x decoded_fields [OF x(3)] assms(5,6) cols by (simp add: permitted_def ApprovalPending_def)
  with x(1) have hit: "0 < count_where ?P (t_approvals (w_tbl w))" by auto
  note law = cas_lawful [OF assms(2,3,4) evolves_refl assms(5) sa]
  have upd: "AdapterUpdateIfPending jc b w = (Inr True, w\<lparr>w_tbl := cas_rows sa (w_tbl w), w_tick := Suc (w_tick w)\<rparr>)"
    using sa hit assms(1)
    by (simp add: AdapterUpdateIfPending_def UpdateApprovalIfPending_def stmt_quiet Let_def cas_rows_def del: count_where_pos_iff)
  have "sound jc (cas_rows sa (w_tbl w))" using law(1) assms(3) by (simp add: lawful_def)
  then show ?thesis
    unfolding upd using law(2) [OF hit] record_at_cas [of _ sa jc "w_tbl w"] assms(1) cols by simp
qed

lemma decide_quiet:
  assumes "calm_time w" and "codec_ok jc" and "sound jc (w_tbl w)" and "record_at jc (w_tbl w) i = Some a"
    and "utf8_valid p" and "utf8_valid why"
    and "action = ActionApprove \<and> target = ApprovalApproved \<or> action = ActionReject \<and> target = ApprovalRejected"
  shows "\<exists>at w'. let r = cast a \<lparr>dc_approver = p, dc_action = action, dc_reason = why, dc_at = at\<rparr> target in
      decide (NewService (approvalStoreAdapter jc)) i p action why target w = ((case r of Inl e \<Rightarrow> Inl e | Inr _ \<Rightarrow> Inr ()), w') \<and>
      record_at jc (w_tbl w') i = Some (case r of Inl _ \<Rightarrow> a | Inr b \<Rightarrow> b) \<and>
      (\<forall>j. j \<noteq> i \<longrightarrow> record_at jc (w_tbl w') j = record_at jc (w_tbl w) j) \<and>
      calm_time w' \<and> sound jc (w_tbl w') \<and> time_ok at"
proof -
  let ?s = "NewService (approvalStoreAdapter jc)"
  let ?w1 = "w\<lparr>w_tick := Suc (w_tick w)\<rparr>" and ?at = "w_clock w (Suc (w_tick w))"
  let ?d = "\<lparr>dc_approver = p, dc_action = action, dc_reason = why, dc_at = ?at\<rparr>"
  let ?b = "settle (clamp_min a) ?d target"
  have q: "quiet w" "time_ok ?at" using assms(1) by (simp_all add: calm_time_def)
  have get: "st_get (sv_store ?s) i w = (Inr (Some a), ?w1)"
    using get_quiet [OF q(1) assms(4)] by (simp add: NewService_def approvalStoreAdapter_def)
  have guard: "consult_guard (sv_guard ?s) p action a ?w1 = (None, ?w1)" by (simp add: NewService_def consult_guard_def)
  have a: "approval_ok a" "av_id a = i" using sound_record [OF assms(3,4)] by auto
  have unroll: "decide = (\<lambda>s. decide_attempts (Suc k) None s)" if "casMaxAttempts = Suc k" for k
    using that by (simp add: decide_def)
  obtain k where k: "casMaxAttempts = Suc k" by (simp add: casMaxAttempts_def numeral_eq_Suc)
  show ?thesis
  proof (cases "canTransition (av_status a) target \<and> ballot_refusal a p = None")
    case False
    then have "\<exists>e. cast a ?d target = Inl e \<and> decide ?s i p action why target w = (Inl e, ?w1)"
      using get guard by (auto simp: unroll [OF k] cast_def Let_def split: option.splits)
    then show ?thesis using assms(1,3,4) q(2)
      by (intro exI [of _ ?at] exI [of _ ?w1]) (auto simp: Let_def calm_time_def)
  next
    case True
    let ?w2 = "?w1\<lparr>w_tick := Suc (Suc (w_tick w))\<rparr>"
    have pend: "av_status a = ApprovalPending" using True by (simp add: canTransition_def split: if_splits)
    have "decision_text_ok ?d" using assms(5-7) q(2)
      by (auto simp: decision_text_ok_def ActionApprove_def ActionReject_def byte_in_def)
    then have perm: "permitted a ?b" using settle_permitted [OF a(1) pend _ _] True assms(7) by simp
    obtain w' where w': "AdapterUpdateIfPending jc ?b ?w2 = (Inr True, w')" "quiet w'" "w_clock w' = w_clock w"
      "sound jc (w_tbl w')" "record_at jc (w_tbl w') i = Some (bump ?b)"
      "\<forall>j. j \<noteq> i \<longrightarrow> record_at jc (w_tbl w') j = record_at jc (w_tbl w) j"
      using cas_quiet [of ?w2 jc ?b a] q(1) assms(2-4) perm pend a(2) by auto
    have "st_update_if_pending (sv_store ?s) ?b ?w2 = (Inr True, w')"
      using w'(1) by (simp add: NewService_def approvalStoreAdapter_def)
    then have "decide ?s i p action why target w = (Inr (), w')"
      using get guard True by (simp add: unroll [OF k] Let_def time_now_def NewService_def)
    moreover have "cast a ?d target = Inr (bump ?b)" using True by (simp add: cast_def)
    ultimately show ?thesis using w' assms(1) q(2)
      by (intro exI [of _ ?at] exI [of _ w']) (auto simp: Let_def calm_time_def)
  qed
qed

text \<open>Votes one after the other.\<close>

fun approve_all :: "approval_service \<Rightarrow> string \<Rightarrow> string list \<Rightarrow> world \<Rightarrow> (approval_error + unit) list \<times> world" where
  "approve_all s i [] w = ([], w)"
| "approve_all s i (p # ps) w = (case Approve s i p w of (r, w1) \<Rightarrow>
     case approve_all s i ps w1 of (rs, w2) \<Rightarrow> (r # rs, w2))"

lemma countApproves_all: "\<forall>d\<in>set ds. dc_action d = ActionApprove \<Longrightarrow> countApproves ds = int (length ds)"
  by (simp add: countApproves_def count_where_def)

definition may_vote :: "approval \<Rightarrow> string \<Rightarrow> bool" where
  "may_vote a p \<longleftrightarrow> isAuthorized (av_approvers a) p \<and>
     \<not> (av_exclude_initiator a \<and> av_initiator a \<noteq> '''' \<and> p = av_initiator a)"

lemma pending_unanimous:
  assumes "approval_ok a" and "av_status a = ApprovalPending"
  shows "\<forall>d\<in>set (av_decisions a). dc_action d = ActionApprove"
    and "int (length (av_decisions a)) < max 1 (av_min_approvers a)"
proof -
  show all: "\<forall>d\<in>set (av_decisions a). dc_action d = ActionApprove"
    using assms by (auto simp: approval_ok_def vetoed_def list_ex_iff approval_status_defs)
  show "int (length (av_decisions a)) < max 1 (av_min_approvers a)"
    using assms countApproves_all [OF all] by (auto simp: approval_ok_def quorum_def approval_status_defs)
qed

lemma approve_all_quiet:
  assumes "codec_ok jc" and "calm_time w" and "sound jc (w_tbl w)" and "record_at jc (w_tbl w) i = Some a"
    and "av_status a = ApprovalPending" and "distinct ps" and "\<forall>p\<in>set ps. utf8_valid p \<and> may_vote a p \<and> \<not> hasDecided (av_decisions a) p"
    and "int (length (av_decisions a)) + int (length ps) \<le> max 1 (av_min_approvers a)"
  shows "\<exists>w' b. approve_all (NewService (approvalStoreAdapter jc)) i ps w = (replicate (length ps) (Inr ()), w') \<and>
      record_at jc (w_tbl w') i = Some b \<and> ballot_terms b = ballot_terms a \<and>
      map dc_approver (av_decisions b) = map dc_approver (av_decisions a) @ ps \<and>
      av_status b = (if int (length (av_decisions b)) = max 1 (av_min_approvers b) then ApprovalApproved else ApprovalPending)"
  using assms(2-)
proof (induction ps arbitrary: w a)
  case Nil
  have "approval_ok a" using sound_record Nil.prems(2,3) by blast
  from pending_unanimous(2) [OF this] Nil.prems show ?case by auto
next
  case (Cons p ps)
  let ?s = "NewService (approvalStoreAdapter jc)"
  have ok: "approval_ok a" using sound_record Cons.prems(2,3) by blast
  note un = pending_unanimous [OF ok Cons.prems(4)]
  have p: "utf8_valid p" "may_vote a p" "\<not> hasDecided (av_decisions a) p" using Cons.prems(6) by auto
  then have bal: "ballot_refusal a p = None" by (auto simp: ballot_refusal_def may_vote_def)
  obtain at w1 where w1: "decide ?s i p ActionApprove '''' ApprovalApproved w =
        ((case cast a \<lparr>dc_approver = p, dc_action = ActionApprove, dc_reason = '''', dc_at = at\<rparr> ApprovalApproved of
            Inl e \<Rightarrow> Inl e | Inr _ \<Rightarrow> Inr ()), w1)"
      "record_at jc (w_tbl w1) i = Some (case cast a \<lparr>dc_approver = p, dc_action = ActionApprove, dc_reason = '''', dc_at = at\<rparr> ApprovalApproved of
            Inl _ \<Rightarrow> a | Inr b \<Rightarrow> b)"
      "calm_time w1" "sound jc (w_tbl w1)"
    using decide_quiet [OF Cons.prems(1) assms(1) Cons.prems(2,3) p(1), of "''''" ActionApprove ApprovalApproved]
    by (auto simp: Let_def)
  let ?d = "\<lparr>dc_approver = p, dc_action = ActionApprove, dc_reason = '''', dc_at = at\<rparr>"
  let ?b = "bump (settle (clamp_min a) ?d ApprovalApproved)"
  have "cast a ?d ApprovalApproved = Inr ?b"
    using bal Cons.prems(4) by (simp add: cast_def canTransition_def)
  with w1 have step: "Approve ?s i p w = (Inr (), w1)" and rec: "record_at jc (w_tbl w1) i = Some ?b"
    by (simp_all add: Approve_def)
  have cnt: "countApproves (av_decisions a @ [?d]) = int (length (av_decisions a)) + 1"
    using countApproves_all [of "av_decisions a @ [?d]"] un(1) by simp
  have min: "av_min_approvers ?b = max 1 (av_min_approvers a)" by (simp add: bump_def)
  have st: "av_status ?b = (if int (length (av_decisions a)) + 1 = max 1 (av_min_approvers a)
      then ApprovalApproved else ApprovalPending)"
    using un(2) Cons.prems(4) by (simp add: settle_status cnt) (auto simp: ApprovalApproved_def ApprovalRejected_def)
  show ?case
  proof (cases "ps = []")
    case True
    then show ?thesis using step rec st min by simp
  next
    case False
    then have len: "int (length (av_decisions a)) + 1 < max 1 (av_min_approvers a)"
      using Cons.prems(7) by (cases ps) auto
    have "may_vote ?b q = may_vote a q" for q by (simp add: may_vote_def bump_def)
    then have "\<forall>q\<in>set ps. utf8_valid q \<and> may_vote ?b q \<and> \<not> hasDecided (av_decisions ?b) q"
      using Cons.prems(5,6) by (auto simp: hasDecided_def)
    moreover have "av_status ?b = ApprovalPending" using st len by (metis less_irrefl)
    ultimately obtain w' b where "approve_all ?s i ps w1 = (replicate (length ps) (Inr ()), w')"
        "record_at jc (w_tbl w') i = Some b" "ballot_terms b = ballot_terms ?b"
        "map dc_approver (av_decisions b) = map dc_approver (av_decisions ?b) @ ps"
        "av_status b = (if int (length (av_decisions b)) = max 1 (av_min_approvers b) then ApprovalApproved else ApprovalPending)"
      using Cons.IH [OF w1(3,4) rec] Cons.prems(5,7) min by auto
    then show ?thesis using step by simp
  qed
qed

text \<open>The expiry scan.\<close>

definition overdue :: "time \<Rightarrow> approval \<Rightarrow> bool" where
  "overdue now a \<longleftrightarrow> av_status a = ApprovalPending \<and> av_expires_at a \<noteq> zero_time \<and> now > av_expires_at a"

definition expire :: "approval \<Rightarrow> approval" where
  "expire a = a\<lparr>av_status := ApprovalExpired, av_revision := av_revision a + 1\<rparr>"

lemma expiry_loop_quiet:
  assumes "codec_ok jc" and "calm_time w" and "sound jc (w_tbl w)" and "distinct (map av_id as)"
    and "\<forall>a\<in>set as. record_at jc (w_tbl w) (av_id a) = Some a"
  shows "\<exists>w'. expiry_loop (approvalStoreAdapter jc) now as ex w = (Inr (ex @ map av_id (filter (overdue now) as)), w') \<and>
     (\<forall>i. record_at jc (w_tbl w') i = (if i \<in> av_id ` set (filter (overdue now) as)
        then map_option expire (record_at jc (w_tbl w) i) else record_at jc (w_tbl w) i))"
  using assms(2-)
proof (induction as arbitrary: w ex)
  case (Cons a as)
  let ?st = "approvalStoreAdapter jc" and ?b = "a\<lparr>av_status := ApprovalExpired\<rparr>"
  show ?case
  proof (cases "overdue now a")
    case False
    then have "expiry_loop ?st now (a # as) ex w = expiry_loop ?st now as ex w"
      by (auto simp: overdue_def canTransition_def)
    with Cons False show ?thesis by auto
  next
    case True
    have ra: "record_at jc (w_tbl w) (av_id a) = Some a" using Cons.prems(4) by simp
    have "approval_ok a" "av_status a = ApprovalPending"
      using sound_record [OF Cons.prems(2) ra] True by (auto simp: overdue_def)
    then obtain w1 where w1: "AdapterUpdateIfPending jc ?b w = (Inr True, w1)" "quiet w1" "w_clock w1 = w_clock w"
        "sound jc (w_tbl w1)" "record_at jc (w_tbl w1) (av_id a) = Some (bump ?b)"
        "\<forall>j. j \<noteq> av_id a \<longrightarrow> record_at jc (w_tbl w1) j = record_at jc (w_tbl w) j"
      using cas_quiet [of w jc ?b a] Cons.prems ra assms(1) expire_permitted [of a] by (auto simp: calm_time_def)
    have step: "expiry_loop ?st now (a # as) ex w = expiry_loop ?st now as (ex @ [av_id a]) w1"
      using True w1(1) by (simp add: overdue_def canTransition_def approvalStoreAdapter_def)
    have "calm_time w1" using w1(2,3) Cons.prems(1) by (simp add: calm_time_def)
    moreover have "\<forall>c\<in>set as. record_at jc (w_tbl w1) (av_id c) = Some c"
      using Cons.prems(3,4) w1(6) by (metis image_eqI distinct.simps(2) list.set_map list.simps(9) list.set_intros(2))
    ultimately obtain w' where w': "expiry_loop ?st now as (ex @ [av_id a]) w1 =
         (Inr ((ex @ [av_id a]) @ map av_id (filter (overdue now) as)), w')"
        "\<forall>i. record_at jc (w_tbl w') i = (if i \<in> av_id ` set (filter (overdue now) as)
          then map_option expire (record_at jc (w_tbl w1) i) else record_at jc (w_tbl w1) i)"
      using Cons.IH [of w1 "ex @ [av_id a]"] w1(4) Cons.prems(3) by auto
    have "bump ?b = expire a" by (simp add: bump_def expire_def)
    moreover have "av_id a \<notin> av_id ` set (filter (overdue now) as)" using Cons.prems(3) by auto
    ultimately have "record_at jc (w_tbl w') i = (if i \<in> av_id ` set (filter (overdue now) (a # as))
        then map_option expire (record_at jc (w_tbl w) i) else record_at jc (w_tbl w) i)" for i
      using w'(2) w1(5,6) ra True by (cases "i = av_id a") auto
    then show ?thesis using step w'(1) True by auto
  qed
qed simp

lemma parsable_ids: "map av_id (parsable jc sas) = map ap_id (filter (\<lambda>sa. \<not> isl (ApprovalFromState jc sa)) sas)"
  by (induction sas) (auto simp: parsable_def decoded_fields split: sum.splits)

lemma set_parsable: "set (parsable jc sas) = {a. \<exists>sa\<in>set sas. ApprovalFromState jc sa = Inr a}"
  by (auto simp: parsable_def split: sum.splits)

section \<open>A record to vote on\<close>

text \<open>A pending record that needs two votes, alone in a quiet database at a fixed time.\<close>

definition ballot_demo :: approval where
  "ballot_demo = \<lparr>av_id = ''a1'', av_run_id = ''r1'', av_level = ''high'', av_status = ApprovalPending,
     av_approvers = [''alice'', ''bob''], av_min_approvers = 2, av_decisions = [], av_created_at = 0,
     av_expires_at = 5, av_plan_hash = ''p'', av_initiator = ''eve'', av_exclude_initiator = True,
     av_revision = 0, av_superseded_reason = ''''\<rparr>"

definition ballot_world :: world where
  "ballot_world = (still_world (no_rows\<lparr>t_approvals := [the (StateApproval plain_codec ballot_demo)]\<rparr>))\<lparr>w_clock := (\<lambda>_. 10)\<rparr>"

definition ballot_service :: approval_service where
  "ballot_service = NewService (approvalStoreAdapter plain_codec)"

lemma ballot_demo_ok: "approval_ok ballot_demo"
  by (simp add: approval_ok_def ballot_demo_def entitled_def text_ok_def extra_of_def byte_in_def time_ok_def
      vetoed_def quorum_def countApproves_def count_where_def)

lemma ballot_row:
  "ApprovalFromState plain_codec (the (StateApproval plain_codec ballot_demo)) = Inr ballot_demo"
  "ap_id (the (StateApproval plain_codec ballot_demo)) = ''a1''"
proof -
  obtain sa where sa: "StateApproval plain_codec ballot_demo = Some sa" "ApprovalFromState plain_codec sa = Inr ballot_demo"
    using decode_fresh [OF plain_codec_ok] ballot_demo_ok by (auto simp: approval_ok_def)
  then show "ApprovalFromState plain_codec (the (StateApproval plain_codec ballot_demo)) = Inr ballot_demo"
    "ap_id (the (StateApproval plain_codec ballot_demo)) = ''a1''"
    using decoded_fields(1) [OF sa(2)] by (simp_all add: ballot_demo_def)
qed

lemma ballot_world_ok:
  "calm_time ballot_world" "sound plain_codec (w_tbl ballot_world)"
  "record_at plain_codec (w_tbl ballot_world) ''a1'' = Some ballot_demo"
  "db_steady plain_codec ballot_world" "calm plain_codec ballot_service"
proof -
  show c: "calm_time ballot_world"
    by (simp add: calm_time_def ballot_world_def quiet_def still_world_def time_ok_def)
  show s: "sound plain_codec (w_tbl ballot_world)"
    by (simp add: sound_def ballot_world_def row_ok_def ballot_row ballot_demo_ok)
  show "record_at plain_codec (w_tbl ballot_world) ''a1'' = Some ballot_demo"
    by (simp add: record_at_def ballot_world_def ballot_row)
  show "db_steady plain_codec ballot_world" using calm_time_steady [OF c s] .
  show "calm plain_codec ballot_service" by (simp add: calm_def ballot_service_def NewService_def)
qed

lemma ballot_voters:
  "utf8_valid ''alice'' \<and> may_vote ballot_demo ''alice'' \<and> \<not> hasDecided (av_decisions ballot_demo) ''alice''"
  "utf8_valid ''bob'' \<and> may_vote ballot_demo ''bob'' \<and> \<not> hasDecided (av_decisions ballot_demo) ''bob''"
  "av_decisions ballot_demo = []" "av_status ballot_demo = ApprovalPending" "av_min_approvers ballot_demo = 2"
  by (simp_all add: ballot_demo_def may_vote_def isAuthorized_def hasDecided_def byte_in_def)

section \<open>Properties\<close>

text \<open>
  C1. Safety of the approval protocol: from a database whose records are sound, any number of
  creations, approvals, rejections and expiry sweeps, with driver faults anywhere, with other
  processes doing lawful things between any two statements, and with a guard and observers that
  do, lead to a database in which
  (1) an approved record has the votes of at least its quorum (at least one) of different people,
  each on the approvers list if there is one and none of them the initiator if he is excluded,
  and no veto;
  (2) every record that was there is there and keeps its terms and all votes cast on it;
  (3) a record that had been approved, rejected or expired is unchanged.
\<close>

theorem approval_protocol_safe:
  assumes "codec_ok jc" and "calm jc s" and "db_steady jc w" and "(service_step jc s)\<^sup>*\<^sup>* w w'"
  shows "(\<forall>i a. record_at jc (w_tbl w') i = Some a \<longrightarrow> av_status a = ApprovalApproved \<longrightarrow>
        max 1 (av_min_approvers a) \<le> int (card {p. \<exists>d\<in>set (av_decisions a).
           dc_approver d = p \<and> dc_action d = ActionApprove \<and> entitled a d}) \<and> \<not> vetoed a) \<and>
     (\<forall>i a. record_at jc (w_tbl w) i = Some a \<longrightarrow> (\<exists>b. record_at jc (w_tbl w') i = Some b \<and>
        ballot_terms b = ballot_terms a \<and> take (length (av_decisions a)) (av_decisions b) = av_decisions a \<and>
        (av_status a \<noteq> ApprovalPending \<longrightarrow> b = a)))"
proof -
  have f: "db_follows jc w w'" using steps_follow [OF assms(1,2,4,3)] .
  then have sound: "sound jc (w_tbl w')" using db_steady_follows [OF assms(3)] by (simp add: db_steady_def)
  have "\<not> vetoed a" if "record_at jc (w_tbl w') i = Some a" "av_status a = ApprovalApproved" for i a
    using sound_record [OF sound that(1)] that(2) by (auto simp: approval_ok_def approval_status_defs)
  moreover have "\<exists>b. record_at jc (w_tbl w') i = Some b \<and> evolves a b" if "record_at jc (w_tbl w) i = Some a" for i a
    using f that by (simp add: db_follows_def lawful_def)
  moreover have "ballot_terms b = ballot_terms a \<and> take (length (av_decisions a)) (av_decisions b) = av_decisions a \<and>
        (av_status a \<noteq> ApprovalPending \<longrightarrow> b = a)" if "evolves a b" for a b
    using that by (auto simp: evolves_def)
  ultimately show ?thesis using sound_votes [OF sound] by blast
qed

theorem approval_protocol_safe_witness:
  "\<exists>w' b. (service_step plain_codec ballot_service)\<^sup>*\<^sup>* ballot_world w' \<and>
     Approve ballot_service ''a1'' ''alice'' ballot_world = (Inr (), w') \<and>
     record_at plain_codec (w_tbl w') ''a1'' = Some b \<and> ballot_terms b = ballot_terms ballot_demo"
proof -
  have "\<exists>w' b. approve_all ballot_service ''a1'' [''alice''] ballot_world = (replicate (length [''alice'']) (Inr ()), w') \<and>
      record_at plain_codec (w_tbl w') ''a1'' = Some b \<and> ballot_terms b = ballot_terms ballot_demo \<and>
      map dc_approver (av_decisions b) = map dc_approver (av_decisions ballot_demo) @ [''alice''] \<and>
      av_status b = (if int (length (av_decisions b)) = max 1 (av_min_approvers b) then ApprovalApproved else ApprovalPending)"
    unfolding ballot_service_def
    by (rule approve_all_quiet [OF plain_codec_ok ballot_world_ok(1,2,3)]) (use ballot_voters in simp_all)
  then obtain w' where w': "Approve ballot_service ''a1'' ''alice'' ballot_world = (Inr (), w')"
    by (auto split: prod.splits)
  have "service_step plain_codec ballot_service ballot_world w'"
    by (rule service_step.approve [OF _ w']) (simp add: byte_in_def)
  then have steps: "(service_step plain_codec ballot_service)\<^sup>*\<^sup>* ballot_world w'" by blast
  have "\<exists>b. record_at plain_codec (w_tbl w') ''a1'' = Some b \<and> ballot_terms b = ballot_terms ballot_demo"
    using approval_protocol_safe [OF plain_codec_ok ballot_world_ok(5,4) steps] ballot_world_ok(3) by blast
  with steps w' show ?thesis by blast
qed

text \<open>
  C24. On a store that works and that nobody else writes to, \<^verbatim>\<open>Approve\<close> and \<^verbatim>\<open>Reject\<close> are the
  abstract ballot: the call reports what \<open>cast\<close> reports of the stored record, the record becomes
  what \<open>cast\<close> makes of it (one more vote; rejected by any veto, approved with the quorum), and
  a refused vote changes nothing; no other record changes.
\<close>

theorem decide_refines_ballot:
  assumes "calm_time w" and "codec_ok jc" and "sound jc (w_tbl w)" and "record_at jc (w_tbl w) i = Some a"
    and "utf8_valid p" and "utf8_valid why"
    and "(c, action, reason, target) \<in> {(Approve s i p, ActionApprove, '''', ApprovalApproved),
           (Reject s i p why, ActionReject, why, ApprovalRejected)}"
    and "s = NewService (approvalStoreAdapter jc)"
  shows "\<exists>at w'. let r = cast a \<lparr>dc_approver = p, dc_action = action, dc_reason = reason, dc_at = at\<rparr> target in
      c w = ((case r of Inl e \<Rightarrow> Inl e | Inr _ \<Rightarrow> Inr ()), w') \<and>
      record_at jc (w_tbl w') i = Some (case r of Inl _ \<Rightarrow> a | Inr b \<Rightarrow> b) \<and>
      (\<forall>j. j \<noteq> i \<longrightarrow> record_at jc (w_tbl w') j = record_at jc (w_tbl w) j)"
proof -
  have nil: "utf8_valid ''''" by simp
  have c: "c = decide s i p action reason target" "utf8_valid reason"
    and kind: "action = ActionApprove \<and> target = ApprovalApproved \<or> action = ActionReject \<and> target = ApprovalRejected"
    using assms(6,7) by (auto simp: Approve_def Reject_def)
  from decide_quiet [OF assms(1-5) c(2) kind] show ?thesis unfolding c assms(8) Let_def by blast
qed

theorem decide_refines_ballot_witness:
  "\<exists>w' b. Reject ballot_service ''a1'' ''bob'' ''too risky'' ballot_world = (Inr (), w') \<and>
     record_at plain_codec (w_tbl w') ''a1'' = Some b \<and> av_status b = ApprovalRejected"
proof -
  let ?r = "\<lambda>at. cast ballot_demo \<lparr>dc_approver = ''bob'', dc_action = ActionReject, dc_reason = ''too risky'', dc_at = at\<rparr> ApprovalRejected"
  have "\<exists>at w'. let r = ?r at in
      Reject ballot_service ''a1'' ''bob'' ''too risky'' ballot_world = ((case r of Inl e \<Rightarrow> Inl e | Inr _ \<Rightarrow> Inr ()), w') \<and>
      record_at plain_codec (w_tbl w') ''a1'' = Some (case r of Inl _ \<Rightarrow> ballot_demo | Inr b \<Rightarrow> b) \<and>
      (\<forall>j. j \<noteq> ''a1'' \<longrightarrow> record_at plain_codec (w_tbl w') j = record_at plain_codec (w_tbl ballot_world) j)"
    by (rule decide_refines_ballot [OF ballot_world_ok(1) plain_codec_ok ballot_world_ok(2,3),
          where why = "''too risky''" and s = ballot_service])
      (simp_all add: ballot_service_def byte_in_def)
  then obtain at w' where "Reject ballot_service ''a1'' ''bob'' ''too risky'' ballot_world = ((case ?r at of Inl e \<Rightarrow> Inl e | Inr _ \<Rightarrow> Inr ()), w')"
      "record_at plain_codec (w_tbl w') ''a1'' = Some (case ?r at of Inl _ \<Rightarrow> ballot_demo | Inr b \<Rightarrow> b)"
    unfolding Let_def by (elim exE conjE)
  moreover have "\<exists>b. ?r at = Inr b \<and> av_status b = ApprovalRejected"
    by (simp add: cast_def ballot_demo_def canTransition_def ballot_refusal_def isAuthorized_def hasDecided_def settle_status)
  ultimately show ?thesis by (elim exE conjE) (intro exI conjI, simp_all)
qed

text \<open>
  A quorum is always reachable: when people who may vote and have not yet voted approve a
  pending record one after the other, no more of them than the quorum still needs, every call
  succeeds, the votes are recorded in that order, and the record is approved exactly when the last
  vote completes the quorum and pending before.
\<close>

theorem quorum_reached:
  assumes "codec_ok jc" and "calm_time w" and "sound jc (w_tbl w)" and "record_at jc (w_tbl w) i = Some a"
    and "av_status a = ApprovalPending" and "distinct ps"
    and "\<forall>p\<in>set ps. utf8_valid p \<and> may_vote a p \<and> \<not> hasDecided (av_decisions a) p"
    and "int (length (av_decisions a)) + int (length ps) \<le> max 1 (av_min_approvers a)"
  shows "\<exists>w' b. approve_all (NewService (approvalStoreAdapter jc)) i ps w = (replicate (length ps) (Inr ()), w') \<and>
      record_at jc (w_tbl w') i = Some b \<and> ballot_terms b = ballot_terms a \<and>
      map dc_approver (av_decisions b) = map dc_approver (av_decisions a) @ ps \<and>
      av_status b = (if int (length (av_decisions b)) = max 1 (av_min_approvers b) then ApprovalApproved else ApprovalPending)"
  using approve_all_quiet [OF assms] .

theorem quorum_reached_witness:
  "\<exists>w' b. approve_all ballot_service ''a1'' [''bob'', ''alice''] ballot_world = ([Inr (), Inr ()], w') \<and>
     record_at plain_codec (w_tbl w') ''a1'' = Some b \<and> map dc_approver (av_decisions b) = [''bob'', ''alice'']"
proof -
  have "\<exists>w' b. approve_all ballot_service ''a1'' [''bob'', ''alice''] ballot_world = (replicate (length [''bob'', ''alice'']) (Inr ()), w') \<and>
      record_at plain_codec (w_tbl w') ''a1'' = Some b \<and> ballot_terms b = ballot_terms ballot_demo \<and>
      map dc_approver (av_decisions b) = map dc_approver (av_decisions ballot_demo) @ [''bob'', ''alice''] \<and>
      av_status b = (if int (length (av_decisions b)) = max 1 (av_min_approvers b) then ApprovalApproved else ApprovalPending)"
    unfolding ballot_service_def
    by (rule quorum_reached [OF plain_codec_ok ballot_world_ok(1,2,3)]) (use ballot_voters in simp_all)
  then obtain w' b where "approve_all ballot_service ''a1'' [''bob'', ''alice''] ballot_world = (replicate (length [''bob'', ''alice'']) (Inr ()), w')"
      "record_at plain_codec (w_tbl w') ''a1'' = Some b"
      "map dc_approver (av_decisions b) = map dc_approver (av_decisions ballot_demo) @ [''bob'', ''alice'']"
    by (elim exE conjE)
  then show ?thesis
    using ballot_voters(3) by (intro exI [of _ w'] exI [of _ b]) (simp del: approve_all.simps)
qed

text \<open>
  On a store that works and that nobody else writes to, \<^verbatim>\<open>CheckExpiry\<close> expires exactly the
  pending records with an expiry in the past, reports each of them once, and leaves all other
  records as they are. The time is read once, after the scan.
\<close>

theorem CheckExpiry_outcome:
  assumes "codec_ok jc" and "calm_time w" and "sound jc (w_tbl w)" and "now = w_clock w (Suc (w_tick w))"
  shows "\<exists>ids w'. CheckExpiry (NewService (approvalStoreAdapter jc)) w = (Inr ids, w') \<and> distinct ids \<and>
     set ids = {i. \<exists>a. record_at jc (w_tbl w) i = Some a \<and> overdue now a} \<and>
     (\<forall>i. record_at jc (w_tbl w') i = (if i \<in> set ids
        then map_option expire (record_at jc (w_tbl w) i) else record_at jc (w_tbl w) i))"
proof -
  let ?st = "approvalStoreAdapter jc" and ?w2 = "w\<lparr>w_tick := Suc (Suc (w_tick w))\<rparr>"
  let ?rows = "sort_key (\<lambda>a. null_first (ap_timeout_at a))
     (filter (approval_matches \<lparr>af_run_id = '''', af_level = '''', af_status = ApprovalPending, af_limit = 0,
        af_tenant_id = ''''\<rparr>) (t_approvals (w_tbl w)))"
  let ?as = "parsable jc ?rows"
  have q: "quiet w" using assms(2) by (simp add: calm_time_def)
  have uniq: "key_unique ap_id (t_approvals (w_tbl w))" using assms(3) by (simp add: sound_def)
  have "distinct (map ap_id (filter P ?rows))" for P
    using uniq by (auto simp: key_unique_def distinct_map intro: inj_on_subset)
  then have dist: "distinct (map av_id ?as)" by (simp only: parsable_ids)
  have mem: "a \<in> set ?as \<longleftrightarrow> record_at jc (w_tbl w) (av_id a) = Some a \<and> av_status a = ApprovalPending" for a
  proof
    assume "a \<in> set ?as"
    then show "record_at jc (w_tbl w) (av_id a) = Some a \<and> av_status a = ApprovalPending"
      using record_at_row [OF uniq] decoded_fields
      by (auto simp: set_parsable approval_matches_def opt_eq_def ApprovalPending_def)
  next
    assume "record_at jc (w_tbl w) (av_id a) = Some a \<and> av_status a = ApprovalPending"
    then show "a \<in> set ?as"
      by (auto simp: set_parsable approval_matches_def opt_eq_def decoded_fields elim!: record_at_decoded)
  qed
  have "CheckExpiry (NewService ?st) w = expiry_loop ?st now ?as [] ?w2"
    using q assms(4) by (simp add: CheckExpiry_def NewService_def approvalStoreAdapter_def AdapterListPending_def
        ListApprovals_def query_quiet time_now_def limit_rows_def)
  moreover obtain w' where "expiry_loop ?st now ?as [] ?w2 = (Inr (map av_id (filter (overdue now) ?as)), w')"
      "\<forall>i. record_at jc (w_tbl w') i = (if i \<in> av_id ` set (filter (overdue now) ?as)
        then map_option expire (record_at jc (w_tbl w) i) else record_at jc (w_tbl w) i)"
    using expiry_loop_quiet [OF assms(1) _ _ dist, of ?w2 now "[]"] assms(2,3) mem by (auto simp: calm_time_def)
  moreover have "av_id ` set (filter (overdue now) ?as) = {i. \<exists>a. record_at jc (w_tbl w) i = Some a \<and> overdue now a}"
  proof (intro set_eqI iffI)
    fix i assume "i \<in> av_id ` set (filter (overdue now) ?as)"
    then obtain a where a: "a \<in> set ?as" "overdue now a" "i = av_id a" unfolding set_filter by blast
    then have "record_at jc (w_tbl w) i = Some a" unfolding mem by simp
    with a(2) show "i \<in> {i. \<exists>a. record_at jc (w_tbl w) i = Some a \<and> overdue now a}" by blast
  next
    fix i assume "i \<in> {i. \<exists>a. record_at jc (w_tbl w) i = Some a \<and> overdue now a}"
    then obtain a where a: "record_at jc (w_tbl w) i = Some a" "overdue now a" by blast
    then have i: "av_id a = i" using sound_record [OF assms(3)] by blast
    then have "a \<in> set ?as" using a unfolding mem by (simp add: overdue_def)
    with a(2) i show "i \<in> av_id ` set (filter (overdue now) ?as)" unfolding set_filter by blast
  qed
  ultimately show ?thesis using dist by (simp add: distinct_map_filter)
qed

theorem CheckExpiry_outcome_witness:
  "\<exists>ids w'. CheckExpiry ballot_service ballot_world = (Inr ids, w') \<and> ''a1'' \<in> set ids \<and>
     record_at plain_codec (w_tbl w') ''a1'' = Some (expire ballot_demo)"
proof -
  have "overdue 10 ballot_demo" by (simp add: overdue_def ballot_demo_def zero_time_def)
  then show ?thesis
    using CheckExpiry_outcome [OF plain_codec_ok ballot_world_ok(1,2) refl] ballot_world_ok(3)
    by (auto simp: ballot_service_def ballot_world_def)
qed

lemma with_extra_superseded:
  "with_extra (sa\<lparr>ap_comment := c\<rparr>) (e\<lparr>ex_superseded_reason := why\<rparr>) = (with_extra sa e)\<lparr>av_superseded_reason := why\<rparr>"
  by (simp add: with_extra_def split: option.splits)

text \<open>
  The row of a record: reading back what \<^verbatim>\<open>StateApproval\<close> wrote gives the record, for text
  the codec can carry; the columns name the last voter; and annotating a row as superseded with
  \<^verbatim>\<open>MarkSuperseded\<close> adds the reason and keeps everything else of the record.
\<close>

theorem approval_row_round_trip:
  assumes "codec_ok jc" and "text_ok (extra_of a)" and "utf8_valid why"
  shows "\<exists>sa sa'. StateApproval jc a = Some sa \<and> ApprovalFromState jc sa = Inr a \<and>
     ap_approver sa = (if av_decisions a = [] then '''' else dc_approver (last (av_decisions a))) \<and>
     MarkSuperseded jc (Some sa) why = Inr sa' \<and> ApprovalFromState jc sa' = Inr (a\<lparr>av_superseded_reason := why\<rparr>)"
proof -
  let ?e = "(extra_of a)\<lparr>ex_superseded_reason := why\<rparr>"
  obtain s where s: "json_marshal jc (extra_of a) = Some s" "s \<noteq> ''''" "json_unmarshal jc s = Some (extra_of a)"
    using assms(1,2) by (auto simp: codec_ok_def)
  have "text_ok ?e" using assms(2,3) by (simp add: text_ok_def)
  then obtain s' where s': "json_marshal jc ?e = Some s'" "s' \<noteq> ''''" "json_unmarshal jc s' = Some ?e"
    using assms(1) by (auto simp: codec_ok_def)
  let ?sa = "the (StateApproval jc a)"
  have sa: "StateApproval jc a = Some ?sa" "ApprovalFromState jc ?sa = Inr a" "ap_comment ?sa = s"
    "ap_approver ?sa = (if av_decisions a = [] then '''' else dc_approver (last (av_decisions a)))"
    using s decode_fresh [OF assms(1,2)] by (auto simp: StateApproval_def Let_def split: if_splits)
  have m: "MarkSuperseded jc (Some ?sa) why = Inr (?sa\<lparr>ap_comment := s'\<rparr>)"
    using sa(3) s s' by (simp add: MarkSuperseded_def)
  have "with_extra ?sa (extra_of a) = a" using sa(2,3) s by (simp add: ApprovalFromState_def)
  then have "ApprovalFromState jc (?sa\<lparr>ap_comment := s'\<rparr>) = Inr (a\<lparr>av_superseded_reason := why\<rparr>)"
    using s' by (simp add: ApprovalFromState_def with_extra_superseded)
  with sa m show ?thesis by blast
qed

theorem approval_row_round_trip_witness:
  "\<exists>sa. StateApproval plain_codec ballot_demo = Some sa \<and> ApprovalFromState plain_codec sa = Inr ballot_demo"
  using approval_row_round_trip [OF plain_codec_ok, of ballot_demo "''newer plan''"] ballot_demo_ok
  by (auto simp: approval_ok_def byte_in_def)

end
