(* ===== verification/Cluster_Lease.thy ===== *)
theory Cluster_Lease
  imports State_Store
begin

text \<open>
  Leases with fencing tokens, as \<^verbatim>\<open>internal/cluster\<close> keeps them in two tables. The locale
  \<open>lease_table\<close> is the contract of the one statement both share, \<^verbatim>\<open>INSERT ... ON CONFLICT\<close> with a
  guarded update: a free key is granted with a fresh token, the owner is refreshed under his token,
  an expired lease changes hands under a fresh token, a live one is refused. What follows from it
  for fencing is proved once. \<open>Exec_Guard\<close> and \<open>Cluster_Locks\<close> interpret it.

  A sequence is the last value it gave; \<^verbatim>\<open>nextval\<close> in the \<^verbatim>\<open>VALUES\<close> list is consumed even when the
  row conflicts.
\<close>

text \<open>\<^verbatim>\<open>ttl.Milliseconds()\<close>, back in nanoseconds.\<close>

definition ttl_ms :: "duration \<Rightarrow> duration" where
  "ttl_ms ttl = go_div ttl 1000000 * 1000000"

lemma ttl_ms_nonneg [simp]: "0 \<le> ttl \<Longrightarrow> 0 \<le> ttl_ms ttl"
  by (simp add: ttl_ms_def)

locale lease_table =
  fixes key :: "'r \<Rightarrow> string"
    and owner :: "'r \<Rightarrow> string"
    and token :: "'r \<Rightarrow> int"
    and expiry :: "'r \<Rightarrow> time"
    and claim :: "string \<Rightarrow> string \<Rightarrow> duration \<Rightarrow> time \<Rightarrow> 'r list \<times> int \<Rightarrow> 'r option \<times> 'r list \<times> int"
  assumes claim_free: "k \<notin> key ` set rows \<Longrightarrow> \<exists>r. claim k p ttl now (rows, n) = (Some r, rows @ [r], n + 1) \<and>
        key r = k \<and> owner r = p \<and> token r = n + 1 \<and> expiry r = now + ttl_ms ttl"
    and claim_own: "key_unique key rows \<Longrightarrow> x \<in> set rows \<Longrightarrow> key x = k \<Longrightarrow> owner x = p \<Longrightarrow>
        \<exists>r n'. claim k p ttl now (rows, n) = (Some r, update_where (\<lambda>y. key y = k) (\<lambda>_. r) rows, n') \<and> n \<le> n' \<and>
          key r = k \<and> owner r = p \<and> token r = token x \<and> expiry r = now + ttl_ms ttl"
    and claim_expired: "key_unique key rows \<Longrightarrow> x \<in> set rows \<Longrightarrow> key x = k \<Longrightarrow> owner x \<noteq> p \<Longrightarrow> expiry x < now \<Longrightarrow>
        \<exists>r n'. claim k p ttl now (rows, n) = (Some r, update_where (\<lambda>y. key y = k) (\<lambda>_. r) rows, n') \<and> n < token r \<and>
          token r \<le> n' \<and> key r = k \<and> owner r = p \<and> expiry r = now + ttl_ms ttl"
    and claim_live: "key_unique key rows \<Longrightarrow> x \<in> set rows \<Longrightarrow> key x = k \<Longrightarrow> owner x \<noteq> p \<Longrightarrow> \<not> expiry x < now \<Longrightarrow>
        \<exists>n'. claim k p ttl now (rows, n) = (None, rows, n') \<and> n \<le> n'"
begin

definition leases :: "'r list \<Rightarrow> (string \<times> string \<times> int) set" where
  "leases rows = (\<lambda>r. (key r, owner r, token r)) ` set rows"

definition issued :: "'r list \<times> int \<Rightarrow> bool" where
  "issued s \<longleftrightarrow> key_unique key (fst s) \<and> (\<forall>r\<in>set (fst s). token r \<le> snd s)"

text \<open>A holding that was granted at some time and that no row backs any more.\<close>

definition fenced :: "string \<Rightarrow> string \<Rightarrow> int \<Rightarrow> 'r list \<times> int \<Rightarrow> bool" where
  "fenced k p e s \<longleftrightarrow> e \<le> snd s \<and> (k, p, e) \<notin> leases (fst s)"

definition held_until :: "time \<Rightarrow> string \<Rightarrow> string \<Rightarrow> int \<Rightarrow> 'r list \<Rightarrow> bool" where
  "held_until u k p e rows \<longleftrightarrow> (\<exists>r\<in>set rows. key r = k \<and> owner r = p \<and> token r = e \<and> u \<le> expiry r)"

lemma claim_cases:
  assumes "key_unique key rows"
  obtains (free) r where "k \<notin> key ` set rows" "claim k p ttl now (rows, n) = (Some r, rows @ [r], n + 1)"
      "key r = k" "owner r = p" "token r = n + 1" "expiry r = now + ttl_ms ttl"
  | (own) x r n' where "x \<in> set rows" "key x = k" "owner x = p"
      "claim k p ttl now (rows, n) = (Some r, update_where (\<lambda>y. key y = k) (\<lambda>_. r) rows, n')" "n \<le> n'"
      "key r = k" "owner r = p" "token r = token x" "expiry r = now + ttl_ms ttl"
  | (expired) x r n' where "x \<in> set rows" "key x = k" "owner x \<noteq> p" "expiry x < now"
      "claim k p ttl now (rows, n) = (Some r, update_where (\<lambda>y. key y = k) (\<lambda>_. r) rows, n')" "n < token r" "token r \<le> n'"
      "key r = k" "owner r = p" "expiry r = now + ttl_ms ttl"
  | (live) x n' where "x \<in> set rows" "key x = k" "owner x \<noteq> p" "\<not> expiry x < now"
      "claim k p ttl now (rows, n) = (None, rows, n')" "n \<le> n'"
proof (cases "k \<in> key ` set rows")
  case False
  then show ?thesis using claim_free [of k rows p ttl now n] free by blast
next
  case True
  then obtain x where x: "x \<in> set rows" "key x = k" by blast
  show ?thesis
    using claim_own [OF assms x, of p ttl now n] claim_expired [OF assms x, of p now ttl n]
      claim_live [OF assms x, of p now ttl n] x own expired live by metis
qed

lemma set_replace:
  assumes "x \<in> set rows" and "key x = k"
  shows "set (update_where (\<lambda>y. key y = k) (\<lambda>_. r) rows) = insert r {y \<in> set rows. key y \<noteq> k}"
  using assms by (auto simp: set_update_where image_iff)

lemma key_unique_replace:
  "key r = k \<Longrightarrow> key_unique key rows \<Longrightarrow> key_unique key (update_where (\<lambda>y. key y = k) (\<lambda>_. r) rows)"
  by (induction rows) (auto simp: set_update_where image_iff split: if_splits)

lemma claim_issued:
  assumes "issued (rows, n)" and "claim k p ttl now (rows, n) = (ro, rows', n')"
  shows "issued (rows', n')" and "n \<le> n'"
    and "leases rows' \<subseteq> leases rows \<union> {(k', p', e). n < e}"
proof -
  have u: "key_unique key rows" and tok: "\<forall>r\<in>set rows. token r \<le> n" using assms(1) by (auto simp: issued_def)
  have "issued (rows', n') \<and> n \<le> n' \<and> leases rows' \<subseteq> leases rows \<union> {(k', p', e). n < e}"
    using u
  proof (cases rule: claim_cases [where k = k and p = p and ttl = ttl and now = now and n = n])
    case (free r)
    then show ?thesis using assms(2) u tok
      by (auto simp: issued_def leases_def key_unique_append)
  next
    case (own x r m)
    then have rows': "rows' = update_where (\<lambda>y. key y = k) (\<lambda>_. r) rows" "n' = m" using assms(2) by auto
    have set': "set rows' = insert r {y \<in> set rows. key y \<noteq> k}" using set_replace own rows' by simp
    have "token r \<le> n" using own tok by simp
    then have "issued (rows', n')"
      using set' own(5,6) u tok rows' key_unique_replace by (auto simp: issued_def)
    moreover have "(key r, owner r, token r) = (key x, owner x, token x)" using own by simp
    then have "leases rows' \<subseteq> leases rows" using set' own(1) by (auto simp: leases_def)
    ultimately show ?thesis using own(5) rows' by auto
  next
    case (expired x r m)
    then have rows': "rows' = update_where (\<lambda>y. key y = k) (\<lambda>_. r) rows" "n' = m" using assms(2) by auto
    have set': "set rows' = insert r {y \<in> set rows. key y \<noteq> k}" using set_replace expired rows' by simp
    have "issued (rows', n')"
      using set' expired(6-8) u tok rows' key_unique_replace by (auto simp: issued_def)
    moreover have "leases rows' \<subseteq> leases rows \<union> {(k', p', e). n < e}"
      using set' expired(6) by (auto simp: leases_def)
    ultimately show ?thesis using expired(6,7) rows' by auto
  next
    case (live x m)
    then show ?thesis using assms by (auto simp: issued_def)
  qed
  then show "issued (rows', n')" "n \<le> n'" "leases rows' \<subseteq> leases rows \<union> {(k', p', e). n < e}" by auto
qed

lemma claim_granted:
  assumes "issued (rows, n)" and "claim k p ttl now (rows, n) = (Some r, rows', n')"
  shows "r \<in> set rows' \<and> key r = k \<and> owner r = p"
proof -
  have "key_unique key rows" using assms(1) by (simp add: issued_def)
  then show ?thesis
    by (cases rule: claim_cases [where k = k and p = p and ttl = ttl and now = now and n = n])
      (use assms(2) set_replace in auto)
qed

text \<open>A fenced holding stays fenced, whoever claims and whatever is renewed or deleted.\<close>

lemma claim_fenced:
  assumes "issued s" and "fenced k p e s" and "claim k' p' ttl now s = (ro, s')"
  shows "fenced k p e s' \<and> issued s'"
proof -
  obtain rows n rows' n' where s: "s = (rows, n)" "s' = (rows', n')" by fastforce
  note c = claim_issued [OF assms(1,3) [unfolded s]]
  from c assms(2) show ?thesis unfolding s by (auto simp: fenced_def)
qed

lemma shrink_fenced:
  assumes "issued (rows, n)" and "fenced k p e (rows, n)" and "leases rows' \<subseteq> leases rows" and "key_unique key rows'"
  shows "fenced k p e (rows', n) \<and> issued (rows', n)"
  using assms by (auto simp: fenced_def issued_def leases_def)

text \<open>A holding outlives everything that happens before its expiry, as long as renewals are for the same time.\<close>

lemma claim_held:
  assumes "issued s" and "held_until u k p e (fst s)" and "claim k' p' ttl now s = (ro, s')"
    and "now \<le> u" and "u \<le> now + ttl_ms ttl"
  shows "held_until u k p e (fst s')" and "k' = k \<Longrightarrow> p' \<noteq> p \<Longrightarrow> ro = None"
proof -
  obtain rows n rows' n' where s: "s = (rows, n)" "s' = (rows', n')" by fastforce
  have uq: "key_unique key rows" using assms(1) s by (simp add: issued_def)
  obtain r where r: "r \<in> set rows" "key r = k" "owner r = p" "token r = e" "u \<le> expiry r"
    using assms(2) s by (auto simp: held_until_def)
  have "held_until u k p e rows' \<and> (k' = k \<longrightarrow> p' \<noteq> p \<longrightarrow> ro = None)"
    using uq
  proof (cases rule: claim_cases [where k = k' and p = p' and ttl = ttl and now = now and n = n])
    case (free x)
    then show ?thesis using assms(3) r unfolding s by (auto simp: held_until_def)
  next
    case (own x y m)
    then have rows': "set rows' = insert y {z \<in> set rows. key z \<noteq> k'}"
      using assms(3) set_replace unfolding s by auto
    show ?thesis
    proof (cases "k' = k")
      case True
      then have "x = r" using key_unique_eq [OF uq own(1) r(1)] own r by simp
      then show ?thesis using own r rows' True assms(5) by (auto simp: held_until_def)
    next
      case False
      then show ?thesis using r rows' by (auto simp: held_until_def)
    qed
  next
    case (expired x y m)
    then have rows': "set rows' = insert y {z \<in> set rows. key z \<noteq> k'}"
      using assms(3) set_replace unfolding s by auto
    have "k' \<noteq> k" using key_unique_eq [OF uq expired(1) r(1)] expired r assms(4) by auto
    then show ?thesis using r rows' by (auto simp: held_until_def)
  next
    case (live x m)
    then show ?thesis using assms(3) r unfolding s by (auto simp: held_until_def)
  qed
  then show "held_until u k p e (fst s')" "k' = k \<Longrightarrow> p' \<noteq> p \<Longrightarrow> ro = None" using s by auto
qed

end

end
