(* ===== verification/Exec_Guard.thy ===== *)
theory Exec_Guard
  imports Cluster_Lease
begin

text \<open>
  \<^verbatim>\<open>internal/cluster/exec_guard.go\<close>: the execution lease of a run. Every method is one statement on
  the table \<^verbatim>\<open>run_execution\<close> at the database's time; the statement is a function of the tables
  (\<open>register_rows\<close>, \<open>owns_stmt\<close>, ...) and the method wraps it with the argument checks and the errors.
  Because a statement is atomic, what several nodes do to the table is a list of calls with the times
  they ran at, in any order (\<open>guard_run\<close>).
\<close>

section \<open>Data\<close>

datatype cluster_error =
    ErrFencedOut
  | ErrLockBusy
  | ErrLockNotHeld
  | ClusterBadArgument
  | ClusterNilDB
  | ClusterStoreError store_error
  | NodeNotFound string
  | NoEligibleNode

type_synonym 'a cluster_op = "world \<Rightarrow> (cluster_error + 'a) \<times> world"

definition DefaultExecLeaseTTL :: duration where "DefaultExecLeaseTTL = 30 * second"
definition DefaultOrphanGracePeriod :: duration where "DefaultOrphanGracePeriod = 5 * minute"

record exec_lease =
  xl_run_id :: string
  xl_owner :: string
  xl_epoch :: int
  xl_expiry :: time

text \<open>A guard is its database handle; \<open>False\<close> is the nil handle.\<close>

record exec_guard =
  xg_db :: bool

definition NewExecutionGuard :: "bool \<Rightarrow> exec_guard" where
  "NewExecutionGuard db = \<lparr>xg_db = db\<rparr>"

definition guard_check :: "exec_guard \<Rightarrow> string \<Rightarrow> string \<Rightarrow> duration \<Rightarrow> cluster_error option" where
  "guard_check g rid p ttl =
     (if \<not> xg_db g then Some ClusterNilDB
      else if rid = '''' then Some ClusterBadArgument
      else if p = '''' then Some ClusterBadArgument
      else if ttl < 0 then Some ClusterBadArgument else None)"

section \<open>The statements\<close>

definition register_rows ::
    "string \<Rightarrow> string \<Rightarrow> duration \<Rightarrow> time \<Rightarrow> exec_row list \<times> int \<Rightarrow> exec_row option \<times> exec_row list \<times> int" where
  "register_rows rid p ttl now s =
    (case s of (rows, n) \<Rightarrow>
      case find (\<lambda>x. xr_run_id x = rid) rows of
        None \<Rightarrow>
          let r = \<lparr>xr_run_id = rid, xr_owner = p, xr_epoch = n + 1, xr_registered_at = now,
                   xr_lease_expires = now + ttl_ms ttl\<rparr>
          in (Some r, rows @ [r], n + 1)
      | Some x \<Rightarrow>
          if xr_owner x = p \<or> xr_lease_expires x < now then
            let r = \<lparr>xr_run_id = rid, xr_owner = p,
                     xr_epoch = (if xr_owner x = p then xr_epoch x else n + 2),
                     xr_registered_at = now, xr_lease_expires = now + ttl_ms ttl\<rparr>
            in (Some r, update_where (\<lambda>y. xr_run_id y = rid) (\<lambda>_. r) rows,
                if xr_owner x = p then n + 1 else n + 2)
          else (None, rows, n + 1))"

definition register_stmt :: "string \<Rightarrow> string \<Rightarrow> duration \<Rightarrow> time \<Rightarrow> tables \<Rightarrow> exec_row option \<times> tables" where
  "register_stmt rid p ttl now t =
    (case register_rows rid p ttl now (t_executions t, seq_epoch t) of
       (ro, rows, n) \<Rightarrow> (ro, t\<lparr>t_executions := rows, seq_epoch := n\<rparr>))"

text \<open>A conditional renewal: how many rows it hit, and the tables.\<close>

definition renew_stmt :: "(exec_row \<Rightarrow> bool) \<Rightarrow> duration \<Rightarrow> time \<Rightarrow> tables \<Rightarrow> nat \<times> tables" where
  "renew_stmt P ttl now t =
     (count_where (\<lambda>x. P x \<and> now \<le> xr_lease_expires x) (t_executions t),
      t\<lparr>t_executions := update_where (\<lambda>x. P x \<and> now \<le> xr_lease_expires x)
          (\<lambda>x. x\<lparr>xr_lease_expires := now + ttl_ms ttl\<rparr>) (t_executions t)\<rparr>)"

definition owns_stmt :: "exec_lease \<Rightarrow> duration \<Rightarrow> time \<Rightarrow> tables \<Rightarrow> nat \<times> tables" where
  "owns_stmt l = renew_stmt (\<lambda>x. xr_run_id x = xl_run_id l \<and> xr_owner x = xl_owner l \<and> xr_epoch x = xl_epoch l)"

definition heartbeat_stmt :: "exec_lease \<Rightarrow> duration \<Rightarrow> time \<Rightarrow> tables \<Rightarrow> nat \<times> tables" where
  "heartbeat_stmt l = renew_stmt (\<lambda>x. xr_run_id x = xl_run_id l \<and> xr_owner x = xl_owner l)"

definition end_stmt :: "exec_lease \<Rightarrow> tables \<Rightarrow> tables" where
  "end_stmt l t = t\<lparr>t_executions := filter (\<lambda>x. \<not> (xr_run_id x = xl_run_id l \<and> xr_owner x = xl_owner l \<and>
     xr_epoch x = xl_epoch l)) (t_executions t)\<rparr>"

definition delete_stmt :: "string \<Rightarrow> tables \<Rightarrow> tables" where
  "delete_stmt rid t = t\<lparr>t_executions := filter (\<lambda>x. xr_run_id x \<noteq> rid) (t_executions t)\<rparr>"

definition expired_ids :: "time \<Rightarrow> tables \<Rightarrow> string list" where
  "expired_ids now t = sort (map xr_run_id (filter (\<lambda>x. xr_lease_expires x < now) (t_executions t)))"

definition orphan_ids :: "duration \<Rightarrow> time \<Rightarrow> tables \<Rightarrow> string list" where
  "orphan_ids grace now t = sort (map run_id (filter (\<lambda>r. run_status r = ''running'' \<and>
     run_updated_at r < now - ttl_ms grace \<and> run_id r \<notin> xr_run_id ` set (t_executions t)) (t_runs t)))"

section \<open>The methods\<close>

definition lease_of :: "exec_row \<Rightarrow> exec_lease" where
  "lease_of x = \<lparr>xl_run_id = xr_run_id x, xl_owner = xr_owner x, xl_epoch = xr_epoch x, xl_expiry = xr_lease_expires x\<rparr>"

definition Register :: "exec_guard \<Rightarrow> string \<Rightarrow> string \<Rightarrow> duration \<Rightarrow> exec_lease cluster_op" where
  "Register g rid p ttl w = (case guard_check g rid p ttl of
     Some e \<Rightarrow> (Inl e, w)
   | None \<Rightarrow> (case stmt_at (\<lambda>now t. case register_stmt rid p ttl now t of (ro, t') \<Rightarrow> (Inr ro, t')) w of
       (Inl e, w1) \<Rightarrow> (Inl (ClusterStoreError e), w1)
     | (Inr None, w1) \<Rightarrow> (Inl ErrFencedOut, w1)
     | (Inr (Some x), w1) \<Rightarrow> (Inr (lease_of x), w1)))"

definition renew :: "(time \<Rightarrow> tables \<Rightarrow> nat \<times> tables) \<Rightarrow> unit cluster_op" where
  "renew f w = (case stmt_at (\<lambda>now t. case f now t of (n, t') \<Rightarrow> (Inr n, t')) w of
     (Inl e, w1) \<Rightarrow> (Inl (ClusterStoreError e), w1)
   | (Inr n, w1) \<Rightarrow> (if n = 0 then Inl ErrFencedOut else Inr (), w1))"

definition Owns :: "exec_guard \<Rightarrow> exec_lease \<Rightarrow> duration \<Rightarrow> unit cluster_op" where
  "Owns g l ttl w = (case guard_check g (xl_run_id l) (xl_owner l) ttl of
     Some e \<Rightarrow> (Inl e, w) | None \<Rightarrow> renew (owns_stmt l ttl) w)"

definition Heartbeat :: "exec_guard \<Rightarrow> exec_lease \<Rightarrow> duration \<Rightarrow> unit cluster_op" where
  "Heartbeat g l ttl w = (case guard_check g (xl_run_id l) (xl_owner l) ttl of
     Some e \<Rightarrow> (Inl e, w) | None \<Rightarrow> renew (heartbeat_stmt l ttl) w)"

definition End :: "exec_guard \<Rightarrow> exec_lease \<Rightarrow> unit cluster_op" where
  "End g l w = (case guard_check g (xl_run_id l) (xl_owner l) 0 of
     Some e \<Rightarrow> (Inl e, w)
   | None \<Rightarrow> (case stmt (\<lambda>t. (Inr (), end_stmt l t)) w of
       (Inl e, w1) \<Rightarrow> (Inl (ClusterStoreError e), w1) | (Inr _, w1) \<Rightarrow> (Inr (), w1)))"

definition ExpiredExecutions :: "exec_guard \<Rightarrow> string list cluster_op" where
  "ExpiredExecutions g w = (if \<not> xg_db g then (Inl ClusterNilDB, w)
     else case stmt_at (\<lambda>now t. (Inr (expired_ids now t), t)) w of
       (Inl e, w1) \<Rightarrow> (Inl (ClusterStoreError e), w1) | (Inr ids, w1) \<Rightarrow> (Inr ids, w1))"

definition OrphanedExecutions :: "exec_guard \<Rightarrow> duration \<Rightarrow> string list cluster_op" where
  "OrphanedExecutions g grace0 w = (if \<not> xg_db g then (Inl ClusterNilDB, w)
     else let grace = (if grace0 \<le> 0 then DefaultOrphanGracePeriod else grace0) in
      case stmt_at (\<lambda>now t. (Inr (orphan_ids grace now t), t)) w of
       (Inl e, w1) \<Rightarrow> (Inl (ClusterStoreError e), w1) | (Inr ids, w1) \<Rightarrow> (Inr ids, w1))"

definition DeleteExecution :: "exec_guard \<Rightarrow> string \<Rightarrow> unit cluster_op" where
  "DeleteExecution g rid w = (if \<not> xg_db g then (Inl ClusterNilDB, w)
     else if rid = '''' then (Inl ClusterBadArgument, w)
     else case stmt (\<lambda>t. (Inr (), delete_stmt rid t)) w of
       (Inl e, w1) \<Rightarrow> (Inl (ClusterStoreError e), w1) | (Inr _, w1) \<Rightarrow> (Inr (), w1))"

definition GetExecution :: "exec_guard \<Rightarrow> string \<Rightarrow> exec_lease option cluster_op" where
  "GetExecution g rid w = (if \<not> xg_db g then (Inl ClusterNilDB, w)
     else if rid = '''' then (Inl ClusterBadArgument, w)
     else case query (\<lambda>t. find (\<lambda>x. xr_run_id x = rid) (t_executions t)) w of
       (Inl e, w1) \<Rightarrow> (Inl (ClusterStoreError e), w1)
     | (Inr ro, w1) \<Rightarrow> (Inr (map_option lease_of ro), w1))"

text \<open>A lease bound to its guard.\<close>

record lease_handle =
  lh_guard :: exec_guard
  lh_lease :: exec_lease
  lh_ttl :: duration

definition LeaseGuard :: "exec_guard \<Rightarrow> exec_lease \<Rightarrow> duration \<Rightarrow> lease_handle" where
  "LeaseGuard g l ttl = \<lparr>lh_guard = g, lh_lease = l, lh_ttl = ttl\<rparr>"

definition HandleOwns :: "lease_handle \<Rightarrow> unit cluster_op" where
  "HandleOwns h = Owns (lh_guard h) (lh_lease h) (lh_ttl h)"

definition HandleHeartbeat :: "lease_handle \<Rightarrow> unit cluster_op" where
  "HandleHeartbeat h = Heartbeat (lh_guard h) (lh_lease h) (lh_ttl h)"

definition HandleEnd :: "lease_handle \<Rightarrow> unit cluster_op" where
  "HandleEnd h = End (lh_guard h) (lh_lease h)"

section \<open>Calls of all nodes, one after the other\<close>

datatype guard_call =
    CallRegister string string
  | CallOwns exec_lease
  | CallHeartbeat exec_lease
  | CallEnd exec_lease
  | CallDelete string

fun guard_apply :: "duration \<Rightarrow> time \<times> guard_call \<Rightarrow> tables \<Rightarrow> tables" where
  "guard_apply ttl (now, CallRegister rid p) t = snd (register_stmt rid p ttl now t)"
| "guard_apply ttl (now, CallOwns l) t = snd (owns_stmt l ttl now t)"
| "guard_apply ttl (now, CallHeartbeat l) t = snd (heartbeat_stmt l ttl now t)"
| "guard_apply ttl (now, CallEnd l) t = end_stmt l t"
| "guard_apply ttl (now, CallDelete rid) t = delete_stmt rid t"

fun guard_run :: "duration \<Rightarrow> (time \<times> guard_call) list \<Rightarrow> tables \<Rightarrow> tables" where
  "guard_run ttl [] t = t"
| "guard_run ttl (c # cs) t = guard_run ttl cs (guard_apply ttl c t)"

section \<open>The lease table\<close>

lemma find_other: "k \<notin> f ` set xs \<Longrightarrow> find (\<lambda>x. f x = k) xs = None"
  by (auto simp: find_None_iff)

interpretation xl: lease_table xr_run_id xr_owner xr_epoch xr_lease_expires register_rows
proof
  fix k :: string and rows :: "exec_row list" and p ttl now and n :: int
  assume "k \<notin> xr_run_id ` set rows"
  then show "\<exists>r. register_rows k p ttl now (rows, n) = (Some r, rows @ [r], n + 1) \<and> xr_run_id r = k \<and>
      xr_owner r = p \<and> xr_epoch r = n + 1 \<and> xr_lease_expires r = now + ttl_ms ttl"
    by (simp add: register_rows_def find_other Let_def)
next
  fix rows :: "exec_row list" and x :: exec_row and k p ttl now and n :: int
  assume x: "key_unique xr_run_id rows" "x \<in> set rows" "xr_run_id x = k" and p: "xr_owner x = p"
  have "find (\<lambda>y. xr_run_id y = k) rows = Some x" using find_key_unique [OF x(1,2)] x(3) by simp
  with p show "\<exists>r n'. register_rows k p ttl now (rows, n) = (Some r, update_where (\<lambda>y. xr_run_id y = k) (\<lambda>_. r) rows, n') \<and>
      n \<le> n' \<and> xr_run_id r = k \<and> xr_owner r = p \<and> xr_epoch r = xr_epoch x \<and> xr_lease_expires r = now + ttl_ms ttl"
    by (simp add: register_rows_def Let_def)
next
  fix rows :: "exec_row list" and x :: exec_row and k p ttl now and n :: int
  assume x: "key_unique xr_run_id rows" "x \<in> set rows" "xr_run_id x = k" and p: "xr_owner x \<noteq> p" "xr_lease_expires x < now"
  have "find (\<lambda>y. xr_run_id y = k) rows = Some x" using find_key_unique [OF x(1,2)] x(3) by simp
  with p show "\<exists>r n'. register_rows k p ttl now (rows, n) = (Some r, update_where (\<lambda>y. xr_run_id y = k) (\<lambda>_. r) rows, n') \<and>
      n < xr_epoch r \<and> xr_epoch r \<le> n' \<and> xr_run_id r = k \<and> xr_owner r = p \<and> xr_lease_expires r = now + ttl_ms ttl"
    by (simp add: register_rows_def Let_def)
next
  fix rows :: "exec_row list" and x :: exec_row and k p ttl now and n :: int
  assume x: "key_unique xr_run_id rows" "x \<in> set rows" "xr_run_id x = k" and p: "xr_owner x \<noteq> p" "\<not> xr_lease_expires x < now"
  have "find (\<lambda>y. xr_run_id y = k) rows = Some x" using find_key_unique [OF x(1,2)] x(3) by simp
  with p show "\<exists>n'. register_rows k p ttl now (rows, n) = (None, rows, n') \<and> n \<le> n'"
    by (simp add: register_rows_def Let_def)
qed

section \<open>Fencing\<close>

definition exec_state :: "tables \<Rightarrow> exec_row list \<times> int" where
  "exec_state t = (t_executions t, seq_epoch t)"

text \<open>The primary key, and no epoch the sequence has not given yet.\<close>

definition exec_ok :: "tables \<Rightarrow> bool" where
  "exec_ok t \<longleftrightarrow> key_unique xr_run_id (t_executions t) \<and> (\<forall>x\<in>set (t_executions t). xr_epoch x \<le> seq_epoch t)"

definition backs :: "exec_lease \<Rightarrow> exec_row \<Rightarrow> bool" where
  "backs l x \<longleftrightarrow> xr_run_id x = xl_run_id l \<and> xr_owner x = xl_owner l \<and> xr_epoch x = xl_epoch l"

definition backed :: "exec_lease \<Rightarrow> tables \<Rightarrow> bool" where
  "backed l t \<longleftrightarrow> list_ex (backs l) (t_executions t)"

lemma exec_ok_issued: "exec_ok t \<longleftrightarrow> xl.issued (exec_state t)"
  by (simp add: exec_ok_def xl.issued_def exec_state_def)

lemma fenced_iff:
  "xl.fenced (xl_run_id l) (xl_owner l) (xl_epoch l) (exec_state t) \<longleftrightarrow> xl_epoch l \<le> seq_epoch t \<and> \<not> backed l t"
  by (auto simp: xl.fenced_def exec_state_def xl.leases_def backed_def backs_def list_ex_iff image_iff)

lemma exec_state_simps [simp]:
  "exec_state (t\<lparr>t_executions := rows\<rparr>) = (rows, seq_epoch t)"
  "exec_state (t\<lparr>t_executions := rows, seq_epoch := n\<rparr>) = (rows, n)"
  by (simp_all add: exec_state_def)

lemma register_state:
  "register_rows rid p ttl now (exec_state t) = (fst (register_stmt rid p ttl now t), exec_state (snd (register_stmt rid p ttl now t)))"
  by (simp add: register_stmt_def exec_state_def split: prod.splits)

lemma leases_renew: "xl.leases (update_where P (\<lambda>x. x\<lparr>xr_lease_expires := e\<rparr>) rows) = xl.leases rows"
  by (induction rows) (auto simp: xl.leases_def)

lemma leases_filter: "xl.leases (filter P rows) \<subseteq> xl.leases rows"
  by (auto simp: xl.leases_def)

text \<open>Renewals and deletions leave no lease behind that was not there.\<close>

lemma apply_shrinks:
  assumes "c = CallOwns l \<or> c = CallHeartbeat l \<or> c = CallEnd l \<or> c = CallDelete rid" and "key_unique xr_run_id (t_executions t)"
  shows "seq_epoch (guard_apply ttl (now, c) t) = seq_epoch t"
    and "xl.leases (t_executions (guard_apply ttl (now, c) t)) \<subseteq> xl.leases (t_executions t)"
    and "key_unique xr_run_id (t_executions (guard_apply ttl (now, c) t))"
  using assms
  by (auto simp: owns_stmt_def heartbeat_stmt_def renew_stmt_def end_stmt_def delete_stmt_def leases_renew
      intro: key_unique_filter subsetD [OF leases_filter])

lemma apply_fenced:
  assumes "xl.issued (exec_state t)" and "xl.fenced k p e (exec_state t)"
  shows "xl.fenced k p e (exec_state (guard_apply ttl c t)) \<and> xl.issued (exec_state (guard_apply ttl c t))"
proof (cases "\<exists>now rid q. c = (now, CallRegister rid q)")
  case True
  then obtain now rid q where c: "c = (now, CallRegister rid q)" by blast
  show ?thesis unfolding c using xl.claim_fenced [OF assms register_state] by simp
next
  case False
  obtain now k' where c: "c = (now, k')" by fastforce
  then have kind: "\<exists>l rid. k' = CallOwns l \<or> k' = CallHeartbeat l \<or> k' = CallEnd l \<or> k' = CallDelete rid"
    using False by (cases k') auto
  have u: "key_unique xr_run_id (t_executions t)" using assms(1) by (simp add: xl.issued_def exec_state_def)
  from kind u show ?thesis
    unfolding c using xl.shrink_fenced [of "t_executions t" "seq_epoch t"] assms apply_shrinks
    by (metis exec_state_def)
qed

lemma run_fenced:
  assumes "xl.issued (exec_state t)" and "xl.fenced k p e (exec_state t)"
  shows "xl.fenced k p e (exec_state (guard_run ttl cs t))"
  using assms
proof (induction cs arbitrary: t)
  case (Cons c cs)
  then show ?case using apply_fenced by simp
qed simp

lemma unbacked_owns:
  assumes "\<not> backed l t"
  shows "owns_stmt l ttl now t = (0, t)" and "end_stmt l t = t"
proof -
  have no: "\<not> (xr_run_id x = xl_run_id l \<and> xr_owner x = xl_owner l \<and> xr_epoch x = xl_epoch l)" if "x \<in> set (t_executions t)" for x
    using assms that by (auto simp: backed_def backs_def list_ex_iff)
  then have "count_where (\<lambda>x. (xr_run_id x = xl_run_id l \<and> xr_owner x = xl_owner l \<and> xr_epoch x = xl_epoch l) \<and>
      now \<le> xr_lease_expires x) (t_executions t) = 0" by auto
  then show "owns_stmt l ttl now t = (0, t)"
    using no by (simp add: owns_stmt_def renew_stmt_def update_where_none)
  show "end_stmt l t = t" using no by (simp add: end_stmt_def filter_id_conv)
qed

lemma Owns_refused:
  assumes "\<not> backed l (w_intf w (w_tick w) (w_tbl w))"
  shows "isl (fst (Owns g l ttl w))"
  using unbacked_owns(1) [OF assms]
  by (auto simp: Owns_def renew_def stmt_at_def stmt_def Let_def split: option.splits)

section \<open>Properties\<close>

text \<open>
  C30. Fencing: once the row of an execution lease is deleted (the takeover) or taken over by another
  node's registration, no later check with that lease succeeds and its release does nothing, whatever
  any nodes call on the table afterwards, at whatever times and in whatever order.
\<close>

theorem fenced_out_for_good:
  assumes "exec_ok t" and "xl_epoch l \<le> seq_epoch t"
    and "t1 = delete_stmt (xl_run_id l) t \<or>
         (\<exists>p ttl now x. p \<noteq> xl_owner l \<and> register_stmt (xl_run_id l) p ttl now t = (Some x, t1))"
    and "w_intf w (w_tick w) (w_tbl w) = guard_run ttl cs t1"
  shows "isl (fst (Owns g l ttl' w)) \<and>
    owns_stmt l ttl' now' (guard_run ttl cs t1) = (0, guard_run ttl cs t1) \<and>
    end_stmt l (guard_run ttl cs t1) = guard_run ttl cs t1"
proof -
  have iss: "xl.issued (exec_state t)" using assms(1) by (simp add: exec_ok_issued)
  have f: "xl.fenced (xl_run_id l) (xl_owner l) (xl_epoch l) (exec_state t1) \<and> xl.issued (exec_state t1)"
    using assms(3)
  proof
    assume t1: "t1 = delete_stmt (xl_run_id l) t"
    then have "xl.fenced (xl_run_id l) (xl_owner l) (xl_epoch l) (exec_state t1)"
      using assms(2) by (auto simp: xl.fenced_def xl.leases_def exec_state_def delete_stmt_def)
    moreover have "xl.issued (exec_state t1)"
      using iss t1 by (auto simp: xl.issued_def exec_state_def delete_stmt_def intro: key_unique_filter)
    ultimately show ?thesis by blast
  next
    assume "\<exists>p ttl now x. p \<noteq> xl_owner l \<and> register_stmt (xl_run_id l) p ttl now t = (Some x, t1)"
    then obtain p d now x where p: "p \<noteq> xl_owner l" and reg: "register_stmt (xl_run_id l) p d now t = (Some x, t1)" by blast
    have r: "register_rows (xl_run_id l) p d now (exec_state t) = (Some x, exec_state t1)"
      using register_state [of "xl_run_id l" p d now t] reg by simp
    have "xl.issued (exec_state t1)" "seq_epoch t \<le> seq_epoch t1"
      using xl.claim_issued [of "t_executions t" "seq_epoch t"] iss r by (simp_all add: exec_state_def)
    moreover have "\<not> backed l t1"
    proof -
      have u: "key_unique xr_run_id (t_executions t1)" using \<open>xl.issued (exec_state t1)\<close> by (simp add: xl.issued_def exec_state_def)
      have x: "x \<in> set (t_executions t1) \<and> xr_run_id x = xl_run_id l \<and> xr_owner x = p"
        using xl.claim_granted [of "t_executions t" "seq_epoch t"] iss r by (simp add: exec_state_def)
      have "\<not> backs l y" if "y \<in> set (t_executions t1)" for y
        using key_unique_eq [OF u that, of x] x p by (auto simp: backs_def)
      then show ?thesis by (auto simp: backed_def list_ex_iff)
    qed
    ultimately show ?thesis using assms(2) by (simp add: fenced_iff)
  qed
  then have nb: "\<not> backed l (guard_run ttl cs t1)" using run_fenced by (metis fenced_iff)
  then show ?thesis using unbacked_owns [OF nb] Owns_refused [of l w] assms(4) by simp
qed

text \<open>
  The calls that leave a lease alone: everything but its own release and the deletion of its run's row.
\<close>

definition harmless :: "exec_lease \<Rightarrow> guard_call \<Rightarrow> bool" where
  "harmless l c = (case c of
     CallDelete rid \<Rightarrow> rid \<noteq> xl_run_id l
   | CallEnd m \<Rightarrow> \<not> (xl_run_id m = xl_run_id l \<and> xl_owner m = xl_owner l \<and> xl_epoch m = xl_epoch l)
   | _ \<Rightarrow> True)"

abbreviation live_until :: "time \<Rightarrow> exec_lease \<Rightarrow> tables \<Rightarrow> bool" where
  "live_until u l t \<equiv> xl.held_until u (xl_run_id l) (xl_owner l) (xl_epoch l) (t_executions t)"

lemma renew_held:
  assumes "xl.held_until u k p e rows" and "u \<le> v"
  shows "xl.held_until u k p e (update_where P (\<lambda>x. x\<lparr>xr_lease_expires := v\<rparr>) rows)"
proof -
  obtain r where r: "r \<in> set rows" "xr_run_id r = k" "xr_owner r = p" "xr_epoch r = e" "u \<le> xr_lease_expires r"
    using assms(1) by (auto simp: xl.held_until_def)
  show ?thesis
  proof (cases "P r")
    case True
    with r assms(2) show ?thesis unfolding xl.held_until_def by (intro bexI [OF _ update_where_hit [where P = P, OF r(1) True]]) simp
  next
    case False
    with r show ?thesis unfolding xl.held_until_def by (intro bexI [OF _ update_where_miss [where P = P, OF r(1) False]]) simp
  qed
qed

lemma apply_held:
  assumes "xl.issued (exec_state t)" and "live_until u l t" and "harmless l c"
    and "now \<le> u" and "u \<le> now + ttl_ms ttl"
  shows "live_until u l (guard_apply ttl (now, c) t) \<and> xl.issued (exec_state (guard_apply ttl (now, c) t))"
proof (cases c)
  case (CallRegister rid q)
  have h: "xl.held_until u (xl_run_id l) (xl_owner l) (xl_epoch l) (fst (exec_state t))" using assms(2) by (simp add: exec_state_def)
  have "xl.issued (exec_state (snd (register_stmt rid q ttl now t)))"
    using xl.claim_issued(1) [of "t_executions t" "seq_epoch t"] register_state [of rid q ttl now t] assms(1)
    by (metis exec_state_def)
  with xl.claim_held(1) [OF assms(1) h register_state assms(4,5)] CallRegister show ?thesis
    by (simp add: exec_state_def)
next
  case (CallEnd m)
  then show ?thesis using assms(1-3)
    by (auto simp: end_stmt_def harmless_def xl.held_until_def xl.issued_def exec_state_def intro: key_unique_filter)
next
  case (CallDelete rid)
  then show ?thesis using assms(1-3)
    by (auto simp: delete_stmt_def harmless_def xl.held_until_def xl.issued_def exec_state_def intro: key_unique_filter)
qed (use assms renew_held in \<open>auto simp: owns_stmt_def heartbeat_stmt_def renew_stmt_def xl.issued_def exec_state_def set_update_where\<close>)

lemma run_held:
  assumes "xl.issued (exec_state t)" and "live_until u l t"
    and "list_all (\<lambda>(now, c). harmless l c \<and> now \<le> u \<and> u \<le> now + ttl_ms ttl) cs"
  shows "live_until u l (guard_run ttl cs t) \<and> xl.issued (exec_state (guard_run ttl cs t))"
  using assms
proof (induction cs arbitrary: t)
  case (Cons c cs)
  obtain now k where c: "c = (now, k)" by fastforce
  then show ?case using Cons.IH [of "guard_apply ttl c t"] apply_held [OF Cons.prems(1,2)] Cons.prems(3) by simp
qed simp

lemma owns_renews:
  assumes "owns_stmt l ttl now t = (n, t1)" and "n \<noteq> 0"
  shows "live_until (now + ttl_ms ttl) l t1"
proof -
  let ?P = "\<lambda>x. (xr_run_id x = xl_run_id l \<and> xr_owner x = xl_owner l \<and> xr_epoch x = xl_epoch l) \<and> now \<le> xr_lease_expires x"
  have t1: "t_executions t1 = update_where ?P (\<lambda>x. x\<lparr>xr_lease_expires := now + ttl_ms ttl\<rparr>) (t_executions t)"
    and "count_where ?P (t_executions t) \<noteq> 0"
    using assms by (auto simp: owns_stmt_def renew_stmt_def)
  then obtain x where x: "x \<in> set (t_executions t)" "?P x" by auto
  then show ?thesis unfolding t1 xl.held_until_def by (intro bexI [OF _ update_where_hit [where P = ?P, OF x]]) simp
qed

lemma live_owns:
  assumes "live_until u l t" and "now \<le> u"
  shows "fst (owns_stmt l ttl now t) \<noteq> 0"
  using assms by (auto simp: owns_stmt_def renew_stmt_def xl.held_until_def)

lemma live_not_expired:
  assumes "xl.issued (exec_state t)" and "live_until u l t" and "now \<le> u"
  shows "xl_run_id l \<notin> set (expired_ids now t)"
proof
  assume "xl_run_id l \<in> set (expired_ids now t)"
  then obtain x where x: "x \<in> set (t_executions t)" "xr_run_id x = xl_run_id l" "xr_lease_expires x < now"
    by (auto simp: expired_ids_def)
  obtain r where r: "r \<in> set (t_executions t)" "xr_run_id r = xl_run_id l" "u \<le> xr_lease_expires r"
    using assms(2) by (auto simp: xl.held_until_def)
  have "key_unique xr_run_id (t_executions t)" using assms(1) by (simp add: xl.issued_def exec_state_def)
  from key_unique_eq [OF this x(1) r(1)] x r assms(3) show False by auto
qed

text \<open>
  An ownership check that succeeds holds for a whole time-to-live: whatever any nodes call in that
  time, other than releasing this very lease or deleting its run's row, another check with the lease
  succeeds, no other node's registration of the run does, and no scan lists the run as expired.
\<close>

theorem owns_holds_the_lease:
  assumes "exec_ok t" and "owns_stmt l ttl now t = (n, t1)" and "n \<noteq> 0"
    and "list_all (\<lambda>(at, c). harmless l c \<and> now \<le> at \<and> at \<le> now + ttl_ms ttl) cs"
    and "now \<le> at" and "at \<le> now + ttl_ms ttl"
  shows "fst (owns_stmt l ttl at (guard_run ttl cs t1)) \<noteq> 0 \<and>
    (\<forall>p. p \<noteq> xl_owner l \<longrightarrow> fst (register_stmt (xl_run_id l) p ttl at (guard_run ttl cs t1)) = None) \<and>
    xl_run_id l \<notin> set (expired_ids at (guard_run ttl cs t1))"
proof -
  let ?u = "now + ttl_ms ttl" and ?t = "guard_run ttl cs t1"
  have live1: "live_until ?u l t1" using owns_renews [OF assms(2,3)] .
  have "t1 = guard_apply ttl (now, CallOwns l) t" using assms(2) by simp
  moreover have iss: "xl.issued (exec_state t)" using assms(1) by (simp add: exec_ok_issued)
  ultimately have iss1: "xl.issued (exec_state t1)"
    by (auto simp: owns_stmt_def renew_stmt_def xl.issued_def exec_state_def set_update_where)
  have "list_all (\<lambda>(now, c). harmless l c \<and> now \<le> ?u \<and> ?u \<le> now + ttl_ms ttl) cs"
    using assms(4) by (auto simp: list_all_iff)
  from run_held [OF iss1 live1 this] have live: "live_until ?u l ?t" and iss2: "xl.issued (exec_state ?t)" by auto
  have h: "xl.held_until ?u (xl_run_id l) (xl_owner l) (xl_epoch l) (fst (exec_state ?t))" using live by (simp add: exec_state_def)
  have "fst (register_stmt (xl_run_id l) p ttl at ?t) = None" if "p \<noteq> xl_owner l" for p
    using xl.claim_held(2) [OF iss2 h register_state assms(6) _ refl that] assms(5) by simp
  then show ?thesis using live_owns [OF live assms(6)] live_not_expired [OF iss2 live assms(6)] by blast
qed

section \<open>Witnesses\<close>

definition demo_lease :: exec_lease where
  "demo_lease = \<lparr>xl_run_id = ''r1'', xl_owner = ''node-a'', xl_epoch = 1, xl_expiry = 30 * second\<rparr>"

definition demo_exec :: tables where
  "demo_exec = snd (register_stmt ''r1'' ''node-a'' (30 * second) 0 no_rows)"

lemma demo_exec_rows: "t_executions demo_exec = [\<lparr>xr_run_id = ''r1'', xr_owner = ''node-a'', xr_epoch = 1,
    xr_registered_at = 0, xr_lease_expires = 30 * second\<rparr>]" "seq_epoch demo_exec = 1"
  by (simp_all add: demo_exec_def register_stmt_def register_rows_def no_rows_def Let_def ttl_ms_def)

lemma demo_exec_ok: "exec_ok demo_exec"
  by (simp add: exec_ok_def demo_exec_rows)

text \<open>The takeover deletes the row; the run is registered again by another node and even by the first one.\<close>

theorem fenced_out_for_good_witness:
  "isl (fst (Owns (NewExecutionGuard True) demo_lease (30 * second)
     (still_world (guard_run (30 * second) [(40 * second, CallRegister ''r1'' ''node-b''), (80 * second, CallRegister ''r1'' ''node-a'')]
        (delete_stmt ''r1'' demo_exec)))))"
proof -
  let ?cs = "[(40 * second, CallRegister ''r1'' ''node-b''), (80 * second, CallRegister ''r1'' ''node-a'')]"
  let ?w = "still_world (guard_run (30 * second) ?cs (delete_stmt ''r1'' demo_exec))"
  have "xl_epoch demo_lease \<le> seq_epoch demo_exec" by (simp add: demo_lease_def demo_exec_rows)
  moreover have "w_intf ?w (w_tick ?w) (w_tbl ?w) = guard_run (30 * second) ?cs (delete_stmt ''r1'' demo_exec)"
    by (simp only: still_world_simps) (simp add: still_world_def)
  ultimately show ?thesis
    using fenced_out_for_good [OF demo_exec_ok, of demo_lease "delete_stmt ''r1'' demo_exec" ?w "30 * second" ?cs]
    by (simp add: demo_lease_def)
qed

theorem owns_holds_the_lease_witness:
  "''r1'' \<notin> set (expired_ids (39 * second) (guard_run (30 * second) [(20 * second, CallRegister ''r1'' ''node-b'')]
     (snd (owns_stmt demo_lease (30 * second) (10 * second) demo_exec))))"
proof -
  have own: "owns_stmt demo_lease (30 * second) (10 * second) demo_exec =
      (1, snd (owns_stmt demo_lease (30 * second) (10 * second) demo_exec))"
    by (simp add: owns_stmt_def renew_stmt_def demo_exec_rows demo_lease_def count_where_def)
  show ?thesis
    using owns_holds_the_lease [OF demo_exec_ok own, of "[(20 * second, CallRegister ''r1'' ''node-b'')]" "39 * second"]
    by (simp add: harmless_def ttl_ms_def demo_lease_def del: guard_run.simps)
qed

end
