(* ===== verification/Cluster_Locks.thy ===== *)
theory Cluster_Locks
  imports Exec_Guard
begin

text \<open>
  \<^verbatim>\<open>internal/cluster/distributed_lock.go\<close>: lease locks shared by the nodes of a cluster, in the table
  \<^verbatim>\<open>cluster_locks\<close>, with the list of the locks this process holds. The acquisition statement is the
  second instance of \<open>lease_table\<close>.
\<close>

record distributed_lock =
  dk_key :: string
  dk_owner :: string
  dk_ttl :: duration
  dk_fence_token :: int
  dk_acquired_at :: time
  dk_lease_expiry :: time

text \<open>A Go map from keys to locks, as the list of its values in some order of iteration.\<close>

record lock_table_manager =
  dm_db :: bool
  dm_held :: "distributed_lock list"

definition NewDistributedLockManager :: "bool \<Rightarrow> lock_table_manager" where
  "NewDistributedLockManager db = \<lparr>dm_db = db, dm_held = []\<rparr>"

type_synonym 'a dlock_op = "lock_table_manager \<Rightarrow> world \<Rightarrow> (cluster_error + 'a) \<times> lock_table_manager \<times> world"

definition held_put :: "distributed_lock \<Rightarrow> lock_table_manager \<Rightarrow> lock_table_manager" where
  "held_put l m = m\<lparr>dm_held := l # filter (\<lambda>x. dk_key x \<noteq> dk_key l) (dm_held m)\<rparr>"

definition held_drop :: "string \<Rightarrow> string \<Rightarrow> lock_table_manager \<Rightarrow> lock_table_manager" where
  "held_drop k p m = m\<lparr>dm_held := filter (\<lambda>x. \<not> (dk_key x = k \<and> dk_owner x = p)) (dm_held m)\<rparr>"

section \<open>The statements\<close>

definition acquire_rows ::
    "string \<Rightarrow> string \<Rightarrow> duration \<Rightarrow> time \<Rightarrow> cluster_lock_row list \<times> int \<Rightarrow> cluster_lock_row option \<times> cluster_lock_row list \<times> int" where
  "acquire_rows k p ttl now s =
    (case s of (rows, n) \<Rightarrow>
      case find (\<lambda>x. cl_key x = k) rows of
        None \<Rightarrow>
          let r = \<lparr>cl_key = k, cl_owner = p, cl_fence_token = n + 1, cl_acquired_at = now,
                   cl_lease_expires = now + ttl_ms ttl\<rparr>
          in (Some r, rows @ [r], n + 1)
      | Some x \<Rightarrow>
          if cl_owner x = p \<or> cl_lease_expires x < now then
            let r = \<lparr>cl_key = k, cl_owner = p,
                     cl_fence_token = (if cl_owner x = p then cl_fence_token x else n + 2),
                     cl_acquired_at = (if cl_owner x = p then cl_acquired_at x else now),
                     cl_lease_expires = now + ttl_ms ttl\<rparr>
            in (Some r, update_where (\<lambda>y. cl_key y = k) (\<lambda>_. r) rows,
                if cl_owner x = p then n + 1 else n + 2)
          else (None, rows, n + 1))"

definition acquire_stmt :: "string \<Rightarrow> string \<Rightarrow> duration \<Rightarrow> time \<Rightarrow> tables \<Rightarrow> cluster_lock_row option \<times> tables" where
  "acquire_stmt k p ttl now t =
    (case acquire_rows k p ttl now (t_cluster_locks t, seq_fence t) of
       (ro, rows, n) \<Rightarrow> (ro, t\<lparr>t_cluster_locks := rows, seq_fence := n\<rparr>))"

section \<open>The methods\<close>

definition DAcquire :: "string \<Rightarrow> string \<Rightarrow> duration \<Rightarrow> distributed_lock dlock_op" where
  "DAcquire k p ttl m w =
    (if k = '''' then (Inl ClusterBadArgument, m, w)
     else if p = '''' then (Inl ClusterBadArgument, m, w)
     else if ttl \<le> 0 then (Inl ClusterBadArgument, m, w)
     else if \<not> dm_db m then (Inl ClusterNilDB, m, w)
     else case stmt_at (\<lambda>now t. case acquire_stmt k p ttl now t of (ro, t') \<Rightarrow> (Inr ro, t')) w of
        (Inl e, w1) \<Rightarrow> (Inl (ClusterStoreError e), m, w1)
      | (Inr None, w1) \<Rightarrow> (Inl ErrLockBusy, m, w1)
      | (Inr (Some x), w1) \<Rightarrow>
         let l = \<lparr>dk_key = k, dk_owner = p, dk_ttl = ttl, dk_fence_token = cl_fence_token x,
                  dk_acquired_at = cl_acquired_at x, dk_lease_expiry = cl_lease_expires x\<rparr>
         in (Inr l, held_put l m, w1))"

definition DRelease :: "string \<Rightarrow> string \<Rightarrow> unit dlock_op" where
  "DRelease k p m w =
    (if k = '''' then (Inl ClusterBadArgument, m, w)
     else if \<not> dm_db m then (Inl ClusterNilDB, m, w)
     else let P = (\<lambda>x. cl_key x = k \<and> cl_owner x = p) in
      case stmt (\<lambda>t. (Inr (count_where P (t_cluster_locks t)),
             t\<lparr>t_cluster_locks := filter (\<lambda>x. \<not> P x) (t_cluster_locks t)\<rparr>)) w of
        (Inl e, w1) \<Rightarrow> (Inl (ClusterStoreError e), m, w1)
      | (Inr n, w1) \<Rightarrow> (if n = 0 then Inl ErrLockNotHeld else Inr (), held_drop k p m, w1))"

definition DRefresh :: "string \<Rightarrow> string \<Rightarrow> duration \<Rightarrow> unit dlock_op" where
  "DRefresh k p ttl m w =
    (if ttl \<le> 0 then (Inl ClusterBadArgument, m, w)
     else if \<not> dm_db m then (Inl ClusterNilDB, m, w)
     else case stmt_at (\<lambda>now t. let P = (\<lambda>x. cl_key x = k \<and> cl_owner x = p \<and> now \<le> cl_lease_expires x) in
             (Inr (count_where P (t_cluster_locks t)),
              t\<lparr>t_cluster_locks := update_where P (\<lambda>x. x\<lparr>cl_lease_expires := now + ttl_ms ttl\<rparr>) (t_cluster_locks t)\<rparr>)) w of
        (Inl e, w1) \<Rightarrow> (Inl (ClusterStoreError e), m, w1)
      | (Inr n, w1) \<Rightarrow>
         if n = 0 then (Inl ErrLockNotHeld, held_drop k p m, w1)
         else if \<exists>x\<in>set (dm_held m). dk_key x = k \<and> dk_owner x = p then
           (case time_now w1 of (now, w2) \<Rightarrow>
             (Inr (), m\<lparr>dm_held := update_where (\<lambda>x. dk_key x = k \<and> dk_owner x = p)
                (\<lambda>x. x\<lparr>dk_ttl := ttl, dk_lease_expiry := now + ttl\<rparr>) (dm_held m)\<rparr>, w2))
         else (Inr (), m, w1))"

definition ReleaseStale :: "(string \<times> string) list dlock_op" where
  "ReleaseStale m w =
    (if \<not> dm_db m then (Inl ClusterNilDB, m, w)
     else case stmt_at (\<lambda>now t. (Inr (map (\<lambda>x. (cl_key x, cl_owner x)) (filter (\<lambda>x. cl_lease_expires x < now) (t_cluster_locks t))),
              t\<lparr>t_cluster_locks := filter (\<lambda>x. \<not> cl_lease_expires x < now) (t_cluster_locks t)\<rparr>)) w of
        (Inl e, w1) \<Rightarrow> (Inl (ClusterStoreError e), m, w1)
      | (Inr rel, w1) \<Rightarrow> (Inr rel, fold (\<lambda>(k, p) m. held_drop k p m) rel m, w1))"

definition IsHeld :: "lock_table_manager \<Rightarrow> string \<Rightarrow> bool" where
  "IsHeld m k \<longleftrightarrow> (\<exists>x\<in>set (dm_held m). dk_key x = k)"

definition IsHeldBy :: "lock_table_manager \<Rightarrow> string \<Rightarrow> string \<Rightarrow> bool" where
  "IsHeldBy m k p \<longleftrightarrow> (\<exists>x\<in>set (dm_held m). dk_key x = k \<and> dk_owner x = p)"

definition ListHeld :: "lock_table_manager \<Rightarrow> distributed_lock list" where
  "ListHeld m = dm_held m"

fun release_refs :: "(string \<times> string) list \<Rightarrow> cluster_error list \<Rightarrow> lock_table_manager \<Rightarrow> world \<Rightarrow>
    cluster_error list \<times> lock_table_manager \<times> world" where
  "release_refs [] errs m w = (errs, m, w)"
| "release_refs ((k, p) # rs) errs m w = (case DRelease k p m w of
     (Inl e, m1, w1) \<Rightarrow> release_refs rs (errs @ [e]) m1 w1
   | (Inr _, m1, w1) \<Rightarrow> release_refs rs errs m1 w1)"

definition ReleaseAll :: "lock_table_manager \<Rightarrow> world \<Rightarrow> cluster_error list \<times> lock_table_manager \<times> world" where
  "ReleaseAll m w = release_refs (map (\<lambda>x. (dk_key x, dk_owner x)) (dm_held m)) [] m w"

section \<open>The lease table\<close>

interpretation cl: lease_table cl_key cl_owner cl_fence_token cl_lease_expires acquire_rows
proof
  fix k :: string and rows :: "cluster_lock_row list" and p ttl now and n :: int
  assume "k \<notin> cl_key ` set rows"
  then show "\<exists>r. acquire_rows k p ttl now (rows, n) = (Some r, rows @ [r], n + 1) \<and> cl_key r = k \<and>
      cl_owner r = p \<and> cl_fence_token r = n + 1 \<and> cl_lease_expires r = now + ttl_ms ttl"
    by (simp add: acquire_rows_def find_other Let_def)
next
  fix rows :: "cluster_lock_row list" and x :: cluster_lock_row and k p ttl now and n :: int
  assume x: "key_unique cl_key rows" "x \<in> set rows" "cl_key x = k" and p: "cl_owner x = p"
  have "find (\<lambda>y. cl_key y = k) rows = Some x" using find_key_unique [OF x(1,2)] x(3) by simp
  with p show "\<exists>r n'. acquire_rows k p ttl now (rows, n) = (Some r, update_where (\<lambda>y. cl_key y = k) (\<lambda>_. r) rows, n') \<and>
      n \<le> n' \<and> cl_key r = k \<and> cl_owner r = p \<and> cl_fence_token r = cl_fence_token x \<and> cl_lease_expires r = now + ttl_ms ttl"
    by (simp add: acquire_rows_def Let_def)
next
  fix rows :: "cluster_lock_row list" and x :: cluster_lock_row and k p ttl now and n :: int
  assume x: "key_unique cl_key rows" "x \<in> set rows" "cl_key x = k" and p: "cl_owner x \<noteq> p" "cl_lease_expires x < now"
  have "find (\<lambda>y. cl_key y = k) rows = Some x" using find_key_unique [OF x(1,2)] x(3) by simp
  with p show "\<exists>r n'. acquire_rows k p ttl now (rows, n) = (Some r, update_where (\<lambda>y. cl_key y = k) (\<lambda>_. r) rows, n') \<and>
      n < cl_fence_token r \<and> cl_fence_token r \<le> n' \<and> cl_key r = k \<and> cl_owner r = p \<and> cl_lease_expires r = now + ttl_ms ttl"
    by (simp add: acquire_rows_def Let_def)
next
  fix rows :: "cluster_lock_row list" and x :: cluster_lock_row and k p ttl now and n :: int
  assume x: "key_unique cl_key rows" "x \<in> set rows" "cl_key x = k" and p: "cl_owner x \<noteq> p" "\<not> cl_lease_expires x < now"
  have "find (\<lambda>y. cl_key y = k) rows = Some x" using find_key_unique [OF x(1,2)] x(3) by simp
  with p show "\<exists>n'. acquire_rows k p ttl now (rows, n) = (None, rows, n') \<and> n \<le> n'"
    by (simp add: acquire_rows_def Let_def)
qed

section \<open>Properties\<close>

definition cluster_locks_ok :: "tables \<Rightarrow> bool" where
  "cluster_locks_ok t \<longleftrightarrow> key_unique cl_key (t_cluster_locks t) \<and> (\<forall>x\<in>set (t_cluster_locks t). cl_fence_token x \<le> seq_fence t)"


section \<open>Witness\<close>

definition demo_locks :: tables where
  "demo_locks = no_rows\<lparr>t_cluster_locks := [\<lparr>cl_key = ''takeover:r1'', cl_owner = ''node-a'', cl_fence_token = 7,
     cl_acquired_at = - (40 * second), cl_lease_expires = - (10 * second)\<rparr>], seq_fence := 7\<rparr>"


end
