(* ===== verification/Capability.thy ===== *)
theory Capability
  imports Go_Text
begin

text \<open>
  \<^verbatim>\<open>internal/capability/capability.go\<close>: what a node declares it can do, as the JSON array in the
  column \<^verbatim>\<open>capabilities\<close>. \<^verbatim>\<open>encoding/json\<close> at \<^verbatim>\<open>[]string\<close> is a parameter; the law \<open>names_codec_ok\<close> says
  that an array is written in brackets and read back, for names that are valid UTF-8.
\<close>

record names_codec =
  names_marshal :: "string list \<Rightarrow> string option"
  names_unmarshal :: "string \<Rightarrow> string list option"

definition EmptyCapabilities :: string where
  "EmptyCapabilities = ''[]''"

datatype capability_error = EmptyCapabilityName | NotANameArray | NamesNotEncodable

fun normalize_loop :: "string list \<Rightarrow> string list \<Rightarrow> capability_error + string list" where
  "normalize_loop [] out = Inr out"
| "normalize_loop (raw # rest) out = (let c = trim_space raw in
     if c = '''' then Inl EmptyCapabilityName
     else if c \<in> set out then normalize_loop rest out
     else normalize_loop rest (out @ [c]))"

definition Normalize :: "names_codec \<Rightarrow> string list \<Rightarrow> capability_error + string" where
  "Normalize jn ins = (case normalize_loop ins [] of
     Inl e \<Rightarrow> Inl e
   | Inr out \<Rightarrow> (case names_marshal jn (sort out) of None \<Rightarrow> Inl NamesNotEncodable | Some s \<Rightarrow> Inr s))"

definition Names :: "names_codec \<Rightarrow> string \<Rightarrow> capability_error + string list" where
  "Names jn stored = (let trimmed = trim_space stored in
     if trimmed = '''' then Inr []
     else case names_unmarshal jn trimmed of
       None \<Rightarrow> Inl NotANameArray
     | Some declared \<Rightarrow> Inr (filter (\<lambda>n. n \<noteq> '''') declared))"

definition Has :: "names_codec \<Rightarrow> string \<Rightarrow> string \<Rightarrow> bool" where
  "Has jn stored want = (if trim_space want = '''' then False
     else case Names jn stored of Inl _ \<Rightarrow> False | Inr declared \<Rightarrow> want \<in> set declared)"

text \<open>\<^verbatim>\<open>storedCapabilities\<close> of \<^verbatim>\<open>internal/cluster/pg_registry.go\<close>.\<close>

definition storedCapabilities :: "names_codec \<Rightarrow> string \<Rightarrow> capability_error + string" where
  "storedCapabilities jn caps = (if trim_space caps = '''' then Inr EmptyCapabilities
     else case Names jn caps of Inl e \<Rightarrow> Inl e | Inr names \<Rightarrow> Normalize jn names)"

section \<open>What is stored is the set of names\<close>

definition names_codec_ok :: "names_codec \<Rightarrow> bool" where
  "names_codec_ok jn \<longleftrightarrow> (\<forall>xs. list_all utf8_valid xs \<longrightarrow>
     (\<exists>m. names_marshal jn xs = Some (''['' @ m @ '']'') \<and> names_unmarshal jn (''['' @ m @ '']'') = Some xs))"

lemma normalize_loop_Inr:
  "normalize_loop ins out = Inr r \<Longrightarrow> distinct out \<Longrightarrow>
     distinct r \<and> set r = set out \<union> trim_space ` set ins \<and> '''' \<notin> trim_space ` set ins"
proof (induction ins arbitrary: out)
  case (Cons raw rest)
  let ?c = "trim_space raw"
  have c: "?c \<noteq> ''''" using Cons.prems by (auto simp: Let_def split: if_splits)
  show ?case
  proof (cases "?c \<in> set out")
    case True
    then show ?thesis using Cons.IH [of out] Cons.prems c by (auto simp: Let_def)
  next
    case False
    then show ?thesis using Cons.IH [of "out @ [?c]"] Cons.prems c by (auto simp: Let_def)
  qed
qed simp

lemma normalize_loop_total:
  "(\<exists>r. normalize_loop ins out = Inr r) \<longleftrightarrow> '''' \<notin> trim_space ` set ins"
  by (induction ins arbitrary: out) (auto simp: Let_def image_iff split: if_splits)

lemma sort_of_set:
  assumes "distinct xs"
  shows "sort xs = sorted_list_of_set (set xs)"
  by (metis assms distinct_remdups_id sorted_list_of_set_sort_remdups)

lemma Normalize_Inr:
  assumes "names_codec_ok jn" and "list_all utf8_valid (map trim_space ins)" and "'''' \<notin> trim_space ` set ins"
  shows "\<exists>s. Normalize jn ins = Inr s \<and> Names jn s = Inr (sorted_list_of_set (trim_space ` set ins)) \<and> trim_space s = s \<and> s \<noteq> ''''"
proof -
  let ?L = "sorted_list_of_set (trim_space ` set ins)"
  obtain r where r: "normalize_loop ins [] = Inr r" using normalize_loop_total assms(3) by blast
  from normalize_loop_Inr [OF r] have s: "sort r = ?L" by (simp add: sort_of_set)
  have "list_all utf8_valid ?L" using assms(2) by (simp add: list_all_iff)
  then obtain m where m: "names_marshal jn ?L = Some (''['' @ m @ '']'')" "names_unmarshal jn (''['' @ m @ '']'') = Some ?L"
    using assms(1) unfolding names_codec_ok_def by blast
  have t: "trim_space (''['' @ m @ '']'') = ''['' @ m @ '']''"
    using trim_space_bracketed [of "CHR ''[''" "CHR '']''" m] by (simp add: byte_in_def)
  have "filter (\<lambda>n. n \<noteq> '''') ?L = ?L" using assms(3) by (auto simp: filter_id_conv) (metis imageI)
  then have "Names jn (''['' @ m @ '']'') = Inr ?L" using m(2) t by (simp add: Names_def)
  moreover have "Normalize jn ins = Inr (''['' @ m @ '']'')" using r s m(1) by (simp add: Normalize_def)
  ultimately show ?thesis using t by fastforce
qed

text \<open>
  A declaration is stored as a set: two lists of names with the same trimmed names are stored as
  the same text, in which exactly these names are found again; a list with a blank name is refused.
\<close>

theorem capability_round_trip:
  assumes "names_codec_ok jn" and "list_all utf8_valid (map trim_space ins)"
  shows "if \<exists>x\<in>set ins. trim_space x = '''' then Normalize jn ins = Inl EmptyCapabilityName
     else \<exists>s. Normalize jn ins = Inr s \<and> (\<forall>want. Has jn s want \<longleftrightarrow> trim_space want \<noteq> '''' \<and> want \<in> trim_space ` set ins) \<and>
       (\<forall>ins'. trim_space ` set ins' = trim_space ` set ins \<longrightarrow> Normalize jn ins' = Normalize jn ins)"
proof (cases "'''' \<in> trim_space ` set ins")
  case True
  then have "\<nexists>r. normalize_loop ins [] = Inr r" using normalize_loop_total by blast
  then have "normalize_loop ins [] = Inl EmptyCapabilityName"
  proof -
    have "normalize_loop ins out = Inl e \<Longrightarrow> e = EmptyCapabilityName" for out e
      by (induction ins arbitrary: out) (auto simp: Let_def split: if_splits)
    then show ?thesis using \<open>\<nexists>r. normalize_loop ins [] = Inr r\<close> by (metis sumE)
  qed
  then show ?thesis using True by (force simp: Normalize_def)
next
  case False
  obtain s where s: "Normalize jn ins = Inr s" "Names jn s = Inr (sorted_list_of_set (trim_space ` set ins))"
    using Normalize_Inr [OF assms False] by blast
  have "Normalize jn ins' = Normalize jn ins" if eq: "trim_space ` set ins' = trim_space ` set ins" for ins'
  proof -
    obtain r r' where r: "normalize_loop ins [] = Inr r" "normalize_loop ins' [] = Inr r'"
      using normalize_loop_total False eq by metis
    have "sort r = sort r'"
      using normalize_loop_Inr [OF r(1)] normalize_loop_Inr [OF r(2)] eq by (simp add: sort_of_set)
    then show ?thesis using r by (simp add: Normalize_def)
  qed
  moreover have "\<not> (\<exists>x\<in>set ins. trim_space x = '''')" using False by (metis imageI)
  ultimately show ?thesis using s by (auto simp: Has_def)
qed

definition plain_names :: names_codec where
  "plain_names = \<lparr>names_marshal = (\<lambda>xs. Some (''['' @ frame_text xs @ '']'')),
     names_unmarshal = (\<lambda>s. Some (unframe_text [] (butlast (List.tl s))))\<rparr>"

lemma plain_names_ok: "names_codec_ok plain_names"
  by (simp add: names_codec_ok_def plain_names_def unframe_frame butlast_append del: frame_text.simps unframe_text.simps)

lemma trim_demo [simp]: "trim_space ''shell'' = ''shell''" "trim_space ''pkg'' = ''pkg''" "trim_space ''service'' = ''service''"
  using trim_space_bracketed [of "CHR ''s''" "CHR ''l''" "''hel''"] trim_space_bracketed [of "CHR ''p''" "CHR ''g''" "''k''"]
    trim_space_bracketed [of "CHR ''s''" "CHR ''e''" "''ervic''"]
  by (simp_all add: byte_in_def)

theorem capability_round_trip_witness:
  "\<exists>s. Normalize plain_names [''shell'', ''pkg''] = Inr s \<and> Has plain_names s ''pkg'' \<and> \<not> Has plain_names s ''service'' \<and>
     Normalize plain_names [''pkg'', ''shell'', ''pkg''] = Inr s"
proof -
  have u: "list_all utf8_valid (map trim_space [''shell'', ''pkg''])" by (simp add: byte_in_def)
  have ne: "\<not> (\<exists>x\<in>set [''shell'', ''pkg'']. trim_space x = '''')" by simp
  obtain s where s: "Normalize plain_names [''shell'', ''pkg''] = Inr s"
      "\<And>want. Has plain_names s want \<longleftrightarrow> trim_space want \<noteq> '''' \<and> want \<in> trim_space ` set [''shell'', ''pkg'']"
      "\<And>ins'. trim_space ` set ins' = trim_space ` set [''shell'', ''pkg''] \<Longrightarrow>
         Normalize plain_names ins' = Normalize plain_names [''shell'', ''pkg'']"
    using capability_round_trip [OF plain_names_ok u] unfolding if_not_P [OF ne] by blast
  have "trim_space ` set [''pkg'', ''shell'', ''pkg''] = trim_space ` set [''shell'', ''pkg'']" by auto
  from s(3) [OF this] have "Normalize plain_names [''pkg'', ''shell'', ''pkg''] = Inr s" using s(1) by simp
  moreover have "Has plain_names s ''pkg''" "\<not> Has plain_names s ''service''" using s(2) by simp_all
  ultimately show ?thesis using s(1) by blast
qed

end
