(* ===== verification/Cluster_Nodes.thy ===== *)
theory Cluster_Nodes
  imports Cluster_Locks Capability
begin

text \<open>
  \<^verbatim>\<open>internal/cluster/node.go\<close>, \<^verbatim>\<open>pg_registry.go\<close>, \<^verbatim>\<open>vocabulary.go\<close> and \<^verbatim>\<open>cluster.go\<close>: the members of a
  cluster as one process sees them, the shared table of members, the election of a leader and the
  manager that keeps the two in step. A Go map from ids to nodes is the list of its values in some
  order of iteration, with unique ids; what the properties say does not depend on that order.
\<close>

section \<open>Vocabulary\<close>

definition NodeActive :: string where "NodeActive = ''active''"
definition NodeLeaving :: string where "NodeLeaving = ''leaving''"
definition NodeOffline :: string where "NodeOffline = ''offline''"
definition RoleMaster :: string where "RoleMaster = ''master''"
definition RoleWorker :: string where "RoleWorker = ''worker''"

lemmas node_words = NodeActive_def NodeLeaving_def NodeOffline_def RoleMaster_def RoleWorker_def

definition NodeStatusNames :: "string list" where
  "NodeStatusNames = [NodeActive, NodeLeaving, NodeOffline]"

definition NodeRoleNames :: "string list" where
  "NodeRoleNames = [RoleMaster, RoleWorker]"

section \<open>The registry of one process\<close>

record node_registry =
  nr_nodes :: "node list"
  nr_leader :: string

definition NewNodeRegistry :: node_registry where
  "NewNodeRegistry = \<lparr>nr_nodes = [], nr_leader = ''''\<rparr>"

definition put_node :: "node \<Rightarrow> node list \<Rightarrow> node list" where
  "put_node n ns = (if nd_id n \<in> nd_id ` set ns then update_where (\<lambda>x. nd_id x = nd_id n) (\<lambda>_. n) ns else ns @ [n])"

definition NodeRegister :: "node \<Rightarrow> node_registry \<Rightarrow> world \<Rightarrow> (cluster_error + unit) \<times> node_registry \<times> world" where
  "NodeRegister n0 r w =
    (if nd_id n0 = '''' then (Inl ClusterBadArgument, r, w)
     else if nd_address n0 = '''' then (Inl ClusterBadArgument, r, w)
     else
      let n1 = (if nd_status n0 = '''' then n0\<lparr>nd_status := NodeActive\<rparr> else n0);
          n2 = (if nd_role n1 = '''' then n1\<lparr>nd_role := RoleWorker\<rparr> else n1);
          (n3, w1) = (if nd_joined_at n2 = zero_time
                      then (case time_now w of (now, w1) \<Rightarrow> (n2\<lparr>nd_joined_at := now\<rparr>, w1)) else (n2, w));
          n = (if nd_last_heartbeat n3 = zero_time then n3\<lparr>nd_last_heartbeat := nd_joined_at n3\<rparr> else n3)
      in (Inr (), r\<lparr>nr_nodes := put_node n (nr_nodes r),
            nr_leader := (if nr_leader r = '''' \<and> nd_role n = RoleMaster \<and> nd_status n = NodeActive then nd_id n else nr_leader r)\<rparr>, w1))"

text \<open>One pass over the map keeping the smallest id.\<close>

fun best_node :: "(node \<Rightarrow> bool) \<Rightarrow> node option \<Rightarrow> node list \<Rightarrow> node option" where
  "best_node P best [] = best"
| "best_node P best (n # ns) = best_node P
     (if \<not> P n then best else case best of None \<Rightarrow> Some n | Some b \<Rightarrow> if nd_id n < nd_id b then Some n else best) ns"

definition eligible :: "string \<Rightarrow> node \<Rightarrow> bool" where
  "eligible role n \<longleftrightarrow> nd_role n = role \<and> nd_status n = NodeActive"

definition electLeaderLocked :: "node_registry \<Rightarrow> bool \<times> node_registry" where
  "electLeaderLocked r = (case best_node (eligible RoleMaster) None (nr_nodes r) of
     Some b \<Rightarrow> (True, r\<lparr>nr_leader := nd_id b\<rparr>)
   | None \<Rightarrow> (case best_node (eligible RoleWorker) None (nr_nodes r) of
       Some b \<Rightarrow> (True, r\<lparr>nr_leader := nd_id b\<rparr>)
     | None \<Rightarrow> (False, r)))"

definition NodeDeregister :: "string \<Rightarrow> node_registry \<Rightarrow> (cluster_error + unit) \<times> node_registry" where
  "NodeDeregister i r =
    (if i = '''' then (Inl ClusterBadArgument, r)
     else if i \<notin> nd_id ` set (nr_nodes r) then (Inl (NodeNotFound i), r)
     else let r1 = r\<lparr>nr_nodes := filter (\<lambda>n. nd_id n \<noteq> i) (nr_nodes r)\<rparr> in
       (Inr (), if nr_leader r1 = i then snd (electLeaderLocked (r1\<lparr>nr_leader := ''''\<rparr>)) else r1))"

definition NodeHeartbeat :: "string \<Rightarrow> time \<Rightarrow> node_registry \<Rightarrow> (cluster_error + unit) \<times> node_registry" where
  "NodeHeartbeat i now r =
    (if i = '''' then (Inl ClusterBadArgument, r)
     else if i \<notin> nd_id ` set (nr_nodes r) then (Inl (NodeNotFound i), r)
     else (Inr (), r\<lparr>nr_nodes := update_where (\<lambda>n. nd_id n = i)
        (\<lambda>n. n\<lparr>nd_last_heartbeat := now, nd_status := (if nd_status n = NodeOffline then NodeActive else nd_status n)\<rparr>) (nr_nodes r)\<rparr>))"

definition NodeGet :: "string \<Rightarrow> node_registry \<Rightarrow> node option" where
  "NodeGet i r = find (\<lambda>n. nd_id n = i) (nr_nodes r)"

definition NodeList :: "node_registry \<Rightarrow> node list" where
  "NodeList r = nr_nodes r"

definition NodeGetLeader :: "node_registry \<Rightarrow> node option" where
  "NodeGetLeader r = (if nr_leader r = '''' then None else NodeGet (nr_leader r) r)"

definition ElectLeader :: "node_registry \<Rightarrow> (cluster_error + string) \<times> node_registry" where
  "ElectLeader r = (case electLeaderLocked (r\<lparr>nr_leader := ''''\<rparr>) of
     (ok, r1) \<Rightarrow> (if ok then Inr (nr_leader r1) else Inl NoEligibleNode, r1))"

definition SyncFromPeers :: "node list \<Rightarrow> string \<Rightarrow> node_registry \<Rightarrow> node_registry" where
  "SyncFromPeers peers keep r =
    (let seen = nd_id ` set peers;
         ns = filter (\<lambda>n. nd_id n \<in> seen \<or> nd_id n = keep) (fold put_node peers (nr_nodes r))
     in snd (electLeaderLocked \<lparr>nr_nodes = ns, nr_leader = ''''\<rparr>))"

text \<open>\<^verbatim>\<open>Time.Sub\<close> saturates at the ends of \<^verbatim>\<open>Duration\<close>.\<close>

definition time_sub :: "time \<Rightarrow> time \<Rightarrow> duration" where
  "time_sub a b = max (- (2 ^ 63)) (min (2 ^ 63 - 1) (a - b))"

definition MarkStale :: "time \<Rightarrow> duration \<Rightarrow> node_registry \<Rightarrow> string list \<times> node_registry" where
  "MarkStale now age r =
    (let P = (\<lambda>n. nd_status n = NodeActive \<and> age < time_sub now (nd_last_heartbeat n));
         r1 = r\<lparr>nr_nodes := update_where P (\<lambda>n. n\<lparr>nd_status := NodeOffline\<rparr>) (nr_nodes r)\<rparr>;
         lost = (case NodeGet (nr_leader r1) r1 of None \<Rightarrow> True | Some n \<Rightarrow> nd_status n \<noteq> NodeActive)
     in (map nd_id (filter P (nr_nodes r)),
         if nr_leader r1 \<noteq> '''' \<and> lost then snd (electLeaderLocked (r1\<lparr>nr_leader := ''''\<rparr>)) else r1))"

definition NodeCount :: "node_registry \<Rightarrow> nat" where
  "NodeCount r = length (nr_nodes r)"

definition CountByStatus :: "string \<Rightarrow> node_registry \<Rightarrow> nat" where
  "CountByStatus s r = count_where (\<lambda>n. nd_status n = s) (nr_nodes r)"

definition NodeReset :: "node_registry \<Rightarrow> node_registry" where
  "NodeReset r = r\<lparr>nr_nodes := [], nr_leader := ''''\<rparr>"

section \<open>The shared table\<close>

datatype join_error = JoinCluster cluster_error | JoinCapability capability_error

definition upsertNode :: "names_codec \<Rightarrow> node \<Rightarrow> world \<Rightarrow> (join_error + unit) \<times> world" where
  "upsertNode jn n w =
    (let role = (if nd_role n = '''' then RoleWorker else nd_role n) in
     case storedCapabilities jn (nd_capabilities n) of
       Inl e \<Rightarrow> (Inl (JoinCapability e), w)
     | Inr caps \<Rightarrow>
        (case stmt_at (\<lambda>now t. (Inr (), t\<lparr>t_nodes :=
            (if nd_id n \<in> nd_id ` set (t_nodes t)
             then update_where (\<lambda>x. nd_id x = nd_id n) (\<lambda>x. x\<lparr>nd_address := nd_address n, nd_role := role,
                    nd_status := NodeActive, nd_capabilities := caps, nd_last_heartbeat := now\<rparr>) (t_nodes t)
             else t_nodes t @ [\<lparr>nd_id = nd_id n, nd_address = nd_address n, nd_status = NodeActive, nd_role = role,
                    nd_last_heartbeat = now, nd_capabilities = caps, nd_joined_at = now\<rparr>])\<rparr>)) w of
          (Inl e, w1) \<Rightarrow> (Inl (JoinCluster (ClusterStoreError e)), w1)
        | (Inr _, w1) \<Rightarrow> (Inr (), w1)))"

definition heartbeatNode :: "string \<Rightarrow> unit op" where
  "heartbeatNode i = stmt_at (\<lambda>now t. (Inr (), t\<lparr>t_nodes := update_where (\<lambda>n. nd_id n = i)
     (\<lambda>n. n\<lparr>nd_last_heartbeat := now, nd_status := NodeActive\<rparr>) (t_nodes t)\<rparr>))"

definition listNodes :: "node list op" where
  "listNodes = query (\<lambda>t. sort_key nd_id (t_nodes t))"

definition stale_row :: "duration \<Rightarrow> time \<Rightarrow> node \<Rightarrow> bool" where
  "stale_row age now n \<longleftrightarrow> nd_status n \<noteq> NodeOffline \<and> nd_last_heartbeat n < now - ttl_ms age"

definition markStaleNodes :: "duration \<Rightarrow> string list op" where
  "markStaleNodes age = stmt_at (\<lambda>now t. (Inr (map nd_id (filter (stale_row age now) (t_nodes t))),
     t\<lparr>t_nodes := update_where (stale_row age now) (\<lambda>n. n\<lparr>nd_status := NodeOffline\<rparr>) (t_nodes t)\<rparr>))"

definition deleteNode :: "string \<Rightarrow> unit op" where
  "deleteNode i = stmt (\<lambda>t. (Inr (), t\<lparr>t_nodes := filter (\<lambda>n. nd_id n \<noteq> i) (t_nodes t)\<rparr>))"

text \<open>
  The schema: a connection, the advisory lock, the definitions (no-ops on tables that exist), the
  unlock, whose failure is ignored.
\<close>

definition ensureClusterSchema :: "bool \<Rightarrow> unit cluster_op" where
  "ensureClusterSchema db w = (if \<not> db then (Inl ClusterNilDB, w)
     else case query (\<lambda>_. ()) w of
       (Inl e, w1) \<Rightarrow> (Inl (ClusterStoreError e), w1)
     | (Inr _, w1) \<Rightarrow> (case query (\<lambda>_. ()) w1 of
         (Inl e, w2) \<Rightarrow> (Inl (ClusterStoreError e), w2)
       | (Inr _, w2) \<Rightarrow> (case query (\<lambda>_. ()) w2 of
           (res, w3) \<Rightarrow> (case query (\<lambda>_. ()) w3 of (_, w4) \<Rightarrow>
             (case res of Inl e \<Rightarrow> Inl (ClusterStoreError e) | Inr _ \<Rightarrow> Inr (), w4)))))"

section \<open>The manager\<close>

definition DefaultHealthCheckInterval :: duration where "DefaultHealthCheckInterval = 10 * second"
definition DefaultHeartbeatTimeout :: duration where "DefaultHeartbeatTimeout = 30 * second"

record manager_config =
  mc_interval :: duration
  mc_timeout :: duration
  mc_self_id :: string

record cluster_manager =
  cm_cfg :: manager_config
  cm_db :: bool
  cm_registry :: node_registry
  cm_locks :: lock_table_manager
  cm_started :: bool
  cm_schema_ready :: bool

definition NewClusterManager :: "bool \<Rightarrow> manager_config \<Rightarrow> cluster_manager" where
  "NewClusterManager db cfg =
    \<lparr>cm_cfg = cfg\<lparr>mc_interval := (if mc_interval cfg \<le> 0 then DefaultHealthCheckInterval else mc_interval cfg),
        mc_timeout := (if mc_timeout cfg \<le> 0 then DefaultHeartbeatTimeout else mc_timeout cfg)\<rparr>,
     cm_db = db, cm_registry = NewNodeRegistry, cm_locks = NewDistributedLockManager db,
     cm_started = False, cm_schema_ready = False\<rparr>"

type_synonym 'a manager_op = "cluster_manager \<Rightarrow> world \<Rightarrow> 'a \<times> cluster_manager \<times> world"

definition ensureSchema :: "(cluster_error + unit) manager_op" where
  "ensureSchema m w = (if \<not> cm_db m then (Inr (), m, w)
     else if cm_schema_ready m then (Inr (), m, w)
     else case ensureClusterSchema (cm_db m) w of
       (Inl e, w1) \<Rightarrow> (Inl e, m, w1)
     | (Inr _, w1) \<Rightarrow> (Inr (), m\<lparr>cm_schema_ready := True\<rparr>, w1))"

definition ManagerStart :: "(cluster_error + unit) manager_op" where
  "ManagerStart m w = (if cm_started m then (Inr (), m, w)
     else case ensureSchema m w of
       (Inl e, m1, w1) \<Rightarrow> (Inl e, m1, w1)
     | (Inr _, m1, w1) \<Rightarrow> (Inr (), m1\<lparr>cm_started := True\<rparr>, w1))"

text \<open>\<open>drained\<close>: the loop ended before the caller's deadline. The errors are those of the releases.\<close>

definition ManagerStop :: "bool \<Rightarrow> (bool \<times> cluster_error list) manager_op" where
  "ManagerStop drained m w = (if \<not> cm_started m then ((True, []), m, w)
     else let m1 = m\<lparr>cm_started := False\<rparr> in
       if \<not> drained then ((False, []), m1, w)
       else case ReleaseAll (cm_locks m1) w of
         (errs, lk, w1) \<Rightarrow> ((errs = [], errs), m1\<lparr>cm_locks := lk\<rparr>, w1))"

definition Join :: "names_codec \<Rightarrow> node \<Rightarrow> (join_error + unit) manager_op" where
  "Join jn n m w = (case NodeRegister n (cm_registry m) w of
     (Inl e, r, w1) \<Rightarrow> (Inl (JoinCluster e), m\<lparr>cm_registry := r\<rparr>, w1)
   | (Inr _, r, w1) \<Rightarrow>
      let m1 = m\<lparr>cm_registry := r\<rparr> in
      if \<not> cm_db m1 then (Inr (), m1, w1)
      else case ensureSchema m1 w1 of
        (Inl e, m2, w2) \<Rightarrow> (Inl (JoinCluster e), m2, w2)
      | (Inr _, m2, w2) \<Rightarrow> (case upsertNode jn n w2 of (res, w3) \<Rightarrow> (res, m2, w3)))"

definition Leave :: "string \<Rightarrow> (cluster_error + unit) manager_op" where
  "Leave i m w = (case NodeDeregister i (cm_registry m) of
     (Inl e, r) \<Rightarrow> (Inl e, m\<lparr>cm_registry := r\<rparr>, w)
   | (Inr _, r) \<Rightarrow>
      let m1 = m\<lparr>cm_registry := r\<rparr> in
      if \<not> cm_db m1 then (Inr (), m1, w)
      else case deleteNode i w of
        (Inl e, w1) \<Rightarrow> (Inl (ClusterStoreError e), m1, w1)
      | (Inr _, w1) \<Rightarrow> (Inr (), m1, w1))"

record health_result =
  hr_stale :: "string list"
  hr_total :: nat
  hr_active :: nat
  hr_leader :: string

definition HealthCheck :: "health_result manager_op" where
  "HealthCheck m w = (case time_now w of (now, w1) \<Rightarrow>
     case MarkStale now (mc_timeout (cm_cfg m)) (cm_registry m) of (stale, r) \<Rightarrow>
       (\<lparr>hr_stale = stale, hr_total = NodeCount r, hr_active = CountByStatus NodeActive r,
         hr_leader = (case NodeGetLeader r of None \<Rightarrow> '''' | Some n \<Rightarrow> nd_id n)\<rparr>,
        m\<lparr>cm_registry := r\<rparr>, w1))"

definition ActiveMastersAndWorkers :: "cluster_manager \<Rightarrow> node list" where
  "ActiveMastersAndWorkers m = filter (\<lambda>n. nd_status n = NodeActive) (NodeList (cm_registry m))"

definition ManagerGetLeader :: "cluster_manager \<Rightarrow> node option" where
  "ManagerGetLeader m = NodeGetLeader (cm_registry m)"

definition SelfHeartbeat :: "(cluster_error + unit) manager_op" where
  "SelfHeartbeat m w = (if mc_self_id (cm_cfg m) = '''' then (Inl ClusterBadArgument, m, w)
     else case time_now w of (now, w1) \<Rightarrow>
       case NodeHeartbeat (mc_self_id (cm_cfg m)) now (cm_registry m) of (res, r) \<Rightarrow> (res, m\<lparr>cm_registry := r\<rparr>, w1))"

definition syncWithPG :: "unit manager_op" where
  "syncWithPG m w =
    (let w1 = (if mc_self_id (cm_cfg m) \<noteq> '''' then snd (heartbeatNode (mc_self_id (cm_cfg m)) w) else w) in
     case markStaleNodes (mc_timeout (cm_cfg m)) w1 of (_, w2) \<Rightarrow>
     case listNodes w2 of (nodes, w3) \<Rightarrow>
     let m1 = (case nodes of Inl _ \<Rightarrow> m
               | Inr ns \<Rightarrow> m\<lparr>cm_registry := SyncFromPeers ns (mc_self_id (cm_cfg m)) (cm_registry m)\<rparr>) in
     case ReleaseStale (cm_locks m1) w3 of (_, lk, w4) \<Rightarrow> ((), m1\<lparr>cm_locks := lk\<rparr>, w4))"

text \<open>One round of the health-check loop.\<close>

definition health_tick :: "unit manager_op" where
  "health_tick m w =
    (case (if mc_self_id (cm_cfg m) \<noteq> '''' then SelfHeartbeat m w else (Inr (), m, w)) of (_, m1, w1) \<Rightarrow>
     case HealthCheck m1 w1 of (_, m2, w2) \<Rightarrow>
       if cm_db m2 then syncWithPG m2 w2 else ((), m2, w2))"

definition EnsureStarted :: "cluster_manager \<Rightarrow> bool" where
  "EnsureStarted m = cm_started m"

section \<open>The election\<close>

lemma best_node_acc:
  "best_node P best ns = (case best_node P None ns of None \<Rightarrow> best
     | Some n \<Rightarrow> (case best of None \<Rightarrow> Some n | Some b \<Rightarrow> if nd_id n < nd_id b then Some n else Some b))"
proof (induction ns arbitrary: best)
  case (Cons x xs)
  show ?case
  proof (cases "P x")
    case False
    then show ?thesis using Cons [of best] by simp
  next
    case True
    then show ?thesis
      using Cons [of "Some x"] Cons [of "case best of None \<Rightarrow> Some x | Some b \<Rightarrow> if nd_id x < nd_id b then Some x else best"]
      by (cases best; cases "best_node P None xs") (auto split: if_splits)
  qed
qed (simp split: option.splits)

lemma best_node_min:
  "best_node P None ns = None \<longleftrightarrow> (\<forall>n\<in>set ns. \<not> P n)"
  "best_node P None ns = Some b \<Longrightarrow> b \<in> set ns \<and> P b \<and> (\<forall>n\<in>set ns. P n \<longrightarrow> nd_id b \<le> nd_id n)"
proof (induction ns arbitrary: b)
  case (Cons x xs)
  note acc = best_node_acc [of P "Some x" xs]
  {
    case 1
    show ?case using acc Cons.IH(1) by (auto split: option.splits if_splits)
  next
    case 2
    show ?case
    proof (cases "P x")
      case False
      then show ?thesis using 2 Cons.IH(2) by auto
    next
      case True
      show ?thesis
      proof (cases "best_node P None xs")
        case None
        then show ?thesis using 2 True acc Cons.IH(1) by auto
      next
        case (Some c)
        then have c: "c \<in> set xs" "P c" "\<forall>n\<in>set xs. P n \<longrightarrow> nd_id c \<le> nd_id n" using Cons.IH(2) by blast+
        have "b = (if nd_id c < nd_id x then c else x)" using 2 True acc Some by (simp split: if_splits)
        then show ?thesis using c True by (auto split: if_splits)
      qed
    qed
  }
qed simp_all

text \<open>The policy: the smallest id among the active masters, else among the active workers, else nobody.\<close>

definition smallest :: "(node \<Rightarrow> bool) \<Rightarrow> node set \<Rightarrow> string" where
  "smallest P N = Min (nd_id ` {n \<in> N. P n})"

definition chosen :: "node set \<Rightarrow> string" where
  "chosen N = (if \<exists>n\<in>N. eligible RoleMaster n then smallest (eligible RoleMaster) N
     else if \<exists>n\<in>N. eligible RoleWorker n then smallest (eligible RoleWorker) N else '''')"

lemma best_node_smallest:
  assumes "best_node P None ns = Some b"
  shows "nd_id b = smallest P (set ns)"
  unfolding smallest_def using best_node_min(2) [OF assms] by (intro Min_eqI [symmetric]) auto

lemma elect_chosen [simp]:
  "snd (electLeaderLocked \<lparr>nr_nodes = ns, nr_leader = ''''\<rparr>) = \<lparr>nr_nodes = ns, nr_leader = chosen (set ns)\<rparr>"
  using best_node_min(1) [of "eligible RoleMaster" ns] best_node_min(1) [of "eligible RoleWorker" ns]
  by (auto simp: electLeaderLocked_def chosen_def best_node_smallest split: option.splits)

section \<open>Folding a view into the registry\<close>

lemma set_put_node: "set (put_node n ns) = insert n {x \<in> set ns. nd_id x \<noteq> nd_id n}"
  by (auto simp: put_node_def set_update_where image_iff split: if_splits)

lemma unique_put_node: "key_unique nd_id ns \<Longrightarrow> key_unique nd_id (put_node n ns)"
proof (cases "nd_id n \<in> nd_id ` set ns")
  case True
  assume "key_unique nd_id ns"
  then have "key_unique nd_id (update_where (\<lambda>x. nd_id x = nd_id n) (\<lambda>_. n) ns)"
    by (induction ns) (auto simp: set_update_where image_iff split: if_splits)
  then show ?thesis using True by (simp add: put_node_def)
qed (auto simp: put_node_def key_unique_append)

lemma unique_fold_put: "key_unique nd_id ns \<Longrightarrow> key_unique nd_id (fold put_node ps ns)"
  by (induction ps arbitrary: ns) (auto simp: unique_put_node)

lemma set_fold_put:
  "key_unique nd_id ps \<Longrightarrow> set (fold put_node ps ns) = set ps \<union> {x \<in> set ns. nd_id x \<notin> nd_id ` set ps}"
proof (induction ps arbitrary: ns)
  case (Cons p ps)
  then have "p \<notin> {x. nd_id x \<in> nd_id ` set ps}" "key_unique nd_id ps" by auto
  with Cons.IH [of "put_node p ns"] show ?case by (auto simp: set_put_node)
qed simp

text \<open>What the registry holds after a synchronisation, whatever it held before.\<close>

lemma sync_outcome:
  assumes "key_unique nd_id ps"
  shows "set (nr_nodes (SyncFromPeers ps k r)) = set ps \<union> {n \<in> set (nr_nodes r). nd_id n = k \<and> k \<notin> nd_id ` set ps}"
    and "nr_leader (SyncFromPeers ps k r) = chosen (set (nr_nodes (SyncFromPeers ps k r)))"
    and "key_unique nd_id (nr_nodes r) \<Longrightarrow> key_unique nd_id (nr_nodes (SyncFromPeers ps k r))"
  using set_fold_put [OF assms, of "nr_nodes r"] unique_fold_put [of "nr_nodes r" ps]
  by (auto simp: SyncFromPeers_def Let_def key_unique_filter)

lemma smallest_union:
  assumes "finite N" and "finite X" and "\<forall>x\<in>X. nd_id x = k" and "\<exists>n\<in>N. P n"
  shows "smallest P (N \<union> X) = smallest P N \<or> smallest P (N \<union> X) = k"
proof -
  let ?A = "nd_id ` {n \<in> N. P n}" and ?B = "nd_id ` {n \<in> X. P n}"
  have u: "nd_id ` {n \<in> N \<union> X. P n} = ?A \<union> ?B" by auto
  have a: "?A \<noteq> {}" "finite ?A" using assms by auto
  from assms(3) consider "?B = {}" | "?B = {k}" by auto
  then show ?thesis
  proof cases
    case 1
    show ?thesis unfolding smallest_def u 1 by simp
  next
    case 2
    then show ?thesis unfolding smallest_def u using Min_insert [OF a(2,1), of k] by (simp add: min_def)
  qed
qed

lemma smallest_only:
  assumes "\<forall>x\<in>X. nd_id x = k" and "\<not> (\<exists>n\<in>N. P n)" and "\<exists>n\<in>X. P n"
  shows "smallest P (N \<union> X) = k"
proof -
  have "nd_id ` {n \<in> N \<union> X. P n} = {k}" using assms by auto
  then show ?thesis by (simp add: smallest_def)
qed

lemma chosen_union:
  assumes "finite N" and "finite X" and "\<forall>x\<in>X. nd_id x = k"
  shows "chosen (N \<union> X) = chosen N \<or> chosen (N \<union> X) = k"
proof (cases "(\<exists>n\<in>N. eligible RoleMaster n) \<or> (\<exists>n\<in>X. eligible RoleMaster n)")
  case True
  then show ?thesis using smallest_union [OF assms, of "eligible RoleMaster"] smallest_only [OF assms(3), of N "eligible RoleMaster"]
    by (cases "\<exists>n\<in>N. eligible RoleMaster n") (auto simp: chosen_def)
next
  case False
  then show ?thesis using smallest_union [OF assms, of "eligible RoleWorker"] smallest_only [OF assms(3), of N "eligible RoleWorker"]
    by (cases "\<exists>n\<in>N. eligible RoleWorker n") (auto simp: chosen_def)
qed

lemma smallest_member:
  assumes "finite N" and "\<exists>n\<in>N. P n"
  shows "\<exists>n\<in>N. P n \<and> nd_id n = smallest P N \<and> (\<forall>x\<in>N. P x \<longrightarrow> nd_id n \<le> nd_id x)"
proof -
  let ?A = "nd_id ` {n \<in> N. P n}"
  have "Min ?A \<in> ?A" using assms by (intro Min_in) auto
  moreover have "\<forall>x\<in>N. P x \<longrightarrow> Min ?A \<le> nd_id x" using assms(1) by auto
  ultimately show ?thesis by (auto simp: smallest_def)
qed

lemma chosen_member:
  assumes "finite N" and "chosen N \<noteq> ''''"
  shows "\<exists>n\<in>N. nd_id n = chosen N \<and> nd_status n = NodeActive \<and>
    (\<forall>x\<in>N. eligible RoleMaster x \<longrightarrow> nd_role n = RoleMaster \<and> nd_id n \<le> nd_id x)"
proof (cases "\<exists>n\<in>N. eligible RoleMaster n")
  case True
  then obtain n where n: "n \<in> N" "eligible RoleMaster n" "nd_id n = chosen N" "\<forall>x\<in>N. eligible RoleMaster x \<longrightarrow> nd_id n \<le> nd_id x"
    using smallest_member [OF assms(1) True] by (auto simp: chosen_def)
  from n(2) have "nd_role n = RoleMaster" "nd_status n = NodeActive" by (simp_all add: eligible_def)
  with n show ?thesis by blast
next
  case False
  with assms(2) have w: "\<exists>n\<in>N. eligible RoleWorker n" by (auto simp: chosen_def split: if_splits)
  then obtain n where n: "n \<in> N" "eligible RoleWorker n" "nd_id n = chosen N"
    using smallest_member [OF assms(1) w] False by (auto simp: chosen_def)
  from n(2) have "nd_status n = NodeActive" by (simp add: eligible_def)
  with n False show ?thesis by blast
qed

text \<open>
  The election is a function of the view: two processes that fold the same table of members into
  their registries, whatever each held before and in whatever order its map is iterated, name the
  same leader, provided each finds its own row in the table; the leader is an active node of the
  table, and no active master has a smaller id. A process that does not find its own row keeps its own entry
  and may name itself against the others: that is the one way to disagree.
\<close>

theorem same_view_same_leader:
  assumes "key_unique nd_id ps"
  shows "(k1 \<in> nd_id ` set ps \<and> k2 \<in> nd_id ` set ps \<longrightarrow>
       nr_leader (SyncFromPeers ps k1 r1) = nr_leader (SyncFromPeers ps k2 r2)) \<and>
    (k1 \<in> nd_id ` set ps \<and> nr_leader (SyncFromPeers ps k1 r1) \<noteq> '''' \<longrightarrow>
       (\<exists>n\<in>set ps. nd_id n = nr_leader (SyncFromPeers ps k1 r1) \<and> nd_status n = NodeActive \<and>
          (\<forall>x\<in>set ps. eligible RoleMaster x \<longrightarrow> nd_role n = RoleMaster \<and> nd_id n \<le> nd_id x))) \<and>
    (nr_leader (SyncFromPeers ps k1 r1) \<noteq> nr_leader (SyncFromPeers ps k2 r2) \<longrightarrow>
       (\<exists>k\<in>{k1, k2} - nd_id ` set ps. nr_leader (SyncFromPeers ps k1 r1) = k \<or> nr_leader (SyncFromPeers ps k2 r2) = k))"
proof -
  define L where "L k r = nr_leader (SyncFromPeers ps k r)" for k r
  have known: "L k r = chosen (set ps)" if "k \<in> nd_id ` set ps" for k r
    using sync_outcome(1,2) [OF assms, of k r] that by (simp add: L_def)
  have own: "L k r = chosen (set ps) \<or> L k r = k \<and> k \<notin> nd_id ` set ps" for k r
  proof (cases "k \<in> nd_id ` set ps")
    case False
    have "chosen (set ps \<union> {n \<in> set (nr_nodes r). nd_id n = k}) = chosen (set ps) \<or>
        chosen (set ps \<union> {n \<in> set (nr_nodes r). nd_id n = k}) = k" by (rule chosen_union) auto
    then show ?thesis using False sync_outcome(1,2) [OF assms, of k r] by (simp add: L_def)
  qed (use known in simp)
  have "L k1 r1 \<noteq> L k2 r2 \<longrightarrow> (\<exists>k\<in>{k1, k2} - nd_id ` set ps. L k1 r1 = k \<or> L k2 r2 = k)"
  proof
    assume "L k1 r1 \<noteq> L k2 r2"
    with own [of k1 r1] own [of k2 r2] consider "L k1 r1 = k1" "k1 \<notin> nd_id ` set ps" | "L k2 r2 = k2" "k2 \<notin> nd_id ` set ps"
      by metis
    then show "\<exists>k\<in>{k1, k2} - nd_id ` set ps. L k1 r1 = k \<or> L k2 r2 = k" by cases blast+
  qed
  moreover have "k1 \<in> nd_id ` set ps \<and> k2 \<in> nd_id ` set ps \<longrightarrow> L k1 r1 = L k2 r2" using known by simp
  moreover have "k1 \<in> nd_id ` set ps \<and> L k1 r1 \<noteq> '''' \<longrightarrow> (\<exists>n\<in>set ps. nd_id n = L k1 r1 \<and> nd_status n = NodeActive \<and>
          (\<forall>x\<in>set ps. eligible RoleMaster x \<longrightarrow> nd_role n = RoleMaster \<and> nd_id n \<le> nd_id x))"
    using known [of k1 r1] chosen_member [of "set ps"] by auto
  ultimately show ?thesis unfolding L_def by blast
qed

section \<open>The registry keeps a leader it knows\<close>

definition registry_ok :: "node_registry \<Rightarrow> bool" where
  "registry_ok r \<longleftrightarrow> key_unique nd_id (nr_nodes r) \<and> (nr_leader r = '''' \<or> nr_leader r \<in> nd_id ` set (nr_nodes r))"

lemma chosen_known: "chosen (set ns) = '''' \<or> chosen (set ns) \<in> nd_id ` set ns"
proof (cases "chosen (set ns) = ''''")
  case False
  with chosen_member [of "set ns"] show ?thesis by (metis List.finite_set imageI)
qed simp

lemma elect_update [simp]: "snd (electLeaderLocked (r\<lparr>nr_leader := ''''\<rparr>)) = r\<lparr>nr_leader := chosen (set (nr_nodes r))\<rparr>"
  using elect_chosen [of "nr_nodes r"] by (cases r) simp

lemma ids_put_node: "nd_id ` set (put_node n ns) = insert (nd_id n) (nd_id ` set ns)"
  by (auto simp: set_put_node)

lemma Register_ok:
  assumes "registry_ok r" and "NodeRegister n r w = (e, r', w')"
  shows "registry_ok r'"
  using assms by (auto simp: NodeRegister_def registry_ok_def unique_put_node ids_put_node Let_def time_now_def split: if_splits prod.splits)

lemma Deregister_ok:
  assumes "registry_ok r" and "NodeDeregister i r = (e, r')"
  shows "registry_ok r'"
proof (cases "nr_leader r = i")
  case True
  then show ?thesis using assms chosen_known [of "filter (\<lambda>n. nd_id n \<noteq> i) (nr_nodes r)"]
    by (auto simp: NodeDeregister_def registry_ok_def key_unique_filter Let_def split: if_splits)
next
  case False
  then show ?thesis using assms
    by (auto simp: NodeDeregister_def registry_ok_def key_unique_filter Let_def split: if_splits)
qed

lemma Heartbeat_ok:
  assumes "registry_ok r" and "NodeHeartbeat i now r = (e, r')"
  shows "registry_ok r'"
  using assms by (auto simp: NodeHeartbeat_def registry_ok_def key_image_update_where split: if_splits)

lemma Elect_ok:
  assumes "registry_ok r" and "ElectLeader r = (e, r')"
  shows "registry_ok r'"
proof -
  have "r' = snd (electLeaderLocked (r\<lparr>nr_leader := ''''\<rparr>))" using assms(2) by (auto simp: ElectLeader_def simp del: elect_update split: prod.splits)
  then show ?thesis using assms(1) chosen_known [of "nr_nodes r"] by (simp add: registry_ok_def)
qed

lemma Sync_ok:
  assumes "registry_ok r" and "key_unique nd_id ps"
  shows "registry_ok (SyncFromPeers ps k r)"
  using sync_outcome(2) [OF assms(2), of k r] sync_outcome(3) [OF assms(2), of r k] assms(1) chosen_known [of "nr_nodes (SyncFromPeers ps k r)"] by (simp add: registry_ok_def)

text \<open>After the stale nodes are marked, the leader is an active node with a recent heartbeat.\<close>

lemma MarkStale_ok:
  assumes "registry_ok r" and "MarkStale now age r = (ids, r')"
  shows "registry_ok r' \<and> (\<forall>n. NodeGetLeader r' = Some n \<longrightarrow> nd_status n = NodeActive \<and> time_sub now (nd_last_heartbeat n) \<le> age)"
proof -
  let ?P = "\<lambda>n. nd_status n = NodeActive \<and> age < time_sub now (nd_last_heartbeat n)"
  let ?ns = "update_where ?P (\<lambda>n. n\<lparr>nd_status := NodeOffline\<rparr>) (nr_nodes r)"
  let ?lost = "case find (\<lambda>n. nd_id n = nr_leader r) ?ns of None \<Rightarrow> True | Some n \<Rightarrow> nd_status n \<noteq> NodeActive"
  have u: "key_unique nd_id ?ns" using assms(1) by (simp add: registry_ok_def)
  have fresh: "time_sub now (nd_last_heartbeat n) \<le> age" if "n \<in> set ?ns" "nd_status n = NodeActive" for n
    using that by (auto simp: set_update_where node_words split: if_splits)
  have r': "r' = (if nr_leader r \<noteq> '''' \<and> ?lost then r\<lparr>nr_nodes := ?ns, nr_leader := chosen (set ?ns)\<rparr> else r\<lparr>nr_nodes := ?ns\<rparr>)"
    using assms(2) by (auto simp: MarkStale_def NodeGet_def Let_def)
  have ids: "nd_id ` set ?ns = nd_id ` set (nr_nodes r)" by (simp add: key_image_update_where)
  have lead: "nd_status n = NodeActive" if f: "find (\<lambda>n. nd_id n = chosen (set ?ns)) ?ns = Some n" and ne: "chosen (set ?ns) \<noteq> ''''" for n
  proof -
    obtain m where m: "m \<in> set ?ns" "nd_id m = chosen (set ?ns)" "nd_status m = NodeActive" using chosen_member [OF _ ne] by auto
    from find_key_unique [OF u m(1)] m(2) f have "n = m" by simp
    then show ?thesis using m by simp
  qed
  have ok: "registry_ok r'"
    using assms(1) chosen_known [of ?ns] u ids unfolding r' by (auto simp: registry_ok_def)
  have "nd_status n = NodeActive \<and> time_sub now (nd_last_heartbeat n) \<le> age" if "NodeGetLeader r' = Some n" for n
  proof -
    from that have f: "find (\<lambda>n. nd_id n = nr_leader r') ?ns = Some n" "nr_leader r' \<noteq> ''''"
      unfolding r' by (auto simp: NodeGetLeader_def NodeGet_def split: if_splits)
    then have mem: "n \<in> set ?ns" by (auto dest: find_key_Some)
    have "nd_status n = NodeActive"
    proof (cases "nr_leader r \<noteq> '''' \<and> ?lost")
      case True
      then have L: "nr_leader r' = chosen (set ?ns)" unfolding r' by simp
      show ?thesis using lead [OF f [unfolded L]] .
    next
      case False
      then show ?thesis using f r' by (auto split: if_splits)
    qed
    with fresh [OF mem] show ?thesis by simp
  qed
  with ok show ?thesis by blast
qed

section \<open>Convergence\<close>

text \<open>The managers of all live nodes synchronise, one after the other.\<close>

fun sync_all :: "cluster_manager list \<Rightarrow> world \<Rightarrow> cluster_manager list \<times> world" where
  "sync_all [] w = ([], w)"
| "sync_all (m # ms) w = (case syncWithPG m w of (_, m', w1) \<Rightarrow>
     case sync_all ms w1 of (ms', w2) \<Rightarrow> (m' # ms', w2))"

definition sync_rows :: "duration \<Rightarrow> string \<Rightarrow> time \<Rightarrow> time \<Rightarrow> node list \<Rightarrow> node list" where
  "sync_rows age i now1 now2 ns = update_where (stale_row age now2) (\<lambda>n. n\<lparr>nd_status := NodeOffline\<rparr>)
     (update_where (\<lambda>n. nd_id n = i) (\<lambda>n. n\<lparr>nd_last_heartbeat := now1, nd_status := NodeActive\<rparr>) ns)"

abbreviation self_id :: "cluster_manager \<Rightarrow> string" where "self_id m \<equiv> mc_self_id (cm_cfg m)"

lemma ReleaseStale_quiet:
  assumes "quiet w" and "ReleaseStale lk w = (x, lk', w')"
  shows "quiet w' \<and> t_nodes (w_tbl w') = t_nodes (w_tbl w) \<and> w_clock w' = w_clock w"
  using assms by (auto simp: ReleaseStale_def stmt_at_def stmt_quiet split: if_splits)

lemma sync_quiet:
  assumes "quiet w" and "self_id m \<noteq> ''''" and "syncWithPG m w = (u, m', w')"
  shows "\<exists>i j. t_nodes (w_tbl w') = sync_rows (mc_timeout (cm_cfg m)) (self_id m) (w_clock w i) (w_clock w j) (t_nodes (w_tbl w)) \<and>
    cm_registry m' = SyncFromPeers (sort_key nd_id (t_nodes (w_tbl w'))) (self_id m) (cm_registry m) \<and>
    cm_cfg m' = cm_cfg m \<and> quiet w' \<and> w_clock w' = w_clock w"
proof -
  let ?T = "mc_timeout (cm_cfg m)"
  obtain w1 where w1: "heartbeatNode (self_id m) w = (Inr (), w1)" "quiet w1" "w_clock w1 = w_clock w" "w_tick w1 = Suc (w_tick w)"
      "t_nodes (w_tbl w1) = update_where (\<lambda>n. nd_id n = self_id m)
         (\<lambda>n. n\<lparr>nd_last_heartbeat := w_clock w (w_tick w), nd_status := NodeActive\<rparr>) (t_nodes (w_tbl w))"
    using assms(1) by (simp add: heartbeatNode_def stmt_at_def stmt_quiet)
  obtain st w2 where w2: "markStaleNodes ?T w1 = (st, w2)" "quiet w2" "w_clock w2 = w_clock w"
      "t_nodes (w_tbl w2) = sync_rows ?T (self_id m) (w_clock w (w_tick w)) (w_clock w (Suc (w_tick w))) (t_nodes (w_tbl w))"
    using w1 by (simp add: markStaleNodes_def stmt_at_def stmt_quiet sync_rows_def)
  obtain w3 where w3: "listNodes w2 = (Inr (sort_key nd_id (t_nodes (w_tbl w2))), w3)" "quiet w3" "w_clock w3 = w_clock w"
      "w_tbl w3 = w_tbl w2"
    using w2 by (simp add: listNodes_def query_quiet)
  let ?m1 = "m\<lparr>cm_registry := SyncFromPeers (sort_key nd_id (t_nodes (w_tbl w2))) (self_id m) (cm_registry m)\<rparr>"
  obtain x lk w4 where w4: "ReleaseStale (cm_locks ?m1) w3 = (x, lk, w4)" by (metis prod_cases3)
  have "m' = ?m1\<lparr>cm_locks := lk\<rparr>" "w' = w4"
    using assms(2,3) w1(1) w2(1) w3(1) w4 by (simp_all add: syncWithPG_def)
  then show ?thesis using ReleaseStale_quiet [OF w3(2) w4] w3 w2 by (auto intro!: exI)
qed

text \<open>The policy on the live ids, with the roles the table gives them.\<close>

definition live_leader :: "string set \<Rightarrow> (string \<times> string) set \<Rightarrow> string" where
  "live_leader M roles = (if \<exists>i\<in>M. (i, RoleMaster) \<in> roles then Min {i \<in> M. (i, RoleMaster) \<in> roles}
     else if \<exists>i\<in>M. (i, RoleWorker) \<in> roles then Min {i \<in> M. (i, RoleWorker) \<in> roles} else '''')"

definition roles_of :: "node list \<Rightarrow> (string \<times> string) set" where
  "roles_of ns = (\<lambda>n. (nd_id n, nd_role n)) ` set ns"

lemma chosen_live:
  assumes "\<forall>n\<in>set ns. nd_status n = NodeActive \<longleftrightarrow> nd_id n \<in> M"
  shows "chosen (set ns) = live_leader M (roles_of ns)"
proof -
  have e: "nd_id ` {n \<in> set ns. eligible R n} = {i \<in> M. (i, R) \<in> roles_of ns}" for R
    using assms by (auto simp: eligible_def roles_of_def)
  have x: "(\<exists>n\<in>set ns. eligible R n) \<longleftrightarrow> (\<exists>i\<in>M. (i, R) \<in> roles_of ns)" for R
    using e [of R] by blast
  show ?thesis by (simp add: chosen_def live_leader_def smallest_def e x)
qed

text \<open>The ids in \<open>A\<close> have been seen alive, the ids outside \<open>M\<close> are dead.\<close>

definition view_inv :: "string set \<Rightarrow> string set \<Rightarrow> time \<Rightarrow> duration \<Rightarrow> node list \<Rightarrow> bool" where
  "view_inv M A since age ns \<longleftrightarrow> key_unique nd_id ns \<and>
     (\<forall>n\<in>set ns. nd_id n \<notin> M \<longrightarrow> nd_status n = NodeOffline \<or> nd_last_heartbeat n < since - ttl_ms age) \<and>
     (\<forall>n\<in>set ns. nd_id n \<in> A \<longrightarrow> nd_status n = NodeActive \<and> since \<le> nd_last_heartbeat n)"

lemma sync_rows_inv:
  assumes "view_inv M A since age ns" and "i \<in> M" and "A \<subseteq> M"
    and "since \<le> c1" and "since \<le> c2" and "c2 \<le> since + ttl_ms age"
  shows "view_inv M (insert i A) since age (sync_rows age i c1 c2 ns)"
    and "\<forall>n\<in>set (sync_rows age i c1 c2 ns). nd_id n \<notin> M \<longrightarrow> nd_status n = NodeOffline"
    and "roles_of (sync_rows age i c1 c2 ns) = roles_of ns"
proof -
  have row: "\<exists>x\<in>set ns. n = (let y = (if nd_id x = i then x\<lparr>nd_last_heartbeat := c1, nd_status := NodeActive\<rparr> else x) in
      if stale_row age c2 y then y\<lparr>nd_status := NodeOffline\<rparr> else y)" if "n \<in> set (sync_rows age i c1 c2 ns)" for n
    using that by (auto simp: sync_rows_def set_update_where Let_def)
  show "\<forall>n\<in>set (sync_rows age i c1 c2 ns). nd_id n \<notin> M \<longrightarrow> nd_status n = NodeOffline"
  proof (intro ballI impI)
    fix n assume "n \<in> set (sync_rows age i c1 c2 ns)" and out: "nd_id n \<notin> M"
    then obtain x where x: "x \<in> set ns" and n: "n = (let y = (if nd_id x = i then x\<lparr>nd_last_heartbeat := c1, nd_status := NodeActive\<rparr> else x) in
      if stale_row age c2 y then y\<lparr>nd_status := NodeOffline\<rparr> else y)" using row by blast
    have "nd_id x = nd_id n" unfolding n by (simp add: Let_def)
    with out assms(2) have "nd_id x \<noteq> i" "nd_id x \<notin> M" by auto
    then show "nd_status n = NodeOffline" using x n assms(1,5) by (auto simp: view_inv_def stale_row_def Let_def split: if_splits)
  qed
  have "\<forall>n\<in>set (sync_rows age i c1 c2 ns). nd_id n \<in> insert i A \<longrightarrow> nd_status n = NodeActive \<and> since \<le> nd_last_heartbeat n"
  proof (intro ballI impI)
    fix n assume "n \<in> set (sync_rows age i c1 c2 ns)" and inA: "nd_id n \<in> insert i A"
    then obtain x where x: "x \<in> set ns" and n: "n = (let y = (if nd_id x = i then x\<lparr>nd_last_heartbeat := c1, nd_status := NodeActive\<rparr> else x) in
      if stale_row age c2 y then y\<lparr>nd_status := NodeOffline\<rparr> else y)" using row by blast
    have "nd_id x \<in> insert i A" using inA unfolding n by (simp add: Let_def split: if_splits)
    then show "nd_status n = NodeActive \<and> since \<le> nd_last_heartbeat n" unfolding n
      using x assms(1,4-6) by (cases "nd_id x = i") (auto simp: view_inv_def stale_row_def Let_def)
  qed
  with \<open>\<forall>n\<in>set (sync_rows age i c1 c2 ns). nd_id n \<notin> M \<longrightarrow> nd_status n = NodeOffline\<close>
  show "view_inv M (insert i A) since age (sync_rows age i c1 c2 ns)"
    using assms(1) by (auto simp: view_inv_def sync_rows_def)
  show "roles_of (sync_rows age i c1 c2 ns) = roles_of ns"
    unfolding roles_of_def sync_rows_def by (simp add: key_image_update_where)
qed

lemma roles_of_ids: "nd_id ` set ns = fst ` roles_of ns"
  by (simp add: roles_of_def image_image)

lemma sync_one:
  assumes "quiet w" and "view_inv M A since age (t_nodes (w_tbl w))" and "A \<subseteq> M" and "\<forall>n. since \<le> w_clock w n \<and> w_clock w n \<le> since + ttl_ms age"
    and "self_id m \<in> M" and "self_id m \<noteq> ''''" and "mc_timeout (cm_cfg m) = age" and "M \<subseteq> nd_id ` set (t_nodes (w_tbl w))"
    and "syncWithPG m w = (u, m', w')"
  shows "quiet w' \<and> w_clock w' = w_clock w \<and> cm_cfg m' = cm_cfg m \<and> roles_of (t_nodes (w_tbl w')) = roles_of (t_nodes (w_tbl w)) \<and>
    view_inv M (insert (self_id m) A) since age (t_nodes (w_tbl w')) \<and>
    (M \<subseteq> A \<longrightarrow> nr_leader (cm_registry m') = live_leader M (roles_of (t_nodes (w_tbl w))))"
proof -
  let ?ns = "t_nodes (w_tbl w)" and ?ns' = "t_nodes (w_tbl w')"
  obtain i j where s: "?ns' = sync_rows age (self_id m) (w_clock w i) (w_clock w j) ?ns"
      "cm_registry m' = SyncFromPeers (sort_key nd_id ?ns') (self_id m) (cm_registry m)"
      "cm_cfg m' = cm_cfg m" "quiet w'" "w_clock w' = w_clock w"
    using sync_quiet [OF assms(1,6,9)] assms(7) by auto
  note inv = sync_rows_inv [OF assms(2,5,3), of "w_clock w i" "w_clock w j", folded s(1)]
  have v: "view_inv M (insert (self_id m) A) since age ?ns'" "roles_of ?ns' = roles_of ?ns"
    and out: "\<forall>n\<in>set ?ns'. nd_id n \<notin> M \<longrightarrow> nd_status n = NodeOffline" using inv assms(4) by blast+
  have "nr_leader (cm_registry m') = live_leader M (roles_of ?ns)" if "M \<subseteq> A"
  proof -
    have u: "key_unique nd_id (sort_key nd_id ?ns')" using v(1) by (simp add: view_inv_def key_unique_def distinct_map)
    have "self_id m \<in> nd_id ` set (sort_key nd_id ?ns')" using assms(5,8) v(2) by (auto simp: roles_of_ids)
    then have "nr_leader (cm_registry m') = chosen (set ?ns')"
      using sync_outcome(1,2) [OF u, of "self_id m" "cm_registry m"] s(2) by simp
    also have "\<dots> = live_leader M (roles_of ?ns')"
      by (rule chosen_live) (use v(1) out that in \<open>auto simp: view_inv_def node_words\<close>)
    finally show ?thesis using v(2) by simp
  qed
  with s v show ?thesis by simp
qed

lemma sync_all_inv:
  assumes "quiet w" and "view_inv M A since age (t_nodes (w_tbl w))" and "A \<subseteq> M" and "\<forall>n. since \<le> w_clock w n \<and> w_clock w n \<le> since + ttl_ms age"
    and "\<forall>m\<in>set ms. self_id m \<in> M \<and> self_id m \<noteq> '''' \<and> mc_timeout (cm_cfg m) = age" and "M \<subseteq> nd_id ` set (t_nodes (w_tbl w))"
    and "sync_all ms w = (ms', w')"
  shows "quiet w' \<and> w_clock w' = w_clock w \<and> map cm_cfg ms' = map cm_cfg ms \<and> roles_of (t_nodes (w_tbl w')) = roles_of (t_nodes (w_tbl w)) \<and>
    view_inv M (self_id ` set ms \<union> A) since age (t_nodes (w_tbl w')) \<and>
    (M \<subseteq> A \<longrightarrow> (\<forall>m\<in>set ms'. nr_leader (cm_registry m) = live_leader M (roles_of (t_nodes (w_tbl w)))))"
  using assms
proof (induction ms arbitrary: A w ms')
  case (Cons m ms)
  obtain u m1 w1 where s: "syncWithPG m w = (u, m1, w1)" by (metis prod_cases3)
  obtain ms1 where r: "sync_all ms w1 = (ms1, w')" "ms' = m1 # ms1" using Cons.prems(7) s by (auto split: prod.splits)
  have m: "self_id m \<in> M" "self_id m \<noteq> ''''" "mc_timeout (cm_cfg m) = age" using Cons.prems(5) by auto
  note one = sync_one [OF Cons.prems(1-4) m Cons.prems(6) s]
  then have "M \<subseteq> nd_id ` set (t_nodes (w_tbl w1))" using Cons.prems(6) by (simp add: roles_of_ids)
  moreover have "insert (self_id m) A \<subseteq> M" using m(1) Cons.prems(3) by simp
  ultimately have "quiet w' \<and> w_clock w' = w_clock w1 \<and> map cm_cfg ms1 = map cm_cfg ms \<and> roles_of (t_nodes (w_tbl w')) = roles_of (t_nodes (w_tbl w1)) \<and>
    view_inv M (self_id ` set ms \<union> insert (self_id m) A) since age (t_nodes (w_tbl w')) \<and>
    (M \<subseteq> insert (self_id m) A \<longrightarrow> (\<forall>m\<in>set ms1. nr_leader (cm_registry m) = live_leader M (roles_of (t_nodes (w_tbl w1)))))"
    using one Cons.prems(4,5) by (intro Cons.IH [OF _ _ _ _ _ _ r(1)]) simp_all
  with one show ?case unfolding r(2) by (auto simp: insert_commute)
qed simp

text \<open>
  C32. Two rounds suffice: if every live node synchronises twice within one heartbeat timeout, in any
  order of the nodes, then all of them name the same leader, the live master with the smallest id
  (a worker if no master is alive), whatever their registries held before. The rows of the other nodes have to be
  out of time already.
\<close>

theorem leaders_converge:
  assumes "quiet w" and "key_unique nd_id (t_nodes (w_tbl w))"
    and "\<forall>n. since \<le> w_clock w n \<and> w_clock w n \<le> since + ttl_ms age"
    and "\<forall>m\<in>set ms. self_id m \<noteq> '''' \<and> self_id m \<in> nd_id ` set (t_nodes (w_tbl w)) \<and> mc_timeout (cm_cfg m) = age"
    and "\<forall>n\<in>set (t_nodes (w_tbl w)). nd_id n \<notin> self_id ` set ms \<longrightarrow> nd_status n = NodeOffline \<or> nd_last_heartbeat n < since - ttl_ms age"
    and "sync_all ms w = (ms1, w1)" and "sync_all ms1 w1 = (ms2, w2)"
  shows "map cm_cfg ms2 = map cm_cfg ms \<and>
    (\<forall>m\<in>set ms2. nr_leader (cm_registry m) = live_leader (self_id ` set ms) (roles_of (t_nodes (w_tbl w))))"
proof -
  let ?M = "self_id ` set ms"
  have v: "view_inv ?M {} since age (t_nodes (w_tbl w))" using assms(2,5) by (simp add: view_inv_def)
  have "?M \<subseteq> nd_id ` set (t_nodes (w_tbl w))" using assms(4) by auto
  then have r1: "quiet w1" "w_clock w1 = w_clock w" "map cm_cfg ms1 = map cm_cfg ms"
      "roles_of (t_nodes (w_tbl w1)) = roles_of (t_nodes (w_tbl w))" "view_inv ?M ?M since age (t_nodes (w_tbl w1))"
    using sync_all_inv [OF assms(1) v _ assms(3) _ _ assms(6)] assms(4) by auto
  have ids: "?M \<subseteq> nd_id ` set (t_nodes (w_tbl w1))" using \<open>?M \<subseteq> _\<close> r1(4) by (simp add: roles_of_ids)
  have cfg: "cm_cfg ` set ms1 = cm_cfg ` set ms" using r1(3) by (metis list.set_map)
  have "\<forall>m\<in>set ms1. self_id m \<in> ?M \<and> self_id m \<noteq> '''' \<and> mc_timeout (cm_cfg m) = age"
  proof
    fix m assume "m \<in> set ms1"
    then obtain x where "x \<in> set ms" "cm_cfg m = cm_cfg x" using cfg by (metis imageE imageI)
    then show "self_id m \<in> ?M \<and> self_id m \<noteq> '''' \<and> mc_timeout (cm_cfg m) = age" using assms(4) by auto
  qed
  from sync_all_inv [OF r1(1,5) subset_refl _ this ids assms(7)] r1 assms(3) show ?thesis by simp
qed

section \<open>Every history of a registry\<close>

inductive registry_step :: "node_registry \<Rightarrow> node_registry \<Rightarrow> bool" where
  registered: "NodeRegister n r w = (e, r', w') \<Longrightarrow> registry_step r r'"
| deregistered: "NodeDeregister i r = (e, r') \<Longrightarrow> registry_step r r'"
| beat: "NodeHeartbeat i now r = (e, r') \<Longrightarrow> registry_step r r'"
| elected: "ElectLeader r = (x, r') \<Longrightarrow> registry_step r r'"
| synced: "key_unique nd_id ps \<Longrightarrow> registry_step r (SyncFromPeers ps k r)"
| marked: "MarkStale now age r = (ids, r') \<Longrightarrow> registry_step r r'"
| reset: "registry_step r (NodeReset r)"

lemma step_ok: "registry_step r r' \<Longrightarrow> registry_ok r \<Longrightarrow> registry_ok r'"
proof (induction rule: registry_step.induct)
  case (registered n r w e r' w')
  then show ?case using Register_ok by blast
next
  case (deregistered i r e r')
  then show ?case using Deregister_ok by blast
next
  case (beat i now r e r')
  then show ?case using Heartbeat_ok by blast
next
  case (elected r x r')
  then show ?case using Elect_ok by blast
next
  case (synced ps r k)
  then show ?case using Sync_ok by blast
next
  case (marked now age r ids r')
  then show ?case using MarkStale_ok by blast
next
  case (reset r)
  then show ?case by (simp add: registry_ok_def NodeReset_def)
qed

text \<open>
  After any sequence of registrations, departures, heartbeats, elections, synchronisations and
  stale sweeps on a new registry, no two nodes have the same id and a leader that is named is a
  registered node; and a further sweep leaves as the leader, if any, an active node whose heartbeat
  is within the limit of that sweep.
\<close>

theorem registry_leader_sound:
  assumes "registry_step\<^sup>*\<^sup>* NewNodeRegistry r"
  shows "distinct (map nd_id (NodeList r)) \<and> (nr_leader r \<noteq> '''' \<longrightarrow> (\<exists>n. NodeGetLeader r = Some n \<and> nd_id n = nr_leader r)) \<and>
    (\<forall>now age n. NodeGetLeader (snd (MarkStale now age r)) = Some n \<longrightarrow>
       nd_status n = NodeActive \<and> time_sub now (nd_last_heartbeat n) \<le> age)"
proof -
  from assms have ok: "registry_ok r"
  proof (induction rule: rtranclp_induct)
    case base
    show ?case by (simp add: registry_ok_def NewNodeRegistry_def)
  next
    case (step y z)
    then show ?case using step_ok by blast
  qed
  have "\<exists>n. NodeGetLeader r = Some n \<and> nd_id n = nr_leader r" if ne: "nr_leader r \<noteq> ''''"
  proof -
    obtain n where "n \<in> set (nr_nodes r)" "nd_id n = nr_leader r" using ok ne by (auto simp: registry_ok_def)
    then show ?thesis using ok ne find_key_unique [of nd_id "nr_nodes r" n] by (simp add: NodeGetLeader_def NodeGet_def registry_ok_def)
  qed
  moreover have "distinct (map nd_id (NodeList r))" using ok by (simp add: registry_ok_def key_unique_def NodeList_def)
  moreover have "nd_status n = NodeActive \<and> time_sub now (nd_last_heartbeat n) \<le> age"
    if "NodeGetLeader (snd (MarkStale now age r)) = Some n" for now age n
    using MarkStale_ok [OF ok, of now age "fst (MarkStale now age r)" "snd (MarkStale now age r)"] that by simp
  ultimately show ?thesis by blast
qed

section \<open>Witnesses\<close>

definition demo_node :: "string \<Rightarrow> string \<Rightarrow> time \<Rightarrow> node" where
  "demo_node i role beat = \<lparr>nd_id = i, nd_address = ''host'', nd_status = NodeActive, nd_role = role,
     nd_last_heartbeat = beat, nd_capabilities = EmptyCapabilities, nd_joined_at = 0\<rparr>"

definition demo_manager :: "string \<Rightarrow> cluster_manager" where
  "demo_manager i = NewClusterManager True \<lparr>mc_interval = 0, mc_timeout = 0, mc_self_id = i\<rparr>"

text \<open>A master that died an hour ago, a master and a worker.\<close>

definition demo_cluster :: tables where
  "demo_cluster = no_rows\<lparr>t_nodes := [demo_node ''a'' RoleMaster (- hour), demo_node ''b'' RoleMaster 0, demo_node ''c'' RoleWorker 0]\<rparr>"

theorem same_view_same_leader_witness:
  "nr_leader (SyncFromPeers (t_nodes demo_cluster) ''b'' NewNodeRegistry) =
   nr_leader (SyncFromPeers (t_nodes demo_cluster) ''c'' \<lparr>nr_nodes = [demo_node ''c'' RoleMaster 0], nr_leader = ''c''\<rparr>)"
proof -
  have "key_unique nd_id (t_nodes demo_cluster)" by (simp add: demo_cluster_def demo_node_def)
  moreover have "''b'' \<in> nd_id ` set (t_nodes demo_cluster)" "''c'' \<in> nd_id ` set (t_nodes demo_cluster)"
    by (simp_all add: demo_cluster_def demo_node_def)
  ultimately show ?thesis using same_view_same_leader by blast
qed

theorem leaders_converge_witness:
  "\<exists>ms1 w1 ms2 w2. sync_all [demo_manager ''b'', demo_manager ''c''] ((still_world demo_cluster)\<lparr>w_clock := (\<lambda>_. 10)\<rparr>) = (ms1, w1) \<and>
     sync_all ms1 w1 = (ms2, w2) \<and> length ms2 = 2 \<and> list_all (\<lambda>m. nr_leader (cm_registry m) = ''b'') ms2"
proof -
  let ?ms = "[demo_manager ''b'', demo_manager ''c'']" and ?w = "(still_world demo_cluster)\<lparr>w_clock := (\<lambda>_. 10)\<rparr>"
  obtain ms1 w1 where s1: "sync_all ?ms ?w = (ms1, w1)" by fastforce
  obtain ms2 w2 where s2: "sync_all ms1 w1 = (ms2, w2)" by fastforce
  have q: "quiet ?w" by (simp add: quiet_def still_world_def)
  have ids: "self_id ` set ?ms = {''b'', ''c''}" by (simp add: demo_manager_def NewClusterManager_def)
  have roles: "roles_of (t_nodes (w_tbl ?w)) = {(''a'', RoleMaster), (''b'', RoleMaster), (''c'', RoleWorker)}"
    by (simp add: roles_of_def demo_cluster_def demo_node_def)
  have "{i \<in> {''b'', ''c''}. (i, RoleMaster) \<in> {(''a'', RoleMaster), (''b'', RoleMaster), (''c'', RoleWorker)}} = {''b''}"
    by (auto simp: node_words)
  then have l: "live_leader {''b'', ''c''} {(''a'', RoleMaster), (''b'', RoleMaster), (''c'', RoleWorker)} = ''b''"
    by (simp add: live_leader_def)
  have "map cm_cfg ms2 = map cm_cfg ?ms \<and>
    (\<forall>m\<in>set ms2. nr_leader (cm_registry m) = live_leader (self_id ` set ?ms) (roles_of (t_nodes (w_tbl ?w))))"
  proof (rule leaders_converge [where since = 10 and age = "30 * second", OF q _ _ _ _ s1 s2])
    show "key_unique nd_id (t_nodes (w_tbl ?w))" by (simp add: demo_cluster_def demo_node_def)
    show "\<forall>m\<in>set ?ms. self_id m \<noteq> '''' \<and> self_id m \<in> nd_id ` set (t_nodes (w_tbl ?w)) \<and> mc_timeout (cm_cfg m) = 30 * second"
      by (simp add: demo_cluster_def demo_node_def demo_manager_def NewClusterManager_def DefaultHeartbeatTimeout_def)
    show "\<forall>n\<in>set (t_nodes (w_tbl ?w)). nd_id n \<notin> self_id ` set ?ms \<longrightarrow> nd_status n = NodeOffline \<or> nd_last_heartbeat n < 10 - ttl_ms (30 * second)"
      by (simp add: demo_cluster_def demo_node_def demo_manager_def NewClusterManager_def ttl_ms_def)
  qed (simp add: ttl_ms_def)
  then have "length ms2 = 2" "list_all (\<lambda>m. nr_leader (cm_registry m) = ''b'') ms2"
    unfolding ids roles l by (auto simp: list_all_iff dest: map_eq_imp_length_eq)
  with s1 s2 show ?thesis by blast
qed

theorem registry_leader_sound_witness:
  "\<exists>r. NodeRegister (demo_node ''b'' RoleMaster 5) NewNodeRegistry (still_world no_rows) = (Inr (), r, still_world no_rows) \<and>
     nr_leader r = ''b'' \<and> (\<exists>n. NodeGetLeader r = Some n \<and> nd_id n = ''b'')"
proof -
  obtain r where r: "NodeRegister (demo_node ''b'' RoleMaster 5) NewNodeRegistry (still_world no_rows) = (Inr (), r, still_world no_rows)"
      "nr_leader r = ''b''"
    by (auto simp: NodeRegister_def NewNodeRegistry_def demo_node_def zero_time_def node_words)
  have "registry_step\<^sup>*\<^sup>* NewNodeRegistry r" using registry_step.registered [OF r(1)] by blast
  from registry_leader_sound [OF this] r show ?thesis by auto
qed

end
