(* ===== verification/Takeover.thy ===== *)
theory Takeover
  imports Cluster_Nodes Trace_Chain Run_Status
begin

text \<open>
  \<^verbatim>\<open>internal/takeover/takeover.go\<close>: the leader scans for executions whose lease ran out and for runs
  that are running without a lease, and settles them as interrupted, each under a lock of its own.
  The background ticker is timing only; one sweep is \<open>TakeoverOnce\<close>.
\<close>

section \<open>One sweep\<close>

record takeover_loop =
  lp_guard :: exec_guard
  lp_node_id :: string
  lp_ttl :: duration
  lp_crypto :: crypto

definition NewLoop :: "exec_guard \<Rightarrow> string \<Rightarrow> crypto \<Rightarrow> takeover_loop" where
  "NewLoop g i c = \<lparr>lp_guard = g, lp_node_id = i, lp_ttl = 10 * second, lp_crypto = c\<rparr>"

definition AssignStatePending :: string where "AssignStatePending = ''pending''"
definition AssignmentStateExecuting :: string where "AssignmentStateExecuting = ''executing''"
definition AssignmentStateInterrupted :: string where "AssignmentStateInterrupted = ''interrupted''"
definition EventTakeoverInterrupted :: string where "EventTakeoverInterrupted = ''interrupted_by_takeover''"

definition takeover_key :: "string \<Rightarrow> string" where
  "takeover_key rid = ''takeover:'' @ rid"

datatype takeover_error = TakeoverLock cluster_error | TakeoverStore store_error | TakeoverScan cluster_error

definition reflect_assignment :: "string \<Rightarrow> world \<Rightarrow> world" where
  "reflect_assignment rid w = (case GetAssignment rid w of
     (Inr (Some a), w1) \<Rightarrow>
       if as_state a = AssignStatePending \<or> as_state a = AssignmentStateExecuting
       then snd (UpdateAssignmentState rid AssignmentStateInterrupted w1) else w1
   | (_, w1) \<Rightarrow> w1)"

definition takeover_trace :: "string \<Rightarrow> time \<Rightarrow> time \<Rightarrow> trace_row" where
  "takeover_trace rid nano at = \<lparr>tr_id = ''trc-takeover-'' @ rid @ ''-'' @ format_int nano, tr_run_id = rid,
     tr_event = EventTakeoverInterrupted, tr_actor = ''cluster-takeover'', tr_detail = '''',
     tr_prev_hash = '''', tr_curr_hash = '''', tr_timestamp = at, tr_tenant_id = ''''\<rparr>"

definition deleteExecRow :: "exec_guard \<Rightarrow> string \<Rightarrow> unit cluster_op" where
  "deleteExecRow g rid = DeleteExecution g rid"

definition execOwner :: "exec_guard \<Rightarrow> string \<Rightarrow> world \<Rightarrow> string \<times> world" where
  "execOwner g rid w = (case GetExecution g rid w of
     (Inr (Some l), w1) \<Rightarrow> (xl_owner l, w1)
   | (_, w1) \<Rightarrow> ('''', w1))"

text \<open>What follows the transition of the run; every failure is logged and ignored. The owner is for the log.\<close>

definition settle_bookkeeping :: "takeover_loop \<Rightarrow> string \<Rightarrow> world \<Rightarrow> string \<times> world" where
  "settle_bookkeeping lp rid w =
    (let w1 = reflect_assignment rid w;
         w2 = snd (MarkNonTerminalSteps rid ''unknown'' w1)
     in case time_now w2 of (nano, w3) \<Rightarrow> case time_now w3 of (at, w4) \<Rightarrow>
        let w5 = snd (CreateTrace (takeover_trace rid nano at) w4);
            w6 = snd (SealRunTraceChain (lp_crypto lp) rid w5);
            w7 = snd (deleteExecRow (lp_guard lp) rid w6)
        in execOwner (lp_guard lp) rid w7)"

definition settle_locked :: "takeover_loop \<Rightarrow> string \<Rightarrow> world \<Rightarrow> (takeover_error + bool) \<times> world" where
  "settle_locked lp rid w = (case time_now w of (now, w1) \<Rightarrow>
     case UpdateRunStatusIf rid StatusRunning StatusInterrupted now w1 of
       (Inl e, w2) \<Rightarrow> (Inl (TakeoverStore e), w2)
     | (Inr ok, w2) \<Rightarrow> if \<not> ok then (Inr False, w2) else (Inr True, snd (settle_bookkeeping lp rid w2)))"

definition settleOne :: "takeover_loop \<Rightarrow> string \<Rightarrow> (takeover_error + bool) manager_op" where
  "settleOne lp rid m w = (case DAcquire (takeover_key rid) (lp_node_id lp) (lp_ttl lp) (cm_locks m) w of
     (Inl e, lk, w1) \<Rightarrow>
       (if e = ErrLockBusy then Inr False else Inl (TakeoverLock e), m\<lparr>cm_locks := lk\<rparr>, w1)
   | (Inr l, lk, w1) \<Rightarrow>
       (case settle_locked lp rid w1 of (res, w2) \<Rightarrow>
          case DRelease (dk_key l) (dk_owner l) lk w2 of (_, lk', w3) \<Rightarrow> (res, m\<lparr>cm_locks := lk'\<rparr>, w3)))"

record takeover_result =
  tr_settled :: "string list"
  tr_skipped :: "string list"

fun settle_all :: "takeover_loop \<Rightarrow> string list \<Rightarrow> takeover_result \<Rightarrow> takeover_result manager_op" where
  "settle_all lp [] res m w = (res, m, w)"
| "settle_all lp (rid # rids) res m w = (case settleOne lp rid m w of
     (Inl e, m1, w1) \<Rightarrow> settle_all lp rids res m1 w1
   | (Inr True, m1, w1) \<Rightarrow> settle_all lp rids (res\<lparr>tr_settled := tr_settled res @ [rid]\<rparr>) m1 w1
   | (Inr False, m1, w1) \<Rightarrow> settle_all lp rids (res\<lparr>tr_skipped := tr_skipped res @ [rid]\<rparr>) m1 w1)"

definition no_takeover :: takeover_result where
  "no_takeover = \<lparr>tr_settled = [], tr_skipped = []\<rparr>"

definition TakeoverOnce :: "takeover_loop \<Rightarrow> (takeover_result \<times> takeover_error option) manager_op" where
  "TakeoverOnce lp m w =
    (case ManagerGetLeader m of
       None \<Rightarrow> ((no_takeover, None), m, w)
     | Some leader \<Rightarrow>
        if nd_id leader \<noteq> lp_node_id lp then ((no_takeover, None), m, w)
        else case ExpiredExecutions (lp_guard lp) w of
          (Inl e, w1) \<Rightarrow> ((no_takeover, Some (TakeoverScan e)), m, w1)
        | (Inr expired, w1) \<Rightarrow>
            (case OrphanedExecutions (lp_guard lp) DefaultOrphanGracePeriod w1 of
               (orphans, w2) \<Rightarrow>
                 let candidates = (case orphans of Inl _ \<Rightarrow> expired
                     | Inr os \<Rightarrow> expired @ filter (\<lambda>i. i \<notin> set expired) os)
                 in case settle_all lp candidates no_takeover m w2 of
                   (res, m3, w3) \<Rightarrow> ((res, None), m3, w3)))"

section \<open>What a settlement may touch\<close>

definition locks_only :: "tables \<Rightarrow> tables \<Rightarrow> bool" where
  "locks_only t t' \<longleftrightarrow> (\<exists>L n. t' = t\<lparr>t_cluster_locks := L, seq_fence := n\<rparr>)"

definition cleanup_only :: "string \<Rightarrow> tables \<Rightarrow> tables \<Rightarrow> bool" where
  "cleanup_only rid t t' \<longleftrightarrow> t_runs t' = t_runs t \<and> t_approvals t' = t_approvals t \<and> t_locks t' = t_locks t \<and>
     t_audits t' = t_audits t \<and> t_cluster_locks t' = t_cluster_locks t \<and> t_nodes t' = t_nodes t \<and>
     seq_epoch t' = seq_epoch t \<and> seq_fence t' = seq_fence t \<and>
     filter (\<lambda>s. step_run_id s \<noteq> rid) (t_steps t') = filter (\<lambda>s. step_run_id s \<noteq> rid) (t_steps t) \<and>
     filter (\<lambda>a. as_run_id a \<noteq> rid) (t_assignments t') = filter (\<lambda>a. as_run_id a \<noteq> rid) (t_assignments t) \<and>
     filter (\<lambda>x. xr_run_id x \<noteq> rid) (t_executions t') = filter (\<lambda>x. xr_run_id x \<noteq> rid) (t_executions t)"

lemma locks_only_refl: "reflp locks_only"
proof (rule reflpI)
  show "locks_only t t" for t
    unfolding locks_only_def by (intro exI [of _ "t_cluster_locks t"] exI [of _ "seq_fence t"]) simp
qed

lemma locks_only_trans: "transp locks_only"
proof (rule transpI)
  fix a b c assume "locks_only a b" and "locks_only b c"
  then obtain L n M k where "c = a\<lparr>t_cluster_locks := L, seq_fence := n\<rparr>\<lparr>t_cluster_locks := M, seq_fence := k\<rparr>"
    unfolding locks_only_def by blast
  then show "locks_only a c" unfolding locks_only_def by (intro exI [of _ M] exI [of _ k]) simp
qed

lemma cleanup_only_refl: "reflp (cleanup_only rid)"
  by (rule reflpI) (simp add: cleanup_only_def)

lemma cleanup_only_trans: "transp (cleanup_only rid)"
  by (rule transpI) (simp add: cleanup_only_def)

lemmas cleanup_trans = framed_trans [OF cleanup_only_trans]
lemmas cleanup_refl = framed_refl [OF cleanup_only_refl]

lemma filter_update_own:
  assumes "\<And>x. k (f x) = k x"
  shows "filter (\<lambda>x. k x \<noteq> i) (update_where (\<lambda>x. k x = i \<and> R x) f xs) = filter (\<lambda>x. k x \<noteq> i) xs"
  using assms by (induction xs) auto

lemma eq_cleanup: "framed (=) w w' \<Longrightarrow> framed (cleanup_only rid) w w'"
  by (simp add: framed_def cleanup_only_def)

lemma traces_cleanup: "framed traces_only w w' \<Longrightarrow> framed (cleanup_only rid) w w'"
  unfolding framed_def traces_only_def by (elim conjE exE) (simp add: cleanup_only_def)

lemma time_now_cleanup: "time_now w = (x, w') \<Longrightarrow> framed (cleanup_only rid) w w'"
  by (auto simp: time_now_def cleanup_refl)

lemma reflect_cleanup:
  assumes "undisturbed w"
  shows "framed (cleanup_only rid) w (reflect_assignment rid w)"
proof -
  obtain r w1 where g: "GetAssignment rid w = (r, w1)" by fastforce
  have f1: "framed (cleanup_only rid) w w1" using eq_cleanup framed_query [OF assms g [unfolded GetAssignment_def]] by blast
  obtain x w2 where u: "UpdateAssignmentState rid AssignmentStateInterrupted w1 = (x, w2)" by fastforce
  have und: "undisturbed (w1\<lparr>w_tick := Suc (w_tick w1)\<rparr>)" using framed_env(1) [OF f1] assms by (simp add: undisturbed_def)
  have "framed (cleanup_only rid) (w1\<lparr>w_tick := Suc (w_tick w1)\<rparr>) w2"
    using u unfolding UpdateAssignmentState_def update_assignment_def time_now_def prod.case
    by (rule framed_stmt [OF und _ cleanup_only_refl]) (simp add: cleanup_only_def filter_update_own)
  then have "framed (cleanup_only rid) w w2" using cleanup_trans [OF f1] cleanup_trans [OF cleanup_refl(2)] by blast
  then show ?thesis using f1 g u by (auto simp: reflect_assignment_def split: sum.splits option.splits)
qed

lemma bookkeeping_cleanup:
  assumes "undisturbed w" and "settle_bookkeeping lp rid w = (owner, w')"
  shows "framed (cleanup_only rid) w w'"
proof -
  define w1 where "w1 = reflect_assignment rid w"
  obtain a2 w2 where s2: "MarkNonTerminalSteps rid ''unknown'' w1 = (a2, w2)" by fastforce
  obtain nano w3 where s3: "time_now w2 = (nano, w3)" by fastforce
  obtain at w4 where s4: "time_now w3 = (at, w4)" by fastforce
  obtain a5 w5 where s5: "CreateTrace (takeover_trace rid nano at) w4 = (a5, w5)" by fastforce
  obtain a6 w6 where s6: "SealRunTraceChain (lp_crypto lp) rid w5 = (a6, w6)" by fastforce
  obtain a7 w7 where s7: "deleteExecRow (lp_guard lp) rid w6 = (a7, w7)" by fastforce
  have s8: "execOwner (lp_guard lp) rid w7 = (owner, w')"
    using assms(2) s2 s3 s4 s5 s6 s7 by (simp add: settle_bookkeeping_def w1_def)
  let ?F = "framed (cleanup_only rid)"
  have f1: "?F w w1" using reflect_cleanup [OF assms(1)] by (simp add: w1_def)
  have f2: "?F w1 w2"
    by (rule framed_stmt [OF _ s2 [unfolded MarkNonTerminalSteps_def] cleanup_only_refl])
      (use framed_env(1) [OF f1] assms(1) in \<open>auto simp: cleanup_only_def filter_update_own Let_def\<close>)
  have f4: "?F w w4" using cleanup_trans [OF cleanup_trans [OF cleanup_trans [OF f1 f2] time_now_cleanup [OF s3]] time_now_cleanup [OF s4]] .
  have u4: "undisturbed w4" using framed_env(1) [OF f4] assms(1) by simp
  have f5: "?F w4 w5"
    by (rule framed_stmt [OF u4 s5 [unfolded CreateTrace_def] cleanup_only_refl]) (simp add: cleanup_only_def)
  have u5: "undisturbed w5" using framed_env(1) [OF f5] u4 by simp
  have f6: "?F w5 w6" using traces_cleanup SealRunTraceChain_frame [OF u5 s6] by blast
  have u6: "undisturbed w6" using framed_env(1) [OF f6] u5 by simp
  have f7: "?F w6 w7"
  proof (cases "xg_db (lp_guard lp) \<and> rid \<noteq> ''''")
    case True
    obtain x y where d: "stmt (\<lambda>t. (Inr (), delete_stmt rid t)) w6 = (x, y)" by fastforce
    have "y = w7" using s7 d True by (auto simp: deleteExecRow_def DeleteExecution_def split: sum.splits)
    moreover have "?F w6 y"
      by (rule framed_stmt [OF u6 d cleanup_only_refl]) (simp add: cleanup_only_def delete_stmt_def conj_commute)
    ultimately show ?thesis by simp
  next
    case False
    then have "w7 = w6" using s7 by (auto simp: deleteExecRow_def DeleteExecution_def split: if_splits)
    then show ?thesis by (simp add: cleanup_refl)
  qed
  have u7: "undisturbed w7" using framed_env(1) [OF f7] u6 by simp
  have f8: "?F w7 w'"
  proof (cases "xg_db (lp_guard lp) \<and> rid \<noteq> ''''")
    case True
    obtain x y where d: "query (\<lambda>t. find (\<lambda>x. xr_run_id x = rid) (t_executions t)) w7 = (x, y)" by fastforce
    have "y = w'" using s8 d True by (auto simp: execOwner_def GetExecution_def split: sum.splits option.splits)
    then show ?thesis using eq_cleanup framed_query [OF u7 d] by blast
  next
    case False
    then have "w' = w7" using s8 by (auto simp: execOwner_def GetExecution_def split: if_splits)
    then show ?thesis by (simp add: cleanup_refl)
  qed
  show ?thesis using cleanup_trans [OF cleanup_trans [OF cleanup_trans [OF cleanup_trans [OF f4 f5] f6] f7] f8] .
qed

section \<open>The locks around a settlement\<close>

lemma DAcquire_frame:
  assumes "undisturbed w" and "DAcquire k p ttl m w = (r, m', w')"
  shows "framed locks_only w w'" and "dm_db m' = dm_db m" and "r = Inr l \<Longrightarrow> dk_key l = k \<and> dk_owner l = p"
proof -
  let ?f = "\<lambda>now t. case acquire_stmt k p ttl now t of (ro, t') \<Rightarrow> (Inr ro, t')"
  obtain x w1 where s: "stmt_at ?f w = (x :: store_error + cluster_lock_row option, w1)" by fastforce
  have "locks_only t (snd (?f now t))" for now t
    by (auto simp: locks_only_def acquire_stmt_def split: prod.splits)
  then have f1: "framed locks_only w w1"
    using framed_stmt [OF assms(1) s [unfolded stmt_at_def] locks_only_refl] by blast
  have "w' = w \<or> w' = w1" using assms(2) s
    by (auto simp: DAcquire_def Let_def split: if_splits sum.splits option.splits)
  then show "framed locks_only w w'" using f1 framed_refl(1) [OF locks_only_refl] by auto
  show "dm_db m' = dm_db m" using assms(2) s
    by (auto simp: DAcquire_def held_put_def Let_def split: if_splits sum.splits option.splits)
  show "r = Inr l \<Longrightarrow> dk_key l = k \<and> dk_owner l = p" using assms(2) s
    by (auto simp: DAcquire_def Let_def split: if_splits sum.splits option.splits)
qed

lemma DRelease_frame:
  assumes "undisturbed w" and "DRelease k p m w = (r, m', w')"
  shows "framed locks_only w w'" and "dm_db m' = dm_db m"
proof -
  let ?P = "\<lambda>x. cl_key x = k \<and> cl_owner x = p"
  let ?f = "\<lambda>t. (Inr (count_where ?P (t_cluster_locks t)), t\<lparr>t_cluster_locks := filter (\<lambda>x. \<not> ?P x) (t_cluster_locks t)\<rparr>)"
  obtain x w1 where s: "stmt ?f w = (x :: store_error + nat, w1)" by fastforce
  have "locks_only t (snd (?f t))" for t
    unfolding locks_only_def by (intro exI [of _ "filter (\<lambda>x. \<not> ?P x) (t_cluster_locks t)"] exI [of _ "seq_fence t"]) simp
  then have f1: "framed locks_only w w1" using framed_stmt [OF assms(1) s locks_only_refl] by blast
  have "w' = w \<or> w' = w1" using assms(2) s by (auto simp: DRelease_def Let_def split: if_splits sum.splits)
  then show "framed locks_only w w'" using f1 framed_refl(1) [OF locks_only_refl] by auto
  show "dm_db m' = dm_db m" using assms(2) s
    by (auto simp: DRelease_def held_drop_def Let_def split: if_splits sum.splits)
qed

section \<open>Settling under faults\<close>

definition settled_runs :: "string \<Rightarrow> time \<Rightarrow> run_row list \<Rightarrow> run_row list" where
  "settled_runs rid at rs = update_where (\<lambda>x. run_id x = rid \<and> run_status x = StatusRunning)
     (\<lambda>x. x\<lparr>run_status := StatusInterrupted, run_updated_at := at\<rparr>) rs"

definition is_running :: "string \<Rightarrow> tables \<Rightarrow> bool" where
  "is_running rid t \<longleftrightarrow> (\<exists>x\<in>set (t_runs t). run_id x = rid \<and> run_status x = StatusRunning)"

lemma settle_locked_outcome:
  assumes "undisturbed w" and "settle_locked lp rid w = (r, w')"
  shows "same_env w w'"
    and "r = Inr True \<Longrightarrow> is_running rid (w_tbl w) \<and>
       (\<exists>at. cleanup_only rid ((w_tbl w)\<lparr>t_runs := settled_runs rid at (t_runs (w_tbl w))\<rparr>) (w_tbl w'))"
    and "r \<noteq> Inr True \<Longrightarrow> w_tbl w' = w_tbl w"
proof -
  let ?w1 = "w\<lparr>w_tick := Suc (w_tick w)\<rparr>" and ?now = "w_clock w (w_tick w)" and ?t = "w_tbl w"
  obtain x w2 where u: "UpdateRunStatusIf rid StatusRunning StatusInterrupted ?now ?w1 = (x, w2)" by fastforce
  have und: "undisturbed ?w1" using assms(1) by (simp add: undisturbed_def)
  have env: "same_env w w2" using same_env_stmt [OF u [unfolded UpdateRunStatusIf_def]] by (simp add: same_env_def)
  have i: "w_intf ?w1 (w_tick ?w1) (w_tbl ?w1) = ?t" using assms(1) by (simp add: undisturbed_def)
  have cas: "(\<exists>e. x = Inl e) \<and> w_tbl w2 = ?t \<or> x = Inr (is_running rid ?t) \<and> w_tbl w2 = ?t\<lparr>t_runs := settled_runs rid ?now (t_runs ?t)\<rparr>"
    using u [unfolded UpdateRunStatusIf_def] unfolding stmt_def Let_def i
    by (auto simp: is_running_def settled_runs_def split: if_splits)
  consider (err) e where "x = Inl e" | (no) "x = Inr False" | (yes) "x = Inr True" by (cases x) auto
  then have "same_env w w' \<and> (r = Inr True \<longrightarrow> is_running rid ?t \<and>
       (\<exists>at. cleanup_only rid (?t\<lparr>t_runs := settled_runs rid at (t_runs ?t)\<rparr>) (w_tbl w'))) \<and> (r \<noteq> Inr True \<longrightarrow> w_tbl w' = ?t)"
  proof cases
    case err
    then have "r = Inl (TakeoverStore e)" "w' = w2" using assms(2) u by (simp_all add: settle_locked_def time_now_def)
    then show ?thesis using err cas env by auto
  next
    case no
    then have r: "r = Inr False" "w' = w2" using assms(2) u by (simp_all add: settle_locked_def time_now_def)
    have "\<not> is_running rid ?t" using no cas by auto
    then have "settled_runs rid ?now (t_runs ?t) = t_runs ?t"
      unfolding settled_runs_def is_running_def by (intro update_where_none) blast
    then show ?thesis using no cas env r by auto
  next
    case yes
    obtain o' where b: "settle_bookkeeping lp rid w2 = (o', w')" and r: "r = Inr True"
      using assms(2) u yes by (cases "settle_bookkeeping lp rid w2") (simp add: settle_locked_def time_now_def)
    have "undisturbed w2" using assms(1) env by (simp add: undisturbed_def same_env_def)
    from bookkeeping_cleanup [OF this b] have f: "same_env w2 w'" "cleanup_only rid (w_tbl w2) (w_tbl w')" by (simp_all add: framed_def)
    have "w_tbl w2 = ?t\<lparr>t_runs := settled_runs rid ?now (t_runs ?t)\<rparr>" "is_running rid ?t" using yes cas by auto
    with f same_env_trans [OF env f(1)] r show ?thesis by auto
  qed
  then show "same_env w w'" "r = Inr True \<Longrightarrow> is_running rid ?t \<and>
       (\<exists>at. cleanup_only rid (?t\<lparr>t_runs := settled_runs rid at (t_runs ?t)\<rparr>) (w_tbl w'))" "r \<noteq> Inr True \<Longrightarrow> w_tbl w' = ?t" by auto
qed

lemma settleOne_split:
  assumes "undisturbed w" and "settleOne lp rid m w = (r, m', w')"
  shows "(\<exists>e. r = (if e = ErrLockBusy then Inr False else Inl (TakeoverLock e)) \<and> framed locks_only w w') \<or>
    (\<exists>w1 w2. framed locks_only w w1 \<and> settle_locked lp rid w1 = (r, w2) \<and> framed locks_only w2 w')"
proof -
  obtain a lk w1 where a: "DAcquire (takeover_key rid) (lp_node_id lp) (lp_ttl lp) (cm_locks m) w = (a, lk, w1)" by (metis prod_cases3)
  have f1: "framed locks_only w w1" using DAcquire_frame(1) [OF assms(1) a] .
  show ?thesis
  proof (cases a)
    case (Inl e)
    then have "r = (if e = ErrLockBusy then Inr False else Inl (TakeoverLock e))" "w' = w1" using assms(2) a by (auto simp: settleOne_def)
    then show ?thesis using f1 by blast
  next
    case (Inr l)
    obtain x w2 where s: "settle_locked lp rid w1 = (x, w2)" by fastforce
    obtain y lk' w3 where d: "DRelease (dk_key l) (dk_owner l) lk w2 = (y, lk', w3)" by (metis prod_cases3)
    have rw: "r = x" "w' = w3" using assms(2) a Inr s d by (simp_all add: settleOne_def)
    have u1: "undisturbed w1" using framed_env(1) [OF f1] assms(1) by simp
    have "same_env w1 w2" using settle_locked_outcome(1) [OF u1 s] .
    then have "undisturbed w2" using u1 by (simp add: undisturbed_def same_env_def)
    from DRelease_frame(1) [OF this d] f1 s rw show ?thesis by blast
  qed
qed

text \<open>
  C33. A settlement is all or nothing for everybody else, whatever statement fails: if it does not
  report success, every table but the cluster locks is as before; if it does, the run was running, its row is
  interrupted and nothing else of it changed, and no row of another run, step, assignment or execution
  and no approval, host lock or audit entry changed.
\<close>

theorem takeover_all_or_nothing:
  assumes "undisturbed w" and "settleOne lp rid m w = (r, m', w')"
  shows "(if r = Inr True
     then is_running rid (w_tbl w) \<and>
       (\<exists>at. t_runs (w_tbl w') = settled_runs rid at (t_runs (w_tbl w))) \<and>
       filter (\<lambda>s. step_run_id s \<noteq> rid) (t_steps (w_tbl w')) = filter (\<lambda>s. step_run_id s \<noteq> rid) (t_steps (w_tbl w)) \<and>
       filter (\<lambda>a. as_run_id a \<noteq> rid) (t_assignments (w_tbl w')) = filter (\<lambda>a. as_run_id a \<noteq> rid) (t_assignments (w_tbl w)) \<and>
       filter (\<lambda>x. xr_run_id x \<noteq> rid) (t_executions (w_tbl w')) = filter (\<lambda>x. xr_run_id x \<noteq> rid) (t_executions (w_tbl w)) \<and>
       t_approvals (w_tbl w') = t_approvals (w_tbl w) \<and> t_locks (w_tbl w') = t_locks (w_tbl w) \<and> t_audits (w_tbl w') = t_audits (w_tbl w)
     else \<exists>L n. w_tbl w' = (w_tbl w)\<lparr>t_cluster_locks := L, seq_fence := n\<rparr>)"
  using settleOne_split [OF assms]
proof (elim disjE exE conjE)
  fix e assume r: "r = (if e = ErrLockBusy then Inr False else Inl (TakeoverLock e))" and f: "framed locks_only w w'"
  then have "r \<noteq> Inr True" by (auto split: if_splits)
  with f show ?thesis by (simp add: framed_def locks_only_def)
next
  fix w1 w2 assume f1: "framed locks_only w w1" and s: "settle_locked lp rid w1 = (r, w2)" and f2: "framed locks_only w2 w'"
  have u1: "undisturbed w1" using framed_env(1) [OF f1] assms(1) by simp
  obtain L n where t1: "w_tbl w1 = (w_tbl w)\<lparr>t_cluster_locks := L, seq_fence := n\<rparr>" using f1 unfolding framed_def locks_only_def by blast
  obtain L' n' where t2: "w_tbl w' = (w_tbl w2)\<lparr>t_cluster_locks := L', seq_fence := n'\<rparr>" using f2 unfolding framed_def locks_only_def by blast
  show ?thesis
  proof (cases "r = Inr True")
    case True
    from settle_locked_outcome(2) [OF u1 s True] obtain at
      where run: "is_running rid (w_tbl w1)"
        and c: "cleanup_only rid ((w_tbl w1)\<lparr>t_runs := settled_runs rid at (t_runs (w_tbl w1))\<rparr>) (w_tbl w2)" by blast
    have "is_running rid (w_tbl w)" using run by (simp add: is_running_def t1)
    moreover have "t_runs (w_tbl w') = settled_runs rid at (t_runs (w_tbl w))" using c by (simp add: cleanup_only_def t1 t2)
    ultimately show ?thesis using True c by (auto simp: cleanup_only_def t1 t2)
  next
    case False
    from settle_locked_outcome(3) [OF u1 s False] have "w_tbl w' = (w_tbl w)\<lparr>t_cluster_locks := L', seq_fence := n'\<rparr>"
      by (simp add: t1 t2)
    then show ?thesis using False by auto
  qed
qed

section \<open>Settling on a quiet store\<close>

lemma reflect_quiet:
  assumes "quiet w" and "key_unique as_run_id (t_assignments (w_tbl w))"
  shows "\<exists>at n. reflect_assignment rid w = w\<lparr>w_tick := n, w_tbl := (w_tbl w)\<lparr>t_assignments :=
     update_where (\<lambda>a. as_run_id a = rid \<and> as_state a \<in> {AssignStatePending, AssignmentStateExecuting})
       (\<lambda>a. a\<lparr>as_state := AssignmentStateInterrupted, as_updated_at := at\<rparr>) (t_assignments (w_tbl w))\<rparr>\<rparr> \<and> w_tick w \<le> n"
proof -
  let ?A = "t_assignments (w_tbl w)"
  let ?P = "\<lambda>a. as_run_id a = rid \<and> as_state a \<in> {AssignStatePending, AssignmentStateExecuting}"
  have g: "GetAssignment rid w = (Inr (find (\<lambda>a. as_run_id a = rid) ?A), w\<lparr>w_tick := Suc (w_tick w)\<rparr>)"
    using assms(1) by (simp add: GetAssignment_def query_quiet)
  show ?thesis
  proof (cases "\<exists>a\<in>set ?A. ?P a")
    case True
    then obtain a where a: "a \<in> set ?A" "?P a" by blast
    then have "find (\<lambda>a. as_run_id a = rid) ?A = Some a" using find_key_unique [OF assms(2), of a] by simp
    then show ?thesis using g a assms(1)
      by (auto simp: reflect_assignment_def UpdateAssignmentState_def update_assignment_def time_now_def stmt_quiet
          AssignStatePending_def AssignmentStateExecuting_def intro!: exI [of _ "w_clock w (Suc (w_tick w))"] exI [of _ "w_tick w + 3"])
  next
    case False
    then have "update_where ?P f ?A = ?A" for f by (intro update_where_none) blast
    moreover have "reflect_assignment rid w = w\<lparr>w_tick := Suc (w_tick w)\<rparr>"
    proof (cases "find (\<lambda>a. as_run_id a = rid) ?A")
      case None
      then show ?thesis using g by (simp add: reflect_assignment_def)
    next
      case (Some a)
      then have "a \<in> set ?A" "as_run_id a = rid" by (auto dest: find_key_Some)
      then show ?thesis using g Some False by (auto simp: reflect_assignment_def)
    qed
    ultimately show ?thesis by (intro exI [of _ 0] exI [of _ "Suc (w_tick w)"]) simp
  qed
qed

text \<open>The tables after the bookkeeping, and its owner for the log: the row it is read from is gone by then.\<close>

lemma bookkeeping_quiet:
  assumes "quiet w" and "key_unique as_run_id (t_assignments (w_tbl w))" and "xg_db (lp_guard lp)" and "rid \<noteq> ''''"
    and "settle_bookkeeping lp rid w = (owner, w')"
  shows "owner = '''' \<and> same_env w w' \<and> (\<exists>at T nano ts n. w_tick w \<le> n \<and>
     w_tbl w' = (w_tbl w)\<lparr>t_assignments := update_where (\<lambda>a. as_run_id a = rid \<and> as_state a \<in> {AssignStatePending, AssignmentStateExecuting})
         (\<lambda>a. a\<lparr>as_state := AssignmentStateInterrupted, as_updated_at := at\<rparr>) (t_assignments (w_tbl w)),
       t_steps := update_where (\<lambda>s. step_run_id s = rid \<and> step_status s \<in> {''running'', ''pending''}) (\<lambda>s. s\<lparr>step_status := ''unknown''\<rparr>) (t_steps (w_tbl w)),
       t_traces := T, t_executions := filter (\<lambda>x. xr_run_id x \<noteq> rid) (t_executions (w_tbl w))\<rparr> \<and>
     nano = w_clock w n \<and> ts = w_clock w (Suc n) \<and>
     (trace_ready rid w \<and> tr_intact (lp_crypto lp) '''' (traces_of rid w) \<and> rid \<in> run_id ` set (t_runs (w_tbl w)) \<and>
      tr_id (takeover_trace rid nano ts) \<notin> tr_id ` set (t_traces (w_tbl w)) \<and> (\<forall>x\<in>set (traces_of rid w). tr_timestamp x < ts) \<longrightarrow>
      (\<exists>t'. contentFields t' = contentFields (takeover_trace rid nano ts) \<and> traces_of rid w' = traces_of rid w @ [t'] \<and>
         tr_intact (lp_crypto lp) '''' (traces_of rid w') \<and> trace_ready rid w')))"
proof -
  let ?c = "lp_crypto lp"
  obtain at n where w1: "reflect_assignment rid w = w\<lparr>w_tick := n, w_tbl := (w_tbl w)\<lparr>t_assignments :=
     update_where (\<lambda>a. as_run_id a = rid \<and> as_state a \<in> {AssignStatePending, AssignmentStateExecuting})
       (\<lambda>a. a\<lparr>as_state := AssignmentStateInterrupted, as_updated_at := at\<rparr>) (t_assignments (w_tbl w))\<rparr>\<rparr>" "w_tick w \<le> n"
    using reflect_quiet [OF assms(1,2)] by blast
  define w1' where "w1' = reflect_assignment rid w"
  define w4 where "w4 = w1'\<lparr>w_tick := n + 3, w_tbl := (w_tbl w1')\<lparr>t_steps := update_where
     (\<lambda>s. step_run_id s = rid \<and> step_status s \<in> {''running'', ''pending''}) (\<lambda>s. s\<lparr>step_status := ''unknown''\<rparr>) (t_steps (w_tbl w))\<rparr>\<rparr>"
  let ?nano = "w_clock w (Suc n)" and ?ts = "w_clock w (Suc (Suc n))"
  let ?x = "takeover_trace rid ?nano ?ts"
  obtain a5 w5 where s5: "CreateTrace ?x w4 = (a5, w5)" by fastforce
  obtain a6 w6 where s6: "SealRunTraceChain ?c rid w5 = (a6, w6)" by fastforce
  have q4: "quiet w4" using assms(1) by (simp add: w4_def w1'_def w1)
  have m2: "snd (MarkNonTerminalSteps rid ''unknown'' w1') = w4\<lparr>w_tick := Suc n\<rparr>"
    using assms(1) by (simp add: MarkNonTerminalSteps_def stmt_quiet w4_def w1'_def w1 Let_def)
  have f5: "framed traces_only w4 w5"
    by (rule framed_stmt [OF quiet_undisturbed [OF q4] s5 [unfolded CreateTrace_def] traces_only_refl])
      (auto simp: reflpD [OF traces_only_refl], auto simp: traces_only_def)
  have q5: "quiet w5" using framed_env(2) [OF f5] q4 by simp
  have f6: "framed traces_only w5 w6" using SealRunTraceChain_frame [OF quiet_undisturbed [OF q5] s6] .
  have q6: "quiet w6" using framed_env(2) [OF f6] q5 by simp
  let ?w7 = "w6\<lparr>w_tbl := delete_stmt rid (w_tbl w6), w_tick := Suc (w_tick w6)\<rparr>"
  have s7: "snd (deleteExecRow (lp_guard lp) rid w6) = ?w7"
    using assms(3,4) q6 by (simp add: deleteExecRow_def DeleteExecution_def stmt_quiet)
  have gone: "find (\<lambda>x. xr_run_id x = rid) (filter (\<lambda>x. xr_run_id x \<noteq> rid) xs) = None" for xs :: "exec_row list"
    by (auto simp: find_None_iff)
  have s8: "execOwner (lp_guard lp) rid ?w7 = ('''', ?w7\<lparr>w_tick := Suc (Suc (w_tick w6))\<rparr>)"
    using assms(3,4) q6 gone by (simp add: execOwner_def GetExecution_def query_quiet delete_stmt_def)
  have w4: "w4\<lparr>w_tick := Suc (Suc (Suc n))\<rparr> = w4" "w_clock w4 = w_clock w"
    by (simp_all add: w4_def eval_nat_numeral) (simp add: w1'_def w1)
  have fin: "owner = ''''" "w' = ?w7\<lparr>w_tick := Suc (Suc (w_tick w6))\<rparr>"
    using assms(5) unfolding settle_bookkeeping_def w1'_def [symmetric] m2 Let_def time_now_def prod.case
    by (simp_all add: w4 s5 s6 s7 s8)
  have f46: "framed traces_only w4 w6" using traces_frame_trans [OF f5 f6] .
  obtain T where T: "w_tbl w6 = (w_tbl w4)\<lparr>t_traces := T\<rparr>" using f46 unfolding framed_def traces_only_def by blast
  have "same_env w w4" by (simp add: w4_def w1'_def w1 same_env_def)
  then have env: "same_env w w'" using same_env_trans f46 fin(2) by (auto simp: framed_def same_env_def)
  have tbl: "w_tbl w' = (w_tbl w)\<lparr>t_assignments := update_where (\<lambda>a. as_run_id a = rid \<and> as_state a \<in> {AssignStatePending, AssignmentStateExecuting})
         (\<lambda>a. a\<lparr>as_state := AssignmentStateInterrupted, as_updated_at := at\<rparr>) (t_assignments (w_tbl w)),
       t_steps := update_where (\<lambda>s. step_run_id s = rid \<and> step_status s \<in> {''running'', ''pending''}) (\<lambda>s. s\<lparr>step_status := ''unknown''\<rparr>) (t_steps (w_tbl w)),
       t_traces := T, t_executions := filter (\<lambda>x. xr_run_id x \<noteq> rid) (t_executions (w_tbl w))\<rparr>"
    by (simp add: fin T delete_stmt_def w4_def w1'_def w1)
  have chain: "\<exists>t'. contentFields t' = contentFields ?x \<and> traces_of rid w' = traces_of rid w @ [t'] \<and> tr_intact ?c '''' (traces_of rid w') \<and>
      trace_ready rid w'"
    if "trace_ready rid w" "tr_intact ?c '''' (traces_of rid w)" "rid \<in> run_id ` set (t_runs (w_tbl w))"
      "tr_id ?x \<notin> tr_id ` set (t_traces (w_tbl w))" "\<forall>x\<in>set (traces_of rid w). tr_timestamp x < ?ts"
  proof -
    have x: "tr_run_id ?x = rid" "tr_timestamp ?x = ?ts" "tr_curr_hash ?x = ''''" by (simp_all add: takeover_trace_def)
    have tr4: "t_traces (w_tbl w4) = t_traces (w_tbl w)" "t_runs (w_tbl w4) = t_runs (w_tbl w)" by (simp_all add: w4_def w1'_def w1)
    have w5: "w_tbl w5 = (w_tbl w4)\<lparr>t_traces := t_traces (w_tbl w) @ [?x]\<rparr>"
      using s5 q4 that(3,4) x(1) by (auto simp: CreateTrace_def stmt_quiet tr4)
    have rows: "traces_of rid w5 = traces_of rid w @ [?x]"
      using run_rows_snoc [OF that(4) x(1)] that(5) x(2) by (simp add: traces_of_def w5)
    have ready: "trace_ready rid w5" using that(1,4) q5 by (auto simp: trace_ready_def w5 key_unique_append)
    from SealRunTraceChain_snoc [OF ready rows that(2) x(3)] s6 obtain t' where t': "traces_become rid w5 (traces_of rid w @ [t']) w6"
        "contentFields t' = contentFields ?x" "tr_intact ?c '''' (traces_of rid w @ [t'])" by auto
    have "traces_of rid w' = traces_of rid w6" "trace_ready rid w' = trace_ready rid w6"
      by (simp_all add: fin traces_of_def trace_ready_def delete_stmt_def)
    then show ?thesis using t' traces_become_ready [OF t'(1) ready] by auto
  qed
  show ?thesis
    using fin(1) env tbl chain w1(2)
    by (intro conjI exI [of _ at] exI [of _ T] exI [of _ ?nano] exI [of _ ?ts] exI [of _ "Suc n"]) auto
qed

section \<open>One settlement on a quiet store\<close>

definition sweep_ready :: "takeover_loop \<Rightarrow> cluster_manager \<Rightarrow> world \<Rightarrow> bool" where
  "sweep_ready lp m w \<longleftrightarrow> quiet w \<and> dm_db (cm_locks m) \<and> xg_db (lp_guard lp) \<and> lp_node_id lp \<noteq> '''' \<and> 0 < lp_ttl lp \<and>
     key_unique as_run_id (t_assignments (w_tbl w)) \<and> (\<forall>rid. takeover_key rid \<notin> cl_key ` set (t_cluster_locks (w_tbl w)))"

lemma acquire_free_quiet:
  assumes "quiet w" and "dm_db m" and "k \<noteq> ''''" and "p \<noteq> ''''" and "0 < ttl" and "k \<notin> cl_key ` set (t_cluster_locks (w_tbl w))"
  shows "\<exists>l m' w' x n. DAcquire k p ttl m w = (Inr l, m', w') \<and> dk_key l = k \<and> dk_owner l = p \<and> dm_db m' \<and> same_env w w' \<and>
    w_tick w' = Suc (w_tick w) \<and> cl_key x = k \<and> cl_owner x = p \<and>
    w_tbl w' = (w_tbl w)\<lparr>t_cluster_locks := t_cluster_locks (w_tbl w) @ [x], seq_fence := n\<rparr>"
proof -
  let ?L = "t_cluster_locks (w_tbl w)" and ?n = "seq_fence (w_tbl w)" and ?now = "w_clock w (w_tick w)"
  from cl.claim_free [OF assms(6), of p ttl ?now ?n]
  obtain x where x: "acquire_rows k p ttl ?now (?L, ?n) = (Some x, ?L @ [x], ?n + 1)" "cl_key x = k" "cl_owner x = p" by blast
  let ?l = "\<lparr>dk_key = k, dk_owner = p, dk_ttl = ttl, dk_fence_token = cl_fence_token x, dk_acquired_at = cl_acquired_at x,
     dk_lease_expiry = cl_lease_expires x\<rparr>"
  let ?w' = "w\<lparr>w_tbl := (w_tbl w)\<lparr>t_cluster_locks := ?L @ [x], seq_fence := ?n + 1\<rparr>, w_tick := Suc (w_tick w)\<rparr>"
  have "DAcquire k p ttl m w = (Inr ?l, held_put ?l m, ?w')"
    using x(1) assms(1-5) by (simp add: DAcquire_def stmt_at_def stmt_quiet acquire_stmt_def Let_def)
  then show ?thesis using assms(2) x(2,3)
    by (intro exI [of _ ?l] exI [of _ "held_put ?l m"] exI [of _ ?w'] exI [of _ x] exI [of _ "?n + 1"]) (simp add: held_put_def same_env_def)
qed

lemma release_last_quiet:
  assumes "quiet w" and "dm_db m" and "k \<noteq> ''''" and "t_cluster_locks (w_tbl w) = L @ [x]" and "cl_key x = k" and "cl_owner x = p"
    and "k \<notin> cl_key ` set L"
  shows "\<exists>m' w'. DRelease k p m w = (Inr (), m', w') \<and> dm_db m' \<and> same_env w w' \<and> w_tbl w' = (w_tbl w)\<lparr>t_cluster_locks := L\<rparr>"
proof -
  have "filter (\<lambda>x. cl_key x = k \<longrightarrow> cl_owner x \<noteq> p) L = L" using assms(7) by (auto simp: filter_id_conv)
  then show ?thesis using assms(1-6) by (auto simp: DRelease_def stmt_quiet held_drop_def same_env_def Let_def count_where_def)
qed

lemma bookkeeping_tables:
  assumes "quiet w" and "key_unique as_run_id (t_assignments (w_tbl w))" and "xg_db (lp_guard lp)" and "rid \<noteq> ''''"
    and "settle_bookkeeping lp rid w = (owner, w')"
  shows "\<exists>at T. w_tbl w' = (w_tbl w)\<lparr>t_assignments := update_where (\<lambda>a. as_run_id a = rid \<and> as_state a \<in> {AssignStatePending, AssignmentStateExecuting})
         (\<lambda>a. a\<lparr>as_state := AssignmentStateInterrupted, as_updated_at := at\<rparr>) (t_assignments (w_tbl w)),
       t_steps := update_where (\<lambda>s. step_run_id s = rid \<and> step_status s \<in> {''running'', ''pending''}) (\<lambda>s. s\<lparr>step_status := ''unknown''\<rparr>) (t_steps (w_tbl w)),
       t_traces := T, t_executions := filter (\<lambda>x. xr_run_id x \<noteq> rid) (t_executions (w_tbl w))\<rparr>"
  using bookkeeping_quiet [OF assms] by (elim conjE exE) (intro exI, assumption)

text \<open>The run table and the execution table after one settlement, and what it hands to the next.\<close>

lemma settleOne_quiet:
  assumes "sweep_ready lp m w" and "rid \<noteq> ''''"
  shows "\<exists>m' w' w1 w2 o'. settleOne lp rid m w = (Inr (is_running rid (w_tbl w)), m', w') \<and> same_env w w' \<and> sweep_ready lp m' w' \<and>
    (if is_running rid (w_tbl w)
     then settle_bookkeeping lp rid w1 = (o', w2) \<and> quiet w1 \<and> w_clock w1 = w_clock w \<and> w_tick w \<le> w_tick w1 \<and>
       (\<exists>at L n. w_tbl w1 = (w_tbl w)\<lparr>t_cluster_locks := L, seq_fence := n, t_runs := settled_runs rid at (t_runs (w_tbl w))\<rparr>) \<and>
       (\<exists>n. w_tbl w' = (w_tbl w2)\<lparr>t_cluster_locks := t_cluster_locks (w_tbl w), seq_fence := n\<rparr>)
     else \<exists>n. w_tbl w' = (w_tbl w)\<lparr>seq_fence := n\<rparr>)"
proof -
  let ?t = "w_tbl w" and ?L = "t_cluster_locks (w_tbl w)" and ?k = "takeover_key rid"
  note rd = assms(1) [unfolded sweep_ready_def]
  have k: "?k \<noteq> ''''" "?k \<notin> cl_key ` set ?L" using rd by (auto simp: takeover_key_def)
  have q: "quiet w" "dm_db (cm_locks m)" "lp_node_id lp \<noteq> ''''" "0 < lp_ttl lp" "xg_db (lp_guard lp)" using rd by simp_all
  obtain l lk w1 x n where a: "DAcquire ?k (lp_node_id lp) (lp_ttl lp) (cm_locks m) w = (Inr l, lk, w1)" "dk_key l = ?k"
      "dk_owner l = lp_node_id lp" "dm_db lk" "same_env w w1" "w_tick w1 = Suc (w_tick w)" "cl_key x = ?k" "cl_owner x = lp_node_id lp"
      "w_tbl w1 = ?t\<lparr>t_cluster_locks := ?L @ [x], seq_fence := n\<rparr>"
    using acquire_free_quiet [OF q(1,2) k(1) q(3,4) k(2)] by (elim exE conjE) (rule that)
  have q1: "quiet w1" using q(1) a(5) unfolding quiet_def same_env_def by simp
  let ?w1 = "w1\<lparr>w_tick := Suc (w_tick w1)\<rparr>"
  let ?w2 = "w1\<lparr>w_tbl := (w_tbl w1)\<lparr>t_runs := settled_runs rid (w_clock w1 (w_tick w1)) (t_runs ?t)\<rparr>, w_tick := Suc (Suc (w_tick w1))\<rparr>"
  have cas: "UpdateRunStatusIf rid StatusRunning StatusInterrupted (w_clock w1 (w_tick w1)) ?w1 = (Inr (is_running rid ?t), ?w2)"
    using q1 by (simp add: UpdateRunStatusIf_def stmt_quiet is_running_def settled_runs_def a(9))
  obtain res w3 where s: "settle_locked lp rid w1 = (res, w3)" by fastforce
  have env3: "same_env w1 w3" using settle_locked_outcome(1) [OF quiet_undisturbed [OF q1] s] .
  have q3: "quiet w3" using q1 env3 unfolding quiet_def same_env_def by simp
  have fin: "\<exists>m' w'. settleOne lp rid m w = (res, m', w') \<and> dm_db (cm_locks m') \<and> same_env w w' \<and> w_tbl w' = (w_tbl w3)\<lparr>t_cluster_locks := ?L\<rparr>"
    if held: "t_cluster_locks (w_tbl w3) = ?L @ [x]"
  proof -
    obtain lk' w4 where "DRelease ?k (lp_node_id lp) lk w3 = (Inr (), lk', w4)" "dm_db lk'" "same_env w3 w4"
        "w_tbl w4 = (w_tbl w3)\<lparr>t_cluster_locks := ?L\<rparr>"
      using release_last_quiet [OF q3 a(4) k(1) held a(7,8) k(2)] by blast
    then show ?thesis using a(1-3) s same_env_trans [OF same_env_trans [OF a(5) env3]]
      by (intro exI [of _ "m\<lparr>cm_locks := lk'\<rparr>"] exI [of _ w4]) (simp add: settleOne_def)
  qed
  have ready: "sweep_ready lp m' w'" if "dm_db (cm_locks m')" "same_env w w'" "t_cluster_locks (w_tbl w') = ?L" "key_unique as_run_id (t_assignments (w_tbl w'))" for m' w'
  proof -
    have "quiet w'" using q(1) that(2) unfolding quiet_def same_env_def by simp
    then show ?thesis using rd that by (simp add: sweep_ready_def)
  qed
  show ?thesis
  proof (cases "is_running rid ?t")
    case False
    then have res: "res = Inr False" "w3 = ?w2" using s cas by (simp_all add: settle_locked_def time_now_def)
    have "settled_runs rid at (t_runs ?t) = t_runs ?t" for at
      unfolding settled_runs_def using False [unfolded is_running_def] by (intro update_where_none) blast
    then have t3: "w_tbl w3 = ?t\<lparr>t_cluster_locks := ?L @ [x], seq_fence := n\<rparr>" by (simp add: res a(9))
    obtain m' w' where f: "settleOne lp rid m w = (res, m', w')" "dm_db (cm_locks m')" "same_env w w'" "w_tbl w' = (w_tbl w3)\<lparr>t_cluster_locks := ?L\<rparr>"
      using fin t3 by auto
    then have "w_tbl w' = ?t\<lparr>seq_fence := n\<rparr>" by (simp add: t3)
    moreover have "sweep_ready lp m' w'" using ready [OF f(2,3)] calculation rd by simp
    ultimately show ?thesis using False f(1,3) res(1) by (intro exI [of _ m'] exI [of _ w']) auto
  next
    case True
    obtain o' where b: "settle_bookkeeping lp rid ?w2 = (o', w3)" and res: "res = Inr True"
      using s cas True by (cases "settle_bookkeeping lp rid ?w2") (simp add: settle_locked_def time_now_def)
    have q2: "quiet ?w2" "quiet ?w2 \<Longrightarrow> same_env ?w2 w3" using q1 env3 by (simp_all add: same_env_def)
    have c: "cleanup_only rid (w_tbl ?w2) (w_tbl w3)" using bookkeeping_cleanup [OF quiet_undisturbed [OF q2(1)] b] by (simp add: framed_def)
    have "key_unique as_run_id (t_assignments (w_tbl ?w2))" using rd by (simp add: a(9))
    from bookkeeping_tables [OF q2(1) this q(5) assms(2) b] have "key_unique as_run_id (t_assignments (w_tbl w3)) = key_unique as_run_id (t_assignments ?t)"
      by (elim exE) (simp add: a(9))
    then have as3: "key_unique as_run_id (t_assignments (w_tbl w3))" using rd by simp
    have L3: "t_cluster_locks (w_tbl w3) = ?L @ [x]" "seq_fence (w_tbl w3) = n" using c by (simp_all add: cleanup_only_def a(9))
    obtain m' w' where f: "settleOne lp rid m w = (res, m', w')" "dm_db (cm_locks m')" "same_env w w'" "w_tbl w' = (w_tbl w3)\<lparr>t_cluster_locks := ?L\<rparr>"
      using fin [OF L3(1)] by auto
    have "sweep_ready lp m' w'" by (rule ready [OF f(2,3)]) (use as3 in \<open>simp_all add: f(4)\<close>)
    moreover have "w_tbl w' = (w_tbl w3)\<lparr>t_cluster_locks := ?L, seq_fence := n\<rparr>" using L3(2) by (simp add: f(4))
    moreover have "w_tbl ?w2 = ?t\<lparr>t_cluster_locks := ?L @ [x], seq_fence := n, t_runs := settled_runs rid (w_clock w1 (w_tick w1)) (t_runs ?t)\<rparr>" by (simp add: a(9))
    moreover have "w_clock ?w2 = w_clock w" "w_tick w \<le> w_tick ?w2" using a(5,6) by (simp_all add: same_env_def)
    ultimately show ?thesis using True f(1,3) res b q2(1) by (intro exI [of _ m'] exI [of _ w'] exI [of _ ?w2] exI [of _ w3] exI [of _ o']) auto
  qed
qed

section \<open>What a settlement leaves\<close>

lemma is_running_settled: "is_running i (t\<lparr>t_runs := settled_runs rid at (t_runs t)\<rparr>) \<longleftrightarrow> is_running i t \<and> i \<noteq> rid"
  by (auto simp: is_running_def settled_runs_def set_update_where status_defs split: if_splits)

lemma is_running_cong: "t_runs t' = t_runs t \<Longrightarrow> is_running i t' = is_running i t"
  by (simp add: is_running_def)

lemma run_ids_settled: "run_id ` set (settled_runs rid at rs) = run_id ` set rs"
  unfolding settled_runs_def by (rule key_image_update_where) simp

text \<open>
  A running run is settled completely on a quiet store: its row is interrupted, no execution row is
  left so that every lease for it fails its ownership check, its unfinished steps are marked, an active
  assignment is interrupted, the takeover is the last entry of its trace, whose chain still
  verifies, and the takeover lock is free again. Nothing in it asks whether the lease had run out.
\<close>

theorem takeover_settles:
  assumes "sweep_ready lp m w" and "is_running rid (w_tbl w)" and "trace_ready rid w" and "tr_intact (lp_crypto lp) '''' (traces_of rid w)"
    and "\<And>nano ts. tr_id (takeover_trace rid nano ts) \<notin> tr_id ` set (t_traces (w_tbl w))"
    and "\<forall>x\<in>set (traces_of rid w). \<forall>n\<ge>w_tick w. tr_timestamp x < w_clock w n"
  shows "\<exists>m' w' t' res. settleOne lp rid m w = (Inr True, m', w') \<and>
    (\<exists>at. t_runs (w_tbl w') = settled_runs rid at (t_runs (w_tbl w))) \<and>
    t_executions (w_tbl w') = filter (\<lambda>x. xr_run_id x \<noteq> rid) (t_executions (w_tbl w)) \<and>
    (\<forall>l ttl. xl_run_id l = rid \<longrightarrow> isl (fst (Owns (lp_guard lp) l ttl w'))) \<and>
    (\<forall>s\<in>set (t_steps (w_tbl w')). step_run_id s = rid \<longrightarrow> step_status s \<noteq> ''running'' \<and> step_status s \<noteq> ''pending'') \<and>
    (\<forall>a\<in>set (t_assignments (w_tbl w')). as_run_id a = rid \<longrightarrow> as_state a \<noteq> AssignStatePending \<and> as_state a \<noteq> AssignmentStateExecuting) \<and>
    traces_of rid w' = traces_of rid w @ [t'] \<and> tr_event t' = EventTakeoverInterrupted \<and>
    fst (ChainVerify (lp_crypto lp) rid w') = Inr res \<and> vr_valid res \<and>
    t_cluster_locks (w_tbl w') = t_cluster_locks (w_tbl w)"
proof -
  let ?c = "lp_crypto lp"
  have rid: "rid \<noteq> ''''" using trace_readyD(3) [OF assms(3)] .
  from settleOne_quiet [OF assms(1) rid] assms(2) obtain m' w' w1 w2 o' at L n k
    where s: "settleOne lp rid m w = (Inr True, m', w')" "same_env w w'" and b: "settle_bookkeeping lp rid w1 = (o', w2)"
      and w1: "quiet w1" "w_clock w1 = w_clock w" "w_tick w \<le> w_tick w1"
        "w_tbl w1 = (w_tbl w)\<lparr>t_cluster_locks := L, seq_fence := n, t_runs := settled_runs rid at (t_runs (w_tbl w))\<rparr>"
      and w': "w_tbl w' = (w_tbl w2)\<lparr>t_cluster_locks := t_cluster_locks (w_tbl w), seq_fence := k\<rparr>"
    by (auto simp only: if_True)
  have g: "xg_db (lp_guard lp)" and q: "quiet w" using assms(1) by (simp_all add: sweep_ready_def)
  have u: "key_unique as_run_id (t_assignments (w_tbl w1))" using assms(1) by (simp add: w1(4) sweep_ready_def)
  have q': "quiet w'" using q s(2) unfolding quiet_def same_env_def by simp
  have tr: "traces_of rid w1 = traces_of rid w" "t_traces (w_tbl w1) = t_traces (w_tbl w)" by (simp_all add: traces_of_def w1(4))
  have ready: "trace_ready rid w1" using assms(3) w1(1) by (simp add: trace_ready_def tr(2))
  have known: "rid \<in> run_id ` set (t_runs (w_tbl w1))"
    using assms(2) by (auto simp: w1(4) run_ids_settled is_running_def)
  from bookkeeping_quiet [OF w1(1) u g rid b]
  obtain at' T nano ts j where t2: "w_tbl w2 = (w_tbl w1)\<lparr>t_assignments := update_where (\<lambda>a. as_run_id a = rid \<and> as_state a \<in> {AssignStatePending, AssignmentStateExecuting})
         (\<lambda>a. a\<lparr>as_state := AssignmentStateInterrupted, as_updated_at := at'\<rparr>) (t_assignments (w_tbl w1)),
       t_steps := update_where (\<lambda>s. step_run_id s = rid \<and> step_status s \<in> {''running'', ''pending''}) (\<lambda>s. s\<lparr>step_status := ''unknown''\<rparr>) (t_steps (w_tbl w1)),
       t_traces := T, t_executions := filter (\<lambda>x. xr_run_id x \<noteq> rid) (t_executions (w_tbl w1))\<rparr>"
    and j: "w_tick w1 \<le> j" "ts = w_clock w1 (Suc j)"
    and ch: "trace_ready rid w1 \<and> tr_intact ?c '''' (traces_of rid w1) \<and> rid \<in> run_id ` set (t_runs (w_tbl w1)) \<and>
      tr_id (takeover_trace rid nano ts) \<notin> tr_id ` set (t_traces (w_tbl w1)) \<and> (\<forall>x\<in>set (traces_of rid w1). tr_timestamp x < ts) \<longrightarrow>
      (\<exists>t'. contentFields t' = contentFields (takeover_trace rid nano ts) \<and> traces_of rid w2 = traces_of rid w1 @ [t'] \<and>
         tr_intact ?c '''' (traces_of rid w2) \<and> trace_ready rid w2)" by (elim conjE exE) (rule that)
  have late: "\<forall>x\<in>set (traces_of rid w1). tr_timestamp x < ts" using assms(6) w1(2,3) j by (auto simp: tr(1))
  from ch ready known assms(4,5) late obtain t' where t': "contentFields t' = contentFields (takeover_trace rid nano ts)"
      "traces_of rid w2 = traces_of rid w @ [t']" "tr_intact ?c '''' (traces_of rid w2)" "trace_ready rid w2" unfolding tr by blast
  have tw': "traces_of rid w' = traces_of rid w2" by (simp add: traces_of_def w')
  have rv: "trace_ready rid w'" using q' t'(4) by (simp add: trace_ready_def w')
  have v: "fst (ChainVerify ?c rid w') = Inr (trace_verdict ?c rid (traces_of rid w'))"
    using ChainVerify_quiet [OF rv] t'(2) tw' by simp
  have ok: "vr_valid (trace_verdict ?c rid (traces_of rid w'))" using t'(3) tw' by (simp add: trace_verdict_def intact_accepted)
  have ev: "tr_event t' = EventTakeoverInterrupted" using t'(1) by (simp add: contentFields_def takeover_trace_def)
  have ex: "t_executions (w_tbl w') = filter (\<lambda>x. xr_run_id x \<noteq> rid) (t_executions (w_tbl w))" by (simp add: w' t2 w1(4))
  have owns: "isl (fst (Owns (lp_guard lp) l ttl w'))" if "xl_run_id l = rid" for l ttl
    using that q' by (auto simp: Owns_def guard_check_def renew_def stmt_at_def stmt_quiet owns_stmt_def renew_stmt_def ex)
  have runs: "t_runs (w_tbl w') = settled_runs rid at (t_runs (w_tbl w))"
    and locks: "t_cluster_locks (w_tbl w') = t_cluster_locks (w_tbl w)" by (simp_all add: w' t2 w1(4))
  have steps: "\<forall>s\<in>set (t_steps (w_tbl w')). step_run_id s = rid \<longrightarrow> step_status s \<noteq> ''running'' \<and> step_status s \<noteq> ''pending''"
  proof
    fix s assume "s \<in> set (t_steps (w_tbl w'))"
    then have "s \<in> set (update_where (\<lambda>s. step_run_id s = rid \<and> step_status s \<in> {''running'', ''pending''}) (\<lambda>s. s\<lparr>step_status := ''unknown''\<rparr>) (t_steps (w_tbl w1)))"
      by (simp add: w' t2)
    then show "step_run_id s = rid \<longrightarrow> step_status s \<noteq> ''running'' \<and> step_status s \<noteq> ''pending''"
      by (cases rule: in_update_whereE) simp_all
  qed
  have asg: "\<forall>a\<in>set (t_assignments (w_tbl w')). as_run_id a = rid \<longrightarrow> as_state a \<noteq> AssignStatePending \<and> as_state a \<noteq> AssignmentStateExecuting"
  proof
    fix a assume "a \<in> set (t_assignments (w_tbl w'))"
    then have "a \<in> set (update_where (\<lambda>a. as_run_id a = rid \<and> as_state a \<in> {AssignStatePending, AssignmentStateExecuting})
         (\<lambda>a. a\<lparr>as_state := AssignmentStateInterrupted, as_updated_at := at'\<rparr>) (t_assignments (w_tbl w1)))" by (simp add: w' t2)
    then show "as_run_id a = rid \<longrightarrow> as_state a \<noteq> AssignStatePending \<and> as_state a \<noteq> AssignmentStateExecuting"
      by (cases rule: in_update_whereE) (simp_all add: AssignmentStateInterrupted_def AssignStatePending_def AssignmentStateExecuting_def)
  qed
  have rows: "traces_of rid w' = traces_of rid w @ [t']" using t'(2) tw' by simp
  show ?thesis
    by (intro exI [of _ m'] exI [of _ w'] exI [of _ t'] exI [of _ "trace_verdict ?c rid (traces_of rid w')"] conjI s(1) ex steps asg rows ev v ok locks)
      (use runs owns in blast)+
qed

section \<open>One sweep on a quiet store\<close>

text \<open>What one settlement does to the runs and the executions, and to nothing the next one needs.\<close>

lemma settleOne_effect:
  assumes "sweep_ready lp m w" and "rid \<noteq> ''''"
  shows "\<exists>m' w' at. settleOne lp rid m w = (Inr (is_running rid (w_tbl w)), m', w') \<and> sweep_ready lp m' w' \<and>
    t_runs (w_tbl w') = settled_runs rid at (t_runs (w_tbl w)) \<and>
    t_executions (w_tbl w') = filter (\<lambda>x. \<not> (xr_run_id x = rid \<and> is_running rid (w_tbl w))) (t_executions (w_tbl w))"
proof (cases "is_running rid (w_tbl w)")
  case True
  with settleOne_quiet [OF assms] obtain m' w' w1 w2 o' at L n k
    where s: "settleOne lp rid m w = (Inr True, m', w')" "sweep_ready lp m' w'" and b: "settle_bookkeeping lp rid w1 = (o', w2)" "quiet w1"
      and w1: "w_tbl w1 = (w_tbl w)\<lparr>t_cluster_locks := L, seq_fence := n, t_runs := settled_runs rid at (t_runs (w_tbl w))\<rparr>"
      and w': "w_tbl w' = (w_tbl w2)\<lparr>t_cluster_locks := t_cluster_locks (w_tbl w), seq_fence := k\<rparr>"
    by (auto simp only: if_True)
  have u: "key_unique as_run_id (t_assignments (w_tbl w1))" "xg_db (lp_guard lp)" using assms(1) by (simp_all add: w1 sweep_ready_def)
  from bookkeeping_tables [OF b(2) u assms(2) b(1)] have "t_runs (w_tbl w2) = t_runs (w_tbl w1)"
      "t_executions (w_tbl w2) = filter (\<lambda>x. xr_run_id x \<noteq> rid) (t_executions (w_tbl w1))" by (elim exE, simp)+
  then show ?thesis using True s w1 w' by (intro exI [of _ m'] exI [of _ w'] exI [of _ at]) simp
next
  case False
  with settleOne_quiet [OF assms] obtain m' w' n where s: "settleOne lp rid m w = (Inr False, m', w')" "sweep_ready lp m' w'"
      "w_tbl w' = (w_tbl w)\<lparr>seq_fence := n\<rparr>" by (auto simp only: if_False)
  have "settled_runs rid 0 (t_runs (w_tbl w)) = t_runs (w_tbl w)"
    unfolding settled_runs_def using False [unfolded is_running_def] by (intro update_where_none) blast
  then show ?thesis using False s by (intro exI [of _ m'] exI [of _ w'] exI [of _ 0]) simp
qed

lemma settle_all_quiet:
  assumes "sweep_ready lp m w" and "distinct rids" and "'''' \<notin> set rids"
  shows "\<exists>m' w'. settle_all lp rids res m w = (res\<lparr>tr_settled := tr_settled res @ filter (\<lambda>i. is_running i (w_tbl w)) rids,
       tr_skipped := tr_skipped res @ filter (\<lambda>i. \<not> is_running i (w_tbl w)) rids\<rparr>, m', w') \<and>
    (\<forall>i. is_running i (w_tbl w') \<longleftrightarrow> is_running i (w_tbl w) \<and> i \<notin> set rids) \<and>
    filter (\<lambda>r. run_id r \<notin> set rids) (t_runs (w_tbl w')) = filter (\<lambda>r. run_id r \<notin> set rids) (t_runs (w_tbl w)) \<and>
    t_executions (w_tbl w') = filter (\<lambda>x. \<not> (xr_run_id x \<in> set rids \<and> is_running (xr_run_id x) (w_tbl w))) (t_executions (w_tbl w))"
  using assms
proof (induction rids arbitrary: res m w)
  case Nil
  then show ?case by simp
next
  case (Cons rid rids)
  let ?run = "is_running rid (w_tbl w)"
  have ne: "rid \<noteq> ''''" using Cons.prems(3) by auto
  obtain m1 w1 at where s: "settleOne lp rid m w = (Inr ?run, m1, w1)" "sweep_ready lp m1 w1"
      "t_runs (w_tbl w1) = settled_runs rid at (t_runs (w_tbl w))"
      "t_executions (w_tbl w1) = filter (\<lambda>x. \<not> (xr_run_id x = rid \<and> ?run)) (t_executions (w_tbl w))"
    using settleOne_effect [OF Cons.prems(1) ne] by (elim exE conjE) (rule that)
  have run: "is_running i (w_tbl w1) \<longleftrightarrow> is_running i (w_tbl w) \<and> i \<noteq> rid" for i
    using is_running_settled [of i rid at "w_tbl w"] s(3) by (simp add: is_running_def)
  have others: "filter (\<lambda>i. is_running i (w_tbl w1)) rids = filter (\<lambda>i. is_running i (w_tbl w)) rids"
      "filter (\<lambda>i. \<not> is_running i (w_tbl w1)) rids = filter (\<lambda>i. \<not> is_running i (w_tbl w)) rids"
    using Cons.prems(2) run by (auto intro!: filter_cong)
  let ?res = "if ?run then res\<lparr>tr_settled := tr_settled res @ [rid]\<rparr> else res\<lparr>tr_skipped := tr_skipped res @ [rid]\<rparr>"
  obtain m' w' where r: "settle_all lp rids ?res m1 w1 = (?res\<lparr>tr_settled := tr_settled ?res @ filter (\<lambda>i. is_running i (w_tbl w1)) rids,
       tr_skipped := tr_skipped ?res @ filter (\<lambda>i. \<not> is_running i (w_tbl w1)) rids\<rparr>, m', w')"
      "\<forall>i. is_running i (w_tbl w') \<longleftrightarrow> is_running i (w_tbl w1) \<and> i \<notin> set rids"
      "filter (\<lambda>r. run_id r \<notin> set rids) (t_runs (w_tbl w')) = filter (\<lambda>r. run_id r \<notin> set rids) (t_runs (w_tbl w1))"
      "t_executions (w_tbl w') = filter (\<lambda>x. \<not> (xr_run_id x \<in> set rids \<and> is_running (xr_run_id x) (w_tbl w1))) (t_executions (w_tbl w1))"
    using Cons.IH [OF s(2), of ?res] Cons.prems(2,3) by auto
  have all: "settle_all lp (rid # rids) res m w = (res\<lparr>tr_settled := tr_settled res @ filter (\<lambda>i. is_running i (w_tbl w)) (rid # rids),
       tr_skipped := tr_skipped res @ filter (\<lambda>i. \<not> is_running i (w_tbl w)) (rid # rids)\<rparr>, m', w')"
    using s(1) r(1) others by (cases ?run) simp_all
  have "filter (\<lambda>r. run_id r \<notin> set (rid # rids)) (t_runs (w_tbl w')) =
      filter (\<lambda>r. run_id r \<noteq> rid) (filter (\<lambda>r. run_id r \<notin> set rids) (t_runs (w_tbl w')))" by (simp add: conj_commute)
  also have "\<dots> = filter (\<lambda>r. run_id r \<notin> set rids) (filter (\<lambda>r. run_id r \<noteq> rid) (settled_runs rid at (t_runs (w_tbl w))))"
    unfolding r(3) s(3) by (simp add: conj_commute)
  also have "\<dots> = filter (\<lambda>r. run_id r \<notin> set (rid # rids)) (t_runs (w_tbl w))"
    unfolding settled_runs_def by (simp add: filter_update_own conj_commute)
  finally have runs: "filter (\<lambda>r. run_id r \<notin> set (rid # rids)) (t_runs (w_tbl w')) = \<dots>" .
  have ex: "t_executions (w_tbl w') = filter (\<lambda>x. \<not> (xr_run_id x \<in> set (rid # rids) \<and> is_running (xr_run_id x) (w_tbl w))) (t_executions (w_tbl w))"
    unfolding r(4) s(4) filter_filter using Cons.prems(2) by (intro filter_cong refl) (auto simp: run)
  show ?case using all r(2) runs ex run by (intro exI [of _ m'] exI [of _ w']) auto
qed

definition dead_runs :: "time \<Rightarrow> time \<Rightarrow> tables \<Rightarrow> string list" where
  "dead_runs now1 now2 t = expired_ids now1 t @ filter (\<lambda>i. i \<notin> set (expired_ids now1 t)) (orphan_ids DefaultOrphanGracePeriod now2 t)"

lemma distinct_dead:
  assumes "key_unique xr_run_id (t_executions t)" and "key_unique run_id (t_runs t)"
  shows "distinct (dead_runs now1 now2 t)"
  using assms by (auto simp: dead_runs_def expired_ids_def orphan_ids_def key_unique_def distinct_map_filter)


text \<open>
  The settlement does not look at the lease again: a run whose execution row is live, because it was
  retried and registered anew after the scan that named it, is interrupted like a dead one, and the
  executor that passed its ownership check just before fails the next one.
\<close>

theorem live_lease_interrupted:
  assumes "sweep_ready lp m w" and "is_running (xr_run_id x) (w_tbl w)" and "xr_run_id x \<noteq> ''''" and "xr_owner x \<noteq> ''''" and "0 \<le> ttl"
    and "x \<in> set (t_executions (w_tbl w))" and "w_clock w (w_tick w) \<le> xr_lease_expires x"
  shows "fst (Owns (lp_guard lp) (lease_of x) ttl w) = Inr () \<and>
    (\<exists>m' w'. settleOne lp (xr_run_id x) m w = (Inr True, m', w') \<and> \<not> is_running (xr_run_id x) (w_tbl w') \<and>
       fst (Owns (lp_guard lp) (lease_of x) ttl w') = Inl ErrFencedOut)"
proof -
  let ?rid = "xr_run_id x" and ?g = "lp_guard lp"
  have q: "quiet w" "xg_db ?g" using assms(1) by (simp_all add: sweep_ready_def)
  have "fst (Owns ?g (lease_of x) ttl w) = Inr ()"
    using q assms(3-7) by (auto simp: Owns_def guard_check_def lease_of_def renew_def stmt_at_def stmt_quiet owns_stmt_def renew_stmt_def)
  moreover obtain m' w' at where s: "settleOne lp ?rid m w = (Inr True, m', w')" "sweep_ready lp m' w'"
      "t_runs (w_tbl w') = settled_runs ?rid at (t_runs (w_tbl w))"
      "t_executions (w_tbl w') = filter (\<lambda>y. \<not> (xr_run_id y = ?rid \<and> is_running ?rid (w_tbl w))) (t_executions (w_tbl w))"
    using settleOne_effect [OF assms(1,3)] assms(2) by (elim exE conjE) (metis that)
  have q': "quiet w'" using s(2) by (simp add: sweep_ready_def)
  have "\<not> is_running ?rid (w_tbl w')"
    using is_running_settled [of ?rid ?rid at "w_tbl w"] s(3) by (simp add: is_running_def)
  moreover have "fst (Owns ?g (lease_of x) ttl w') = Inl ErrFencedOut"
    using q q' assms(2-5) s(4)
    by (simp add: Owns_def guard_check_def lease_of_def renew_def stmt_at_def stmt_quiet owns_stmt_def renew_stmt_def)
  ultimately show ?thesis using s(1) by blast
qed

section \<open>Witnesses\<close>

definition demo_change :: "string \<Rightarrow> string \<Rightarrow> run_row" where
  "demo_change i st = \<lparr>run_id = i, run_workflow_name = ''wf'', run_template_name = '''', run_params = '''', run_plan_hash = ''h'',
     run_plan_json = '''', run_status = st, run_approval_status = '''', run_approval_level = '''', run_priority = '''',
     run_created_at = 0, run_updated_at = 0, run_creator = ''ann'', run_incident_id = '''', run_tenant_id = ''''\<rparr>"

definition demo_exec_row :: "string \<Rightarrow> time \<Rightarrow> exec_row" where
  "demo_exec_row i u = \<lparr>xr_run_id = i, xr_owner = ''b'', xr_epoch = 1, xr_registered_at = - minute, xr_lease_expires = u\<rparr>"

text \<open>\<open>r1\<close> lost its executor, \<open>r2\<close> is alive, \<open>r3\<close> ended but left its row.\<close>

definition demo_fleet :: tables where
  "demo_fleet = no_rows\<lparr>t_runs := [demo_change ''r1'' StatusRunning, demo_change ''r2'' StatusRunning, demo_change ''r3'' StatusCompleted],
     t_executions := [demo_exec_row ''r1'' (- second), demo_exec_row ''r2'' minute, demo_exec_row ''r3'' (- second)], seq_epoch := 1\<rparr>"

definition demo_loop :: takeover_loop where
  "demo_loop = NewLoop (NewExecutionGuard True) ''a'' demo_crypto"

definition demo_leader :: cluster_manager where
  "demo_leader = (demo_manager ''a'')\<lparr>cm_registry := \<lparr>nr_nodes = [demo_node ''a'' RoleMaster 0], nr_leader = ''a''\<rparr>\<rparr>"

lemma demo_sweep_ready: "sweep_ready demo_loop demo_leader (still_world demo_fleet)"
  by (simp add: sweep_ready_def demo_loop_def NewLoop_def demo_leader_def demo_manager_def NewClusterManager_def
      NewDistributedLockManager_def NewExecutionGuard_def demo_fleet_def no_rows_def)

lemma demo_fleet_running: "is_running i demo_fleet \<longleftrightarrow> i = ''r1'' \<or> i = ''r2''"
  by (auto simp: is_running_def demo_fleet_def demo_change_def status_defs)

theorem takeover_all_or_nothing_witness:
  "\<exists>m' w'. settleOne demo_loop ''r3'' demo_leader (still_world demo_fleet) = (Inr False, m', w') \<and>
     t_runs (w_tbl w') = t_runs demo_fleet"
proof -
  obtain m' w' at where s: "settleOne demo_loop ''r3'' demo_leader (still_world demo_fleet) = (Inr (is_running ''r3'' (w_tbl (still_world demo_fleet))), m', w')"
    using settleOne_effect [OF demo_sweep_ready, of "''r3''"] by auto
  then have s': "settleOne demo_loop ''r3'' demo_leader (still_world demo_fleet) = (Inr False, m', w')" by (simp add: demo_fleet_running)
  from takeover_all_or_nothing [OF quiet_undisturbed [OF quiet_still_world] s'] obtain L n
    where "w_tbl w' = demo_fleet\<lparr>t_cluster_locks := L, seq_fence := n\<rparr>" by auto
  with s' show ?thesis by auto
qed

theorem takeover_settles_witness:
  "\<exists>m' w' t'. settleOne demo_loop ''r1'' demo_leader (still_world demo_fleet) = (Inr True, m', w') \<and>
     traces_of ''r1'' w' = [t'] \<and> tr_event t' = EventTakeoverInterrupted"
proof -
  let ?w = "still_world demo_fleet"
  have none: "traces_of ''r1'' ?w = []" "t_traces (w_tbl ?w) = []" by (simp_all add: traces_of_def run_rows_def trace_order_def demo_fleet_def no_rows_def)
  have ready: "trace_ready ''r1'' ?w" by (simp add: trace_ready_def none(2) [simplified])
  have run: "is_running ''r1'' (w_tbl ?w)" by (simp add: demo_fleet_running)
  have "tr_intact (lp_crypto demo_loop) '''' (traces_of ''r1'' ?w)" by (simp add: none(1))
  from takeover_settles [OF demo_sweep_ready run ready this] none obtain m' w' t'
    where "settleOne demo_loop ''r1'' demo_leader ?w = (Inr True, m', w')" "traces_of ''r1'' w' = [t']" "tr_event t' = EventTakeoverInterrupted"
    by auto
  then show ?thesis by blast
qed


theorem live_lease_interrupted_witness:
  "\<exists>m' w'. settleOne demo_loop ''r2'' demo_leader (still_world demo_fleet) = (Inr True, m', w') \<and>
     fst (Owns (NewExecutionGuard True) (lease_of (demo_exec_row ''r2'' minute)) minute w') = Inl ErrFencedOut"
proof -
  let ?x = "demo_exec_row ''r2'' minute" and ?w = "still_world demo_fleet"
  have x: "is_running (xr_run_id ?x) (w_tbl ?w)" "xr_run_id ?x \<noteq> ''''" "xr_owner ?x \<noteq> ''''" "0 \<le> minute" "?x \<in> set (t_executions (w_tbl ?w))"
      "w_clock ?w (w_tick ?w) \<le> xr_lease_expires ?x"
    by (simp_all add: demo_exec_row_def demo_fleet_running) (simp add: demo_fleet_def demo_exec_row_def)
  from live_lease_interrupted [OF demo_sweep_ready x] show ?thesis
    by (simp add: demo_exec_row_def demo_loop_def NewLoop_def) blast
qed

end
