(* ===== verification/Role_Tree.thy ===== *)
theory Role_Tree
  imports Prelude "HOL-Library.Finite_Map"
begin

text \<open>
  \<^verbatim>\<open>internal/permission/role_tree.go\<close>: roles with at most one parent each, what a role inherits, and
  the file the tree is kept in. A Go map is a finite map, a \<^verbatim>\<open>map[string]bool\<close> whose values are only
  ever \<^verbatim>\<open>true\<close> is a finite set. Go iterates a map in no particular order; where the code does, the
  model takes the keys in ascending order, and the results do not depend on it.
\<close>

section \<open>The tree\<close>

record role_tree =
  rt_parent :: "(string, string) fmap"
  rt_children :: "(string, string fset) fmap"
  rt_perms :: "(string, string fset) fmap"

datatype role_error =
    ErrEmptyRole
  | ErrUnknownRole string
  | ErrCycleDetected string string
  | ErrSelfParent
  | ErrUndeclaredParent string string

definition NewRoleTree :: role_tree where
  "NewRoleTree = \<lparr>rt_parent = fmempty, rt_children = fmempty, rt_perms = fmempty\<rparr>"

text \<open>Reading an absent key of a Go map gives the zero value.\<close>

definition parent_of :: "role_tree \<Rightarrow> string \<Rightarrow> string" where
  "parent_of t r = (case fmlookup (rt_parent t) r of None \<Rightarrow> '''' | Some p \<Rightarrow> p)"

definition set_at :: "(string, string fset) fmap \<Rightarrow> string \<Rightarrow> string fset" where
  "set_at m r = (case fmlookup m r of None \<Rightarrow> {||} | Some s \<Rightarrow> s)"

fun reachable_loop :: "nat \<Rightarrow> (string, string) fmap \<Rightarrow> string \<Rightarrow> string \<Rightarrow> bool" where
  "reachable_loop 0 parent cur target = False"
| "reachable_loop (Suc n) parent cur target =
     (if cur = target then True
      else case fmlookup parent cur of
        None \<Rightarrow> False
      | Some nxt \<Rightarrow> if nxt = '''' then False else reachable_loop n parent nxt target)"

definition reachable :: "(string, string) fmap \<Rightarrow> string \<Rightarrow> string \<Rightarrow> bool" where
  "reachable parent start target = reachable_loop (fcard (fmdom parent) + 1) parent start target"

text \<open>The entry of a set-valued map, created when it is missing.\<close>

definition ensure :: "string \<Rightarrow> (string, string fset) fmap \<Rightarrow> (string, string fset) fmap" where
  "ensure r m = (case fmlookup m r of None \<Rightarrow> fmupd r {||} m | Some _ \<Rightarrow> m)"

definition AddRole :: "string \<Rightarrow> string \<Rightarrow> role_tree \<Rightarrow> (role_error + unit) \<times> role_tree" where
  "AddRole name parent t =
     (if name = '''' then (Inl ErrEmptyRole, t)
      else if parent \<noteq> '''' \<and> name = parent then (Inl ErrSelfParent, t)
      else if fmlookup (rt_parent t) name = Some parent then (Inr (), t)
      else if parent \<noteq> '''' \<and> reachable (rt_parent t) parent name
        then (Inl (ErrCycleDetected name parent), t)
      else
        let kids = (case fmlookup (rt_parent t) name of
              None \<Rightarrow> rt_children t
            | Some old \<Rightarrow> if old = '''' then rt_children t
                else case fmlookup (rt_children t) old of
                  None \<Rightarrow> rt_children t
                | Some s \<Rightarrow> fmupd old (s |-| {|name|}) (rt_children t));
            kids' = (if parent = '''' then kids else fmupd parent (finsert name (set_at kids parent)) kids);
            perms = (if parent = '''' then rt_perms t else ensure parent (rt_perms t))
        in (Inr (), \<lparr>rt_parent = fmupd name parent (rt_parent t), rt_children = kids',
              rt_perms = ensure name perms\<rparr>))"

definition HasRole :: "role_tree \<Rightarrow> string \<Rightarrow> bool" where
  "HasRole t name \<longleftrightarrow> name |\<in>| fmdom (rt_perms t)"

definition Roles :: "role_tree \<Rightarrow> string list" where
  "Roles t = sorted_list_of_fset (fmdom (rt_perms t))"

definition Parent :: "role_tree \<Rightarrow> string \<Rightarrow> role_error + string" where
  "Parent t name = (if HasRole t name then Inr (parent_of t name) else Inl (ErrUnknownRole name))"

definition Children :: "role_tree \<Rightarrow> string \<Rightarrow> role_error + string list" where
  "Children t name = (if HasRole t name then Inr (sorted_list_of_fset (set_at (rt_children t) name))
     else Inl (ErrUnknownRole name))"

text \<open>The walk up to the root; it stops at a role it has seen.\<close>

function ancestors_loop :: "(string, string) fmap \<Rightarrow> string \<Rightarrow> string fset \<Rightarrow> string fset" where
  "ancestors_loop parent cur seen =
     (if cur = '''' \<or> cur |\<in>| seen then seen
      else case fmlookup parent cur of
        None \<Rightarrow> finsert cur seen
      | Some nxt \<Rightarrow> ancestors_loop parent nxt (finsert cur seen))"
  by auto
termination
proof (relation "measure (\<lambda>(m, cur, seen). card (insert cur (fmran' m) - fset seen))")
  fix m :: "(string, string) fmap" and cur seen nxt
  assume "\<not> (cur = '''' \<or> cur |\<in>| seen)" and "fmlookup m cur = Some nxt"
  then have "insert nxt (fmran' m) - fset (finsert cur seen) \<subset> insert cur (fmran' m) - fset seen"
    by (auto simp: fmran'I)
  moreover have "finite (insert cur (fmran' m) - fset seen)" by (simp add: fmran'_alt_def)
  ultimately show "((m, nxt, finsert cur seen), m, cur, seen) \<in>
      measure (\<lambda>(m, cur, seen). card (insert cur (fmran' m) - fset seen))"
    by (simp add: psubset_card_mono)
qed simp

definition GetAncestors :: "role_tree \<Rightarrow> string \<Rightarrow> role_error + string list" where
  "GetAncestors t name = (if HasRole t name
     then Inr (sorted_list_of_fset (ancestors_loop (rt_parent t) (parent_of t name) {||}))
     else Inl (ErrUnknownRole name))"

text \<open>The breadth-first walk down.\<close>

function descend_loop :: "(string, string fset) fmap \<Rightarrow> string list \<Rightarrow> string fset \<Rightarrow> string fset" where
  "descend_loop m [] seen = seen"
| "descend_loop m (cur # queue) seen =
     (let fresh = set_at m cur |-| seen
      in descend_loop m (queue @ sorted_list_of_fset fresh) (seen |\<union>| fresh))"
  by pat_completeness auto
termination
proof (relation "measures [\<lambda>(m, q, seen). card (\<Union> (fset ` fmran' m) - fset seen), \<lambda>(m, q, seen). length q]")
  fix m :: "(string, string fset) fmap" and cur queue seen fresh
  assume fresh: "fresh = set_at m cur |-| seen"
  let ?all = "\<Union> (fset ` fmran' m)"
  have fin: "finite (?all - fset seen)" by (simp add: fmran'_alt_def)
  show "((m, queue @ sorted_list_of_fset fresh, seen |\<union>| fresh), m, cur # queue, seen) \<in>
      measures [\<lambda>(m, q, seen). card (\<Union> (fset ` fmran' m) - fset seen), \<lambda>(m, q, seen). length q]"
  proof (cases "fresh = {||}")
    case True
    then show ?thesis by (simp add: sorted_list_of_fset.rep_eq)
  next
    case False
    then obtain x where x: "x |\<in>| fresh" by auto
    then obtain s where "fmlookup m cur = Some s" "x |\<in>| s" "x |\<notin>| seen"
      unfolding fresh set_at_def by (auto split: option.splits)
    then have "x \<in> ?all - fset seen" by (auto intro: fmran'I)
    then have "?all - fset (seen |\<union>| fresh) \<subset> ?all - fset seen" using x by auto
    then show ?thesis using psubset_card_mono [OF fin] by simp
  qed
qed simp

definition GetDescendants :: "role_tree \<Rightarrow> string \<Rightarrow> role_error + string list" where
  "GetDescendants t name = (if HasRole t name
     then Inr (sorted_list_of_fset (descend_loop (rt_children t) [name] {||}))
     else Inl (ErrUnknownRole name))"

definition GrantPermission :: "string \<Rightarrow> string list \<Rightarrow> role_tree \<Rightarrow> (role_error + unit) \<times> role_tree" where
  "GrantPermission role actions t =
     (if role = '''' then (Inl ErrEmptyRole, t)
      else (Inr (), t\<lparr>rt_perms := fmupd role
             (set_at (rt_perms t) role |\<union>| fset_of_list (filter (\<lambda>a. a \<noteq> '''') actions)) (rt_perms t)\<rparr>))"

definition RevokePermission :: "string \<Rightarrow> string list \<Rightarrow> role_tree \<Rightarrow> (role_error + unit) \<times> role_tree" where
  "RevokePermission role actions t =
     (if role = '''' then (Inl ErrEmptyRole, t)
      else case fmlookup (rt_perms t) role of
        None \<Rightarrow> (Inl (ErrUnknownRole role), t)
      | Some s \<Rightarrow> (Inr (), t\<lparr>rt_perms := fmupd role (s |-| fset_of_list actions) (rt_perms t)\<rparr>))"

definition DirectPermissions :: "role_tree \<Rightarrow> string \<Rightarrow> role_error + string list" where
  "DirectPermissions t role = (case fmlookup (rt_perms t) role of
     None \<Rightarrow> Inl (ErrUnknownRole role) | Some s \<Rightarrow> Inr (sorted_list_of_fset s))"

fun effective_loop :: "nat \<Rightarrow> role_tree \<Rightarrow> string \<Rightarrow> string fset \<Rightarrow> string fset" where
  "effective_loop 0 t cur merged = merged"
| "effective_loop (Suc n) t cur merged =
     (let merged' = merged |\<union>| set_at (rt_perms t) cur in
      case fmlookup (rt_parent t) cur of
        None \<Rightarrow> merged'
      | Some nxt \<Rightarrow> if nxt = '''' then merged' else effective_loop n t nxt merged')"

definition EffectivePermissions :: "role_tree \<Rightarrow> string \<Rightarrow> role_error + string list" where
  "EffectivePermissions t role = (if HasRole t role
     then Inr (sorted_list_of_fset (effective_loop (fcard (fmdom (rt_parent t)) + 1) t role {||}))
     else Inl (ErrUnknownRole role))"

text \<open>Removal hands the children to the removed role's parent.\<close>

definition reparent :: "string \<Rightarrow> string \<Rightarrow> role_tree \<Rightarrow> role_tree" where
  "reparent parent child t = t\<lparr>rt_parent := fmupd child parent (rt_parent t),
     rt_children := (if parent = '''' then rt_children t
        else fmupd parent (finsert child (set_at (rt_children t) parent)) (rt_children t))\<rparr>"

definition RemoveRole :: "string \<Rightarrow> role_tree \<Rightarrow> (role_error + unit) \<times> role_tree" where
  "RemoveRole name t =
     (if \<not> HasRole t name then (Inl (ErrUnknownRole name), t)
      else
        let parent = parent_of t name;
            t1 = fold (reparent parent) (sorted_list_of_fset (set_at (rt_children t) name)) t;
            kids = fmdrop name (rt_children t1);
            kids' = (if parent = '''' then kids
               else case fmlookup kids parent of None \<Rightarrow> kids
                 | Some s \<Rightarrow> fmupd parent (s |-| {|name|}) kids)
        in (Inr (), \<lparr>rt_parent = fmdrop name (rt_parent t1), rt_children = kids',
              rt_perms = fmdrop name (rt_perms t1)\<rparr>))"

section \<open>The file of the tree\<close>

text \<open>An entry of \<^verbatim>\<open>roles.yaml\<close>; reading and writing the YAML text itself is the library's.\<close>

record role_entry =
  re_name :: string
  re_parent :: string
  re_permissions :: "string list"

definition SaveToYAML :: "role_tree \<Rightarrow> role_entry list" where
  "SaveToYAML t = map (\<lambda>r. \<lparr>re_name = r, re_parent = parent_of t r,
     re_permissions = sorted_list_of_fset (set_at (rt_perms t) r)\<rparr>) (Roles t)"

text \<open>
  One pass over the entries: those whose parent is there already are added. A load that fails has
  filled the tree in part; its callers drop the tree with the error.
\<close>

definition add_entry :: "role_entry \<Rightarrow> role_tree \<Rightarrow> role_error + role_tree" where
  "add_entry r t = (case AddRole (re_name r) (re_parent r) t of
     (Inl e, _) \<Rightarrow> Inl e
   | (Inr _, t1) \<Rightarrow> if re_permissions r = [] then Inr t1
       else (case GrantPermission (re_name r) (re_permissions r) t1 of
          (Inl e, _) \<Rightarrow> Inl e | (Inr _, t2) \<Rightarrow> Inr t2))"

fun load_pass :: "role_entry list \<Rightarrow> string fset \<Rightarrow> bool \<Rightarrow> role_tree \<Rightarrow> role_error + (string fset \<times> bool \<times> role_tree)" where
  "load_pass [] added progress t = Inr (added, progress, t)"
| "load_pass (r # rs) added progress t =
     (if re_name r |\<in>| added then load_pass rs added progress t
      else if re_parent r \<noteq> '''' \<and> re_parent r |\<notin>| added then load_pass rs added progress t
      else case add_entry r t of
        Inl e \<Rightarrow> Inl e
      | Inr t' \<Rightarrow> load_pass rs (finsert (re_name r) added) True t')"

fun load_passes :: "nat \<Rightarrow> role_entry list \<Rightarrow> string fset \<Rightarrow> role_tree \<Rightarrow> role_error + (string fset \<times> role_tree)" where
  "load_passes 0 rs added t = Inr (added, t)"
| "load_passes (Suc n) rs added t =
     (case load_pass rs added False t of
        Inl e \<Rightarrow> Inl e
      | Inr (added', progress, t') \<Rightarrow> if progress then load_passes n rs added' t' else Inr (added', t'))"

definition LoadFromYAML :: "role_entry list \<Rightarrow> role_tree \<Rightarrow> role_error + role_tree" where
  "LoadFromYAML rs t = (case load_passes (length rs + 1) rs {||} t of
     Inl e \<Rightarrow> Inl e
   | Inr (added, t') \<Rightarrow> (case find (\<lambda>r. re_name r |\<notin>| added) rs of
        None \<Rightarrow> Inr t'
      | Some r \<Rightarrow> Inl (ErrUndeclaredParent (re_name r) (re_parent r))))"

section \<open>What the tree means\<close>

definition edges :: "(string, string) fmap \<Rightarrow> (string \<times> string) set" where
  "edges m = {(c, p). fmlookup m c = Some p \<and> p \<noteq> ''''}"

abbreviation up :: "role_tree \<Rightarrow> (string \<times> string) set" where
  "up t \<equiv> edges (rt_parent t)"

definition role_tree_ok :: "role_tree \<Rightarrow> bool" where
  "role_tree_ok t \<longleftrightarrow> acyclic (up t) \<and>
     (\<forall>c p. c |\<in>| set_at (rt_children t) p \<longleftrightarrow> (c, p) \<in> up t) \<and>
     fmdom (rt_parent t) |\<subseteq>| fmdom (rt_perms t) \<and> (\<forall>(c, p)\<in>up t. p |\<in>| fmdom (rt_perms t)) \<and>
     '''' |\<notin>| fmdom (rt_perms t) \<and> (\<forall>r. '''' |\<notin>| set_at (rt_perms t) r)"

lemma in_edges: "(c, p) \<in> edges m \<longleftrightarrow> fmlookup m c = Some p \<and> p \<noteq> ''''"
  by (simp add: edges_def)

lemma edges_single: "(c, p) \<in> edges m \<Longrightarrow> (c, q) \<in> edges m \<Longrightarrow> p = q"
  by (simp add: in_edges)

lemma edges_sub: "edges m \<subseteq> (\<lambda>c. (c, the (fmlookup m c))) ` fset (fmdom m)"
  by (auto simp: in_edges image_iff fmlookup_dom_iff)

lemma finite_edges [simp]: "finite (edges m)"
  by (rule finite_subset [OF edges_sub]) simp

lemma card_edges: "card (edges m) \<le> fcard (fmdom m)"
proof -
  have "card (edges m) \<le> card ((\<lambda>c. (c, the (fmlookup m c))) ` fset (fmdom m))"
    by (rule card_mono [OF _ edges_sub]) simp
  also have "\<dots> \<le> card (fset (fmdom m))" by (rule card_image_le) simp
  finally show ?thesis by (simp add: fcard.rep_eq)
qed

text \<open>Walking up as often as there are entries reaches every ancestor.\<close>

lemma walk_bound: "(\<exists>k<Suc (fcard (fmdom m)). (x, y) \<in> edges m ^^ k) \<longleftrightarrow> (x, y) \<in> (edges m)\<^sup>*"
proof
  assume "(x, y) \<in> (edges m)\<^sup>*"
  then obtain k where "k \<le> card (edges m)" "(x, y) \<in> edges m ^^ k"
    using rtrancl_finite_eq_relpow [OF finite_edges, of m] by auto
  then show "\<exists>k<Suc (fcard (fmdom m)). (x, y) \<in> edges m ^^ k"
    using card_edges [of m] by (intro exI [of _ k]) simp
qed (auto intro: relpow_imp_rtrancl)

lemma step_up:
  "(\<exists>k<Suc n. (x, y) \<in> edges m ^^ k) \<longleftrightarrow>
   x = y \<or> (\<exists>p. fmlookup m x = Some p \<and> p \<noteq> '''' \<and> (\<exists>k<n. (p, y) \<in> edges m ^^ k))"
proof -
  have "(\<exists>k<Suc n. (x, y) \<in> edges m ^^ k) \<longleftrightarrow> x = y \<or> (\<exists>k<n. (x, y) \<in> edges m ^^ Suc k)"
    by (auto simp: less_Suc_eq_0_disj simp del: relpow.simps(2))
  also have "\<dots> \<longleftrightarrow> x = y \<or> (\<exists>p. (x, p) \<in> edges m \<and> (\<exists>k<n. (p, y) \<in> edges m ^^ k))"
    unfolding relpow.simps relpow_commute [symmetric] by blast
  finally show ?thesis by (simp add: in_edges)
qed

lemma reachable_loop_iff: "reachable_loop n m x y \<longleftrightarrow> (\<exists>k<n. (x, y) \<in> edges m ^^ k)"
proof (induction n arbitrary: x)
  case (Suc n)
  then show ?case unfolding step_up by (auto split: option.splits)
qed simp

lemma reachable_iff: "reachable m x y \<longleftrightarrow> (x, y) \<in> (edges m)\<^sup>*"
  unfolding reachable_def reachable_loop_iff Suc_eq_plus1 [symmetric] walk_bound ..

lemma effective_loop_iff:
  "a |\<in>| effective_loop n t cur merged \<longleftrightarrow>
   a |\<in>| merged \<or> (\<exists>r. (\<exists>k<n. (cur, r) \<in> up t ^^ k) \<and> a |\<in>| set_at (rt_perms t) r)"
proof (induction n arbitrary: cur merged)
  case (Suc n)
  then show ?case unfolding step_up by (auto simp: Let_def split: option.splits)
qed simp

definition effective :: "role_tree \<Rightarrow> string \<Rightarrow> string set" where
  "effective t r = {a. \<exists>q. (r, q) \<in> (up t)\<^sup>* \<and> a |\<in>| set_at (rt_perms t) q}"

lemma effective_walk: "fset (effective_loop (fcard (fmdom (rt_parent t)) + 1) t r {||}) = effective t r"
proof -
  have "a |\<in>| effective_loop (Suc (fcard (fmdom (rt_parent t)))) t r {||} \<longleftrightarrow> a \<in> effective t r" for a
    unfolding effective_loop_iff walk_bound effective_def by simp
  then show ?thesis by (auto simp del: effective_loop.simps)
qed

lemma up_next: "(x, y) \<in> edges m \<Longrightarrow> (x, z) \<in> (edges m)\<^sup>* \<longleftrightarrow> x = z \<or> (y, z) \<in> (edges m)\<^sup>*"
  by (metis converse_rtranclE edges_single rtrancl.rtrancl_refl converse_rtrancl_into_rtrancl)

lemma no_next: "fmlookup m x = None \<or> fmlookup m x = Some '''' \<Longrightarrow> (x, z) \<in> (edges m)\<^sup>* \<longleftrightarrow> x = z"
  by (metis converse_rtranclE in_edges option.discI option.inject rtrancl.rtrancl_refl)

lemma ancestors_loop_walk:
  assumes "acyclic (edges m)" and "\<And>x. (cur, x) \<in> (edges m)\<^sup>* \<Longrightarrow> x |\<notin>| seen"
  shows "fset (ancestors_loop m cur seen) = fset seen \<union> (if cur = '''' then {} else {x. (cur, x) \<in> (edges m)\<^sup>*})"
  using assms
proof (induction m cur seen rule: ancestors_loop.induct)
  case (1 m cur seen)
  have new: "cur |\<notin>| seen" using 1(3) by simp
  show ?case
  proof (cases "cur = ''''")
    case nonempty: False
    show ?thesis
    proof (cases "fmlookup m cur")
      case None
      then show ?thesis using nonempty new by (subst ancestors_loop.simps) (auto simp: no_next)
    next
      case (Some nxt)
      show ?thesis
      proof (cases "nxt = ''''")
        case True
        then show ?thesis using nonempty new Some
          by (subst ancestors_loop.simps) (auto simp: no_next ancestors_loop.simps [of m "''''"])
      next
        case False
        then have e: "(cur, nxt) \<in> edges m" using Some by (simp add: in_edges)
        have "x |\<notin>| finsert cur seen" if "(nxt, x) \<in> (edges m)\<^sup>*" for x
        proof -
          have "x \<noteq> cur" using that e 1(2) by (metis acyclic_def rtrancl_into_trancl2)
          moreover have "x |\<notin>| seen" using 1(3) that up_next [OF e] by blast
          ultimately show ?thesis by simp
        qed
        then have "fset (ancestors_loop m nxt (finsert cur seen)) =
            fset (finsert cur seen) \<union> {x. (nxt, x) \<in> (edges m)\<^sup>*}"
          using 1(1) [OF _ Some 1(2)] nonempty new False by simp
        then show ?thesis using nonempty new Some
          by (subst ancestors_loop.simps) (auto simp: up_next [OF e])
      qed
    qed
  qed (simp add: ancestors_loop.simps)
qed

text \<open>The walk down: what it returns is closed under children and contains nothing else.\<close>

lemma descend_loop_mono: "seen |\<subseteq>| descend_loop m q seen"
  by (induction m q seen rule: descend_loop.induct) (auto simp: Let_def)

lemma descend_loop_within:
  "c |\<in>| descend_loop m q seen \<Longrightarrow>
   c |\<in>| seen \<or> (\<exists>x\<in>set q. (x, c) \<in> {(p, c). c |\<in>| set_at m p}\<^sup>+)"
proof (induction m q seen rule: descend_loop.induct)
  case (2 m cur queue seen)
  let ?D = "{(p, c). c |\<in>| set_at m p}"
  have kid: "(cur, y) \<in> ?D" if "y |\<in>| set_at m cur" for y using that by simp
  from 2 consider "c |\<in>| seen" | "c |\<in>| set_at m cur"
    | x where "x \<in> set queue \<or> x |\<in>| set_at m cur" "(x, c) \<in> ?D\<^sup>+"
    by (auto simp: Let_def)
  then show ?case
  proof cases
    case 2
    then show ?thesis using kid by auto
  next
    case 3
    then show ?thesis using kid by (metis list.set_intros trancl_into_trancl2)
  qed simp
qed simp

lemma descend_loop_closed:
  assumes "\<And>x y. x |\<in>| seen \<Longrightarrow> x \<notin> set q \<Longrightarrow> y |\<in>| set_at m x \<Longrightarrow> y |\<in>| seen"
    and "x |\<in>| descend_loop m q seen \<or> x \<in> set q" and "y |\<in>| set_at m x"
  shows "y |\<in>| descend_loop m q seen"
  using assms
proof (induction m q seen arbitrary: x y rule: descend_loop.induct)
  case (2 m cur queue seen)
  let ?fresh = "set_at m cur |-| seen"
  let ?q = "queue @ sorted_list_of_fset ?fresh" and ?s = "seen |\<union>| ?fresh"
  have step: "descend_loop m (cur # queue) seen = descend_loop m ?q ?s" by (simp add: Let_def)
  have inv: "v |\<in>| ?s" if "u |\<in>| ?s" "u \<notin> set ?q" "v |\<in>| set_at m u" for u v
    using that 2(2) [of u v] by auto
  show ?case
  proof (cases "x = cur")
    case True
    then show ?thesis using 2(4) descend_loop_mono [of ?s m ?q] unfolding step by auto
  next
    case False
    then have x: "x |\<in>| descend_loop m ?q ?s \<or> x \<in> set ?q" using 2(3) unfolding step by auto
    show ?thesis unfolding step by (rule 2(1) [OF refl _ x 2(4)]) (rule inv)
  qed
qed simp

lemma descend_loop_walk: "fset (descend_loop m [r] {||}) = {c. (r, c) \<in> {(p, c). c |\<in>| set_at m p}\<^sup>+}"
proof -
  let ?D = "{(p, c). c |\<in>| set_at m p}"
  have closed: "y |\<in>| descend_loop m [r] {||}"
    if "x |\<in>| descend_loop m [r] {||} \<or> x = r" "y |\<in>| set_at m x" for x y
    by (rule descend_loop_closed [of "{||}" "[r]" m x y]) (use that in auto)
  have "c |\<in>| descend_loop m [r] {||}" if "(r, c) \<in> ?D\<^sup>+" for c
    using that by (induction rule: trancl_induct) (auto intro: closed simp del: descend_loop.simps)
  then show ?thesis using descend_loop_within [of _ m "[r]" "{||}"]
    by (auto simp del: descend_loop.simps)
qed

section \<open>Every operation keeps the tree\<close>

lemma set_at_simps [simp]:
  "set_at (fmupd k s m) x = (if k = x then s else set_at m x)"
  "set_at (fmdrop k m) x = (if k = x then {||} else set_at m x)"
  "set_at fmempty x = {||}"
  by (simp_all add: set_at_def)

lemma set_at_absent: "r |\<notin>| fmdom m \<Longrightarrow> set_at m r = {||}"
  by (simp add: set_at_def fmdom_notD)

lemma ensure_simps [simp]:
  "set_at (ensure r m) x = set_at m x" "fmdom (ensure r m) = finsert r (fmdom m)"
  by (auto simp: ensure_def set_at_def fmlookup_dom_iff split: option.splits)

lemma edges_upd:
  "(c, p) \<in> edges (fmupd name q m) \<longleftrightarrow> (if c = name then p = q \<and> p \<noteq> '''' else (c, p) \<in> edges m)"
  by (auto simp: in_edges)

lemma okD:
  assumes "role_tree_ok t"
  shows "acyclic (up t)" "c |\<in>| set_at (rt_children t) p \<longleftrightarrow> (c, p) \<in> up t"
    "fmdom (rt_parent t) |\<subseteq>| fmdom (rt_perms t)" "(c, p) \<in> up t \<Longrightarrow> p |\<in>| fmdom (rt_perms t)"
    "'''' |\<notin>| fmdom (rt_perms t)" "(c, p) \<in> up t \<Longrightarrow> c |\<in>| fmdom (rt_perms t)"
    "'''' |\<notin>| set_at (rt_perms t) c"
proof -
  show "c |\<in>| fmdom (rt_perms t)" if "(c, p) \<in> up t"
    using that assms by (auto simp: role_tree_ok_def in_edges dest: fmdomI)
qed (use assms in \<open>auto simp: role_tree_ok_def\<close>)

lemma ok_NewRoleTree: "role_tree_ok NewRoleTree"
  by (auto simp: role_tree_ok_def NewRoleTree_def edges_def acyclic_def)

lemma ok_perms:
  assumes "role_tree_ok t" and "fmdom (rt_perms t) |\<subseteq>| fmdom m" and "'''' |\<notin>| fmdom m"
    and "\<And>r. '''' |\<notin>| set_at m r"
  shows "role_tree_ok (t\<lparr>rt_perms := m\<rparr>)"
  using assms unfolding role_tree_ok_def by auto

lemma ok_Grant: "role_tree_ok t \<Longrightarrow> role_tree_ok (snd (GrantPermission r as t))"
  by (auto simp: GrantPermission_def okD(5,7) fset_of_list_elem intro!: ok_perms split: if_splits)

lemma ok_Revoke:
  assumes "role_tree_ok t"
  shows "role_tree_ok (snd (RevokePermission r as t))"
proof -
  have "'''' |\<notin>| s" if "fmlookup (rt_perms t) r = Some s" for s
    using okD(7) [OF assms, of r] that by (simp add: set_at_def)
  then show ?thesis using assms
    by (auto simp: RevokePermission_def okD(5,7) intro!: ok_perms split: option.splits if_splits)
qed

text \<open>The children after a role has left its old parent.\<close>

definition detached :: "string \<Rightarrow> role_tree \<Rightarrow> (string, string fset) fmap" where
  "detached name t = (case fmlookup (rt_parent t) name of
       None \<Rightarrow> rt_children t
     | Some old \<Rightarrow> if old = '''' then rt_children t
         else case fmlookup (rt_children t) old of
           None \<Rightarrow> rt_children t
         | Some s \<Rightarrow> fmupd old (s |-| {|name|}) (rt_children t))"

lemma detached_children:
  assumes "role_tree_ok t"
  shows "c |\<in>| set_at (detached name t) p \<longleftrightarrow> (c, p) \<in> up t \<and> c \<noteq> name"
proof (cases "\<exists>old. (name, old) \<in> up t")
  case True
  then obtain old where old: "fmlookup (rt_parent t) name = Some old" "old \<noteq> ''''" by (auto simp: in_edges)
  then have "name |\<in>| set_at (rt_children t) old" by (simp add: okD(2) [OF assms] in_edges)
  then obtain s where s: "fmlookup (rt_children t) old = Some s" by (auto simp: set_at_def split: option.splits)
  have "set_at (detached name t) p = (if p = old then set_at (rt_children t) old |-| {|name|} else set_at (rt_children t) p)"
    using old s by (simp add: detached_def set_at_def)
  then show ?thesis using old by (auto simp: okD(2) [OF assms] in_edges)
next
  case False
  then have "detached name t = rt_children t" by (auto simp: detached_def in_edges split: option.splits)
  then show ?thesis using False by (auto simp: okD(2) [OF assms])
qed

definition attached :: "string \<Rightarrow> string \<Rightarrow> role_tree \<Rightarrow> role_tree" where
  "attached name parent t =
     \<lparr>rt_parent = fmupd name parent (rt_parent t),
      rt_children = (if parent = '''' then detached name t
        else fmupd parent (finsert name (set_at (detached name t) parent)) (detached name t)),
      rt_perms = ensure name (if parent = '''' then rt_perms t else ensure parent (rt_perms t))\<rparr>"

lemma AddRole_cases:
  "AddRole name parent t =
    (if name = '''' then (Inl ErrEmptyRole, t)
     else if parent \<noteq> '''' \<and> name = parent then (Inl ErrSelfParent, t)
     else if fmlookup (rt_parent t) name = Some parent then (Inr (), t)
     else if parent \<noteq> '''' \<and> (parent, name) \<in> (up t)\<^sup>* then (Inl (ErrCycleDetected name parent), t)
     else (Inr (), attached name parent t))"
  unfolding AddRole_def reachable_iff attached_def detached_def Let_def by simp

lemma ok_attached:
  assumes ok: "role_tree_ok t" and new: "name \<noteq> ''''"
    and cyc: "parent \<noteq> '''' \<Longrightarrow> (parent, name) \<notin> (up t)\<^sup>*"
  shows "role_tree_ok (attached name parent t)"
proof -
  let ?t = "attached name parent t"
  have up: "(c, p) \<in> up ?t \<longleftrightarrow> (if c = name then p = parent \<and> p \<noteq> '''' else (c, p) \<in> up t)" for c p
    unfolding attached_def by (simp add: edges_upd)
  have sub: "up ?t \<subseteq> (if parent = '''' then up t else insert (name, parent) (up t))"
    using up by (auto split: if_splits)
  have "acyclic (if parent = '''' then up t else insert (name, parent) (up t))"
    using okD(1) [OF ok] cyc by simp
  then have "acyclic (up ?t)" using sub by (rule acyclic_subset)
  moreover have "c |\<in>| set_at (rt_children ?t) p \<longleftrightarrow> (c, p) \<in> up ?t" for c p
    unfolding up by (auto simp: attached_def detached_children [OF ok] in_edges)
  moreover have "fmdom (rt_parent ?t) |\<subseteq>| fmdom (rt_perms ?t)" "'''' |\<notin>| fmdom (rt_perms ?t)"
    using okD(3,5) [OF ok] new by (auto simp: attached_def)
  moreover have "p |\<in>| fmdom (rt_perms ?t)" if "(c, p) \<in> up ?t" for c p
    using that okD(4) [OF ok] unfolding up by (auto simp: attached_def split: if_splits)
  moreover have "'''' |\<notin>| set_at (rt_perms ?t) r" for r
    using okD(7) [OF ok] by (simp add: attached_def)
  ultimately show ?thesis unfolding role_tree_ok_def by blast
qed

lemma ok_AddRole: "role_tree_ok t \<Longrightarrow> role_tree_ok (snd (AddRole name parent t))"
  unfolding AddRole_cases by (auto intro: ok_attached)

lemma ok_add_entry:
  assumes "add_entry r t = Inr t'" and "role_tree_ok t"
  shows "role_tree_ok t'"
proof -
  obtain x t1 where t1: "AddRole (re_name r) (re_parent r) t = (x, t1)" by fastforce
  obtain y t2 where t2: "GrantPermission (re_name r) (re_permissions r) t1 = (y, t2)" by fastforce
  have "role_tree_ok t1" using ok_AddRole [OF assms(2), of "re_name r" "re_parent r"] t1 by simp
  moreover then have "role_tree_ok t2" using ok_Grant [of t1 "re_name r" "re_permissions r"] t2 by simp
  ultimately show ?thesis using assms(1) t1 t2 by (auto simp: add_entry_def split: sum.splits if_splits)
qed

lemma ok_load_pass:
  assumes "load_pass rs added progress t = Inr (added', progress', t')" and "role_tree_ok t"
  shows "role_tree_ok t'"
  using assms
proof (induction rs added progress t rule: load_pass.induct)
  case (2 r rs added progress t)
  then show ?case by (auto split: if_splits sum.splits dest: ok_add_entry)
qed simp

lemma ok_load_passes:
  assumes "load_passes n rs added t = Inr (added', t')" and "role_tree_ok t"
  shows "role_tree_ok t'"
  using assms
  by (induction n rs added t rule: load_passes.induct)
     (auto split: sum.splits prod.splits if_splits dest: ok_load_pass)

text \<open>Removal.\<close>

lemma fold_reparent:
  "rt_perms (fold (reparent p) cs t) = rt_perms t"
  "fmlookup (rt_parent (fold (reparent p) cs t)) x = (if x \<in> set cs then Some p else fmlookup (rt_parent t) x)"
  "set_at (rt_children (fold (reparent p) cs t)) q =
     (if p \<noteq> '''' \<and> q = p then set_at (rt_children t) q |\<union>| fset_of_list cs else set_at (rt_children t) q)"
  by (induction cs arbitrary: t) (auto simp: reparent_def)

definition removed :: "string \<Rightarrow> role_tree \<Rightarrow> role_tree" where
  "removed name t = snd (RemoveRole name t)"

lemma removed_parts:
  assumes ok: "role_tree_ok t" and has: "HasRole t name"
  shows "rt_perms (removed name t) = fmdrop name (rt_perms t)"
    "(c, q) \<in> up (removed name t) \<longleftrightarrow> c \<noteq> name \<and> q \<noteq> name \<and> ((c, q) \<in> up t \<or> (c, name) \<in> up t \<and> (name, q) \<in> up t)"
    "c |\<in>| set_at (rt_children (removed name t)) q \<longleftrightarrow> (c, q) \<in> up (removed name t)"
    "fmdom (rt_parent (removed name t)) |\<subseteq>| fmdom (rt_perms (removed name t))"
proof -
  let ?cs = "sorted_list_of_fset (set_at (rt_children t) name)" and ?p = "parent_of t name"
  let ?t1 = "fold (reparent ?p) ?cs t"
  have loop: "(x, x) \<notin> up t" for x using okD(1) [OF ok] by (auto simp: acyclic_def)
  have kids: "x \<in> set ?cs \<longleftrightarrow> (x, name) \<in> up t" for x by (simp add: okD(2) [OF ok])
  have par: "(name, q) \<in> up t \<longleftrightarrow> q = ?p \<and> q \<noteq> ''''" for q
    by (auto simp: in_edges parent_of_def split: option.splits)
  have tree: "removed name t = \<lparr>rt_parent = fmdrop name (rt_parent ?t1),
      rt_children = (if ?p = '''' then fmdrop name (rt_children ?t1)
        else case fmlookup (fmdrop name (rt_children ?t1)) ?p of None \<Rightarrow> fmdrop name (rt_children ?t1)
          | Some s \<Rightarrow> fmupd ?p (s |-| {|name|}) (fmdrop name (rt_children ?t1))),
      rt_perms = fmdrop name (rt_perms ?t1)\<rparr>"
    using has by (simp add: removed_def RemoveRole_def Let_def)
  show "rt_perms (removed name t) = fmdrop name (rt_perms t)"
    unfolding tree by (simp add: fold_reparent)
  have up: "(c, q) \<in> up (removed name t) \<longleftrightarrow> c \<noteq> name \<and> q \<noteq> '''' \<and>
      (if (c, name) \<in> up t then q = ?p else (c, q) \<in> up t)" for c q
    unfolding tree by (auto simp: in_edges fold_reparent okD(2) [OF ok])
  show edge: "(c, q) \<in> up (removed name t) \<longleftrightarrow>
      c \<noteq> name \<and> q \<noteq> name \<and> ((c, q) \<in> up t \<or> (c, name) \<in> up t \<and> (name, q) \<in> up t)" for c q
  proof (cases "(c, name) \<in> up t")
    case True
    then have "(c, q) \<in> up t \<longleftrightarrow> q = name" using edges_single by blast
    then show ?thesis unfolding up using True loop [of name] par [of q] by metis
  next
    case False
    then show ?thesis unfolding up by (auto simp: in_edges)
  qed
  have "set_at (rt_children (removed name t)) q = (if q = name then {||}
      else if q = ?p \<and> q \<noteq> '''' then (set_at (rt_children t) q |\<union>| set_at (rt_children t) name) |-| {|name|}
      else set_at (rt_children t) q)" (is "_ = ?kids") for q
  proof -
    have "set_at (if ?p = '''' then m else case fmlookup m ?p of None \<Rightarrow> m | Some s \<Rightarrow> fmupd ?p (s |-| {|name|}) m) q =
        (if q = ?p \<and> q \<noteq> '''' then set_at m q |-| {|name|} else set_at m q)" for m
      by (auto simp: set_at_def split: option.splits)
    then show ?thesis unfolding tree by (auto simp: fold_reparent)
  qed
  then show "c |\<in>| set_at (rt_children (removed name t)) q \<longleftrightarrow> (c, q) \<in> up (removed name t)"
    using loop [of name] par [of q] unfolding edge by (auto simp: okD(2) [OF ok])
  show "fmdom (rt_parent (removed name t)) |\<subseteq>| fmdom (rt_perms (removed name t))"
  proof
    fix x
    assume "x |\<in>| fmdom (rt_parent (removed name t))"
    then have "x \<noteq> name" "x \<in> set ?cs \<or> x |\<in>| fmdom (rt_parent t)"
      unfolding tree by (auto simp: fmlookup_dom_iff fold_reparent split: if_splits)
    then show "x |\<in>| fmdom (rt_perms (removed name t))"
      using okD(3,6) [OF ok] kids unfolding tree by (auto simp: fold_reparent)
  qed
qed

lemma ok_Remove:
  assumes ok: "role_tree_ok t"
  shows "role_tree_ok (removed name t)"
proof (cases "HasRole t name")
  case True
  note parts = removed_parts [OF ok True]
  have "up (removed name t) \<subseteq> (up t)\<^sup>+" using parts(2) by auto
  moreover have "acyclic ((up t)\<^sup>+)" using okD(1) [OF ok] by (simp add: acyclic_def)
  ultimately have "acyclic (up (removed name t))" by (rule acyclic_subset [rotated])
  moreover have "p |\<in>| fmdom (rt_perms (removed name t))" if "(c, p) \<in> up (removed name t)" for c p
    using that okD(4) [OF ok] by (auto simp: parts(1,2))
  moreover have "'''' |\<notin>| fmdom (rt_perms (removed name t))" using okD(5) [OF ok] by (simp add: parts(1))
  moreover have "'''' |\<notin>| set_at (rt_perms (removed name t)) r" for r using okD(7) [OF ok] by (simp add: parts(1))
  ultimately show ?thesis unfolding role_tree_ok_def using parts(3,4) by blast
qed (use ok in \<open>simp add: removed_def RemoveRole_def\<close>)

lemma removed_ancestors:
  assumes ok: "role_tree_ok t" and has: "HasRole t name" and r: "r \<noteq> name"
  shows "(r, q) \<in> (up (removed name t))\<^sup>* \<longleftrightarrow> q \<noteq> name \<and> (r, q) \<in> (up t)\<^sup>*"
proof
  note edge = removed_parts(2) [OF ok has]
  assume "(r, q) \<in> (up (removed name t))\<^sup>*"
  then show "q \<noteq> name \<and> (r, q) \<in> (up t)\<^sup>*"
    by (induction rule: rtrancl_induct) (use r in \<open>auto simp: edge intro: rtrancl_into_rtrancl\<close>)
next
  note edge = removed_parts(2) [OF ok has]
  assume "q \<noteq> name \<and> (r, q) \<in> (up t)\<^sup>*"
  moreover have "(q \<noteq> name \<longrightarrow> (r, q) \<in> (up (removed name t))\<^sup>*) \<and>
      (q = name \<longrightarrow> (\<exists>c. c \<noteq> name \<and> (r, c) \<in> (up (removed name t))\<^sup>* \<and> (c, name) \<in> up t))"
    if "(r, q) \<in> (up t)\<^sup>*" for q
    using that
  proof (induction rule: rtrancl_induct)
    case base
    then show ?case using r by simp
  next
    case (step y z)
    show ?case
    proof (cases "y = name")
      case True
      then obtain c where "c \<noteq> name" "(r, c) \<in> (up (removed name t))\<^sup>*" "(c, name) \<in> up t"
        using step by blast
      moreover have "z \<noteq> name" using True step(2) okD(1) [OF ok] by (auto simp: acyclic_def)
      ultimately show ?thesis using True step(2) edge [of c z] by (metis rtrancl.rtrancl_into_rtrancl)
    next
      case False
      then show ?thesis using step edge [of y z] by (metis rtrancl.rtrancl_into_rtrancl)
    qed
  qed
  ultimately show "(r, q) \<in> (up (removed name t))\<^sup>*" by blast
qed

section \<open>Trees that the operations build\<close>

inductive built :: "role_tree \<Rightarrow> bool" where
  fresh: "built NewRoleTree"
| add: "built t \<Longrightarrow> built (snd (AddRole name parent t))"
| grant: "built t \<Longrightarrow> built (snd (GrantPermission role as t))"
| revoke: "built t \<Longrightarrow> built (snd (RevokePermission role as t))"
| remove: "built t \<Longrightarrow> built (snd (RemoveRole name t))"
| load: "built t \<Longrightarrow> LoadFromYAML rs t = Inr t' \<Longrightarrow> built t'"

lemma built_ok: "built t \<Longrightarrow> role_tree_ok t"
proof (induction rule: built.induct)
  case (load t rs t')
  then show ?case
    by (auto simp: LoadFromYAML_def split: sum.splits prod.splits option.splits dest: ok_load_passes
        simp del: load_passes.simps)
next
  case (remove t name)
  then show ?case using ok_Remove [of t name] by (simp add: removed_def)
qed (simp_all add: ok_NewRoleTree ok_AddRole ok_Grant ok_Revoke)

lemma set_sorted_fset: "set (sorted_list_of_fset A) = B \<longleftrightarrow> fset A = B"
  by simp

text \<open>
  C26. The role tree answers what inheritance means: in every tree that any sequence of the operations
  (adding, re-parenting, granting, revoking, removing, loading) can build, no role is its own
  ancestor, and for every role the ancestors reported are the roles above it, the descendants
  reported are the roles below it, and its effective permissions are those granted to it or to a
  role above it, no more and no less, although each walk is cut off by a bound or a visited set.
\<close>

theorem role_tree_answers:
  assumes "built t" and "HasRole t r"
  shows "acyclic (up t) \<and>
    (\<exists>A D E. GetAncestors t r = Inr A \<and> set A = {a. (r, a) \<in> (up t)\<^sup>+} \<and>
       GetDescendants t r = Inr D \<and> set D = {d. (d, r) \<in> (up t)\<^sup>+} \<and>
       EffectivePermissions t r = Inr E \<and> set E = effective t r)"
proof -
  have ok: "role_tree_ok t" using built_ok [OF assms(1)] .
  note acyc = okD(1) [OF ok]
  have "fset (ancestors_loop (rt_parent t) (parent_of t r) {||}) = {a. (r, a) \<in> (up t)\<^sup>+}"
  proof (cases "parent_of t r = ''''")
    case True
    then have "\<And>p. (r, p) \<notin> up t" by (simp add: in_edges parent_of_def split: option.splits)
    then have "{a. (r, a) \<in> (up t)\<^sup>+} = {}" by (auto dest: tranclD)
    then show ?thesis using True by (simp add: ancestors_loop.simps)
  next
    case False
    then have e: "(r, parent_of t r) \<in> up t" by (auto simp: in_edges parent_of_def split: option.splits)
    have "(r, a) \<in> (up t)\<^sup>+ \<longleftrightarrow> (parent_of t r, a) \<in> (up t)\<^sup>*" for a
      by (metis e edges_single rtrancl_into_trancl2 tranclD)
    then show ?thesis using ancestors_loop_walk [OF acyc, of "parent_of t r" "{||}"] False by simp
  qed
  moreover have "{(p, c). c |\<in>| set_at (rt_children t) p} = (up t)\<inverse>" by (auto simp: okD(2) [OF ok])
  then have "fset (descend_loop (rt_children t) [r] {||}) = {d. (d, r) \<in> (up t)\<^sup>+}"
    unfolding descend_loop_walk by (simp add: trancl_converse)
  ultimately show ?thesis using acyc assms(2) effective_walk [of t r]
    unfolding GetAncestors_def GetDescendants_def EffectivePermissions_def
    by (simp add: set_sorted_fset del: effective_loop.simps descend_loop.simps ancestors_loop.simps)
qed

text \<open>
  Removing a role takes away its own grants and nothing else: every other role keeps all its
  other ancestors, those above the removed role included, so its effective permissions afterwards
  are those it has from itself and the roles above it other than the removed one.
\<close>

theorem removal_keeps_inheritance:
  assumes "built t" and "HasRole t name" and "r \<noteq> name" and "HasRole t r"
  shows "\<exists>t'. RemoveRole name t = (Inr (), t') \<and> built t' \<and> \<not> HasRole t' name \<and> HasRole t' r \<and>
    {a. (r, a) \<in> (up t')\<^sup>*} = {a. (r, a) \<in> (up t)\<^sup>*} - {name} \<and>
    effective t' r = {x. \<exists>q. q \<noteq> name \<and> (r, q) \<in> (up t)\<^sup>* \<and> x |\<in>| set_at (rt_perms t) q}"
proof -
  have ok: "role_tree_ok t" using built_ok [OF assms(1)] .
  note parts = removed_parts(1) [OF ok assms(2)] and anc = removed_ancestors [OF ok assms(2,3)]
  have "RemoveRole name t = (Inr (), removed name t)"
    using assms(2) by (simp add: removed_def RemoveRole_def Let_def)
  moreover have "built (removed name t)" using built.remove [OF assms(1)] by (simp add: removed_def)
  moreover have "\<not> HasRole (removed name t) name" "HasRole (removed name t) r"
    using assms(3,4) by (simp_all add: HasRole_def parts)
  moreover have "effective (removed name t) r =
      {x. \<exists>q. q \<noteq> name \<and> (r, q) \<in> (up t)\<^sup>* \<and> x |\<in>| set_at (rt_perms t) q}"
    unfolding effective_def anc parts by auto
  ultimately show ?thesis using anc by auto
qed

text \<open>A tree of three: a viewer, an operator above whom it is, and an admin.\<close>

definition demo_roles :: role_tree where
  "demo_roles = snd (GrantPermission ''admin'' [''apply''] (snd (GrantPermission ''viewer'' [''view'']
     (snd (AddRole ''admin'' ''operator'' (snd (AddRole ''operator'' ''viewer'' NewRoleTree)))))))"

lemma demo_roles_built: "built demo_roles"
  unfolding demo_roles_def by (intro built.intros)

lemma demo_roles_fields:
  "rt_parent demo_roles = fmupd ''admin'' ''operator'' (fmupd ''operator'' ''viewer'' fmempty)"
  "set_at (rt_perms demo_roles) ''viewer'' = {|''view''|}" "set_at (rt_perms demo_roles) ''admin'' = {|''apply''|}"
  "fmdom (rt_perms demo_roles) = {|''admin'', ''viewer'', ''operator''|}"
  by (auto simp: demo_roles_def AddRole_def NewRoleTree_def GrantPermission_def reachable_def ensure_def
      fcard.rep_eq)

lemma demo_roles_up: "(''admin'', ''viewer'') \<in> (up demo_roles)\<^sup>*"
proof -
  have "(''admin'', ''operator'') \<in> up demo_roles" "(''operator'', ''viewer'') \<in> up demo_roles"
    by (simp_all add: in_edges demo_roles_fields)
  then show ?thesis by (meson r_into_rtrancl rtrancl_trans)
qed

theorem role_tree_answers_witness:
  "built demo_roles \<and> (\<exists>E. EffectivePermissions demo_roles ''admin'' = Inr E \<and> ''view'' \<in> set E)"
proof -
  have "''view'' \<in> effective demo_roles ''admin''"
    unfolding effective_def using demo_roles_up demo_roles_fields(2) by blast
  then show ?thesis
    using role_tree_answers [OF demo_roles_built, of "''admin''"] demo_roles_built
    by (auto simp: HasRole_def demo_roles_fields)
qed

theorem removal_keeps_inheritance_witness:
  "\<exists>t'. RemoveRole ''operator'' demo_roles = (Inr (), t') \<and> ''view'' \<in> effective t' ''admin''"
proof -
  have "''view'' \<in> {x. \<exists>q. q \<noteq> ''operator'' \<and> (''admin'', q) \<in> (up demo_roles)\<^sup>* \<and> x |\<in>| set_at (rt_perms demo_roles) q}"
    using demo_roles_up demo_roles_fields(2) by (intro CollectI exI [of _ "''viewer''"]) simp
  then show ?thesis
    using removal_keeps_inheritance [OF demo_roles_built, of "''operator''" "''admin''"]
    by (auto simp: HasRole_def demo_roles_fields)
qed

section \<open>Saving and loading\<close>

text \<open>\<open>loaded t added t'\<close>: \<open>t'\<close> is the part of \<open>t\<close> made of the roles in \<open>added\<close>.\<close>

definition loaded :: "role_tree \<Rightarrow> string fset \<Rightarrow> role_tree \<Rightarrow> bool" where
  "loaded t added t' \<longleftrightarrow> role_tree_ok t' \<and> added |\<subseteq>| fmdom (rt_perms t) \<and>
     fmdom (rt_parent t') = added \<and> fmdom (rt_perms t') = added \<and>
     (\<forall>r. r |\<in>| added \<longrightarrow> parent_of t' r = parent_of t r \<and> set_at (rt_perms t') r = set_at (rt_perms t) r)"

lemma loaded_up:
  assumes "loaded t added t'" and "(c, p) \<in> up t'"
  shows "(c, p) \<in> up t"
proof -
  have "c |\<in>| added" using assms fmdomI by (auto simp: in_edges loaded_def)
  then have "parent_of t' c = parent_of t c" using assms(1) by (simp add: loaded_def)
  then show ?thesis using assms(2) by (auto simp: in_edges parent_of_def split: option.splits)
qed

lemma parent_edge: "parent_of t r \<noteq> '''' \<longleftrightarrow> (r, parent_of t r) \<in> up t"
  by (auto simp: in_edges parent_of_def split: option.splits)

definition entry_of :: "role_tree \<Rightarrow> string \<Rightarrow> role_entry" where
  "entry_of t r = \<lparr>re_name = r, re_parent = parent_of t r,
     re_permissions = sorted_list_of_fset (set_at (rt_perms t) r)\<rparr>"

lemma add_entry_loaded:
  assumes ok: "role_tree_ok t" and l: "loaded t added t'" and r: "r |\<in>| fmdom (rt_perms t)" "r |\<notin>| added"
    and p: "parent_of t r = '''' \<or> parent_of t r |\<in>| added"
  shows "\<exists>t''. add_entry (entry_of t r) t' = Inr t'' \<and> loaded t (finsert r added) t''"
proof -
  let ?p = "parent_of t r" and ?s = "set_at (rt_perms t) r"
  let ?a = "attached r ?p t'"
  have ne: "r \<noteq> ''''" using okD(5) [OF ok] r(1) by metis
  have loop: "?p \<noteq> r"
  proof
    assume "?p = r"
    then have "(r, r) \<in> up t" using parent_edge [of t r] ne by simp
    then show False using okD(1) [OF ok] by (auto simp: acyclic_def)
  qed
  have cyc: "(?p, r) \<notin> (up t')\<^sup>*" if "?p \<noteq> ''''"
  proof
    assume "(?p, r) \<in> (up t')\<^sup>*"
    then have "(?p, r) \<in> (up t)\<^sup>*" using loaded_up [OF l] by (metis (no_types, lifting) rtrancl_mono subrelI subsetD)
    moreover have "(r, ?p) \<in> up t" using that parent_edge by blast
    ultimately show False using okD(1) [OF ok] by (metis acyclic_def rtrancl_into_trancl2)
  qed
  have new: "fmlookup (rt_parent t') r = None" using l r(2) by (auto simp: loaded_def dest: fmdom_notD)
  have add: "AddRole r ?p t' = (Inr (), ?a)" using ne loop cyc new unfolding AddRole_cases by auto
  have okt: "role_tree_ok ?a" using l ne cyc by (intro ok_attached) (auto simp: loaded_def)
  have none: "set_at (rt_perms t') r = {||}" using l r(2) by (simp add: loaded_def set_at_absent)
  have dom: "fmdom (rt_parent ?a) = finsert r added" "fmdom (rt_perms ?a) = finsert r added"
    using l p by (auto simp: attached_def loaded_def)
  have keep: "parent_of ?a q = parent_of t q" if "q |\<in>| finsert r added" for q
    using l that by (auto simp: attached_def parent_of_def loaded_def)
  have perms: "set_at (rt_perms ?a) q = (if q = r then {||} else set_at (rt_perms t') q)" for q
    using none by (simp add: attached_def)
  define b where "b = (if sorted_list_of_fset ?s = [] then ?a
     else ?a\<lparr>rt_perms := fmupd r ?s (rt_perms ?a)\<rparr>)"
  have "filter (\<lambda>a. a \<noteq> '''') (sorted_list_of_fset ?s) = sorted_list_of_fset ?s"
    using okD(7) [OF ok, of r] by (auto simp: filter_id_conv)
  then have b: "add_entry (entry_of t r) t' = Inr b" using ne add perms [of r]
    by (simp add: add_entry_def entry_of_def GrantPermission_def b_def)
  have empty: "?s = {||}" if "sorted_list_of_fset ?s = []" using that
    by (metis fset_of_list_simps(1) sorted_list_of_fset_simps(2))
  have "role_tree_ok b" using okt dom(2) okD(5,7) [OF okt] okD(7) [OF ok] ne
    by (auto simp: b_def intro!: ok_perms split: if_splits)
  moreover have "fmdom (rt_parent b) = finsert r added" "fmdom (rt_perms b) = finsert r added"
    using dom by (auto simp: b_def)
  moreover have "set_at (rt_perms b) q = set_at (rt_perms t) q" if "q |\<in>| finsert r added" for q
    using l that perms [of q] empty by (auto simp: b_def loaded_def)
  moreover have "parent_of b q = parent_of t q" if "q |\<in>| finsert r added" for q
    using keep [OF that] by (simp add: b_def parent_of_def)
  ultimately have "loaded t (finsert r added) b" using l r(1) unfolding loaded_def by simp
  then show ?thesis using b by blast
qed

lemma load_pass_loaded:
  assumes ok: "role_tree_ok t" and "loaded t added t'" and "\<forall>r\<in>set rs. r |\<in>| fmdom (rt_perms t)"
  shows "\<exists>added' progress' t''. load_pass (map (entry_of t) rs) added progress t' = Inr (added', progress', t'') \<and>
    loaded t added' t'' \<and> added |\<subseteq>| added' \<and> (progress' \<longleftrightarrow> progress \<or> added' \<noteq> added) \<and>
    (\<forall>r\<in>set rs. parent_of t r = '''' \<or> parent_of t r |\<in>| added \<longrightarrow> r |\<in>| added')"
  using assms(2,3)
proof (induction rs arbitrary: added progress t')
  case (Cons r rs)
  have f: "re_name (entry_of t r) = r" "re_parent (entry_of t r) = parent_of t r" by (simp_all add: entry_of_def)
  consider (old) "r |\<in>| added" | (wait) "r |\<notin>| added" "parent_of t r \<noteq> ''''" "parent_of t r |\<notin>| added"
    | (new) "r |\<notin>| added" "parent_of t r = '''' \<or> parent_of t r |\<in>| added" by blast
  then show ?case
  proof cases
    case old
    then show ?thesis using Cons.IH [OF Cons.prems(1), of progress] Cons.prems(2) by (auto simp: f)
  next
    case wait
    then show ?thesis using Cons.IH [OF Cons.prems(1), of progress] Cons.prems(2) by (auto simp: f)
  next
    case new
    then obtain t2 where t2: "add_entry (entry_of t r) t' = Inr t2" "loaded t (finsert r added) t2"
      using add_entry_loaded [OF ok Cons.prems(1)] Cons.prems(2) by auto
    obtain added' progress' t'' where
      "load_pass (map (entry_of t) rs) (finsert r added) True t2 = Inr (added', progress', t'')"
      "loaded t added' t''" "finsert r added |\<subseteq>| added'" "progress'"
      "\<forall>x\<in>set rs. parent_of t x = '''' \<or> parent_of t x |\<in>| finsert r added \<longrightarrow> x |\<in>| added'"
      using Cons.IH [OF t2(2), of True] Cons.prems(2) by auto
    then show ?thesis using new t2(1) by (auto simp: f)
  qed
qed simp

lemma no_progress_complete:
  assumes ok: "role_tree_ok t" and l: "loaded t added t'"
    and closed: "\<And>r. r |\<in>| fmdom (rt_perms t) \<Longrightarrow> parent_of t r = '''' \<or> parent_of t r |\<in>| added \<Longrightarrow> r |\<in>| added"
  shows "added = fmdom (rt_perms t)"
proof -
  have "r |\<in>| fmdom (rt_perms t) \<longrightarrow> r |\<in>| added" for r
  proof (induction r rule: wf_induct_rule [OF finite_acyclic_wf_converse [OF finite_edges okD(1) [OF ok]]])
    case (1 r)
    show ?case
    proof
      assume r: "r |\<in>| fmdom (rt_perms t)"
      show "r |\<in>| added"
      proof (cases "parent_of t r = ''''")
        case False
        then have e: "(r, parent_of t r) \<in> up t" using parent_edge by blast
        then have "parent_of t r |\<in>| added" using 1 okD(4) [OF ok e] by simp
        then show ?thesis using closed [OF r] by blast
      qed (use closed [OF r] in blast)
    qed
  qed
  then show ?thesis using l by (auto simp: loaded_def)
qed

lemma load_passes_complete:
  assumes ok: "role_tree_ok t" and "loaded t added t'" and "fcard (fmdom (rt_perms t) |-| added) < n"
  shows "\<exists>t''. load_passes n (SaveToYAML t) added t' = Inr (fmdom (rt_perms t), t'') \<and>
    loaded t (fmdom (rt_perms t)) t''"
  using assms(2,3)
proof (induction n arbitrary: added t')
  case (Suc n)
  let ?all = "fmdom (rt_perms t)"
  have save: "SaveToYAML t = map (entry_of t) (Roles t)" by (simp add: SaveToYAML_def entry_of_def)
  obtain added' progress' t'' where pass:
    "load_pass (SaveToYAML t) added False t' = Inr (added', progress', t'')" "loaded t added' t''"
    "added |\<subseteq>| added'" "progress' \<longleftrightarrow> added' \<noteq> added"
    and all: "\<forall>r\<in>set (Roles t). parent_of t r = '''' \<or> parent_of t r |\<in>| added \<longrightarrow> r |\<in>| added'"
    using load_pass_loaded [OF ok Suc.prems(1), of "Roles t" False] unfolding save by (auto simp: Roles_def)
  show ?case
  proof (cases "added' = added")
    case True
    have "added = ?all" by (rule no_progress_complete [OF ok Suc.prems(1)]) (use all True in \<open>auto simp: Roles_def\<close>)
    then show ?thesis using pass True by auto
  next
    case False
    have "added' |\<subseteq>| ?all" using pass(2) by (simp add: loaded_def)
    then have "?all |-| added' |\<subset>| ?all |-| added" using pass(3) False by blast
    then have "fcard (?all |-| added') < fcard (?all |-| added)" by (rule pfsubset_fcard_mono)
    then have "fcard (?all |-| added') < n" using Suc.prems(2) by simp
    then show ?thesis using Suc.IH [OF pass(2)] pass(1,4) False by auto
  qed
qed simp

text \<open>
  The file of a role tree determines it: for every tree the operations can build, writing its
  entries and loading them into an empty tree succeeds, whatever the order of names makes of
  children listed before their parents, and gives a tree with the same roles, each with the
  same parent, the same direct and the same effective permissions.
\<close>

theorem role_file_round_trip:
  assumes "built t"
  shows "\<exists>t'. LoadFromYAML (SaveToYAML t) NewRoleTree = Inr t' \<and> Roles t' = Roles t \<and>
    (\<forall>r. HasRole t' r = HasRole t r \<and> Parent t' r = Parent t r \<and>
       DirectPermissions t' r = DirectPermissions t r \<and> effective t' r = effective t r)"
proof -
  have ok: "role_tree_ok t" using built_ok [OF assms] .
  have "loaded t {||} NewRoleTree" using ok_NewRoleTree by (simp add: loaded_def NewRoleTree_def)
  moreover have "fcard (fmdom (rt_perms t) |-| {||}) < length (SaveToYAML t) + 1"
    by (simp add: SaveToYAML_def Roles_def sorted_list_of_fset.rep_eq fcard.rep_eq)
  ultimately obtain t' where
    t': "load_passes (length (SaveToYAML t) + 1) (SaveToYAML t) {||} NewRoleTree = Inr (fmdom (rt_perms t), t')"
    and l: "loaded t (fmdom (rt_perms t)) t'"
    using load_passes_complete [OF ok] by blast
  have load: "LoadFromYAML (SaveToYAML t) NewRoleTree = Inr t'"
  proof -
    have "find (\<lambda>r. re_name r |\<notin>| fmdom (rt_perms t)) (SaveToYAML t) = None"
      by (auto simp: find_None_iff SaveToYAML_def Roles_def)
    then show ?thesis unfolding LoadFromYAML_def t' by simp
  qed
  have dom: "fmdom (rt_perms t') = fmdom (rt_perms t)" using l by (simp add: loaded_def)
  have par: "parent_of t' r = parent_of t r" and perms: "set_at (rt_perms t') r = set_at (rt_perms t) r" for r
  proof -
    have "parent_of x r = ''''" "set_at (rt_perms x) r = {||}" if "r |\<notin>| fmdom (rt_perms x)" "role_tree_ok x" for x
      using that okD(3) [OF that(2)] by (auto simp: parent_of_def set_at_def split: option.splits dest: fmdom_notD fmdomI)
    then show "parent_of t' r = parent_of t r" "set_at (rt_perms t') r = set_at (rt_perms t) r"
      using l dom ok unfolding loaded_def by metis+
  qed
  have up: "up t' = up t"
  proof -
    have "(c, p) \<in> up x \<longleftrightarrow> p = parent_of x c \<and> p \<noteq> ''''" for c p x
      by (auto simp: in_edges parent_of_def split: option.splits)
    then show ?thesis using par by auto
  qed
  have direct: "DirectPermissions x r = (if r |\<in>| fmdom (rt_perms x) then Inr (sorted_list_of_fset (set_at (rt_perms x) r))
      else Inl (ErrUnknownRole r))" for x r
    by (auto simp: DirectPermissions_def set_at_def split: option.splits dest: fmdomI)
  show ?thesis using load
    by (simp add: Roles_def HasRole_def Parent_def par direct perms dom effective_def up)
qed

theorem role_file_round_trip_witness:
  "\<exists>t'. LoadFromYAML (SaveToYAML demo_roles) NewRoleTree = Inr t' \<and> Parent t' ''admin'' = Inr ''operator''"
proof -
  obtain t' where "LoadFromYAML (SaveToYAML demo_roles) NewRoleTree = Inr t'"
    and "Parent t' ''admin'' = Parent demo_roles ''admin''"
    using role_file_round_trip [OF demo_roles_built] by blast
  moreover have "Parent demo_roles ''admin'' = Inr ''operator''"
    by (simp add: Parent_def HasRole_def parent_of_def demo_roles_fields)
  ultimately show ?thesis by metis
qed

end
