(* ===== verification/Label_Condition.thy ===== *)
theory Label_Condition
  imports Go_Text
begin

text \<open>
  \<^verbatim>\<open>internal/permission/abac.go\<close>, the conditions: boolean expressions over labels, their text form,
  and the recursive-descent parser. The parser's position in its source is the text that is left; an
  error carries its message and the text left where it arose.
\<close>

section \<open>Conditions\<close>

datatype label_operator = OpEq | OpNeq | OpIn | OpNotIn

record label_atom =
  la_key :: string
  la_op :: label_operator
  la_values :: "string list"

text \<open>The three shapes of the struct: neither leaf nor operands (the zero value), a leaf, two operands.\<close>

datatype label_condition =
    Tautology
  | Leaf label_atom
  | Combine label_condition label_condition string

datatype condition_error =
    ErrInvalidCondition string string
  | ErrUnknownOperator string
  | IndexOutOfRange

type_synonym labels = "(string \<times> string) list"

text \<open>A missing label reads as the empty string. The index into an empty list of values is out of range.\<close>

definition label_at :: "labels \<Rightarrow> string \<Rightarrow> string" where
  "label_at ls k = (case map_of ls k of None \<Rightarrow> '''' | Some v \<Rightarrow> v)"

definition evaluate_atom :: "labels \<Rightarrow> label_atom \<Rightarrow> condition_error + bool" where
  "evaluate_atom ls a = (let v = label_at ls (la_key a) in
     case la_op a of
       OpEq \<Rightarrow> (case la_values a of [] \<Rightarrow> Inl IndexOutOfRange | want # _ \<Rightarrow> Inr (v = want))
     | OpNeq \<Rightarrow> (case la_values a of [] \<Rightarrow> Inl IndexOutOfRange | want # _ \<Rightarrow> Inr (v \<noteq> want))
     | OpIn \<Rightarrow> Inr (v \<in> set (la_values a))
     | OpNotIn \<Rightarrow> Inr (v \<notin> set (la_values a)))"

primrec EvaluateCondition :: "labels \<Rightarrow> label_condition \<Rightarrow> condition_error + bool" where
  "EvaluateCondition ls Tautology = Inr True"
| "EvaluateCondition ls (Leaf a) = evaluate_atom ls a"
| "EvaluateCondition ls (Combine l r op) = (case EvaluateCondition ls l of
     Inl e \<Rightarrow> Inl e
   | Inr lv \<Rightarrow> (case EvaluateCondition ls r of
        Inl e \<Rightarrow> Inl e
      | Inr rv \<Rightarrow> if op = ''AND'' then Inr (lv \<and> rv)
          else if op = ''OR'' then Inr (lv \<or> rv)
          else Inl (ErrInvalidCondition ''unknown combinator'' op)))"

primrec operator_text :: "label_operator \<Rightarrow> string" where
  "operator_text OpEq = ''=''"
| "operator_text OpNeq = ''!=''"
| "operator_text OpIn = ''in''"
| "operator_text OpNotIn = ''not_in''"

definition atom_string :: "label_atom \<Rightarrow> string" where
  "atom_string a = la_key a @ '' '' @ operator_text (la_op a) @ '' '' @
     (if la_op a \<in> {OpIn, OpNotIn} then ''['' @ join_str '', '' (la_values a) @ '']'' else hd (la_values a))"

primrec condition_string :: "label_condition \<Rightarrow> string" where
  "condition_string Tautology = ''''"
| "condition_string (Leaf a) = atom_string a"
| "condition_string (Combine l r op) =
     ''('' @ condition_string l @ '' '' @ op @ '' '' @ condition_string r @ '')''"

section \<open>The parser\<close>

type_synonym 'a parser = "string \<Rightarrow> condition_error + ('a \<times> string)"

definition is_blank :: "char \<Rightarrow> bool" where
  "is_blank c \<longleftrightarrow> c = CHR '' '' \<or> c = CHR 0x09"

definition skipSpaces :: "string \<Rightarrow> string" where
  "skipSpaces s = dropWhile is_blank s"

definition consumeKeyword :: "string \<Rightarrow> string \<Rightarrow> string option" where
  "consumeKeyword kw s =
     (if \<not> has_prefix s kw then None
      else case drop (length kw) s of
        [] \<Rightarrow> Some []
      | c # r \<Rightarrow> if is_blank c \<or> c \<in> {CHR ''('', CHR ''['', CHR 0x22, CHR 0x27} then Some (c # r) else None)"

definition ident_char :: "char \<Rightarrow> bool" where
  "ident_char c \<longleftrightarrow> (let n = (of_char c :: nat) in
     97 \<le> n \<and> n \<le> 122 \<or> 65 \<le> n \<and> n \<le> 90 \<or> 48 \<le> n \<and> n \<le> 57 \<or> c \<in> {CHR ''.'', CHR ''_'', CHR ''-''})"

definition parseIdent :: "string parser" where
  "parseIdent s = (if takeWhile ident_char s = '''' then Inl (ErrInvalidCondition ''expected identifier'' s)
     else Inr (takeWhile ident_char s, dropWhile ident_char s))"

definition parseOperator :: "label_operator parser" where
  "parseOperator s =
     (if s = '''' then Inl (ErrInvalidCondition ''expected operator'' s)
      else if has_prefix s ''!='' then Inr (OpNeq, drop 2 s)
      else if hd s = CHR ''='' then Inr (OpEq, drop 1 s)
      else case consumeKeyword ''not_in'' s of
        Some r \<Rightarrow> Inr (OpNotIn, r)
      | None \<Rightarrow> (case consumeKeyword ''in'' s of Some r \<Rightarrow> Inr (OpIn, r) | None \<Rightarrow> Inl (ErrUnknownOperator s)))"

definition parseValue :: "string parser" where
  "parseValue s0 = (case skipSpaces s0 of
     [] \<Rightarrow> Inl (ErrInvalidCondition ''expected value'' [])
   | c # r \<Rightarrow>
      if c = CHR 0x22 \<or> c = CHR 0x27 then
        (case dropWhile (\<lambda>d. d \<noteq> c) r of
           [] \<Rightarrow> Inl (ErrInvalidCondition ''unterminated string'' r)
         | _ # r' \<Rightarrow> Inr (takeWhile (\<lambda>d. d \<noteq> c) r, r'))
      else parseIdent (c # r))"

lemma length_skipSpaces: "length (skipSpaces s) \<le> length s"
  by (simp add: skipSpaces_def length_dropWhile_le)

lemma parseIdent_shorter: "parseIdent s = Inr (v, r) \<Longrightarrow> length r < length s"
  by (auto simp: parseIdent_def split: if_splits)
     (metis append_Nil length_dropWhile_le order_le_imp_less_or_eq takeWhile_dropWhile_id append_eq_append_conv same_append_eq append_self_conv2)

lemma dropWhile_shorter: "dropWhile P r = c # r' \<Longrightarrow> length r' < length r"
  using length_dropWhile_le [of P r] by simp

lemma parseValue_shorter: "parseValue s = Inr (v, r) \<Longrightarrow> length r < length s"
  using length_skipSpaces [of s]
  by (auto simp: parseValue_def split: list.splits if_splits dest!: dropWhile_shorter parseIdent_shorter)

text \<open>The values behind the opening bracket.\<close>

function list_loop :: "string list \<Rightarrow> string list parser" where
  "list_loop vals s =
     (case skipSpaces s of
        c # r \<Rightarrow> if c = CHR '']'' then Inr (vals, r)
          else (case parseValue (c # r) of
             Inl e \<Rightarrow> Inl e
           | Inr (v, s1) \<Rightarrow> (case skipSpaces s1 of
                [] \<Rightarrow> Inl (ErrInvalidCondition ''expected comma or bracket'' [])
              | d # s2 \<Rightarrow> if d = CHR '','' then list_loop (vals @ [v]) s2
                  else if d = CHR '']'' then Inr (vals @ [v], s2)
                  else Inl (ErrInvalidCondition ''expected comma or bracket'' (d # s2))))
      | [] \<Rightarrow> Inl (ErrInvalidCondition ''expected value'' []))"
  by auto
termination
proof (relation "measure (length \<circ> snd)")
  fix vals s c r p v s1 d s2
  assume "skipSpaces s = c # r" and "parseValue (c # r) = Inr p" and "(v, s1) = p" and "skipSpaces s1 = d # s2"
  then show "((vals @ [v], s2), vals, s) \<in> measure (length \<circ> snd)"
    using parseValue_shorter [of "c # r" v s1] length_skipSpaces [of s] length_skipSpaces [of s1] by simp
qed simp

declare list_loop.simps [simp del]

definition parseList :: "string list parser" where
  "parseList s0 = (case skipSpaces s0 of
     c # s \<Rightarrow> if c = CHR ''['' then
         (case list_loop [] s of
            Inl e \<Rightarrow> Inl e
          | Inr (vals, r) \<Rightarrow> if vals = [] then Inl (ErrInvalidCondition ''empty list'' r) else Inr (vals, r))
       else Inl (ErrInvalidCondition ''expected bracket'' (c # s))
   | [] \<Rightarrow> Inl (ErrInvalidCondition ''expected bracket'' []))"

definition parseComparison :: "label_condition parser" where
  "parseComparison s = (case parseIdent s of
     Inl e \<Rightarrow> Inl e
   | Inr (key, s1) \<Rightarrow> (case parseOperator (skipSpaces s1) of
        Inl e \<Rightarrow> Inl e
      | Inr (op, s2) \<Rightarrow>
         (case (if op = OpIn \<or> op = OpNotIn then parseList (skipSpaces s2)
                else (case parseValue (skipSpaces s2) of Inl e \<Rightarrow> Inl e | Inr (v, r) \<Rightarrow> Inr ([v], r))) of
            Inl e \<Rightarrow> Inl e
          | Inr (vals, r) \<Rightarrow> Inr (Leaf \<lparr>la_key = key, la_op = op, la_values = vals\<rparr>, r))))"

lemma consumeKeyword_shorter: "consumeKeyword kw s = Some r \<Longrightarrow> length r + length kw = length s"
  by (auto simp: consumeKeyword_def has_prefix_iff split: if_splits list.splits)

lemma parseOperator_shorter: "parseOperator s = Inr (op, r) \<Longrightarrow> length r \<le> length s"
  by (auto simp: parseOperator_def split: if_splits option.splits dest!: consumeKeyword_shorter)

lemma list_loop_shorter: "list_loop vs s = Inr (ws, r) \<Longrightarrow> length r < length s"
proof (induction vs s rule: list_loop.induct)
  case (1 vals s)
  show ?case
  proof (cases "skipSpaces s")
    case (Cons c s1)
    then have l: "length s1 < length s" using length_skipSpaces [of s] by simp
    show ?thesis
    proof (cases "c = CHR '']''")
      case False
      with 1(2) Cons obtain v s2 where v: "parseValue (c # s1) = Inr (v, s2)"
        by (subst (asm) list_loop.simps) (auto split: sum.splits)
      with 1(2) Cons False obtain d s3 where d: "skipSpaces s2 = d # s3"
        by (subst (asm) list_loop.simps) (auto split: list.splits)
      have s3: "length s3 < length s"
        using parseValue_shorter [OF v] l d length_skipSpaces [of s2] by simp
      show ?thesis
      proof (cases "d = CHR '',''")
        case True
        then have "list_loop (vals @ [v]) s3 = Inr (ws, r)" using 1(2) Cons False v d
          by (subst (asm) list_loop.simps) simp
        then show ?thesis using 1(1) [OF Cons False v refl d True] s3 by simp
      next
        case False
        then show ?thesis using 1(2) Cons \<open>c \<noteq> CHR '']''\<close> v d s3
          by (subst (asm) list_loop.simps) (auto split: if_splits)
      qed
    qed (use 1(2) Cons l in \<open>subst (asm) list_loop.simps, simp\<close>)
  qed (use 1(2) in \<open>subst (asm) list_loop.simps, simp\<close>)
qed

lemma parseList_shorter: "parseList s = Inr (vs, r) \<Longrightarrow> length r < length s"
  using length_skipSpaces [of s]
  by (auto simp: parseList_def split: list.splits if_splits sum.splits dest!: list_loop_shorter)

lemma parseComparison_shorter:
  assumes "parseComparison s = Inr (x, r)"
  shows "length r < length s"
proof -
  obtain key s1 where k: "parseIdent s = Inr (key, s1)"
    using assms by (auto simp: parseComparison_def split: sum.splits)
  obtain op s2 where o: "parseOperator (skipSpaces s1) = Inr (op, s2)"
    using assms k by (auto simp: parseComparison_def split: sum.splits)
  have "length r < length (skipSpaces s2)"
    using assms k o
    by (auto simp: parseComparison_def split: sum.splits if_splits dest!: parseList_shorter parseValue_shorter)
  then show ?thesis
    using parseIdent_shorter [OF k] parseOperator_shorter [OF o] length_skipSpaces [of s1] length_skipSpaces [of s2]
    by simp
qed

text \<open>
  The three levels of the grammar. Each level is its first operand followed by a loop over the
  operators of that level.
\<close>

function (sequential) parseOr :: "label_condition parser"
  and or_loop :: "label_condition \<Rightarrow> label_condition parser"
  and parseAnd :: "label_condition parser"
  and and_loop :: "label_condition \<Rightarrow> label_condition parser"
  and parseAtom :: "label_condition parser"
where
  "parseOr s = (case parseAnd s of Inl e \<Rightarrow> Inl e | Inr (left, r) \<Rightarrow> or_loop left r)"
| "or_loop left s = (case consumeKeyword ''OR'' (skipSpaces s) of
     None \<Rightarrow> Inr (left, skipSpaces s)
   | Some s1 \<Rightarrow> (case parseAnd (skipSpaces s1) of
        Inl e \<Rightarrow> Inl e | Inr (right, r) \<Rightarrow> or_loop (Combine left right ''OR'') r))"
| "parseAnd s = (case parseAtom s of Inl e \<Rightarrow> Inl e | Inr (left, r) \<Rightarrow> and_loop left r)"
| "and_loop left s = (case consumeKeyword ''AND'' (skipSpaces s) of
     None \<Rightarrow> Inr (left, skipSpaces s)
   | Some s1 \<Rightarrow> (case parseAtom (skipSpaces s1) of
        Inl e \<Rightarrow> Inl e | Inr (right, r) \<Rightarrow> and_loop (Combine left right ''AND'') r))"
| "parseAtom s0 = (case skipSpaces s0 of
     c # s \<Rightarrow> if c = CHR ''('' then
         (case parseOr s of
            Inl e \<Rightarrow> Inl e
          | Inr (inner, r) \<Rightarrow> (case skipSpaces r of
               d # r' \<Rightarrow> if d = CHR '')'' then Inr (inner, r')
                 else Inl (ErrInvalidCondition ''missing closing paren'' (d # r'))
             | [] \<Rightarrow> Inl (ErrInvalidCondition ''missing closing paren'' [])))
       else parseComparison (c # s)
   | [] \<Rightarrow> parseComparison [])"
  by pat_completeness auto

text \<open>No level of the grammar gives back more than it was given, hence the recursion ends.\<close>

lemma levels_shorter:
  "parseOr_or_loop_parseAnd_and_loop_parseAtom_dom (Inl (Inl s)) \<Longrightarrow>
     parseOr s = Inr (x, r) \<Longrightarrow> length r < length s"
  "parseOr_or_loop_parseAnd_and_loop_parseAtom_dom (Inl (Inr (left, s))) \<Longrightarrow>
     or_loop left s = Inr (x, r) \<Longrightarrow> length r \<le> length s"
  "parseOr_or_loop_parseAnd_and_loop_parseAtom_dom (Inr (Inl s)) \<Longrightarrow>
     parseAnd s = Inr (x, r) \<Longrightarrow> length r < length s"
  "parseOr_or_loop_parseAnd_and_loop_parseAtom_dom (Inr (Inr (Inl (left, s)))) \<Longrightarrow>
     and_loop left s = Inr (x, r) \<Longrightarrow> length r \<le> length s"
  "parseOr_or_loop_parseAnd_and_loop_parseAtom_dom (Inr (Inr (Inr s))) \<Longrightarrow>
     parseAtom s = Inr (x, r) \<Longrightarrow> length r < length s"
proof (induction s and left s and s and left s and s arbitrary: x r and x r and x r and x r and x r
    rule: parseOr_or_loop_parseAnd_and_loop_parseAtom.pinduct)
  case (1 s)
  then show ?case
    by (fastforce simp: parseOr.psimps split: sum.splits prod.splits)
next
  case (2 left s)
  obtain z where z: "z = skipSpaces s" by simp
  show ?case
  proof (cases "consumeKeyword ''OR'' (skipSpaces s)")
    case None
    then show ?thesis using 2(1,4) length_skipSpaces [of s] by (simp add: or_loop.psimps)
  next
    case (Some s1)
    with 2(1,4) obtain right r' where p: "parseAnd (skipSpaces s1) = Inr (right, r')"
      and l: "or_loop (Combine left right ''OR'') r' = Inr (x, r)"
      by (auto simp: or_loop.psimps split: sum.splits)
    have "length r' < length (skipSpaces s1)" using 2(2) [OF Some p] .
    moreover have "length r \<le> length r'" using 2(3) [OF Some p refl l] .
    ultimately show ?thesis
      using consumeKeyword_shorter [OF Some] length_skipSpaces [of s] length_skipSpaces [of s1] by simp
  qed
next
  case (3 s)
  then show ?case
    by (fastforce simp: parseAnd.psimps split: sum.splits prod.splits)
next
  case (4 left s)
  show ?case
  proof (cases "consumeKeyword ''AND'' (skipSpaces s)")
    case None
    then show ?thesis using 4(1,4) length_skipSpaces [of s] by (simp add: and_loop.psimps)
  next
    case (Some s1)
    with 4(1,4) obtain right r' where p: "parseAtom (skipSpaces s1) = Inr (right, r')"
      and l: "and_loop (Combine left right ''AND'') r' = Inr (x, r)"
      by (auto simp: and_loop.psimps split: sum.splits)
    have "length r' < length (skipSpaces s1)" using 4(2) [OF Some p] .
    moreover have "length r \<le> length r'" using 4(3) [OF Some p refl l] .
    ultimately show ?thesis
      using consumeKeyword_shorter [OF Some] length_skipSpaces [of s] length_skipSpaces [of s1] by simp
  qed
next
  case (5 s0)
  show ?case
  proof (cases "skipSpaces s0")
    case Nil
    then show ?thesis using 5(1,3) by (auto simp: parseAtom.psimps dest: parseComparison_shorter)
  next
    case (Cons c s)
    then have s: "length s < length s0" using length_skipSpaces [of s0] by simp
    show ?thesis
    proof (cases "c = CHR ''(''")
      case True
      with 5(1,3) Cons obtain inner r' where p: "parseOr s = Inr (inner, r')"
        by (auto simp: parseAtom.psimps split: sum.splits)
      with 5(1,3) Cons True obtain d where "skipSpaces r' = d # r"
        by (auto simp: parseAtom.psimps split: list.splits if_splits)
      then show ?thesis using 5(2) [OF Cons True p] s length_skipSpaces [of r'] by simp
    next
      case False
      then show ?thesis using 5(1,3) Cons s length_skipSpaces [of s0]
        by (auto simp: parseAtom.psimps dest!: parseComparison_shorter)
    qed
  qed
qed

lemma keyword_next:
  assumes "consumeKeyword kw (skipSpaces s) = Some s1" and "kw \<noteq> []"
  shows "length (skipSpaces s1) < length s"
proof -
  have "0 < length kw" using assms(2) by simp
  then show ?thesis
    using consumeKeyword_shorter [OF assms(1)] length_skipSpaces [of s] length_skipSpaces [of s1] by linarith
qed

lemma skip_next: "skipSpaces s = c # r \<Longrightarrow> length r < length s"
  using length_skipSpaces [of s] by simp

lemma grammar_ends: "All parseOr_or_loop_parseAnd_and_loop_parseAtom_dom"
  by (relation "measures
     [case_sum (case_sum length (length \<circ> snd)) (case_sum length (case_sum (length \<circ> snd) length)),
      case_sum (case_sum (\<lambda>_. 4) (\<lambda>_. 2)) (case_sum (\<lambda>_. 3) (case_sum (\<lambda>_. 1) (\<lambda>_. 0)))]")
    (auto dest: keyword_next skip_next levels_shorter intro: less_trans)

termination parseOr
  by (rule grammar_ends)

declare parseOr.simps [simp del] or_loop.simps [simp del] parseAnd.simps [simp del] and_loop.simps [simp del]
  parseAtom.simps [simp del]

definition ParseLabelCondition :: "string \<Rightarrow> condition_error + label_condition" where
  "ParseLabelCondition s0 = (let s = trim_space s0 in
     if s = '''' then Inr Tautology
     else case parseOr s of
       Inl e \<Rightarrow> Inl e
     | Inr (c, r) \<Rightarrow> if r = '''' then Inr c else Inl (ErrInvalidCondition ''trailing input'' r))"

section \<open>Parsed conditions evaluate\<close>

primrec well_formed :: "label_condition \<Rightarrow> bool" where
  "well_formed Tautology = True"
| "well_formed (Leaf a) = (la_values a \<noteq> [])"
| "well_formed (Combine l r op) = (well_formed l \<and> well_formed r \<and> op \<in> {''AND'', ''OR''})"

lemma well_formed_evaluates: "well_formed c \<Longrightarrow> \<exists>b. EvaluateCondition ls c = Inr b"
proof (induction c)
  case (Leaf a)
  then show ?case by (cases "la_values a"; cases "la_op a") (simp_all add: evaluate_atom_def Let_def)
next
  case (Combine l r op)
  then obtain lv rv where "EvaluateCondition ls l = Inr lv" "EvaluateCondition ls r = Inr rv" by auto
  then show ?case using Combine.prems by auto
qed auto

lemma parseComparison_well_formed: "parseComparison s = Inr (c, r) \<Longrightarrow> well_formed c"
  by (auto simp: parseComparison_def parseList_def split: sum.splits if_splits list.splits)

lemma levels_well_formed:
  "parseOr s = Inr (x, r) \<Longrightarrow> well_formed x"
  "or_loop left s = Inr (x, r) \<Longrightarrow> well_formed left \<Longrightarrow> well_formed x"
  "parseAnd s = Inr (x, r) \<Longrightarrow> well_formed x"
  "and_loop left s = Inr (x, r) \<Longrightarrow> well_formed left \<Longrightarrow> well_formed x"
  "parseAtom s = Inr (x, r) \<Longrightarrow> well_formed x"
proof (induction s and left s and s and left s and s arbitrary: x r and x r and x r and x r and x r
    rule: parseOr_or_loop_parseAnd_and_loop_parseAtom.induct)
  case (1 s)
  then show ?case by (subst (asm) parseOr.simps) (auto split: sum.splits)
next
  case (2 left s)
  show ?case
  proof (cases "consumeKeyword ''OR'' (skipSpaces s)")
    case (Some s1)
    with 2(3) obtain right r' where p: "parseAnd (skipSpaces s1) = Inr (right, r')"
      and l: "or_loop (Combine left right ''OR'') r' = Inr (x, r)"
      by (subst (asm) or_loop.simps) (auto split: sum.splits)
    show ?thesis using 2(2) [OF Some p refl l] 2(1) [OF Some p] 2(4) by simp
  qed (use 2(3,4) in \<open>subst (asm) or_loop.simps, simp\<close>)
next
  case (3 s)
  then show ?case by (subst (asm) parseAnd.simps) (auto split: sum.splits)
next
  case (4 left s)
  show ?case
  proof (cases "consumeKeyword ''AND'' (skipSpaces s)")
    case (Some s1)
    with 4(3) obtain right r' where p: "parseAtom (skipSpaces s1) = Inr (right, r')"
      and l: "and_loop (Combine left right ''AND'') r' = Inr (x, r)"
      by (subst (asm) and_loop.simps) (auto split: sum.splits)
    show ?thesis using 4(2) [OF Some p refl l] 4(1) [OF Some p] 4(4) by simp
  qed (use 4(3,4) in \<open>subst (asm) and_loop.simps, simp\<close>)
next
  case (5 s0)
  from 5(2) show ?case
    by (subst (asm) parseAtom.simps)
       (auto split: list.splits if_splits sum.splits dest: parseComparison_well_formed 5(1))
qed

lemma parsed_well_formed: "ParseLabelCondition s = Inr c \<Longrightarrow> well_formed c"
  by (auto simp: ParseLabelCondition_def Let_def split: if_splits sum.splits dest: levels_well_formed(1))


text \<open>
  The descent of the parser ends on every text: parsing is a total function, and each level that
  accepts has consumed at least one character, each loop of a level at least none, so that no chain of
  calls is longer than the text allows.
\<close>

theorem parser_consumes:
  "(parseOr s = Inr (x, r) \<longrightarrow> length r < length s) \<and> (parseAnd s = Inr (x, r) \<longrightarrow> length r < length s) \<and>
   (parseAtom s = Inr (x, r) \<longrightarrow> length r < length s) \<and> (or_loop c s = Inr (x, r) \<longrightarrow> length r \<le> length s) \<and>
   (and_loop c s = Inr (x, r) \<longrightarrow> length r \<le> length s)"
  using levels_shorter [OF spec [OF grammar_ends]] by blast

text \<open>
  C36. Every text the parser accepts gives a condition of which each comparison has a value to compare with
  and each connective is known, so that it evaluates on every set of labels: the index into the values
  is in range and no operator is unknown.
\<close>

theorem parsed_condition_evaluates:
  assumes "ParseLabelCondition s = Inr c"
  shows "well_formed c \<and> (\<exists>b. EvaluateCondition ls c = Inr b)"
  using parsed_well_formed [OF assms] well_formed_evaluates by blast

section \<open>Printing and parsing\<close>

definition ident :: "string \<Rightarrow> bool" where
  "ident v \<longleftrightarrow> v \<noteq> '''' \<and> (\<forall>c\<in>set v. ident_char c)"

definition stop :: "string \<Rightarrow> bool" where
  "stop r \<longleftrightarrow> (case r of [] \<Rightarrow> True | c # _ \<Rightarrow> \<not> ident_char c)"

definition printable_atom :: "label_atom \<Rightarrow> bool" where
  "printable_atom a \<longleftrightarrow> ident (la_key a) \<and> la_values a \<noteq> [] \<and> (\<forall>v\<in>set (la_values a). ident v) \<and>
     (la_op a \<in> {OpEq, OpNeq} \<longrightarrow> length (la_values a) = 1)"

primrec printable :: "label_condition \<Rightarrow> bool" where
  "printable Tautology = False"
| "printable (Leaf a) = printable_atom a"
| "printable (Combine l r op) = (printable l \<and> printable r \<and> op \<in> {''AND'', ''OR''})"

lemma ident_charD: "ident_char c \<Longrightarrow> \<not> is_blank c \<and> c \<notin> {CHR ''('', CHR '')'', CHR ''['', CHR '']'', CHR '','', CHR 0x22, CHR 0x27, CHR ''='', CHR ''!''}"
  by (auto simp: ident_char_def is_blank_def)

lemma ident_Cons: "ident v \<Longrightarrow> \<exists>c cs. v = c # cs \<and> ident_char c"
  by (cases v) (auto simp: ident_def)

lemma skip_ident_char [simp]: "ident_char c \<Longrightarrow> skipSpaces (c # s) = c # s"
  using ident_charD [of c] by (simp add: skipSpaces_def)

lemma skip_ident [simp]: "ident v \<Longrightarrow> skipSpaces (v @ r) = v @ r"
  using ident_Cons [of v] ident_charD by (auto simp: skipSpaces_def)

lemma skip_blank [simp]: "skipSpaces (CHR '' '' # s) = skipSpaces s"
  by (simp add: skipSpaces_def is_blank_def)

lemma skip_other [simp]: "c \<in> {CHR ''('', CHR '')'', CHR ''['', CHR '']'', CHR '','', CHR ''='', CHR ''!''} \<Longrightarrow> skipSpaces (c # s) = c # s"
  by (auto simp: skipSpaces_def is_blank_def)

lemma stop_simps [simp]: "stop []" "stop (CHR '' '' # r)" "stop (CHR '')'' # r)" "stop (CHR '','' # r)" "stop (CHR '']'' # r)"
  by (simp_all add: stop_def ident_char_def)

lemma parseIdent_ident:
  assumes "ident v" and "stop r"
  shows "parseIdent (v @ r) = Inr (v, r)"
proof -
  have "takeWhile ident_char r = []" "dropWhile ident_char r = r"
    using assms(2) by (auto simp: stop_def split: list.splits)
  moreover have "takeWhile ident_char (v @ r) = v @ takeWhile ident_char r"
    "dropWhile ident_char (v @ r) = dropWhile ident_char r"
    using assms(1) by (simp_all add: ident_def)
  ultimately show ?thesis using assms(1) by (simp add: parseIdent_def ident_def)
qed

lemma parseValue_ident:
  assumes "ident v" and "stop r"
  shows "parseValue (v @ r) = Inr (v, r)"
proof -
  obtain c cs where "v = c # cs" "ident_char c" using ident_Cons [OF assms(1)] by blast
  then show ?thesis using parseIdent_ident [OF assms] ident_charD [of c] skip_ident [OF assms(1), of r]
    by (simp add: parseValue_def)
qed

lemma list_loop_blank: "list_loop vs (CHR '' '' # s) = list_loop vs s"
  by (subst (1 2) list_loop.simps) simp

lemma list_loop_join:
  assumes "vs \<noteq> []" and "\<forall>v\<in>set vs. ident v"
  shows "list_loop acc (join_str '', '' vs @ '']'' @ r) = Inr (acc @ vs, r)"
  using assms
proof (induction vs arbitrary: acc rule: induct_list012)
  case (2 v)
  then obtain c cs where c: "v = c # cs" "ident_char c" "ident v" using ident_Cons by force
  have "parseValue (v @ CHR '']'' # r) = Inr (v, CHR '']'' # r)" using c by (intro parseValue_ident) simp_all
  moreover have "skipSpaces (v @ CHR '']'' # r) = v @ CHR '']'' # r" using c by simp
  ultimately show ?case using c(1) ident_charD [OF c(2)] by (subst list_loop.simps) simp
next
  case (3 v u us)
  then obtain c cs where c: "v = c # cs" "ident_char c" "ident v" using ident_Cons by force
  let ?t = "CHR '' '' # join_str '', '' (u # us) @ CHR '']'' # r"
  have "parseValue (v @ CHR '','' # ?t) = Inr (v, CHR '','' # ?t)" using c by (intro parseValue_ident) simp_all
  moreover have "skipSpaces (v @ CHR '','' # ?t) = v @ CHR '','' # ?t" using c by simp
  ultimately have "list_loop acc (v @ CHR '','' # ?t) = list_loop (acc @ [v]) ?t"
    using c(1) ident_charD [OF c(2)] by (subst list_loop.simps) simp
  then show ?case using "3.IH"(2) [of "acc @ [v]"] "3.prems" by (simp add: list_loop_blank)
qed simp

lemma parseOperator_text: "parseOperator (operator_text op @ CHR '' '' # r) = Inr (op, CHR '' '' # r)"
  by (cases op) (simp_all add: parseOperator_def consumeKeyword_def is_blank_def)

lemma skip_operator [simp]: "skipSpaces (operator_text op @ r) = operator_text op @ r"
  by (cases op) (simp_all add: skipSpaces_def is_blank_def)

lemma parseComparison_atom:
  assumes "printable_atom a" and "stop r"
  shows "parseComparison (atom_string a @ r) = Inr (Leaf a, r)"
proof -
  let ?body = "if la_op a \<in> {OpIn, OpNotIn} then ''['' @ join_str '', '' (la_values a) @ '']'' else hd (la_values a)"
  have key: "parseIdent (la_key a @ CHR '' '' # s) = Inr (la_key a, CHR '' '' # s)" for s
    using assms(1) by (intro parseIdent_ident) (simp_all add: printable_atom_def)
  have shape: "atom_string a @ r = la_key a @ CHR '' '' # operator_text (la_op a) @ CHR '' '' # ?body @ r"
    by (simp add: atom_string_def)
  show ?thesis
  proof (cases "la_op a \<in> {OpIn, OpNotIn}")
    case True
    then have "parseList (?body @ r) = Inr (la_values a, r)"
      using list_loop_join [of "la_values a" "[]" r] assms(1) by (simp add: parseList_def printable_atom_def)
    then show ?thesis using True unfolding shape parseComparison_def key by (auto simp: parseOperator_text)
  next
    case False
    then have one: "la_op a \<in> {OpEq, OpNeq}" by (cases "la_op a") auto
    then obtain v where v: "la_values a = [v]" "ident v"
      using assms(1) by (auto simp: printable_atom_def length_Suc_conv)
    then have "parseValue (?body @ r) = Inr (v, r)" using False assms(2) parseValue_ident by auto
    then show ?thesis using False one v unfolding shape parseComparison_def key by (auto simp: parseOperator_text)
  qed
qed

lemma condition_string_start:
  "printable c \<Longrightarrow> \<exists>d s. condition_string c = d # s \<and> (d = CHR ''('' \<or> ident_char d)"
proof (cases c)
  case (Leaf a)
  then show "printable c \<Longrightarrow> ?thesis"
    using ident_Cons [of "la_key a"] by (auto simp: atom_string_def printable_atom_def)
qed simp_all

lemma skip_condition: "printable c \<Longrightarrow> skipSpaces (condition_string c @ r) = condition_string c @ r"
  using condition_string_start [of c] ident_charD by (auto simp: skipSpaces_def is_blank_def)

lemma keyword_text: "kw \<in> {''AND'', ''OR''} \<Longrightarrow> consumeKeyword kw (kw @ CHR '' '' # r) = Some (CHR '' '' # r)"
  by (auto simp: consumeKeyword_def is_blank_def)

lemma no_keyword [simp]:
  "consumeKeyword ''AND'' (CHR '')'' # r) = None" "consumeKeyword ''OR'' (CHR '')'' # r) = None"
  "consumeKeyword ''AND'' (CHR ''O'' # r) = None" "consumeKeyword kw [] = (if kw = [] then Some [] else None)"
  by (cases kw; simp add: consumeKeyword_def)+

lemma loops_end [simp]:
  "and_loop c (CHR '')'' # r) = Inr (c, CHR '')'' # r)" "or_loop c (CHR '')'' # r) = Inr (c, CHR '')'' # r)"
  "and_loop c [] = Inr (c, [])" "or_loop c [] = Inr (c, [])"
  by (subst and_loop.simps or_loop.simps, simp add: skipSpaces_def is_blank_def)+

lemma parseAtom_condition:
  assumes "printable c" and "stop r"
  shows "parseAtom (condition_string c @ r) = Inr (c, r)"
  using assms
proof (induction c arbitrary: r)
  case (Leaf a)
  obtain k ks where k: "la_key a = k # ks" "ident_char k"
    using Leaf.prems(1) ident_Cons [of "la_key a"] by (auto simp: printable_atom_def)
  have "skipSpaces (atom_string a @ r) = atom_string a @ r"
    using skip_condition [of "Leaf a" r] Leaf.prems by simp
  then show ?case using parseComparison_atom [of a r] Leaf.prems k ident_charD [OF k(2)]
    by (subst parseAtom.simps) (auto simp: atom_string_def split: list.splits)
next
  case (Combine x y op)
  let ?tail = "CHR '' '' # condition_string y @ CHR '')'' # r"
  have x: "parseAtom (condition_string x @ CHR '' '' # s) = Inr (x, CHR '' '' # s)" for s
    using Combine.IH(1) [of "CHR '' '' # s"] Combine.prems by simp
  have y: "parseAtom (condition_string y @ CHR '')'' # r) = Inr (y, CHR '')'' # r)"
    using Combine.IH(2) Combine.prems by simp
  have sk: "skipSpaces (condition_string y @ s) = condition_string y @ s" for s
    using Combine.prems skip_condition by simp
  have "parseOr (condition_string x @ CHR '' '' # op @ ?tail) = Inr (Combine x y op, CHR '')'' # r)"
  proof (cases "op = ''AND''")
    case True
    have "and_loop x (CHR '' '' # op @ ?tail) = and_loop (Combine x y op) (CHR '')'' # r)"
      using True y sk keyword_text [of "''AND''" "condition_string y @ CHR '')'' # r"]
      by (subst and_loop.simps) (simp add: skipSpaces_def is_blank_def)
    then show ?thesis unfolding parseOr.simps [of "_ @ _"] parseAnd.simps [of "_ @ _"] x by simp
  next
    case False
    then have op: "op = ''OR''" using Combine.prems by simp
    have skop: "skipSpaces (''OR'' @ s) = ''OR'' @ s" for s by (simp add: skipSpaces_def is_blank_def)
    have none: "and_loop x (CHR '' '' # op @ ?tail) = Inr (x, op @ ?tail)"
      using skop [of ?tail] unfolding op by (subst and_loop.simps) simp
    have "parseAnd (condition_string y @ CHR '')'' # r) = Inr (y, CHR '')'' # r)"
      unfolding parseAnd.simps [of "_ @ _"] y by simp
    then have "or_loop x (op @ ?tail) = or_loop (Combine x y op) (CHR '')'' # r)"
      using op sk skop [of ?tail] keyword_text [of "''OR''" "condition_string y @ CHR '')'' # r"]
      by (subst or_loop.simps) simp
    then show ?thesis unfolding parseOr.simps [of "_ @ _"] parseAnd.simps [of "_ @ _"] x using none by simp
  qed
  then show ?case by (subst parseAtom.simps) simp
qed simp

lemma atom_string_ends:
  assumes "printable_atom a"
  shows "\<exists>s d. atom_string a = s @ [d] \<and> (d = CHR '']'' \<or> ident_char d)"
proof (cases "la_op a \<in> {OpIn, OpNotIn}")
  case True
  then show ?thesis by (auto simp: atom_string_def)
next
  case False
  have "ident (hd (la_values a))" using assms by (simp add: printable_atom_def)
  then obtain v d where "hd (la_values a) = v @ [d]" "ident_char d"
    by (cases "hd (la_values a)" rule: rev_cases) (auto simp: ident_def)
  then show ?thesis using False by (auto simp: atom_string_def)
qed

lemma condition_string_end:
  "printable c \<Longrightarrow> \<exists>s d. condition_string c = s @ [d] \<and> (d \<in> {CHR '')'', CHR '']''} \<or> ident_char d)"
proof (cases c)
  case (Leaf a)
  then show "printable c \<Longrightarrow> ?thesis" using atom_string_ends [of a] by auto
qed simp_all

lemma visible: "d \<in> {CHR ''('', CHR '')'', CHR '']''} \<or> ident_char d \<Longrightarrow> byte_in 33 126 d"
  by (auto simp: byte_in_def ident_char_def Let_def)

lemma trim_condition:
  assumes "printable c"
  shows "trim_space (condition_string c) = condition_string c"
proof -
  obtain d s where d: "condition_string c = d # s" "d = CHR ''('' \<or> ident_char d"
    using condition_string_start [OF assms] by blast
  obtain t e where e: "condition_string c = t @ [e]" "e \<in> {CHR '')'', CHR '']''} \<or> ident_char e"
    using condition_string_end [OF assms] by blast
  have "t \<noteq> []"
  proof
    assume "t = []"
    then have "length (condition_string c) = 1" using e(1) by simp
    then show False using assms by (cases c) (auto simp: atom_string_def printable_atom_def ident_def)
  qed
  then obtain m where "condition_string c = d # m @ [e]" using d(1) e(1) by (cases t) auto
  then show ?thesis using trim_space_bracketed [of d e m] visible [of d] visible [of e] d(2) e(2) by auto
qed


definition demo_condition :: label_condition where
  "demo_condition = Combine
     (Combine (Leaf \<lparr>la_key = ''target.env'', la_op = OpIn, la_values = [''prod'', ''staging'']\<rparr>)
        (Leaf \<lparr>la_key = ''change.risk'', la_op = OpNeq, la_values = [''low'']\<rparr>) ''AND'')
     (Leaf \<lparr>la_key = ''target.env'', la_op = OpEq, la_values = [''dev'']\<rparr>) ''OR''"

lemma condition_round_trip_witness_text: "ParseLabelCondition (condition_string demo_condition) = Inr demo_condition"
proof -
  have p: "printable demo_condition"
    by (simp add: demo_condition_def printable_atom_def ident_def ident_char_def)
  have "parseAtom (condition_string demo_condition) = Inr (demo_condition, [])"
    using parseAtom_condition [OF p, of "[]"] by simp
  then have "parseOr (condition_string demo_condition) = Inr (demo_condition, [])" by (simp add: parseOr.simps parseAnd.simps)
  then show ?thesis using condition_string_start [OF p] trim_condition [OF p]
    by (auto simp: ParseLabelCondition_def Let_def)
qed

lemma parseOr_small: "parseOr ''a=b)'' = Inr (Leaf \<lparr>la_key = ''a'', la_op = OpEq, la_values = [''b'']\<rparr>, '')'')"
  by code_simp


theorem parsed_condition_evaluates_witness: "\<exists>b. EvaluateCondition [] demo_condition = Inr b"
  using parsed_condition_evaluates [OF condition_round_trip_witness_text, of "[]"] by simp

theorem parser_consumes_witness: "length '')'' < length ''a=b)''"
  using parser_consumes [of "''a=b)''" "Leaf \<lparr>la_key = ''a'', la_op = OpEq, la_values = [''b'']\<rparr>" "'')''" Tautology]
  by (simp add: parseOr_small)

text \<open>
  A value that needs quotes is printed without them: the printed text of the condition
  \<^verbatim>\<open>env = "dev OR env = prod"\<close> parses as a different condition, one that holds in \<^verbatim>\<open>prod\<close>.
\<close>

definition quoted_condition :: label_condition where
  "quoted_condition = Leaf \<lparr>la_key = ''env'', la_op = OpEq, la_values = [''dev OR env = prod'']\<rparr>"

theorem printing_drops_quotes:
  "ParseLabelCondition (''env = '' @ [CHR 0x22] @ ''dev OR env = prod'' @ [CHR 0x22]) = Inr quoted_condition \<and>
   (case ParseLabelCondition (condition_string quoted_condition) of
      Inl e \<Rightarrow> False | Inr c \<Rightarrow> EvaluateCondition [(''env'', ''prod'')] c = Inr True) \<and>
   EvaluateCondition [(''env'', ''prod'')] quoted_condition = Inr False"
proof -
  have e: "byte_in 33 126 (CHR ''e'')" "byte_in 33 126 (CHR 0x22)" "byte_in 33 126 (CHR ''d'')"
    by (simp_all add: byte_in_def)
  have "trim_space (''env = '' @ [CHR 0x22] @ ''dev OR env = prod'' @ [CHR 0x22]) =
      ''env = '' @ [CHR 0x22] @ ''dev OR env = prod'' @ [CHR 0x22]"
    using trim_space_bracketed [OF e(1,2), of "''nv = '' @ [CHR 0x22] @ ''dev OR env = prod''"] by simp
  moreover have "trim_space (''env = dev OR env = prod'') = ''env = dev OR env = prod''"
    using trim_space_bracketed [OF e(1,3), of "''nv = dev OR env = pro''"] by simp
  moreover have "condition_string quoted_condition = ''env = dev OR env = prod''"
    by (simp add: quoted_condition_def atom_string_def)
  moreover have "parseOr (''env = '' @ [CHR 0x22] @ ''dev OR env = prod'' @ [CHR 0x22]) = Inr (quoted_condition, [])"
    by code_simp
  moreover have "(case parseOr ''env = dev OR env = prod'' of Inl e \<Rightarrow> False
      | Inr (c, r) \<Rightarrow> r = [] \<and> EvaluateCondition [(''env'', ''prod'')] c = Inr True)" by code_simp
  moreover have "EvaluateCondition [(''env'', ''prod'')] quoted_condition = Inr False" by code_simp
  ultimately show ?thesis by (auto simp: ParseLabelCondition_def Let_def split: sum.splits prod.splits)
qed

end
