(* ===== verification/Policy.thy ===== *)
theory Policy
  imports Label_Condition
begin

text \<open>
  \<^verbatim>\<open>internal/permission/policy.go\<close> and the engine of \<^verbatim>\<open>abac.go\<close>: policies with an effect, a resource
  pattern, an action and a condition, and the two evaluators over a list of them. A policy caches its
  parsed condition; the cache holds what parsing gives and is not modelled.
\<close>

section \<open>Policies\<close>

definition EffectAllow :: string where "EffectAllow = ''allow''"
definition EffectDeny :: string where "EffectDeny = ''deny''"
definition Wildcard :: string where "Wildcard = ''*''"

record policy =
  po_id :: string
  po_effect :: string
  po_resource :: string
  po_action :: string
  po_condition :: string
  po_description :: string

datatype policy_error =
    ErrUnknownEffect string
  | ErrEmptyResource
  | ErrEmptyPolicyAction
  | ErrNilPolicy
  | ErrCondition condition_error
  | ErrNoMatch string string string

definition Validate :: "policy \<Rightarrow> policy_error + unit" where
  "Validate p =
     (if po_effect p \<noteq> EffectAllow \<and> po_effect p \<noteq> EffectDeny then Inl (ErrUnknownEffect (po_effect p))
      else if po_resource p = '''' then Inl ErrEmptyResource
      else if po_action p = '''' then Inl ErrEmptyPolicyAction
      else if po_condition p \<noteq> '''' then
        (case ParseLabelCondition (po_condition p) of Inl e \<Rightarrow> Inl (ErrCondition e) | Inr _ \<Rightarrow> Inr ())
      else Inr ())"

text \<open>\<^verbatim>\<open>strings.HasSuffix\<close>, \<^verbatim>\<open>strings.TrimSuffix\<close> and \<^verbatim>\<open>strings.Cut\<close> at a colon.\<close>

definition has_suffix :: "string \<Rightarrow> string \<Rightarrow> bool" where
  "has_suffix s p = has_prefix (rev s) (rev p)"

definition trim_suffix :: "string \<Rightarrow> string \<Rightarrow> string" where
  "trim_suffix s p = (if has_suffix s p then take (length s - length p) s else s)"

definition cut_colon :: "string \<Rightarrow> string \<times> string" where
  "cut_colon s = (takeWhile (\<lambda>c. c \<noteq> CHR '':'') s, drop 1 (dropWhile (\<lambda>c. c \<noteq> CHR '':'') s))"

definition matchesResource :: "policy \<Rightarrow> string \<Rightarrow> bool" where
  "matchesResource p request = (let pat = po_resource p in
     if pat = Wildcard then True
     else if pat = request then True
     else if has_suffix pat '':*'' then
       (let kind = trim_suffix pat '':*'' in kind = fst (cut_colon request) \<or> kind = '''')
     else if CHR '':'' \<in> set pat then
       (if fst (cut_colon pat) \<noteq> fst (cut_colon request) then False
        else if CHR ''='' \<in> set (snd (cut_colon pat)) then True
        else snd (cut_colon pat) = snd (cut_colon request))
     else False)"

definition matchesAction :: "policy \<Rightarrow> string \<Rightarrow> bool" where
  "matchesAction p request \<longleftrightarrow> po_action p = Wildcard \<or> po_action p = request"

definition matchesCondition :: "policy \<Rightarrow> labels \<Rightarrow> policy_error + bool" where
  "matchesCondition p ls =
     (if po_condition p = '''' then Inr True
      else case ParseLabelCondition (po_condition p) of
        Inl e \<Rightarrow> Inl (ErrCondition e)
      | Inr c \<Rightarrow> (case EvaluateCondition ls c of Inl e \<Rightarrow> Inl (ErrCondition e) | Inr b \<Rightarrow> Inr b))"

definition Matches :: "policy \<Rightarrow> string \<Rightarrow> string \<Rightarrow> labels \<Rightarrow> policy_error + bool" where
  "Matches p resource action ls =
     (if \<not> matchesResource p resource then Inr False
      else if \<not> matchesAction p action then Inr False
      else matchesCondition p ls)"

section \<open>Sets of policies\<close>

type_synonym policy_set = "policy list"

definition NewPolicySet :: policy_set where "NewPolicySet = []"

definition PolicyAdd :: "policy option \<Rightarrow> policy_set \<Rightarrow> (policy_error + unit) \<times> policy_set" where
  "PolicyAdd po ps = (case po of
     None \<Rightarrow> (Inl ErrNilPolicy, ps)
   | Some p \<Rightarrow> (case Validate p of Inl e \<Rightarrow> (Inl e, ps) | Inr _ \<Rightarrow> (Inr (), ps @ [p])))"

fun PolicyRemove :: "string \<Rightarrow> policy_set \<Rightarrow> bool \<times> policy_set" where
  "PolicyRemove i [] = (False, [])"
| "PolicyRemove i (p # ps) =
     (if po_id p = i then (True, ps) else (case PolicyRemove i ps of (b, ps') \<Rightarrow> (b, p # ps')))"

text \<open>The stable sort by id, then by resource.\<close>

definition PolicyList :: "policy_set \<Rightarrow> policy list" where
  "PolicyList ps = sort_key po_id (sort_key po_resource ps)"

record evaluation_context =
  ev_subject :: string
  ev_action :: string
  ev_resource :: string
  ev_labels :: labels

record evaluation =
  en_first_err :: "policy_error option"
  en_any :: bool
  en_allow :: bool
  en_deny :: bool

fun evaluate_loop :: "evaluation_context \<Rightarrow> policy list \<Rightarrow> evaluation \<Rightarrow> evaluation" where
  "evaluate_loop ctx [] st = st"
| "evaluate_loop ctx (p # ps) st = (case Matches p (ev_resource ctx) (ev_action ctx) (ev_labels ctx) of
     Inl e \<Rightarrow> evaluate_loop ctx ps (if en_first_err st = None then st\<lparr>en_first_err := Some e\<rparr> else st)
   | Inr False \<Rightarrow> evaluate_loop ctx ps st
   | Inr True \<Rightarrow> evaluate_loop ctx ps
       (if po_effect p = EffectDeny then st\<lparr>en_any := True, en_deny := True\<rparr>
        else st\<lparr>en_any := True, en_allow := True\<rparr>))"

text \<open>
  The last branch returns \<^verbatim>\<open>(false, firstErr)\<close>, which is \<^verbatim>\<open>(false, nil)\<close> when no policy erred.
\<close>

definition PolicyEvaluate :: "policy_set \<Rightarrow> evaluation_context \<Rightarrow> policy_error + bool" where
  "PolicyEvaluate ps ctx =
     (let st = evaluate_loop ctx ps \<lparr>en_first_err = None, en_any = False, en_allow = False, en_deny = False\<rparr> in
      if en_deny st then Inr False
      else if en_allow st then Inr True
      else if \<not> en_any st then Inl (ErrNoMatch (ev_subject ctx) (ev_action ctx) (ev_resource ctx))
      else case en_first_err st of Some e \<Rightarrow> Inl e | None \<Rightarrow> Inr False)"

fun validate_all :: "policy list \<Rightarrow> policy_error + unit" where
  "validate_all [] = Inr ()"
| "validate_all (p # ps) = (case Validate p of Inl e \<Rightarrow> Inl e | Inr _ \<Rightarrow> validate_all ps)"

definition PolicyLoadFromConfig :: "policy list \<Rightarrow> policy_set \<Rightarrow> (policy_error + unit) \<times> policy_set" where
  "PolicyLoadFromConfig cfg ps = (case validate_all cfg of Inl e \<Rightarrow> (Inl e, ps) | Inr _ \<Rightarrow> (Inr (), cfg))"

section \<open>The engine of the command line\<close>

datatype abac_reason = DeniedBy string | AllowedBy string | EvaluationError policy_error | NoMatchingPolicy

text \<open>The first allowing id, the denying id and the first error; the loop ends at a deny.\<close>

fun abac_loop :: "string \<Rightarrow> string \<Rightarrow> labels \<Rightarrow> policy list \<Rightarrow> string \<Rightarrow> policy_error option \<Rightarrow>
    string \<times> string \<times> policy_error option" where
  "abac_loop action resource ls [] allow_id err = (allow_id, '''', err)"
| "abac_loop action resource ls (p # ps) allow_id err = (case Matches p resource action ls of
     Inl e \<Rightarrow> abac_loop action resource ls ps allow_id (if err = None then Some e else err)
   | Inr False \<Rightarrow> abac_loop action resource ls ps allow_id err
   | Inr True \<Rightarrow> if po_effect p = EffectDeny then (allow_id, po_id p, err)
       else abac_loop action resource ls ps (if allow_id = '''' then po_id p else allow_id) err)"

definition AbacEvaluate :: "policy_set \<Rightarrow> string \<Rightarrow> string \<Rightarrow> string \<Rightarrow> labels \<Rightarrow> bool \<times> abac_reason" where
  "AbacEvaluate ps subject action resource ls =
     (case abac_loop action resource ls ps '''' None of (allow_id, deny_id, err) \<Rightarrow>
        if deny_id \<noteq> '''' then (False, DeniedBy deny_id)
        else if allow_id \<noteq> '''' then (True, AllowedBy allow_id)
        else case err of Some e \<Rightarrow> (False, EvaluationError e) | None \<Rightarrow> (False, NoMatchingPolicy))"

section \<open>What the evaluators decide\<close>

definition applies :: "evaluation_context \<Rightarrow> policy \<Rightarrow> bool" where
  "applies ctx p \<longleftrightarrow> Matches p (ev_resource ctx) (ev_action ctx) (ev_labels ctx) = Inr True"

definition denies :: "evaluation_context \<Rightarrow> policy \<Rightarrow> bool" where
  "denies ctx p \<longleftrightarrow> applies ctx p \<and> po_effect p = EffectDeny"

lemma Matches_cases:
  obtains "applies ctx p" "Matches p (ev_resource ctx) (ev_action ctx) (ev_labels ctx) = Inr True"
  | "\<not> applies ctx p" "Matches p (ev_resource ctx) (ev_action ctx) (ev_labels ctx) = Inr False"
  | e where "\<not> applies ctx p" "Matches p (ev_resource ctx) (ev_action ctx) (ev_labels ctx) = Inl e"
  by (cases "Matches p (ev_resource ctx) (ev_action ctx) (ev_labels ctx)") (auto simp: applies_def)

lemma evaluate_loop_flags:
  "en_deny (evaluate_loop ctx ps st) \<longleftrightarrow> en_deny st \<or> (\<exists>p\<in>set ps. denies ctx p)"
  "en_allow (evaluate_loop ctx ps st) \<longleftrightarrow> en_allow st \<or> (\<exists>p\<in>set ps. applies ctx p \<and> \<not> denies ctx p)"
  "en_any (evaluate_loop ctx ps st) \<longleftrightarrow> en_any st \<or> (\<exists>p\<in>set ps. applies ctx p)"
proof (induction ps arbitrary: st)
  case (Cons p ps)
  { case 1
    show ?case by (rule Matches_cases [of ctx p]) (auto simp: Cons denies_def)
  next
    case 2
    show ?case by (rule Matches_cases [of ctx p]) (auto simp: Cons denies_def)
  next
    case 3
    show ?case by (rule Matches_cases [of ctx p]) (auto simp: Cons denies_def) }
qed simp_all

lemma PolicyEvaluate_iff:
  "PolicyEvaluate ps ctx =
    (if \<exists>p\<in>set ps. denies ctx p then Inr False
     else if \<exists>p\<in>set ps. applies ctx p then Inr True
     else Inl (ErrNoMatch (ev_subject ctx) (ev_action ctx) (ev_resource ctx)))"
  unfolding PolicyEvaluate_def Let_def evaluate_loop_flags by auto

lemma validated_evaluates: "Validate p = Inr () \<Longrightarrow> \<exists>b. Matches p r a ls = Inr b"
proof -
  assume v: "Validate p = Inr ()"
  have "\<exists>b. matchesCondition p ls = Inr b"
  proof (cases "po_condition p = ''''")
    case False
    then obtain c where c: "ParseLabelCondition (po_condition p) = Inr c"
      using v by (auto simp: Validate_def split: if_splits sum.splits)
    then show ?thesis using False well_formed_evaluates [OF parsed_well_formed [OF c], of ls]
      by (auto simp: matchesCondition_def)
  qed (auto simp: matchesCondition_def)
  then show ?thesis by (auto simp: Matches_def)
qed

lemma validate_all_ok: "validate_all ps = Inr () \<Longrightarrow> p \<in> set ps \<Longrightarrow> Validate p = Inr ()"
  by (induction ps) (auto split: sum.splits)

text \<open>
  C27. A loaded set of policies decides by deny-wins: whatever the order of the policies, a request
  is refused when some policy that matches it denies, allowed when one matches and none denies,
  and left undecided exactly when none matches; and since loading checks every condition, each
  policy of the set either matches or does not, no evaluation fails.
\<close>

theorem policy_set_decides:
  assumes "PolicyLoadFromConfig cfg ps0 = (Inr (), ps)"
  shows "(PolicyEvaluate ps ctx = Inr False \<longleftrightarrow> (\<exists>p\<in>set ps. denies ctx p)) \<and>
    (PolicyEvaluate ps ctx = Inr True \<longleftrightarrow> (\<exists>p\<in>set ps. applies ctx p) \<and> \<not> (\<exists>p\<in>set ps. denies ctx p)) \<and>
    ((\<exists>e. PolicyEvaluate ps ctx = Inl e) \<longleftrightarrow> \<not> (\<exists>p\<in>set ps. applies ctx p)) \<and>
    list_all (\<lambda>p. \<not> isl (Matches p (ev_resource ctx) (ev_action ctx) (ev_labels ctx))) ps"
proof -
  have ps: "ps = cfg" "validate_all cfg = Inr ()"
    using assms by (auto simp: PolicyLoadFromConfig_def split: sum.splits)
  have "list_all (\<lambda>p. \<not> isl (Matches p (ev_resource ctx) (ev_action ctx) (ev_labels ctx))) ps"
    unfolding list_all_iff ps(1)
    using validate_all_ok [OF ps(2)] validated_evaluates [of _ "ev_resource ctx" "ev_action ctx" "ev_labels ctx"]
    by fastforce
  then show ?thesis unfolding PolicyEvaluate_iff by (auto simp: denies_def)
qed

text \<open>The engine and the set agree as long as every policy has an id.\<close>

lemma abac_loop_named:
  assumes "\<forall>p\<in>set ps. po_id p \<noteq> ''''"
  shows "abac_loop (ev_action ctx) (ev_resource ctx) (ev_labels ctx) ps i err = (a, d, e) \<Longrightarrow>
    (d \<noteq> '''' \<longleftrightarrow> (\<exists>p\<in>set ps. denies ctx p)) \<and>
    (d = '''' \<longrightarrow> (a \<noteq> '''' \<longleftrightarrow> i \<noteq> '''' \<or> (\<exists>p\<in>set ps. applies ctx p)))"
  using assms
proof (induction ps arbitrary: i err)
  case (Cons p ps)
  show ?case
  proof (rule Matches_cases [of ctx p])
    assume m: "applies ctx p" "Matches p (ev_resource ctx) (ev_action ctx) (ev_labels ctx) = Inr True"
    show ?thesis
    proof (cases "po_effect p = EffectDeny")
      case True
      then show ?thesis using Cons.prems m by (auto simp: denies_def)
    next
      case False
      then have "abac_loop (ev_action ctx) (ev_resource ctx) (ev_labels ctx) ps
          (if i = '''' then po_id p else i) err = (a, d, e)" using Cons.prems(1) m by simp
      from Cons.IH [OF this] Cons.prems(2) m False show ?thesis by (auto simp: denies_def)
    qed
  next
    assume m: "\<not> applies ctx p" "Matches p (ev_resource ctx) (ev_action ctx) (ev_labels ctx) = Inr False"
    then show ?thesis using Cons.IH [of i err] Cons.prems by (simp add: denies_def)
  next
    fix e'
    assume m: "\<not> applies ctx p" "Matches p (ev_resource ctx) (ev_action ctx) (ev_labels ctx) = Inl e'"
    then show ?thesis using Cons.IH [of i "if err = None then Some e' else err"] Cons.prems by (simp add: denies_def)
  qed
qed auto

text \<open>
  The two evaluators agree on policies that have ids: the engine behind the command line allows a
  request exactly when the policy set of the services does, for every list of policies,
  malformed conditions included.
\<close>

theorem evaluators_agree:
  assumes "\<forall>p\<in>set ps. po_id p \<noteq> ''''"
  shows "fst (AbacEvaluate ps (ev_subject ctx) (ev_action ctx) (ev_resource ctx) (ev_labels ctx)) \<longleftrightarrow>
    PolicyEvaluate ps ctx = Inr True"
proof -
  obtain a d e where l: "abac_loop (ev_action ctx) (ev_resource ctx) (ev_labels ctx) ps '''' None = (a, d, e)"
    by (metis prod_cases3)
  show ?thesis using abac_loop_named [OF assms l] unfolding AbacEvaluate_def l PolicyEvaluate_iff
    by (auto split: option.splits)
qed

text \<open>
  A deny without an id does not deny at the command line: the id of a policy is optional and passes
  validation empty, but the engine tells a deny by its id. Behind an allowing policy that has an id,
  the first matching deny without one ends the loop and the request is allowed, where the
  services refuse it.
\<close>

theorem anonymous_deny_allows:
  assumes "applies ctx p" and "po_effect p \<noteq> EffectDeny" and "po_id p \<noteq> ''''"
    and "denies ctx q" and "po_id q = ''''"
  shows "AbacEvaluate (p # q # ps) (ev_subject ctx) (ev_action ctx) (ev_resource ctx) (ev_labels ctx) =
      (True, AllowedBy (po_id p)) \<and> PolicyEvaluate (p # q # ps) ctx = Inr False"
proof -
  have m: "Matches p (ev_resource ctx) (ev_action ctx) (ev_labels ctx) = Inr True"
    "Matches q (ev_resource ctx) (ev_action ctx) (ev_labels ctx) = Inr True" "po_effect q = EffectDeny"
    using assms by (auto simp: applies_def denies_def)
  then show ?thesis using assms unfolding PolicyEvaluate_iff by (simp add: AbacEvaluate_def)
qed

section \<open>Policies to evaluate\<close>

definition demo_policy :: "string \<Rightarrow> string \<Rightarrow> policy" where
  "demo_policy i eff = \<lparr>po_id = i, po_effect = eff, po_resource = ''change:*'', po_action = ''apply'',
     po_condition = '''', po_description = ''''\<rparr>"

definition demo_request :: evaluation_context where
  "demo_request = \<lparr>ev_subject = ''ann'', ev_action = ''apply'', ev_resource = ''change:*'',
     ev_labels = [(''env'', ''prod'')]\<rparr>"

lemma demo_applies: "applies demo_request (demo_policy i eff)"
  by (simp add: applies_def Matches_def matchesResource_def matchesAction_def matchesCondition_def
      demo_policy_def demo_request_def)

lemma demo_policy_fields [simp]: "po_id (demo_policy i eff) = i" "po_effect (demo_policy i eff) = eff"
  by (simp_all add: demo_policy_def)

theorem policy_set_decides_witness:
  "PolicyEvaluate [demo_policy ''a'' ''allow'', demo_policy '''' ''deny''] demo_request = Inr False"
proof -
  have "PolicyLoadFromConfig [demo_policy ''a'' ''allow'', demo_policy '''' ''deny''] [] =
      (Inr (), [demo_policy ''a'' ''allow'', demo_policy '''' ''deny''])"
    by (simp add: PolicyLoadFromConfig_def Validate_def demo_policy_def EffectAllow_def EffectDeny_def)
  from policy_set_decides [OF this, of demo_request] show ?thesis
    using demo_applies by (auto simp: denies_def EffectDeny_def)
qed

theorem evaluators_agree_witness:
  "fst (AbacEvaluate [demo_policy ''a'' ''allow''] ''ann'' ''apply'' ''change:*'' [(''env'', ''prod'')])"
  using evaluators_agree [of "[demo_policy ''a'' ''allow'']" demo_request] demo_applies
  unfolding PolicyEvaluate_iff by (auto simp: denies_def EffectDeny_def demo_request_def)

theorem anonymous_deny_allows_witness:
  "fst (AbacEvaluate [demo_policy ''a'' ''allow'', demo_policy '''' ''deny''] ''ann'' ''apply'' ''change:*'' [(''env'', ''prod'')])"
  using anonymous_deny_allows [of demo_request "demo_policy ''a'' ''allow''" "demo_policy '''' ''deny''" "[]"] demo_applies
  by (simp add: denies_def EffectDeny_def) (simp add: demo_request_def)

end
