(* ===== verification/Authz.thy ===== *)
theory Authz
  imports Role_Tree Policy
begin

text \<open>
  \<^verbatim>\<open>internal/permission/matrix.go\<close>, \<^verbatim>\<open>internal/identity\<close> and \<^verbatim>\<open>internal/authz/authz.go\<close>: the matrix of
  teams and environments, the registry of users, and the decision composed of the matrix, the role
  tree and the policies. Warnings are logging and not modelled.
\<close>

section \<open>The permission matrix\<close>

definition ActionPlan :: string where "ActionPlan = ''plan''"
definition ActionApply :: string where "ActionApply = ''apply''"
definition ActionApproveChange :: string where "ActionApproveChange = ''approve''"
definition ActionRollback :: string where "ActionRollback = ''rollback''"
definition PermActionPause :: string where "PermActionPause = ''pause''"
definition PermActionResume :: string where "PermActionResume = ''resume''"
definition PermActionPauseAll :: string where "PermActionPauseAll = ''pause_all''"
definition PermActionResumeAll :: string where "PermActionResumeAll = ''resume_all''"
definition ActionCancel :: string where "ActionCancel = ''cancel''"
definition ActionView :: string where "ActionView = ''view''"
definition ActionAdmin :: string where "ActionAdmin = ''admin''"

lemmas action_defs = ActionPlan_def ActionApply_def ActionApproveChange_def ActionRollback_def PermActionPause_def
  PermActionResume_def PermActionPauseAll_def PermActionResumeAll_def ActionCancel_def ActionView_def ActionAdmin_def

definition AllActions :: "string list" where
  "AllActions = [ActionPlan, ActionApply, ActionApproveChange, ActionRollback, PermActionPause, PermActionResume,
     PermActionPauseAll, PermActionResumeAll, ActionCancel, ActionView, ActionAdmin]"

definition isKnownAction :: "string \<Rightarrow> bool" where
  "isKnownAction a \<longleftrightarrow> a \<in> set AllActions"

type_synonym rules = "(string, (string, string fset) fmap) fmap"

record permission_matrix =
  pm_grants :: rules
  pm_revokes :: rules
  pm_strict :: bool

datatype matrix_error =
    ErrConfigInvalid string
  | ErrUnknownAction string string string

record env_permission =
  ep_name :: string
  ep_actions :: "string list"

record team_rule =
  tm_name :: string
  tm_environments :: "env_permission list"

definition NewPermissionMatrix :: permission_matrix where
  "NewPermissionMatrix = \<lparr>pm_grants = fmempty, pm_revokes = fmempty, pm_strict = False\<rparr>"

text \<open>The actions at a team and an environment; adding one creates what is missing on the way.\<close>

definition acts_at :: "rules \<Rightarrow> string \<Rightarrow> string \<Rightarrow> string fset" where
  "acts_at m t e = (case fmlookup m t of None \<Rightarrow> {||} | Some envs \<Rightarrow> set_at envs e)"

definition add_rule :: "string \<Rightarrow> string \<Rightarrow> string \<Rightarrow> rules \<Rightarrow> rules" where
  "add_rule t e a m = (let envs = (case fmlookup m t of None \<Rightarrow> fmempty | Some envs \<Rightarrow> envs)
     in fmupd t (fmupd e (finsert a (set_at envs e)) envs) m)"

fun load_actions :: "bool \<Rightarrow> string \<Rightarrow> string \<Rightarrow> string list \<Rightarrow> rules \<Rightarrow> matrix_error + rules" where
  "load_actions strict t e [] m = Inr m"
| "load_actions strict t e (a # as) m =
     (if a = '''' then Inl (ErrConfigInvalid ''action is empty'')
      else if \<not> isKnownAction a \<and> strict then Inl (ErrUnknownAction a t e)
      else load_actions strict t e as (add_rule t e a m))"

fun load_envs :: "bool \<Rightarrow> string \<Rightarrow> env_permission list \<Rightarrow> rules \<Rightarrow> matrix_error + rules" where
  "load_envs strict t [] m = Inr m"
| "load_envs strict t (e # es) m =
     (if ep_name e = '''' then Inl (ErrConfigInvalid ''environment name is empty'')
      else case load_actions strict t (ep_name e) (ep_actions e) m of
        Inl err \<Rightarrow> Inl err | Inr m' \<Rightarrow> load_envs strict t es m')"

fun load_teams :: "bool \<Rightarrow> team_rule list \<Rightarrow> rules \<Rightarrow> matrix_error + rules" where
  "load_teams strict [] m = Inr m"
| "load_teams strict (t # ts) m =
     (if tm_name t = '''' then Inl (ErrConfigInvalid ''team name is empty'')
      else case load_envs strict (tm_name t) (tm_environments t) m of
        Inl err \<Rightarrow> Inl err | Inr m' \<Rightarrow> load_teams strict ts m')"

definition MatrixLoadFromConfig :: "team_rule list \<Rightarrow> permission_matrix \<Rightarrow> (matrix_error + unit) \<times> permission_matrix" where
  "MatrixLoadFromConfig cfg m =
     (if cfg = [] then (Inl (ErrConfigInvalid ''no teams defined''), m)
      else case load_teams (pm_strict m) cfg fmempty of
        Inl err \<Rightarrow> (Inl err, m)
      | Inr g \<Rightarrow> (Inr (), m\<lparr>pm_grants := g, pm_revokes := fmempty\<rparr>))"

definition candidates :: "string \<Rightarrow> string \<Rightarrow> (string \<times> string) list" where
  "candidates t e = [(t, e), (Wildcard, e), (t, Wildcard), (Wildcard, Wildcard)]"

definition matrix_lookup :: "rules \<Rightarrow> string \<Rightarrow> string \<Rightarrow> string \<Rightarrow> bool" where
  "matrix_lookup m t e a \<longleftrightarrow> list_ex (\<lambda>(ct, ce). a |\<in>| acts_at m ct ce) (candidates t e)"

definition Allow :: "permission_matrix \<Rightarrow> string \<Rightarrow> string \<Rightarrow> string \<Rightarrow> bool" where
  "Allow m t e a =
     (if t = '''' \<or> e = '''' \<or> a = '''' then False
      else if matrix_lookup (pm_revokes m) t e a then False
      else if matrix_lookup (pm_grants m) t e a then True
      else if a \<noteq> ActionAdmin \<and> matrix_lookup (pm_grants m) t e ActionAdmin then True
      else False)"

definition Revoked :: "permission_matrix \<Rightarrow> string \<Rightarrow> string \<Rightarrow> string \<Rightarrow> bool" where
  "Revoked m t e a = (if t = '''' \<or> e = '''' \<or> a = '''' then False else matrix_lookup (pm_revokes m) t e a)"

definition AllowAny :: "permission_matrix \<Rightarrow> string \<Rightarrow> string \<Rightarrow> string list \<Rightarrow> bool" where
  "AllowAny m t e as \<longleftrightarrow> list_ex (Allow m t e) as"

definition AllowAll :: "permission_matrix \<Rightarrow> string \<Rightarrow> string \<Rightarrow> string list \<Rightarrow> bool" where
  "AllowAll m t e as \<longleftrightarrow> as \<noteq> [] \<and> list_all (Allow m t e) as"

definition collectGrants :: "permission_matrix \<Rightarrow> string \<Rightarrow> string \<Rightarrow> string fset" where
  "collectGrants m t e = fold (\<lambda>(ct, ce) s. s |\<union>| acts_at (pm_grants m) ct ce) (candidates t e) {||}"

definition ActionsFor :: "permission_matrix \<Rightarrow> string \<Rightarrow> string \<Rightarrow> string list" where
  "ActionsFor m t e =
     (if t = '''' \<or> e = '''' then []
      else
        let live = (\<lambda>a. \<not> matrix_lookup (pm_revokes m) t e a);
            direct = ffilter live (collectGrants m t e);
            seen = (if matrix_lookup (pm_grants m) t e ActionAdmin
               then direct |\<union>| fset_of_list (filter live AllActions) else direct)
        in sorted_list_of_fset seen)"

definition Teams :: "permission_matrix \<Rightarrow> string list" where
  "Teams m = sorted_list_of_fset ((fmdom (pm_grants m) |\<union>| fmdom (pm_revokes m)) |-| {|Wildcard|})"

definition Grant :: "string \<Rightarrow> string \<Rightarrow> string \<Rightarrow> permission_matrix \<Rightarrow> (matrix_error + unit) \<times> permission_matrix" where
  "Grant t e a m =
     (if t = '''' \<or> e = '''' \<or> a = '''' then (Inr (), m)
      else if \<not> isKnownAction a \<and> pm_strict m then (Inl (ErrUnknownAction a t e), m)
      else (Inr (), m\<lparr>pm_grants := add_rule t e a (pm_grants m)\<rparr>))"

definition Revoke :: "string \<Rightarrow> string \<Rightarrow> string \<Rightarrow> permission_matrix \<Rightarrow> (matrix_error + unit) \<times> permission_matrix" where
  "Revoke t e a m =
     (if t = '''' \<or> e = '''' \<or> a = '''' then (Inr (), m)
      else if \<not> isKnownAction a \<and> pm_strict m then (Inl (ErrUnknownAction a t e), m)
      else (Inr (), m\<lparr>pm_revokes := add_rule t e a (pm_revokes m)\<rparr>))"

section \<open>The registry and the authorizer\<close>

record user =
  us_name :: string
  us_team :: string
  us_role :: string

definition RegistryLookup :: "user list \<Rightarrow> string \<Rightarrow> user option" where
  "RegistryLookup us n = find (\<lambda>u. us_name u = n) us"

record authorizer =
  az_registry :: "user list"
  az_matrix :: permission_matrix
  az_roles :: role_tree
  az_policies :: policy_set
  az_default_env :: string
  az_default_subject :: string

record auth_decision =
  ad_enforced :: bool
  ad_allowed :: bool
  ad_via :: string
  ad_reason :: string
  ad_subject :: string
  ad_env :: string
  ad_action :: string
  ad_team :: string
  ad_role :: string

definition ViaMatrix :: string where "ViaMatrix = ''matrix''"
definition ViaRole :: string where "ViaRole = ''role''"
definition ViaPolicy :: string where "ViaPolicy = ''policy''"

definition WithDefaultSubject :: "string \<Rightarrow> authorizer \<Rightarrow> authorizer" where
  "WithDefaultSubject s a = a\<lparr>az_default_subject := s\<rparr>"

definition subjectOr :: "authorizer \<Rightarrow> string \<Rightarrow> string" where
  "subjectOr a s = (if s = '''' then az_default_subject a else s)"

definition Enforced :: "authorizer \<Rightarrow> bool" where
  "Enforced a \<longleftrightarrow> Teams (az_matrix a) \<noteq> []"

definition ResolveEnv :: "authorizer \<Rightarrow> string \<Rightarrow> string" where
  "ResolveEnv a env = (if env \<noteq> '''' then env else az_default_env a)"

definition policyResourceFor :: "string \<Rightarrow> string" where
  "policyResourceFor action =
     (if action \<in> {ActionPlan, ActionApply, ActionApproveChange, ActionRollback, PermActionPause, PermActionResume,
        PermActionPauseAll, PermActionResumeAll, ActionCancel} then ''change:*'' else Wildcard)"

definition policy_request :: "string \<Rightarrow> string \<Rightarrow> string \<Rightarrow> evaluation_context" where
  "policy_request subject env action = \<lparr>ev_subject = subject, ev_action = action,
     ev_resource = policyResourceFor action, ev_labels = [(''env'', env), (''target.env'', env)]\<rparr>"

text \<open>The reasons keep the clause without the names formatted into it.\<close>

definition applyPolicyLayer :: "authorizer \<Rightarrow> auth_decision \<Rightarrow> string \<Rightarrow> string \<Rightarrow> string \<Rightarrow> string \<Rightarrow> auth_decision" where
  "applyPolicyLayer a d subject env action via =
     (if az_policies a = [] then d\<lparr>ad_allowed := True, ad_via := via\<rparr>
      else case PolicyEvaluate (az_policies a) (policy_request subject env action) of
        Inl (ErrNoMatch _ _ _) \<Rightarrow> d\<lparr>ad_allowed := True, ad_via := via\<rparr>
      | Inl _ \<Rightarrow> d\<lparr>ad_reason := ''conditional policy could not be evaluated''\<rparr>
      | Inr True \<Rightarrow> d\<lparr>ad_allowed := True, ad_via := ViaPolicy\<rparr>
      | Inr False \<Rightarrow> d\<lparr>ad_reason := ''denied by a conditional policy''\<rparr>)"

definition Decide :: "authorizer \<Rightarrow> string \<Rightarrow> string \<Rightarrow> string \<Rightarrow> auth_decision" where
  "Decide a subject0 env0 action =
     (let subject = subjectOr a subject0;
          d0 = \<lparr>ad_enforced = True, ad_allowed = False, ad_via = '''', ad_reason = '''', ad_subject = subject,
                ad_env = env0, ad_action = action, ad_team = '''', ad_role = ''''\<rparr>
      in if \<not> Enforced a then
        d0\<lparr>ad_enforced := False, ad_allowed := True, ad_reason := ''no permission matrix configured''\<rparr>
      else
        let env = (if env0 = '''' then az_default_env a else env0); d = d0\<lparr>ad_env := env\<rparr> in
        if env = '''' then d\<lparr>ad_reason := ''no environment given''\<rparr>
        else if subject = '''' then d\<lparr>ad_reason := ''no authenticated subject''\<rparr>
        else case RegistryLookup (az_registry a) subject of
          None \<Rightarrow> d\<lparr>ad_reason := ''subject is not registered''\<rparr>
        | Some u \<Rightarrow>
           (let d = d\<lparr>ad_team := us_team u, ad_role := us_role u\<rparr> in
            if us_team u = '''' then d\<lparr>ad_reason := ''registered without a team''\<rparr>
            else if Allow (az_matrix a) (us_team u) env action then applyPolicyLayer a d subject env action ViaMatrix
            else if ActionsFor (az_matrix a) (us_team u) env = [] then d\<lparr>ad_reason := ''no grant in environment''\<rparr>
            else if Revoked (az_matrix a) (us_team u) env action then d\<lparr>ad_reason := ''explicitly revoked''\<rparr>
            else case EffectivePermissions (az_roles a) (us_role u) of
              Inl _ \<Rightarrow> d\<lparr>ad_reason := ''role is not declared''\<rparr>
            | Inr granted \<Rightarrow> if action \<in> set granted then applyPolicyLayer a d subject env action ViaRole
                else d\<lparr>ad_reason := ''neither the matrix nor the role grants it''\<rparr>))"

definition AdmitsRead :: "authorizer \<Rightarrow> string \<Rightarrow> string \<Rightarrow> bool" where
  "AdmitsRead a subject0 env = (let subject = subjectOr a subject0 in
     if \<not> Enforced a then True
     else if subject = '''' then True
     else ad_allowed (Decide a subject env ActionView))"

definition ReadFilteringActive :: "authorizer \<Rightarrow> string \<Rightarrow> bool" where
  "ReadFilteringActive a subject \<longleftrightarrow> Enforced a \<and> subjectOr a subject \<noteq> ''''"

definition Knows :: "authorizer option \<Rightarrow> string \<Rightarrow> bool" where
  "Knows ao subject = (case ao of None \<Rightarrow> False
     | Some a \<Rightarrow> subject \<noteq> '''' \<and> RegistryLookup (az_registry a) subject \<noteq> None)"

section \<open>What the matrix answers\<close>

definition matrix_ok :: "permission_matrix \<Rightarrow> bool" where
  "matrix_ok m \<longleftrightarrow> (\<forall>t e. '''' |\<notin>| acts_at (pm_grants m) t e)"

inductive matrix_built :: "permission_matrix \<Rightarrow> bool" where
  new: "matrix_built NewPermissionMatrix"
| load: "matrix_built m \<Longrightarrow> matrix_built (snd (MatrixLoadFromConfig cfg m))"
| grant: "matrix_built m \<Longrightarrow> matrix_built (snd (Grant t e a m))"
| revoke: "matrix_built m \<Longrightarrow> matrix_built (snd (Revoke t e a m))"

lemma acts_at_add_rule [simp]:
  "acts_at (add_rule t e a m) t' e' = (if t' = t \<and> e' = e then finsert a (acts_at m t e) else acts_at m t' e')"
  by (auto simp: acts_at_def add_rule_def Let_def set_at_def split: option.splits)

lemma acts_at_empty [simp]: "acts_at fmempty t e = {||}"
  by (simp add: acts_at_def)

lemma load_actions_acts:
  "load_actions strict t e as m = Inr m' \<Longrightarrow>
    '''' \<notin> set as \<and> (\<forall>t' e'. fset (acts_at m' t' e') =
      fset (acts_at m t' e') \<union> (if t' = t \<and> e' = e then set as else {}))"
  by (induction as arbitrary: m) (auto split: if_splits)

lemma load_envs_acts:
  "load_envs strict t es m = Inr m' \<Longrightarrow>
    (\<forall>e\<in>set es. '''' \<notin> set (ep_actions e)) \<and> (\<forall>t' e'. fset (acts_at m' t' e') =
      fset (acts_at m t' e') \<union> {a. t' = t \<and> (\<exists>e\<in>set es. ep_name e = e' \<and> a \<in> set (ep_actions e))})"
proof (induction es arbitrary: m)
  case (Cons e es)
  then obtain m1 where s: "load_actions strict t (ep_name e) (ep_actions e) m = Inr m1"
    "load_envs strict t es m1 = Inr m'" by (auto split: if_splits sum.splits)
  show ?case using load_actions_acts [OF s(1)] Cons.IH [OF s(2)] by auto
qed auto

lemma load_teams_acts:
  "load_teams strict ts m = Inr m' \<Longrightarrow>
    (\<forall>t\<in>set ts. \<forall>e\<in>set (tm_environments t). '''' \<notin> set (ep_actions e)) \<and>
    (\<forall>t' e'. fset (acts_at m' t' e') = fset (acts_at m t' e') \<union>
       {a. \<exists>t\<in>set ts. tm_name t = t' \<and> (\<exists>e\<in>set (tm_environments t). ep_name e = e' \<and> a \<in> set (ep_actions e))})"
proof (induction ts arbitrary: m)
  case (Cons t ts)
  then obtain m1 where s: "load_envs strict (tm_name t) (tm_environments t) m = Inr m1"
    "load_teams strict ts m1 = Inr m'" by (auto split: if_splits sum.splits)
  show ?case using load_envs_acts [OF s(1)] Cons.IH [OF s(2)] by auto
qed auto

lemma matrix_built_ok: "matrix_built m \<Longrightarrow> matrix_ok m"
proof (induction rule: matrix_built.induct)
  case (load m cfg)
  then show ?case
    by (auto simp: MatrixLoadFromConfig_def matrix_ok_def split: sum.splits dest!: load_teams_acts)
next
  case (grant m t e a)
  then show ?case by (auto simp: Grant_def matrix_ok_def)
next
  case (revoke m t e a)
  then show ?case by (auto simp: Revoke_def matrix_ok_def)
qed (auto simp: NewPermissionMatrix_def matrix_ok_def)

lemma matrix_lookup_iff:
  "matrix_lookup m t e a \<longleftrightarrow> (\<exists>(ct, ce)\<in>{t, Wildcard} \<times> {e, Wildcard}. a |\<in>| acts_at m ct ce)"
  by (auto simp: matrix_lookup_def candidates_def)

lemma collectGrants_iff: "a |\<in>| collectGrants m t e \<longleftrightarrow> matrix_lookup (pm_grants m) t e a"
  by (auto simp: collectGrants_def matrix_lookup_def candidates_def)

lemma set_ActionsFor:
  "set (ActionsFor m t e) = {a. t \<noteq> '''' \<and> e \<noteq> '''' \<and> \<not> matrix_lookup (pm_revokes m) t e a \<and>
     (matrix_lookup (pm_grants m) t e a \<or> matrix_lookup (pm_grants m) t e ActionAdmin \<and> isKnownAction a)}"
  by (auto simp: ActionsFor_def Let_def collectGrants_iff isKnownAction_def fset_of_list.rep_eq)

lemma lookup_nonempty: "matrix_ok m \<Longrightarrow> \<not> matrix_lookup (pm_grants m) t e ''''"
  by (auto simp: matrix_lookup_iff matrix_ok_def)

lemma known_nonempty: "isKnownAction a \<Longrightarrow> a \<noteq> ''''"
  by (auto simp: isKnownAction_def AllActions_def action_defs)

text \<open>
  The list of permitted actions and the question whether one is permitted agree: in every matrix
  that loading, granting and revoking can build, the actions listed for a team and an environment are
  those allowed there, of the known actions and those granted by name; in particular the list is
  empty exactly when nothing known or granted by name is allowed.
\<close>

theorem actions_listed_are_allowed:
  assumes "matrix_built m"
  shows "set (ActionsFor m t e) =
    {a. Allow m t e a \<and> (isKnownAction a \<or> matrix_lookup (pm_grants m) t e a)}"
proof (rule set_eqI)
  fix a
  show "a \<in> set (ActionsFor m t e) \<longleftrightarrow>
      a \<in> {a. Allow m t e a \<and> (isKnownAction a \<or> matrix_lookup (pm_grants m) t e a)}"
    using lookup_nonempty [OF matrix_built_ok [OF assms], of t e] known_nonempty [of a]
    unfolding set_ActionsFor Allow_def mem_Collect_eq by (cases "a = ActionAdmin") auto
qed

section \<open>What the authorizer decides\<close>

text \<open>A team reaches an environment where some action, known or granted by name, is allowed to it.\<close>

definition reaches :: "permission_matrix \<Rightarrow> string \<Rightarrow> string \<Rightarrow> bool" where
  "reaches m t e \<longleftrightarrow> (\<exists>b. Allow m t e b \<and> (isKnownAction b \<or> matrix_lookup (pm_grants m) t e b))"

definition role_grants :: "role_tree \<Rightarrow> string \<Rightarrow> string \<Rightarrow> bool" where
  "role_grants t r a \<longleftrightarrow> HasRole t r \<and> a \<in> effective t r"

lemma listed_reaches: "matrix_built m \<Longrightarrow> ActionsFor m t e = [] \<longleftrightarrow> \<not> reaches m t e"
proof -
  assume "matrix_built m"
  then have "set (ActionsFor m t e) = {b. Allow m t e b \<and> (isKnownAction b \<or> matrix_lookup (pm_grants m) t e b)}"
    using lookup_nonempty [OF matrix_built_ok, of m t e] known_nonempty
    unfolding set_ActionsFor Allow_def by (auto split: if_splits)
  then show ?thesis unfolding reaches_def set_empty [symmetric] by auto
qed

lemma EffectivePermissions_grants:
  "(\<exists>g. EffectivePermissions t r = Inr g \<and> a \<in> set g) \<longleftrightarrow> role_grants t r a"
  using effective_walk [of t r] by (auto simp: EffectivePermissions_def role_grants_def simp del: effective_loop.simps)

lemma applyPolicyLayer_allowed:
  "ad_allowed (applyPolicyLayer a d s e act via) \<longleftrightarrow>
     ad_allowed d \<or> \<not> (\<exists>p\<in>set (az_policies a). denies (policy_request s e act) p)"
  unfolding applyPolicyLayer_def PolicyEvaluate_iff by (auto simp: denies_def)

lemma Decide_registered:
  assumes "Enforced a" and "matrix_built (az_matrix a)"
    and "subject = subjectOr a s" and "e = ResolveEnv a env"
    and "e \<noteq> ''''" and "subject \<noteq> ''''"
    and "RegistryLookup (az_registry a) subject = Some u" and "us_team u \<noteq> ''''"
  shows "ad_allowed (Decide a s env act) \<longleftrightarrow>
     (Allow (az_matrix a) (us_team u) e act \<or>
        role_grants (az_roles a) (us_role u) act \<and> reaches (az_matrix a) (us_team u) e \<and>
        \<not> Revoked (az_matrix a) (us_team u) e act) \<and>
     \<not> (\<exists>p\<in>set (az_policies a). denies (policy_request subject e act) p)"
proof -
  have e: "(if env = '''' then az_default_env a else env) = e" using assms(4) by (auto simp: ResolveEnv_def)
  show ?thesis
  proof (cases "EffectivePermissions (az_roles a) (us_role u)")
    case (Inl x)
    then have "\<not> role_grants (az_roles a) (us_role u) act" by (simp add: EffectivePermissions_grants [symmetric])
    then show ?thesis using assms Inl unfolding Decide_def Let_def e
      by (simp add: applyPolicyLayer_allowed)
  next
    case (Inr g)
    then have "act \<in> set g \<longleftrightarrow> role_grants (az_roles a) (us_role u) act"
      by (simp add: EffectivePermissions_grants [symmetric])
    then show ?thesis using assms Inr unfolding Decide_def Let_def e
      by (simp add: applyPolicyLayer_allowed listed_reaches)
  qed
qed

lemma Decide_unregistered:
  assumes "Enforced a"
    and "ResolveEnv a env = '''' \<or> subjectOr a s = '''' \<or> RegistryLookup (az_registry a) (subjectOr a s) = None \<or>
      us_team (the (RegistryLookup (az_registry a) (subjectOr a s))) = ''''"
  shows "\<not> ad_allowed (Decide a s env act)"
  using assms by (auto simp: Decide_def Let_def ResolveEnv_def split: option.splits)

lemma allowed_not_revoked: "Allow m t e a \<Longrightarrow> \<not> Revoked m t e a"
  by (simp add: Allow_def Revoked_def split: if_splits)

lemma load_actions_dom: "load_actions strict t e as m = Inr m' \<Longrightarrow> as = [] \<and> m' = m \<or> fmdom m' = finsert t (fmdom m)"
proof (induction as arbitrary: m)
  case (Cons a as)
  have d: "fmdom (add_rule t e a m) = finsert t (fmdom m)" by (simp add: add_rule_def Let_def)
  have l: "load_actions strict t e as (add_rule t e a m) = Inr m'" using Cons.prems by (simp split: if_splits)
  from Cons.IH [OF l] d show ?case by (metis finsert_absorb finsertI1)
qed simp

lemma load_envs_dom:
  "load_envs strict t es m = Inr m' \<Longrightarrow>
    fmdom m' |\<subseteq>| finsert t (fmdom m) \<and> ((\<forall>e\<in>set es. ep_actions e = []) \<longrightarrow> m' = m)"
proof (induction es arbitrary: m)
  case (Cons e es)
  then obtain m1 where s: "load_actions strict t (ep_name e) (ep_actions e) m = Inr m1"
    "load_envs strict t es m1 = Inr m'" by (auto split: if_splits sum.splits)
  have "fmdom m1 |\<subseteq>| finsert t (fmdom m)" "ep_actions e = [] \<Longrightarrow> m1 = m"
    using load_actions_dom [OF s(1)] s(1) by auto
  then show ?case using Cons.IH [OF s(2)] by auto
qed auto

lemma load_teams_dom:
  "load_teams strict ts m = Inr m' \<Longrightarrow>
    \<forall>t\<in>set ts. tm_name t = w \<or> (\<forall>e\<in>set (tm_environments t). ep_actions e = []) \<Longrightarrow>
    fmdom m' |\<subseteq>| finsert w (fmdom m)"
proof (induction ts arbitrary: m)
  case (Cons t ts)
  then obtain m1 where s: "load_envs strict (tm_name t) (tm_environments t) m = Inr m1"
    "load_teams strict ts m1 = Inr m'" by (auto split: if_splits sum.splits)
  have "fmdom m1 |\<subseteq>| finsert w (fmdom m)" using load_envs_dom [OF s(1)] Cons.prems(2) by auto
  then show ?case using Cons.IH [OF s(2)] Cons.prems(2) by auto
qed auto

text \<open>
  C25. The decision is the composition the authorizer documents. Where a matrix is configured, a request is
  allowed exactly when its environment is given or has a default, its subject is registered with a
  team, the matrix allows the action to the team in that environment, or the member's role holds the
  permission (its own or an inherited one), the team reaches the environment and the action is not
  revoked there, and, either way, no policy denies the request.
\<close>

theorem decision_composes:
  assumes "Enforced a" and "matrix_built (az_matrix a)"
  shows "ad_allowed (Decide a s env act) \<longleftrightarrow>
    (\<exists>u. ResolveEnv a env \<noteq> '''' \<and> subjectOr a s \<noteq> '''' \<and>
       RegistryLookup (az_registry a) (subjectOr a s) = Some u \<and> us_team u \<noteq> '''' \<and>
       (Allow (az_matrix a) (us_team u) (ResolveEnv a env) act \<or>
          role_grants (az_roles a) (us_role u) act \<and> reaches (az_matrix a) (us_team u) (ResolveEnv a env) \<and>
          \<not> Revoked (az_matrix a) (us_team u) (ResolveEnv a env) act) \<and>
       \<not> (\<exists>p\<in>set (az_policies a). denies (policy_request (subjectOr a s) (ResolveEnv a env) act) p))"
proof (cases "ResolveEnv a env \<noteq> '''' \<and> subjectOr a s \<noteq> '''' \<and>
    (\<exists>u. RegistryLookup (az_registry a) (subjectOr a s) = Some u \<and> us_team u \<noteq> '''')")
  case True
  then obtain u where u: "ResolveEnv a env \<noteq> ''''" "subjectOr a s \<noteq> ''''"
    "RegistryLookup (az_registry a) (subjectOr a s) = Some u" "us_team u \<noteq> ''''" by blast
  show ?thesis unfolding Decide_registered [OF assms refl refl u] using u by simp
next
  case False
  then have "\<not> ad_allowed (Decide a s env act)"
    by (intro Decide_unregistered [OF assms(1)]) (cases "RegistryLookup (az_registry a) (subjectOr a s)"; auto)
  with False show ?thesis by blast
qed

text \<open>
  The layers only narrow: where a matrix is configured, an action revoked for a member's team in the
  environment is refused to the member whatever its role and the policies say, a role opens no
  environment its team does not reach, and a request allowed under some policies is allowed with none.
\<close>

theorem layers_narrow:
  assumes "Enforced a" and "matrix_built (az_matrix a)"
    and "RegistryLookup (az_registry a) (subjectOr a s) = Some u"
    and "ad_allowed (Decide a s env act)"
  shows "\<not> Revoked (az_matrix a) (us_team u) (ResolveEnv a env) act \<and>
    (Allow (az_matrix a) (us_team u) (ResolveEnv a env) act \<or> reaches (az_matrix a) (us_team u) (ResolveEnv a env)) \<and>
    ad_allowed (Decide (a\<lparr>az_policies := []\<rparr>) s env act)"
proof -
  have u: "ResolveEnv a env \<noteq> ''''" "subjectOr a s \<noteq> ''''" "us_team u \<noteq> ''''"
    using Decide_unregistered [OF assms(1), of env s act] assms(3,4) by auto
  let ?b = "a\<lparr>az_policies := []\<rparr>"
  have b: "Enforced ?b" "matrix_built (az_matrix ?b)" "subjectOr a s = subjectOr ?b s" "ResolveEnv a env = ResolveEnv ?b env"
    "RegistryLookup (az_registry ?b) (subjectOr a s) = Some u"
    using assms by (simp_all add: Enforced_def subjectOr_def ResolveEnv_def)
  show ?thesis
    using assms(4) unfolding Decide_registered [OF assms(1,2) refl refl u(1,2) assms(3) u(3)]
      Decide_registered [OF b(1-4) u(1,2) b(5) u(3)]
    by (auto dest: allowed_not_revoked)
qed

text \<open>
  A matrix is taken to be configured when it names a team other than the wildcard. A matrix file that
  grants to the wildcard team only, or names its teams without an action, loads without an error and
  leaves the authorizer as if there were no matrix: every subject, registered or not, may do anything
  in every environment.
\<close>

theorem wildcard_matrix_admits_everyone:
  assumes "MatrixLoadFromConfig cfg m0 = (Inr (), m)" and "az_matrix a = m"
    and "\<forall>t\<in>set cfg. tm_name t = Wildcard \<or> (\<forall>e\<in>set (tm_environments t). ep_actions e = [])"
  shows "\<not> ad_enforced (Decide a s env act) \<and> ad_allowed (Decide a s env act)"
proof -
  obtain g where g: "load_teams (pm_strict m0) cfg fmempty = Inr g" "m = m0\<lparr>pm_grants := g, pm_revokes := fmempty\<rparr>"
    using assms(1) by (auto simp: MatrixLoadFromConfig_def split: if_splits sum.splits)
  have "fmdom g |\<subseteq>| finsert Wildcard (fmdom (fmempty :: rules))" using g(1) assms(3) by (rule load_teams_dom)
  then have none: "fmdom g |-| {|Wildcard|} = {||}" by auto
  have "Teams m = []" unfolding Teams_def g(2) by (simp add: none sorted_list_of_fset.rep_eq)
  then show ?thesis using assms(2) by (simp add: Decide_def Enforced_def Let_def)
qed

text \<open>
  Revoking the admin action takes away that action alone: the actions it implies stay allowed
  wherever admin is still granted.
\<close>

theorem revoked_admin_still_implies:
  assumes "matrix_lookup (pm_grants m) t e ActionAdmin" and "snd (Revoke t e ActionAdmin m) = m'"
    and "t \<noteq> ''''" and "e \<noteq> ''''" and "act \<noteq> ''''" and "act \<noteq> ActionAdmin"
    and "\<not> matrix_lookup (pm_revokes m) t e act"
  shows "\<not> Allow m' t e ActionAdmin \<and> Allow m' t e act"
proof -
  have "ActionAdmin \<noteq> ''''" "isKnownAction ActionAdmin" by (auto simp: action_defs isKnownAction_def AllActions_def)
  then have m': "m' = m\<lparr>pm_revokes := add_rule t e ActionAdmin (pm_revokes m)\<rparr>"
    using assms by (simp add: Revoke_def)
  show ?thesis using assms unfolding Allow_def m' by (auto simp: matrix_lookup_iff)
qed

section \<open>An authorizer to evaluate\<close>

text \<open>A team that views and applies in production, with applying revoked there, and a matrix of wildcards.\<close>

definition demo_teams :: "team_rule list" where
  "demo_teams = [\<lparr>tm_name = ''sre'', tm_environments = [\<lparr>ep_name = ''prod'', ep_actions = [''view'', ''plan'']\<rparr>]\<rparr>]"

definition demo_matrix :: permission_matrix where
  "demo_matrix = snd (Revoke ''sre'' ''prod'' ''plan'' (snd (MatrixLoadFromConfig demo_teams NewPermissionMatrix)))"

definition demo_authorizer :: authorizer where
  "demo_authorizer = \<lparr>az_registry = [\<lparr>us_name = ''ann'', us_team = ''sre'', us_role = ''admin''\<rparr>],
     az_matrix = demo_matrix, az_roles = demo_roles, az_policies = [],
     az_default_env = ''prod'', az_default_subject = ''''\<rparr>"

lemma demo_matrix_built: "matrix_built demo_matrix"
  unfolding demo_matrix_def by (intro matrix_built.intros)

lemma demo_matrix_rules:
  "pm_grants demo_matrix = add_rule ''sre'' ''prod'' ''plan'' (add_rule ''sre'' ''prod'' ''view'' fmempty)"
  "pm_revokes demo_matrix = add_rule ''sre'' ''prod'' ''plan'' fmempty"
  by (simp_all add: demo_matrix_def demo_teams_def MatrixLoadFromConfig_def NewPermissionMatrix_def Revoke_def
      isKnownAction_def AllActions_def action_defs)

lemma demo_lookups:
  "matrix_lookup (pm_grants demo_matrix) ''sre'' ''prod'' a \<longleftrightarrow> a = ''view'' \<or> a = ''plan''"
  "matrix_lookup (pm_revokes demo_matrix) ''sre'' ''prod'' a \<longleftrightarrow> a = ''plan''"
  by (auto simp: matrix_lookup_iff demo_matrix_rules Wildcard_def)

lemma demo_enforced: "Enforced demo_authorizer"
proof -
  have "''sre'' \<in> set (Teams demo_matrix)" by (simp add: Teams_def demo_matrix_rules add_rule_def Let_def Wildcard_def)
  then show ?thesis by (auto simp: Enforced_def demo_authorizer_def)
qed

lemma demo_authorizer_fields:
  "az_matrix demo_authorizer = demo_matrix" "az_roles demo_authorizer = demo_roles" "az_policies demo_authorizer = []"
  "subjectOr demo_authorizer ''ann'' = ''ann''" "ResolveEnv demo_authorizer '''' = ''prod''"
  "RegistryLookup (az_registry demo_authorizer) ''ann'' = Some \<lparr>us_name = ''ann'', us_team = ''sre'', us_role = ''admin''\<rparr>"
  by (simp_all add: demo_authorizer_def subjectOr_def ResolveEnv_def RegistryLookup_def)

lemma demo_role_grants: "role_grants demo_roles ''admin'' ''apply''"
  unfolding role_grants_def effective_def HasRole_def demo_roles_fields(4)
  using demo_roles_fields(3) by (auto intro!: exI [of _ "''admin''"])

lemma demo_reaches: "reaches demo_matrix ''sre'' ''prod''"
  unfolding reaches_def
  by (rule exI [of _ "''view''"]) (simp add: Allow_def demo_lookups isKnownAction_def AllActions_def action_defs)

theorem actions_listed_are_allowed_witness: "''view'' \<in> set (ActionsFor demo_matrix ''sre'' ''prod'')"
  unfolding actions_listed_are_allowed [OF demo_matrix_built] by (simp add: Allow_def demo_lookups)

theorem decision_composes_witness:
  "ad_allowed (Decide demo_authorizer ''ann'' '''' ''apply'') \<and> \<not> ad_allowed (Decide demo_authorizer ''ann'' '''' ''plan'') \<and>
   \<not> ad_allowed (Decide demo_authorizer ''bob'' '''' ''view'')"
proof -
  note d = decision_composes [OF demo_enforced, unfolded demo_authorizer_fields(1), OF demo_matrix_built]
  have "ad_allowed (Decide demo_authorizer ''ann'' '''' ''apply'')"
    unfolding d by (simp add: demo_authorizer_fields demo_role_grants demo_reaches Revoked_def demo_lookups)
  moreover have "\<not> ad_allowed (Decide demo_authorizer ''ann'' '''' ''plan'')"
    unfolding d by (simp add: demo_authorizer_fields Allow_def Revoked_def demo_lookups)
  moreover have "\<not> ad_allowed (Decide demo_authorizer ''bob'' '''' ''view'')"
    unfolding d by (simp add: demo_authorizer_def subjectOr_def RegistryLookup_def)
  ultimately show ?thesis by simp
qed

theorem layers_narrow_witness: "\<not> Revoked demo_matrix ''sre'' ''prod'' ''view''"
proof -
  have "ad_allowed (Decide demo_authorizer ''ann'' '''' ''view'')"
    using Decide_registered [of demo_authorizer "''ann''" "''ann''" "''prod''" "''''" "\<lparr>us_name = ''ann'', us_team = ''sre'', us_role = ''admin''\<rparr>" "''view''"]
    by (simp add: demo_enforced demo_authorizer_fields demo_matrix_built Allow_def demo_lookups)
  from layers_narrow [OF demo_enforced _ _ this, of "\<lparr>us_name = ''ann'', us_team = ''sre'', us_role = ''admin''\<rparr>"] show ?thesis
    by (simp add: demo_authorizer_fields demo_matrix_built)
qed

definition open_teams :: "team_rule list" where
  "open_teams = [\<lparr>tm_name = ''*'', tm_environments = [\<lparr>ep_name = ''dev'', ep_actions = [''view'']\<rparr>]\<rparr>]"

theorem wildcard_matrix_admits_everyone_witness:
  "ad_allowed (Decide (demo_authorizer\<lparr>az_matrix := snd (MatrixLoadFromConfig open_teams NewPermissionMatrix)\<rparr>)
     ''mallory'' ''prod'' ''apply'')"
proof -
  have "MatrixLoadFromConfig open_teams NewPermissionMatrix =
      (Inr (), snd (MatrixLoadFromConfig open_teams NewPermissionMatrix))"
    by (simp add: open_teams_def MatrixLoadFromConfig_def NewPermissionMatrix_def isKnownAction_def AllActions_def action_defs)
  from wildcard_matrix_admits_everyone [OF this,
      of "demo_authorizer\<lparr>az_matrix := snd (MatrixLoadFromConfig open_teams NewPermissionMatrix)\<rparr>"] show ?thesis
    by (simp add: open_teams_def Wildcard_def)
qed

theorem revoked_admin_still_implies_witness:
  "Allow (snd (Revoke ''sre'' ''prod'' ''admin'' (snd (Grant ''sre'' ''prod'' ''admin'' NewPermissionMatrix)))) ''sre'' ''prod'' ''apply''"
  using revoked_admin_still_implies [of "snd (Grant ''sre'' ''prod'' ''admin'' NewPermissionMatrix)" "''sre''" "''prod''" _ "''apply''"]
  by (simp add: Grant_def NewPermissionMatrix_def matrix_lookup_iff ActionAdmin_def)

end
