(* ===== verification/Plan_Hash.thy ===== *)
theory Plan_Hash
  imports Audit_Canonical "HOL-Library.Multiset" "HOL-Library.Product_Lexorder"
begin

text \<open>
  \<^verbatim>\<open>internal/plan\<close>: the plan an approval attests to (\<^verbatim>\<open>generator.go\<close>, with the declarations of
  \<^verbatim>\<open>internal/dsl/ast.go\<close> it carries), its impact (\<^verbatim>\<open>impact.go\<close>) and the hash that names it
  (\<^verbatim>\<open>hash.go\<close>). Generating a plan from a workflow is not modelled.

  A Go value of type \<^verbatim>\<open>any\<close> is an \<open>any\<close>; a \<^verbatim>\<open>map[string]any\<close> is the list of its entries in ascending
  order of the keys, the order \<^verbatim>\<open>encoding/json\<close> prints them in. What \<^verbatim>\<open>json.Marshal\<close> does to a struct
  (names of fields, \<^verbatim>\<open>omitempty\<close>, \<^verbatim>\<open>null\<close>) is spelled out as an \<open>any\<close>; how a JSON value becomes bytes is
  the parameter \<open>render\<close>.
\<close>

section \<open>Values\<close>

datatype any =
    ANull
  | ABool bool
  | ANum string
  | AStr string
  | AStrs "string list"
  | AList "any list"
  | AMap "(string \<times> any) list"
  | AUnsupported

type_synonym arg_map = "(string \<times> any) list option"

section \<open>The plan\<close>

record approval_spec =
  sp_level :: string
  sp_approvers :: "string list"
  sp_timeout :: string
  sp_min_approvers :: int
  sp_exclude_initiator :: bool

record gate_check =
  gc_type :: string
  gc_command :: string
  gc_expect_exit :: int
  gc_expect_stdout :: string
  gc_source :: string
  gc_timeout :: string
  gc_plugin :: string
  gc_params :: arg_map

record gate_spec =
  gt_pre :: "gate_check list"
  gt_post :: "gate_check list"
  gt_batch :: "gate_check list"

datatype dsl_step = DslStep
  (ds_name: string) (ds_module: string) (ds_action: string) (ds_args: arg_map)
  (ds_rollback: "rollback_spec option") (ds_approval: "approval_spec option") (ds_gate: "gate_spec option")
  (ds_idempotent: bool) (ds_irreversible: bool) (ds_requires_reboot: bool) (ds_depends_on: "string list")
and rollback_spec = RollbackSpec
  (rs_steps: "dsl_step list") (rs_strategy: string) (rs_on_failure: string) (rs_verify_after: bool)
  (rs_snapshot_paths: "string list")

definition RollbackOnFailureAuto :: string where "RollbackOnFailureAuto = ''auto''"
definition RollbackOnFailureManual :: string where "RollbackOnFailureManual = ''manual''"

record run_snapshot_spec =
  sn_scope :: string
  sn_paths :: "string list"
  sn_type :: string

record plan_step =
  ps_name :: string
  ps_module :: string
  ps_action :: string
  ps_args :: arg_map
  ps_rollback :: "rollback_spec option"
  ps_approval :: "approval_spec option"
  ps_gate :: "gate_spec option"
  ps_irreversible :: bool
  ps_irreversible_reason :: string

record plan_batch =
  pb_index :: int
  pb_targets :: "string list"
  pb_steps :: "plan_step list"
  pb_max_concurrency :: int
  pb_gate :: "gate_spec option"

record plan_risk_factor =
  prf_rule :: string
  prf_points :: int
  prf_detail :: string

record plan =
  pl_id :: string
  pl_workflow_name :: string
  pl_batches :: "plan_batch list"
  pl_total_targets :: int
  pl_created_at :: time
  pl_risk_score :: int
  pl_risk_factors :: "plan_risk_factor list"
  pl_approval_floor :: string
  pl_approval :: "approval_spec option"
  pl_rollback :: "rollback_spec option"
  pl_gate :: "gate_spec option"
  pl_run_snapshot :: "run_snapshot_spec option"

section \<open>Impact\<close>

definition RiskLevelLow :: string where "RiskLevelLow = ''low''"
definition RiskLevelMedium :: string where "RiskLevelMedium = ''medium''"
definition RiskLevelHigh :: string where "RiskLevelHigh = ''high''"

record impact_report =
  im_direct :: "string list"
  im_indirect :: "string list"
  im_total :: int
  im_risk_level :: string

text \<open>The keys of a \<^verbatim>\<open>map[string]struct{}\<close> in ascending order.\<close>

definition sortedKeys :: "string set \<Rightarrow> string list" where
  "sortedKeys s = sorted_list_of_set s"

definition riskLevel :: "int \<Rightarrow> string" where
  "riskLevel n = (if n < 10 then RiskLevelLow else if n \<le> 50 then RiskLevelMedium else RiskLevelHigh)"

fun strings_of :: "any list \<Rightarrow> string list" where
  "strings_of [] = []"
| "strings_of (AStr s # xs) = s # strings_of xs"
| "strings_of (x # xs) = strings_of xs"

definition extractIndirectTargets :: "arg_map \<Rightarrow> string list" where
  "extractIndirectTargets args = (case args of None \<Rightarrow> []
     | Some m \<Rightarrow> (case map_of m ''indirect_targets'' of
          Some (AStrs xs) \<Rightarrow> xs
        | Some (AList xs) \<Rightarrow> strings_of xs
        | Some (AStr s) \<Rightarrow> [s]
        | _ \<Rightarrow> []))"

definition Analyze :: "plan \<Rightarrow> impact_report" where
  "Analyze p =
    (let direct = (\<Union>b\<in>set (pl_batches p). set (pb_targets b));
         indirect = (\<Union>b\<in>set (pl_batches p). \<Union>s\<in>set (pb_steps b). set (extractIndirectTargets (ps_args s))) - direct;
         n = int (card direct) + int (card indirect)
     in \<lparr>im_direct = sortedKeys direct, im_indirect = sortedKeys indirect, im_total = n, im_risk_level = riskLevel n\<rparr>)"

section \<open>Canonical forms\<close>

record canonical_step =
  cs_name :: string
  cs_module :: string
  cs_action :: string
  cs_args :: arg_map

record canonical_batch =
  cb_index :: int
  cb_targets :: "string list"
  cb_steps :: "canonical_step list"
  cb_max_concurrency :: int

record canonical_impact =
  ci_direct :: "string list"
  ci_indirect :: "string list"

record canonical_plan =
  cp_workflow_name :: string
  cp_targets :: "string list"
  cp_batches :: "canonical_batch list"
  cp_impact :: canonical_impact

record canonical_rollback_step = canonical_step +
  cr_idempotent :: bool

record canonical_rollback =
  cr_strategy :: string
  cr_on_failure :: string
  cr_verify_after :: bool
  cr_snapshot_paths :: "string list"
  cr_steps :: "canonical_rollback_step list"

record canonical_step_v2 =
  c2_execution :: canonical_step
  c2_rollback :: "canonical_rollback option"
  c2_approval :: "approval_spec option"
  c2_gate :: "gate_spec option"
  c2_irreversible :: bool
  c2_irreversible_reason :: string

record canonical_batch_v2 =
  b2_index :: int
  b2_targets :: "string list"
  b2_steps :: "canonical_step_v2 list"
  b2_max_concurrency :: int
  b2_gate :: "gate_spec option"

record canonical_plan_v2 =
  p2_version :: string
  p2_workflow_name :: string
  p2_targets :: "string list"
  p2_batches :: "canonical_batch_v2 list"
  p2_impact :: canonical_impact
  p2_risk_score :: int
  p2_risk_factors :: "plan_risk_factor list"
  p2_approval_floor :: string
  p2_approval :: "approval_spec option"
  p2_rollback :: "canonical_rollback option"
  p2_gate :: "gate_spec option"
  p2_run_snapshot :: "run_snapshot_spec option"

text \<open>\<^verbatim>\<open>canonicalValue\<close> and \<^verbatim>\<open>canonicalArgs\<close> rebuild maps and lists of values and pass the rest through.\<close>

primrec canonicalValue :: "any \<Rightarrow> any" where
  "canonicalValue ANull = ANull"
| "canonicalValue (ABool b) = ABool b"
| "canonicalValue (ANum n) = ANum n"
| "canonicalValue (AStr s) = AStr s"
| "canonicalValue (AStrs ss) = AStrs ss"
| "canonicalValue (AList xs) = AList (map canonicalValue xs)"
| "canonicalValue (AMap m) = AMap (map (map_prod id canonicalValue) m)"
| "canonicalValue AUnsupported = AUnsupported"

definition canonicalArgs :: "arg_map \<Rightarrow> arg_map" where
  "canonicalArgs = map_option (map (map_prod id canonicalValue))"

definition sortedCopy :: "string list \<Rightarrow> string list" where
  "sortedCopy = sort"

definition canonicalStepV1 :: "plan_step \<Rightarrow> canonical_step" where
  "canonicalStepV1 s = \<lparr>cs_name = ps_name s, cs_module = ps_module s, cs_action = ps_action s,
     cs_args = canonicalArgs (ps_args s)\<rparr>"

definition canonicalStepsV1 :: "plan_step list \<Rightarrow> canonical_step list" where
  "canonicalStepsV1 = map canonicalStepV1"

definition canonicalBatchV1 :: "plan_batch \<Rightarrow> canonical_batch" where
  "canonicalBatchV1 b = \<lparr>cb_index = pb_index b, cb_targets = sortedCopy (pb_targets b),
     cb_steps = canonicalStepsV1 (pb_steps b), cb_max_concurrency = pb_max_concurrency b\<rparr>"

definition buildCanonicalV1 :: "plan \<Rightarrow> canonical_plan" where
  "buildCanonicalV1 p = (let r = Analyze p in
     \<lparr>cp_workflow_name = pl_workflow_name p,
      cp_targets = sortedKeys (\<Union>b\<in>set (pl_batches p). set (pb_targets b)),
      cp_batches = map canonicalBatchV1 (pl_batches p),
      cp_impact = \<lparr>ci_direct = im_direct r, ci_indirect = im_indirect r\<rparr>\<rparr>)"

definition canonicalRollbackStep :: "dsl_step \<Rightarrow> canonical_rollback_step" where
  "canonicalRollbackStep s = \<lparr>cs_name = ds_name s, cs_module = ds_module s, cs_action = ds_action s,
     cs_args = canonicalArgs (ds_args s), cr_idempotent = ds_idempotent s\<rparr>"

definition canonicalRollbackV2 :: "rollback_spec option \<Rightarrow> canonical_rollback option" where
  "canonicalRollbackV2 = map_option (\<lambda>r. \<lparr>cr_strategy = rs_strategy r, cr_on_failure = rs_on_failure r,
     cr_verify_after = rs_verify_after r, cr_snapshot_paths = sortedCopy (rs_snapshot_paths r),
     cr_steps = map canonicalRollbackStep (rs_steps r)\<rparr>)"

definition canonicalApprovalV2 :: "approval_spec option \<Rightarrow> approval_spec option" where
  "canonicalApprovalV2 = map_option (\<lambda>a. a\<lparr>sp_approvers := sortedCopy (sp_approvers a)\<rparr>)"

definition canonicalGateChecks :: "gate_check list \<Rightarrow> gate_check list" where
  "canonicalGateChecks = map (\<lambda>c. c\<lparr>gc_params := canonicalArgs (gc_params c)\<rparr>)"

definition canonicalGateV2 :: "gate_spec option \<Rightarrow> gate_spec option" where
  "canonicalGateV2 = map_option (\<lambda>g. \<lparr>gt_pre = canonicalGateChecks (gt_pre g),
     gt_post = canonicalGateChecks (gt_post g), gt_batch = canonicalGateChecks (gt_batch g)\<rparr>)"

definition canonicalRunSnapshotV2 :: "run_snapshot_spec option \<Rightarrow> run_snapshot_spec option" where
  "canonicalRunSnapshotV2 = map_option (\<lambda>s. \<lparr>sn_scope = sn_scope s, sn_paths = sort (sn_paths s),
     sn_type = (if sn_type s = '''' then ''file'' else sn_type s)\<rparr>)"

text \<open>The order of \<^verbatim>\<open>sort.Slice\<close>: by rule, then points, then detail. Equal factors are indistinguishable.\<close>

definition canonicalRiskFactors :: "plan_risk_factor list \<Rightarrow> plan_risk_factor list" where
  "canonicalRiskFactors fs = sort_key (\<lambda>f. (prf_rule f, prf_points f, prf_detail f)) fs"

definition canonicalStepV2 :: "plan_step \<Rightarrow> canonical_step_v2" where
  "canonicalStepV2 s = \<lparr>c2_execution = canonicalStepV1 s, c2_rollback = canonicalRollbackV2 (ps_rollback s),
     c2_approval = canonicalApprovalV2 (ps_approval s), c2_gate = canonicalGateV2 (ps_gate s),
     c2_irreversible = ps_irreversible s, c2_irreversible_reason = ps_irreversible_reason s\<rparr>"

definition canonicalStepsV2 :: "plan_step list \<Rightarrow> canonical_step_v2 list" where
  "canonicalStepsV2 = map canonicalStepV2"

definition canonicalBatchV2 :: "plan_batch \<Rightarrow> canonical_batch_v2" where
  "canonicalBatchV2 b = \<lparr>b2_index = pb_index b, b2_targets = sortedCopy (pb_targets b),
     b2_steps = canonicalStepsV2 (pb_steps b), b2_max_concurrency = pb_max_concurrency b,
     b2_gate = canonicalGateV2 (pb_gate b)\<rparr>"

definition HashVersionV2 :: string where "HashVersionV2 = ''v2''"

definition buildCanonicalV2 :: "plan \<Rightarrow> canonical_plan_v2" where
  "buildCanonicalV2 p = (let v1 = buildCanonicalV1 p in
     \<lparr>p2_version = HashVersionV2, p2_workflow_name = cp_workflow_name v1, p2_targets = cp_targets v1,
      p2_batches = map canonicalBatchV2 (pl_batches p), p2_impact = cp_impact v1,
      p2_risk_score = pl_risk_score p, p2_risk_factors = canonicalRiskFactors (pl_risk_factors p),
      p2_approval_floor = pl_approval_floor p, p2_approval = canonicalApprovalV2 (pl_approval p),
      p2_rollback = canonicalRollbackV2 (pl_rollback p), p2_gate = canonicalGateV2 (pl_gate p),
      p2_run_snapshot = canonicalRunSnapshotV2 (pl_run_snapshot p)\<rparr>)"

section \<open>What \<^verbatim>\<open>json.Marshal\<close> makes of them\<close>

text \<open>A \<^verbatim>\<open>[]string\<close> is an array of strings, and a nil map is \<^verbatim>\<open>null\<close>.\<close>

primrec json_tree :: "any \<Rightarrow> any" where
  "json_tree ANull = ANull"
| "json_tree (ABool b) = ABool b"
| "json_tree (ANum n) = ANum n"
| "json_tree (AStr s) = AStr s"
| "json_tree (AStrs ss) = AList (map AStr ss)"
| "json_tree (AList xs) = AList (map json_tree xs)"
| "json_tree (AMap m) = AMap (map (map_prod id json_tree) m)"
| "json_tree AUnsupported = AUnsupported"

primrec supported :: "any \<Rightarrow> bool" where
  "supported ANull = True"
| "supported (ABool b) = True"
| "supported (ANum n) = True"
| "supported (AStr s) = True"
| "supported (AStrs ss) = True"
| "supported (AList xs) = list_all id (map supported xs)"
| "supported (AMap m) = list_all snd (map (map_prod id supported) m)"
| "supported AUnsupported = False"

definition j_strs :: "string list \<Rightarrow> any" where "j_strs ss = AList (map AStr ss)"
definition j_int :: "int \<Rightarrow> any" where "j_int n = ANum (format_int n)"

definition j_args :: "arg_map \<Rightarrow> any" where
  "j_args args = (case args of None \<Rightarrow> ANull | Some m \<Rightarrow> AMap (map (map_prod id json_tree) m))"

text \<open>The entry of a field with \<^verbatim>\<open>omitempty\<close>.\<close>

definition unless_empty :: "bool \<Rightarrow> string \<Rightarrow> any \<Rightarrow> (string \<times> any) list" where
  "unless_empty absent k v = (if absent then [] else [(k, v)])"

definition if_present :: "string \<Rightarrow> ('a \<Rightarrow> any) \<Rightarrow> 'a option \<Rightarrow> (string \<times> any) list" where
  "if_present k f v = (case v of None \<Rightarrow> [] | Some x \<Rightarrow> [(k, f x)])"

definition j_step :: "canonical_step \<Rightarrow> any" where
  "j_step s = AMap [(''name'', AStr (cs_name s)), (''module'', AStr (cs_module s)),
     (''action'', AStr (cs_action s)), (''args'', j_args (cs_args s))]"

definition j_batch :: "canonical_batch \<Rightarrow> any" where
  "j_batch b = AMap [(''index'', j_int (cb_index b)), (''targets'', j_strs (cb_targets b)),
     (''steps'', AList (map j_step (cb_steps b))), (''max_concurrency'', j_int (cb_max_concurrency b))]"

definition j_impact :: "canonical_impact \<Rightarrow> any" where
  "j_impact i = AMap [(''direct_targets'', j_strs (ci_direct i)), (''indirect_targets'', j_strs (ci_indirect i))]"

definition j_plan :: "canonical_plan \<Rightarrow> any" where
  "j_plan p = AMap [(''workflow_name'', AStr (cp_workflow_name p)), (''targets'', j_strs (cp_targets p)),
     (''batches'', AList (map j_batch (cp_batches p))), (''impact'', j_impact (cp_impact p))]"

definition j_rollback_step :: "canonical_rollback_step \<Rightarrow> any" where
  "j_rollback_step s = AMap ([(''name'', AStr (cs_name s)), (''module'', AStr (cs_module s)),
     (''action'', AStr (cs_action s)), (''args'', j_args (cs_args s))] @
     unless_empty (\<not> cr_idempotent s) ''idempotent'' (ABool True))"

definition j_rollback :: "canonical_rollback \<Rightarrow> any" where
  "j_rollback r = AMap [(''strategy'', AStr (cr_strategy r)), (''on_failure'', AStr (cr_on_failure r)),
     (''verify_after'', ABool (cr_verify_after r)), (''snapshot_paths'', j_strs (cr_snapshot_paths r)),
     (''steps'', AList (map j_rollback_step (cr_steps r)))]"

definition j_approval :: "approval_spec \<Rightarrow> any" where
  "j_approval a = AMap [(''level'', AStr (sp_level a)), (''approvers'', j_strs (sp_approvers a)),
     (''timeout'', AStr (sp_timeout a)), (''min_approvers'', j_int (sp_min_approvers a)),
     (''exclude_initiator'', ABool (sp_exclude_initiator a))]"

definition j_gate_check :: "gate_check \<Rightarrow> any" where
  "j_gate_check c = AMap ([(''type'', AStr (gc_type c)), (''command'', AStr (gc_command c)),
     (''expect_exit'', j_int (gc_expect_exit c)), (''expect_stdout'', AStr (gc_expect_stdout c)),
     (''source'', AStr (gc_source c)), (''timeout'', AStr (gc_timeout c)), (''params'', j_args (gc_params c))] @
     unless_empty (gc_plugin c = '''') ''plugin'' (AStr (gc_plugin c)))"

definition j_gate :: "gate_spec \<Rightarrow> any" where
  "j_gate g = AMap [(''pre'', AList (map j_gate_check (gt_pre g))), (''post'', AList (map j_gate_check (gt_post g))),
     (''batch'', AList (map j_gate_check (gt_batch g)))]"

definition j_snapshot :: "run_snapshot_spec \<Rightarrow> any" where
  "j_snapshot s = AMap [(''scope'', AStr (sn_scope s)), (''paths'', j_strs (sn_paths s)), (''type'', AStr (sn_type s))]"

definition j_risk_factor :: "plan_risk_factor \<Rightarrow> any" where
  "j_risk_factor f = AMap [(''rule'', AStr (prf_rule f)), (''points'', j_int (prf_points f)), (''detail'', AStr (prf_detail f))]"

definition j_step_v2 :: "canonical_step_v2 \<Rightarrow> any" where
  "j_step_v2 s = AMap ([(''execution'', j_step (c2_execution s))] @
     if_present ''rollback'' j_rollback (c2_rollback s) @ if_present ''approval'' j_approval (c2_approval s) @
     if_present ''gate'' j_gate (c2_gate s) @ [(''irreversible'', ABool (c2_irreversible s))] @
     unless_empty (c2_irreversible_reason s = '''') ''irreversible_reason'' (AStr (c2_irreversible_reason s)))"

definition j_batch_v2 :: "canonical_batch_v2 \<Rightarrow> any" where
  "j_batch_v2 b = AMap ([(''index'', j_int (b2_index b)), (''targets'', j_strs (b2_targets b)),
     (''steps'', AList (map j_step_v2 (b2_steps b))), (''max_concurrency'', j_int (b2_max_concurrency b))] @
     if_present ''gate'' j_gate (b2_gate b))"

definition j_plan_v2 :: "canonical_plan_v2 \<Rightarrow> any" where
  "j_plan_v2 p = AMap ([(''hash_version'', AStr (p2_version p)), (''workflow_name'', AStr (p2_workflow_name p)),
     (''targets'', j_strs (p2_targets p)), (''batches'', AList (map j_batch_v2 (p2_batches p))),
     (''impact'', j_impact (p2_impact p)), (''risk_score'', j_int (p2_risk_score p)),
     (''risk_factors'', AList (map j_risk_factor (p2_risk_factors p))), (''approval_floor'', AStr (p2_approval_floor p))] @
     if_present ''approval'' j_approval (p2_approval p) @ if_present ''rollback'' j_rollback (p2_rollback p) @
     if_present ''gate'' j_gate (p2_gate p) @ if_present ''run_snapshot'' j_snapshot (p2_run_snapshot p))"

section \<open>The hash\<close>

record plan_digest =
  pd_render :: "any \<Rightarrow> string"
  pd_sha256 :: "string \<Rightarrow> 256 word"

definition hashPrefixV2 :: string where "hashPrefixV2 = HashVersionV2 @ '':''"
definition legacyHashLen :: nat where "legacyHashLen = 64"

definition hashCanonical :: "plan_digest \<Rightarrow> any \<Rightarrow> string" where
  "hashCanonical d v = (if \<not> supported v then '''' else hex_encode (pd_sha256 d (pd_render d v)))"

definition ComputePlanHash :: "plan_digest \<Rightarrow> plan \<Rightarrow> string" where
  "ComputePlanHash d p = hashPrefixV2 @ hashCanonical d (j_plan_v2 (buildCanonicalV2 p))"

definition ComputeHashV1 :: "plan_digest \<Rightarrow> plan \<Rightarrow> string" where
  "ComputeHashV1 d p = hashCanonical d (j_plan (buildCanonicalV1 p))"

definition isLowerHex :: "string \<Rightarrow> bool" where
  "isLowerHex s \<longleftrightarrow> list_all (\<lambda>c. (CHR ''0'' \<le> c \<and> c \<le> CHR ''9'') \<or> (CHR ''a'' \<le> c \<and> c \<le> CHR ''f'')) s"

definition VerifyHash :: "plan_digest \<Rightarrow> plan \<Rightarrow> string \<Rightarrow> bool" where
  "VerifyHash d p expected =
     (if expected = '''' then False
      else if has_prefix expected hashPrefixV2 then ComputePlanHash d p = expected
      else if length expected = legacyHashLen \<and> isLowerHex expected then ComputeHashV1 d p = expected
      else False)"

section \<open>The JSON value determines the canonical form\<close>

definition json_entry :: "string \<Rightarrow> any \<Rightarrow> any option" where
  "json_entry k v = (case v of AMap m \<Rightarrow> map_of m k | _ \<Rightarrow> None)"

lemma json_entry_AMap [simp]: "json_entry k (AMap m) = map_of m k"
  by (simp add: json_entry_def)

definition or_else :: "'a option \<Rightarrow> 'a option \<Rightarrow> 'a option" where
  "or_else a b = (case a of None \<Rightarrow> b | Some v \<Rightarrow> Some v)"

lemma or_else_None [simp]: "or_else a None = a"
  by (simp add: or_else_def split: option.splits)

lemma map_of_optional:
  "map_of (if_present k f x @ m) k' = or_else (if k' = k then map_option f x else None) (map_of m k')"
  "map_of (unless_empty e k v) k' = (if k' = k then (if e then None else Some v) else None)"
  "map_of (if_present k f x) k' = (if k' = k then map_option f x else None)"
  "or_else None b = b" "or_else (Some v) b = Some v"
  by (auto simp: unless_empty_def if_present_def or_else_def split: option.splits)

lemma json_values_inject [simp]:
  "j_strs a = j_strs b \<longleftrightarrow> a = b" "j_int m = j_int n \<longleftrightarrow> m = n"
  by (simp_all add: j_strs_def j_int_def inj_map_eq_map inj_def)

section \<open>What a hash of the current version covers\<close>

text \<open>
  The content of a plan: everything but its id, its creation time, its count of targets, and the order of
  targets, approvers, snapshot paths and risk factors. Of an undo step it is what is executed.
\<close>

definition content_args :: "arg_map \<Rightarrow> arg_map" where
  "content_args = map_option (map (map_prod id json_tree))"

definition content_undo :: "dsl_step \<Rightarrow> string \<times> string \<times> string \<times> arg_map \<times> bool" where
  "content_undo s = (ds_name s, ds_module s, ds_action s, content_args (ds_args s), ds_idempotent s)"

definition content_rollback where
  "content_rollback = map_option (\<lambda>r. (rs_strategy r, rs_on_failure r, rs_verify_after r,
     mset (rs_snapshot_paths r), map content_undo (rs_steps r)))"

definition content_approval where
  "content_approval = map_option (\<lambda>a :: approval_spec. (sp_level a, mset (sp_approvers a), sp_timeout a,
     sp_min_approvers a, sp_exclude_initiator a))"

definition content_check where
  "content_check c = (gc_type c, gc_command c, gc_expect_exit c, gc_expect_stdout c, gc_source c, gc_timeout c,
     gc_plugin c, content_args (gc_params (c :: gate_check)))"

definition content_gate where
  "content_gate = map_option (\<lambda>g :: gate_spec. (map content_check (gt_pre g), map content_check (gt_post g),
     map content_check (gt_batch g)))"

definition content_snapshot where
  "content_snapshot = map_option (\<lambda>s :: run_snapshot_spec. (sn_scope s, mset (sn_paths s),
     if sn_type s = '''' then ''file'' else sn_type s))"

definition content_step where
  "content_step s = (ps_name s, ps_module s, ps_action s, content_args (ps_args (s :: plan_step)),
     content_rollback (ps_rollback s), content_approval (ps_approval s), content_gate (ps_gate s),
     ps_irreversible s, ps_irreversible_reason s)"

definition content_batch where
  "content_batch b = (pb_index b, mset (pb_targets b), map content_step (pb_steps (b :: plan_batch)),
     pb_max_concurrency b, content_gate (pb_gate b))"

definition plan_content where
  "plan_content p = (pl_workflow_name p, map content_batch (pl_batches (p :: plan)), pl_risk_score p,
     mset (pl_risk_factors p), pl_approval_floor p, content_approval (pl_approval p),
     content_rollback (pl_rollback p), content_gate (pl_gate p), content_snapshot (pl_run_snapshot p))"

lemma canonicalValue_id [simp]: "canonicalValue v = v"
  by (induction v) (auto intro!: map_idI)

lemma canonicalArgs_id [simp]: "canonicalArgs a = a"
  by (cases a) (auto simp: canonicalArgs_def intro!: map_idI)

lemma j_args_iff: "j_args a = j_args b \<longleftrightarrow> content_args a = content_args b"
  by (auto simp: j_args_def content_args_def split: option.splits)

lemma sorted_iff [simp]: "sortedCopy a = sortedCopy b \<longleftrightarrow> mset a = mset b"
  unfolding sortedCopy_def by (metis mset_sort properties_for_sort sorted_sort)

lemma sort_iff: "sort (a :: string list) = sort b \<longleftrightarrow> mset a = mset b"
  using sorted_iff by (simp add: sortedCopy_def)

lemma map_option_iff:
  assumes "\<And>x y. f x = f y \<longleftrightarrow> g x = g y"
  shows "map_option f a = map_option f b \<longleftrightarrow> map_option g a = map_option g b"
  using assms by (cases a; cases b) auto

lemma map_iff:
  assumes "\<And>x y. f x = f y \<longleftrightarrow> g x = g y"
  shows "map f xs = map f ys \<longleftrightarrow> map g xs = map g ys"
  using assms by (auto simp: list_eq_iff_nth_eq)

lemma AMap_iff: "AMap a = AMap b \<longleftrightarrow> a = b \<and> (\<forall>k. map_of a k = map_of b k)"
  by auto

lemma undo_iff:
  "j_rollback_step (canonicalRollbackStep s) = j_rollback_step (canonicalRollbackStep t) \<longleftrightarrow>
     content_undo s = content_undo t"
  by (auto simp: j_rollback_step_def canonicalRollbackStep_def content_undo_def j_args_iff unless_empty_def)

lemma rollback_iff:
  "map_option j_rollback (canonicalRollbackV2 a) = map_option j_rollback (canonicalRollbackV2 b) \<longleftrightarrow>
     content_rollback a = content_rollback b"
  unfolding canonicalRollbackV2_def content_rollback_def option.map_comp
  by (rule map_option_iff)
     (auto simp: j_rollback_def map_iff [of "j_rollback_step \<circ> canonicalRollbackStep" content_undo] undo_iff)

lemma approval_iff:
  "map_option j_approval (canonicalApprovalV2 a) = map_option j_approval (canonicalApprovalV2 b) \<longleftrightarrow>
     content_approval a = content_approval b"
  unfolding canonicalApprovalV2_def content_approval_def option.map_comp
  by (rule map_option_iff) (auto simp: j_approval_def)

lemma check_iff: "j_gate_check c = j_gate_check d \<longleftrightarrow> content_check c = content_check d"
  by (auto simp: j_gate_check_def content_check_def j_args_iff unless_empty_def split: if_splits)

lemma checks_iff:
  "map j_gate_check (canonicalGateChecks xs) = map j_gate_check (canonicalGateChecks ys) \<longleftrightarrow>
     map content_check xs = map content_check ys"
  by (simp add: canonicalGateChecks_def map_iff [OF check_iff])

lemma gate_iff:
  "map_option j_gate (canonicalGateV2 a) = map_option j_gate (canonicalGateV2 b) \<longleftrightarrow> content_gate a = content_gate b"
  unfolding canonicalGateV2_def content_gate_def option.map_comp
  by (rule map_option_iff) (auto simp: j_gate_def checks_iff)

lemma snapshot_iff:
  "map_option j_snapshot (canonicalRunSnapshotV2 a) = map_option j_snapshot (canonicalRunSnapshotV2 b) \<longleftrightarrow>
     content_snapshot a = content_snapshot b"
  unfolding canonicalRunSnapshotV2_def content_snapshot_def option.map_comp
  by (rule map_option_iff) (auto simp: j_snapshot_def sort_iff)


lemma reason_entry: "(if s = '''' then None else Some (AStr s)) = (if t = '''' then None else Some (AStr t)) \<longleftrightarrow> s = t"
  by auto

lemma if_present_cong: "map_option f a = map_option f b \<Longrightarrow> if_present k f a = if_present k f b"
  by (cases a; cases b) (auto simp: if_present_def)

lemmas part_iffs = rollback_iff approval_iff gate_iff snapshot_iff

lemma execution_iff:
  "j_step (canonicalStepV1 s) = j_step (canonicalStepV1 t) \<longleftrightarrow>
    (ps_name s, ps_module s, ps_action s, content_args (ps_args s)) =
    (ps_name t, ps_module t, ps_action t, content_args (ps_args t))"
  by (simp add: j_step_def canonicalStepV1_def j_args_iff)

lemma step_iff: "j_step_v2 (canonicalStepV2 s) = j_step_v2 (canonicalStepV2 t) \<longleftrightarrow> content_step s = content_step t"
proof
  assume "j_step_v2 (canonicalStepV2 s) = j_step_v2 (canonicalStepV2 t)"
  then have e: "json_entry k (j_step_v2 (canonicalStepV2 s)) = json_entry k (j_step_v2 (canonicalStepV2 t))" for k
    by simp
  show "content_step s = content_step t"
    using e [of "''execution''"] e [of "''rollback''"] e [of "''approval''"] e [of "''gate''"]
      e [of "''irreversible''"] e [of "''irreversible_reason''"]
    by (simp add: j_step_v2_def canonicalStepV2_def content_step_def execution_iff part_iffs reason_entry
        map_of_optional del: map_of_append)
next
  assume "content_step s = content_step t"
  then have "j_step (canonicalStepV1 s) = j_step (canonicalStepV1 t)"
    "map_option j_rollback (canonicalRollbackV2 (ps_rollback s)) = map_option j_rollback (canonicalRollbackV2 (ps_rollback t))"
    "map_option j_approval (canonicalApprovalV2 (ps_approval s)) = map_option j_approval (canonicalApprovalV2 (ps_approval t))"
    "map_option j_gate (canonicalGateV2 (ps_gate s)) = map_option j_gate (canonicalGateV2 (ps_gate t))"
    "ps_irreversible s = ps_irreversible t" "ps_irreversible_reason s = ps_irreversible_reason t"
    by (simp_all add: content_step_def execution_iff part_iffs)
  note parts = this
  show "j_step_v2 (canonicalStepV2 s) = j_step_v2 (canonicalStepV2 t)"
    by (simp add: j_step_v2_def canonicalStepV2_def parts(1,5,6) if_present_cong [OF parts(2)]
        if_present_cong [OF parts(3)] if_present_cong [OF parts(4)])
qed

lemma steps_iff:
  "map j_step_v2 (canonicalStepsV2 xs) = map j_step_v2 (canonicalStepsV2 ys) \<longleftrightarrow> map content_step xs = map content_step ys"
  using map_iff [of "j_step_v2 \<circ> canonicalStepV2" content_step xs ys] step_iff by (simp add: canonicalStepsV2_def)

lemma batch_iff: "j_batch_v2 (canonicalBatchV2 a) = j_batch_v2 (canonicalBatchV2 b) \<longleftrightarrow> content_batch a = content_batch b"
proof
  assume "j_batch_v2 (canonicalBatchV2 a) = j_batch_v2 (canonicalBatchV2 b)"
  then have e: "json_entry k (j_batch_v2 (canonicalBatchV2 a)) = json_entry k (j_batch_v2 (canonicalBatchV2 b))" for k
    by simp
  show "content_batch a = content_batch b"
    using e [of "''index''"] e [of "''targets''"] e [of "''steps''"] e [of "''max_concurrency''"] e [of "''gate''"]
    by (simp add: j_batch_v2_def canonicalBatchV2_def content_batch_def steps_iff part_iffs
        map_of_optional del: map_of_append)
next
  assume "content_batch a = content_batch b"
  then have "pb_index a = pb_index b" "mset (pb_targets a) = mset (pb_targets b)"
    "map j_step_v2 (canonicalStepsV2 (pb_steps a)) = map j_step_v2 (canonicalStepsV2 (pb_steps b))"
    "map_option j_gate (canonicalGateV2 (pb_gate a)) = map_option j_gate (canonicalGateV2 (pb_gate b))"
    "pb_max_concurrency a = pb_max_concurrency b"
    by (simp_all add: content_batch_def steps_iff part_iffs)
  note parts = this
  have "sortedCopy (pb_targets a) = sortedCopy (pb_targets b)" using parts(2) by simp
  then show "j_batch_v2 (canonicalBatchV2 a) = j_batch_v2 (canonicalBatchV2 b)"
    by (simp add: j_batch_v2_def canonicalBatchV2_def parts(1,3,5) if_present_cong [OF parts(4)])
qed

lemma batches_iff:
  "map j_batch_v2 (map canonicalBatchV2 xs) = map j_batch_v2 (map canonicalBatchV2 ys) \<longleftrightarrow>
     map content_batch xs = map content_batch ys"
  using map_iff [of "j_batch_v2 \<circ> canonicalBatchV2" content_batch xs ys] batch_iff by simp

lemma risk_factors_iff: "canonicalRiskFactors a = canonicalRiskFactors b \<longleftrightarrow> mset a = mset b"
proof
  assume "canonicalRiskFactors a = canonicalRiskFactors b"
  then have "mset (canonicalRiskFactors a) = mset (canonicalRiskFactors b)" by simp
  then show "mset a = mset b" by (simp add: canonicalRiskFactors_def)
next
  have inj: "inj_on (\<lambda>f :: plan_risk_factor. (prf_rule f, prf_points f, prf_detail f)) A" for A
    by (rule inj_onI) simp
  assume "mset a = mset b"
  then have "mset a = mset (canonicalRiskFactors b)" by (simp add: canonicalRiskFactors_def)
  then show "canonicalRiskFactors a = canonicalRiskFactors b"
    unfolding canonicalRiskFactors_def by (rule sort_key_inj_key_eq [OF _ inj]) simp
qed

lemma j_risk_factor_inj: "inj j_risk_factor"
  by (rule injI) (simp add: j_risk_factor_def)

lemma strings_of_tree: "strings_of (map json_tree xs) = strings_of xs"
proof (induction xs)
  case (Cons x xs)
  then show ?case by (cases x) auto
qed simp

lemma strings_of_AStr: "strings_of (map AStr xs) = xs"
  by (induction xs) auto

lemma extract_content: "extractIndirectTargets (content_args a) = extractIndirectTargets a"
proof (cases a)
  case (Some m)
  have "map_of (map (map_prod id json_tree) m) k = map_option json_tree (map_of m k)" for k
    by (induction m) auto
  then show ?thesis using Some
    by (auto simp: extractIndirectTargets_def content_args_def strings_of_tree strings_of_AStr split: option.splits any.splits)
qed (simp add: extractIndirectTargets_def content_args_def)

lemma content_direct:
  "(\<Union>b\<in>set xs. set (pb_targets b)) = (\<Union>c\<in>set (map content_batch xs). set_mset (fst (snd c)))"
  by (simp add: content_batch_def)

lemma content_indirect:
  "(\<Union>b\<in>set xs. \<Union>s\<in>set (pb_steps b). set (extractIndirectTargets (ps_args s))) =
   (\<Union>c\<in>set (map content_batch xs). \<Union>s\<in>set (fst (snd (snd c))). set (extractIndirectTargets (fst (snd (snd (snd s))))))"
  by (simp add: content_batch_def content_step_def extract_content)

lemma content_analysis:
  assumes "map content_batch (pl_batches p) = map content_batch (pl_batches q)"
  shows "Analyze p = Analyze q"
    "(\<Union>b\<in>set (pl_batches p). set (pb_targets b)) = (\<Union>b\<in>set (pl_batches q). set (pb_targets b))"
  unfolding Analyze_def content_direct content_indirect assms by simp_all

definition plan_document :: "plan \<Rightarrow> any" where
  "plan_document p = j_plan_v2 (buildCanonicalV2 p)"

lemma document_iff: "plan_document p = plan_document q \<longleftrightarrow> plan_content p = plan_content q"
proof
  assume "plan_document p = plan_document q"
  then have e: "json_entry k (plan_document p) = json_entry k (plan_document q)" for k by simp
  show "plan_content p = plan_content q"
    using e [of "''workflow_name''"] e [of "''batches''"] e [of "''risk_score''"] e [of "''risk_factors''"]
      e [of "''approval_floor''"] e [of "''approval''"] e [of "''rollback''"] e [of "''gate''"] e [of "''run_snapshot''"]
    by (simp add: plan_document_def j_plan_v2_def buildCanonicalV2_def buildCanonicalV1_def Let_def plan_content_def
        part_iffs batches_iff [simplified] risk_factors_iff inj_map_eq_map [OF j_risk_factor_inj] map_of_optional
        del: map_of_append)
next
  assume c: "plan_content p = plan_content q"
  then have "map content_batch (pl_batches p) = map content_batch (pl_batches q)" by (simp add: plan_content_def)
  note an = content_analysis [OF this] and b = this [folded batches_iff]
  from c have parts:
    "map_option j_approval (canonicalApprovalV2 (pl_approval p)) = map_option j_approval (canonicalApprovalV2 (pl_approval q))"
    "map_option j_rollback (canonicalRollbackV2 (pl_rollback p)) = map_option j_rollback (canonicalRollbackV2 (pl_rollback q))"
    "map_option j_gate (canonicalGateV2 (pl_gate p)) = map_option j_gate (canonicalGateV2 (pl_gate q))"
    "map_option j_snapshot (canonicalRunSnapshotV2 (pl_run_snapshot p)) =
      map_option j_snapshot (canonicalRunSnapshotV2 (pl_run_snapshot q))"
    "canonicalRiskFactors (pl_risk_factors p) = canonicalRiskFactors (pl_risk_factors q)"
    "pl_workflow_name p = pl_workflow_name q" "pl_risk_score p = pl_risk_score q" "pl_approval_floor p = pl_approval_floor q"
    by (simp_all add: plan_content_def part_iffs risk_factors_iff)
  show "plan_document p = plan_document q"
    unfolding plan_document_def j_plan_v2_def buildCanonicalV2_def buildCanonicalV1_def Let_def an
    using b by (simp add: parts(5-8) if_present_cong [OF parts(1)] if_present_cong [OF parts(2)]
      if_present_cong [OF parts(3)] if_present_cong [OF parts(4)])
qed

definition document_collision :: "plan_digest \<Rightarrow> any \<Rightarrow> any \<Rightarrow> bool" where
  "document_collision d x y \<longleftrightarrow> x \<noteq> y \<and> pd_sha256 d (pd_render d x) = pd_sha256 d (pd_render d y)"

text \<open>
  C4. A hash of the current version names the content of a plan: given a plan that verifies against it,
  another plan verifies against it exactly when it has the same content (workflow, batches, steps with
  their arguments, undo steps, gates, approval rules, risk and baseline), or else the documents of the
  two plans collide under the digest. What is left out is the id, the creation time, the count of
  targets and the order of lists that have none.
\<close>

theorem plan_hash_names_content:
  assumes "VerifyHash d p h" and "has_prefix h hashPrefixV2" and "h \<noteq> hashPrefixV2"
  shows "(VerifyHash d q h \<longleftrightarrow> plan_content q = plan_content p) \<or>
    document_collision d (plan_document p) (plan_document q)"
proof -
  have v: "VerifyHash d r h \<longleftrightarrow> hashPrefixV2 @ hashCanonical d (plan_document r) = h" for r
    using assms(2) by (auto simp: VerifyHash_def ComputePlanHash_def plan_document_def hashPrefixV2_def HashVersionV2_def)
  have p: "supported (plan_document p)" "h = hashPrefixV2 @ hex_encode (pd_sha256 d (pd_render d (plan_document p)))"
    using assms(1,3) unfolding v by (auto simp: hashCanonical_def split: if_splits)
  show ?thesis
  proof (cases "plan_document q = plan_document p")
    case True
    then show ?thesis using assms(1) unfolding v by (simp add: document_iff [symmetric])
  next
    case False
    have "document_collision d (plan_document p) (plan_document q)" if "VerifyHash d q h"
      using that [unfolded v] p(2) hex_encode_nonempty [symmetric] False
      by (auto simp: hashCanonical_def document_collision_def split: if_splits)
    then show ?thesis using False by (auto simp: document_iff)
  qed
qed

lemma hex_not_v2: "isLowerHex h \<Longrightarrow> \<not> has_prefix h hashPrefixV2"
  by (cases h) (auto simp: isLowerHex_def hashPrefixV2_def HashVersionV2_def less_eq_char_def)

text \<open>
  A hash of the first version covers the execution alone: a plan that verifies against one still
  verifies with any other approval rules, floor, risk, rollback, gates and baseline.
\<close>

theorem legacy_hash_ignores_governance:
  assumes "length h = legacyHashLen" and "isLowerHex h"
  shows "VerifyHash d (p\<lparr>pl_approval := a, pl_approval_floor := f, pl_risk_score := n, pl_risk_factors := fs,
      pl_rollback := r, pl_gate := g, pl_run_snapshot := s\<rparr>) h \<longleftrightarrow> VerifyHash d p h"
  using hex_not_v2 [OF assms(2)] by (simp add: VerifyHash_def ComputeHashV1_def buildCanonicalV1_def Analyze_def Let_def)

text \<open>
  A plan with a value that JSON cannot express hashes to the bare prefix, which verifies against every
  other such plan.
\<close>

lemma unsupported_plans_share_a_hash:
  assumes "\<not> supported (plan_document p)"
  shows "VerifyHash d p hashPrefixV2"
  using assms by (simp add: VerifyHash_def ComputePlanHash_def hashCanonical_def plan_document_def
      hashPrefixV2_def HashVersionV2_def)

lemma VerifyHash_own [simp]: "VerifyHash d p (ComputePlanHash d p)"
  by (simp add: VerifyHash_def ComputePlanHash_def) (simp add: hashPrefixV2_def HashVersionV2_def)

section \<open>Plans to evaluate\<close>

definition demo_plan :: "string \<Rightarrow> plan" where
  "demo_plan floor = \<lparr>pl_id = ''p1'', pl_workflow_name = ''wf'', pl_batches = [\<lparr>pb_index = 0, pb_targets = [''h1'', ''h2''],
     pb_steps = [\<lparr>ps_name = ''s'', ps_module = ''pkg'', ps_action = ''remove'', ps_args = Some [(''name'', AStr ''nginx'')],
       ps_rollback = None, ps_approval = None, ps_gate = None, ps_irreversible = True, ps_irreversible_reason = ''whitelist''\<rparr>],
     pb_max_concurrency = 1, pb_gate = None\<rparr>], pl_total_targets = 2, pl_created_at = 0, pl_risk_score = 20,
     pl_risk_factors = [], pl_approval_floor = floor, pl_approval = None, pl_rollback = None, pl_gate = None,
     pl_run_snapshot = None\<rparr>"

text \<open>A digest that reads the floor out of the document.\<close>

definition demo_digest :: plan_digest where
  "demo_digest = \<lparr>pd_render = (\<lambda>v. case json_entry ''approval_floor'' v of Some (AStr s) \<Rightarrow> s | _ \<Rightarrow> ''''),
     pd_sha256 = (\<lambda>s. of_nat (length s))\<rparr>"

lemma demo_document: "json_entry ''approval_floor'' (plan_document (demo_plan f)) = Some (AStr f)"
  by (simp add: plan_document_def j_plan_v2_def buildCanonicalV2_def demo_plan_def Let_def)

lemma demo_supported: "supported (plan_document (demo_plan f))"
  by (simp add: plan_document_def j_plan_v2_def buildCanonicalV2_def buildCanonicalV1_def Let_def demo_plan_def j_strs_def
      j_int_def j_batch_v2_def canonicalBatchV2_def canonicalStepsV2_def canonicalStepV2_def canonicalStepV1_def j_step_v2_def
      j_step_def j_args_def if_present_def unless_empty_def canonicalRollbackV2_def canonicalApprovalV2_def canonicalGateV2_def
      canonicalRunSnapshotV2_def canonicalRiskFactors_def j_impact_def list_all_iff)

theorem plan_hash_names_content_witness:
  "VerifyHash demo_digest (demo_plan ''high'') (ComputePlanHash demo_digest (demo_plan ''high'')) \<and>
   \<not> VerifyHash demo_digest (demo_plan ''standard'') (ComputePlanHash demo_digest (demo_plan ''high''))"
proof -
  let ?h = "ComputePlanHash demo_digest (demo_plan ''high'')"
  have h: "has_prefix ?h hashPrefixV2" "?h \<noteq> hashPrefixV2"
    using demo_supported [of "''high''"] by (simp_all add: ComputePlanHash_def hashCanonical_def plan_document_def)
  have "\<not> document_collision demo_digest (plan_document (demo_plan ''high'')) (plan_document (demo_plan ''standard''))"
    by (simp add: document_collision_def demo_digest_def demo_document)
  then show ?thesis using plan_hash_names_content [OF VerifyHash_own h, of "demo_plan ''standard''"]
    by (simp add: plan_content_def demo_plan_def)
qed

theorem legacy_hash_ignores_governance_witness:
  "VerifyHash demo_digest (demo_plan ''standard'') (replicate 64 CHR ''0'') \<longleftrightarrow>
   VerifyHash demo_digest (demo_plan ''high'') (replicate 64 CHR ''0'')"
  using legacy_hash_ignores_governance [where h = "replicate 64 CHR ''0''" and d = demo_digest and p = "demo_plan ''high''"
    and a = None and f = "''standard''" and n = 20 and fs = "[]" and r = None and g = None and s = None]
  by (simp add: legacyHashLen_def isLowerHex_def list_all_iff demo_plan_def)

end
