(* ===== verification/Change_Service.thy ===== *)
theory Change_Service
  imports Trace_Chain Pause Retry_Budget Approval Authz Plan_Hash
begin

text \<open>
  \<^verbatim>\<open>internal/grpc/change_service.go\<close>, first part: planning a change, starting its approval chain and
  applying it, with the write gate of \<^verbatim>\<open>resource_authz.go\<close>. The later parts of the life of a change
  are in the theory \<open>Change_Lifecycle\<close>.

  A handler is a state transformer over the \<open>world\<close> that fails with the code of the status it
  returns; the response is the run. \<open>None\<close> is the page loop of the audit chain out of fuel. The events
  for watchers, the learner and the alert platform that hear of a verdict, and log lines have no effect on
  the database and are left out. The store is always configured.
\<close>

section \<open>Handlers\<close>

datatype code = Internal | NotFound | FailedPrecondition | PermissionDenied | Unauthenticated | InvalidArgument
  | ResourceExhausted | AlreadyExists

type_synonym 'a svc = "world \<Rightarrow> ((code + 'a) \<times> world) option"

definition answer :: "'a \<Rightarrow> 'a svc" where "answer x w = Some (Inr x, w)"
definition refuse :: "code \<Rightarrow> 'a svc" where "refuse c w = Some (Inl c, w)"

definition next_do :: "'a svc \<Rightarrow> ('a \<Rightarrow> 'b svc) \<Rightarrow> 'b svc" where
  "next_do m f w = (case m w of None \<Rightarrow> None | Some (Inl c, w1) \<Rightarrow> Some (Inl c, w1) | Some (Inr x, w1) \<Rightarrow> f x w1)"

text \<open>A statement whose error is reported with a code, and one whose outcome is dropped.\<close>

definition on_store :: "code \<Rightarrow> 'a op \<Rightarrow> 'a svc" where
  "on_store c m w = (case m w of (Inl _, w1) \<Rightarrow> Some (Inl c, w1) | (Inr x, w1) \<Rightarrow> Some (Inr x, w1))"

definition ignoring :: "(world \<Rightarrow> 'a \<times> world) \<Rightarrow> unit svc" where
  "ignoring m w = Some (Inr (), snd (m w))"

definition reading :: "(world \<Rightarrow> 'a \<times> world) \<Rightarrow> 'a svc" where
  "reading m w = (case m w of (x, w1) \<Rightarrow> Some (Inr x, w1))"

definition load_run :: "string \<Rightarrow> run_row svc" where
  "load_run i = next_do (on_store Internal (GetRun i))
     (\<lambda>r. case r of None \<Rightarrow> refuse NotFound | Some run \<Rightarrow> answer run)"

text \<open>A failing random generator panics, and the recovery interceptor answers \<^verbatim>\<open>Internal\<close>.\<close>

definition newID :: "string \<Rightarrow> string svc" where
  "newID prefix w = (case rand_read w of (None, w1) \<Rightarrow> Some (Inl Internal, w1) | (Some r, w1) \<Rightarrow> Some (Inr (prefix @ r), w1))"

section \<open>The service and what it is built from\<close>

text \<open>
  The functions of the \<^verbatim>\<open>EngineAdapter\<close>, each of which may be missing. \<open>en_run\<close> gives the id of the
  execution, its success, its phase and whether it returned an error.
\<close>

record stored_plan =
  sd_json :: string
  sd_hash :: string

datatype plan_failure = PlanRefused | PlanFailed
datatype retry_failure = ErrReplanNeedsApproval | RetryFailed
datatype rollback_failure = ErrIncomplete | RollbackFailed

record rollback_outcome =
  ro_run_id :: string
  ro_rolled_back_hosts :: "string list"
  ro_skipped_hosts :: "string list"
  ro_gaps :: "string list"

record engine_adapter =
  en_plan :: "(string \<Rightarrow> string list \<Rightarrow> world \<Rightarrow> (plan_failure + stored_plan option) \<times> world) option"
  en_run :: "(string \<Rightarrow> bool \<Rightarrow> int \<Rightarrow> world \<Rightarrow> (string \<times> bool \<times> string \<times> bool) \<times> world) option"
  en_retry :: "(string \<Rightarrow> bool \<Rightarrow> string list \<Rightarrow> world \<Rightarrow> retry_failure option \<times> world) option"
  en_rollback :: "(string \<Rightarrow> string \<Rightarrow> bool \<Rightarrow> bool \<Rightarrow> world \<Rightarrow> (rollback_outcome \<times> rollback_failure option) \<times> world) option"

text \<open>
  \<open>json_plan\<close> is \<^verbatim>\<open>json.Unmarshal\<close> at \<^verbatim>\<open>plan.Plan\<close>, \<open>parse_workflow\<close> the parser of \<^verbatim>\<open>internal/dsl\<close> (its
  result is the approval declaration), \<open>frozen\<close> the check of \<^verbatim>\<open>internal/inventory\<close>; \<open>on_create\<close> are the
  observers, whose panics are recovered.
\<close>

record change_service =
  sv_engine :: "engine_adapter option"
  sv_approval :: "approval_service option"
  sv_pause :: bool
  sv_authz :: "authorizer option"
  sv_denial :: "(string \<Rightarrow> string \<Rightarrow> string \<Rightarrow> world \<Rightarrow> world option) option"
  sv_bulk_auth :: "permission_checker option"
  sv_expiry :: "(string \<Rightarrow> time) option"
  sv_on_create :: "(approval \<Rightarrow> world \<Rightarrow> world) list"
  sv_crypto :: crypto
  sv_fuel :: nat
  sv_codec :: approval_codec
  sv_digest :: plan_digest
  sv_json_plan :: "string \<Rightarrow> plan option"
  sv_parse_workflow :: "string \<Rightarrow> approval_spec option option"
  sv_frozen :: "string list \<Rightarrow> tables \<Rightarrow> bool"
  sv_json_params :: "string \<Rightarrow> (string \<times> string) list"
  sv_params_json :: "(string \<times> string) list \<Rightarrow> string option"

record call_context =
  cx_subject :: string
  cx_actor :: string

definition actorFromCtx :: "call_context \<Rightarrow> string" where
  "actorFromCtx cx = (if cx_actor cx \<noteq> '''' then cx_actor cx else ''grpc-user'')"

definition creatorFromCtx :: "call_context \<Rightarrow> string" where
  "creatorFromCtx cx = (if cx_subject cx \<noteq> '''' then cx_subject cx else actorFromCtx cx)"

definition requireSubject :: "call_context \<Rightarrow> string svc" where
  "requireSubject cx = (if cx_subject cx \<noteq> '''' then answer (cx_subject cx) else refuse Unauthenticated)"

definition audit_entry :: "string \<Rightarrow> string \<Rightarrow> string \<Rightarrow> string \<Rightarrow> string \<Rightarrow> string \<Rightarrow> time \<Rightarrow> audit_row" where
  "audit_entry i rid action actor target result now = \<lparr>au_id = i, au_run_id = rid, au_action = action,
     au_actor = actor, au_target = target, au_result = result, au_tenant_id = '''', au_prev_hash = '''',
     au_curr_hash = '''', au_timestamp = now\<rparr>"

text \<open>An audit row that cannot be written is logged.\<close>

definition recordServiceAudit :: "change_service \<Rightarrow> audit_row \<Rightarrow> unit svc" where
  "recordServiceAudit s a w = (case Record (sv_crypto s) (sv_fuel s) a w of
     None \<Rightarrow> None | Some (_, w1) \<Rightarrow> Some (Inr (), w1))"

definition audit_now :: "change_service \<Rightarrow> string \<Rightarrow> string \<Rightarrow> string \<Rightarrow> string \<Rightarrow> string \<Rightarrow> time \<Rightarrow> unit svc" where
  "audit_now s rid action actor target result now =
     next_do (newID ''aud-'') (\<lambda>i. recordServiceAudit s (audit_entry i rid action actor target result now))"

section \<open>The write gate\<close>

definition UnattributableActor :: string where "UnattributableActor = ''<unattributable>''"

definition RecordDenial :: "change_service \<Rightarrow> auth_decision \<Rightarrow> unit svc" where
  "RecordDenial s d w = (case sv_denial s of
     None \<Rightarrow> Some (Inr (), w)
   | Some rec \<Rightarrow> if ad_allowed d then Some (Inr (), w)
       else (case rec (if ad_subject d = '''' then UnattributableActor else ad_subject d) (ad_action d) (ad_env d) w of
          None \<Rightarrow> None | Some w1 \<Rightarrow> Some (Inr (), w1)))"

definition authorizeResource :: "change_service \<Rightarrow> call_context \<Rightarrow> string \<Rightarrow> string \<Rightarrow> unit svc" where
  "authorizeResource s cx env action = (case sv_authz s of
     None \<Rightarrow> answer ()
   | Some a \<Rightarrow>
      (let d = Decide a (cx_subject cx) env action in
       if ad_allowed d then answer ()
       else next_do (RecordDenial s d)
         (\<lambda>_. refuse (if ad_subject d = '''' then Unauthenticated else PermissionDenied))))"

definition envOf :: "run_row \<Rightarrow> string" where
  "envOf run = run_incident_id run"

definition authorize :: "change_service \<Rightarrow> call_context \<Rightarrow> run_row \<Rightarrow> string \<Rightarrow> unit svc" where
  "authorize s cx run action = authorizeResource s cx (envOf run) action"

section \<open>The approval chain of a plan\<close>

definition withoutIdentity :: "string list \<Rightarrow> string \<Rightarrow> string list" where
  "withoutIdentity approvers identity = (if identity = '''' then approvers else filter (\<lambda>a. a \<noteq> identity) approvers)"

definition contains_any :: "string \<Rightarrow> char list \<Rightarrow> bool" where
  "contains_any s cs \<longleftrightarrow> list_ex (\<lambda>c. c \<in> set cs) s"

definition parseInlineApprovalSpec :: "change_service \<Rightarrow> string \<Rightarrow> approval_spec option" where
  "parseInlineApprovalSpec s src0 =
     (let src = trim_space src0 in
      if src = '''' then None
      else if \<not> contains_any src [CHR 0x0A, CHR 0x0D] \<and>
        (contains_any src [CHR ''/'', CHR 0x5C] \<or> CHR '' '' \<notin> set src) then None
      else case sv_parse_workflow s src of None \<Rightarrow> None | Some ap \<Rightarrow> ap)"

definition declared_spec :: "change_service \<Rightarrow> run_row \<Rightarrow> plan \<Rightarrow> approval_spec option" where
  "declared_spec s run p = (case pl_approval p of Some sp \<Rightarrow> Some sp
     | None \<Rightarrow> parseInlineApprovalSpec s (run_workflow_name run))"

definition derivedApprovalTier :: "change_service \<Rightarrow> run_row \<Rightarrow> string" where
  "derivedApprovalTier s run =
     (if run_plan_json run = '''' then ''''
      else case sv_json_plan s (run_plan_json run) of
        None \<Rightarrow> ''''
      | Some p \<Rightarrow>
         (let declared = (case declared_spec s run p of None \<Rightarrow> '''' | Some sp \<Rightarrow> sp_level sp);
              lvl = MaxLevel declared (pl_approval_floor p)
          in if lvl = '''' then LevelStandard else lvl))"

definition approvalExpiryFor :: "change_service \<Rightarrow> string \<Rightarrow> time svc" where
  "approvalExpiryFor s level = (case sv_expiry s of
     Some f \<Rightarrow> answer (f level)
   | None \<Rightarrow> next_do (reading time_now) (\<lambda>now. answer (now + 24 * 3600 * second)))"

text \<open>Every pending row is expired; a reason that cannot be written and a failing update are logged.\<close>

primrec supersede_all :: "change_service \<Rightarrow> approval_row list \<Rightarrow> unit svc" where
  "supersede_all s [] = answer ()"
| "supersede_all s (old # rows) = next_do (reading time_now) (\<lambda>now.
     let old1 = old\<lparr>ap_status := ''expired'', ap_acted_at := Some now\<rparr>;
         old2 = (case MarkSuperseded (sv_codec s) (Some old1) ''superseded by re-plan'' of Inl _ \<Rightarrow> old1 | Inr r \<Rightarrow> r)
     in next_do (ignoring (UpdateApproval old2)) (\<lambda>_. supersede_all s rows))"

definition rows_filter :: "string \<Rightarrow> string \<Rightarrow> approval_filter" where
  "rows_filter rid st = \<lparr>af_run_id = rid, af_level = '''', af_status = st, af_limit = 0, af_tenant_id = ''''\<rparr>"

primrec notify_created :: "(approval \<Rightarrow> world \<Rightarrow> world) list \<Rightarrow> approval \<Rightarrow> world \<Rightarrow> world" where
  "notify_created [] a w = w"
| "notify_created (f # fs) a w = notify_created fs a (f a w)"

text \<open>
  Who may vote and how many must: the refusal is the code of \<^verbatim>\<open>PlanChange\<close>. The answer is the lvl, the
  quorum, the approvers and whether the initiator is excluded.
\<close>

definition chain_terms :: "approval_spec option \<Rightarrow> string \<Rightarrow> string \<Rightarrow> code + (int \<times> string list \<times> bool)" where
  "chain_terms spec lvl creator = (case MinApproversFor lvl of
     Inl _ \<Rightarrow> Inl FailedPrecondition
   | Inr tier_min \<Rightarrow>
      (let minApprovers = (case spec of None \<Rightarrow> tier_min
             | Some sp \<Rightarrow> if sp_min_approvers sp > tier_min then sp_min_approvers sp else tier_min);
           declared = (case spec of None \<Rightarrow> [] | Some sp \<Rightarrow> sp_approvers sp);
           excludeInitiator = (if ForcesInitiatorExclusion lvl then True
             else case spec of None \<Rightarrow> False | Some sp \<Rightarrow> sp_exclude_initiator sp);
           approvers = (if declared = [] \<and> \<not> excludeInitiator \<and> minApprovers \<le> 1 then [creator] else declared);
           votable = (if excludeInitiator then withoutIdentity approvers creator else approvers)
       in if int (length votable) < minApprovers then Inl FailedPrecondition
          else Inr (minApprovers, approvers, excludeInitiator)))"

definition AuditActionApprovalKickoff :: string where "AuditActionApprovalKickoff = ''approval_kickoff''"
definition AuditResultSuccess :: string where "AuditResultSuccess = ''success''"

text \<open>The tail of the kick-off, after the old chain was superseded.\<close>

definition create_chain :: "change_service \<Rightarrow> approval_service \<Rightarrow> run_row \<Rightarrow> string \<Rightarrow> int \<times> string list \<times> bool \<Rightarrow> unit svc" where
  "create_chain s ap run lvl terms = (case terms of (minApprovers, approvers, excl) \<Rightarrow>
     next_do (approvalExpiryFor s lvl) (\<lambda>expires.
     next_do (reading (ServiceCreate ap \<lparr>cr_id = '''', cr_run_id = run_id run, cr_level = lvl, cr_approvers = approvers,
         cr_min_approvers = minApprovers, cr_expires_at = expires, cr_plan_hash = run_plan_hash run,
         cr_initiator = run_creator run, cr_exclude_initiator = excl\<rparr>)) (\<lambda>created.
     case created of
       Inl _ \<Rightarrow> answer ()
     | Inr a \<Rightarrow>
        next_do (if run_approval_level run \<noteq> lvl
           then next_do (reading time_now) (\<lambda>now.
             ignoring (UpdateRun (run\<lparr>run_approval_level := lvl, run_updated_at := now\<rparr>)))
           else answer ()) (\<lambda>_.
        next_do (newID ''aud-'') (\<lambda>i.
        next_do (reading time_now) (\<lambda>at.
        next_do (recordServiceAudit s (audit_entry i (run_id run) AuditActionApprovalKickoff ''system'' (av_id a)
            AuditResultSuccess at)) (\<lambda>_.
        ignoring (\<lambda>w. ((), notify_created (sv_on_create s) a w)))))))))"

definition kickoffApproval :: "change_service \<Rightarrow> run_row \<Rightarrow> unit svc" where
  "kickoffApproval s run = (case sv_approval s of
     None \<Rightarrow> answer ()
   | Some ap \<Rightarrow>
      if run_plan_json run = '''' then answer ()
      else case sv_json_plan s (run_plan_json run) of
        None \<Rightarrow> answer ()
      | Some p \<Rightarrow>
         if \<not> VerifyHash (sv_digest s) p (run_plan_hash run) then answer ()
         else
           (let spec = declared_spec s run p;
                lvl = (let t = derivedApprovalTier s run in if t = '''' then LevelStandard else t)
            in case chain_terms spec lvl (run_creator run) of
              Inl c \<Rightarrow> refuse c
            | Inr terms \<Rightarrow>
               next_do (reading (ListApprovals (rows_filter (run_id run) ''pending''))) (\<lambda>rows.
               next_do (case rows of Inl _ \<Rightarrow> answer () | Inr olds \<Rightarrow> supersede_all s olds)
                 (\<lambda>_. create_chain s ap run lvl terms))))"

section \<open>Planning\<close>

record plan_request =
  pq_change_id :: string
  pq_target_hosts :: "string list"
  pq_dry_run :: bool

definition ApprovalStatusPending :: string where "ApprovalStatusPending = ''pending''"
definition ApprovalStatusApproved :: string where "ApprovalStatusApproved = ''approved''"
definition ApprovalStatusRejected :: string where "ApprovalStatusRejected = ''rejected''"

text \<open>What follows the plan write: the tier without an approval service, the reset, the kick-off.\<close>

definition record_tier :: "change_service \<Rightarrow> run_row \<Rightarrow> run_row svc" where
  "record_tier s run =
     (if sv_approval s = None \<and> derivedApprovalTier s run \<noteq> '''' \<and> run_approval_level run \<noteq> derivedApprovalTier s run
      then let run1 = run\<lparr>run_approval_level := derivedApprovalTier s run\<rparr> in
        next_do (on_store Internal (UpdateRun run1)) (\<lambda>_. answer run1)
      else answer run)"

definition reset_approved :: "run_row \<Rightarrow> string \<Rightarrow> stored_plan \<Rightarrow> time \<Rightarrow> run_row svc" where
  "reset_approved run prevHash stored now =
     (if run_status run = StatusApproved \<and> sd_hash stored \<noteq> '''' \<and> sd_hash stored \<noteq> prevHash
      then next_do (on_store Internal
          (UpdateRunApprovalStatusIf (run_id run) StatusApproved StatusDraft ApprovalStatusPending now)) (\<lambda>ok.
        answer (if ok then run\<lparr>run_status := StatusDraft, run_approval_status := ApprovalStatusPending\<rparr> else run))
      else answer run)"

definition persist_plan :: "change_service \<Rightarrow> run_row \<Rightarrow> stored_plan \<Rightarrow> unit svc" where
  "persist_plan s run stored =
     next_do (reading time_now) (\<lambda>now.
     next_do (on_store Internal (UpdateRunPlan (run_id run) (sd_json stored) (sd_hash stored) now)) (\<lambda>_.
     next_do (record_tier s (run\<lparr>run_plan_json := sd_json stored, run_plan_hash := sd_hash stored,
         run_updated_at := now\<rparr>)) (\<lambda>run1.
     next_do (reset_approved run1 (run_plan_hash run) stored now) (\<lambda>run2.
     kickoffApproval s run2))))"

definition PlanChange :: "change_service \<Rightarrow> call_context \<Rightarrow> plan_request \<Rightarrow> stored_plan option svc" where
  "PlanChange s cx req =
     next_do (load_run (pq_change_id req)) (\<lambda>run.
     next_do (authorize s cx run ActionPlan) (\<lambda>_.
     next_do (on_store FailedPrecondition (query (sv_frozen s (pq_target_hosts req)))) (\<lambda>frozen.
     if frozen then refuse FailedPrecondition
     else case (case sv_engine s of None \<Rightarrow> None | Some e \<Rightarrow> en_plan e) of
       None \<Rightarrow> answer None
     | Some plan_fn \<Rightarrow>
        next_do (reading (plan_fn (pq_change_id req) (pq_target_hosts req))) (\<lambda>res.
        case res of
          Inl PlanRefused \<Rightarrow> refuse FailedPrecondition
        | Inl PlanFailed \<Rightarrow> refuse Internal
        | Inr None \<Rightarrow> answer None
        | Inr (Some stored) \<Rightarrow>
           if sd_json stored \<noteq> '''' \<and> \<not> pq_dry_run req
           then next_do (persist_plan s run stored) (\<lambda>_. answer (Some stored))
           else answer (Some stored)))))"

section \<open>Applying\<close>

record apply_request =
  aq_change_id :: string
  aq_auto_approve :: bool
  aq_dry_run :: bool
  aq_max_concurrency :: int

record apply_response =
  ar_change :: run_row
  ar_run_id :: string
  ar_success :: bool

definition plan_verified :: "change_service \<Rightarrow> run_row \<Rightarrow> bool" where
  "plan_verified s run \<longleftrightarrow> (case sv_json_plan s (run_plan_json run) of
     None \<Rightarrow> False | Some p \<Rightarrow> VerifyHash (sv_digest s) p (run_plan_hash run))"

definition verifyStoredPlanHash :: "change_service \<Rightarrow> run_row \<Rightarrow> unit svc" where
  "verifyStoredPlanHash s run = (if plan_verified s run then answer () else refuse FailedPrecondition)"

definition approvalPlanMatch :: "approval_row \<Rightarrow> string \<Rightarrow> bool \<times> bool" where
  "approvalPlanMatch row planHash = MatchesPlan (Some row) planHash"

definition engine_run_fn :: "change_service \<Rightarrow> (string \<Rightarrow> bool \<Rightarrow> int \<Rightarrow> world \<Rightarrow> (string \<times> bool \<times> string \<times> bool) \<times> world) option" where
  "engine_run_fn s = (case sv_engine s of None \<Rightarrow> None | Some e \<Rightarrow> en_run e)"

text \<open>Everything \<^verbatim>\<open>ApplyChange\<close> asks before it touches the run.\<close>

definition apply_checks :: "change_service \<Rightarrow> apply_request \<Rightarrow> run_row \<Rightarrow> run_row svc" where
  "apply_checks s req run =
     (if \<not> aq_auto_approve req \<and> run_status run \<noteq> StatusApproved then refuse FailedPrecondition
      else if engine_run_fn s = None then refuse FailedPrecondition
      else if run_plan_json run = '''' then refuse FailedPrecondition
      else next_do (verifyStoredPlanHash s run) (\<lambda>_.
       if AutoApproveForbidden (run_approval_level run) \<and> aq_auto_approve req then refuse PermissionDenied
       else if \<not> aq_auto_approve req \<and> sv_approval s \<noteq> None then
         next_do (on_store Internal (ListApprovals (rows_filter (run_id run) ''approved''))) (\<lambda>rows.
         if list_ex (\<lambda>a. fst (approvalPlanMatch a (run_plan_hash run))) rows then answer run
         else refuse FailedPrecondition)
       else answer run))"

definition apply_gate :: "change_service \<Rightarrow> call_context \<Rightarrow> apply_request \<Rightarrow> run_row svc" where
  "apply_gate s cx req =
     (if aq_dry_run req then refuse FailedPrecondition
      else next_do (load_run (aq_change_id req)) (\<lambda>run.
       next_do (authorize s cx run ActionApply) (\<lambda>_. apply_checks s req run)))"

definition casRunStatus :: "run_row \<Rightarrow> string \<Rightarrow> (bool \<times> run_row) svc" where
  "casRunStatus run final = next_do (reading time_now) (\<lambda>now.
     next_do (reading (UpdateRunStatusIf (run_id run) StatusRunning final now)) (\<lambda>res.
     case res of
       Inl _ \<Rightarrow> answer (False, run)
     | Inr True \<Rightarrow> answer (True, run\<lparr>run_status := final, run_updated_at := now\<rparr>)
     | Inr False \<Rightarrow> next_do (reading (GetRun (run_id run))) (\<lambda>latest.
         case latest of
           Inr (Some l) \<Rightarrow> answer (False, run\<lparr>run_status := run_status l, run_updated_at := run_updated_at l\<rparr>)
         | _ \<Rightarrow> answer (False, run))))"

definition sealTraceChain :: "change_service \<Rightarrow> string \<Rightarrow> unit svc" where
  "sealTraceChain s rid = ignoring (SealRunTraceChain (sv_crypto s) rid)"

definition service_trace :: "string \<Rightarrow> string \<Rightarrow> string \<Rightarrow> string \<Rightarrow> time \<Rightarrow> trace_row" where
  "service_trace i rid event actor now = \<lparr>tr_id = i, tr_run_id = rid, tr_event = event, tr_actor = actor,
     tr_detail = '''', tr_prev_hash = '''', tr_curr_hash = '''', tr_timestamp = now, tr_tenant_id = ''''\<rparr>"

definition final_status :: "bool \<Rightarrow> string \<Rightarrow> string" where
  "final_status success phase = (if IsRollbackVerdict phase then phase
     else if success then StatusCompleted else StatusFailed)"

text \<open>The verdict of the engine is settled from running; a lost compare-and-set leaves it to the winner.\<close>

definition apply_settle :: "change_service \<Rightarrow> run_row \<Rightarrow> string \<times> bool \<times> string \<times> bool \<Rightarrow> apply_response svc" where
  "apply_settle s run outcome = (case outcome of (exec, success, phase, failed) \<Rightarrow>
     if failed then
       next_do (casRunStatus run StatusFailed) (\<lambda>(won, run1).
       if \<not> won then refuse FailedPrecondition
       else next_do (sealTraceChain s (run_id run)) (\<lambda>_. refuse Internal))
     else
       next_do (casRunStatus run (final_status success phase)) (\<lambda>(won, run1).
       if \<not> won then refuse FailedPrecondition
       else next_do (sealTraceChain s (run_id run))
         (\<lambda>_. answer \<lparr>ar_change = run1, ar_run_id = exec, ar_success = success\<rparr>)))"

definition apply_execute :: "change_service \<Rightarrow> call_context \<Rightarrow> apply_request \<Rightarrow> run_row \<Rightarrow> apply_response svc" where
  "apply_execute s cx req run =
     next_do (reading time_now) (\<lambda>now.
     next_do (on_store Internal (UpdateRunStatusIf (run_id run) (run_status run) StatusRunning now)) (\<lambda>ok.
     if \<not> ok then next_do (ignoring (GetRun (aq_change_id req))) (\<lambda>_. refuse FailedPrecondition)
     else
       next_do (newID ''trc-'') (\<lambda>i.
       next_do (ignoring (CreateTrace (service_trace i (run_id run) ''apply_started'' (actorFromCtx cx) now))) (\<lambda>_.
       case engine_run_fn s of
         None \<Rightarrow> refuse Internal
       | Some run_fn \<Rightarrow>
          next_do (reading (run_fn (aq_change_id req) (aq_auto_approve req) (aq_max_concurrency req)))
            (apply_settle s (run\<lparr>run_status := StatusRunning, run_updated_at := now\<rparr>))))))"

definition ApplyChange :: "change_service \<Rightarrow> call_context \<Rightarrow> apply_request \<Rightarrow> apply_response svc" where
  "ApplyChange s cx req = next_do (apply_gate s cx req) (apply_execute s cx req)"

section \<open>Reasoning about handlers\<close>

lemma next_do_simps [simp]:
  "next_do (answer x) f = f x" "next_do (refuse c) f = refuse c"
  by (auto simp: fun_eq_iff next_do_def answer_def refuse_def)

lemma next_do_ok:
  "next_do m f w = Some (Inr y, w2) \<longleftrightarrow> (\<exists>x w1. m w = Some (Inr x, w1) \<and> f x w1 = Some (Inr y, w2))"
  by (auto simp: next_do_def split: option.splits sum.splits)

lemma answer_ok [simp]: "answer x w = Some (r, w') \<longleftrightarrow> r = Inr x \<and> w' = w"
  by (auto simp: answer_def)

lemma refuse_not_ok [simp]: "refuse c w = Some (r, w') \<longleftrightarrow> r = Inl c \<and> w' = w"
  by (auto simp: refuse_def)


section \<open>What a handler may touch\<close>

text \<open>When nobody else writes, the handler leaves the surroundings and changes the tables within \<open>R\<close>.\<close>

definition keeps :: "(tables \<Rightarrow> tables \<Rightarrow> bool) \<Rightarrow> 'a svc \<Rightarrow> bool" where
  "keeps R m \<longleftrightarrow> (\<forall>w r w'. undisturbed w \<longrightarrow> m w = Some (r, w') \<longrightarrow> framed R w w')"

abbreviation reads :: "'a svc \<Rightarrow> bool" where "reads \<equiv> keeps (=)"

definition frame_rel :: "(tables \<Rightarrow> tables \<Rightarrow> bool) \<Rightarrow> bool" where
  "frame_rel R \<longleftrightarrow> reflp R \<and> transp R"

lemma frame_rel_eq [simp]: "frame_rel (=)"
  by (simp add: frame_rel_def reflp_def transp_def)

lemma keepsD: "keeps R m \<Longrightarrow> undisturbed w \<Longrightarrow> m w = Some (r, w') \<Longrightarrow> framed R w w'"
  unfolding keeps_def by blast

lemma keepsI: "(\<And>w r w'. undisturbed w \<Longrightarrow> m w = Some (r, w') \<Longrightarrow> framed R w w') \<Longrightarrow> keeps R m"
  unfolding keeps_def by blast

lemma keeps_next:
  assumes "frame_rel R" and "keeps R m" and "\<And>x. keeps R (f x)"
  shows "keeps R (next_do m f)"
proof (rule keepsI)
  fix w r w' assume u: "undisturbed w" and e: "next_do m f w = Some (r, w')"
  obtain l w1 where l: "m w = Some (l, w1)" using e by (auto simp: next_do_def split: option.splits)
  note a = keepsD [OF assms(2) u l]
  show "framed R w w'"
  proof (cases l)
    case (Inl c)
    then show ?thesis using e l a by (simp add: next_do_def)
  next
    case (Inr x)
    then have "f x w1 = Some (r, w')" using e l by (simp add: next_do_def)
    then have "framed R w1 w'" using keepsD [OF assms(3)] framed_env(1) [OF a] u by blast
    then show ?thesis using framed_trans [OF _ a] assms(1) unfolding frame_rel_def by blast
  qed
qed

lemma keeps_op:
  assumes "\<And>w x w'. undisturbed w \<Longrightarrow> m w = (x, w') \<Longrightarrow> framed R w w'"
  shows "keeps R (on_store c m)" "keeps R (ignoring m)" "keeps R (reading m)"
  using assms by (auto intro!: keepsI simp: on_store_def ignoring_def reading_def split: prod.splits sum.splits)
    (metis prod.collapse)+

lemma keeps_done [simp]: "frame_rel R \<Longrightarrow> keeps R (answer x)" "frame_rel R \<Longrightarrow> keeps R (refuse c)"
  by (auto intro!: keepsI simp: frame_rel_def framed_refl)

lemma keeps_time: "frame_rel R \<Longrightarrow> keeps R (reading time_now)"
  by (rule keepsI) (auto simp: reading_def time_now_def frame_rel_def framed_refl)

lemma keeps_newID: "frame_rel R \<Longrightarrow> keeps R (newID prefix)"
  by (rule keepsI) (auto simp: newID_def rand_read_def frame_rel_def framed_refl split: option.splits)

lemma keeps_mono: "keeps R m \<Longrightarrow> (\<And>a b. R a b \<Longrightarrow> S a b) \<Longrightarrow> keeps S m"
  unfolding keeps_def using framed_mono by blast

lemma reads_load: "reads (load_run i)"
  unfolding load_run_def GetRun_def
  by (intro keeps_next keeps_op framed_query) (auto split: option.splits)

lemma reads_listing: "reads (on_store c (ListApprovals f))" "reads (reading (ListApprovals f))"
  unfolding ListApprovals_def by (intro keeps_op framed_query; assumption)+

lemma reads_checks: "reads (apply_checks s req run)"
  unfolding apply_checks_def verifyStoredPlanHash_def by (auto intro!: keeps_next reads_listing)

lemma reads_tables: "reads m \<Longrightarrow> undisturbed w \<Longrightarrow> m w = Some (r, w') \<Longrightarrow> w_tbl w' = w_tbl w \<and> same_env w w'"
  using keepsD [of "(=)" m w r w'] unfolding framed_def by simp

lemma same_env_undisturbed: "same_env w w' \<Longrightarrow> undisturbed w' = undisturbed w" "same_env w w' \<Longrightarrow> quiet w' = quiet w"
  unfolding same_env_def undisturbed_def quiet_def by simp_all

section \<open>What passes the gate of \<^verbatim>\<open>ApplyChange\<close>\<close>

definition permits :: "change_service \<Rightarrow> call_context \<Rightarrow> string \<Rightarrow> string \<Rightarrow> bool" where
  "permits s cx env action \<longleftrightarrow> (case sv_authz s of None \<Rightarrow> True | Some a \<Rightarrow> ad_allowed (Decide a (cx_subject cx) env action))"

lemma authorizeResource_permits: "permits s cx env action \<Longrightarrow> authorizeResource s cx env action = answer ()"
  by (auto simp: permits_def authorizeResource_def Let_def split: option.splits)

lemma authorizeResource_ok:
  "authorizeResource s cx env action w = Some (Inr x, w1) \<Longrightarrow> permits s cx env action \<and> w1 = w"
  by (auto simp: permits_def authorizeResource_def Let_def next_do_ok split: option.splits if_splits)

lemma load_run_ok:
  assumes "undisturbed w" and "load_run i w = Some (Inr run, w1)"
  shows "find (\<lambda>r. run_id r = i) (t_runs (w_tbl w)) = Some run"
  using assms
  by (auto simp: load_run_def next_do_ok on_store_def GetRun_def query_def stmt_def Let_def undisturbed_def
      split: option.splits if_splits prod.splits)

lemma listed_ok:
  assumes "undisturbed w" and "on_store c (ListApprovals (rows_filter i st)) w = Some (Inr rows, w1)"
    and "i \<noteq> ''''" and "st \<noteq> ''''"
  shows "set rows = {a \<in> set (t_approvals (w_tbl w)). ap_run_id a = i \<and> ap_status a = st}"
  using assms
  by (auto simp: on_store_def ListApprovals_def query_def stmt_def Let_def undisturbed_def rows_filter_def limit_rows_def
      approval_matches_def opt_eq_def split: if_splits)

text \<open>The run is approved, its plan is intact, and an approved row attests to this plan (or to none).\<close>

definition attested :: "change_service \<Rightarrow> tables \<Rightarrow> run_row \<Rightarrow> bool" where
  "attested s t run \<longleftrightarrow> run_status run = StatusApproved \<and> plan_verified s run \<and>
     (\<exists>a\<in>set (t_approvals t). ap_run_id a = run_id run \<and> ap_status a = ''approved'' \<and>
        (ap_plan_hash a = '''' \<or> ap_plan_hash a = run_plan_hash run))"

lemma checks_ok:
  assumes "undisturbed w" and "apply_checks s req run w = Some (Inr run', w1)"
  shows "run' = run" "plan_verified s run" "engine_run_fn s \<noteq> None" "run_plan_json run \<noteq> ''''"
    "aq_auto_approve req \<Longrightarrow> \<not> AutoApproveForbidden (run_approval_level run)"
    "\<not> aq_auto_approve req \<Longrightarrow> sv_approval s \<noteq> None \<Longrightarrow> run_id run \<noteq> '''' \<Longrightarrow> attested s (w_tbl w) run"
proof -
  show g: "run' = run" "plan_verified s run" "engine_run_fn s \<noteq> None" "run_plan_json run \<noteq> ''''"
    "aq_auto_approve req \<Longrightarrow> \<not> AutoApproveForbidden (run_approval_level run)"
    using assms(2) by (auto simp: apply_checks_def next_do_ok verifyStoredPlanHash_def split: if_splits)
  show "attested s (w_tbl w) run" if m: "\<not> aq_auto_approve req" "sv_approval s \<noteq> None" "run_id run \<noteq> ''''"
  proof -
    obtain rows where r: "on_store Internal (ListApprovals (rows_filter (run_id run) ''approved'')) w = Some (Inr rows, w1)"
      "list_ex (\<lambda>a. fst (approvalPlanMatch a (run_plan_hash run))) rows" "run_status run = StatusApproved"
      using assms(2) m(1,2) by (auto simp: apply_checks_def next_do_ok verifyStoredPlanHash_def split: if_splits)
    have "set rows = {a \<in> set (t_approvals (w_tbl w)). ap_run_id a = run_id run \<and> ap_status a = ''approved''}"
      using listed_ok [OF assms(1) r(1) m(3)] by simp
    then show ?thesis using r(2,3) g(2) unfolding attested_def list_ex_iff
      by (auto simp: approvalPlanMatch_def MatchesPlan_def split: if_splits)
  qed
qed

lemma gate_passed:
  assumes "apply_gate s cx req w = Some (Inr run', w1)"
  obtains run wa where "load_run (aq_change_id req) w = Some (Inr run, wa)" "permits s cx (envOf run) ActionApply"
    "apply_checks s req run wa = Some (Inr run', w1)"
  using assms that by (auto simp: apply_gate_def next_do_ok authorize_def split: if_splits dest!: authorizeResource_ok)

lemma gate_reads:
  assumes "\<And>run. run \<in> set (t_runs (w_tbl w)) \<Longrightarrow> run_id run = aq_change_id req \<Longrightarrow> permits s cx (envOf run) ActionApply"
    and "undisturbed w" and "apply_gate s cx req w = Some (r, w')"
  shows "w_tbl w' = w_tbl w"
proof (cases "aq_dry_run req")
  case False
  then have g: "next_do (load_run (aq_change_id req)) (\<lambda>run.
       next_do (authorize s cx run ActionApply) (\<lambda>_. apply_checks s req run)) w = Some (r, w')"
    using assms(3) by (simp add: apply_gate_def)
  then obtain l w1 where l: "load_run (aq_change_id req) w = Some (l, w1)"
    by (auto simp: next_do_def split: option.splits)
  note fr = reads_tables [OF reads_load assms(2) l]
  show ?thesis
  proof (cases l)
    case (Inr run)
    have "run \<in> set (t_runs (w_tbl w))" "run_id run = aq_change_id req"
      using load_run_ok [OF assms(2) l [unfolded Inr]] by (auto simp: find_Some_iff)
    then have "authorize s cx run ActionApply = answer ()"
      unfolding authorize_def by (intro authorizeResource_permits assms(1))
    then have "apply_checks s req run w1 = Some (r, w')" using g l Inr by (simp add: next_do_def [of "load_run _"])
    then show ?thesis using fr reads_tables [OF reads_checks, of w1] same_env_undisturbed(1) [of w w1] assms(2) by metis
  qed (use g l fr in \<open>simp add: next_do_def\<close>)
qed (use assms in \<open>simp add: apply_gate_def\<close>)

lemma gate_frame:
  assumes "quiet w" and "apply_gate s cx req w = Some (Inr run, w1)"
  shows "w_tbl w1 = w_tbl w" "same_env w w1" "find (\<lambda>r. run_id r = aq_change_id req) (t_runs (w_tbl w)) = Some run"
proof -
  note u = quiet_undisturbed [OF assms(1)]
  obtain run0 wa where a: "load_run (aq_change_id req) w = Some (Inr run0, wa)" "apply_checks s req run0 wa = Some (Inr run, w1)"
    using gate_passed [OF assms(2)] by blast
  note la = reads_tables [OF reads_load u a(1)]
  have ua: "undisturbed wa" using la same_env_undisturbed(1) u by blast
  note lb = reads_tables [OF reads_checks ua a(2)]
  show "w_tbl w1 = w_tbl w" "same_env w w1" using la lb same_env_trans by (simp, blast)
  show "find (\<lambda>r. run_id r = aq_change_id req) (t_runs (w_tbl w)) = Some run"
    using load_run_ok [OF u a(1)] checks_ok(1) [OF ua a(2)] by simp
qed

definition with_run ::
    "(string \<Rightarrow> bool \<Rightarrow> int \<Rightarrow> world \<Rightarrow> (string \<times> bool \<times> string \<times> bool) \<times> world) \<Rightarrow> change_service \<Rightarrow> change_service" where
  "with_run f s = s\<lparr>sv_engine := map_option (\<lambda>e. e\<lparr>en_run := Some f\<rparr>) (sv_engine s)\<rparr>"

lemma gate_with_run:
  assumes "engine_run_fn s \<noteq> None"
  shows "apply_gate (with_run f s) cx req = apply_gate s cx req"
proof -
  have e: "engine_run_fn (with_run f s) \<noteq> None"
    using assms by (auto simp: engine_run_fn_def with_run_def split: option.splits)
  have "plan_verified (with_run f s) run = plan_verified s run" "authorize (with_run f s) cx run act = authorize s cx run act" for run act
    by (simp_all add: plan_verified_def with_run_def authorize_def authorizeResource_def RecordDenial_def [abs_def] Let_def
        split: option.splits)
  moreover have "sv_approval (with_run f s) = sv_approval s" by (simp add: with_run_def)
  moreover have "(engine_run_fn (with_run f s) = None) = (engine_run_fn s = None)" using assms e by blast
  ultimately have "apply_checks (with_run f s) req run = apply_checks s req run" for run
    unfolding apply_checks_def verifyStoredPlanHash_def by presburger
  then show ?thesis using \<open>\<And>run act. authorize (with_run f s) cx run act = authorize s cx run act\<close>
    by (simp add: apply_gate_def)
qed

text \<open>
  C2. Nothing is executed that was not approved. With an approval service, a change that is not approved,
  whose stored plan does not match its hash, or for whose plan no approved row speaks is never applied
  without automatic approval: the call is refused, the answer and the database after it do not depend
  on the engine at all, and a caller who may apply changes sees the database as it was. Statements may fail.
\<close>

theorem apply_needs_approval:
  assumes "undisturbed w" and "\<not> aq_auto_approve req" and "sv_approval s \<noteq> None" and "aq_change_id req \<noteq> ''''"
    and "find (\<lambda>r. run_id r = aq_change_id req) (t_runs (w_tbl w)) = Some run" and "\<not> attested s (w_tbl w) run"
    and "ApplyChange s cx req w = Some (r, w')"
  shows "isl r \<and> (engine_run_fn s \<noteq> None \<longrightarrow> ApplyChange (with_run f s) cx req w = Some (r, w')) \<and>
    (permits s cx (envOf run) ActionApply \<longrightarrow> key_unique run_id (t_runs (w_tbl w)) \<longrightarrow> w_tbl w' = w_tbl w)"
proof -
  have no: "apply_gate s cx req w \<noteq> Some (Inr run', w1)" for run' w1
  proof
    assume g: "apply_gate s cx req w = Some (Inr run', w1)"
    then obtain run0 wa where a: "load_run (aq_change_id req) w = Some (Inr run0, wa)" "apply_checks s req run0 wa = Some (Inr run', w1)"
      using gate_passed by blast
    note la = reads_tables [OF reads_load assms(1) a(1)]
    have "run0 = run" using load_run_ok [OF assms(1) a(1)] assms(5) by simp
    moreover have "run_id run = aq_change_id req" using assms(5) by (auto simp: find_Some_iff)
    ultimately have "attested s (w_tbl wa) run"
      using checks_ok(6) [OF _ a(2) assms(2,3)] la same_env_undisturbed(1) [of w wa] assms(1,4) by simp
    then show False using assms(6) la by simp
  qed
  obtain l w1 where l: "apply_gate s cx req w = Some (l, w1)"
    using assms(7) by (auto simp: ApplyChange_def next_do_def split: option.splits)
  then obtain c where "l = Inl c" using no by (cases l) auto
  then have g: "apply_gate s cx req w = Some (Inl c, w')" "r = Inl c"
    using assms(7) l by (auto simp: ApplyChange_def next_do_def)
  have "w_tbl w' = w_tbl w" if "permits s cx (envOf run) ActionApply" "key_unique run_id (t_runs (w_tbl w))"
  proof (rule gate_reads [OF _ assms(1) g(1)])
    fix run' assume "run' \<in> set (t_runs (w_tbl w))" "run_id run' = aq_change_id req"
    moreover have "run \<in> set (t_runs (w_tbl w))" "run_id run = aq_change_id req" using assms(5) by (auto simp: find_Some_iff)
    ultimately have "run' = run" using that(2) by (auto simp: key_unique_def distinct_map inj_on_def)
    then show "permits s cx (envOf run') ActionApply" using that(1) by simp
  qed
  then show ?thesis using g by (auto simp: ApplyChange_def next_do_def gate_with_run)
qed

lemma rand_same_env: "same_env w w' \<Longrightarrow> w_rand w' = w_rand w"
  by (simp add: same_env_def)

text \<open>Once the gate is passed the engine is called, on a database where the run is running.\<close>

lemma engine_called:
  assumes "quiet w" and "apply_gate s cx req w = Some (Inr run, w1)" and "engine_run_fn s = Some f"
    and "\<forall>n. w_rand w n \<noteq> None"
  shows "\<exists>now w2. quiet w2 \<and> t_approvals (w_tbl w2) = t_approvals (w_tbl w) \<and>
    t_runs (w_tbl w2) = update_where (\<lambda>x. run_id x = run_id run \<and> run_status x = run_status run)
       (\<lambda>x. x\<lparr>run_status := StatusRunning, run_updated_at := now\<rparr>) (t_runs (w_tbl w)) \<and>
    ApplyChange s cx req w =
      (case f (aq_change_id req) (aq_auto_approve req) (aq_max_concurrency req) w2 of
        (out, w3) \<Rightarrow> apply_settle s (run\<lparr>run_status := StatusRunning, run_updated_at := now\<rparr>) out w3)"
proof -
  note fr = gate_frame [OF assms(1,2)]
  have q: "quiet w1" using fr(2) same_env_undisturbed(2) assms(1) by blast
  obtain r where r: "w_rand w1 (Suc (Suc (w_tick w1))) = Some r" using assms(4) rand_same_env [OF fr(2)] by auto
  have run: "run \<in> set (t_runs (w_tbl w))" using fr(3) by (auto simp: find_Some_iff)
  then have c: "0 < count_where (\<lambda>x. run_id x = run_id run \<and> run_status x = run_status run) (t_runs (w_tbl w))"
    by (auto simp: count_where_pos_iff)
  let ?now = "w_clock w1 (w_tick w1)"
  let ?t = "(w_tbl w)\<lparr>t_runs := update_where (\<lambda>x. run_id x = run_id run \<and> run_status x = run_status run)
       (\<lambda>x. x\<lparr>run_status := StatusRunning, run_updated_at := ?now\<rparr>) (t_runs (w_tbl w))\<rparr>"
  let ?wa = "w1\<lparr>w_tbl := ?t, w_tick := Suc (Suc (Suc (w_tick w1)))\<rparr>"
  let ?w2 = "snd (CreateTrace (service_trace (''trc-'' @ r) (run_id run) ''apply_started'' (actorFromCtx cx) ?now) ?wa)"
  have w2: "quiet ?w2" "t_approvals (w_tbl ?w2) = t_approvals (w_tbl w)" "t_runs (w_tbl ?w2) = t_runs ?t"
    using q by (auto simp: CreateTrace_def stmt_quiet)
  have "apply_execute s cx req run w1 = (case f (aq_change_id req) (aq_auto_approve req) (aq_max_concurrency req) ?w2 of
        (out, w3) \<Rightarrow> apply_settle s (run\<lparr>run_status := StatusRunning, run_updated_at := ?now\<rparr>) out w3)"
    using q r c fr(1) assms(3)
    by (simp add: apply_execute_def next_do_def reading_def time_now_def on_store_def UpdateRunStatusIf_def stmt_quiet
        newID_def rand_read_def ignoring_def split: prod.splits)
  then have "ApplyChange s cx req w = (case f (aq_change_id req) (aq_auto_approve req) (aq_max_concurrency req) ?w2 of
        (out, w3) \<Rightarrow> apply_settle s (run\<lparr>run_status := StatusRunning, run_updated_at := ?now\<rparr>) out w3)"
    by (simp add: ApplyChange_def next_do_def assms(2))
  then show ?thesis using w2 by (intro exI [of _ ?now] exI [of _ ?w2]) simp
qed

lemma settle_rows:
  assumes "key_unique run_id xs" and "run \<in> set xs"
  shows "update_where (\<lambda>x. run_id x = run_id run \<and> run_status x = StatusRunning)
      (\<lambda>x. x\<lparr>run_status := v, run_updated_at := at\<rparr>)
      (update_where (\<lambda>x. run_id x = run_id run \<and> run_status x = run_status run)
        (\<lambda>x. x\<lparr>run_status := StatusRunning, run_updated_at := now\<rparr>) xs) =
    update_where (\<lambda>x. run_id x = run_id run) (\<lambda>x. x\<lparr>run_status := v, run_updated_at := at\<rparr>) xs"
proof -
  have "x = run" if "x \<in> set xs" "run_id x = run_id run" for x
    using assms that by (auto simp: key_unique_def distinct_map inj_on_def)
  then show ?thesis by (auto simp: update_where_def)
qed

lemma seal_quiet:
  assumes "quiet w"
  shows "\<exists>w'. sealTraceChain s i w = Some (Inr (), w') \<and> t_runs (w_tbl w') = t_runs (w_tbl w) \<and> quiet w'"
proof -
  obtain r w' where e: "SealRunTraceChain (sv_crypto s) i w = (r, w')" by fastforce
  note f = SealRunTraceChain_frame [OF quiet_undisturbed [OF assms] e]
  have "t_runs (w_tbl w') = t_runs (w_tbl w)" using f unfolding framed_def traces_only_def by auto
  then show ?thesis using e framed_env(2) [OF f] assms by (simp add: sealTraceChain_def ignoring_def)
qed

definition apply_verdict :: "string \<times> bool \<times> string \<times> bool \<Rightarrow> string" where
  "apply_verdict outcome = (case outcome of (exec, success, phase, failed) \<Rightarrow>
     if failed then StatusFailed else final_status success phase)"

definition apply_answer :: "run_row \<Rightarrow> time \<Rightarrow> string \<times> bool \<times> string \<times> bool \<Rightarrow> code + apply_response" where
  "apply_answer run at outcome = (case outcome of (exec, success, phase, failed) \<Rightarrow>
     if failed then Inl Internal
     else Inr \<lparr>ar_change = run\<lparr>run_status := apply_verdict outcome, run_updated_at := at\<rparr>,
       ar_run_id = exec, ar_success = success\<rparr>)"

lemma apply_answer_update [simp]:
  "apply_answer (run\<lparr>run_status := v, run_updated_at := now\<rparr>) at out = apply_answer run at out"
  by (cases out) (simp add: apply_answer_def)

lemma settle_running:
  assumes "quiet w" and "x \<in> set (t_runs (w_tbl w))" and "run_id x = run_id run" and "run_status x = StatusRunning"
  shows "\<exists>at w'. apply_settle s run outcome w = Some
      (apply_answer run at outcome, w') \<and>
    t_runs (w_tbl w') = update_where (\<lambda>x. run_id x = run_id run \<and> run_status x = StatusRunning)
      (\<lambda>x. x\<lparr>run_status := apply_verdict outcome, run_updated_at := at\<rparr>) (t_runs (w_tbl w))"
proof -
  obtain exec success phase failed where o: "outcome = (exec, success, phase, failed)" by (cases outcome) auto
  let ?at = "w_clock w (w_tick w)"
  let ?v = "apply_verdict outcome"
  let ?w1 = "w\<lparr>w_tbl := (w_tbl w)\<lparr>t_runs := update_where (\<lambda>x. run_id x = run_id run \<and> run_status x = StatusRunning)
      (\<lambda>x. x\<lparr>run_status := ?v, run_updated_at := ?at\<rparr>) (t_runs (w_tbl w))\<rparr>, w_tick := Suc (Suc (w_tick w))\<rparr>"
  have c: "casRunStatus run ?v w = Some (Inr (True, run\<lparr>run_status := ?v, run_updated_at := ?at\<rparr>), ?w1)"
    using assms by (auto simp: casRunStatus_def next_do_def reading_def time_now_def UpdateRunStatusIf_def stmt_quiet
        split: bool.splits)
  obtain w' where s: "sealTraceChain s (run_id run) ?w1 = Some (Inr (), w')" "t_runs (w_tbl w') = t_runs (w_tbl ?w1)"
    using seal_quiet [of ?w1] assms(1) by auto
  show ?thesis using c s by (intro exI [of _ ?at] exI [of _ w']) (auto simp: o apply_settle_def apply_answer_def apply_verdict_def next_do_def)
qed

text \<open>
  C10. An admitted change is executed and its verdict stored. The engine is called once, on a database that
  differs in the run's being running (and a trace row); when the engine itself leaves the runs
  alone and nothing fails, the run ends as failed when the engine reports an error, in the engine's
  rollback verdict if there is one, and as completed or failed otherwise; no other run changes, and the
  caller is answered accordingly.
\<close>

theorem apply_settles:
  assumes "quiet w" and "apply_gate s cx req w = Some (Inr run, w1)" and "engine_run_fn s = Some f"
    and "\<forall>n. w_rand w n \<noteq> None" and "key_unique run_id (t_runs (w_tbl w))"
    and "\<forall>w2. quiet w2 \<longrightarrow> (case f (aq_change_id req) (aq_auto_approve req) (aq_max_concurrency req) w2 of
        (_, w3) \<Rightarrow> quiet w3 \<and> t_runs (w_tbl w3) = t_runs (w_tbl w2))"
  shows "\<exists>w2 out w3 at w'. f (aq_change_id req) (aq_auto_approve req) (aq_max_concurrency req) w2 = (out, w3) \<and>
    find (\<lambda>r. run_id r = aq_change_id req \<and> run_status r = StatusRunning) (t_runs (w_tbl w2)) \<noteq> None \<and>
    t_runs (w_tbl w') = update_where (\<lambda>x. run_id x = aq_change_id req)
      (\<lambda>x. x\<lparr>run_status := apply_verdict out, run_updated_at := at\<rparr>) (t_runs (w_tbl w)) \<and>
    ApplyChange s cx req w = Some (apply_answer run at out, w')"
proof -
  have run: "run \<in> set (t_runs (w_tbl w))" "run_id run = aq_change_id req"
    using gate_frame(3) [OF assms(1,2)] by (auto simp: find_Some_iff)
  obtain now w2 where e: "quiet w2" "t_runs (w_tbl w2) = update_where (\<lambda>x. run_id x = run_id run \<and> run_status x = run_status run)
       (\<lambda>x. x\<lparr>run_status := StatusRunning, run_updated_at := now\<rparr>) (t_runs (w_tbl w))"
    "ApplyChange s cx req w = (case f (aq_change_id req) (aq_auto_approve req) (aq_max_concurrency req) w2 of
        (out, w3) \<Rightarrow> apply_settle s (run\<lparr>run_status := StatusRunning, run_updated_at := now\<rparr>) out w3)"
    using engine_called [OF assms(1-4)] by blast
  obtain out w3 where f1: "f (aq_change_id req) (aq_auto_approve req) (aq_max_concurrency req) w2 = (out, w3)"
    by (rule prod.exhaust)
  have f: "f (aq_change_id req) (aq_auto_approve req) (aq_max_concurrency req) w2 = (out, w3)"
    "quiet w3" "t_runs (w_tbl w3) = t_runs (w_tbl w2)" using assms(6) [rule_format, OF e(1)] f1 by simp_all
  have x: "run\<lparr>run_status := StatusRunning, run_updated_at := now\<rparr> \<in> set (t_runs (w_tbl w2))"
    unfolding e(2) using run(1) by (auto simp: update_where_def)
  obtain at w' where s: "apply_settle s (run\<lparr>run_status := StatusRunning, run_updated_at := now\<rparr>) out w3 = Some (apply_answer run at out, w')"
    "t_runs (w_tbl w') = update_where (\<lambda>x. run_id x = run_id run \<and> run_status x = StatusRunning)
      (\<lambda>x. x\<lparr>run_status := apply_verdict out, run_updated_at := at\<rparr>) (t_runs (w_tbl w3))"
    using settle_running [OF f(2) x [folded f(3)] refl, of s out, simplified] by blast
  have rows: "t_runs (w_tbl w') = update_where (\<lambda>x. run_id x = aq_change_id req)
      (\<lambda>x. x\<lparr>run_status := apply_verdict out, run_updated_at := at\<rparr>) (t_runs (w_tbl w))"
    using s(2) settle_rows [OF assms(5) run(1)] by (simp add: f(3) e(2) run(2))
  have "find (\<lambda>r. run_id r = aq_change_id req \<and> run_status r = StatusRunning) (t_runs (w_tbl w2)) \<noteq> None"
    using x run(2) by (auto simp: find_None_iff intro!: exI [of _ "run\<lparr>run_status := StatusRunning, run_updated_at := now\<rparr>"])
  then show ?thesis using rows s(1) e(3) f(1) by (intro exI [of _ w2] exI [of _ out] exI [of _ w3] exI [of _ at] exI [of _ w']) simp
qed

lemma load_run_quiet:
  "quiet w \<Longrightarrow> find (\<lambda>r. run_id r = i) (t_runs (w_tbl w)) = Some run \<Longrightarrow>
    load_run i w = Some (Inr run, w\<lparr>w_tick := Suc (w_tick w)\<rparr>)"
  by (simp add: load_run_def next_do_def on_store_def GetRun_def query_quiet answer_def)

text \<open>
  C37. With automatic approval the status is not asked for. Any run with an intact plan whose level does not
  forbid it passes the gate, whatever its status: a cancelled, rejected or archived change is executed,
  and so is one that is being executed already, since the compare-and-set then goes from running to running.
\<close>

theorem auto_apply_ignores_status:
  assumes "quiet w" and "find (\<lambda>r. run_id r = aq_change_id req) (t_runs (w_tbl w)) = Some run"
    and "aq_auto_approve req" and "\<not> aq_dry_run req" and "engine_run_fn s = Some f" and "\<forall>n. w_rand w n \<noteq> None"
    and "run_plan_json run \<noteq> ''''" and "plan_verified s run" and "\<not> AutoApproveForbidden (run_approval_level run)"
    and "permits s cx (envOf run) ActionApply"
  shows "\<exists>now w2. quiet w2 \<and> t_runs (w_tbl w2) = update_where (\<lambda>x. run_id x = run_id run \<and> run_status x = run_status run)
       (\<lambda>x. x\<lparr>run_status := StatusRunning, run_updated_at := now\<rparr>) (t_runs (w_tbl w)) \<and>
    ApplyChange s cx req w =
      (case f (aq_change_id req) True (aq_max_concurrency req) w2 of
        (out, w3) \<Rightarrow> apply_settle s (run\<lparr>run_status := StatusRunning, run_updated_at := now\<rparr>) out w3)"
proof -
  have "apply_checks s req run = answer run"
    using assms(3,5,7-9) by (simp add: apply_checks_def verifyStoredPlanHash_def)
  then have "apply_gate s cx req w = Some (Inr run, w\<lparr>w_tick := Suc (w_tick w)\<rparr>)"
    using assms(4,10) by (simp add: apply_gate_def next_do_def [of "load_run _"] load_run_quiet [OF assms(1,2)]
        authorize_def authorizeResource_permits)
  from engine_called [OF assms(1) this assms(5,6)] show ?thesis using assms(3) by auto
qed

section \<open>A refused plan\<close>

definition engine_plan_fn :: "change_service \<Rightarrow> (string \<Rightarrow> string list \<Rightarrow> world \<Rightarrow> (plan_failure + stored_plan option) \<times> world) option" where
  "engine_plan_fn s = (case sv_engine s of None \<Rightarrow> None | Some e \<Rightarrow> en_plan e)"

lemma row_update_where:
  assumes "find (\<lambda>x. k x = i) xs = Some y" and "\<And>x. k (f x) = k x"
  shows "find (\<lambda>x. k x = i) (update_where P f xs) = Some (if P y then f y else y)"
  using assms(1) by (induction xs) (auto simp: update_where_def assms(2) split: if_splits)

lemma reset_quiet:
  assumes "quiet w" and "find (\<lambda>r. run_id r = i) (t_runs (w_tbl w)) = Some row" and "run_id run = i"
    and "run_approval_level run = run_approval_level row"
  shows "\<exists>run2 w' row'. reset_approved run ph stored now w = Some (Inr run2, w') \<and> quiet w' \<and>
    find (\<lambda>r. run_id r = i) (t_runs (w_tbl w')) = Some row' \<and>
    run_plan_json row' = run_plan_json row \<and> run_plan_hash row' = run_plan_hash row \<and>
    run_approval_level row' = run_approval_level row \<and>
    run_plan_json run2 = run_plan_json run \<and> run_plan_hash run2 = run_plan_hash run \<and>
    run_creator run2 = run_creator run \<and> run_workflow_name run2 = run_workflow_name run"
proof -
  let ?P = "\<lambda>x. run_id x = run_id run \<and> run_status x = StatusApproved"
  let ?f = "\<lambda>x. x\<lparr>run_status := StatusDraft, run_approval_status := ApprovalStatusPending, run_updated_at := now\<rparr>"
  have upd: "find (\<lambda>r. run_id r = i) (update_where ?P ?f (t_runs (w_tbl w))) = Some (if ?P row then ?f row else row)"
    by (rule row_update_where [OF assms(2)]) simp
  show ?thesis using assms upd
    by (auto simp: reset_approved_def next_do_def on_store_def UpdateRunApprovalStatusIf_def stmt_quiet answer_def)
qed

lemma tier_of_plan:
  assumes "run_workflow_name run' = run_workflow_name run"
  shows "declared_spec s run' p = declared_spec s run p"
    "run_plan_json run' = run_plan_json run \<Longrightarrow> derivedApprovalTier s run' = derivedApprovalTier s run"
proof -
  show "declared_spec s run' p = declared_spec s run p" for p
    using assms by (cases "pl_approval p") (simp_all add: declared_spec_def)
  then show "run_plan_json run' = run_plan_json run \<Longrightarrow> derivedApprovalTier s run' = derivedApprovalTier s run"
    unfolding derivedApprovalTier_def by presburger
qed

lemma terms_refused_kickoff:
  assumes "sv_approval s \<noteq> None" and "run_plan_json run \<noteq> ''''" and "sv_json_plan s (run_plan_json run) = Some p"
    and "VerifyHash (sv_digest s) p (run_plan_hash run)"
    and "chain_terms (declared_spec s run p) (let t = derivedApprovalTier s run in if t = '''' then LevelStandard else t)
       (run_creator run) = Inl c"
  shows "kickoffApproval s run = refuse c"
  using assms by (auto simp: kickoffApproval_def Let_def)

text \<open>
  A plan whose approval chain cannot be formed is refused, and is in the database all the same: the
  plan and its hash are written before the chain is judged, and the approval level, which the kick-off
  would have raised, is still the old one.
\<close>

theorem refused_plan_stays:
  assumes "quiet w" and "find (\<lambda>r. run_id r = pq_change_id req) (t_runs (w_tbl w)) = Some run"
    and "permits s cx (envOf run) ActionPlan" and "\<not> sv_frozen s (pq_target_hosts req) (w_tbl w)"
    and "engine_plan_fn s = Some f" and "\<forall>w. f (pq_change_id req) (pq_target_hosts req) w = (Inr (Some stored), w)"
    and "\<not> pq_dry_run req" and "sd_json stored \<noteq> ''''" and "sv_approval s \<noteq> None"
    and "sv_json_plan s (sd_json stored) = Some p" and "VerifyHash (sv_digest s) p (sd_hash stored)"
    and "chain_terms (declared_spec s run p)
       (let t = derivedApprovalTier s (run\<lparr>run_plan_json := sd_json stored\<rparr>) in if t = '''' then LevelStandard else t)
       (run_creator run) = Inl c"
  shows "\<exists>w' row. PlanChange s cx req w = Some (Inl c, w') \<and>
    find (\<lambda>r. run_id r = pq_change_id req) (t_runs (w_tbl w')) = Some row \<and>
    run_plan_json row = sd_json stored \<and> run_plan_hash row = sd_hash stored \<and>
    run_approval_level row = run_approval_level run"
proof -
  let ?w1 = "w\<lparr>w_tick := Suc (Suc (w_tick w))\<rparr>"
  let ?now = "w_clock w (w_tick ?w1)"
  let ?run1 = "run\<lparr>run_plan_json := sd_json stored, run_plan_hash := sd_hash stored, run_updated_at := ?now\<rparr>"
  let ?u = "\<lambda>x. x\<lparr>run_plan_json := sd_json stored, run_plan_hash := sd_hash stored, run_updated_at := ?now\<rparr>"
  let ?w2 = "w\<lparr>w_tbl := (w_tbl w)\<lparr>t_runs := update_where (\<lambda>x. run_id x = run_id run) ?u (t_runs (w_tbl w))\<rparr>,
      w_tick := Suc (Suc (Suc (Suc (w_tick w))))\<rparr>"
  have rid: "run_id run = pq_change_id req" "run \<in> set (t_runs (w_tbl w))" using assms(2) by (auto simp: find_Some_iff)
  have f2: "find (\<lambda>r. run_id r = pq_change_id req) (t_runs (w_tbl ?w2)) = Some ?run1"
    using row_update_where [OF assms(2), of ?u "\<lambda>x. run_id x = run_id run"] rid(1) by simp
  obtain run2 w' row where r: "reset_approved ?run1 (run_plan_hash run) stored ?now ?w2 = Some (Inr run2, w')"
    "find (\<lambda>r. run_id r = pq_change_id req) (t_runs (w_tbl w')) = Some row" "run_plan_json row = sd_json stored"
    "run_plan_hash row = sd_hash stored" "run_approval_level row = run_approval_level run"
    "run_plan_json run2 = sd_json stored" "run_plan_hash run2 = sd_hash stored" "run_creator run2 = run_creator run"
    "run_workflow_name run2 = run_workflow_name run"
    using reset_quiet [OF _ f2, of ?run1 "run_plan_hash run" stored ?now] assms(1) rid(1) by auto
  have k: "kickoffApproval s run2 = refuse c"
    using terms_refused_kickoff [of s run2 p c] assms(8-12) r(6-8) tier_of_plan [of run2 "run\<lparr>run_plan_json := sd_json stored\<rparr>" s]
      tier_of_plan(1) [of run2 run s p] r(9) by simp
  have c0: "count_where (\<lambda>x. run_id x = run_id run) (t_runs (w_tbl w)) \<noteq> 0"
    using rid(2) count_where_pos_iff [of "\<lambda>x. run_id x = run_id run" "t_runs (w_tbl w)"] by auto
  have tier: "record_tier s r0 = answer r0" for r0 using assms(9) unfolding record_tier_def by (simp only: simp_thms if_False)
  have "persist_plan s run stored ?w1 = Some (Inl c, w')"
    using assms(1) r(1) k c0 tier
    by (simp add: persist_plan_def next_do_def reading_def time_now_def on_store_def UpdateRunPlan_def stmt_quiet answer_def)
      blast
  moreover have "PlanChange s cx req w = next_do (persist_plan s run stored) (\<lambda>_. answer (Some stored)) ?w1"
    using assms(1-8) load_run_quiet [OF assms(1,2)]
    by (simp add: PlanChange_def engine_plan_fn_def next_do_def [of "load_run _"] authorize_def authorizeResource_permits
        next_do_def [of "on_store _ _"] on_store_def query_quiet next_do_def [of "reading _"] reading_def)
  ultimately show ?thesis using r(2-5) by (simp add: next_do_def)
qed

section \<open>Witnesses\<close>

text \<open>
  A service whose plans are written as their approval floor, whose planner answers \<open>pj\<close> and whose engine
  reports a failed execution in phase \<open>ph\<close>.
\<close>

definition demo_engine :: "string \<Rightarrow> string \<Rightarrow> engine_adapter" where
  "demo_engine pj ph = \<lparr>en_plan = Some (\<lambda>i ts w. (Inr (Some \<lparr>sd_json = pj, sd_hash = ComputePlanHash demo_digest (demo_plan pj)\<rparr>), w)),
     en_run = Some (\<lambda>i auto k w. ((''x1'', False, ph, False), w)), en_retry = None, en_rollback = None\<rparr>"

definition demo_service :: "approval_service option \<Rightarrow> string \<Rightarrow> string \<Rightarrow> change_service" where
  "demo_service ap pj ph = \<lparr>sv_engine = Some (demo_engine pj ph), sv_approval = ap, sv_pause = True, sv_authz = None,
     sv_denial = None, sv_bulk_auth = None, sv_expiry = None, sv_on_create = [], sv_crypto = demo_crypto, sv_fuel = 2,
     sv_codec = plain_codec, sv_digest = demo_digest, sv_json_plan = (\<lambda>j. Some (demo_plan j)),
     sv_parse_workflow = (\<lambda>src. None), sv_frozen = (\<lambda>hs t. False), sv_json_params = (\<lambda>j. []), sv_params_json = (\<lambda>ps. None)\<rparr>"

definition demo_change :: "string \<Rightarrow> string \<Rightarrow> run_row" where
  "demo_change st pj = (demo_live_run ''c1'' st)\<lparr>run_plan_json := pj, run_plan_hash := ComputePlanHash demo_digest (demo_plan pj)\<rparr>"

definition change_world :: "run_row \<Rightarrow> world" where
  "change_world run = still_world (no_rows\<lparr>t_runs := [run]\<rparr>)"

definition demo_ctx :: call_context where "demo_ctx = \<lparr>cx_subject = ''ops'', cx_actor = ''ops''\<rparr>"

definition demo_apply :: "bool \<Rightarrow> apply_request" where
  "demo_apply auto = \<lparr>aq_change_id = ''c1'', aq_auto_approve = auto, aq_dry_run = False, aq_max_concurrency = 1\<rparr>"

definition no_notify :: approval_service where
  "no_notify = \<lparr>sv_store = approvalStoreAdapter plain_codec, sv_guard = None, sv_observers = []\<rparr>"

lemma demo_change_simps [simp]:
  "run_id (demo_change st pj) = ''c1''" "run_status (demo_change st pj) = st" "run_plan_json (demo_change st pj) = pj"
  "run_plan_hash (demo_change st pj) = ComputePlanHash demo_digest (demo_plan pj)" "run_approval_level (demo_change st pj) = ''''"
  "run_creator (demo_change st pj) = ''ops''" "run_workflow_name (demo_change st pj) = ''w''"
  by (simp_all add: demo_change_def) (simp_all add: demo_live_run_def)

lemma demo_service_simps [simp]:
  "engine_run_fn (demo_service ap pj ph) = Some (\<lambda>i auto k w. ((''x1'', False, ph, False), w))"
  "sv_approval (demo_service ap pj ph) = ap" "permits (demo_service ap pj ph) cx env act"
  "sv_json_plan (demo_service ap pj ph) j = Some (demo_plan j)" "sv_digest (demo_service ap pj ph) = demo_digest"
  "plan_verified (demo_service ap pj ph) (demo_change st j)" "sv_parse_workflow (demo_service ap pj ph) src = None"
  "engine_plan_fn (demo_service ap pj ph) =
    Some (\<lambda>i ts w. (Inr (Some \<lparr>sd_json = pj, sd_hash = ComputePlanHash demo_digest (demo_plan pj)\<rparr>), w))"
  "\<not> sv_frozen (demo_service ap pj ph) hs t"
  by (simp_all add: demo_service_def demo_engine_def engine_run_fn_def engine_plan_fn_def permits_def plan_verified_def)

lemma change_world_simps [simp]:
  "t_runs (w_tbl (change_world run)) = [run]" "t_approvals (w_tbl (change_world run)) = []" "quiet (change_world run)"
  "undisturbed (change_world run)"
  by (simp_all add: change_world_def no_rows_def undisturbed_def)

lemma demo_gate:
  "apply_gate (demo_service ap pj ph) cx (demo_apply True) (change_world (demo_change st ''standard'')) =
     Some (Inr (demo_change st ''standard''), (change_world (demo_change st ''standard''))\<lparr>w_tick := 1\<rparr>)"
  by (simp add: apply_gate_def demo_apply_def next_do_def [of "load_run _"] load_run_quiet authorize_def authorizeResource_permits
      apply_checks_def verifyStoredPlanHash_def AutoApproveForbidden_def) (simp add: change_world_def still_world_def)

theorem apply_needs_approval_witness:
  "\<exists>w'. ApplyChange (demo_service (Some no_notify) ''standard'' ''execute'') demo_ctx (demo_apply False)
       (change_world (demo_change StatusApproved ''standard'')) = Some (Inl FailedPrecondition, w') \<and>
     w_tbl w' = w_tbl (change_world (demo_change StatusApproved ''standard''))"
proof -
  let ?w = "change_world (demo_change StatusApproved ''standard'')"
  let ?s = "demo_service (Some no_notify) ''standard'' ''execute''"
  have "apply_gate ?s demo_ctx (demo_apply False) ?w = Some (Inl FailedPrecondition, ?w\<lparr>w_tick := 2\<rparr>)"
    by (simp add: apply_gate_def demo_apply_def next_do_def [of "load_run _"] load_run_quiet authorize_def authorizeResource_permits
        apply_checks_def verifyStoredPlanHash_def AutoApproveForbidden_def next_do_def on_store_def ListApprovals_def query_quiet
        limit_rows_def) (simp add: change_world_def still_world_def limit_rows_def rows_filter_def)
  then have a: "ApplyChange ?s demo_ctx (demo_apply False) ?w = Some (Inl FailedPrecondition, ?w\<lparr>w_tick := 2\<rparr>)"
    by (simp add: ApplyChange_def next_do_def)
  show ?thesis using a apply_needs_approval [OF _ _ _ _ _ _ a, of "demo_change StatusApproved ''standard''"]
    by (simp add: demo_apply_def attested_def key_unique_def)
qed

theorem apply_settles_witness:
  "\<exists>at w' resp. ApplyChange (demo_service None ''standard'' StatusRolledBack) demo_ctx (demo_apply True)
       (change_world (demo_change StatusDraft ''standard'')) = Some (Inr resp, w') \<and>
     t_runs (w_tbl w') = [(demo_change StatusDraft ''standard'')\<lparr>run_status := StatusRolledBack, run_updated_at := at\<rparr>]"
proof -
  have "IsRollbackVerdict StatusRolledBack" by code_simp
  moreover have "\<forall>n. w_rand (change_world (demo_change StatusDraft ''standard'')) n \<noteq> None" by (simp add: change_world_def)
  ultimately show ?thesis
    using apply_settles [OF _ demo_gate [of None "''standard''" StatusRolledBack demo_ctx StatusDraft] demo_service_simps(1)]
    by (simp add: key_unique_def demo_apply_def update_where_def apply_answer_def apply_verdict_def final_status_def) blast
qed

theorem auto_apply_ignores_status_witness:
  "\<exists>w2 now. t_runs (w_tbl w2) = [(demo_change StatusRejected ''standard'')\<lparr>run_status := StatusRunning, run_updated_at := now\<rparr>] \<and>
     ApplyChange (demo_service (Some no_notify) ''standard'' ''execute'') demo_ctx (demo_apply True)
       (change_world (demo_change StatusRejected ''standard'')) =
     apply_settle (demo_service (Some no_notify) ''standard'' ''execute'')
       ((demo_change StatusRejected ''standard'')\<lparr>run_status := StatusRunning, run_updated_at := now\<rparr>)
       (''x1'', False, ''execute'', False) w2"
  using auto_apply_ignores_status [of "change_world (demo_change StatusRejected ''standard'')" "demo_apply True"
    "demo_change StatusRejected ''standard''" "demo_service (Some no_notify) ''standard'' ''execute''" _ demo_ctx]
  by (auto simp: demo_apply_def update_where_def AutoApproveForbidden_def change_world_def)

text \<open>A high-risk plan of a workflow that names no approvers.\<close>

theorem refused_plan_stays_witness:
  "\<exists>w' row. PlanChange (demo_service (Some no_notify) ''high'' ''execute'') demo_ctx
       \<lparr>pq_change_id = ''c1'', pq_target_hosts = [], pq_dry_run = False\<rparr> (change_world (demo_change StatusDraft ''standard'')) =
     Some (Inl FailedPrecondition, w') \<and> row \<in> set (t_runs (w_tbl w')) \<and> run_plan_json row = ''high'' \<and>
     run_plan_hash row = ComputePlanHash demo_digest (demo_plan ''high'') \<and> \<not> AutoApproveForbidden (run_approval_level row)"
proof -
  let ?s = "demo_service (Some no_notify) ''high'' ''execute''"
  let ?req = "\<lparr>pq_change_id = ''c1'', pq_target_hosts = [], pq_dry_run = False\<rparr>"
  let ?run = "demo_change StatusDraft ''standard''"
  have spec: "declared_spec ?s ?run (demo_plan ''high'') = None"
    by (simp add: declared_spec_def demo_plan_def parseInlineApprovalSpec_def trim_space_def contains_any_def Let_def)
  have max: "MaxLevel '''' (pl_approval_floor (demo_plan ''high'')) = ''high''" by code_simp
  have tier: "derivedApprovalTier ?s (?run\<lparr>run_plan_json := ''high''\<rparr>) = ''high''"
    using tier_of_plan(1) [of "?run\<lparr>run_plan_json := ''high''\<rparr>" ?run ?s] spec
      max by (simp add: derivedApprovalTier_def Let_def)
  have level_free: "\<not> AutoApproveForbidden ''''" by (simp add: AutoApproveForbidden_def)
  have terms: "chain_terms None ''high'' ''ops'' = Inl FailedPrecondition" by code_simp
  show ?thesis
    using refused_plan_stays [where w = "change_world ?run" and req = ?req and run = ?run and s = ?s and cx = demo_ctx
        and stored = "\<lparr>sd_json = ''high'', sd_hash = ComputePlanHash demo_digest (demo_plan ''high'')\<rparr>"
        and p = "demo_plan ''high''" and c = FailedPrecondition, OF _ _ _ _ demo_service_simps(8)] spec tier terms
    by (auto simp: find_Some_iff) (metis level_free nth_mem)
qed

end
