(* ===== verification/Change_Lifecycle.thy ===== *)
theory Change_Lifecycle
  imports Change_Service
begin

text \<open>
  \<^verbatim>\<open>internal/grpc/change_service.go\<close>, the rest of the life of a change: its creation, the votes and
  their settlement on the run, pausing and cancelling, retrying, rolling back and archiving. The
  conventions are those of the theory \<open>Change_Service\<close>.
\<close>

section \<open>Creation\<close>

definition PriorityLow :: string where "PriorityLow = ''low''"
definition PriorityNormal :: string where "PriorityNormal = ''normal''"
definition PriorityHigh :: string where "PriorityHigh = ''high''"
definition PriorityUrgent :: string where "PriorityUrgent = ''urgent''"

definition priorityOrder :: "string list" where
  "priorityOrder = [PriorityLow, PriorityNormal, PriorityHigh, PriorityUrgent]"

definition IsPriority :: "string \<Rightarrow> bool" where
  "IsPriority p \<longleftrightarrow> p \<in> set priorityOrder"

definition AuditActionCreate :: string where "AuditActionCreate = ''create''"
definition AuditActionClone :: string where "AuditActionClone = ''clone''"
definition AuditActionApprove :: string where "AuditActionApprove = ''approve''"
definition AuditActionReject :: string where "AuditActionReject = ''reject''"
definition AuditActionCancel :: string where "AuditActionCancel = ''cancel''"
definition AuditActionRollback :: string where "AuditActionRollback = ''rollback''"
definition AuditActionArchive :: string where "AuditActionArchive = ''archive''"
definition AuditActionPauseAll :: string where "AuditActionPauseAll = ''pause_all''"
definition AuditActionResumeAll :: string where "AuditActionResumeAll = ''resume_all''"
definition AuditResultQuorumPending :: string where "AuditResultQuorumPending = ''quorum_pending''"

definition pbToRunParams :: "change_service \<Rightarrow> (string \<times> string) list \<Rightarrow> string" where
  "pbToRunParams s params = (if params = [] then ''{}''
     else case sv_params_json s params of None \<Rightarrow> ''{}'' | Some j \<Rightarrow> j)"

record create_change_request =
  nq_workflow_file :: string
  nq_template_name :: string
  nq_params :: "(string \<times> string) list"
  nq_priority :: string
  nq_environment :: string

definition draft_run :: "string \<Rightarrow> string \<Rightarrow> string \<Rightarrow> string \<Rightarrow> string \<Rightarrow> string \<Rightarrow> string \<Rightarrow> string \<Rightarrow> time \<Rightarrow> run_row" where
  "draft_run i wfn tmpl params level prio creator env now = \<lparr>run_id = i, run_workflow_name = wfn, run_template_name = tmpl,
     run_params = params, run_plan_hash = '''', run_plan_json = '''', run_status = StatusDraft,
     run_approval_status = ApprovalStatusPending, run_approval_level = level, run_priority = prio,
     run_created_at = now, run_updated_at = now, run_creator = creator, run_incident_id = env, run_tenant_id = ''''\<rparr>"

definition CreateChange :: "change_service \<Rightarrow> call_context \<Rightarrow> create_change_request \<Rightarrow> run_row svc" where
  "CreateChange s cx req =
     next_do (authorizeResource s cx (nq_environment req) ActionPlan) (\<lambda>_.
     next_do (reading time_now) (\<lambda>now.
     next_do (newID ''run-'') (\<lambda>i.
     let priority = (if nq_priority req = '''' then PriorityNormal else nq_priority req) in
     if \<not> IsPriority priority then refuse InvalidArgument
     else
       let run = draft_run i (nq_workflow_file req) (nq_template_name req) (pbToRunParams s (nq_params req)) ''''
             priority (creatorFromCtx cx) (nq_environment req) now in
       next_do (on_store Internal (CreateRun run)) (\<lambda>_.
       next_do (audit_now s i AuditActionCreate (creatorFromCtx cx) (nq_template_name req) StatusDraft now) (\<lambda>_.
       answer run)))))"

record clone_request =
  kq_source_id :: string
  kq_params :: "(string \<times> string) list"
  kq_environment :: string

text \<open>Assignments to a map of strings; the JSON text of a map does not depend on their order.\<close>

definition set_param :: "string \<times> string \<Rightarrow> (string \<times> string) list \<Rightarrow> (string \<times> string) list" where
  "set_param p ps = p # filter (\<lambda>q. fst q \<noteq> fst p) ps"

definition CloneChange :: "change_service \<Rightarrow> call_context \<Rightarrow> clone_request \<Rightarrow> run_row svc" where
  "CloneChange s cx req =
     next_do (load_run (kq_source_id req)) (\<lambda>src.
     let env = (if kq_environment req = '''' then envOf src else kq_environment req) in
     next_do (authorizeResource s cx env ActionPlan) (\<lambda>_.
     next_do (reading time_now) (\<lambda>now.
     next_do (newID ''run-'') (\<lambda>i.
     let run = draft_run i (run_workflow_name src) (run_template_name src)
           (pbToRunParams s (fold set_param (kq_params req) (sv_json_params s (run_params src))))
           (run_approval_level src) (run_priority src) (creatorFromCtx cx) env now in
     next_do (on_store Internal (CreateRun run)) (\<lambda>_.
     next_do (audit_now s i AuditActionClone (creatorFromCtx cx) (kq_source_id req) StatusDraft now) (\<lambda>_.
     answer run))))))"

section \<open>Settlement of votes\<close>

datatype settle_state = SettleNone | SettlePending | SettleApproved | SettleRejected | SettleExpired

definition terminalRunStatuses :: "string list" where
  "terminalRunStatuses = [StatusApproved, StatusRejected, StatusRunning, StatusCompleted, StatusFailed, StatusRolledBack,
     StatusRolledBackPartial, StatusRollbackIncomplete, StatusCancelled, StatusArchived, StatusInterrupted]"

definition transitionRunForApproval :: "run_row \<Rightarrow> string \<Rightarrow> string \<Rightarrow> unit svc" where
  "transitionRunForApproval run st approvalStatus =
     (if run_status run \<in> set terminalRunStatuses \<and> run_status run \<noteq> st then answer ()
      else if run_status run = st \<and> run_approval_status run = approvalStatus then answer ()
      else next_do (reading time_now) (\<lambda>now.
        next_do (on_store Internal (UpdateRunApprovalStatusIf (run_id run) (run_status run) st approvalStatus now))
          (\<lambda>_. answer ())))"

definition settle_matching :: "run_row \<Rightarrow> approval_row list \<Rightarrow> settle_state svc" where
  "settle_matching run matching =
     (let pending = list_ex (\<lambda>r. ap_status r = ''pending'') matching;
          approvedRow = list_ex (\<lambda>r. ap_status r = ''approved'') matching;
          rejectedRow = list_ex (\<lambda>r. ap_status r = ''rejected'') matching
      in if rejectedRow \<and> \<not> pending then
           next_do (transitionRunForApproval run ''rejected'' ''rejected'') (\<lambda>_. answer SettleRejected)
         else if approvedRow \<and> \<not> pending then
           next_do (transitionRunForApproval run ''approved'' ''approved'') (\<lambda>_. answer SettleApproved)
         else if pending then answer SettlePending
         else answer SettleExpired)"

definition SettleApproval :: "string \<Rightarrow> settle_state svc" where
  "SettleApproval rid =
     next_do (on_store Internal (ListApprovals (rows_filter rid ''''))) (\<lambda>rows.
     if rows = [] then answer SettleNone
     else next_do (on_store Internal (GetRun rid)) (\<lambda>r.
       case r of
         None \<Rightarrow> refuse Internal
       | Some run \<Rightarrow>
          let matching = filter (\<lambda>a. fst (approvalPlanMatch a (run_plan_hash run))) rows in
          if matching = [] then answer SettleNone else settle_matching run matching))"

section \<open>Votes\<close>

record vote_request =
  vq_change_id :: string
  vq_voter :: string
  vq_reason :: string

fun mapApprovalError :: "approval_error \<Rightarrow> code" where
  "mapApprovalError ErrApprovalNotFound = NotFound"
| "mapApprovalError (ErrInvalidTransition _ _) = FailedPrecondition"
| "mapApprovalError (ErrUnauthorizedApprover _) = PermissionDenied"
| "mapApprovalError (ErrInitiatorExcluded _) = PermissionDenied"
| "mapApprovalError (ErrDuplicateDecision _) = AlreadyExists"
| "mapApprovalError _ = Internal"

text \<open>A run that is gone when it is read again is dereferenced; the recovery answers \<^verbatim>\<open>Internal\<close>.\<close>

definition reload_run :: "string \<Rightarrow> run_row svc" where
  "reload_run i = next_do (on_store Internal (GetRun i))
     (\<lambda>r. case r of None \<Rightarrow> refuse Internal | Some run \<Rightarrow> answer run)"

definition voter_of :: "call_context \<Rightarrow> vote_request \<Rightarrow> string svc" where
  "voter_of cx req = next_do (requireSubject cx) (\<lambda>subject.
     if vq_voter req \<noteq> '''' \<and> vq_voter req \<noteq> subject then refuse PermissionDenied else answer subject)"

text \<open>The vote goes to the first pending row of the run, and the run is settled from the rows.\<close>

definition cast_and_settle :: "string \<Rightarrow> (string \<Rightarrow> unit approval_op) \<Rightarrow> settle_state svc" where
  "cast_and_settle rid vote =
     next_do (on_store Internal (ListApprovals (rows_filter rid ''pending''))) (\<lambda>rows.
     case rows of
       [] \<Rightarrow> refuse FailedPrecondition
     | row # _ \<Rightarrow>
        next_do (reading (vote (ap_id row))) (\<lambda>res.
        case res of
          Inl e \<Rightarrow> refuse (mapApprovalError e)
        | Inr _ \<Rightarrow> SettleApproval rid))"

definition mark_directly :: "run_row \<Rightarrow> string \<Rightarrow> string \<Rightarrow> time \<Rightarrow> run_row svc" where
  "mark_directly run st approvalStatus now =
     (let run1 = run\<lparr>run_status := st, run_approval_status := approvalStatus, run_updated_at := now\<rparr>
      in next_do (on_store Internal (UpdateRun run1)) (\<lambda>_. answer run1))"

definition ApproveChange :: "change_service \<Rightarrow> call_context \<Rightarrow> vote_request \<Rightarrow> run_row svc" where
  "ApproveChange s cx req =
     next_do (load_run (vq_change_id req)) (\<lambda>run.
     next_do (voter_of cx req) (\<lambda>approver.
     next_do (authorize s cx run ActionApproveChange) (\<lambda>_.
     if engine_run_fn s \<noteq> None \<and> run_plan_json run = '''' then refuse FailedPrecondition
     else next_do (reading time_now) (\<lambda>now.
       case sv_approval s of
         None \<Rightarrow>
           next_do (mark_directly run ''approved'' ApprovalStatusApproved now) (\<lambda>run1.
           next_do (audit_now s (run_id run1) AuditActionApprove approver (run_id run1) StatusApproved now) (\<lambda>_.
           answer run1))
       | Some ap \<Rightarrow>
           next_do (cast_and_settle (vq_change_id req) (\<lambda>i. Approve ap i approver)) (\<lambda>settled.
           next_do (reload_run (vq_change_id req)) (\<lambda>run1.
           next_do (audit_now s (run_id run1) AuditActionApprove approver (run_id run1)
               (if settled = SettlePending then AuditResultQuorumPending else StatusApproved) now) (\<lambda>_.
           answer run1)))))))"

definition RejectChange :: "change_service \<Rightarrow> call_context \<Rightarrow> vote_request \<Rightarrow> run_row svc" where
  "RejectChange s cx req =
     next_do (load_run (vq_change_id req)) (\<lambda>run.
     next_do (voter_of cx req) (\<lambda>rejecter.
     next_do (authorize s cx run ActionApproveChange) (\<lambda>_.
     next_do (reading time_now) (\<lambda>now.
     next_do (case sv_approval s of
         None \<Rightarrow> mark_directly run ''rejected'' ApprovalStatusRejected now
       | Some ap \<Rightarrow> next_do (cast_and_settle (vq_change_id req) (\<lambda>i. Reject ap i rejecter (vq_reason req)))
           (\<lambda>_. reload_run (vq_change_id req))) (\<lambda>run1.
     next_do (audit_now s (run_id run1) AuditActionReject rejecter (run_id run1) StatusRejected now) (\<lambda>_.
     answer run1))))))"

section \<open>Pausing and cancelling\<close>

definition permissionActionForStatus :: "string \<Rightarrow> string" where
  "permissionActionForStatus action =
     (if action = ''pause'' then PermActionPause
      else if action = ''resume'' then PermActionResume
      else if action = AuditActionCancel then ActionCancel
      else action)"

definition isValidTransition :: "string \<Rightarrow> string \<Rightarrow> bool" where
  "isValidTransition frm to =
     (if to = StatusPaused then frm = StatusRunning \<or> frm = StatusPending
      else if to = StatusRunning then
        frm = StatusPaused \<or> frm = StatusPending \<or> frm = StatusApproved \<or> frm = StatusDraft \<or> frm = StatusPlanned
      else if to = StatusCancelled then
        frm \<noteq> StatusCompleted \<and> frm \<noteq> StatusCancelled \<and> frm \<noteq> StatusArchived \<and> frm \<noteq> StatusInterrupted
      else if to = StatusArchived then
        frm = StatusCompleted \<or> frm = StatusFailed \<or> frm = StatusCancelled \<or> frm = StatusRolledBack \<or>
        frm = StatusRolledBackPartial \<or> frm = StatusRollbackIncomplete \<or> frm = StatusInterrupted \<or>
        frm = StatusDraft \<or> frm = StatusPlanned
      else False)"

fun mapPauseError :: "pause_error \<Rightarrow> code" where
  "mapPauseError ErrRunNotFound = NotFound"
| "mapPauseError ErrNotPausable = FailedPrecondition"
| "mapPauseError ErrNotResumable = FailedPrecondition"
| "mapPauseError ErrPermissionDenied = PermissionDenied"
| "mapPauseError ErrPauseEmptyRunID = InvalidArgument"
| "mapPauseError ErrEmptyActor = InvalidArgument"
| "mapPauseError _ = Internal"

definition pausing :: "(world \<Rightarrow> (pause_error option \<times> world) option) \<Rightarrow> unit svc" where
  "pausing m w = (case m w of None \<Rightarrow> None | Some (None, w1) \<Rightarrow> Some (Inr (), w1)
     | Some (Some e, w1) \<Rightarrow> Some (Inl (mapPauseError e), w1))"

definition transitionStatusWith ::
    "change_service \<Rightarrow> call_context \<Rightarrow> string \<Rightarrow> string \<Rightarrow> string \<Rightarrow> string \<Rightarrow> bool \<Rightarrow> run_row svc" where
  "transitionStatusWith s cx rid newStatus action permissionAction force =
     next_do (load_run rid) (\<lambda>run.
     next_do (authorizeResource s cx (envOf run) permissionAction) (\<lambda>_.
     if sv_pause s \<and> (newStatus = StatusPaused \<or> newStatus = StatusRunning) then
       next_do (pausing (if newStatus = ''paused'' then PauseRun (sv_crypto s) (sv_fuel s) rid (actorFromCtx cx)
           else ResumeRun (sv_crypto s) (sv_fuel s) rid (actorFromCtx cx))) (\<lambda>_. load_run rid)
     else if \<not> force \<and> \<not> isValidTransition (run_status run) newStatus then refuse FailedPrecondition
     else
       next_do (reading time_now) (\<lambda>now.
       let run1 = run\<lparr>run_status := newStatus, run_updated_at := now\<rparr> in
       next_do (on_store Internal (UpdateRun run1)) (\<lambda>_.
       next_do (audit_now s rid action (actorFromCtx cx) rid newStatus now) (\<lambda>_.
       next_do (if IsTerminal newStatus then sealTraceChain s rid else answer ()) (\<lambda>_. answer run1))))))"

definition transitionStatus :: "change_service \<Rightarrow> call_context \<Rightarrow> string \<Rightarrow> string \<Rightarrow> string \<Rightarrow> run_row svc" where
  "transitionStatus s cx rid newStatus action =
     transitionStatusWith s cx rid newStatus action (permissionActionForStatus action) False"

definition PauseChange :: "change_service \<Rightarrow> call_context \<Rightarrow> string \<Rightarrow> run_row svc" where
  "PauseChange s cx rid = transitionStatus s cx rid ''paused'' ''pause''"

definition ResumeChange :: "change_service \<Rightarrow> call_context \<Rightarrow> string \<Rightarrow> run_row svc" where
  "ResumeChange s cx rid = transitionStatus s cx rid ''running'' ''resume''"

definition CancelChange :: "change_service \<Rightarrow> call_context \<Rightarrow> string \<Rightarrow> bool \<Rightarrow> run_row svc" where
  "CancelChange s cx rid force = transitionStatusWith s cx rid StatusCancelled AuditActionCancel ActionCancel force"

text \<open>The answer lists the runs that moved and the runs that were skipped.\<close>

definition bulk_moves :: "string \<Rightarrow> run_row \<Rightarrow> bool" where
  "bulk_moves target run \<longleftrightarrow> (target = ''running'' \<longrightarrow> run_status run = ''paused'') \<and> isValidTransition (run_status run) target"

fun bulk_loop :: "change_service \<Rightarrow> call_context \<Rightarrow> string \<Rightarrow> string \<Rightarrow> string list \<Rightarrow> time \<Rightarrow> run_row list \<Rightarrow>
    string list \<times> string list \<Rightarrow> (string list \<times> string list) svc" where
  "bulk_loop s cx target action envs now [] res = answer res"
| "bulk_loop s cx target action envs now (run # runs) (mv, sk) =
     (if envs \<noteq> [] \<and> run_incident_id run \<notin> set envs then bulk_loop s cx target action envs now runs (mv, sk)
      else if \<not> bulk_moves target run then bulk_loop s cx target action envs now runs (mv, sk @ [run_id run])
      else next_do (reading (UpdateRun (run\<lparr>run_status := target, run_updated_at := now\<rparr>))) (\<lambda>res.
        case res of
          Inl _ \<Rightarrow> bulk_loop s cx target action envs now runs (mv, sk @ [run_id run])
        | Inr _ \<Rightarrow> next_do (audit_now s (run_id run) action (actorFromCtx cx) (run_id run) target now)
            (\<lambda>_. bulk_loop s cx target action envs now runs (mv @ [run_id run], sk))))"

definition bulk_grant :: "change_service \<Rightarrow> call_context \<Rightarrow> string \<Rightarrow> unit svc" where
  "bulk_grant s cx target w = (case sv_bulk_auth s of
     None \<Rightarrow> Some (Inr (), w)
   | Some check \<Rightarrow>
      (case check (cx_subject cx) (if target = ''running'' then PermissionResumeAll else PermissionPauseAll) w of
         None \<Rightarrow> None
       | Some (granted, w1) \<Rightarrow>
          if cx_subject cx = '''' then Some (Inl Unauthenticated, w1)
          else if \<not> granted then Some (Inl PermissionDenied, w1)
          else Some (Inr (), w1)))"

definition all_runs :: run_filter where
  "all_runs = \<lparr>rf_status = '''', rf_workflow_name = '''', rf_template_name = '''', rf_creator = '''',
     rf_incident_id = '''', rf_limit = 0, rf_offset = 0, rf_tenant_id = ''''\<rparr>"

definition bulkTransition :: "change_service \<Rightarrow> call_context \<Rightarrow> string \<Rightarrow> string \<Rightarrow> string list \<Rightarrow> (string list \<times> string list) svc" where
  "bulkTransition s cx target action envs =
     next_do (bulk_grant s cx target) (\<lambda>_.
     next_do (on_store Internal (ListRuns all_runs)) (\<lambda>runs.
     next_do (reading time_now) (\<lambda>now.
     bulk_loop s cx target action envs now runs ([], []))))"

definition ServicePauseAll :: "change_service \<Rightarrow> call_context \<Rightarrow> string list \<Rightarrow> (string list \<times> string list) svc" where
  "ServicePauseAll s cx envs = bulkTransition s cx StatusPaused AuditActionPauseAll envs"

definition ServiceResumeAll :: "change_service \<Rightarrow> call_context \<Rightarrow> string list \<Rightarrow> (string list \<times> string list) svc" where
  "ServiceResumeAll s cx envs = bulkTransition s cx StatusRunning AuditActionResumeAll envs"

section \<open>Retrying\<close>

definition engine_retry_fn :: "change_service \<Rightarrow> (string \<Rightarrow> bool \<Rightarrow> string list \<Rightarrow> world \<Rightarrow> retry_failure option \<times> world) option" where
  "engine_retry_fn s = (case sv_engine s of None \<Rightarrow> None | Some e \<Rightarrow> en_retry e)"

record retry_request =
  tq_change_id :: string
  tq_replan :: bool
  tq_target_hosts :: "string list"

definition RetryChange :: "change_service \<Rightarrow> call_context \<Rightarrow> retry_request \<Rightarrow> run_row svc" where
  "RetryChange s cx req =
     next_do (load_run (tq_change_id req)) (\<lambda>run.
     next_do (authorize s cx run ActionApply) (\<lambda>_.
     if \<not> InRetryAdmitted (run_status run) then refuse FailedPrecondition
     else next_do (on_store Internal (RunUsage (run_id run))) (\<lambda>attempts.
       if Exhausted attempts then refuse ResourceExhausted
       else case engine_retry_fn s of
         Some retry \<Rightarrow>
           next_do (reading (retry (tq_change_id req) (tq_replan req) (tq_target_hosts req))) (\<lambda>res.
           case res of
             Some ErrReplanNeedsApproval \<Rightarrow> refuse FailedPrecondition
           | Some RetryFailed \<Rightarrow> refuse Internal
           | None \<Rightarrow>
              next_do (load_run (tq_change_id req)) (\<lambda>run1.
              next_do (reading time_now) (\<lambda>now.
              next_do (audit_now s (run_id run1) AuditActionRetry (actorFromCtx cx) (run_id run1) (run_status run1) now) (\<lambda>_.
              answer run1))))
       | None \<Rightarrow>
           next_do (reading time_now) (\<lambda>now.
           let run1 = run\<lparr>run_status := ''draft'', run_updated_at := now\<rparr> in
           next_do (on_store Internal (UpdateRun run1)) (\<lambda>_.
           next_do (audit_now s (run_id run1) AuditActionRetry (actorFromCtx cx) (run_id run1) ''draft'' now) (\<lambda>_.
           answer run1))))))"

primrec exhausted_hosts :: "string \<Rightarrow> string list \<Rightarrow> string list svc" where
  "exhausted_hosts rid [] = answer []"
| "exhausted_hosts rid (h # hs) =
     next_do (on_store Internal (HostUsage rid h)) (\<lambda>attempts.
     next_do (exhausted_hosts rid hs) (\<lambda>rest. answer (if Exhausted attempts then h # rest else rest)))"

primrec audit_hosts :: "change_service \<Rightarrow> call_context \<Rightarrow> run_row \<Rightarrow> time \<Rightarrow> string list \<Rightarrow> unit svc" where
  "audit_hosts s cx run now [] = answer ()"
| "audit_hosts s cx run now (h # hs) =
     next_do (audit_now s (run_id run) AuditActionRetryHost (actorFromCtx cx) (AuditTargetHost (run_id run) h) (run_status run) now)
       (\<lambda>_. audit_hosts s cx run now hs)"

definition RetryHost :: "change_service \<Rightarrow> call_context \<Rightarrow> string \<Rightarrow> string list \<Rightarrow> run_row svc" where
  "RetryHost s cx rid hosts =
     next_do (load_run rid) (\<lambda>run.
     if hosts = [] then refuse InvalidArgument
     else next_do (authorize s cx run ActionApply) (\<lambda>_.
       next_do (exhausted_hosts (run_id run) hosts) (\<lambda>exhausted.
       if exhausted \<noteq> [] then refuse ResourceExhausted
       else next_do (case engine_retry_fn s of
             None \<Rightarrow> answer ()
           | Some retry \<Rightarrow> next_do (reading (retry rid False hosts)) (\<lambda>res.
               case res of None \<Rightarrow> answer () | Some _ \<Rightarrow> refuse Internal)) (\<lambda>_.
         next_do (reading time_now) (\<lambda>now.
         next_do (audit_hosts s cx run now hosts) (\<lambda>_. answer run))))))"

section \<open>Rolling back and archiving\<close>

record rollback_request =
  bq_change_id :: string
  bq_run_id :: string
  bq_auto_approve :: bool
  bq_dry_run :: bool

record rollback_response =
  br_change :: run_row
  br_run_id :: string
  br_success :: bool
  br_rolled_back_hosts :: "string list"
  br_skipped_hosts :: "string list"

definition engine_rollback_fn :: "change_service \<Rightarrow>
    (string \<Rightarrow> string \<Rightarrow> bool \<Rightarrow> bool \<Rightarrow> world \<Rightarrow> (rollback_outcome \<times> rollback_failure option) \<times> world) option" where
  "engine_rollback_fn s = (case sv_engine s of None \<Rightarrow> None | Some e \<Rightarrow> en_rollback e)"

definition rollback_with :: "change_service \<Rightarrow> call_context \<Rightarrow> rollback_request \<Rightarrow> run_row \<Rightarrow> time \<Rightarrow>
    rollback_outcome \<times> rollback_failure option \<Rightarrow> rollback_response svc" where
  "rollback_with s cx req run now outcome = (case outcome of (out, failure) \<Rightarrow>
     if failure = Some RollbackFailed then refuse Internal
     else if bq_dry_run req then
       answer \<lparr>br_change = run, br_run_id = '''', br_success = True, br_rolled_back_hosts = ro_rolled_back_hosts out,
         br_skipped_hosts = ro_skipped_hosts out\<rparr>
     else
       (let newStatus = (if failure = Some ErrIncomplete then StatusRollbackIncomplete else StatusRolledBack) in
        next_do (reading time_now) (\<lambda>at.
        let run1 = run\<lparr>run_status := newStatus, run_updated_at := at\<rparr> in
        next_do (on_store Internal (UpdateRun run1)) (\<lambda>_.
        next_do (audit_now s (run_id run) AuditActionRollback (actorFromCtx cx) (ro_run_id out) newStatus now) (\<lambda>_.
        answer \<lparr>br_change = run1, br_run_id = ro_run_id out, br_success = (failure \<noteq> Some ErrIncomplete),
          br_rolled_back_hosts = ro_rolled_back_hosts out, br_skipped_hosts = ro_skipped_hosts out\<rparr>)))))"

definition RollbackChange :: "change_service \<Rightarrow> call_context \<Rightarrow> rollback_request \<Rightarrow> rollback_response svc" where
  "RollbackChange s cx req =
     next_do (load_run (bq_change_id req)) (\<lambda>run.
     next_do (authorize s cx run ActionRollback) (\<lambda>_.
     if \<not> InRollbackAdmitted (run_status run) then refuse FailedPrecondition
     else if AutoApproveForbidden (run_approval_level run) \<and> bq_auto_approve req then refuse PermissionDenied
     else next_do (reading time_now) (\<lambda>now.
       case engine_rollback_fn s of
         Some rb \<Rightarrow> next_do (reading (rb (bq_change_id req) (bq_run_id req) (bq_auto_approve req) (bq_dry_run req)))
           (rollback_with s cx req run now)
       | None \<Rightarrow>
          if bq_dry_run req then
            answer \<lparr>br_change = run, br_run_id = '''', br_success = True, br_rolled_back_hosts = [], br_skipped_hosts = []\<rparr>
          else
            (let run1 = run\<lparr>run_status := ''rolled_back'', run_updated_at := now\<rparr>;
                 target = (if bq_run_id req = '''' then run_id run else bq_run_id req) in
             next_do (on_store Internal (UpdateRun run1)) (\<lambda>_.
             next_do (audit_now s (run_id run) AuditActionRollback (actorFromCtx cx) target StatusRolledBack now) (\<lambda>_.
             answer \<lparr>br_change = run1, br_run_id = target, br_success = True, br_rolled_back_hosts = [],
               br_skipped_hosts = []\<rparr>))))))"

text \<open>Listings that fail give no rows, and deletions that fail are not reported.\<close>

primrec purge_steps :: "step_row list \<Rightarrow> unit svc" where
  "purge_steps [] = answer ()"
| "purge_steps (x # xs) = next_do (ignoring (DeleteStep (step_id x))) (\<lambda>_. purge_steps xs)"

primrec purge_batches :: "string \<Rightarrow> batch_row list \<Rightarrow> unit svc" where
  "purge_batches rid [] = answer ()"
| "purge_batches rid (b # bs) =
     next_do (reading (ListSteps (empty_step_filter\<lparr>sf_run_id := rid, sf_batch_id := bt_id b\<rparr>))) (\<lambda>steps.
     next_do (purge_steps (case steps of Inl _ \<Rightarrow> [] | Inr xs \<Rightarrow> xs)) (\<lambda>_.
     next_do (ignoring (DeleteBatch (bt_id b))) (\<lambda>_. purge_batches rid bs)))"

definition ArchiveChange :: "change_service \<Rightarrow> call_context \<Rightarrow> string \<Rightarrow> bool \<Rightarrow> run_row svc" where
  "ArchiveChange s cx rid purge =
     next_do (load_run rid) (\<lambda>run.
     if run_status run = ''archived'' then answer run
     else next_do (authorize s cx run ActionAdmin) (\<lambda>_.
       if run_status run = ''running'' \<or> run_status run = ''paused'' then refuse FailedPrecondition
       else next_do (reading time_now) (\<lambda>now.
         let run1 = run\<lparr>run_status := ''archived'', run_updated_at := now\<rparr> in
         next_do (on_store Internal (UpdateRun run1)) (\<lambda>_.
         next_do (if purge then
             next_do (reading (ListBatches \<lparr>bf_run_id = rid, bf_status = '''', bf_limit = 0, bf_tenant_id = ''''\<rparr>))
               (\<lambda>bs. purge_batches rid (case bs of Inl _ \<Rightarrow> [] | Inr xs \<Rightarrow> xs))
           else answer ()) (\<lambda>_.
         next_do (audit_now s (run_id run) AuditActionArchive (actorFromCtx cx) (run_id run) StatusArchived now) (\<lambda>_.
         answer run1))))))"

section \<open>What settlement does\<close>

text \<open>An approval row of the run speaks for this plan with this status, and none is still open.\<close>

definition decided :: "tables \<Rightarrow> run_row \<Rightarrow> string \<Rightarrow> bool" where
  "decided t run st \<longleftrightarrow>
     (\<exists>a\<in>set (t_approvals t). ap_run_id a = run_id run \<and> ap_status a = st \<and> (ap_plan_hash a = '''' \<or> ap_plan_hash a = run_plan_hash run)) \<and>
     \<not> (\<exists>a\<in>set (t_approvals t). ap_run_id a = run_id run \<and> ap_status a = ''pending'' \<and>
          (ap_plan_hash a = '''' \<or> ap_plan_hash a = run_plan_hash run))"

definition settled_row :: "string \<Rightarrow> time \<Rightarrow> run_row \<Rightarrow> run_row" where
  "settled_row st at x = x\<lparr>run_status := st, run_approval_status := st, run_updated_at := at\<rparr>"

definition settles :: "string \<Rightarrow> tables \<Rightarrow> tables \<Rightarrow> bool" where
  "settles rid t t' \<longleftrightarrow> t' = t \<or>
     (\<exists>run st at. find (\<lambda>r. run_id r = rid) (t_runs t) = Some run \<and> st \<in> {''approved'', ''rejected''} \<and> decided t run st \<and>
        (run_status run \<in> set terminalRunStatuses \<longrightarrow> run_status run = st) \<and>
        t' = t\<lparr>t_runs := update_where (\<lambda>x. run_id x = rid \<and> run_status x = run_status run) (settled_row st at) (t_runs t)\<rparr>)"

lemma settles_refl: "settles rid t t"
  by (simp add: settles_def)

lemma transition_settles:
  assumes "undisturbed w" and "find (\<lambda>r. run_id r = rid) (t_runs (w_tbl w)) = Some run" and "decided (w_tbl w) run st"
    and "st \<in> {''approved'', ''rejected''}" and "transitionRunForApproval run st st w = Some (r, w')"
  shows "framed (settles rid) w w'"
proof -
  have id: "run_id run = rid" using assms(2) by (auto simp: find_Some_iff)
  show ?thesis
  proof (cases "run_status run \<in> set terminalRunStatuses \<and> run_status run \<noteq> st \<or> run_status run = st \<and> run_approval_status run = st")
    case True
    then show ?thesis using assms(5) by (auto simp: transitionRunForApproval_def framed_def settles_refl split: if_splits)
  next
    case False
    let ?w1 = "w\<lparr>w_tick := Suc (w_tick w)\<rparr>"
    obtain ok w2 where u: "UpdateRunApprovalStatusIf (run_id run) (run_status run) st st (w_clock w (w_tick w)) ?w1 = (ok, w2)"
      by fastforce
    have w2: "w' = w2" using assms(5) False u
      by (auto simp: transitionRunForApproval_def next_do_def reading_def time_now_def on_store_def split: if_splits sum.splits)
    have "settles rid (w_tbl w) (w_tbl w2)"
      using u [unfolded UpdateRunApprovalStatusIf_def]
    proof (cases rule: stmt_cases)
      case ran
      have "w_tbl w2 = (w_tbl w)\<lparr>t_runs := update_where (\<lambda>x. run_id x = rid \<and> run_status x = run_status run)
          (settled_row st (w_clock w (w_tick w))) (t_runs (w_tbl w))\<rparr>"
        using ran assms(1) id by (auto simp: undisturbed_def settled_row_def [abs_def])
      moreover have "run_status run \<in> set terminalRunStatuses \<longrightarrow> run_status run = st" using False by blast
      ultimately show ?thesis using assms(2-4) unfolding settles_def by blast
    qed (use assms(1) in \<open>simp_all add: settles_refl undisturbed_def\<close>)
    moreover have "same_env w w2" using same_env_stmt [OF u [unfolded UpdateRunApprovalStatusIf_def]] by (simp add: same_env_def)
    ultimately show ?thesis by (simp add: framed_def w2)
  qed
qed

lemma decided_matching:
  assumes "set rows = {a \<in> set (t_approvals t). ap_run_id a = run_id run}"
    and "matching = filter (\<lambda>a. fst (approvalPlanMatch a (run_plan_hash run))) rows"
  shows "decided t run st \<longleftrightarrow> list_ex (\<lambda>a. ap_status a = st) matching \<and> \<not> list_ex (\<lambda>a. ap_status a = ''pending'') matching"
proof -
  have "a \<in> set matching \<longleftrightarrow> a \<in> set (t_approvals t) \<and> ap_run_id a = run_id run \<and> (ap_plan_hash a = '''' \<or> ap_plan_hash a = run_plan_hash run)" for a
    using assms(1) by (auto simp: assms(2) approvalPlanMatch_def MatchesPlan_def split: if_splits)
  then show ?thesis unfolding decided_def list_ex_iff by blast
qed

lemma settle_matching_settles:
  assumes "undisturbed w" and "find (\<lambda>r. run_id r = rid) (t_runs (w_tbl w)) = Some run"
    and "set rows = {a \<in> set (t_approvals (w_tbl w)). ap_run_id a = run_id run}"
    and "settle_matching run (filter (\<lambda>a. fst (approvalPlanMatch a (run_plan_hash run))) rows) w = Some (r, w')"
  shows "framed (settles rid) w w'"
proof -
  let ?m = "filter (\<lambda>a. fst (approvalPlanMatch a (run_plan_hash run))) rows"
  note dec = decided_matching [OF assms(3) refl]
  have step: "framed (settles rid) w w'" if d: "decided (w_tbl w) run st" "st \<in> {''approved'', ''rejected''}"
    "next_do (transitionRunForApproval run st st) (\<lambda>_. answer v) w = Some (r, w')" for st v
  proof -
    obtain r1 w1 where t: "transitionRunForApproval run st st w = Some (r1, w1)"
      using d(3) by (auto simp: next_do_def split: option.splits)
    then have "w' = w1" using d(3) by (cases r1) (auto simp: next_do_def)
    then show ?thesis using transition_settles [OF assms(1,2) d(1,2) t] by simp
  qed
  consider "list_ex (\<lambda>a. ap_status a = ''rejected'') ?m \<and> \<not> list_ex (\<lambda>a. ap_status a = ''pending'') ?m"
    | "\<not> (list_ex (\<lambda>a. ap_status a = ''rejected'') ?m \<and> \<not> list_ex (\<lambda>a. ap_status a = ''pending'') ?m)"
      "list_ex (\<lambda>a. ap_status a = ''approved'') ?m \<and> \<not> list_ex (\<lambda>a. ap_status a = ''pending'') ?m"
    | "w' = w" using assms(4) unfolding settle_matching_def Let_def by (auto split: if_splits)
  then show ?thesis
  proof cases
    case 1
    then show ?thesis using step [of "''rejected''" SettleRejected] dec assms(4) by (simp add: settle_matching_def Let_def)
  next
    case 2
    then show ?thesis using step [of "''approved''" SettleApproved] dec assms(4) by (simp add: settle_matching_def Let_def)
  qed (simp add: framed_def settles_refl)
qed

lemma rows_of_run:
  assumes "undisturbed w" and "on_store c (ListApprovals (rows_filter i '''')) w = Some (Inr rows, w1)" and "i \<noteq> ''''"
  shows "set rows = {a \<in> set (t_approvals (w_tbl w)). ap_run_id a = i}"
  using assms
  by (auto simp: on_store_def ListApprovals_def query_def stmt_def Let_def undisturbed_def rows_filter_def limit_rows_def
      approval_matches_def opt_eq_def split: if_splits)

lemma settlement_frame:
  assumes "undisturbed w" and "rid \<noteq> ''''" and "SettleApproval rid w = Some (r, w')"
  shows "framed (settles rid) w w'"
proof -
  obtain l w1 where l: "on_store Internal (ListApprovals (rows_filter rid '''')) w = Some (l, w1)"
    using assms(3) by (auto simp: SettleApproval_def next_do_def split: option.splits)
  note f1 = reads_tables [OF reads_listing(1) assms(1) l]
  note fr = this [THEN conjunct1] this [THEN conjunct2]
  have u1: "undisturbed w1" using fr(2) same_env_undisturbed(1) assms(1) by blast
  have stop: "framed (settles rid) w w2" if "w_tbl w2 = w_tbl w1" "same_env w1 w2" for w2
    using that fr same_env_trans by (auto simp: framed_def settles_refl)
  show ?thesis
  proof (cases l)
    case (Inl c)
    then show ?thesis using assms(3) l stop [of w1] by (simp add: SettleApproval_def next_do_def same_env_def)
  next
    case (Inr rows)
    note rows = rows_of_run [OF assms(1) l [unfolded Inr] assms(2)]
    show ?thesis
    proof (cases "rows = []")
      case True
      then show ?thesis using assms(3) l Inr stop [of w1] by (simp add: SettleApproval_def next_do_def same_env_def)
    next
      case False
      obtain g w2 where g: "GetRun rid w1 = (g, w2)" by fastforce
      have f2: "framed (=) w1 w2" using framed_query [OF u1 g [unfolded GetRun_def]] .
      have found: "find (\<lambda>r. run_id r = rid) (t_runs (w_tbl w2)) = Some run" if "g = Inr (Some run)" for run
        using g that u1 by (auto simp: GetRun_def query_def stmt_def Let_def undisturbed_def split: if_splits)
      have rest: "(case g of Inl e \<Rightarrow> Some (Inl Internal, w2) | Inr None \<Rightarrow> Some (Inl Internal, w2)
          | Inr (Some run) \<Rightarrow> (let matching = filter (\<lambda>a. fst (approvalPlanMatch a (run_plan_hash run))) rows in
              if matching = [] then answer SettleNone else settle_matching run matching) w2) = Some (r, w')"
        using assms(3) l Inr False g
        by (simp add: SettleApproval_def next_do_def on_store_def refuse_def split: sum.splits option.splits)
      have s2: "w_tbl w2 = w_tbl w1" "same_env w1 w2" using f2 by (simp_all add: framed_def)
      have u2: "undisturbed w2" using framed_env(1) [OF f2] u1 by simp
      show ?thesis
      proof (cases "\<exists>run. g = Inr (Some run) \<and> filter (\<lambda>a. fst (approvalPlanMatch a (run_plan_hash run))) rows \<noteq> []")
        case True
        then obtain run where g': "g = Inr (Some run)" "filter (\<lambda>a. fst (approvalPlanMatch a (run_plan_hash run))) rows \<noteq> []" by blast
        have id: "run_id run = rid" using found [OF g'(1)] by (auto simp: find_Some_iff)
        have "set rows = {a \<in> set (t_approvals (w_tbl w2)). ap_run_id a = run_id run}" using rows fr(1) s2(1) id by simp
        moreover have "settle_matching run (filter (\<lambda>a. fst (approvalPlanMatch a (run_plan_hash run))) rows) w2 = Some (r, w')"
          using rest g' by (simp only: sum.case option.case Let_def if_False)
        ultimately have "framed (settles rid) w2 w'" using settle_matching_settles [OF u2 found [OF g'(1)]] by blast
        then show ?thesis using fr s2 same_env_trans by (auto simp: framed_def)
      next
        case False
        then have "w' = w2" using rest by (auto simp: Let_def split: sum.splits option.splits if_splits)
        then show ?thesis using stop s2 by simp
      qed
    qed
  qed
qed

text \<open>
  Settlement only follows decided approvals. Whatever statement fails, settling a run changes nothing,
  or moves this one run to the outcome for which an approval row of its current plan speaks while none
  is pending, and only from a state that is not settled yet (or to refresh the mark of the same outcome).
\<close>

theorem settlement_follows_decisions:
  assumes "undisturbed w" and "rid \<noteq> ''''" and "SettleApproval rid w = Some (r, w')"
  shows "framed (settles rid) w w'"
  using settlement_frame [OF assms] .

section \<open>What a vote does to the runs\<close>

text \<open>The vote on a record changes the row of that record only.\<close>

definition ballot_only :: "string \<Rightarrow> tables \<Rightarrow> tables \<Rightarrow> bool" where
  "ballot_only i t t' \<longleftrightarrow> t'\<lparr>t_approvals := []\<rparr> = t\<lparr>t_approvals := []\<rparr> \<and> map ap_id (t_approvals t') = map ap_id (t_approvals t) \<and>
     filter (\<lambda>a. ap_id a \<noteq> i) (t_approvals t') = filter (\<lambda>a. ap_id a \<noteq> i) (t_approvals t)"

lemma ballot_onlyD:
  assumes "ballot_only i t t'"
  shows "t_runs t' = t_runs t" "t_audits t' = t_audits t"
  using assms by (cases t; cases t'; simp add: ballot_only_def)+

definition audits_only :: "tables \<Rightarrow> tables \<Rightarrow> bool" where
  "audits_only t t' \<longleftrightarrow> t'\<lparr>t_audits := []\<rparr> = t\<lparr>t_audits := []\<rparr>"

lemma frame_rels [simp]: "frame_rel (ballot_only i)" "frame_rel audits_only"
  by (auto simp: frame_rel_def ballot_only_def audits_only_def reflp_def transp_def)

lemma audits_onlyD:
  assumes "audits_only t t'"
  shows "t_runs t' = t_runs t" "t_approvals t' = t_approvals t"
  using assms by (cases t; cases t'; simp add: audits_only_def)+

lemma Record_frame:
  assumes "undisturbed w" and "Record c fuel a w = Some (r, w')"
  shows "framed audits_only w w'"
proof -
  let ?I = "\<lambda>t. audits_only (w_tbl w) t"
  have "upheld ?I w" using assms(1) frame_rels(2) by (auto simp: upheld_def undisturbed_def frame_rel_def reflp_def)
  moreover have "?I (t\<lparr>t_audits := A\<rparr>) = ?I t" for t A
    by (simp add: audits_only_def)
  ultimately have "upheld ?I w' \<and> same_env w w'" using Record_elsewhere [OF _ _ assms(2), of ?I] by blast
  then show ?thesis by (simp add: framed_def upheld_def)
qed

lemma keeps_audit: "keeps audits_only (audit_now s rid action actor target result now)"
  unfolding audit_now_def
proof (intro keeps_next keeps_newID frame_rels keepsI)
  fix i w r w' assume "undisturbed w" "recordServiceAudit s (audit_entry i rid action actor target result now) w = Some (r, w')"
  then show "framed audits_only w w'" by (auto simp: recordServiceAudit_def split: option.splits dest: Record_frame)
qed

lemma framed_reads_ballot: "framed (=) w w' \<Longrightarrow> framed (ballot_only i) w w'"
  by (simp add: framed_def ballot_only_def)

lemma adapter_id:
  assumes "AdapterGet jc i w = (Inr (Some a), w1)"
  shows "av_id a = i"
proof -
  obtain x y where e: "query (\<lambda>t. find (\<lambda>sa. ap_id sa = i) (t_approvals t)) w = (x, y)" by fastforce
  then obtain sa where sa: "x = Inr (Some sa)" "ApprovalFromState jc sa = Inr a"
    using assms by (auto simp: AdapterGet_def GetApproval_def split: sum.splits option.splits)
  have "ap_id sa = i" using e [unfolded sa(1)] by (auto simp: find_Some_iff eq_commute [of "Some _"] elim!: query_cases)
  then show ?thesis using decoded_fields(1) [OF sa(2)] by simp
qed

lemma adapter_ballot:
  assumes "undisturbed w"
  shows "AdapterGet jc i w = (g, w1) \<Longrightarrow> framed (ballot_only i) w w1"
    and "av_id a = i \<Longrightarrow> AdapterUpdateIfPending jc a w = (u, w1) \<Longrightarrow> framed (ballot_only i) w w1"
proof -
  show "framed (ballot_only i) w w1" if g: "AdapterGet jc i w = (g, w1)" for g
  proof -
    obtain x y where e: "GetApproval i w = (x, y)" by fastforce
    have "framed (ballot_only i) w y" using framed_reads_ballot framed_query [OF assms e [unfolded GetApproval_def]] by blast
    then show ?thesis using g e by (auto simp: AdapterGet_def split: sum.splits option.splits)
  qed
  show "framed (ballot_only i) w w1" if a: "av_id a = i" and u: "AdapterUpdateIfPending jc a w = (u, w1)" for u
  proof (cases "StateApproval jc a")
    case None
    then show ?thesis using u frame_rels(1) by (auto simp: AdapterUpdateIfPending_def frame_rel_def framed_refl)
  next
    case (Some sa)
    obtain x y where e: "UpdateApprovalIfPending sa w = (x, y)" by fastforce
    have sa: "ap_id sa = i" using Some a by (auto simp: StateApproval_def Let_def split: option.splits prod.splits)
    have "filter (\<lambda>x. ap_id x \<noteq> i) (update_where (\<lambda>x. ap_id x = i \<and> Q x) (set_approval sa) xs) = filter (\<lambda>x. ap_id x \<noteq> i) xs" for Q xs
      by (induction xs) (auto simp: update_where_def set_approval_def)
    then have "ballot_only i t (snd (let P = \<lambda>x. ap_id x = ap_id sa \<and> ap_status x = ''pending'' \<and> ap_revision x = ap_revision sa in
        (Inr (0 < count_where P (t_approvals t)), t\<lparr>t_approvals := update_where P (set_approval sa) (t_approvals t)\<rparr>)))" for t
      by (simp add: ballot_only_def Let_def sa set_approval_def)
    then have "framed (ballot_only i) w y" using frame_rels(1)
      by (intro framed_stmt [OF assms e [unfolded UpdateApprovalIfPending_def]]) (auto simp: frame_rel_def)
    then show ?thesis using u Some e by (auto simp: AdapterUpdateIfPending_def split: sum.splits)
  qed
qed

lemma decide_ballot_only:
  assumes "undisturbed w" and "decide_attempts k le (NewService (approvalStoreAdapter jc)) i p act why st w = (r, w')"
  shows "framed (ballot_only i) w w'"
  using assms
proof (induction k arbitrary: w le)
  case 0
  then show ?case using frame_rels(1) by (auto simp: frame_rel_def framed_refl)
next
  case (Suc k)
  have tr: "framed (ballot_only i) a c" if "framed (ballot_only i) a b" "framed (ballot_only i) b c" for a b c
    using framed_trans [OF _ that] frame_rels(1) by (simp add: frame_rel_def)
  obtain g w1 where g: "AdapterGet jc i w = (g, w1)" by fastforce
  note f1 = adapter_ballot(1) [OF Suc.prems(1) g]
  have store: "sv_store (NewService (approvalStoreAdapter jc)) = approvalStoreAdapter jc"
    "sv_guard (NewService (approvalStoreAdapter jc)) = None" "sv_observers (NewService (approvalStoreAdapter jc)) = []"
    by (simp_all add: NewService_def)
  show ?case
  proof (cases "\<exists>a. g = Inr (Some a) \<and> canTransition (av_status a) st \<and> ballot_refusal (clamp_min a) p = None")
    case False
    then have "w' = w1" using Suc.prems(2) g store
      by (auto simp: approvalStoreAdapter_def consult_guard_def Let_def split: sum.splits option.splits if_splits)
    then show ?thesis using f1 by simp
  next
    case True
    then obtain a where a: "g = Inr (Some a)" "canTransition (av_status a) st" "ballot_refusal (clamp_min a) p = None" by blast
    let ?w3 = "w1\<lparr>w_tick := Suc (w_tick w1)\<rparr>"
    let ?b = "settle (clamp_min a) \<lparr>dc_approver = p, dc_action = act, dc_reason = why, dc_at = w_clock w1 (w_tick w1)\<rparr> st"
    have f3: "framed (ballot_only i) w ?w3" using f1 by (simp add: framed_def same_env_def)
    then have u3: "undisturbed ?w3" using framed_env(1) Suc.prems(1) by blast
    obtain ok w4 where ok: "AdapterUpdateIfPending jc ?b ?w3 = (ok, w4)" by fastforce
    have "av_id ?b = i" using adapter_id [of jc i w a w1] g a(1) by simp
    note f4 = tr [OF f3 adapter_ballot(2) [OF u3 this ok]]
    then have u4: "undisturbed w4" using framed_env(1) Suc.prems(1) by blast
    have "(case ok of Inl e \<Rightarrow> (Inl e, w4) | Inr b \<Rightarrow> if b then (Inr (), w4)
        else decide_attempts k (Some (ErrConflict i p)) (NewService (approvalStoreAdapter jc)) i p act why st w4) = (r, w')"
      using Suc.prems(2) g a store ok
      by (simp add: approvalStoreAdapter_def consult_guard_def Let_def time_now_def split: sum.splits bool.splits)
    then show ?thesis using f4 tr [OF f4 Suc.IH [OF u4]] by (auto split: sum.splits if_splits)
  qed
qed

definition votes :: "approval_codec \<Rightarrow> tables \<Rightarrow> tables \<Rightarrow> bool" where
  "votes jc t t' \<longleftrightarrow> t_runs t' = t_runs t \<and> (sound jc t \<longrightarrow> sound jc t')"

lemma vote_frame:
  assumes "codec_ok jc" and "undisturbed w" and "\<forall>n. time_ok (w_clock w n)" and "utf8_valid p" and "utf8_valid why"
    and "action = ActionApprove \<and> target = ApprovalApproved \<or> action = ActionReject \<and> target = ApprovalRejected"
    and "decide (NewService (approvalStoreAdapter jc)) i p action why target w = (r, w')"
  shows "framed (votes jc) w w'"
proof -
  note d = assms(7) [unfolded decide_def]
  have f: "framed (ballot_only i) w w'" using decide_ballot_only [OF assms(2) d] .
  have "sound jc (w_tbl w')" if "sound jc (w_tbl w)"
  proof -
    have st: "codec_ok jc \<and> db_steady jc w" using assms(1-3) that by (simp add: db_steady_def undisturbed_def)
    have "db.calm_service jc (NewService (approvalStoreAdapter jc))" by (simp add: db.calm_service_def NewService_def)
    note db.decide_follows [OF st this assms(4-6) d, THEN conjunct1]
    from db_steady_follows [OF conjunct2 [OF st] this] show ?thesis by (simp add: db_steady_def)
  qed
  then show ?thesis using f ballot_onlyD(1) by (auto simp: framed_def votes_def)
qed

text \<open>A call that votes: it reads, the vote is written, the run is settled, and an audit row is added.\<close>

definition vote_and_settle :: "approval_codec \<Rightarrow> string \<Rightarrow> tables \<Rightarrow> tables \<Rightarrow> bool" where
  "vote_and_settle jc rid t t' \<longleftrightarrow> (\<exists>t1 t2. votes jc t t1 \<and> settles rid t1 t2 \<and> audits_only t2 t')"

lemma cast_and_settle_frame:
  assumes "undisturbed w" and "rid \<noteq> ''''"
    and "\<And>i w1 x w2. same_env w w1 \<Longrightarrow> vote i w1 = (x, w2) \<Longrightarrow> framed (votes jc) w1 w2"
    and "cast_and_settle rid vote w = Some (r, w')"
  shows "\<exists>w1. framed (votes jc) w w1 \<and> framed (settles rid) w1 w'"
proof -
  have here: "framed (votes jc) w0 w0" "framed (settles rid) w0 w0" for w0 by (simp_all add: framed_def votes_def settles_refl same_env_def)
  obtain l w1 where l: "on_store Internal (ListApprovals (rows_filter rid ''pending'')) w = Some (l, w1)"
    using assms(4) by (auto simp: cast_and_settle_def next_do_def split: option.splits)
  note fr = reads_tables [OF reads_listing(1) assms(1) l]
  have f1: "framed (votes jc) w w1" using fr by (simp add: framed_def votes_def)
  show ?thesis
  proof (cases "\<exists>row rows. l = Inr (row # rows)")
    case False
    then have "w' = w1" using assms(4) l by (auto simp: cast_and_settle_def next_do_def split: sum.splits list.splits)
    then show ?thesis using f1 here by blast
  next
    case True
    then obtain row rows where row: "l = Inr (row # rows)" by blast
    obtain x w2 where v: "vote (ap_id row) w1 = (x, w2)" by fastforce
    have f12: "framed (votes jc) w1 w2" using assms(3) [OF _ v] fr by blast
    have "votes jc (w_tbl w) (w_tbl w2)" "same_env w w2" using f12 f1 same_env_trans by (auto simp: framed_def votes_def)
    then have f2: "framed (votes jc) w w2" by (simp add: framed_def)
    have u2: "undisturbed w2" using framed_env(1) [OF f2] assms(1) by simp
    show ?thesis
    proof (cases x)
      case (Inl e)
      then have "w' = w2" using assms(4) l row v by (auto simp: cast_and_settle_def next_do_def reading_def)
      then show ?thesis using f2 here by blast
    next
      case (Inr u)
      then have "SettleApproval rid w2 = Some (r, w')" using assms(4) l row v by (simp add: cast_and_settle_def next_do_def reading_def)
      then show ?thesis using f2 settlement_frame [OF u2 assms(2)] by blast
    qed
  qed
qed

lemma reads_prefix:
  assumes "reads m" and "undisturbed w" and "next_do m f w = Some (r, w')"
  obtains (stop) c where "r = Inl c" "w_tbl w' = w_tbl w" "same_env w w'"
    | (go) x w1 where "m w = Some (Inr x, w1)" "w_tbl w1 = w_tbl w" "same_env w w1" "undisturbed w1" "f x w1 = Some (r, w')"
proof -
  obtain l w1 where l: "m w = Some (l, w1)" using assms(3) by (auto simp: next_do_def split: option.splits)
  note fr = reads_tables [OF assms(1,2) l]
  show ?thesis
  proof (cases l)
    case (Inl c)
    then show ?thesis using stop l fr assms(3) by (auto simp: next_do_def)
  next
    case (Inr x)
    then have "f x w1 = Some (r, w')" using l assms(3) by (simp add: next_do_def)
    then show ?thesis using go [of x w1] l Inr fr same_env_undisturbed(1) [of w w1] assms(2) by blast
  qed
qed

lemma after_cast_keeps:
  "keeps audits_only (next_do (reload_run rid) (\<lambda>run1. next_do (audit_now s (run_id run1) action p (run_id run1) res now) (\<lambda>_. answer run1)))"
proof (intro keeps_next keeps_audit keeps_done frame_rels)
  have "reads (reload_run rid)" unfolding reload_run_def GetRun_def
    by (intro keeps_next keeps_op framed_query) (auto split: option.splits)
  then show "keeps audits_only (reload_run rid)" by (rule keeps_mono) (simp add: audits_only_def)
qed

lemma vote_then_audit:
  assumes "undisturbed w" and "rid \<noteq> ''''" and "\<And>x. keeps audits_only (f x)"
    and "\<And>i w1 x w2. same_env w w1 \<Longrightarrow> vote i w1 = (x, w2) \<Longrightarrow> framed (votes jc) w1 w2"
    and "next_do (cast_and_settle rid vote) f w = Some (r, w')"
  shows "vote_and_settle jc rid (w_tbl w) (w_tbl w')"
proof -
  obtain l w2 where l: "cast_and_settle rid vote w = Some (l, w2)" using assms(5) by (auto simp: next_do_def split: option.splits)
  obtain w1 where w1: "framed (votes jc) w w1" "framed (settles rid) w1 w2" using cast_and_settle_frame [OF assms(1,2) _ l] assms(4) by blast
  have u2: "undisturbed w2" using framed_env(1) [OF w1(1)] framed_env(1) [OF w1(2)] assms(1) by simp
  have "audits_only (w_tbl w2) (w_tbl w')"
  proof (cases l)
    case (Inl c)
    then show ?thesis using assms(5) l by (simp add: next_do_def audits_only_def)
  next
    case (Inr x)
    then have "f x w2 = Some (r, w')" using assms(5) l by (simp add: next_do_def)
    from keepsD [OF assms(3) u2 this] show ?thesis by (simp add: framed_def)
  qed
  then show ?thesis using w1 unfolding vote_and_settle_def framed_def by blast
qed

lemma reads_voter: "reads (voter_of cx req)" "reads (reading time_now)"
  unfolding voter_of_def requireSubject_def by (auto intro!: keeps_next keeps_time)

lemma permits_reads: "permits s cx (envOf run) action \<Longrightarrow> reads (authorize s cx run action)"
  unfolding authorize_def by (simp add: authorizeResource_permits)

lemma approve_votes:
  assumes "codec_ok jc" and "undisturbed w" and "\<forall>n. time_ok (w_clock w n)" and "utf8_valid (cx_subject cx)"
    and "sv_approval s = Some (NewService (approvalStoreAdapter jc))" and "vq_change_id req \<noteq> ''''"
    and "\<forall>env. permits s cx env ActionApproveChange"
    and "ApproveChange s cx req w = Some (r, w')"
  shows "vote_and_settle jc (vq_change_id req) (w_tbl w) (w_tbl w')"
proof -
  have quit: "vote_and_settle jc (vq_change_id req) t t" for t
    unfolding vote_and_settle_def votes_def settles_def audits_only_def by blast
  from reads_load assms(2) assms(8) [unfolded ApproveChange_def] show ?thesis
  proof (cases rule: reads_prefix)
    case (go run w1)
    from reads_voter(1) go(4,5) show ?thesis
    proof (cases rule: reads_prefix)
      case (stop c)
      then show ?thesis using quit go(2) by simp
    next
      case v: (go p w2)
      have p: "p = cx_subject cx" using v(1) by (auto simp: voter_of_def requireSubject_def next_do_ok split: if_splits)
      from permits_reads [OF assms(7) [rule_format]] v(4,5) show ?thesis
      proof (cases rule: reads_prefix)
        case (stop c)
        then show ?thesis using quit go(2) v(2) by simp
      next
        case a: (go u w3)
        show ?thesis
        proof (cases "engine_run_fn s \<noteq> None \<and> run_plan_json run = ''''")
          case True
          then have "w' = w3" using a(5) by simp
          then show ?thesis using quit go(2) v(2) a(2) by simp
        next
          case False
          let ?rest = "\<lambda>now. next_do (cast_and_settle (vq_change_id req) (\<lambda>i. Approve (NewService (approvalStoreAdapter jc)) i p)) (\<lambda>settled.
             next_do (reload_run (vq_change_id req)) (\<lambda>run1.
             next_do (audit_now s (run_id run1) AuditActionApprove p (run_id run1)
               (if settled = SettlePending then AuditResultQuorumPending else StatusApproved) now) (\<lambda>_. answer run1)))"
          have "next_do (reading time_now) ?rest w3 = Some (r, w')" using a(5) False assms(5) by (simp split: if_splits)
          from reads_voter(2) a(4) this show ?thesis
          proof (cases rule: reads_prefix)
            case (stop c)
            then show ?thesis using quit go(2) v(2) a(2) by simp
          next
            case t: (go now w4)
            have env: "same_env w w4" using go(3) v(3) a(3) t(3) same_env_trans by blast
            have vote: "framed (votes jc) wa wb" if "same_env w4 wa" "Approve (NewService (approvalStoreAdapter jc)) i p wa = (x, wb)" for i wa x wb
              using vote_frame [OF assms(1) _ _ _ _ _ that(2) [unfolded Approve_def]] assms(2-4) p env that(1)
              by (auto simp: same_env_def undisturbed_def)
            from vote_then_audit [OF t(4) assms(6) after_cast_keeps vote t(5)] go(2) v(2) a(2) t(2)
            show ?thesis by simp
          qed
        qed
      qed
    qed
  qed (simp add: quit)
qed


section \<open>The retry budget\<close>

lemma run_attempts_unlinked:
  assumes "mset (map unlinked A) = mset (map unlinked (new # B))" and "au_run_id new = rid" and "au_action new = AuditActionRetry"
  shows "run_attempts rid A = Suc (run_attempts rid B)"
proof -
  let ?P = "\<lambda>a. au_run_id a = rid \<and> au_action a = ''retry''"
  have cnt: "run_attempts rid xs = size (filter_mset ?P (mset (map unlinked xs)))" for xs
    by (induction xs) (auto simp: run_attempts_def count_where_def unlinked_def audit_link_def)
  show ?thesis unfolding cnt assms(1) using assms(2,3) by (simp add: AuditActionRetry_def unlinked_def audit_link_def)
qed

lemma audit_now_ready:
  assumes "chain_ready (sv_fuel s) w" and "Suc (length (t_audits (w_tbl w))) < sv_fuel s"
    and "w_rand w (w_tick w) = Some x" and "''aud-'' @ x \<notin> au_id ` set (t_audits (w_tbl w))"
  shows "\<exists>w' A n. audit_now s rid action actor target result now w = Some (Inr (), w') \<and>
    w' = w\<lparr>w_tbl := (w_tbl w)\<lparr>t_audits := A\<rparr>, w_tick := n\<rparr> \<and> chain_ready (sv_fuel s) w' \<and>
    mset (map unlinked A) = mset (map unlinked (audit_entry (''aud-'' @ x) rid action actor target result now # t_audits (w_tbl w)))"
proof -
  let ?e = "audit_entry (''aud-'' @ x) rid action actor target result now"
  let ?w1 = "w\<lparr>w_tick := Suc (w_tick w)\<rparr>"
  have "chain_ready (sv_fuel s) ?w1" using assms(1) by (simp add: chain_ready_def)
  from Record_ready [OF this, of ?e "sv_crypto s"] obtain w' A n where
    r: "Record (sv_crypto s) (sv_fuel s) ?e ?w1 = Some (Inr (), w')" "w' = ?w1\<lparr>w_tbl := (w_tbl ?w1)\<lparr>t_audits := A\<rparr>, w_tick := n\<rparr>"
      "chain_ready (sv_fuel s) w'" "mset (map unlinked A) = mset (map unlinked (?e # t_audits (w_tbl ?w1)))"
    using assms(2,4) by (auto simp: audit_entry_def)
  show ?thesis using r assms(3)
    by (intro exI [of _ w'] exI [of _ A] exI [of _ n]) (simp add: audit_now_def next_do_def newID_def rand_read_def recordServiceAudit_def)
qed

lemma RunUsage_quiet:
  assumes "quiet w" and "rid \<noteq> ''''"
  shows "RunUsage rid w = (Inr (int (min (run_attempts rid (t_audits (w_tbl w))) 4)), w\<lparr>w_tick := Suc (w_tick w)\<rparr>)"
  using list_retries [OF assms, of AuditActionRetry "''''"]
  by (simp add: RunUsage_def run_attempts_def count_where_def AuditActionRetry_def opt_eq_def)

text \<open>
  C15. A retry is counted when it succeeded. On a store that works, a change with three recorded retries is
  refused and the engine is not called; otherwise the engine is called, and when it reports success one more
  retry is on record and the run is what the engine left. When the engine reports an error (an execution that
  failed under a manual rollback policy is one) the audit trail is what it was: the attempt is not counted.
\<close>

theorem retry_outcome:
  assumes "chain_ready (sv_fuel s) w" and "find (\<lambda>r. run_id r = tq_change_id req) (t_runs (w_tbl w)) = Some run"
    and "permits s cx (envOf run) ActionApply" and "InRetryAdmitted (run_status run)" and "tq_change_id req \<noteq> ''''"
    and "engine_retry_fn s = Some retry"
    and "retry (tq_change_id req) (tq_replan req) (tq_target_hosts req) (w\<lparr>w_tick := Suc (Suc (w_tick w))\<rparr>) = (res, wr)"
    and "chain_ready (sv_fuel s) wr" and "Suc (length (t_audits (w_tbl wr))) < sv_fuel s" and "t_audits (w_tbl wr) = t_audits (w_tbl w)"
    and "find (\<lambda>r. run_id r = tq_change_id req) (t_runs (w_tbl wr)) = Some reread"
    and "w_rand wr (Suc (Suc (w_tick wr))) = Some x" and "''aud-'' @ x \<notin> au_id ` set (t_audits (w_tbl wr))"
  shows "if 3 \<le> run_attempts (tq_change_id req) (t_audits (w_tbl w))
    then RetryChange s cx req w = Some (Inl ResourceExhausted, w\<lparr>w_tick := Suc (Suc (w_tick w))\<rparr>)
    else case res of
      Some e \<Rightarrow> RetryChange s cx req w = Some (Inl (if e = ErrReplanNeedsApproval then FailedPrecondition else Internal), wr)
    | None \<Rightarrow> \<exists>w'. RetryChange s cx req w = Some (Inr reread, w') \<and> t_runs (w_tbl w') = t_runs (w_tbl wr) \<and>
        run_attempts (tq_change_id req) (t_audits (w_tbl w')) = Suc (run_attempts (tq_change_id req) (t_audits (w_tbl w)))"
proof -
  let ?n = "run_attempts (tq_change_id req) (t_audits (w_tbl w))"
  have q: "quiet w" "quiet wr" using assms(1,8) by (simp_all add: chain_ready_def)
  have id: "run_id run = tq_change_id req" "run_id reread = tq_change_id req" using assms(2,11) by (auto simp: find_Some_iff)
  have ex: "Exhausted (int (min ?n 4)) \<longleftrightarrow> 3 \<le> ?n" by (auto simp: Exhausted_def MaxAttempts_def)
  have pre: "RetryChange s cx req w = (if 3 \<le> ?n then Some (Inl ResourceExhausted, w\<lparr>w_tick := Suc (Suc (w_tick w))\<rparr>)
      else case res of Some e \<Rightarrow> Some (Inl (if e = ErrReplanNeedsApproval then FailedPrecondition else Internal), wr)
        | None \<Rightarrow> next_do (load_run (tq_change_id req)) (\<lambda>run1. next_do (reading time_now) (\<lambda>now.
              next_do (audit_now s (run_id run1) AuditActionRetry (actorFromCtx cx) (run_id run1) (run_status run1) now)
                (\<lambda>_. answer run1))) wr)"
    using assms(3-7) load_run_quiet [OF q(1) assms(2)] RunUsage_quiet [of "w\<lparr>w_tick := Suc (w_tick w)\<rparr>" "tq_change_id req"] q(1) id(1) ex
    by (cases res) (auto simp: RetryChange_def next_do_def [of "load_run _"] authorize_def authorizeResource_permits on_store_def
        next_do_def [of "on_store _ _"] next_do_def [of "reading _"] reading_def refuse_def split: retry_failure.splits)
  have "\<exists>w'. RetryChange s cx req w = Some (Inr reread, w') \<and> t_runs (w_tbl w') = t_runs (w_tbl wr) \<and>
        run_attempts (tq_change_id req) (t_audits (w_tbl w')) = Suc ?n" if "\<not> 3 \<le> ?n" "res = None"
  proof -
    let ?w3 = "wr\<lparr>w_tick := Suc (Suc (w_tick wr))\<rparr>"
    have "chain_ready (sv_fuel s) ?w3" using assms(8) by (simp add: chain_ready_def)
    from audit_now_ready [OF this] obtain w' A k where a:
      "audit_now s (run_id reread) AuditActionRetry (actorFromCtx cx) (run_id reread) (run_status reread) (w_clock wr (Suc (w_tick wr))) ?w3 = Some (Inr (), w')"
      "w' = ?w3\<lparr>w_tbl := (w_tbl ?w3)\<lparr>t_audits := A\<rparr>, w_tick := k\<rparr>"
      "mset (map unlinked A) = mset (map unlinked (audit_entry (''aud-'' @ x) (run_id reread) AuditActionRetry (actorFromCtx cx)
          (run_id reread) (run_status reread) (w_clock wr (Suc (w_tick wr))) # t_audits (w_tbl ?w3)))"
      using assms(9,12,13) by force
    have "RetryChange s cx req w = Some (Inr reread, w')"
      using pre that a(1) load_run_quiet [OF q(2) assms(11)]
      by (simp add: next_do_def [of "load_run _"] next_do_def reading_def time_now_def answer_def)
    moreover have "run_attempts (tq_change_id req) A = Suc ?n"
      using run_attempts_unlinked [OF a(3)] id(2) assms(10) by (simp add: audit_entry_def)
    ultimately show ?thesis using a(2) by simp
  qed
  then show ?thesis using pre by (auto split: option.splits)
qed

section \<open>Settlement on a store that works\<close>

definition settle_verdict :: "tables \<Rightarrow> run_row \<Rightarrow> settle_state" where
  "settle_verdict t run =
     (let matching = filter (\<lambda>a. ap_run_id a = run_id run \<and> (ap_plan_hash a = '''' \<or> ap_plan_hash a = run_plan_hash run)) (t_approvals t) in
      if matching = [] then SettleNone
      else if list_ex (\<lambda>a. ap_status a = ''pending'') matching then SettlePending
      else if list_ex (\<lambda>a. ap_status a = ''rejected'') matching then SettleRejected
      else if list_ex (\<lambda>a. ap_status a = ''approved'') matching then SettleApproved
      else SettleExpired)"

fun verdict_status :: "settle_state \<Rightarrow> string option" where
  "verdict_status SettleApproved = Some ''approved''"
| "verdict_status SettleRejected = Some ''rejected''"
| "verdict_status _ = None"

lemma transition_quiet:
  assumes "quiet w" and "find (\<lambda>r. run_id r = rid) (t_runs (w_tbl w)) = Some run"
  shows "\<exists>at w'. transitionRunForApproval run st st w = Some (Inr (), w') \<and> t_approvals (w_tbl w') = t_approvals (w_tbl w) \<and>
    find (\<lambda>r. run_id r = rid) (t_runs (w_tbl w')) =
      Some (if run_status run \<in> set terminalRunStatuses \<and> run_status run \<noteq> st \<or> run_status run = st \<and> run_approval_status run = st
            then run else settled_row st at run)"
proof -
  have id: "run_id run = rid" "run \<in> set (t_runs (w_tbl w))" using assms(2) by (auto simp: find_Some_iff)
  let ?P = "\<lambda>x. run_id x = rid \<and> run_status x = run_status run"
  let ?stay = "run_status run \<in> set terminalRunStatuses \<and> run_status run \<noteq> st \<or> run_status run = st \<and> run_approval_status run = st"
  have upd: "find (\<lambda>r. run_id r = rid) (update_where ?P (settled_row st at) (t_runs (w_tbl w))) = Some (settled_row st at run)" for at
    using row_update_where [OF assms(2), of "settled_row st at" ?P] id(1) by (simp add: settled_row_def)
  show ?thesis
  proof (cases ?stay)
    case True
    then have "transitionRunForApproval run st st = answer ()" unfolding transitionRunForApproval_def by metis
    then show ?thesis using True assms(2) by (intro exI [of _ 0] exI [of _ w]) (simp add: answer_def)
  next
    case False
    then have c: "\<not> (run_status run \<in> set terminalRunStatuses \<and> run_status run \<noteq> st)" "\<not> (run_status run = st \<and> run_approval_status run = st)"
      by blast+
    let ?at = "w_clock w (w_tick w)"
    let ?w' = "w\<lparr>w_tbl := (w_tbl w)\<lparr>t_runs := update_where ?P (settled_row st ?at) (t_runs (w_tbl w))\<rparr>, w_tick := Suc (Suc (w_tick w))\<rparr>"
    have "transitionRunForApproval run st st w = Some (Inr (), ?w')"
      unfolding transitionRunForApproval_def if_not_P [OF c(1)] if_not_P [OF c(2)]
      using assms(1) id(1)
      by (simp add: next_do_def reading_def time_now_def on_store_def UpdateRunApprovalStatusIf_def stmt_quiet settled_row_def [abs_def] answer_def)
    moreover have "t_runs (w_tbl ?w') = update_where ?P (settled_row st ?at) (t_runs (w_tbl w))" "t_approvals (w_tbl ?w') = t_approvals (w_tbl w)"
      by simp_all
    ultimately show ?thesis unfolding if_not_P [OF False] using upd [of ?at] by (intro exI [of _ ?at] exI [of _ ?w']) (simp only: simp_thms)
  qed
qed

lemma settle_quiet:
  assumes "quiet w" and "rid \<noteq> ''''" and "find (\<lambda>r. run_id r = rid) (t_runs (w_tbl w)) = Some run"
  shows "\<exists>at w'. SettleApproval rid w = Some (Inr (settle_verdict (w_tbl w) run), w') \<and>
    find (\<lambda>r. run_id r = rid) (t_runs (w_tbl w')) = Some (case verdict_status (settle_verdict (w_tbl w) run) of
       None \<Rightarrow> run
     | Some st \<Rightarrow> if run_status run \<in> set terminalRunStatuses \<and> run_status run \<noteq> st \<or> run_status run = st \<and> run_approval_status run = st
          then run else settled_row st at run)"
proof -
  have id: "run_id run = rid" using assms(3) by (auto simp: find_Some_iff)
  let ?w1 = "w\<lparr>w_tick := Suc (w_tick w)\<rparr>"
  let ?w2 = "w\<lparr>w_tick := Suc (Suc (w_tick w))\<rparr>"
  obtain rows where rows: "ListApprovals (rows_filter rid '''') w = (Inr rows, ?w1)"
    unfolding ListApprovals_def query_quiet [OF assms(1)] by blast
  have set: "set rows = {a \<in> set (t_approvals (w_tbl w)). ap_run_id a = rid}"
    using rows_of_run [OF quiet_undisturbed [OF assms(1)] _ assms(2), of Internal rows ?w1] rows by (simp add: on_store_def)
  let ?m = "filter (\<lambda>a. fst (approvalPlanMatch a (run_plan_hash run))) rows"
  let ?n = "filter (\<lambda>a. ap_run_id a = run_id run \<and> (ap_plan_hash a = '''' \<or> ap_plan_hash a = run_plan_hash run)) (t_approvals (w_tbl w))"
  have m: "set ?m = set ?n" using set id by (auto simp: approvalPlanMatch_def MatchesPlan_def split: if_splits)
  have nil: "?m = [] \<longleftrightarrow> ?n = []" using arg_cong [OF m, of "\<lambda>S. S = {}"] by (simp only: set_empty)
  have ex: "list_ex P ?m = list_ex P ?n" for P unfolding list_ex_iff m by simp
  have a: "SettleApproval rid w = (if ?m = [] then answer SettleNone else settle_matching run ?m) (if rows = [] then ?w1 else ?w2)"
    using rows assms(1,3) by (simp add: SettleApproval_def next_do_def on_store_def GetRun_def query_quiet Let_def)
  have ok: "\<exists>at w'. settle_matching run ?m ?w2 = Some (Inr (settle_verdict (w_tbl w) run), w') \<and>
    find (\<lambda>r. run_id r = rid) (t_runs (w_tbl w')) = Some (case verdict_status (settle_verdict (w_tbl w) run) of
       None \<Rightarrow> run
     | Some st \<Rightarrow> if run_status run \<in> set terminalRunStatuses \<and> run_status run \<noteq> st \<or> run_status run = st \<and> run_approval_status run = st
          then run else settled_row st at run)" if "?n \<noteq> []"
  proof -
    have tr: "\<exists>at w'. next_do (transitionRunForApproval run st st) (\<lambda>_. answer v) ?w2 = Some (Inr v, w') \<and>
      find (\<lambda>r. run_id r = rid) (t_runs (w_tbl w')) =
        Some (if run_status run \<in> set terminalRunStatuses \<and> run_status run \<noteq> st \<or> run_status run = st \<and> run_approval_status run = st
              then run else settled_row st at run)" for st v
      using transition_quiet [of ?w2 rid run st] assms(1,3) by (auto simp: next_do_def answer_def)
    have fi: "find (\<lambda>r. run_id r = rid) (t_runs (w_tbl ?w2)) = Some run" using assms(3) by simp
    show ?thesis
    proof (cases "settle_verdict (w_tbl w) run")
      case SettleApproved
      then have "settle_matching run ?m = next_do (transitionRunForApproval run ''approved'' ''approved'') (\<lambda>_. answer SettleApproved)"
        unfolding settle_matching_def settle_verdict_def Let_def ex by (simp split: if_splits)
      then show ?thesis using tr [of "''approved''" SettleApproved] SettleApproved by simp
    next
      case SettleRejected
      then have "settle_matching run ?m = next_do (transitionRunForApproval run ''rejected'' ''rejected'') (\<lambda>_. answer SettleRejected)"
        unfolding settle_matching_def settle_verdict_def Let_def ex by (simp split: if_splits)
      then show ?thesis using tr [of "''rejected''" SettleRejected] SettleRejected by simp
    next
      case SettleNone
      then show ?thesis using that unfolding settle_verdict_def Let_def by (simp split: if_splits)
    next
      case SettlePending
      then have "settle_matching run ?m = answer SettlePending"
        unfolding settle_matching_def settle_verdict_def Let_def ex by (simp split: if_splits)
      then show ?thesis using fi SettlePending by (simp add: answer_def)
    next
      case SettleExpired
      then have "settle_matching run ?m = answer SettleExpired"
        unfolding settle_matching_def settle_verdict_def Let_def ex by (simp split: if_splits)
      then show ?thesis using fi SettleExpired by (simp add: answer_def)
    qed
  qed
  have n: "settle_verdict (w_tbl w) run = SettleNone" if "?n = []" using that by (simp add: settle_verdict_def)
  show ?thesis
  proof (cases "?n = []")
    case True
    have "SettleApproval rid w = Some (Inr SettleNone, if rows = [] then ?w1 else ?w2)" using a nil True by (simp add: answer_def)
    moreover have "w_tbl (if rows = [] then ?w1 else ?w2) = w_tbl w" by simp
    ultimately show ?thesis unfolding n [OF True] using assms(3)
      by (intro exI [of _ 0] exI [of _ "if rows = [] then ?w1 else ?w2"]) (simp only: verdict_status.simps option.case simp_thms)
  next
    case False
    have "rows \<noteq> []" "?m \<noteq> []" using False nil by auto
    then show ?thesis using a ok [OF False] by (simp only: if_False)
  qed
qed

text \<open>
  Settlement mirrors the approval rows. When nothing fails, the outcome is the one the rows of the change's
  current plan give: pending as long as one of them is pending, else rejected by a veto, else approved, else expired;
  and the run takes an approved or rejected outcome unless it is in one of the listed states. Paused is not
  among them: a paused change for which a late vote completes an approval is approved again.
\<close>

theorem settle_outcome:
  assumes "quiet w" and "rid \<noteq> ''''" and "find (\<lambda>r. run_id r = rid) (t_runs (w_tbl w)) = Some run"
  shows "\<exists>at w'. SettleApproval rid w = Some (Inr (settle_verdict (w_tbl w) run), w') \<and>
    find (\<lambda>r. run_id r = rid) (t_runs (w_tbl w')) = Some (case verdict_status (settle_verdict (w_tbl w) run) of
       None \<Rightarrow> run
     | Some st \<Rightarrow> if run_status run \<in> set terminalRunStatuses \<and> run_status run \<noteq> st \<or> run_status run = st \<and> run_approval_status run = st
          then run else settled_row st at run)"
  using settle_quiet [OF assms] .

section \<open>The vote that completes the quorum\<close>

lemma pending_rows:
  assumes "quiet w" and "rid \<noteq> ''''" and "filter (\<lambda>a. ap_run_id a = rid) (t_approvals (w_tbl w)) = [row]" and "ap_status row = ''pending''"
  shows "ListApprovals (rows_filter rid ''pending'') w = (Inr [row], w\<lparr>w_tick := Suc (w_tick w)\<rparr>)"
proof -
  have "filter (approval_matches (rows_filter rid ''pending'')) (t_approvals (w_tbl w)) =
      filter (\<lambda>a. ap_status a = ''pending'') (filter (\<lambda>a. ap_run_id a = rid) (t_approvals (w_tbl w)))"
    using assms(2) by (auto simp: approval_matches_def rows_filter_def opt_eq_def conj_commute intro: filter_cong)
  then show ?thesis using assms by (simp add: ListApprovals_def query_quiet limit_rows_def rows_filter_def)
qed

lemma voted_verdict:
  assumes "ballot_only i t t'" and "sound jc t'" and "record_at jc t' i = Some b" and "ballot_terms b = ballot_terms a"
    and "ApprovalFromState jc row = Inr a" and "ap_id row = i" and "filter (\<lambda>a. ap_run_id a = rid) (t_approvals t) = [row]"
    and "run_id run = rid" and "ap_plan_hash row = '''' \<or> ap_plan_hash row = run_plan_hash run" and "av_status b = ApprovalApproved"
  shows "settle_verdict t' run = SettleApproved"
proof -
  let ?M = "\<lambda>x. ap_run_id x = rid \<and> (ap_plan_hash x = '''' \<or> ap_plan_hash x = run_plan_hash run)"
  obtain row' where r: "find (\<lambda>sa. ap_id sa = i) (t_approvals t') = Some row'" "ApprovalFromState jc row' = Inr b"
    using assms(3) by (auto simp: record_at_def split: option.splits sum.splits)
  have cols: "av_run_id x = ap_run_id y" "av_plan_hash x = ap_plan_hash y" "av_status x = ap_status y" if "ApprovalFromState jc y = Inr x" for x y
    using that by (auto simp: ApprovalFromState_def with_extra_def split: if_splits option.splits)
  have row: "row \<in> set (t_approvals t)" "ap_run_id row = rid" using assms(7) by (auto simp: filter_eq_Cons_iff)
  have r': "row' \<in> set (t_approvals t')" "ap_id row' = i" "ap_run_id row' = rid" "ap_plan_hash row' = ap_plan_hash row" "ap_status row' = ''approved''"
    using r assms(4,10) cols [OF r(2)] cols [OF assms(5)] row(2) by (auto simp: find_Some_iff ballot_terms_def ApprovalApproved_def)
  have only: "x = row'" if "x \<in> set (t_approvals t')" "ap_run_id x = rid" for x
  proof (rule ccontr)
    assume "x \<noteq> row'"
    then have "ap_id x \<noteq> i" using assms(2) that(1) r' by (auto simp: sound_def key_unique_def distinct_map inj_on_def)
    then have "x \<in> set (filter (\<lambda>a. ap_id a \<noteq> i) (t_approvals t'))" using that(1) by simp
    then have "x \<in> set (filter (\<lambda>a. ap_id a \<noteq> i) (t_approvals t))" using assms(1) by (simp only: ballot_only_def)
    then have "x \<in> set (filter (\<lambda>a. ap_run_id a = rid) (t_approvals t))" using that(2) by simp
    then show False using assms(6,7) \<open>ap_id x \<noteq> i\<close> by simp
  qed
  let ?n = "filter (\<lambda>a. ap_run_id a = run_id run \<and> (ap_plan_hash a = '''' \<or> ap_plan_hash a = run_plan_hash run)) (t_approvals t')"
  have mem: "row' \<in> set ?n" using r' assms(8,9) by simp
  have "x = row'" if "x \<in> set ?n" for x
  proof -
    have "x \<in> set (t_approvals t')" "ap_run_id x = rid" using that assms(8) by simp_all
    then show ?thesis by (rule only)
  qed
  with mem have one: "set ?n = {row'}" by blast
  have "?n \<noteq> []" using length_pos_if_in_set [OF mem] by (metis length_greater_0_conv)
  moreover have "list_ex P ?n = P row'" for P unfolding list_ex_iff one by simp
  ultimately show ?thesis using r'(5) by (simp add: settle_verdict_def Let_def)
qed

lemma approve_parts:
  assumes "quiet w" and "find (\<lambda>r. run_id r = vq_change_id req) (t_runs (w_tbl w)) = Some run" and "permits s cx (envOf run) ActionApproveChange"
    and "cx_subject cx \<noteq> ''''" and "vq_voter req \<in> {'''', cx_subject cx}" and "run_plan_json run \<noteq> ''''" and "sv_approval s = Some ap"
    and "filter (\<lambda>a. ap_run_id a = vq_change_id req) (t_approvals (w_tbl w)) = [row]" and "ap_status row = ''pending''" and "vq_change_id req \<noteq> ''''"
    and "Approve ap (ap_id row) (cx_subject cx) (w\<lparr>w_tick := Suc (Suc (Suc (w_tick w)))\<rparr>) = (Inr (), w4)"
    and "SettleApproval (vq_change_id req) w4 = Some (Inr settled, w5)" and "quiet w5"
    and "find (\<lambda>r. run_id r = vq_change_id req) (t_runs (w_tbl w5)) = Some run1"
  shows "ApproveChange s cx req w = next_do (audit_now s (run_id run1) AuditActionApprove (cx_subject cx) (run_id run1)
      (if settled = SettlePending then AuditResultQuorumPending else StatusApproved) (w_clock w (Suc (w_tick w)))) (\<lambda>_. answer run1)
      (w5\<lparr>w_tick := Suc (w_tick w5)\<rparr>)"
proof -
  let ?w2 = "w\<lparr>w_tick := Suc (Suc (w_tick w))\<rparr>"
  have v: "voter_of cx req = answer (cx_subject cx)" using assms(4,5) by (auto simp: voter_of_def requireSubject_def)
  have l: "ListApprovals (rows_filter (vq_change_id req) ''pending'') ?w2 = (Inr [row], w\<lparr>w_tick := Suc (Suc (Suc (w_tick w)))\<rparr>)"
    using pending_rows [of ?w2 "vq_change_id req" row] assms(1,8-10) by simp
  have c: "cast_and_settle (vq_change_id req) (\<lambda>i. Approve ap i (cx_subject cx)) ?w2 = Some (Inr settled, w5)"
    using l assms(11,12) by (simp add: cast_and_settle_def next_do_def on_store_def reading_def)
  have r: "reload_run (vq_change_id req) w5 = Some (Inr run1, w5\<lparr>w_tick := Suc (w_tick w5)\<rparr>)"
    using assms(13,14) by (simp add: reload_run_def next_do_def on_store_def GetRun_def query_quiet answer_def)
  show ?thesis using load_run_quiet [OF assms(1,2)] assms(3,6,7) v c r
    by (simp add: ApproveChange_def next_do_def [of "load_run _"] authorize_def authorizeResource_permits next_do_def [of "reading _"]
        reading_def time_now_def next_do_def [of "cast_and_settle _ _"] next_do_def [of "reload_run _"])
qed

lemma settles_kept:
  assumes "settles rid t t'"
  shows "t_audits t' = t_audits t" "t_approvals t' = t_approvals t"
  using assms by (auto simp: settles_def)

lemma last_vote:
  assumes "calm_time w" and "codec_ok jc" and "sound jc (w_tbl w)" and "chain_ready (sv_fuel s) w"
    and "Suc (length (t_audits (w_tbl w))) < sv_fuel s"
    and "\<forall>n. \<exists>x. w_rand w n = Some x \<and> ''aud-'' @ x \<notin> au_id ` set (t_audits (w_tbl w))"
    and "find (\<lambda>r. run_id r = vq_change_id req) (t_runs (w_tbl w)) = Some run" and "run_status run \<notin> set terminalRunStatuses"
    and "run_plan_json run \<noteq> ''''" and "vq_change_id req \<noteq> ''''" and "permits s cx (envOf run) ActionApproveChange"
    and "cx_subject cx \<noteq> ''''" and "utf8_valid (cx_subject cx)" and "vq_voter req \<in> {'''', cx_subject cx}"
    and "sv_approval s = Some (NewService (approvalStoreAdapter jc))"
    and "filter (\<lambda>a. ap_run_id a = vq_change_id req) (t_approvals (w_tbl w)) = [row]" and "ApprovalFromState jc row = Inr a"
    and "ap_plan_hash row = '''' \<or> ap_plan_hash row = run_plan_hash run"
    and "av_status a = ApprovalPending" and "may_vote a (cx_subject cx)" and "\<not> hasDecided (av_decisions a) (cx_subject cx)"
    and "int (length (av_decisions a)) + 1 = max 1 (av_min_approvers a)"
  shows "\<exists>run' w'. ApproveChange s cx req w = Some (Inr run', w') \<and>
    find (\<lambda>r. run_id r = vq_change_id req) (t_runs (w_tbl w')) = Some run' \<and> run_status run' = StatusApproved \<and>
    run_plan_hash run' = run_plan_hash run"
proof -
  let ?rid = "vq_change_id req"
  let ?w3 = "w\<lparr>w_tick := Suc (Suc (Suc (w_tick w)))\<rparr>"
  have q: "quiet w" and c3: "calm_time ?w3" using assms(1) by (simp_all add: calm_time_def)
  have u3: "undisturbed ?w3" using c3 quiet_undisturbed by (auto simp: calm_time_def)
  have row: "row \<in> set (t_approvals (w_tbl w))" using assms(16) by (auto simp: filter_eq_Cons_iff)
  have rec: "record_at jc (w_tbl ?w3) (ap_id row) = Some a" using record_at_row [OF _ row assms(17)] assms(3) by (simp add: sound_def)
  have "\<exists>w4 b. approve_all (NewService (approvalStoreAdapter jc)) (ap_id row) [cx_subject cx] ?w3 = (replicate (length [cx_subject cx]) (Inr ()), w4) \<and>
      record_at jc (w_tbl w4) (ap_id row) = Some b \<and> ballot_terms b = ballot_terms a \<and>
      map dc_approver (av_decisions b) = map dc_approver (av_decisions a) @ [cx_subject cx] \<and>
      av_status b = (if int (length (av_decisions b)) = max 1 (av_min_approvers b) then ApprovalApproved else ApprovalPending)"
    by (rule approve_all_quiet [OF assms(2) c3 _ rec assms(19)]) (use assms(3,13,20-22) in simp_all)
  then obtain w4 b where v: "Approve (NewService (approvalStoreAdapter jc)) (ap_id row) (cx_subject cx) ?w3 = (Inr (), w4)"
    "record_at jc (w_tbl w4) (ap_id row) = Some b" "ballot_terms b = ballot_terms a"
    "map dc_approver (av_decisions b) = map dc_approver (av_decisions a) @ [cx_subject cx]"
    "av_status b = (if int (length (av_decisions b)) = max 1 (av_min_approvers b) then ApprovalApproved else ApprovalPending)"
    by (auto split: prod.splits)
  have len: "length (av_decisions b) = Suc (length (av_decisions a))" using arg_cong [OF v(4), of length] by simp
  have st: "av_status b = ApprovalApproved" using v(3,5) assms(22) len by (simp add: ballot_terms_def)
  note d = v(1) [unfolded Approve_def decide_def]
  have f4: "framed (ballot_only (ap_id row)) ?w3 w4" using decide_ballot_only [OF u3 d] .
  have "framed (votes jc) ?w3 w4"
    by (rule vote_frame [OF assms(2) u3 _ assms(13) _ _ v(1) [unfolded Approve_def]]) (use assms(1) in \<open>simp_all add: calm_time_def\<close>)
  then have s4: "sound jc (w_tbl w4)" "t_runs (w_tbl w4) = t_runs (w_tbl w)" using assms(3) by (simp_all add: framed_def votes_def)
  have q4: "quiet w4" using framed_env(2) [OF f4] q by simp
  have fi: "find (\<lambda>r. run_id r = ?rid) (t_runs (w_tbl w4)) = Some run" using s4(2) assms(7) by simp
  have rid: "run_id run = ?rid" using assms(7) by (auto simp: find_Some_iff)
  have vd: "settle_verdict (w_tbl w4) run = SettleApproved"
    using voted_verdict [OF _ s4(1) v(2,3) assms(17) refl _ rid assms(18) st, of "w_tbl w"] f4 assms(16) by (simp add: framed_def)
  obtain at w5 where s5: "SettleApproval ?rid w4 = Some (Inr SettleApproved, w5)"
    "find (\<lambda>r. run_id r = ?rid) (t_runs (w_tbl w5)) = Some (settled_row ''approved'' at run)"
    using settle_quiet [OF q4 assms(10) fi] assms(8) unfolding vd by (auto simp: terminalRunStatuses_def StatusApproved_def)
  have f5: "framed (settles ?rid) w4 w5" using settlement_frame [OF quiet_undisturbed [OF q4] assms(10) s5(1)] .
  have au: "t_audits (w_tbl w5) = t_audits (w_tbl w)" using f5 f4 settles_kept(1) ballot_onlyD(2) by (auto simp: framed_def)
  have env: "same_env w w5" using f4 f5 same_env_trans by (auto simp: framed_def same_env_def)
  have q5: "quiet w5" using framed_env(2) [OF f5] q4 by simp
  obtain x where x: "w_rand w5 (Suc (w_tick w5)) = Some x" "''aud-'' @ x \<notin> au_id ` set (t_audits (w_tbl w5))"
    using assms(6) env au by (auto simp: same_env_def)
  have ready: "chain_ready (sv_fuel s) (w5\<lparr>w_tick := Suc (w_tick w5)\<rparr>)" using assms(4) q5 au by (simp add: chain_ready_def)
  let ?run1 = "settled_row ''approved'' at run"
  obtain w' A k where a: "audit_now s (run_id ?run1) AuditActionApprove (cx_subject cx) (run_id ?run1)
      StatusApproved (w_clock w (Suc (w_tick w))) (w5\<lparr>w_tick := Suc (w_tick w5)\<rparr>) = Some (Inr (), w')"
    "w' = w5\<lparr>w_tbl := (w_tbl w5)\<lparr>t_audits := A\<rparr>, w_tick := k\<rparr>"
    using audit_now_ready [OF ready, of x "run_id ?run1" AuditActionApprove "cx_subject cx" "run_id ?run1" StatusApproved
        "w_clock w (Suc (w_tick w))"] assms(5) x au by auto
  have stat: "ap_status row = ''pending''" using decoded_fields(2) [OF assms(17)] assms(19) by (simp add: ApprovalPending_def)
  have "ApproveChange s cx req w = Some (Inr ?run1, w')"
    using approve_parts [OF q assms(7,11,12,14,9,15,16) stat assms(10) v(1) s5(1) q5 s5(2)] a(1) by (simp add: next_do_def answer_def)
  moreover have "find (\<lambda>r. run_id r = ?rid) (t_runs (w_tbl w')) = Some ?run1" using s5(2) a(2) by simp
  ultimately show ?thesis by (auto simp: settled_row_def StatusApproved_def)
qed

text \<open>
  C14. The last vote approves the change. On a store that works, when somebody who may vote and has not voted casts through
  \<^verbatim>\<open>ApproveChange\<close> the vote that completes the quorum of the one approval record of a change that is not settled yet,
  then the call succeeds, the change is approved and keeps its plan.
\<close>

theorem last_vote_approves:
  assumes "calm_time w" and "codec_ok jc" and "sound jc (w_tbl w)" and "chain_ready (sv_fuel s) w"
    and "Suc (length (t_audits (w_tbl w))) < sv_fuel s"
    and "\<forall>n. \<exists>x. w_rand w n = Some x \<and> ''aud-'' @ x \<notin> au_id ` set (t_audits (w_tbl w))"
    and "find (\<lambda>r. run_id r = vq_change_id req) (t_runs (w_tbl w)) = Some run" and "run_status run \<notin> set terminalRunStatuses"
    and "run_plan_json run \<noteq> ''''" and "vq_change_id req \<noteq> ''''" and "permits s cx (envOf run) ActionApproveChange"
    and "cx_subject cx \<noteq> ''''" and "utf8_valid (cx_subject cx)" and "vq_voter req \<in> {'''', cx_subject cx}"
    and "sv_approval s = Some (NewService (approvalStoreAdapter jc))"
    and "filter (\<lambda>a. ap_run_id a = vq_change_id req) (t_approvals (w_tbl w)) = [row]" and "ApprovalFromState jc row = Inr a"
    and "ap_plan_hash row = '''' \<or> ap_plan_hash row = run_plan_hash run"
    and "av_status a = ApprovalPending" and "may_vote a (cx_subject cx)" and "\<not> hasDecided (av_decisions a) (cx_subject cx)"
    and "int (length (av_decisions a)) + 1 = max 1 (av_min_approvers a)"
  shows "\<exists>run' w'. ApproveChange s cx req w = Some (Inr run', w') \<and>
    find (\<lambda>r. run_id r = vq_change_id req) (t_runs (w_tbl w')) = Some run' \<and> run_status run' = StatusApproved \<and>
    run_plan_hash run' = run_plan_hash run"
  using last_vote [OF assms] .

section \<open>Witnesses\<close>

definition solo_demo :: approval where
  "solo_demo = ballot_demo\<lparr>av_run_id := ''c1'', av_min_approvers := 1, av_plan_hash := ComputePlanHash demo_digest (demo_plan ''standard'')\<rparr>"

definition solo_row :: approval_row where
  "solo_row = the (StateApproval plain_codec solo_demo)"

definition vote_world :: world where
  "vote_world = (still_world (no_rows\<lparr>t_runs := [demo_change StatusDraft ''standard''], t_approvals := [solo_row]\<rparr>))\<lparr>w_clock := (\<lambda>_. 10)\<rparr>"

definition vote_service :: change_service where
  "vote_service = demo_service (Some (NewService (approvalStoreAdapter plain_codec))) ''standard'' ''execute''"

definition alice_ctx :: call_context where "alice_ctx = \<lparr>cx_subject = ''alice'', cx_actor = ''alice''\<rparr>"

definition alice_votes :: vote_request where "alice_votes = \<lparr>vq_change_id = ''c1'', vq_voter = '''', vq_reason = ''''\<rparr>"

lemma solo_row:
  "ApprovalFromState plain_codec solo_row = Inr solo_demo" "approval_ok solo_demo" "ap_run_id solo_row = ''c1''"
  "ap_plan_hash solo_row = ComputePlanHash demo_digest (demo_plan ''standard'')"
proof -
  show ok: "approval_ok solo_demo" using ballot_demo_ok
    by (simp add: solo_demo_def approval_ok_def ballot_demo_def text_ok_def extra_of_def entitled_def vetoed_def quorum_def countApproves_def count_where_def)
  obtain sa where sa: "StateApproval plain_codec solo_demo = Some sa" "ApprovalFromState plain_codec sa = Inr solo_demo"
    using decode_fresh [OF plain_codec_ok] ok by (auto simp: approval_ok_def)
  then show "ApprovalFromState plain_codec solo_row = Inr solo_demo" by (simp add: solo_row_def)
  show "ap_run_id solo_row = ''c1''" "ap_plan_hash solo_row = ComputePlanHash demo_digest (demo_plan ''standard'')"
    using sa(1) by (auto simp: solo_row_def solo_demo_def StateApproval_def Let_def split: option.splits prod.splits)
qed

lemma vote_world_simps [simp]:
  "t_runs (w_tbl vote_world) = [demo_change StatusDraft ''standard'']" "t_approvals (w_tbl vote_world) = [solo_row]"
  "t_audits (w_tbl vote_world) = []" "w_rand vote_world n = Some (itoa n)" "w_clock vote_world n = 10"
  by (simp_all add: vote_world_def)

lemma vote_world_ok:
  "calm_time vote_world" "undisturbed vote_world" "sound plain_codec (w_tbl vote_world)" "chain_ready 2 vote_world" "time_ok (w_clock vote_world n)"
proof -
  show c: "calm_time vote_world" by (simp add: calm_time_def vote_world_def quiet_def still_world_def time_ok_def)
  then show "undisturbed vote_world" using quiet_undisturbed by (auto simp: calm_time_def)
  show "sound plain_codec (w_tbl vote_world)" using solo_row by (simp add: sound_def row_ok_def)
  show "chain_ready 2 vote_world" using c by (simp add: chain_ready_def calm_time_def)
  show "time_ok (w_clock vote_world n)" using c by (simp add: calm_time_def)
qed

lemma alice_facts:
  "run_status (demo_change StatusDraft ''standard'') \<notin> set terminalRunStatuses" "may_vote solo_demo ''alice''"
  "\<not> hasDecided (av_decisions solo_demo) ''alice''" "av_status solo_demo = ApprovalPending"
  "int (length (av_decisions solo_demo)) + 1 = max 1 (av_min_approvers solo_demo)" "utf8_valid ''alice''"
proof -
  show "run_status (demo_change StatusDraft ''standard'') \<notin> set terminalRunStatuses" by simp code_simp
  show "may_vote solo_demo ''alice''" "\<not> hasDecided (av_decisions solo_demo) ''alice''" "av_status solo_demo = ApprovalPending"
    "int (length (av_decisions solo_demo)) + 1 = max 1 (av_min_approvers solo_demo)" "utf8_valid ''alice''"
    by (simp_all add: solo_demo_def ballot_demo_def may_vote_def isAuthorized_def hasDecided_def byte_in_def)
qed

lemma alice_vote:
  "\<exists>run' w'. ApproveChange vote_service alice_ctx alice_votes vote_world = Some (Inr run', w') \<and>
     find (\<lambda>r. run_id r = vq_change_id alice_votes) (t_runs (w_tbl w')) = Some run' \<and> run_status run' = StatusApproved \<and>
     run_plan_hash run' = run_plan_hash (demo_change StatusDraft ''standard'')"
proof (rule last_vote [OF vote_world_ok(1) plain_codec_ok vote_world_ok(3), where row = solo_row and a = solo_demo])
  show "chain_ready (sv_fuel vote_service) vote_world" using vote_world_ok(4) by (simp add: vote_service_def demo_service_def)
qed (use alice_facts solo_row in \<open>simp_all add: vote_service_def alice_ctx_def alice_votes_def demo_service_def permits_def\<close>)

theorem last_vote_approves_witness:
  "\<exists>run' w'. ApproveChange vote_service alice_ctx alice_votes vote_world = Some (Inr run', w') \<and> run_status run' = StatusApproved"
proof -
  have "\<exists>run' w'. ApproveChange vote_service alice_ctx alice_votes vote_world = Some (Inr run', w') \<and>
     find (\<lambda>r. run_id r = vq_change_id alice_votes) (t_runs (w_tbl w')) = Some run' \<and> run_status run' = StatusApproved \<and>
     run_plan_hash run' = run_plan_hash (demo_change StatusDraft ''standard'')"
  proof (rule last_vote_approves [OF vote_world_ok(1) plain_codec_ok vote_world_ok(3), where row = solo_row and a = solo_demo])
    show "chain_ready (sv_fuel vote_service) vote_world" using vote_world_ok(4) by (simp add: vote_service_def demo_service_def)
  qed (use alice_facts solo_row in \<open>simp_all add: vote_service_def alice_ctx_def alice_votes_def demo_service_def permits_def\<close>)
  then show ?thesis by blast
qed


definition old_row :: approval_row where
  "old_row = \<lparr>ap_id = ''a0'', ap_run_id = ''c1'', ap_level = ''standard'', ap_approver = ''alice'', ap_status = ''approved'', ap_comment = '''',
     ap_timeout_at = None, ap_acted_at = None, ap_plan_hash = '''', ap_revision = 1, ap_tenant_id = ''''\<rparr>"

definition paused_world :: world where
  "paused_world = still_world (no_rows\<lparr>t_runs := [demo_change StatusPaused ''standard''], t_approvals := [old_row]\<rparr>)"

lemma paused_world_simps [simp]:
  "t_runs (w_tbl paused_world) = [demo_change StatusPaused ''standard'']" "t_approvals (w_tbl paused_world) = [old_row]" "quiet paused_world"
  by (simp_all add: paused_world_def)

text \<open>A paused change is moved to approved.\<close>

theorem settle_outcome_witness:
  "\<exists>w' at. SettleApproval ''c1'' paused_world = Some (Inr SettleApproved, w') \<and>
     find (\<lambda>r. run_id r = ''c1'') (t_runs (w_tbl w')) = Some (settled_row ''approved'' at (demo_change StatusPaused ''standard''))"
proof -
  have v: "settle_verdict (w_tbl paused_world) (demo_change StatusPaused ''standard'') = SettleApproved"
    by (simp add: settle_verdict_def old_row_def)
  have "StatusPaused \<notin> set terminalRunStatuses" "StatusPaused \<noteq> ''approved''" by code_simp+
  then show ?thesis using settle_outcome [of paused_world "''c1''" "demo_change StatusPaused ''standard''"] unfolding v by auto
qed

theorem settlement_follows_decisions_witness:
  "\<exists>r w'. SettleApproval ''c1'' paused_world = Some (r, w') \<and> settles ''c1'' (w_tbl paused_world) (w_tbl w')"
proof -
  obtain r w' where s: "SettleApproval ''c1'' paused_world = Some (r, w')"
    using settle_quiet [of paused_world "''c1''" "demo_change StatusPaused ''standard''"] by auto
  then show ?thesis using settlement_follows_decisions [OF quiet_undisturbed _ s] by (auto simp: framed_def)
qed

definition retry_service :: "retry_failure option \<Rightarrow> change_service" where
  "retry_service res = (demo_service None ''standard'' ''execute'')\<lparr>sv_engine := Some ((demo_engine ''standard'' ''execute'')
     \<lparr>en_retry := Some (\<lambda>i replan hs w. (res, w))\<rparr>)\<rparr>"

text \<open>A retry whose execution failed is reported as an error and is not counted.\<close>

theorem retry_outcome_witness:
  "\<exists>w'. RetryChange (retry_service (Some RetryFailed)) demo_ctx \<lparr>tq_change_id = ''c1'', tq_replan = False, tq_target_hosts = [''h'']\<rparr>
       (change_world (demo_change StatusFailed ''standard'')) = Some (Inl Internal, w') \<and> run_attempts ''c1'' (t_audits (w_tbl w')) = 0"
proof -
  let ?w = "change_world (demo_change StatusFailed ''standard'')"
  let ?req = "\<lparr>tq_change_id = ''c1'', tq_replan = False, tq_target_hosts = [''h'']\<rparr>"
  have au: "t_audits (w_tbl ?w) = []" by (simp add: change_world_def)
  have adm: "InRetryAdmitted StatusFailed" by code_simp
  have "RetryChange (retry_service (Some RetryFailed)) demo_ctx ?req ?w = Some (Inl Internal, ?w\<lparr>w_tick := Suc (Suc (w_tick ?w))\<rparr>)"
    using retry_outcome [where s = "retry_service (Some RetryFailed)" and w = ?w and req = ?req and run = "demo_change StatusFailed ''standard''"
        and reread = "demo_change StatusFailed ''standard''" and cx = demo_ctx and res = "Some RetryFailed"
        and wr = "?w\<lparr>w_tick := Suc (Suc (w_tick ?w))\<rparr>" and retry = "\<lambda>i replan hs w. (Some RetryFailed, w)"] adm au
    by (simp add: retry_service_def demo_service_def engine_retry_fn_def permits_def chain_ready_def key_unique_def run_attempts_def count_where_def)
      (simp add: change_world_def)
  then show ?thesis using au by (simp add: run_attempts_def count_where_def)
qed

end
