(* ===== verification/Plan_Generator.thy ===== *)
theory Plan_Generator
  imports Plan_Hash Risk Go_Text
begin

text \<open>
  \<^verbatim>\<open>internal/plan/generator.go\<close> and \<^verbatim>\<open>targetcaps.go\<close> with what they call: the order of the steps (\<^verbatim>\<open>internal/dsl/depends.go\<close>),
  what counts as irreversible (\<^verbatim>\<open>inherent_irreversible.go\<close>, \<^verbatim>\<open>plugin_policy.go\<close>, \<^verbatim>\<open>internal/executor/irreversible.go\<close>), the scope of a
  rollback (\<^verbatim>\<open>rollback_scope.go\<close>) and the scoring of the plan (\<^verbatim>\<open>assessPlanRisk\<close> of \<^verbatim>\<open>internal/wiring/plan.go\<close>). A workflow has the
  fields planning reads; its inputs and its change window are not among them. Sets of keys are lists. \<^verbatim>\<open>int\<close> has 64 bits. The sum type
  has the errors on the left, and \<open>None\<close> is a panic.
\<close>

section \<open>The workflow\<close>

definition BatchStrategyPercent :: string where "BatchStrategyPercent = ''percent''"
definition BatchStrategyFixed :: string where "BatchStrategyFixed = ''fixed''"
definition BatchStrategySerial :: string where "BatchStrategySerial = ''serial''"
definition BatchStrategyOnePerTarget :: string where "BatchStrategyOnePerTarget = ''one-per-target''"

lemmas strategy_defs = BatchStrategyPercent_def BatchStrategyFixed_def BatchStrategySerial_def BatchStrategyOnePerTarget_def

record target_group =
  tg_name :: string
  tg_hosts :: "string list"
  tg_query :: string
  tg_type :: string
  tg_min_count :: int
  tg_max_count :: int

record batch_config =
  bc_strategy :: string
  bc_max_concurrency :: int
  bc_serial :: bool
  bc_steps :: "int list"
  bc_gate :: "gate_spec option"

record workflow =
  wf_name :: string
  wf_targets :: "target_group list"
  wf_batches :: batch_config
  wf_steps :: "dsl_step list"
  wf_rollback :: "rollback_spec option"
  wf_approval :: "approval_spec option"
  wf_gate :: "gate_spec option"
  wf_snapshot :: "run_snapshot_spec option"
  wf_allow_irreversible :: "string list"

datatype validation_error =
    ScopeStrategy string
  | ScopeSteps nat
  | ScopeSnapshotPaths nat
  | OnFailureIllegal string
  | UnknownDependency nat string string
  | SelfDependency nat string
  | DependencyCycle "string list"

datatype generate_error =
    WorkflowIsNil
  | NoTargets
  | RollbackOutOfScope validation_error
  | IrreversibleNotAllowed string string
  | UnknownStrategy string
  | BadDependencies validation_error
  | QueryGroupUnattributable string
  | TooFewHosts string int int
  | TooManyHosts string int int
  | NoPlanID

section \<open>Irreversible actions\<close>

definition action_key :: "string \<Rightarrow> string \<Rightarrow> string" where
  "action_key module action = module @ ''.'' @ action"

text \<open>\<^verbatim>\<open>strings.Cut\<close> at the first dot.\<close>

definition cut_dot :: "string \<Rightarrow> string \<times> string \<times> bool" where
  "cut_dot s = (if CHR ''.'' \<in> set s then (takeWhile (\<lambda>c. c \<noteq> CHR ''.'') s, tl (dropWhile (\<lambda>c. c \<noteq> CHR ''.'') s), True) else (s, '''', False))"

definition DefaultIrreversibleActions :: "string list" where
  "DefaultIrreversibleActions = [''file.delete'', ''mysql.pt_osc'', ''mysql.replica_switch'', ''pkg.remove'', ''user.remove'']"

definition IsInherentIrreversible :: "string \<Rightarrow> string \<Rightarrow> bool" where
  "IsInherentIrreversible module action \<longleftrightarrow> action_key module action \<in> set DefaultIrreversibleActions"

record plugin_policy =
  pp_destructive :: "string list"
  pp_reversible :: "string list"
  pp_modules :: "string list"

definition splitWhitelistKey :: "string \<Rightarrow> (string \<times> string) option" where
  "splitWhitelistKey key = (case cut_dot key of (module, action, found) \<Rightarrow>
     if \<not> found \<or> module = '''' \<or> action = '''' then None else Some (module, action))"

definition normalizeActionKey :: "string \<Rightarrow> string option" where
  "normalizeActionKey key = (case splitWhitelistKey (trim_space key) of None \<Rightarrow> None | Some (module, action) \<Rightarrow> Some (action_key module action))"

definition NewPluginActionPolicy :: "string list \<Rightarrow> string list \<Rightarrow> string list \<Rightarrow> plugin_policy" where
  "NewPluginActionPolicy destructive reversible modules =
    \<lparr>pp_destructive = List.map_filter normalizeActionKey destructive, pp_reversible = List.map_filter normalizeActionKey reversible,
     pp_modules = filter (\<lambda>n. n \<noteq> '''') (map trim_space modules)\<rparr>"

definition JudgesIrreversible :: "plugin_policy \<Rightarrow> string \<Rightarrow> string \<Rightarrow> bool" where
  "JudgesIrreversible p module action =
    (if action_key module action \<in> set (pp_destructive p) then True
     else if module \<notin> set (pp_modules p) then False
     else action_key module action \<notin> set (pp_reversible p))"

record irreversible_checker =
  ic_whitelist :: "string list"
  ic_plugin_modules :: "string list"
  ic_plugin_reversible :: "string list"

record irreversible_result =
  ir_irreversible :: bool
  ir_reason :: string
  ir_suggest_level :: string

definition NewIrreversibleChecker :: irreversible_checker where
  "NewIrreversibleChecker = \<lparr>ic_whitelist = [], ic_plugin_modules = [], ic_plugin_reversible = []\<rparr>"

definition RegisterWhitelist :: "string \<Rightarrow> string \<Rightarrow> irreversible_checker \<Rightarrow> irreversible_checker" where
  "RegisterWhitelist module action c = c\<lparr>ic_whitelist := List.insert (action_key module action) (ic_whitelist c)\<rparr>"

definition UnregisterWhitelist :: "string \<Rightarrow> string \<Rightarrow> irreversible_checker \<Rightarrow> irreversible_checker" where
  "UnregisterWhitelist module action c = c\<lparr>ic_whitelist := removeAll (action_key module action) (ic_whitelist c)\<rparr>"

definition RegisterPluginModule :: "string \<Rightarrow> irreversible_checker \<Rightarrow> irreversible_checker" where
  "RegisterPluginModule module c = (if module = '''' then c else c\<lparr>ic_plugin_modules := List.insert module (ic_plugin_modules c)\<rparr>)"

definition RegisterReversibleAction :: "string \<Rightarrow> string \<Rightarrow> irreversible_checker \<Rightarrow> irreversible_checker" where
  "RegisterReversibleAction module action c = (if module = '''' \<or> action = '''' then c
     else c\<lparr>ic_plugin_reversible := List.insert (action_key module action) (ic_plugin_reversible c)\<rparr>)"

definition RegisterPolicy :: "plugin_policy \<Rightarrow> irreversible_checker \<Rightarrow> irreversible_checker" where
  "RegisterPolicy p c = c\<lparr>ic_whitelist := fold List.insert (sort (pp_destructive p)) (ic_whitelist c),
     ic_plugin_modules := fold List.insert (sort (pp_modules p)) (ic_plugin_modules c),
     ic_plugin_reversible := fold List.insert (sort (pp_reversible p)) (ic_plugin_reversible c)\<rparr>"

definition Check :: "irreversible_checker \<Rightarrow> string \<Rightarrow> string \<Rightarrow> bool \<Rightarrow> irreversible_result" where
  "Check c module action declared =
    (let key = action_key module action
     in if declared then \<lparr>ir_irreversible = True, ir_reason = ''step '' @ key @ '' explicitly marked as irreversible'', ir_suggest_level = LevelHigh\<rparr>
        else if key \<in> set (ic_whitelist c)
          then \<lparr>ir_irreversible = True, ir_reason = key @ '' is in the irreversible whitelist'', ir_suggest_level = LevelHigh\<rparr>
        else if module \<in> set (ic_plugin_modules c) \<and> key \<notin> set (ic_plugin_reversible c)
          then \<lparr>ir_irreversible = True, ir_reason = ''plugin action '' @ key @ '' is not declared reversible in its manifest; '' @
            ''unclassified plugin actions are irreversible by default (add it to reversible_actions to opt out)'', ir_suggest_level = LevelHigh\<rparr>
        else \<lparr>ir_irreversible = False, ir_reason = ''step '' @ key @ '' is reversible (not marked, not in whitelist)'', ir_suggest_level = ''''\<rparr>)"

record Generator =
  gn_irreversible :: irreversible_checker
  gn_policy :: plugin_policy

definition NewGeneratorWithPluginPolicy :: "plugin_policy \<Rightarrow> Generator" where
  "NewGeneratorWithPluginPolicy policy =
    \<lparr>gn_irreversible = RegisterPolicy policy (fold (\<lambda>key c. case cut_dot key of (module, action, _) \<Rightarrow> RegisterWhitelist module action c)
        DefaultIrreversibleActions NewIrreversibleChecker),
     gn_policy = policy\<rparr>"

definition NewGenerator :: "string list \<Rightarrow> Generator" where
  "NewGenerator extra = NewGeneratorWithPluginPolicy (NewPluginActionPolicy extra [] [])"

section \<open>The scope of a rollback\<close>

definition RollbackOnFailurePolicies :: "string list" where
  "RollbackOnFailurePolicies = [RollbackOnFailureAuto, RollbackOnFailureManual]"

definition IsRollbackOnFailurePolicy :: "string \<Rightarrow> bool" where
  "IsRollbackOnFailurePolicy s \<longleftrightarrow> s \<in> set RollbackOnFailurePolicies"

definition ValidateRunLevelRollback :: "rollback_spec option \<Rightarrow> validation_error list" where
  "ValidateRunLevelRollback spec = (case spec of
      None \<Rightarrow> []
    | Some s \<Rightarrow>
       (if rs_strategy s \<noteq> '''' then [ScopeStrategy (rs_strategy s)] else []) @
       (if rs_steps s \<noteq> [] then [ScopeSteps (length (rs_steps s))] else []) @
       (if rs_snapshot_paths s \<noteq> [] then [ScopeSnapshotPaths (length (rs_snapshot_paths s))] else []) @
       (if rs_on_failure s \<noteq> '''' \<and> \<not> IsRollbackOnFailurePolicy (rs_on_failure s) then [OnFailureIllegal (rs_on_failure s)] else []))"

section \<open>Batches\<close>

definition go_slice :: "'a list \<Rightarrow> int \<Rightarrow> int \<Rightarrow> 'a list option" where
  "go_slice xs a b = (if 0 \<le> a \<and> a \<le> b \<and> b \<le> int (length xs) then Some (take (nat (b - a)) (drop (nat a) xs)) else None)"

fun percent_loop :: "string list \<Rightarrow> int list \<Rightarrow> int \<Rightarrow> string list list option" where
  "percent_loop targets [] prev = Some []"
| "percent_loop targets (step # steps) prev =
    (let total = int (length targets);
         end0 = (if steps = [] then total else go_div (wrap64 (total * step)) 100);
         end1 = (if end0 > total then total else end0);
         end2 = (if end1 < prev then prev else end1)
     in if end2 > prev
        then (case go_slice targets prev end2 of None \<Rightarrow> None
              | Some b \<Rightarrow> (case percent_loop targets steps end2 of None \<Rightarrow> None | Some bs \<Rightarrow> Some (b # bs)))
        else percent_loop targets steps end2)"

definition splitPercent :: "string list \<Rightarrow> int list \<Rightarrow> string list list option" where
  "splitPercent targets steps =
    (if targets = [] \<or> steps = [] then Some [targets]
     else (case percent_loop targets steps 0 of None \<Rightarrow> None | Some bs \<Rightarrow> Some (if bs = [] then [targets] else bs)))"

text \<open>The batches of the loop and the position behind it.\<close>

fun fixed_loop :: "string list \<Rightarrow> int list \<Rightarrow> int \<Rightarrow> (string list list \<times> int) option" where
  "fixed_loop targets [] pos = Some ([], pos)"
| "fixed_loop targets (step # steps) pos =
    (if step \<le> 0 then fixed_loop targets steps pos
     else
      (let total = int (length targets);
           end0 = wrap64 (pos + step);
           end1 = (if end0 > total then total else end0);
           rest = (if end1 \<ge> total then Some ([], end1) else fixed_loop targets steps end1)
       in if end1 > pos
          then (case go_slice targets pos end1 of None \<Rightarrow> None
                | Some b \<Rightarrow> (case rest of None \<Rightarrow> None | Some (bs, p) \<Rightarrow> Some (b # bs, p)))
          else rest))"

definition splitFixed :: "string list \<Rightarrow> int list \<Rightarrow> string list list option" where
  "splitFixed targets steps =
    (if targets = [] then Some []
     else if steps = [] then Some [targets]
     else (case fixed_loop targets steps 0 of
        None \<Rightarrow> None
      | Some (bs, pos) \<Rightarrow>
         if pos < int (length targets)
         then (case go_slice targets pos (int (length targets)) of None \<Rightarrow> None | Some b \<Rightarrow> Some (bs @ [b]))
         else Some (if bs = [] then [targets] else bs)))"

definition splitOnePerTarget :: "string list \<Rightarrow> string list list" where
  "splitOnePerTarget targets = (if targets = [] then [targets] else map (\<lambda>t. [t]) targets)"

definition splitBatches :: "string list \<Rightarrow> batch_config \<Rightarrow> (generate_error + string list list) option" where
  "splitBatches targets cfg =
    (let strategy = (if bc_strategy cfg = '''' then BatchStrategySerial else bc_strategy cfg)
     in if strategy = BatchStrategyPercent then map_option Inr (splitPercent targets (bc_steps cfg))
        else if strategy = BatchStrategyFixed then map_option Inr (splitFixed targets (bc_steps cfg))
        else if strategy = BatchStrategySerial then Some (Inr [targets])
        else if strategy = BatchStrategyOnePerTarget then Some (Inr (splitOnePerTarget targets))
        else Some (Inl (UnknownStrategy strategy)))"

section \<open>The order of the steps\<close>

definition step_index :: "dsl_step list \<Rightarrow> string \<Rightarrow> nat option" where
  "step_index steps name = find (\<lambda>i. ds_name (steps ! i) \<noteq> '''' \<and> ds_name (steps ! i) = name) [0..<length steps]"

text \<open>The dependencies of step \<open>i\<close>: the problems among them, and the indices they name, each once.\<close>

fun dep_edges :: "dsl_step list \<Rightarrow> nat \<Rightarrow> string list \<Rightarrow> nat list \<Rightarrow> validation_error list \<times> nat list" where
  "dep_edges steps i [] seen = ([], seen)"
| "dep_edges steps i (dep # deps) seen =
    (case step_index steps dep of
       None \<Rightarrow> (case dep_edges steps i deps seen of (ps, es) \<Rightarrow> (UnknownDependency i (ds_name (steps ! i)) dep # ps, es))
     | Some j \<Rightarrow>
        if j = i then (case dep_edges steps i deps seen of (ps, es) \<Rightarrow> (SelfDependency i (ds_name (steps ! i)) # ps, es))
        else if j \<in> set seen then dep_edges steps i deps seen
        else dep_edges steps i deps (seen @ [j]))"

definition step_edges :: "dsl_step list \<Rightarrow> nat list list" where
  "step_edges steps = map (\<lambda>i. snd (dep_edges steps i (ds_depends_on (steps ! i)) [])) [0..<length steps]"

definition dep_problems :: "dsl_step list \<Rightarrow> validation_error list" where
  "dep_problems steps = concat (map (\<lambda>i. fst (dep_edges steps i (ds_depends_on (steps ! i)) [])) [0..<length steps])"

definition dependents :: "nat list list \<Rightarrow> nat list list" where
  "dependents es = map (\<lambda>j. filter (\<lambda>i. j \<in> set (es ! i)) [0..<length es]) [0..<length es]"

definition ready :: "bool list \<Rightarrow> int list \<Rightarrow> nat option" where
  "ready placed unmet = find (\<lambda>i. \<not> placed ! i \<and> unmet ! i = 0) [0..<length placed]"

definition lower_all :: "nat list \<Rightarrow> int list \<Rightarrow> int list" where
  "lower_all ds unmet = fold (\<lambda>d u. u[d := u ! d - 1]) ds unmet"

function place_steps :: "nat list list \<Rightarrow> bool list \<Rightarrow> int list \<Rightarrow> nat list \<Rightarrow> nat list" where
  "place_steps ds placed unmet out =
    (case ready placed unmet of
       None \<Rightarrow> out
     | Some i \<Rightarrow> place_steps ds (placed[i := True]) (lower_all (ds ! i) unmet) (out @ [i]))"
  by auto
termination
proof (relation "measure (\<lambda>(ds, placed, unmet, out). length (filter Not placed))", simp)
  fix ds :: "nat list list" and placed :: "bool list" and unmet :: "int list" and out i
  assume "ready placed unmet = Some i"
  then have i: "i < length placed" "\<not> placed ! i" by (auto simp: ready_def find_Some_iff)
  then have "placed = take i placed @ False # drop (Suc i) placed" by (metis id_take_nth_drop)
  then have "length (filter Not placed) = length (filter Not (take i placed @ False # drop (Suc i) placed))" by (rule arg_cong)
  moreover have "placed[i := True] = take i placed @ True # drop (Suc i) placed" using i(1) by (simp add: upd_conv_take_nth_drop)
  ultimately show "((ds, placed[i := True], lower_all (ds ! i) unmet, out @ [i]), ds, placed, unmet, out)
      \<in> measure (\<lambda>(ds, placed, unmet, out). length (filter Not placed))"
    by simp
qed

declare place_steps.simps [simp del]

definition placed_order :: "dsl_step list \<Rightarrow> nat list" where
  "placed_order steps = place_steps (dependents (step_edges steps)) (replicate (length steps) False) (map (int \<circ> length) (step_edges steps)) []"

definition OrderStepsByDependsOn :: "dsl_step list \<Rightarrow> dsl_step list \<times> validation_error list" where
  "OrderStepsByDependsOn steps =
    (let order = placed_order steps;
         stuck = filter (\<lambda>i. i \<notin> set order) [0..<length steps]
     in (map ((!) steps) (order @ stuck),
         dep_problems steps @ (if length order < length steps then [DependencyCycle (map (\<lambda>i. ds_name (steps ! i)) stuck)] else [])))"

section \<open>Target bounds\<close>

definition target_label :: "nat \<Rightarrow> target_group \<Rightarrow> string" where
  "target_label i g = (if tg_name g = '''' then ''targets['' @ itoa i @ '']'' else tg_name g)"

definition group_count :: "target_group \<Rightarrow> string list \<Rightarrow> nat" where
  "group_count g resolved = length (filter (\<lambda>h. h \<in> set resolved) (remdups (tg_hosts g)))"

definition check_group :: "bool \<Rightarrow> string list \<Rightarrow> nat \<Rightarrow> target_group \<Rightarrow> generate_error option" where
  "check_group single resolved i g =
    (if tg_min_count g \<le> 0 \<and> tg_max_count g \<le> 0 then None
     else if tg_hosts g = [] \<and> \<not> single then Some (QueryGroupUnattributable (target_label i g))
     else let count = int (if tg_hosts g \<noteq> [] then group_count g resolved else length resolved)
       in if tg_min_count g > 0 \<and> count < tg_min_count g then Some (TooFewHosts (target_label i g) count (tg_min_count g))
          else if tg_max_count g > 0 \<and> count > tg_max_count g then Some (TooManyHosts (target_label i g) count (tg_max_count g))
          else None)"

fun first_refusal :: "generate_error option list \<Rightarrow> generate_error option" where
  "first_refusal [] = None"
| "first_refusal (None # xs) = first_refusal xs"
| "first_refusal (Some e # xs) = Some e"

definition checkTargetCaps :: "workflow \<Rightarrow> string list \<Rightarrow> generate_error option" where
  "checkTargetCaps flow resolved =
    (if \<not> list_ex (\<lambda>g. tg_min_count g > 0 \<or> tg_max_count g > 0) (wf_targets flow) then None
     else first_refusal (map (\<lambda>(i, g). check_group (length (wf_targets flow) = 1) resolved i g)
       (zip [0..<length (wf_targets flow)] (wf_targets flow))))"

section \<open>The generator\<close>

definition convertSteps :: "Generator \<Rightarrow> dsl_step list \<Rightarrow> plan_step list" where
  "convertSteps g steps = map (\<lambda>s. let v = Check (gn_irreversible g) (ds_module s) (ds_action s) (ds_irreversible s) in
     \<lparr>ps_name = ds_name s, ps_module = ds_module s, ps_action = ds_action s, ps_args = ds_args s, ps_rollback = ds_rollback s,
      ps_approval = ds_approval s, ps_gate = ds_gate s, ps_irreversible = ir_irreversible v, ps_irreversible_reason = ir_reason v\<rparr>) steps"

definition judged_irreversible :: "plugin_policy \<Rightarrow> dsl_step \<Rightarrow> bool" where
  "judged_irreversible policy s \<longleftrightarrow> ds_irreversible s \<or> IsInherentIrreversible (ds_module s) (ds_action s) \<or>
     JudgesIrreversible policy (ds_module s) (ds_action s)"

fun unauthorized :: "plugin_policy \<Rightarrow> string list \<Rightarrow> dsl_step list \<Rightarrow> generate_error option" where
  "unauthorized policy allowed [] = None"
| "unauthorized policy allowed (s # steps) =
    (if \<not> judged_irreversible policy s then unauthorized policy allowed steps
     else if action_key (ds_module s) (ds_action s) \<notin> set allowed
       then Some (IrreversibleNotAllowed (ds_name s) (action_key (ds_module s) (ds_action s)))
     else unauthorized policy allowed steps)"

definition newPlanID :: "string option \<Rightarrow> generate_error + string" where
  "newPlanID r = (case r of None \<Rightarrow> Inl NoPlanID | Some hex \<Rightarrow> Inr (''plan-'' @ hex))"

text \<open>\<open>random\<close> is what reading the random source gives as text, \<open>now\<close> the time.\<close>

definition Generate :: "Generator \<Rightarrow> workflow option \<Rightarrow> string list \<Rightarrow> string option \<Rightarrow> time \<Rightarrow> (generate_error + plan) option" where
  "Generate g workflow resolved random now =
    (case workflow of
       None \<Rightarrow> Some (Inl WorkflowIsNil)
     | Some flow \<Rightarrow>
        if resolved = [] then Some (Inl NoTargets)
        else (case ValidateRunLevelRollback (wf_rollback flow) of
          e # _ \<Rightarrow> Some (Inl (RollbackOutOfScope e))
        | [] \<Rightarrow>
          (case unauthorized (gn_policy g) (wf_allow_irreversible flow) (wf_steps flow) of
             Some e \<Rightarrow> Some (Inl e)
           | None \<Rightarrow>
             (case splitBatches resolved (wf_batches flow) of
                None \<Rightarrow> None
              | Some (Inl e) \<Rightarrow> Some (Inl e)
              | Some (Inr groups) \<Rightarrow>
                (case OrderStepsByDependsOn (wf_steps flow) of
                   (_, e # _) \<Rightarrow> Some (Inl (BadDependencies e))
                 | (ordered, []) \<Rightarrow>
                   (case checkTargetCaps flow resolved of
                      Some e \<Rightarrow> Some (Inl e)
                    | None \<Rightarrow>
                      (let steps = convertSteps g ordered;
                           batches = map (\<lambda>(i, ts). \<lparr>pb_index = int i, pb_targets = ts, pb_steps = steps,
                             pb_max_concurrency = bc_max_concurrency (wf_batches flow), pb_gate = bc_gate (wf_batches flow)\<rparr>)
                             (zip [0..<length groups] groups)
                       in case newPlanID random of
                            Inl e \<Rightarrow> Some (Inl e)
                          | Inr i \<Rightarrow> Some (Inr \<lparr>pl_id = i, pl_workflow_name = wf_name flow, pl_batches = batches,
                              pl_total_targets = int (length resolved), pl_created_at = now, pl_risk_score = 0, pl_risk_factors = [],
                              pl_approval_floor = '''', pl_approval = wf_approval flow, pl_rollback = wf_rollback flow, pl_gate = wf_gate flow,
                              pl_run_snapshot = wf_snapshot flow\<rparr>))))))))"

section \<open>The score\<close>

definition risk_steps :: "plan \<Rightarrow> risk_step list" where
  "risk_steps p = concat (map (\<lambda>b. map (\<lambda>s. \<lparr>rs_name = ps_name s, rs_action = ps_action s, rs_irreversible = ps_irreversible s,
     rs_has_rollback = ps_rollback s \<noteq> None\<rparr>) (pb_steps b)) (pl_batches p))"

definition assessPlanRisk :: "plan \<Rightarrow> plan" where
  "assessPlanRisk p =
    (let report = Analyze p;
         a = Assess \<lparr>ri_steps = risk_steps p, ri_batch_count = int (length (pl_batches p)), ri_direct_targets = int (length (im_direct report)),
           ri_indirect_targets = int (length (im_indirect report)), ri_blast_high = (im_risk_level report = RiskLevelHigh)\<rparr>
     in p\<lparr>pl_risk_score := asm_score a, pl_approval_floor := asm_approval_floor a,
          pl_risk_factors := (if asm_factors a = [] then pl_risk_factors p
            else map (\<lambda>f. \<lparr>prf_rule = rf_rule f, prf_points = rf_points f, prf_detail = rf_detail f\<rparr>) (asm_factors a))\<rparr>)"

section \<open>The division is total\<close>

lemma slice_ok: "0 \<le> a \<Longrightarrow> a \<le> b \<Longrightarrow> b \<le> int (length xs) \<Longrightarrow> go_slice xs a b = Some (take (nat (b - a)) (drop (nat a) xs))"
  by (simp add: go_slice_def)

lemma slice_then_rest: "0 \<le> a \<Longrightarrow> a \<le> b \<Longrightarrow> take (nat (b - a)) (drop (nat a) xs) @ drop (nat b) xs = drop (nat a) xs"
  by (metis append_take_drop_id diff_add_cancel drop_drop nat_add_distrib diff_ge_0_iff_ge)

lemma slice_nonempty: "0 \<le> a \<Longrightarrow> a < b \<Longrightarrow> b \<le> int (length xs) \<Longrightarrow> take (nat (b - a)) (drop (nat a) xs) \<noteq> []"
  by auto

lemma percent_loop_cover:
  assumes "0 \<le> prev" and "prev \<le> int (length targets)" and "steps \<noteq> []"
  shows "\<exists>bs. percent_loop targets steps prev = Some bs \<and> concat bs = drop (nat prev) targets \<and> [] \<notin> set bs"
  using assms
proof (induction steps arbitrary: prev)
  case (Cons step steps)
  let ?total = "int (length targets)"
  define e where "e = (let e0 = (if steps = [] then ?total else go_div (wrap64 (?total * step)) 100); e1 = (if e0 > ?total then ?total else e0) in if e1 < prev then prev else e1)"
  have e: "prev \<le> e" "e \<le> ?total" "steps = [] \<longrightarrow> e = ?total" using Cons.prems(2) by (auto simp: e_def Let_def)
  have rest: "\<exists>bs. percent_loop targets steps e = Some bs \<and> concat bs = drop (nat e) targets \<and> [] \<notin> set bs"
  proof (cases "steps = []")
    case False
    then show ?thesis using Cons.IH [of e] Cons.prems(1) e by simp
  qed (use e in auto)
  have step: "percent_loop targets (step # steps) prev = (if e > prev then (case go_slice targets prev e of None \<Rightarrow> None
      | Some b \<Rightarrow> (case percent_loop targets steps e of None \<Rightarrow> None | Some bs \<Rightarrow> Some (b # bs))) else percent_loop targets steps e)"
    by (simp only: percent_loop.simps Let_def e_def)
  show ?case
  proof (cases "e > prev")
    case True
    then show ?thesis using rest step slice_ok [OF Cons.prems(1) e(1,2)] slice_then_rest [OF Cons.prems(1) e(1)] slice_nonempty [OF Cons.prems(1) True e(2)]
      by auto
  next
    case False
    then show ?thesis using rest step e(1) by auto
  qed
qed simp

lemma splitPercent_cover: "targets \<noteq> [] \<Longrightarrow> \<exists>bs. splitPercent targets steps = Some bs \<and> concat bs = targets \<and> [] \<notin> set bs"
  using percent_loop_cover [of 0 targets steps] by (auto simp: splitPercent_def)

lemma fixed_loop_lost:
  assumes "fixed_loop targets steps pos = Some (bs, p)" and "pos < 0" and "- (2 ^ 63) \<le> pos" and "\<forall>s\<in>set steps. in_int64 s"
  shows "p < 0 \<and> bs = []"
  using assms
proof (induction steps arbitrary: pos bs)
  case (Cons step steps)
  show ?case
  proof (cases "step \<le> 0")
    case True
    then show ?thesis using Cons by simp
  next
    case False
    have "in_int64 (pos + step)" using Cons.prems(2-4) False by (auto simp: in_int64_def)
    then have "wrap64 (pos + step) > pos" using False by simp
    then have "(if wrap64 (pos + step) > int (length targets) then int (length targets) else wrap64 (pos + step)) > pos" using Cons.prems(2) by auto
    then show ?thesis using Cons.prems(1,2) False by (auto simp: Let_def go_slice_def split: if_splits)
  qed
qed simp

lemma fixed_loop_cover:
  assumes "fixed_loop targets steps pos = Some (bs, p)" and "0 \<le> pos" and "pos \<le> int (length targets)" and "\<forall>s\<in>set steps. in_int64 s"
    and "int (length targets) < 2 ^ 63"
  shows "p < 0 \<or> pos \<le> p \<and> p \<le> int (length targets) \<and> concat bs = take (nat (p - pos)) (drop (nat pos) targets) \<and> [] \<notin> set bs"
  using assms
proof (induction steps arbitrary: pos bs)
  case (Cons step steps)
  let ?total = "int (length targets)"
  show ?case
  proof (cases "step \<le> 0")
    case True
    then show ?thesis using Cons by simp
  next
    case False
    define e where "e = (if wrap64 (pos + step) > ?total then ?total else wrap64 (pos + step))"
    define rest where "rest = (if e \<ge> ?total then Some ([], e) else fixed_loop targets steps e)"
    have run: "(if e > pos then (case go_slice targets pos e of None \<Rightarrow> None | Some b \<Rightarrow> (case rest of None \<Rightarrow> None | Some (bs, p) \<Rightarrow> Some (b # bs, p)))
        else rest) = Some (bs, p)"
      using Cons.prems(1) False by (simp only: fixed_loop.simps e_def rest_def Let_def if_False)
    have e: "e \<le> ?total" "- (2 ^ 63) \<le> e" using in_int64_wrap64 [of "pos + step"] by (auto simp: e_def in_int64_def)
    show ?thesis
    proof (cases "e > pos")
      case True
      then obtain bs' where bs: "rest = Some (bs', p)" "bs = take (nat (e - pos)) (drop (nat pos) targets) # bs'"
        using run slice_ok [of pos e targets] Cons.prems(2) e(1) by (auto split: option.splits prod.splits)
      have "p < 0 \<or> e \<le> p \<and> p \<le> ?total \<and> concat bs' = take (nat (p - e)) (drop (nat e) targets) \<and> [] \<notin> set bs'"
      proof (cases "e \<ge> ?total")
        case False
        then show ?thesis using Cons.IH [of e bs'] bs(1) rest_def True Cons.prems(2,4,5) e(1) by simp
      qed (use bs(1) rest_def e(1) in auto)
      then show ?thesis
      proof
        assume p: "e \<le> p \<and> p \<le> ?total \<and> concat bs' = take (nat (p - e)) (drop (nat e) targets) \<and> [] \<notin> set bs'"
        have split: "nat (p - pos) = nat (e - pos) + nat (p - e)" "nat e = nat (e - pos) + nat pos" using p True Cons.prems(2) by auto
        have "concat bs = take (nat (p - pos)) (drop (nat pos) targets)"
          using p bs(2) unfolding split(1) take_add by (simp add: split(2) add.commute)
        then show ?thesis using p True bs(2) slice_nonempty [OF Cons.prems(2) True e(1)] by auto
      qed simp
    next
      case False
      then have rest: "rest = Some (bs, p)" using run by simp
      show ?thesis
      proof (cases "e < 0")
        case True
        then have "fixed_loop targets steps e = Some (bs, p)" using rest by (simp add: rest_def)
        then show ?thesis using fixed_loop_lost [OF _ True e(2)] Cons.prems(4) by auto
      next
        case e0: False
        have "in_int64 (pos + step)"
        proof (rule ccontr)
          assume "\<not> in_int64 (pos + step)"
          then have big: "2 ^ 63 \<le> pos + step" "pos + step < 2 ^ 64"
            using Cons.prems(2-5) \<open>\<not> step \<le> 0\<close> by (auto simp: in_int64_def)
          have "(pos + step + 2 ^ 63) mod 2 ^ 64 = (pos + step + 2 ^ 63 - 2 ^ 64) mod (2 ^ 64 :: int)" by (simp only: minus_mod_self2)
          also have "\<dots> = pos + step + 2 ^ 63 - 2 ^ 64" using big by (intro mod_pos_pos_trivial) simp_all
          finally have "wrap64 (pos + step) < 0" using big by (simp add: wrap64_def)
          then show False using e0 by (simp add: e_def)
        qed
        then have "e = ?total" "pos = ?total" using False \<open>\<not> step \<le> 0\<close> Cons.prems(3) by (auto simp: e_def split: if_splits)
        then show ?thesis using rest by (auto simp: rest_def)
      qed
    qed
  qed
qed simp


definition fits_int :: "'a list \<Rightarrow> bool" where
  "fits_int xs \<longleftrightarrow> int (length xs) < 2 ^ 63"

lemma splitFixed_cover:
  assumes "splitFixed targets steps = Some bs" and "targets \<noteq> []" and "fits_int targets" and "\<forall>s\<in>set steps. in_int64 s"
  shows "concat bs = targets \<and> [] \<notin> set bs"
proof (cases "steps = []")
  case True
  then show ?thesis using assms(1,2) by (auto simp: splitFixed_def)
next
  case False
  let ?total = "int (length targets)"
  obtain bs' p where loop: "fixed_loop targets steps 0 = Some (bs', p)"
    using assms(1,2) False by (auto simp: splitFixed_def split: option.splits)
  note cover = fixed_loop_cover [OF loop _ _ assms(4)] assms(3) [unfolded fits_int_def]
  show ?thesis
  proof (cases "p < ?total")
    case True
    then obtain b where b: "go_slice targets p ?total = Some b" "bs = bs' @ [b]"
      using assms(1,2) False loop by (auto simp: splitFixed_def split: option.splits)
    then have p: "0 \<le> p" by (auto simp: go_slice_def split: if_splits)
    then have bs': "concat bs' = take (nat p) targets" "[] \<notin> set bs'" using cover by auto
    have "b = drop (nat p) targets" using b(1) p True by (auto simp: go_slice_def nat_diff_distrib')
    then show ?thesis using b(2) bs' True p by auto
  next
    case p: False
    then have "p = ?total" "concat bs' = targets" "[] \<notin> set bs'" using cover by auto
    moreover from this have "bs' \<noteq> []" using assms(2) by auto
    ultimately show ?thesis using assms(1,2) False loop p by (simp add: splitFixed_def)
  qed
qed

lemma split_cover:
  assumes "splitBatches targets cfg = Some (Inr bs)" and "targets \<noteq> []" and "fits_int targets" and "\<forall>s\<in>set (bc_steps cfg). in_int64 s"
  shows "concat bs = targets \<and> [] \<notin> set bs"
proof -
  have "concat (map (\<lambda>t. [t]) targets) = targets" by (induction targets) auto
  then show ?thesis
    using assms splitPercent_cover [OF assms(2), of "bc_steps cfg"] splitFixed_cover [OF _ assms(2,3,4)]
    by (auto simp: splitBatches_def splitOnePerTarget_def Let_def split: if_splits)
qed

text \<open>Sizes that a plan could have are divided without a panic.\<close>

lemma fixed_loop_returns:
  assumes "0 \<le> pos" and "pos \<le> int (length targets)" and "int (length targets) < 2 ^ 62" and "\<forall>s\<in>set steps. s < 2 ^ 62"
  shows "\<exists>bs p. fixed_loop targets steps pos = Some (bs, p) \<and> 0 \<le> p \<and> p \<le> int (length targets)"
  using assms
proof (induction steps arbitrary: pos)
  case (Cons step steps)
  show ?case
  proof (cases "step \<le> 0")
    case True
    then show ?thesis using Cons by simp
  next
    case False
    let ?e = "if pos + step > int (length targets) then int (length targets) else pos + step"
    have "in_int64 (pos + step)" using False Cons.prems by (auto simp: in_int64_def)
    then have w: "wrap64 (pos + step) = pos + step" by simp
    have e: "pos \<le> ?e" "0 \<le> ?e" "?e \<le> int (length targets)" using False Cons.prems(1,2) by auto
    obtain bs p where "fixed_loop targets steps ?e = Some (bs, p) \<and> 0 \<le> p \<and> p \<le> int (length targets)"
      using Cons.IH [of ?e] e Cons.prems(3,4) by auto
    then show ?thesis using False w e Cons.prems(1) by (cases "pos + step > int (length targets)") (auto simp: Let_def go_slice_def)
  qed
qed simp

lemma split_returns:
  assumes "int (length targets) < 2 ^ 62" and "\<forall>s\<in>set (bc_steps cfg). s < 2 ^ 62"
  shows "splitBatches targets cfg \<noteq> None"
proof -
  have "splitFixed targets (bc_steps cfg) \<noteq> None"
    using fixed_loop_returns [of 0 targets "bc_steps cfg"] assms by (auto simp: splitFixed_def go_slice_def)
  moreover have "splitPercent targets (bc_steps cfg) \<noteq> None"
    using percent_loop_cover [of 0 targets "bc_steps cfg"] by (auto simp: splitPercent_def)
  ultimately show ?thesis by (auto simp: splitBatches_def Let_def)
qed

section \<open>Dependencies come first\<close>

lemma step_index_Some: "step_index steps d = Some j \<Longrightarrow> j < length steps \<and> ds_name (steps ! j) = d \<and> d \<noteq> ''''"
  by (auto simp: step_index_def find_Some_iff)

lemma dep_edges_set: "set (snd (dep_edges steps i deps seen)) = set seen \<union> {j. j \<noteq> i \<and> (\<exists>d\<in>set deps. step_index steps d = Some j)}"
  by (induction deps arbitrary: seen) (auto simp: case_prod_unfold split: option.splits)

lemma dep_edges_distinct: "distinct seen \<Longrightarrow> distinct (snd (dep_edges steps i deps seen))"
  by (induction deps arbitrary: seen) (auto simp: case_prod_unfold split: option.splits)

lemma dep_edges_clean: "fst (dep_edges steps i deps seen) = [] \<longleftrightarrow> (\<forall>d\<in>set deps. \<exists>j. j \<noteq> i \<and> step_index steps d = Some j)"
  by (induction deps arbitrary: seen) (auto simp: case_prod_unfold split: option.splits)

text \<open>A graph of steps: for each step the steps it waits for. \<open>in_order\<close>: those come first.\<close>

definition well_edges :: "nat list list \<Rightarrow> bool" where
  "well_edges es \<longleftrightarrow> (\<forall>i < length es. distinct (es ! i) \<and> set (es ! i) \<subseteq> {..<length es})"

definition in_order :: "nat list list \<Rightarrow> nat list \<Rightarrow> bool" where
  "in_order es out \<longleftrightarrow> (\<forall>k < length out. set (es ! (out ! k)) \<subseteq> set (take k out))"

definition waits :: "nat list list \<Rightarrow> (nat \<times> nat) set" where
  "waits es = {(j, i). i < length es \<and> j \<in> set (es ! i)}"

lemma length_edges [simp]: "length (step_edges steps) = length steps"
  by (simp add: step_edges_def)

lemma edges_of:
  assumes "i < length steps"
  shows "set (step_edges steps ! i) = {j. j \<noteq> i \<and> (\<exists>d\<in>set (ds_depends_on (steps ! i)). step_index steps d = Some j)}"
    and "distinct (step_edges steps ! i)"
  using assms by (simp_all add: step_edges_def dep_edges_set dep_edges_distinct)

lemma edges_well: "well_edges (step_edges steps)"
  using edges_of by (auto simp: well_edges_def dest: step_index_Some)

lemma dep_problems_None:
  "dep_problems steps = [] \<longleftrightarrow> (\<forall>i < length steps. \<forall>d\<in>set (ds_depends_on (steps ! i)). \<exists>j. j \<noteq> i \<and> step_index steps d = Some j)"
  by (auto simp: dep_problems_def dep_edges_clean)

text \<open>The counts of the code are the numbers of dependencies that have not been placed.\<close>

definition placing :: "nat list list \<Rightarrow> bool list \<Rightarrow> int list \<Rightarrow> nat list \<Rightarrow> bool" where
  "placing es placed unmet out \<longleftrightarrow> length placed = length es \<and> length unmet = length es \<and> distinct out \<and> set out \<subseteq> {..<length es} \<and>
    (\<forall>i < length es. placed ! i = (i \<in> set out) \<and> unmet ! i = int (card (set (es ! i) - set out))) \<and> in_order es out"

lemma lower_all_nth:
  assumes "distinct ds" and "set ds \<subseteq> {..<length u}"
  shows "length (lower_all ds u) = length u \<and> (\<forall>i < length u. lower_all ds u ! i = u ! i - (if i \<in> set ds then 1 else 0))"
  using assms
proof (induction ds arbitrary: u)
  case (Cons d ds)
  then show ?case using Cons.IH [of "u[d := u ! d - 1]"] by (auto simp: lower_all_def nth_list_update)
qed (simp add: lower_all_def)

lemma dependents_nth: "j < length es \<Longrightarrow> set (dependents es ! j) = {i. i < length es \<and> j \<in> set (es ! i)} \<and> distinct (dependents es ! j)"
  by (auto simp: dependents_def)

lemma placing_step:
  assumes well: "well_edges es" and inv: "placing es placed unmet out" and pick: "ready placed unmet = Some i"
  shows "i \<notin> set out" and "placing es (placed[i := True]) (lower_all (dependents es ! i) unmet) (out @ [i])"
proof -
  have i: "i < length es" "\<not> placed ! i" "unmet ! i = 0" using pick inv by (auto simp: ready_def placing_def find_Some_iff)
  then show new: "i \<notin> set out" using inv by (simp add: placing_def)
  note dep = dependents_nth [OF i(1)]
  have low: "length (lower_all (dependents es ! i) unmet) = length es"
    "\<And>k. k < length es \<Longrightarrow> lower_all (dependents es ! i) unmet ! k = unmet ! k - (if i \<in> set (es ! k) then 1 else 0)"
  proof -
    have "length unmet = length es" using inv by (simp add: placing_def)
    moreover have "set (dependents es ! i) \<subseteq> {..<length es}" "k \<in> set (dependents es ! i) \<longleftrightarrow> k < length es \<and> i \<in> set (es ! k)" for k
      using dep by auto
    ultimately show "length (lower_all (dependents es ! i) unmet) = length es"
      "\<And>k. k < length es \<Longrightarrow> lower_all (dependents es ! i) unmet ! k = unmet ! k - (if i \<in> set (es ! k) then 1 else 0)"
      using lower_all_nth [of "dependents es ! i" unmet] dep by simp_all
  qed
  have count: "int (card (set (es ! k) - set out)) - (if i \<in> set (es ! k) then 1 else 0) = int (card (set (es ! k) - set (out @ [i])))" for k
  proof (cases "i \<in> set (es ! k)")
    case True
    have "set (es ! k) - set (out @ [i]) = (set (es ! k) - set out) - {i}" by auto
    moreover have "card (set (es ! k) - set out) = Suc (card (set (es ! k) - set out - {i}))"
      using True new by (intro card.remove) auto
    ultimately show ?thesis using True by simp
  next
    case False
    then have "set (es ! k) - set (out @ [i]) = set (es ! k) - set out" by auto
    then show ?thesis using False by simp
  qed
  have "set (es ! i) \<subseteq> set out" using inv i by (simp add: placing_def)
  then have "in_order es (out @ [i])" using inv by (auto simp: placing_def in_order_def nth_append less_Suc_eq)
  then show "placing es (placed[i := True]) (lower_all (dependents es ! i) unmet) (out @ [i])"
    using inv i(1) new low count by (auto simp: placing_def nth_list_update)
qed

lemma place_steps_spec:
  assumes "well_edges es" and "placing es placed unmet out"
  shows "\<exists>placed' unmet'. placing es placed' unmet' (place_steps (dependents es) placed unmet out) \<and> ready placed' unmet' = None"
  using assms(2)
proof (induction "dependents es" placed unmet out rule: place_steps.induct)
  case (1 placed unmet out)
  show ?case
  proof (cases "ready placed unmet")
    case None
    then show ?thesis using 1(2) by (subst place_steps.simps) auto
  next
    case (Some i)
    then show ?thesis using 1(1) [OF Some] placing_step(2) [OF assms(1) 1(2) Some] by (subst place_steps.simps) auto
  qed
qed

lemma stuck_waits:
  assumes "placing es placed unmet out" and "ready placed unmet = None" and "i < length es" and "i \<notin> set out"
  shows "\<exists>j. j \<in> set (es ! i) \<and> j \<notin> set out"
proof -
  have "unmet ! i \<noteq> 0" using assms by (auto simp: ready_def placing_def find_None_iff)
  then have "set (es ! i) - set out \<noteq> {}" using assms(1,3) by (auto simp: placing_def)
  then show ?thesis by blast
qed

lemma in_order_acyclic:
  assumes "in_order es out" and "set out = {..<length es}"
  shows "acyclic (waits es)"
proof -
  define pos where "pos i = (LEAST k. k < length out \<and> out ! k = i)" for i
  have pos: "pos i < length out \<and> out ! pos i = i" if "i < length es" for i
  proof -
    have "\<exists>k. k < length out \<and> out ! k = i" using assms(2) that by (metis in_set_conv_nth lessThan_iff)
    then show ?thesis unfolding pos_def by (rule LeastI_ex)
  qed
  have "pos j < pos i" if "(j, i) \<in> waits es" for j i
  proof -
    have i: "i < length es" "j \<in> set (es ! i)" using that by (auto simp: waits_def)
    have "set (es ! (out ! pos i)) \<subseteq> set (take (pos i) out)" using assms(1) pos [OF i(1)] unfolding in_order_def by blast
    then have "j \<in> set (take (pos i) out)" using pos [OF i(1)] i(2) by auto
    then obtain k where k: "k < pos i" "k < length out" "out ! k = j" by (auto simp: in_set_conv_nth)
    then have "pos j \<le> k" unfolding pos_def by (intro Least_le) simp
    then show ?thesis using k(1) by simp
  qed
  then have "waits es \<subseteq> measure pos" by auto
  then show ?thesis by (meson acyclic_subset wf_acyclic wf_measure)
qed

lemma placed_all:
  assumes inv: "placing es placed unmet out" and none: "ready placed unmet = None" and well: "well_edges es" and acyc: "acyclic (waits es)"
  shows "set out = {..<length es}"
proof (rule ccontr)
  assume "set out \<noteq> {..<length es}"
  then have "{..<length es} - set out \<noteq> {}" using inv by (auto simp: placing_def)
  moreover have "waits es \<subseteq> {..<length es} \<times> {..<length es}" using well by (auto simp: waits_def well_edges_def)
  then have "finite (waits es)" by (rule finite_subset) simp
  then have "wf (waits es)" using acyc by (rule finite_acyclic_wf)
  ultimately obtain i where i: "i \<in> {..<length es} - set out" "\<And>j. (j, i) \<in> waits es \<Longrightarrow> j \<notin> {..<length es} - set out"
    by (metis wfE_min ex_in_conv)
  from stuck_waits [OF inv none] i(1) obtain j where j: "j \<in> set (es ! i)" "j \<notin> set out" by auto
  then have "(j, i) \<in> waits es" "j < length es" using i(1) well by (auto simp: waits_def well_edges_def)
  then show False using i(2) j(2) by auto
qed

lemma placed_order_spec:
  obtains placed unmet where "placing (step_edges steps) placed unmet (placed_order steps)" "ready placed unmet = None"
proof -
  have "placing (step_edges steps) (replicate (length steps) False) (map (int \<circ> length) (step_edges steps)) []"
    using edges_of(2) by (auto simp: placing_def in_order_def distinct_card)
  from place_steps_spec [OF edges_well this] that show thesis unfolding placed_order_def by blast
qed

lemma placed_order_complete: "length (placed_order steps) = length steps \<longleftrightarrow> acyclic (waits (step_edges steps))"
proof -
  obtain placed unmet where inv: "placing (step_edges steps) placed unmet (placed_order steps)" and none: "ready placed unmet = None"
    by (rule placed_order_spec)
  have sub: "set (placed_order steps) \<subseteq> {..<length steps}" "distinct (placed_order steps)" "in_order (step_edges steps) (placed_order steps)"
    using inv by (auto simp: placing_def)
  have "length (placed_order steps) = length steps \<longleftrightarrow> set (placed_order steps) = {..<length steps}"
    using sub(1,2) by (metis card_lessThan card_subset_eq distinct_card finite_lessThan)
  also have "\<dots> \<longleftrightarrow> acyclic (waits (step_edges steps))"
    using placed_all [OF inv none edges_well] in_order_acyclic [OF sub(3)] by auto
  finally show ?thesis .
qed

lemma order_refuses:
  "snd (OrderStepsByDependsOn steps) = [] \<longleftrightarrow>
    (\<forall>i < length steps. \<forall>d\<in>set (ds_depends_on (steps ! i)). \<exists>j. j \<noteq> i \<and> step_index steps d = Some j) \<and> acyclic (waits (step_edges steps))"
proof -
  have "length (placed_order steps) \<le> length steps"
  proof -
    obtain placed unmet where "placing (step_edges steps) placed unmet (placed_order steps)" by (rule placed_order_spec)
    then show ?thesis by (metis card_lessThan card_mono distinct_card finite_lessThan length_edges placing_def)
  qed
  then show ?thesis unfolding placed_order_complete [symmetric] dep_problems_None [symmetric]
    by (auto simp: OrderStepsByDependsOn_def Let_def)
qed

lemma order_permutes: "mset (fst (OrderStepsByDependsOn steps)) = mset steps"
proof -
  obtain placed unmet where inv: "placing (step_edges steps) placed unmet (placed_order steps)" by (rule placed_order_spec)
  let ?all = "placed_order steps @ filter (\<lambda>i. i \<notin> set (placed_order steps)) [0..<length steps]"
  have "distinct ?all" "set ?all = set [0..<length steps]" using inv by (auto simp: placing_def)
  then have "mset ?all = mset [0..<length steps]" by (simp only: set_eq_iff_mset_eq_distinct distinct_upt)
  then have "mset (map ((!) steps) ?all) = mset (map ((!) steps) [0..<length steps])" by (metis mset_map)
  then show ?thesis by (simp add: OrderStepsByDependsOn_def Let_def map_nth)
qed

lemma order_respects:
  assumes "OrderStepsByDependsOn steps = (ordered, [])"
  obtains ord where "ordered = map ((!) steps) ord" "distinct ord" "set ord = {..<length steps}"
    "\<And>k d. k < length ord \<Longrightarrow> d \<in> set (ds_depends_on (steps ! (ord ! k))) \<Longrightarrow> \<exists>j\<in>set (take k ord). step_index steps d = Some j"
proof -
  have ok: "\<forall>i < length steps. \<forall>d\<in>set (ds_depends_on (steps ! i)). \<exists>j. j \<noteq> i \<and> step_index steps d = Some j" "acyclic (waits (step_edges steps))"
    using order_refuses [of steps] assms by auto
  obtain placed unmet where inv: "placing (step_edges steps) placed unmet (placed_order steps)" and none: "ready placed unmet = None"
    by (rule placed_order_spec)
  have all: "set (placed_order steps) = {..<length steps}" using placed_all [OF inv none edges_well ok(2)] by simp
  then have "filter (\<lambda>i. i \<notin> set (placed_order steps)) [0..<length steps] = []" by (simp add: filter_empty_conv)
  then have "ordered = map ((!) steps) (placed_order steps)" using assms by (simp add: OrderStepsByDependsOn_def Let_def)
  moreover have "\<exists>j\<in>set (take k (placed_order steps)). step_index steps d = Some j"
    if k: "k < length (placed_order steps)" and d: "d \<in> set (ds_depends_on (steps ! (placed_order steps ! k)))" for k d
  proof -
    let ?i = "placed_order steps ! k"
    have i: "?i < length steps" using k all nth_mem by blast
    then obtain j where j: "j \<noteq> ?i" "step_index steps d = Some j" using ok(1) d by blast
    then have "j \<in> set (step_edges steps ! ?i)" using edges_of(1) [OF i] d by blast
    then show ?thesis using inv k j(2) by (auto simp: placing_def in_order_def)
  qed
  ultimately show thesis using that inv all by (auto simp: placing_def)
qed

text \<open>Steps that are declared in dependency order stay in that order.\<close>

lemma find_least: "P k \<Longrightarrow> (\<And>j. j < k \<Longrightarrow> \<not> P j) \<Longrightarrow> k < n \<Longrightarrow> find P [0..<n] = Some k"
  by (auto simp: find_Some_iff)

lemma place_steps_stable:
  assumes well: "well_edges es" and down: "\<And>i. i < length es \<Longrightarrow> set (es ! i) \<subseteq> {..<i}"
    and "placing es placed unmet [0..<k]" and "k \<le> length es"
  shows "place_steps (dependents es) placed unmet [0..<k] = [0..<length es]"
  using assms(3,4)
proof (induction "length es - k" arbitrary: k placed unmet)
  case 0
  then have "ready placed unmet = None" by (auto simp: ready_def find_None_iff placing_def)
  then show ?case using 0 by (subst place_steps.simps) simp
next
  case (Suc n)
  have k: "k < length es" using Suc.hyps(2) by simp
  have "set (es ! k) - set [0..<k] = {}" using down [OF k] by auto
  then have "unmet ! k = 0" using Suc.prems(1) k by (simp add: placing_def)
  then have pick: "ready placed unmet = Some k"
    using Suc.prems(1) k unfolding ready_def by (intro find_least) (auto simp: placing_def)
  have "placing es (placed[k := True]) (lower_all (dependents es ! k) unmet) [0..<Suc k]"
    using placing_step(2) [OF well Suc.prems(1) pick] by simp
  then have "place_steps (dependents es) (placed[k := True]) (lower_all (dependents es ! k) unmet) [0..<Suc k] = [0..<length es]"
    using Suc.hyps(1) [of "Suc k"] Suc.hyps(2) k by (simp del: upt_Suc)
  then show ?case using pick by (subst place_steps.simps) simp
qed

lemma order_stable:
  assumes "\<And>i. i < length steps \<Longrightarrow> set (step_edges steps ! i) \<subseteq> {..<i}"
  shows "fst (OrderStepsByDependsOn steps) = steps"
proof -
  have "placing (step_edges steps) (replicate (length steps) False) (map (int \<circ> length) (step_edges steps)) [0..<0]"
    using edges_of(2) by (auto simp: placing_def in_order_def distinct_card)
  from place_steps_stable [OF edges_well _ this] assms have "placed_order steps = [0..<length steps]" by (simp add: placed_order_def)
  then show ?thesis by (simp add: OrderStepsByDependsOn_def Let_def map_nth)
qed

section \<open>One verdict on irreversible steps\<close>

lemma cut_rejoin: "cut_dot key = (module, action, True) \<Longrightarrow> action_key module action = key"
proof -
  assume cut: "cut_dot key = (module, action, True)"
  then have dot: "CHR ''.'' \<in> set key" and parts: "module = takeWhile (\<lambda>c. c \<noteq> CHR ''.'') key" "action = tl (dropWhile (\<lambda>c. c \<noteq> CHR ''.'') key)"
    by (auto simp: cut_dot_def split: if_splits)
  have "dropWhile (\<lambda>c. c \<noteq> CHR ''.'') key \<noteq> []" using dot by auto
  then have "dropWhile (\<lambda>c. c \<noteq> CHR ''.'') key = CHR ''.'' # action"
    using parts(2) hd_dropWhile [of "\<lambda>c. c \<noteq> CHR ''.''" key] by (metis list.collapse)
  then have "key = module @ CHR ''.'' # action" using takeWhile_dropWhile_id [of "\<lambda>c. c \<noteq> CHR ''.''" key] parts(1) by simp
  then show ?thesis by (simp add: action_key_def)
qed

lemma set_fold_insert: "set (fold List.insert xs ys) = set xs \<union> set ys"
  by (induction xs arbitrary: ys) auto

lemma registered_keys:
  assumes "\<forall>key\<in>set keys. CHR ''.'' \<in> set key"
  shows "\<exists>wl. fold (\<lambda>key c. case cut_dot key of (module, action, _) \<Rightarrow> RegisterWhitelist module action c) keys c = c\<lparr>ic_whitelist := wl\<rparr> \<and>
    set wl = set keys \<union> set (ic_whitelist c)"
  using assms
proof (induction keys arbitrary: c)
  case Nil
  then show ?case by (intro exI [of _ "ic_whitelist c"]) simp
next
  case (Cons key keys)
  obtain module action where cut: "cut_dot key = (module, action, True)" using Cons.prems by (auto simp: cut_dot_def)
  then show ?case using Cons.IH [of "RegisterWhitelist module action c"] Cons.prems cut_rejoin [OF cut] by (auto simp: RegisterWhitelist_def)
qed

lemma dotted_defaults: "\<forall>key\<in>set DefaultIrreversibleActions. CHR ''.'' \<in> set key"
  by (simp add: DefaultIrreversibleActions_def)

text \<open>The checker of a generator and the gate of \<^verbatim>\<open>Generate\<close> agree on every step.\<close>

lemma one_verdict:
  "ir_irreversible (Check (gn_irreversible (NewGeneratorWithPluginPolicy policy)) (ds_module s) (ds_action s) (ds_irreversible s)) =
    judged_irreversible policy s"
proof -
  let ?c = "gn_irreversible (NewGeneratorWithPluginPolicy policy)"
  have "set (ic_whitelist ?c) = set (pp_destructive policy) \<union> set DefaultIrreversibleActions"
    "set (ic_plugin_modules ?c) = set (pp_modules policy)" "set (ic_plugin_reversible ?c) = set (pp_reversible policy)"
    using registered_keys [OF dotted_defaults, of NewIrreversibleChecker]
    by (auto simp: NewGeneratorWithPluginPolicy_def RegisterPolicy_def set_fold_insert NewIrreversibleChecker_def)
  then show ?thesis by (auto simp: Check_def judged_irreversible_def IsInherentIrreversible_def JudgesIrreversible_def Let_def)
qed

lemma unauthorized_None:
  "unauthorized policy allowed steps = None \<longleftrightarrow>
    (\<forall>s\<in>set steps. judged_irreversible policy s \<longrightarrow> action_key (ds_module s) (ds_action s) \<in> set allowed)"
  by (induction steps) auto

lemma first_refusal_None: "first_refusal xs = None \<longleftrightarrow> (\<forall>x\<in>set xs. x = None)"
  by (induction xs rule: first_refusal.induct) auto

section \<open>What a generated plan is\<close>

lemma Generate_cases:
  assumes "Generate g (Some flow) resolved random now = Some (Inr p)"
  obtains groups ordered where "resolved \<noteq> []" "ValidateRunLevelRollback (wf_rollback flow) = []"
    "unauthorized (gn_policy g) (wf_allow_irreversible flow) (wf_steps flow) = None" "splitBatches resolved (wf_batches flow) = Some (Inr groups)"
    "OrderStepsByDependsOn (wf_steps flow) = (ordered, [])" "checkTargetCaps flow resolved = None"
    "pl_batches p = map (\<lambda>(i, ts). \<lparr>pb_index = int i, pb_targets = ts, pb_steps = convertSteps g ordered,
       pb_max_concurrency = bc_max_concurrency (wf_batches flow), pb_gate = bc_gate (wf_batches flow)\<rparr>) (zip [0..<length groups] groups)"
  using assms by (auto simp: Generate_def Let_def split: if_splits list.splits option.splits sum.splits prod.splits)

lemma batches_of_groups:
  assumes "bs = map (\<lambda>(i, ts). \<lparr>pb_index = int i, pb_targets = ts, pb_steps = ss, pb_max_concurrency = m, pb_gate = gt\<rparr>) (zip [0..<length groups] groups)"
  shows "map pb_targets bs = groups" and "map pb_index bs = map int [0..<length groups]" and "\<forall>b\<in>set bs. pb_steps b = ss"
  using assms by (auto simp: comp_def case_prod_unfold map_eq_conv intro!: nth_equalityI)

lemma generated_irreversible:
  assumes gen: "Generate (NewGeneratorWithPluginPolicy policy) (Some flow) resolved random now = Some (Inr p)"
    and b: "b \<in> set (pl_batches p)" and s: "s \<in> set (pb_steps b)"
  shows "\<exists>d\<in>set (wf_steps flow). ps_name s = ds_name d \<and> ps_module s = ds_module d \<and> ps_action s = ds_action d \<and>
    ps_irreversible s = judged_irreversible policy d \<and> (ps_irreversible s \<longrightarrow> action_key (ps_module s) (ps_action s) \<in> set (wf_allow_irreversible flow))"
proof -
  let ?g = "NewGeneratorWithPluginPolicy policy"
  from gen obtain groups ordered where una: "unauthorized (gn_policy ?g) (wf_allow_irreversible flow) (wf_steps flow) = None"
    and ord: "OrderStepsByDependsOn (wf_steps flow) = (ordered, [])"
    and bs: "pl_batches p = map (\<lambda>(i, ts). \<lparr>pb_index = int i, pb_targets = ts, pb_steps = convertSteps ?g ordered,
       pb_max_concurrency = bc_max_concurrency (wf_batches flow), pb_gate = bc_gate (wf_batches flow)\<rparr>) (zip [0..<length groups] groups)"
    by (rule Generate_cases)
  have "s \<in> set (convertSteps ?g ordered)" using batches_of_groups(3) [OF bs] b s by auto
  then obtain d where d: "d \<in> set ordered" and sd: "ps_name s = ds_name d \<and> ps_module s = ds_module d \<and> ps_action s = ds_action d \<and>
      ps_irreversible s = judged_irreversible policy d"
    by (auto simp: convertSteps_def Let_def one_verdict)
  have "d \<in> set (wf_steps flow)" using order_permutes [of "wf_steps flow"] ord d by (metis fst_conv mset_eq_setD)
  moreover have "gn_policy ?g = policy" by (simp add: NewGeneratorWithPluginPolicy_def)
  ultimately show ?thesis using sd una unfolding unauthorized_None by (intro bexI [of _ d]) auto
qed

section \<open>Properties\<close>

text \<open>
  C12. The division into batches is total, whatever the strategy: the batches of a generated plan, one after the other, are the resolved targets in their order,
  none dropped and none added, no batch is empty and the batches are numbered from zero.
\<close>

theorem generated_plan_covers_targets:
  assumes "Generate g (Some flow) resolved random now = Some (Inr p)" and "fits_int resolved" and "\<forall>n\<in>set (bc_steps (wf_batches flow)). in_int64 n"
  shows "concat (map pb_targets (pl_batches p)) = resolved \<and> (\<forall>b\<in>set (pl_batches p). pb_targets b \<noteq> []) \<and>
    map pb_index (pl_batches p) = map int [0..<length (pl_batches p)]"
proof -
  from assms(1) obtain groups ordered where "resolved \<noteq> []" and split: "splitBatches resolved (wf_batches flow) = Some (Inr groups)"
    and bs: "pl_batches p = map (\<lambda>(i, ts). \<lparr>pb_index = int i, pb_targets = ts, pb_steps = convertSteps g ordered,
       pb_max_concurrency = bc_max_concurrency (wf_batches flow), pb_gate = bc_gate (wf_batches flow)\<rparr>) (zip [0..<length groups] groups)"
    by (rule Generate_cases)
  note cover = split_cover [OF split \<open>resolved \<noteq> []\<close> assms(2,3)]
  note groups = batches_of_groups(1,2) [OF bs]
  have "length (pl_batches p) = length groups" using arg_cong [OF groups(1), of length] by simp
  moreover have "\<forall>b\<in>set (pl_batches p). pb_targets b \<noteq> []" using cover groups(1) by (metis image_eqI list.set_map)
  ultimately show ?thesis using cover groups by simp
qed

text \<open>
  C13. The steps of a workflow are put in an order in which every step comes after the steps it depends on: the order is refused exactly when a dependency names
  no other step or the dependencies have a cycle, no step is lost or repeated, and steps that are declared in such an order stay as they are.
\<close>

theorem steps_ordered_by_dependencies:
  "(snd (OrderStepsByDependsOn steps) = [] \<longleftrightarrow>
     (\<forall>i < length steps. \<forall>d\<in>set (ds_depends_on (steps ! i)). \<exists>j. j \<noteq> i \<and> step_index steps d = Some j) \<and> acyclic (waits (step_edges steps))) \<and>
   (snd (OrderStepsByDependsOn steps) = [] \<longrightarrow>
     (\<exists>ord. fst (OrderStepsByDependsOn steps) = map ((!) steps) ord \<and> distinct ord \<and> set ord = {..<length steps} \<and>
       (\<forall>k < length ord. \<forall>d\<in>set (ds_depends_on (steps ! (ord ! k))). \<exists>j\<in>set (take k ord). step_index steps d = Some j))) \<and>
   mset (fst (OrderStepsByDependsOn steps)) = mset steps \<and>
   ((\<forall>i < length steps. set (step_edges steps ! i) \<subseteq> {..<i}) \<longrightarrow> fst (OrderStepsByDependsOn steps) = steps)"
proof (intro conjI impI)
  assume "snd (OrderStepsByDependsOn steps) = []"
  then have "OrderStepsByDependsOn steps = (fst (OrderStepsByDependsOn steps), [])" by (metis prod.collapse)
  then show "\<exists>ord. fst (OrderStepsByDependsOn steps) = map ((!) steps) ord \<and> distinct ord \<and> set ord = {..<length steps} \<and>
       (\<forall>k < length ord. \<forall>d\<in>set (ds_depends_on (steps ! (ord ! k))). \<exists>j\<in>set (take k ord). step_index steps d = Some j)"
    by (rule order_respects) blast
qed (use order_refuses order_permutes order_stable in auto)

text \<open>
  A step that a generated plan marks as irreversible is on the whitelist of its workflow, and the mark is the verdict of the language, the installed
  plugins and the author alike.
\<close>

theorem irreversible_needs_authorization:
  assumes "Generate (NewGeneratorWithPluginPolicy policy) (Some flow) resolved random now = Some (Inr p)"
    and "b \<in> set (pl_batches p)" and "s \<in> set (pb_steps b)"
  shows "\<exists>d\<in>set (wf_steps flow). ps_name s = ds_name d \<and> ps_module s = ds_module d \<and> ps_action s = ds_action d \<and>
    ps_irreversible s = judged_irreversible policy d \<and> (ps_irreversible s \<longrightarrow> action_key (ps_module s) (ps_action s) \<in> set (wf_allow_irreversible flow))"
  using generated_irreversible [OF assms] .


text \<open>
  C11. A plan with an irreversible step that was generated and scored carries an approval floor under which automatic approval is forbidden, whatever tier the
  workflow declares.
\<close>

theorem generated_irreversible_plan_needs_people:
  assumes "Generate (NewGeneratorWithPluginPolicy policy) (Some flow) resolved random now = Some (Inr p)"
    and "d \<in> set (wf_steps flow)" and "judged_irreversible policy d" and "fits_int resolved" and "\<forall>n\<in>set (bc_steps (wf_batches flow)). in_int64 n"
  shows "AutoApproveForbidden (MaxLevel declared (pl_approval_floor (assessPlanRisk p)))"
proof -
  let ?g = "NewGeneratorWithPluginPolicy policy"
  from assms(1) obtain groups ordered where "resolved \<noteq> []" and split: "splitBatches resolved (wf_batches flow) = Some (Inr groups)"
    and ord: "OrderStepsByDependsOn (wf_steps flow) = (ordered, [])"
    and bs: "pl_batches p = map (\<lambda>(i, ts). \<lparr>pb_index = int i, pb_targets = ts, pb_steps = convertSteps ?g ordered,
       pb_max_concurrency = bc_max_concurrency (wf_batches flow), pb_gate = bc_gate (wf_batches flow)\<rparr>) (zip [0..<length groups] groups)"
    by (rule Generate_cases)
  have "groups \<noteq> []" using split_cover [OF split \<open>resolved \<noteq> []\<close> assms(4,5)] \<open>resolved \<noteq> []\<close> by auto
  then have "pl_batches p \<noteq> []" using arg_cong [OF batches_of_groups(1) [OF bs], of length] by auto
  then obtain b where b: "b \<in> set (pl_batches p)" by (meson list.set_sel(1))
  have "d \<in> set ordered" using order_permutes [of "wf_steps flow"] ord assms(2) by (metis fst_conv mset_eq_setD)
  then have "\<exists>s\<in>set (convertSteps ?g ordered). ps_irreversible s"
    using assms(3) by (auto simp: convertSteps_def Let_def one_verdict)
  then obtain s where s: "s \<in> set (convertSteps ?g ordered)" "ps_irreversible s" by blast
  have "s \<in> set (pb_steps b)" using batches_of_groups(3) [OF bs] b s(1) by simp
  then have "\<exists>r\<in>set (risk_steps p). rs_irreversible r" using b s(2) by (force simp: risk_steps_def)
  then show ?thesis using floor_forbids by (auto simp: assessPlanRisk_def Let_def)
qed


section \<open>Examples\<close>

definition flow_step :: "string \<Rightarrow> string \<Rightarrow> string \<Rightarrow> string list \<Rightarrow> dsl_step" where
  "flow_step name module action deps = DslStep name module action None None None None False False False deps"

definition small_flow :: "string \<Rightarrow> int list \<Rightarrow> workflow" where
  "small_flow strategy steps = \<lparr>wf_name = ''w'', wf_targets = [\<lparr>tg_name = ''web'', tg_hosts = [''a'', ''b'', ''c''], tg_query = '''', tg_type = '''',
       tg_min_count = 2, tg_max_count = 5\<rparr>],
     wf_batches = \<lparr>bc_strategy = strategy, bc_max_concurrency = 0, bc_serial = False, bc_steps = steps, bc_gate = None\<rparr>,
     wf_steps = [flow_step ''clean'' ''pkg'' ''remove'' [''stop''], flow_step ''stop'' ''svc'' ''stop'' []],
     wf_rollback = None, wf_approval = None, wf_gate = None, wf_snapshot = None, wf_allow_irreversible = [''pkg.remove'']\<rparr>"

definition plain_generator :: Generator where
  "plain_generator = NewGenerator []"

lemma small_plan:
  "case Generate plain_generator (Some (small_flow ''percent'' [10, 50, 100])) [''a'', ''b'', ''c''] (Some ''00'') 0 of
     Some (Inr p) \<Rightarrow> map pb_targets (pl_batches p) = [[''a''], [''b'', ''c'']] \<and> map (map ps_name \<circ> pb_steps) (pl_batches p) = [[''stop'', ''clean''], [''stop'', ''clean'']]
   | _ \<Rightarrow> False"
  by code_simp

lemma plain_policy: "plain_generator = NewGeneratorWithPluginPolicy (NewPluginActionPolicy [] [] [])"
  by (simp add: plain_generator_def NewGenerator_def)


lemma small_plan_made:
  obtains p where "Generate plain_generator (Some (small_flow ''percent'' [10, 50, 100])) [''a'', ''b'', ''c''] (Some ''00'') 0 = Some (Inr p)"
    "map (map ps_name \<circ> pb_steps) (pl_batches p) = [[''stop'', ''clean''], [''stop'', ''clean'']]"
  using small_plan that by (auto split: option.splits sum.splits)

lemma small_sizes: "fits_int [''a'', ''b'', ''c'']" "\<forall>n\<in>set (bc_steps (wf_batches (small_flow ''percent'' [10, 50, 100]))). in_int64 n"
  by (simp_all add: fits_int_def small_flow_def in_int64_def)

theorem generated_plan_covers_targets_witness:
  "\<exists>p. Generate plain_generator (Some (small_flow ''percent'' [10, 50, 100])) [''a'', ''b'', ''c''] (Some ''00'') 0 = Some (Inr p) \<and>
    concat (map pb_targets (pl_batches p)) = [''a'', ''b'', ''c'']"
proof -
  obtain p where p: "Generate plain_generator (Some (small_flow ''percent'' [10, 50, 100])) [''a'', ''b'', ''c''] (Some ''00'') 0 = Some (Inr p)"
    by (rule small_plan_made)
  from generated_plan_covers_targets [OF p small_sizes] p show ?thesis by blast
qed

theorem steps_ordered_by_dependencies_witness:
  "\<exists>ord. fst (OrderStepsByDependsOn [flow_step ''b'' ''m'' ''x'' [''a''], flow_step ''a'' ''m'' ''y'' []]) =
     map ((!) [flow_step ''b'' ''m'' ''x'' [''a''], flow_step ''a'' ''m'' ''y'' []]) ord \<and> set ord = {..<2}"
proof -
  let ?steps = "[flow_step ''b'' ''m'' ''x'' [''a''], flow_step ''a'' ''m'' ''y'' []]"
  have "snd (OrderStepsByDependsOn ?steps) = []" by code_simp
  moreover have "length ?steps = 2" by simp
  ultimately show ?thesis using steps_ordered_by_dependencies [of ?steps] by metis
qed

theorem irreversible_needs_authorization_witness:
  "\<exists>p b s. Generate plain_generator (Some (small_flow ''percent'' [10, 50, 100])) [''a'', ''b'', ''c''] (Some ''00'') 0 = Some (Inr p) \<and>
    b \<in> set (pl_batches p) \<and> s \<in> set (pb_steps b) \<and> (ps_irreversible s \<longrightarrow> action_key (ps_module s) (ps_action s) = ''pkg.remove'')"
proof -
  obtain p where p: "Generate plain_generator (Some (small_flow ''percent'' [10, 50, 100])) [''a'', ''b'', ''c''] (Some ''00'') 0 = Some (Inr p)"
    "map (map ps_name \<circ> pb_steps) (pl_batches p) = [[''stop'', ''clean''], [''stop'', ''clean'']]" by (rule small_plan_made)
  let ?b = "hd (pl_batches p)"
  have ne: "pl_batches p \<noteq> []" using p(2) by (metis list.distinct(1) list.map_disc_iff)
  have "map ps_name (pb_steps ?b) = [''stop'', ''clean'']" using arg_cong [OF p(2), of hd] hd_map [OF ne, of "map ps_name \<circ> pb_steps"] by simp
  then obtain s where s: "s \<in> set (pb_steps ?b)" by (metis list.discI list.map_disc_iff list.set_sel(1))
  have b: "?b \<in> set (pl_batches p)" using ne by simp
  from irreversible_needs_authorization [OF p(1) [unfolded plain_policy] b s] p(1) b s show ?thesis
    by (auto simp: small_flow_def)
qed

theorem generated_irreversible_plan_needs_people_witness:
  "\<exists>p. Generate plain_generator (Some (small_flow ''percent'' [10, 50, 100])) [''a'', ''b'', ''c''] (Some ''00'') 0 = Some (Inr p) \<and>
    AutoApproveForbidden (MaxLevel ''standard'' (pl_approval_floor (assessPlanRisk p)))"
proof -
  obtain p where p: "Generate plain_generator (Some (small_flow ''percent'' [10, 50, 100])) [''a'', ''b'', ''c''] (Some ''00'') 0 = Some (Inr p)"
    by (rule small_plan_made)
  have "judged_irreversible (NewPluginActionPolicy [] [] []) (flow_step ''clean'' ''pkg'' ''remove'' [''stop''])" by code_simp
  moreover have "flow_step ''clean'' ''pkg'' ''remove'' [''stop''] \<in> set (wf_steps (small_flow ''percent'' [10, 50, 100]))" by (simp add: small_flow_def)
  ultimately show ?thesis using generated_irreversible_plan_needs_people [OF p [unfolded plain_policy] _ _ small_sizes] p by blast
qed


end
