(* ===== verification/Gate_Manager.thy ===== *)
theory Gate_Manager
  imports Prelude
begin

text \<open>
  \<^verbatim>\<open>internal/verify/gate.go\<close>: the registry of the verification gates and the run of one phase. The gates of a phase are
  checked in goroutines of their own; \<^verbatim>\<open>RunPhase\<close> takes their answers as they arrive. A schedule has the order of
  the arrivals and the error of the context, whose end is what comes when no further answer does. What a gate answers,
  a result and perhaps an error, is an argument: the probes behind the gates reach external systems. Details and latency of a result
  are not modelled, messages are constructors.
\<close>

section \<open>The registry\<close>

datatype gate_phase = PhasePreApply | PhasePostBatch | PhasePostApply | PhaseGracePeriod

definition AllPhases :: "gate_phase list" where
  "AllPhases = [PhasePreApply, PhasePostBatch, PhasePostApply, PhaseGracePeriod]"

record GateInput =
  gi_run_id :: string
  gi_initiator :: string
  gi_batch_id :: string
  gi_targets :: "string list"

datatype gate_message =
    Said string
  | CheckFailed string string
  | AlsoFailed gate_message string
  | SkippedAfter string
  | SkippedByContext string
  | NoopCancelled string string

record GateResult =
  gr_passed :: bool
  gr_message :: gate_message

record gate =
  g_name :: string
  g_phase :: gate_phase

type_synonym GateManager = "gate list"

definition NewGateManager :: GateManager where
  "NewGateManager = []"

definition UnregisterGate :: "string \<Rightarrow> GateManager \<Rightarrow> GateManager" where
  "UnregisterGate n gm = filter (\<lambda>g. g_name g \<noteq> n) gm"

definition RegisterGate :: "gate \<Rightarrow> GateManager \<Rightarrow> GateManager" where
  "RegisterGate g gm = g # UnregisterGate (g_name g) gm"

definition GateNamed :: "GateManager \<Rightarrow> string \<Rightarrow> gate option" where
  "GateNamed gm n = find (\<lambda>g. g_name g = n) gm"

definition Gates :: "GateManager \<Rightarrow> gate_phase \<Rightarrow> gate list" where
  "Gates gm ph = sort_key g_name (filter (\<lambda>g. g_phase g = ph) gm)"

definition GateNames :: "GateManager \<Rightarrow> string list" where
  "GateNames gm = sort (map g_name gm)"

section \<open>A phase\<close>

type_synonym gate_answer = "GateResult \<times> string option"

definition skippedResult :: "gate_message \<Rightarrow> GateResult" where
  "skippedResult m = \<lparr>gr_passed = False, gr_message = m\<rparr>"

text \<open>The result of a gate whose answer has arrived: an error of the check is a failure.\<close>

definition taken :: "string \<Rightarrow> gate_answer \<Rightarrow> GateResult" where
  "taken name a = (case a of
      (r, None) \<Rightarrow> r
    | (r, Some e) \<Rightarrow> r\<lparr>gr_passed := False,
        gr_message := (if gr_message r = Said '''' then CheckFailed name e else AlsoFailed (gr_message r) e)\<rparr>)"

text \<open>The slots that are still open are filled in.\<close>

definition skip_rest :: "GateResult \<Rightarrow> GateResult option list \<Rightarrow> GateResult list" where
  "skip_rest r acc = map (\<lambda>x. case x of None \<Rightarrow> r | Some y \<Rightarrow> y) acc"

fun gather :: "gate list \<Rightarrow> (nat \<Rightarrow> gate_answer) \<Rightarrow> string \<Rightarrow> nat list \<Rightarrow> GateResult option list \<Rightarrow> GateResult list" where
  "gather gs answers ctx [] acc = skip_rest (skippedResult (SkippedByContext ctx)) acc"
| "gather gs answers ctx (i # order) acc =
    (if None \<notin> set acc then skip_rest (skippedResult (SkippedByContext ctx)) acc
     else if length acc \<le> i \<or> acc ! i \<noteq> None then gather gs answers ctx order acc
     else let r = taken (g_name (gs ! i)) (answers i); acc1 = acc[i := Some r]
       in if gr_passed r then gather gs answers ctx order acc1
          else skip_rest (skippedResult (SkippedAfter (g_name (gs ! i)))) acc1)"

definition RunPhase :: "GateManager \<Rightarrow> gate_phase \<Rightarrow> (nat \<Rightarrow> gate_answer) \<Rightarrow> nat list \<times> string \<Rightarrow> GateResult list" where
  "RunPhase gm ph answers sched = (case sched of (order, ctx) \<Rightarrow>
     gather (Gates gm ph) answers ctx order (replicate (length (Gates gm ph)) None))"

definition NoopCheck :: "string \<Rightarrow> bool \<Rightarrow> string option \<Rightarrow> gate_answer" where
  "NoopCheck name pass ctx = (case ctx of
      Some e \<Rightarrow> (\<lparr>gr_passed = False, gr_message = NoopCancelled name e\<rparr>, None)
    | None \<Rightarrow> (\<lparr>gr_passed = pass, gr_message = Said (if pass then ''noop gate passed'' else ''noop gate failed'')\<rparr>, None))"

section \<open>The registry has one gate for a name\<close>

definition well_named :: "GateManager \<Rightarrow> bool" where
  "well_named gm \<longleftrightarrow> key_unique g_name gm"

lemma registry_inv:
  "well_named NewGateManager" "well_named gm \<Longrightarrow> well_named (RegisterGate g gm)" "well_named gm \<Longrightarrow> well_named (UnregisterGate n gm)"
  by (auto simp: well_named_def NewGateManager_def RegisterGate_def UnregisterGate_def key_unique_filter)

lemma gate_lookup:
  "GateNamed (RegisterGate g gm) n = (if n = g_name g then Some g else GateNamed gm n)"
  "GateNamed (UnregisterGate n' gm) n = (if n = n' then None else GateNamed gm n)"
proof -
  have drop: "find (\<lambda>g. g_name g = n) (filter (\<lambda>g. g_name g \<noteq> n') gm) = (if n = n' then None else find (\<lambda>g. g_name g = n) gm)" for n'
    by (induction gm) auto
  show "GateNamed (RegisterGate g gm) n = (if n = g_name g then Some g else GateNamed gm n)"
    "GateNamed (UnregisterGate n' gm) n = (if n = n' then None else GateNamed gm n)"
    by (auto simp: GateNamed_def RegisterGate_def UnregisterGate_def drop)
qed

lemma gates_of_phase:
  assumes "well_named gm"
  shows "set (Gates gm ph) = {g. GateNamed gm (g_name g) = Some g \<and> g_phase g = ph}"
    and "sorted (map g_name (Gates gm ph))" and "distinct (map g_name (Gates gm ph))"
proof -
  have "GateNamed gm (g_name g) = Some g \<longleftrightarrow> g \<in> set gm" for g
    using find_key_unique [of g_name gm g] assms by (auto simp: GateNamed_def well_named_def find_Some_iff)
  then show "set (Gates gm ph) = {g. GateNamed gm (g_name g) = Some g \<and> g_phase g = ph}" by (auto simp: Gates_def)
  show "sorted (map g_name (Gates gm ph))" by (simp add: Gates_def)
  show "distinct (map g_name (Gates gm ph))"
    using assms by (auto simp: Gates_def well_named_def key_unique_def distinct_map inj_on_def)
qed

section \<open>What a phase reports\<close>

definition passing :: "gate_answer \<Rightarrow> bool" where
  "passing a \<longleftrightarrow> gr_passed (fst a) \<and> snd a = None"

lemma taken_passed [simp]: "gr_passed (taken n a) \<longleftrightarrow> passing a"
  by (cases a) (auto simp: taken_def passing_def split: option.splits)

lemma skip_rest_passed:
  "\<not> gr_passed r \<Longrightarrow> list_all gr_passed (skip_rest r acc) \<longleftrightarrow> (\<forall>x\<in>set acc. \<exists>y. x = Some y \<and> gr_passed y)"
  by (auto simp: skip_rest_def list_all_iff split: option.splits)

text \<open>While a phase goes on the open slots are those of the gates that have not answered, and the others have passed.\<close>

definition gathered :: "(nat \<Rightarrow> gate_answer) \<Rightarrow> nat list \<Rightarrow> GateResult option list \<Rightarrow> bool" where
  "gathered answers past acc \<longleftrightarrow> (\<forall>i < length acc. case acc ! i of
      None \<Rightarrow> i \<notin> set past
    | Some r \<Rightarrow> i \<in> set past \<and> gr_passed r \<and> passing (answers i))"

lemma gathered_passed:
  assumes "gathered answers past acc" and "\<not> gr_passed r"
  shows "list_all gr_passed (skip_rest r acc) \<longleftrightarrow> (\<forall>i < length acc. i \<in> set past \<and> passing (answers i))"
  using assms(1) unfolding skip_rest_passed [OF assms(2)] all_set_conv_all_nth gathered_def
  by (auto split: option.splits)

lemma gathered_full: "gathered answers past acc \<Longrightarrow> None \<notin> set acc \<Longrightarrow> i < length acc \<Longrightarrow> i \<in> set past \<and> passing (answers i)"
  unfolding gathered_def by (auto simp: in_set_conv_nth split: option.splits)

lemma gather_verdict:
  assumes "gathered answers past acc"
  shows "length (gather gs answers ctx order acc) = length acc \<and>
    (list_all gr_passed (gather gs answers ctx order acc) \<longleftrightarrow> (\<forall>i < length acc. i \<in> set (past @ order) \<and> passing (answers i)))"
  using assms
proof (induction order arbitrary: past acc)
  case Nil
  have "list_all gr_passed (skip_rest (skippedResult (SkippedByContext ctx)) acc) \<longleftrightarrow> (\<forall>i < length acc. i \<in> set past \<and> passing (answers i))"
    by (rule gathered_passed [OF Nil]) (simp add: skippedResult_def)
  then show ?case by (simp add: skip_rest_def)
next
  case (Cons i order)
  let ?r = "taken (g_name (gs ! i)) (answers i)" and ?acc = "acc[i := Some (taken (g_name (gs ! i)) (answers i))]"
  consider (full) "None \<notin> set acc" | (idle) "None \<in> set acc" "length acc \<le> i \<or> acc ! i \<noteq> None"
    | (passes) "None \<in> set acc" "i < length acc" "acc ! i = None" "passing (answers i)"
    | (fails) "None \<in> set acc" "i < length acc" "acc ! i = None" "\<not> passing (answers i)" by fastforce
  then show ?case
  proof cases
    case full
    have "list_all gr_passed (skip_rest (skippedResult (SkippedByContext ctx)) acc)"
      using gathered_passed [OF Cons.prems, of "skippedResult (SkippedByContext ctx)"] gathered_full [OF Cons.prems full]
      by (simp add: skippedResult_def)
    then show ?thesis using full gathered_full [OF Cons.prems full] by (auto simp: skip_rest_def)
  next
    case idle
    have "gathered answers (past @ [i]) acc" using Cons.prems idle(2) unfolding gathered_def by (fastforce split: option.splits)
    from Cons.IH [OF this] idle show ?thesis by auto
  next
    case passes
    have "gathered answers (past @ [i]) ?acc"
      using Cons.prems passes unfolding gathered_def by (auto simp: nth_list_update split: option.splits)
    from Cons.IH [OF this] passes show ?thesis by (auto simp: Let_def)
  next
    case fails
    have "\<not> list_all gr_passed (skip_rest x ?acc)" for x
    proof -
      have "skip_rest x ?acc ! i = ?r" "i < length (skip_rest x ?acc)" using fails(2) by (simp_all add: skip_rest_def)
      then show ?thesis using fails(4) by (metis list_all_length taken_passed)
    qed
    then show ?thesis using fails by (auto simp: Let_def skip_rest_def)
  qed
qed

lemma run_phase_verdict:
  "length (RunPhase gm ph answers (order, ctx)) = length (Gates gm ph) \<and>
   (list_all gr_passed (RunPhase gm ph answers (order, ctx)) \<longleftrightarrow> (\<forall>i < length (Gates gm ph). i \<in> set order \<and> passing (answers i)))"
  using gather_verdict [of answers "[]" "replicate (length (Gates gm ph)) None" "Gates gm ph" ctx order]
  by (simp add: RunPhase_def gathered_def)

lemma run_phase_length: "length (RunPhase gm ph answers sched) = length (Gates gm ph)"
  using run_phase_verdict [of gm ph answers "fst sched" "snd sched"] by simp

section \<open>Properties\<close>

text \<open>
  C19. A phase has a result for each of its gates, and all of them pass exactly when every gate of the phase has answered, with a pass and without an error.
  So the verdict of a phase does not depend on the order in which the answers arrive, and neither a gate that fails, nor one that cannot run, nor one the
  context cut off is ever reported as a pass.
\<close>

theorem phase_passes_iff_every_gate_does:
  "length (RunPhase gm ph answers (order, ctx)) = length (Gates gm ph) \<and>
   (list_all gr_passed (RunPhase gm ph answers (order, ctx)) \<longleftrightarrow> (\<forall>i < length (Gates gm ph). i \<in> set order \<and> passing (answers i)))"
  by (rule run_phase_verdict)


definition two_gates :: GateManager where
  "two_gates = RegisterGate \<lparr>g_name = ''slo'', g_phase = PhasePostBatch\<rparr>
     (RegisterGate \<lparr>g_name = ''http'', g_phase = PhasePostBatch\<rparr> NewGateManager)"

theorem phase_passes_iff_every_gate_does_witness:
  "list_all gr_passed (RunPhase two_gates PhasePostBatch (\<lambda>i. NoopCheck ''n'' True None) ([1, 0], '''')) \<and>
   \<not> list_all gr_passed (RunPhase two_gates PhasePostBatch (\<lambda>i. NoopCheck ''n'' True None) ([1], ''context canceled''))"
proof -
  have "length (Gates two_gates PhasePostBatch) = 2" by (simp add: Gates_def two_gates_def RegisterGate_def UnregisterGate_def NewGateManager_def)
  then show ?thesis
    using phase_passes_iff_every_gate_does [of two_gates PhasePostBatch "\<lambda>i. NoopCheck ''n'' True None" "[1, 0]" "''''"]
      phase_passes_iff_every_gate_does [of two_gates PhasePostBatch "\<lambda>i. NoopCheck ''n'' True None" "[1]" "''context canceled''"]
    by (auto simp: passing_def NoopCheck_def less_2_cases_iff)
qed

end
