(* ===== verification/Interleaving.thy ===== *)
theory Interleaving
  imports Main
begin

text \<open>
  Goroutines. The code of a goroutine is a \<open>prog\<close>: it returns a value, or asks its surroundings
  (a channel, a context, a callback) and goes on with the reply. \<open>interleave\<close> runs a list of
  goroutines one question at a time in the order a schedule says; \<open>answer\<close> says which reply the shared
  state allows and what becomes of it. A schedule that asks for a reply that is not allowed, or for a
  goroutine that has returned, is no schedule. What holds for every schedule holds for every run.

  \<open>follow\<close> is one goroutine on its own: a run restricted to one goroutine is one of its paths. The
  locale \<open>slot_pool\<close> is the contract of a counting semaphore among goroutines that give back what
  they take: never more than its capacity is out, and somebody can always go on.
\<close>

section \<open>Programs\<close>

datatype ('q, 'r, 'a) prog = Ret 'a | Ask 'q "'r \<Rightarrow> ('q, 'r, 'a) prog"

text \<open>A congruence that leaves the rest of a program alone while its first question is evaluated.\<close>

lemma Ask_weak_cong: "q = q' \<Longrightarrow> Ask q k = Ask q' k"
  by simp

primrec bind_prog :: "('q, 'r, 'a) prog \<Rightarrow> ('a \<Rightarrow> ('q, 'r, 'b) prog) \<Rightarrow> ('q, 'r, 'b) prog" where
  "bind_prog (Ret a) f = f a"
| "bind_prog (Ask q k) f = Ask q (\<lambda>r. bind_prog (k r) f)"

fun returned :: "('q, 'r, 'a) prog \<Rightarrow> 'a option" where
  "returned (Ret a) = Some a"
| "returned (Ask q k) = None"

fun asking :: "('q, 'r, 'a) prog \<Rightarrow> 'q option" where
  "asking (Ret a) = None"
| "asking (Ask q k) = Some q"

fun follow :: "('q, 'r, 'a) prog \<Rightarrow> ('q \<times> 'r) list \<Rightarrow> ('q, 'r, 'a) prog option" where
  "follow p [] = Some p"
| "follow (Ret a) ((q, r) # h) = None"
| "follow (Ask q' k) ((q, r) # h) = (if q = q' then follow (k r) h else None)"

lemma follow_append:
  "follow p (g @ h) = (case follow p g of None \<Rightarrow> None | Some p' \<Rightarrow> follow p' h)"
  by (induction p g rule: follow.induct) auto

text \<open>A path of a program in sequence is a path of the first part, then one of the second.\<close>

lemma follow_bind:
  "follow (bind_prog p f) h = Some (Ret b) \<longleftrightarrow>
   (\<exists>g g' a. h = g @ g' \<and> follow p g = Some (Ret a) \<and> follow (f a) g' = Some (Ret b))"
proof (induction p arbitrary: h)
  case (Ret a)
  show ?case
  proof
    assume "follow (bind_prog (Ret a) f) h = Some (Ret b)"
    then show "\<exists>g g' a'. h = g @ g' \<and> follow (Ret a) g = Some (Ret a') \<and> follow (f a') g' = Some (Ret b)"
      by (intro exI [of _ "[]"] exI [of _ h] exI [of _ a]) simp
  next
    assume "\<exists>g g' a'. h = g @ g' \<and> follow (Ret a) g = Some (Ret a') \<and> follow (f a') g' = Some (Ret b)"
    then obtain g g' a' where h: "h = g @ g'" "follow (Ret a) g = Some (Ret a')" "follow (f a') g' = Some (Ret b)"
      by blast
    then have "g = []" by (cases g) auto
    then show "follow (bind_prog (Ret a) f) h = Some (Ret b)" using h by simp
  qed
next
  case (Ask q k)
  show ?case
  proof (cases h)
    case Nil
    then show ?thesis by auto
  next
    case (Cons qr hs)
    obtain q' r where qr: "qr = (q', r)" by force
    have "follow (bind_prog (Ask q k) f) h = Some (Ret b) \<longleftrightarrow>
      q' = q \<and> (\<exists>g g' a. hs = g @ g' \<and> follow (k r) g = Some (Ret a) \<and> follow (f a) g' = Some (Ret b))"
      using Ask.IH [of "k r" hs] Cons qr by (auto split: if_splits)
    also have "\<dots> \<longleftrightarrow> (\<exists>g g' a. h = g @ g' \<and> follow (Ask q k) g = Some (Ret a) \<and> follow (f a) g' = Some (Ret b))"
      (is "?l \<longleftrightarrow> (\<exists>g g' a. ?r g g' a)")
    proof
      assume ?l
      then obtain g g' a where "q' = q" "hs = g @ g'" "follow (k r) g = Some (Ret a)" "follow (f a) g' = Some (Ret b)"
        by blast
      then have "?r ((q, r) # g) g' a" using Cons qr by simp
      then show "\<exists>g g' a. ?r g g' a" by blast
    next
      assume "\<exists>g g' a. ?r g g' a"
      then obtain g g' a where g: "?r g g' a" by blast
      then obtain g1 where "g = (q', r) # g1" using Cons qr by (cases g) auto
      then show ?l using g Cons qr by (auto split: if_splits)
    qed
    finally show ?thesis .
  qed
qed

section \<open>Running them together\<close>

fun interleave :: "('sh \<Rightarrow> 'q \<Rightarrow> 'r \<Rightarrow> 'sh option) \<Rightarrow> 'sh \<Rightarrow> ('q, 'r, 'a) prog list \<Rightarrow> (nat \<times> 'r) list \<Rightarrow>
  ('sh \<times> ('q, 'r, 'a) prog list \<times> (nat \<times> 'q \<times> 'r) list) option" where
  "interleave answer sh ts [] = Some (sh, ts, [])"
| "interleave answer sh ts ((i, r) # acts) =
    (if i < length ts then
       (case ts ! i of
          Ret a \<Rightarrow> None
        | Ask q k \<Rightarrow>
           (case answer sh q r of
              None \<Rightarrow> None
            | Some sh' \<Rightarrow>
               (case interleave answer sh' (ts[i := k r]) acts of
                  None \<Rightarrow> None
                | Some (sh'', ts'', h) \<Rightarrow> Some (sh'', ts'', (i, q, r) # h))))
     else None)"

text \<open>What goroutine \<open>i\<close> asked and was told.\<close>

definition part_of :: "nat \<Rightarrow> (nat \<times> 'q \<times> 'r) list \<Rightarrow> ('q \<times> 'r) list" where
  "part_of i h = map snd (filter (\<lambda>e. fst e = i) h)"

lemma part_of_simps [simp]:
  "part_of i [] = []"
  "part_of i ((j, q, r) # h) = (if j = i then (q, r) # part_of i h else part_of i h)"
  by (simp_all add: part_of_def)

lemma set_part_of: "(q, r) \<in> set (part_of i h) \<longleftrightarrow> (i, q, r) \<in> set h"
  by (auto simp: part_of_def image_iff)

lemma interleave_ConsE:
  assumes "interleave answer sh ts ((i, r) # acts) = Some (sh'', ts'', h)"
  obtains q k sh' h' where "i < length ts" "ts ! i = Ask q k" "answer sh q r = Some sh'"
    "interleave answer sh' (ts[i := k r]) acts = Some (sh'', ts'', h')" "h = (i, q, r) # h'"
  using assms by (auto split: if_splits prog.splits option.splits)

lemma interleave_length:
  "interleave answer sh ts acts = Some (sh', ts', h) \<Longrightarrow> length ts' = length ts \<and> length h = length acts"
proof (induction acts arbitrary: sh ts h)
  case (Cons a acts)
  obtain i r where a: "a = (i, r)" by force
  from Cons.prems [unfolded a] show ?case by (elim interleave_ConsE) (auto dest: Cons.IH)
qed simp

lemma interleave_part:
  assumes "interleave answer sh ts acts = Some (sh', ts', h)" and "i < length ts"
  shows "follow (ts ! i) (part_of i h) = Some (ts' ! i)"
  using assms
proof (induction acts arbitrary: sh ts h)
  case (Cons a acts)
  obtain j r where a: "a = (j, r)" by force
  from Cons.prems(1) [unfolded a] obtain q k sh1 h1 where step: "j < length ts" "ts ! j = Ask q k"
    "interleave answer sh1 (ts[j := k r]) acts = Some (sh', ts', h1)" "h = (j, q, r) # h1"
    by (elim interleave_ConsE)
  from Cons.IH [OF step(3)] Cons.prems(2) have "follow (ts[j := k r] ! i) (part_of i h1) = Some (ts' ! i)" by simp
  then show ?case using step by (cases "i = j") auto
qed simp

lemma interleave_indices:
  "interleave answer sh ts acts = Some (sh', ts', h) \<Longrightarrow> (i, q, r) \<in> set h \<Longrightarrow> i < length ts"
proof (induction acts arbitrary: sh ts h)
  case (Cons a acts)
  obtain j s where a: "a = (j, s)" by force
  from Cons.prems(1) [unfolded a] show ?case
    by (elim interleave_ConsE) (use Cons.prems(2) Cons.IH in fastforce)
qed simp

text \<open>Everything asked was allowed: a relation kept by every answer holds between the ends of a run,
  and a property every answer needs holds of everything in the history.\<close>

lemma interleave_invariant:
  assumes step: "\<And>sh q r sh'. answer sh q r = Some sh' \<Longrightarrow> P sh \<Longrightarrow> P sh'"
    and "interleave answer sh ts acts = Some (sh', ts', h)" and "P sh"
  shows "P sh'"
  using assms(2,3)
proof (induction acts arbitrary: sh ts h)
  case (Cons a acts)
  obtain j r where a: "a = (j, r)" by force
  from Cons.prems(1) [unfolded a] show ?case
    by (elim interleave_ConsE) (use step Cons in blast)
qed simp

lemma interleave_history:
  assumes fits: "\<And>sh q r sh'. answer sh q r = Some sh' \<Longrightarrow> F q r"
    and "interleave answer sh ts acts = Some (sh', ts', h)" and "(i, q, r) \<in> set h"
  shows "F q r"
  using assms(2,3)
proof (induction acts arbitrary: sh ts h)
  case (Cons a acts)
  obtain j s where a: "a = (j, s)" by force
  from Cons.prems(1) [unfolded a] show ?case
    by (elim interleave_ConsE) (use fits Cons in fastforce)
qed simp

lemma interleave_append:
  "interleave answer sh ts (as @ bs) =
   (case interleave answer sh ts as of
      None \<Rightarrow> None
    | Some (sh', ts', h) \<Rightarrow>
       (case interleave answer sh' ts' bs of
          None \<Rightarrow> None
        | Some (sh'', ts'', h') \<Rightarrow> Some (sh'', ts'', h @ h')))"
proof (induction as arbitrary: sh ts)
  case (Cons a as)
  obtain i r where "a = (i, r)" by force
  then show ?case by (auto simp: Cons.IH split: option.splits prog.splits)
qed (simp split: option.splits)

lemma interleave_split:
  assumes "interleave answer sh ts acts = Some (sh', ts', g @ h)"
  shows "\<exists>sh1 ts1. interleave answer sh ts (take (length g) acts) = Some (sh1, ts1, g) \<and>
    interleave answer sh1 ts1 (drop (length g) acts) = Some (sh', ts', h)"
proof -
  let ?n = "length g"
  have "interleave answer sh ts (take ?n acts @ drop ?n acts) = Some (sh', ts', g @ h)" using assms by simp
  then obtain sh1 ts1 g' h' where parts: "interleave answer sh ts (take ?n acts) = Some (sh1, ts1, g')"
    "interleave answer sh1 ts1 (drop ?n acts) = Some (sh', ts', h')" "g @ h = g' @ h'"
    unfolding interleave_append by (auto split: option.splits)
  have "length g' = length g" using interleave_length [OF parts(1)] interleave_length [OF assms] by simp
  then show ?thesis using parts by auto
qed

lemma interleave_single:
  assumes "interleave answer sh ts acts = Some (sh', ts', [(i, q, r)])"
  shows "answer sh q r = Some sh'"
proof -
  obtain a where "acts = [a]" using interleave_length [OF assms] by (cases acts) auto
  then show ?thesis using assms by (cases a) (auto split: if_splits prog.splits option.splits)
qed

section \<open>What a program asks\<close>

primrec asks_only :: "('q \<Rightarrow> bool) \<Rightarrow> ('q, 'r, 'a) prog \<Rightarrow> bool" where
  "asks_only P (Ret a) = True"
| "asks_only P (Ask q k) = (P q \<and> (\<forall>r. asks_only P (k r)))"

lemma asks_only_bind: "asks_only P p \<Longrightarrow> (\<And>a. asks_only P (f a)) \<Longrightarrow> asks_only P (bind_prog p f)"
  by (induction p) auto

lemma asks_only_mono: "asks_only P p \<Longrightarrow> (\<And>q. P q \<Longrightarrow> Q q) \<Longrightarrow> asks_only Q p"
  by (induction p) auto

lemma interleave_asks:
  assumes "interleave answer sh ts acts = Some (sh', ts', h)" and "\<forall>p\<in>set ts. asks_only P p" and "(i, q, r) \<in> set h"
  shows "P q"
  using assms
proof (induction acts arbitrary: sh ts h)
  case (Cons a acts)
  obtain j s where a: "a = (j, s)" by force
  from Cons.prems(1) [unfolded a] obtain q1 k sh1 h1 where step: "j < length ts" "ts ! j = Ask q1 k"
    "interleave answer sh1 (ts[j := k s]) acts = Some (sh', ts', h1)" "h = (j, q1, s) # h1"
    by (elim interleave_ConsE)
  have "asks_only P (Ask q1 k)" using Cons.prems(2) step(1,2) by (metis nth_mem)
  moreover from this have "\<forall>p\<in>set (ts[j := k s]). asks_only P p"
    using Cons.prems(2) by (auto dest: set_update_subset_insert [THEN subsetD])
  ultimately show ?case using Cons.IH [OF step(3)] Cons.prems(3) step(4) by auto
qed simp

section \<open>How far a program goes\<close>

text \<open>\<open>within fits n p\<close>: \<open>p\<close> asks at most \<open>n\<close> questions, whatever fitting replies it gets.\<close>

primrec within :: "('q \<Rightarrow> 'r \<Rightarrow> bool) \<Rightarrow> ('q, 'r, 'a) prog \<Rightarrow> nat \<Rightarrow> bool" where
  "within fits (Ret a) = (\<lambda>n. True)"
| "within fits (Ask q k) = (\<lambda>n. 0 < n \<and> (\<forall>r. fits q r \<longrightarrow> within fits (k r) (n - 1)))"

lemma within_mono: "within fits p n \<Longrightarrow> n \<le> m \<Longrightarrow> within fits p m"
proof (induction p arbitrary: n m)
  case (Ask q k)
  from Ask.prems have n: "0 < n" "\<And>r. fits q r \<Longrightarrow> within fits (k r) (n - 1)" by auto
  have "within fits (k r) (m - 1)" if "fits q r" for r
    by (rule Ask.IH [OF _ n(2) [OF that]]) (use Ask.prems(2) in auto)
  then show ?case using n(1) Ask.prems(2) by simp
qed simp

lemma within_bind:
  "within fits p n \<Longrightarrow> (\<And>a. within fits (f a) m) \<Longrightarrow> within fits (bind_prog p f) (n + m)"
proof (induction p arbitrary: n)
  case (Ret a)
  show ?case using within_mono [OF Ret.prems(2)] by simp
next
  case (Ask q k)
  have "within fits (bind_prog (k r) f) (n + m - 1)" if "fits q r" for r
  proof -
    have "within fits (bind_prog (k r) f) (n - 1 + m)"
      by (rule Ask.IH [OF _ _ Ask.prems(2)]) (use that Ask.prems(1) in auto)
    then show ?thesis using Ask.prems(1) by simp
  qed
  then show ?case using Ask.prems(1) by simp
qed

section \<open>The contract of a pool of slots\<close>

text \<open>\<open>owes fits gain busy e p n\<close>: a program that starts with \<open>n\<close> slots ends with \<open>e\<close>, in between never has
  less than none or more than one, and has one whenever it asks a \<open>busy\<close> question.\<close>

primrec owes :: "('q \<Rightarrow> 'r \<Rightarrow> bool) \<Rightarrow> ('q \<Rightarrow> 'r \<Rightarrow> int) \<Rightarrow> ('q \<Rightarrow> bool) \<Rightarrow> int \<Rightarrow> ('q, 'r, 'a) prog \<Rightarrow> int \<Rightarrow> bool" where
  "owes fits gain busy e (Ret a) = (\<lambda>n. n = e)"
| "owes fits gain busy e (Ask q k) =
    (\<lambda>n. 0 \<le> n \<and> n \<le> 1 \<and> (busy q \<longrightarrow> n = 1) \<and> (\<forall>r. fits q r \<longrightarrow> owes fits gain busy e (k r) (n + gain q r)))"

lemma owes_bind:
  "owes fits gain busy e p n \<Longrightarrow> (\<And>a. owes fits gain busy e' (f a) e) \<Longrightarrow> owes fits gain busy e' (bind_prog p f) n"
  by (induction p arbitrary: n) auto

lemma owes_range: "owes fits gain busy e p n \<Longrightarrow> 0 \<le> e \<Longrightarrow> e \<le> 1 \<Longrightarrow> 0 \<le> n \<and> n \<le> 1"
  by (cases p) auto

lemma sum_list_step: "i < length ns \<Longrightarrow> sum_list (ns[i := ns ! i + d]) = sum_list ns + (d :: int)"
  by (induction ns arbitrary: i) (auto split: nat.splits)

lemma sum_list_member: "(\<And>n. n \<in> set ns \<Longrightarrow> 0 \<le> n) \<Longrightarrow> i < length ns \<Longrightarrow> ns ! i \<le> sum_list (ns :: int list)"
  by (simp add: elem_le_sum_list member_le_sum_list)

lemma positive_member: "0 < sum_list (ns :: int list) \<Longrightarrow> \<exists>i < length ns. 0 < ns ! i"
proof (rule ccontr)
  assume pos: "0 < sum_list ns" and "\<not> (\<exists>i < length ns. 0 < ns ! i)"
  then have "\<And>n. n \<in> set ns \<Longrightarrow> n \<le> 0" by (metis in_set_conv_nth not_less)
  then have "sum_list ns \<le> 0" by (rule sum_list_nonpos)
  then show False using pos by simp
qed

locale slot_pool =
  fixes answer :: "'sh \<Rightarrow> 'q \<Rightarrow> 'r \<Rightarrow> 'sh option"
    and fits :: "'q \<Rightarrow> 'r \<Rightarrow> bool"
    and gain :: "'q \<Rightarrow> 'r \<Rightarrow> int"
    and busy :: "'q \<Rightarrow> bool"
    and held :: "'sh \<Rightarrow> int"
    and cap :: "'sh \<Rightarrow> int"
    and calm :: "'sh \<Rightarrow> 'sh \<Rightarrow> bool"
  assumes answer_fits: "answer sh q r = Some sh' \<Longrightarrow> fits q r"
    and answer_held: "answer sh q r = Some sh' \<Longrightarrow> held sh' = held sh + gain q r"
    and answer_cap: "answer sh q r = Some sh' \<Longrightarrow> cap sh' = cap sh"
    and answer_limit: "answer sh q r = Some sh' \<Longrightarrow> held sh \<le> cap sh \<Longrightarrow> held sh' \<le> cap sh'"
    and answered: "(\<exists>r sh'. answer sh q r = Some sh' \<and> calm sh sh') \<or>
      cap sh \<le> held sh \<and> (\<exists>r. fits q r \<and> gain q r = 1) \<or>
      held sh \<le> 0 \<and> (\<exists>r. fits q r \<and> gain q r = - 1)"
    and calm_refl: "calm sh sh"
    and calm_trans: "calm sh sh' \<Longrightarrow> calm sh' sh'' \<Longrightarrow> calm sh sh''"
begin

definition balanced :: "'sh \<Rightarrow> ('q, 'r, 'a) prog list \<Rightarrow> int list \<Rightarrow> bool" where
  "balanced sh ts ns \<longleftrightarrow> list_all2 (owes fits gain busy 0) ts ns \<and> held sh = sum_list ns \<and> held sh \<le> cap sh"

lemma balanced_step:
  assumes bal: "balanced sh ts ns" and i: "i < length ts" "ts ! i = Ask q k" and ans: "answer sh q r = Some sh'"
  shows "balanced sh' (ts[i := k r]) (ns[i := ns ! i + gain q r])"
proof -
  have len: "length ns = length ts" using bal by (auto simp: balanced_def dest: list_all2_lengthD)
  have "owes fits gain busy 0 (ts ! i) (ns ! i)" using bal i(1) by (auto simp: balanced_def list_all2_conv_all_nth)
  then have "owes fits gain busy 0 (k r) (ns ! i + gain q r)" using i(2) answer_fits [OF ans] by simp
  then have "list_all2 (owes fits gain busy 0) (ts[i := k r]) (ns[i := ns ! i + gain q r])"
    using bal by (auto simp: balanced_def intro: list_all2_update_cong)
  moreover have "sum_list (ns[i := ns ! i + gain q r]) = sum_list ns + gain q r"
    using sum_list_step [of i ns] i(1) len by simp
  ultimately show ?thesis
    using bal answer_held [OF ans] answer_limit [OF ans] by (simp add: balanced_def)
qed

lemma run_balanced:
  assumes "interleave answer sh ts acts = Some (sh', ts', h)" and "balanced sh ts ns"
  shows "\<exists>ns'. balanced sh' ts' ns'"
  using assms
proof (induction acts arbitrary: sh ts h ns)
  case (Cons a acts)
  obtain j r where a: "a = (j, r)" by force
  from Cons.prems(1) [unfolded a] show ?case
    by (elim interleave_ConsE) (use Cons balanced_step in blast)
qed auto

lemma run_cap: "interleave answer sh ts acts = Some (sh', ts', h) \<Longrightarrow> cap sh' = cap sh"
  using interleave_invariant [of answer "\<lambda>s. cap s = cap sh"] answer_cap by metis

text \<open>At most \<open>cap\<close> goroutines ask a \<open>busy\<close> question at the same time.\<close>

lemma busy_bounded:
  assumes bal: "balanced sh ts ns"
  shows "int (length (filter (\<lambda>p. case asking p of None \<Rightarrow> False | Some q \<Rightarrow> busy q) ts)) \<le> cap sh"
proof -
  have "list_all2 (owes fits gain busy 0) ts ns \<Longrightarrow>
    int (length (filter (\<lambda>p. case asking p of None \<Rightarrow> False | Some q \<Rightarrow> busy q) ts)) \<le> sum_list ns"
  proof (induction ts ns rule: list_all2_induct)
    case (Cons t ts n ns)
    then show ?case by (cases t) auto
  qed simp
  then show ?thesis using bal by (simp add: balanced_def)
qed

lemma not_stuck:
  assumes bal: "balanced sh ts ns" and cap: "0 < cap sh" and open_: "i < length ts" "returned (ts ! i) = None"
  shows "\<exists>j r q k sh'. j < length ts \<and> ts ! j = Ask q k \<and> answer sh q r = Some sh' \<and> calm sh sh'"
proof -
  have own: "owes fits gain busy 0 (ts ! j) (ns ! j)" if "j < length ts" for j
    using bal that by (auto simp: balanced_def list_all2_conv_all_nth)
  have len: "length ns = length ts" using bal by (auto simp: balanced_def dest: list_all2_lengthD)
  have nonneg: "0 \<le> n" if "n \<in> set ns" for n
    using that own owes_range len by (metis in_set_conv_nth order_refl zero_le_one)
  show ?thesis
  proof (cases "0 < held sh")
    case True
    then obtain j where j: "j < length ts" "0 < ns ! j"
      using positive_member [of ns] bal len by (auto simp: balanced_def)
    obtain q k where q: "ts ! j = Ask q k" using own [OF j(1)] j(2) by (cases "ts ! j") auto
    have "\<not> (\<exists>r. fits q r \<and> gain q r = 1)"
    proof
      assume "\<exists>r. fits q r \<and> gain q r = 1"
      then obtain r where "fits q r" "gain q r = 1" by blast
      then have "owes fits gain busy 0 (k r) (ns ! j + 1)" using own [OF j(1)] q by (metis owes.simps(2))
      then show False using owes_range j(2) by fastforce
    qed
    then show ?thesis using answered [of sh q] True j(1) q by fastforce
  next
    case False
    obtain q k where q: "ts ! i = Ask q k" using open_(2) by (cases "ts ! i") auto
    have zero: "ns ! i \<le> 0"
      using sum_list_member [of ns i] nonneg False bal open_(1) len by (fastforce simp: balanced_def)
    have "\<not> (\<exists>r. fits q r \<and> gain q r = - 1)"
    proof
      assume "\<exists>r. fits q r \<and> gain q r = - 1"
      then obtain r where "fits q r" "gain q r = - 1" by blast
      then have "owes fits gain busy 0 (k r) (ns ! i + - 1)" using own [OF open_(1)] q by (metis owes.simps(2))
      then show False using owes_range zero by fastforce
    qed
    then show ?thesis using answered [of sh q] cap False open_(1) q by fastforce
  qed
qed

text \<open>Every schedule ends, and every run can be brought to its end without help from outside.\<close>

lemma budget_step:
  assumes "list_all2 (within fits) ts ms" "i < length ts" "ts ! i = Ask q k" "fits q r"
  shows "list_all2 (within fits) (ts[i := k r]) (ms[i := ms ! i - 1]) \<and>
    Suc (sum_list (ms[i := ms ! i - 1])) = sum_list ms"
proof -
  have i: "within fits (ts ! i) (ms ! i)" "i < length ms"
    using assms(1,2) by (auto simp: list_all2_conv_all_nth)
  then have "0 < ms ! i" "within fits (k r) (ms ! i - 1)" using assms(3,4) by auto
  moreover have "ms ! i \<le> sum_list ms" using i(2) by (simp add: elem_le_sum_list)
  ultimately show ?thesis
    using assms(1) i(2) by (simp add: list_all2_update_cong sum_list_update)
qed

lemma run_length:
  assumes "interleave answer sh ts acts = Some (sh', ts', h)" and "list_all2 (within fits) ts ms"
  shows "length acts \<le> sum_list ms"
  using assms
proof (induction acts arbitrary: sh ts h ms)
  case (Cons a acts)
  obtain j r where a: "a = (j, r)" by force
  from Cons.prems(1) [unfolded a] obtain q k sh1 h1 where step: "j < length ts" "ts ! j = Ask q k"
    "answer sh q r = Some sh1" "interleave answer sh1 (ts[j := k r]) acts = Some (sh', ts', h1)"
    by (elim interleave_ConsE)
  from budget_step [OF Cons.prems(2) step(1,2) answer_fits [OF step(3)]] Cons.IH [OF step(4)]
  show ?case by fastforce
qed simp

lemma run_within:
  assumes "interleave answer sh ts acts = Some (sh', ts', h)" and "list_all2 (within fits) ts ms"
  shows "\<exists>ms'. list_all2 (within fits) ts' ms'"
  using assms
proof (induction acts arbitrary: sh ts h ms)
  case (Cons a acts)
  obtain j r where a: "a = (j, r)" by force
  from Cons.prems(1) [unfolded a] show ?case
    by (elim interleave_ConsE) (use Cons.IH Cons.prems(2) budget_step answer_fits in blast)
qed auto

lemma completes:
  assumes "balanced sh ts ns" and "list_all2 (within fits) ts ms" and "0 < cap sh"
  shows "\<exists>acts sh' ts' h. interleave answer sh ts acts = Some (sh', ts', h) \<and> calm sh sh' \<and>
    (\<forall>p\<in>set ts'. returned p \<noteq> None)"
  using assms
proof (induction "sum_list ms" arbitrary: sh ts ns ms rule: less_induct)
  case less
  show ?case
  proof (cases "\<forall>p\<in>set ts. returned p \<noteq> None")
    case True
    then have "interleave answer sh ts [] = Some (sh, ts, []) \<and> calm sh sh \<and> (\<forall>p\<in>set ts. returned p \<noteq> None)"
      by (simp add: calm_refl)
    then show ?thesis by blast
  next
    case False
    then obtain i where "i < length ts" "returned (ts ! i) = None" by (auto simp: in_set_conv_nth)
    from not_stuck [OF less.prems(1,3) this] obtain j r q k sh1 where
      j: "j < length ts" "ts ! j = Ask q k" "answer sh q r = Some sh1" "calm sh sh1" by blast
    note budget = budget_step [OF less.prems(2) j(1,2) answer_fits [OF j(3)]]
    have "sum_list (ms[j := ms ! j - 1]) < sum_list ms" using budget by linarith
    from less.hyps [OF this balanced_step [OF less.prems(1) j(1-3)] conjunct1 [OF budget]]
    obtain acts sh' ts' h where rest: "interleave answer sh1 (ts[j := k r]) acts = Some (sh', ts', h)"
      "calm sh1 sh'" "\<forall>p\<in>set ts'. returned p \<noteq> None"
      using less.prems(3) answer_cap [OF j(3)] by metis
    have "interleave answer sh ts ((j, r) # acts) = Some (sh', ts', (j, q, r) # h)" using j rest(1) by simp
    then show ?thesis using rest(2,3) calm_trans [OF j(4)] by blast
  qed
qed

end

end
