(* ===== verification/Batch_Controller.thy ===== *)
theory Batch_Controller
  imports Interleaving Plan_Hash
begin

text \<open>
  \<^verbatim>\<open>internal/batch/controller.go\<close>: the controller that applies a plan. Batches run one after the
  other; the targets of a batch are goroutines that share a semaphore of \<^verbatim>\<open>MaxConcurrency\<close> slots, the
  flag \<^verbatim>\<open>failed\<close> and the context of the batch; the steps of a target run in sequence.

  A goroutine is a \<open>prog\<close> whose questions are its calls to the semaphore, the limiter, the context and
  the callback; \<open>batch_answer\<close> says what may be replied. The parent context may be cancelled at any
  moment: the model lets that happen when somebody looks, which nobody can tell from the moment
  before. \<open>Execute\<close> takes a script (a schedule per batch) and is \<open>None\<close> on a script that is none.
  The durations in the results, which nothing reads, are left out.
\<close>

section \<open>Results\<close>

datatype ErrorPolicy = PolicyContinue | PolicyAbort

datatype batch_error =
    Canceled
  | DeadlineExceeded
  | CallbackError string
  | CallbackFenced string
  | TargetSkipped string batch_error
  | ManagerAcquireFailed string batch_error
  | LimiterAcquireFailed string batch_error
  | TargetPanicked string string
  | StepSkipped string string batch_error
  | StepFailed string string batch_error
  | BatchSkipped int batch_error
  | LE002 string

text \<open>\<open>CallbackFenced\<close> is an error of the callback whose chain has \<^verbatim>\<open>engine.ErrFencedOut\<close>; the wrapping with
  \<^verbatim>\<open>%w\<close> keeps the chain, the message of a panic does not. \<open>is_fenced\<close> is \<^verbatim>\<open>errors.Is\<close> for that sentinel.\<close>

fun is_fenced :: "batch_error \<Rightarrow> bool" where
  "is_fenced (CallbackFenced s) = True"
| "is_fenced (TargetSkipped t e) = is_fenced e"
| "is_fenced (ManagerAcquireFailed t e) = is_fenced e"
| "is_fenced (LimiterAcquireFailed t e) = is_fenced e"
| "is_fenced (StepSkipped t s e) = is_fenced e"
| "is_fenced (StepFailed t s e) = is_fenced e"
| "is_fenced (BatchSkipped i e) = is_fenced e"
| "is_fenced e = False"

record StepResult =
  sr_step :: string
  sr_error :: "batch_error option"

record TargetResult =
  tr_target :: string
  tr_steps :: "StepResult list"
  tr_error :: "batch_error option"

record BatchResult =
  br_index :: int
  br_targets :: "TargetResult list"
  br_error :: "batch_error option"

section \<open>The controller\<close>

record Controller =
  c_delay :: int
  c_batch_policy :: ErrorPolicy
  c_target_policy :: ErrorPolicy
  c_limiter :: bool
  c_manager :: bool

definition NewController :: "(Controller \<Rightarrow> Controller) list \<Rightarrow> Controller" where
  "NewController opts = fold (\<lambda>opt c. opt c) opts
     \<lparr>c_delay = 0, c_batch_policy = PolicyAbort, c_target_policy = PolicyAbort, c_limiter = False, c_manager = False\<rparr>"

definition WithInterBatchDelay :: "int \<Rightarrow> Controller \<Rightarrow> Controller" where
  "WithInterBatchDelay d c = c\<lparr>c_delay := d\<rparr>"

definition WithBatchErrorPolicy :: "ErrorPolicy \<Rightarrow> Controller \<Rightarrow> Controller" where
  "WithBatchErrorPolicy p c = c\<lparr>c_batch_policy := p\<rparr>"

definition WithTargetErrorPolicy :: "ErrorPolicy \<Rightarrow> Controller \<Rightarrow> Controller" where
  "WithTargetErrorPolicy p c = c\<lparr>c_target_policy := p\<rparr>"

definition WithConcurrencyLimiter :: "bool \<Rightarrow> Controller \<Rightarrow> Controller" where
  "WithConcurrencyLimiter l c = c\<lparr>c_limiter := l\<rparr>"

definition WithConcurrencyManager :: "bool \<Rightarrow> Controller \<Rightarrow> Controller" where
  "WithConcurrencyManager m c = c\<lparr>c_manager := m\<rparr>"

section \<open>A target\<close>

datatype batch_query =
    QSlot
  | QSlotRelease
  | QManagerAcquire string
  | QManagerRelease string
  | QLimiterAcquire string
  | QLimiterRelease string
  | QCtxErr
  | QExec plan_batch string plan_step
  | QSetFailed
  | QCancel

datatype batch_reply =
    RUnit
  | RSlot
  | RGone batch_error
  | RErr "batch_error option"
  | RPanic string

type_synonym 'a batch_prog = "(batch_query, batch_reply, 'a) prog"

text \<open>The loop of \<^verbatim>\<open>executeTarget\<close> over the steps that are left, with the results so far and
  \<^verbatim>\<open>tr.Error\<close>. A panic of the callback unwinds the loop (\<open>Inl\<close>).\<close>

fun executeSteps :: "Controller \<Rightarrow> plan_batch \<Rightarrow> string \<Rightarrow> plan_step list \<Rightarrow> StepResult list \<Rightarrow>
  batch_error option \<Rightarrow> (string + TargetResult) batch_prog" where
  "executeSteps c b target [] acc err = Ret (Inr \<lparr>tr_target = target, tr_steps = acc, tr_error = err\<rparr>)"
| "executeSteps c b target (step # steps) acc err =
    Ask QCtxErr (\<lambda>gone. case gone of
      RErr (Some e) \<Rightarrow> Ret (Inr \<lparr>tr_target = target, tr_steps = acc,
                              tr_error = Some (StepSkipped target (ps_name step) e)\<rparr>)
    | _ \<Rightarrow> Ask (QExec b target step) (\<lambda>reply. case reply of
        RPanic m \<Rightarrow> Ret (Inl m)
      | RErr (Some e) \<Rightarrow>
         (let acc' = acc @ [\<lparr>sr_step = ps_name step, sr_error = Some e\<rparr>];
              err' = (if err = None then Some (StepFailed target (ps_name step) e) else err)
          in if c_target_policy c = PolicyAbort
             then Ret (Inr \<lparr>tr_target = target, tr_steps = acc', tr_error = err'\<rparr>)
             else executeSteps c b target steps acc' err')
      | _ \<Rightarrow> executeSteps c b target steps (acc @ [\<lparr>sr_step = ps_name step, sr_error = None\<rparr>]) err))"

definition executeTarget :: "Controller \<Rightarrow> plan_batch \<Rightarrow> string \<Rightarrow> (string + TargetResult) batch_prog" where
  "executeTarget c b target = executeSteps c b target (pb_steps b) [] None"

text \<open>\<^verbatim>\<open>atomic.StoreInt32(&failed, 1)\<close>, then \<^verbatim>\<open>batchCancel()\<close> if the policy says so.\<close>

definition mark_failed :: "Controller \<Rightarrow> 'a batch_prog \<Rightarrow> 'a batch_prog" where
  "mark_failed c next =
    Ask QSetFailed (\<lambda>_. if c_target_policy c = PolicyAbort then Ask QCancel (\<lambda>_. next) else next)"

definition failed_result :: "string \<Rightarrow> batch_error \<Rightarrow> TargetResult" where
  "failed_result target e = \<lparr>tr_target = target, tr_steps = [], tr_error = Some e\<rparr>"

text \<open>The part of the goroutine after the limiter: \<open>release\<close> is the deferred release of the limiter,
  which runs before that of the semaphore; the recovery from a panic runs after both.\<close>

definition run_target :: "Controller \<Rightarrow> plan_batch \<Rightarrow> string \<Rightarrow> batch_query option \<Rightarrow> TargetResult batch_prog" where
  "run_target c b target release =
    (let unwind = (\<lambda>next. case release of
           None \<Rightarrow> Ask QSlotRelease (\<lambda>_. next)
         | Some q \<Rightarrow> Ask q (\<lambda>_. Ask QSlotRelease (\<lambda>_. next)))
     in bind_prog (executeTarget c b target) (\<lambda>res. case res of
          Inl m \<Rightarrow> unwind (mark_failed c (Ret (failed_result target (TargetPanicked target m))))
        | Inr tr \<Rightarrow> if tr_error tr \<noteq> None then mark_failed c (unwind (Ret tr)) else unwind (Ret tr)))"

definition batch_goroutine :: "Controller \<Rightarrow> plan_batch \<Rightarrow> string \<Rightarrow> TargetResult batch_prog" where
  "batch_goroutine c b target =
    Ask QSlot (\<lambda>reply. case reply of
      RGone e \<Rightarrow> Ask QSetFailed (\<lambda>_. Ret (failed_result target (TargetSkipped target e)))
    | _ \<Rightarrow>
      if c_manager c then
        Ask (QManagerAcquire target) (\<lambda>reply. case reply of
          RErr (Some e) \<Rightarrow> mark_failed c (Ask QSlotRelease (\<lambda>_. Ret (failed_result target (ManagerAcquireFailed target e))))
        | _ \<Rightarrow> run_target c b target (Some (QManagerRelease target)))
      else if c_limiter c then
        Ask (QLimiterAcquire target) (\<lambda>reply. case reply of
          RErr (Some e) \<Rightarrow> mark_failed c (Ask QSlotRelease (\<lambda>_. Ret (failed_result target (LimiterAcquireFailed target e))))
        | _ \<Rightarrow> run_target c b target (Some (QLimiterRelease target)))
      else run_target c b target None)"

section \<open>A batch\<close>

record batch_shared =
  bs_cap :: int
  bs_held :: int
  bs_parent :: "batch_error option"
  bs_ctx :: "batch_error option"
  bs_failed :: bool

text \<open>Looking at a context: its error once it is gone; a parent that is not gone may go now.\<close>

definition ctx_causes :: "batch_error list" where "ctx_causes = [Canceled, DeadlineExceeded]"

definition look_parent :: "batch_error option \<Rightarrow> batch_error option \<Rightarrow> bool" where
  "look_parent parent seen = (case parent of
      Some e \<Rightarrow> seen = Some e
    | None \<Rightarrow> (case seen of None \<Rightarrow> True | Some e \<Rightarrow> e \<in> set ctx_causes))"

definition look_gone :: "batch_shared \<Rightarrow> batch_error \<Rightarrow> batch_shared option" where
  "look_gone sh e = (case bs_ctx sh of
      Some e' \<Rightarrow> if e = e' then Some sh else None
    | None \<Rightarrow> if bs_parent sh = None \<and> e \<in> set ctx_causes
        then Some (sh\<lparr>bs_parent := Some e, bs_ctx := Some e\<rparr>) else None)"

fun batch_answer :: "batch_shared \<Rightarrow> batch_query \<Rightarrow> batch_reply \<Rightarrow> batch_shared option" where
  "batch_answer sh QSlot RSlot = (if bs_held sh < bs_cap sh then Some (sh\<lparr>bs_held := bs_held sh + 1\<rparr>) else None)"
| "batch_answer sh QSlot (RGone e) = look_gone sh e"
| "batch_answer sh QSlotRelease RUnit = (if 0 < bs_held sh then Some (sh\<lparr>bs_held := bs_held sh - 1\<rparr>) else None)"
| "batch_answer sh (QManagerAcquire t) (RErr e) = Some sh"
| "batch_answer sh (QManagerRelease t) RUnit = Some sh"
| "batch_answer sh (QLimiterAcquire t) (RErr e) = Some sh"
| "batch_answer sh (QLimiterRelease t) RUnit = Some sh"
| "batch_answer sh QCtxErr (RErr None) = (if bs_ctx sh = None then Some sh else None)"
| "batch_answer sh QCtxErr (RErr (Some e)) = look_gone sh e"
| "batch_answer sh (QExec b t s) (RErr e) = Some sh"
| "batch_answer sh (QExec b t s) (RPanic m) = Some sh"
| "batch_answer sh QSetFailed RUnit = Some (sh\<lparr>bs_failed := True\<rparr>)"
| "batch_answer sh QCancel RUnit = Some (case bs_ctx sh of None \<Rightarrow> sh\<lparr>bs_ctx := Some Canceled\<rparr> | Some e \<Rightarrow> sh)"
| "batch_answer sh q r = None"

text \<open>The capacity of the semaphore: \<^verbatim>\<open>MaxConcurrency\<close>, or the number of targets where that is not
  positive or larger.\<close>

definition batch_cap :: "plan_batch \<Rightarrow> int" where
  "batch_cap b = (if pb_max_concurrency b \<le> 0 \<or> pb_max_concurrency b > int (length (pb_targets b))
     then int (length (pb_targets b)) else pb_max_concurrency b)"

definition batch_start :: "plan_batch \<Rightarrow> batch_error option \<Rightarrow> batch_shared" where
  "batch_start b parent = \<lparr>bs_cap = batch_cap b, bs_held = 0, bs_parent = parent, bs_ctx = parent, bs_failed = False\<rparr>"

type_synonym batch_history = "(nat \<times> batch_query \<times> batch_reply) list"

definition run_batch :: "Controller \<Rightarrow> plan_batch \<Rightarrow> batch_error option \<Rightarrow> (nat \<times> batch_reply) list \<Rightarrow>
  (batch_shared \<times> TargetResult batch_prog list \<times> batch_history) option" where
  "run_batch c b parent acts =
    interleave batch_answer (batch_start b parent) (map (batch_goroutine c b) (pb_targets b)) acts"

definition first_error :: "TargetResult list \<Rightarrow> batch_error option" where
  "first_error trs = (case filter (\<lambda>tr. tr_error tr \<noteq> None) trs of [] \<Rightarrow> None | tr # _ \<Rightarrow> tr_error tr)"

definition executeBatch :: "Controller \<Rightarrow> plan_batch \<Rightarrow> batch_error option \<Rightarrow> (nat \<times> batch_reply) list \<Rightarrow>
  (BatchResult \<times> batch_error option \<times> batch_history) option" where
  "executeBatch c b parent acts =
    (if pb_targets b = [] then
       (if acts = [] then Some (\<lparr>br_index = pb_index b, br_targets = [], br_error = None\<rparr>, parent, []) else None)
     else (case run_batch c b parent acts of
        None \<Rightarrow> None
      | Some (sh, ts, h) \<Rightarrow>
         (case those (map returned ts) of
            None \<Rightarrow> None
          | Some trs \<Rightarrow> Some (\<lparr>br_index = pb_index b, br_targets = trs,
                br_error = (if bs_failed sh then first_error trs else None)\<rparr>, bs_parent sh, h))))"

section \<open>A plan\<close>

text \<open>What the surroundings do around one batch: what \<^verbatim>\<open>ctx.Err()\<close> says before it, the schedule of
  its goroutines, and whether the context is gone during the delay after it.\<close>

record batch_script =
  sc_before :: "batch_error option"
  sc_acts :: "(nat \<times> batch_reply) list"
  sc_delay :: "batch_error option"

fun execute_batches :: "Controller \<Rightarrow> batch_error option \<Rightarrow> plan_batch list \<Rightarrow> batch_script list \<Rightarrow>
  (BatchResult list \<times> batch_history list) option" where
  "execute_batches c parent [] scs = (if scs = [] then Some ([], []) else None)"
| "execute_batches c parent (b # bs) [] = None"
| "execute_batches c parent (b # bs) (sc # scs) =
    (if look_parent parent (sc_before sc) then
       (case sc_before sc of
          Some e \<Rightarrow> if scs = []
            then Some ([\<lparr>br_index = pb_index b, br_targets = [], br_error = Some (BatchSkipped (pb_index b) e)\<rparr>], [])
            else None
        | None \<Rightarrow>
           (case executeBatch c b None (sc_acts sc) of
              None \<Rightarrow> None
            | Some (br, parent', h) \<Rightarrow>
               if br_error br \<noteq> None \<and> c_batch_policy c = PolicyAbort
               then (if scs = [] then Some ([br], [h]) else None)
               else if bs \<noteq> [] \<and> 0 < c_delay c then
                 (if look_parent parent' (sc_delay sc) then
                    (case sc_delay sc of
                       Some e \<Rightarrow> if scs = [] then Some ([br], [h]) else None
                     | None \<Rightarrow> (case execute_batches c parent' bs scs of
                          None \<Rightarrow> None | Some (brs, hs) \<Rightarrow> Some (br # brs, h # hs)))
                  else None)
               else (case execute_batches c parent' bs scs of
                  None \<Rightarrow> None | Some (brs, hs) \<Rightarrow> Some (br # brs, h # hs))))
     else None)"

definition Execute :: "Controller \<Rightarrow> plan option \<Rightarrow> bool \<Rightarrow> batch_error option \<Rightarrow> batch_script list \<Rightarrow>
  (BatchResult list \<times> batch_history list) option" where
  "Execute c p has_exec parent scs =
    (case p of
       None \<Rightarrow> Some ([\<lparr>br_index = - 1, br_targets = [], br_error = Some (LE002 ''plan is nil'')\<rparr>], [])
     | Some p \<Rightarrow>
        if \<not> has_exec
        then Some ([\<lparr>br_index = - 1, br_targets = [], br_error = Some (LE002 ''execFn is nil'')\<rparr>], [])
        else execute_batches c parent (pl_batches p) scs)"

section \<open>The slots\<close>

fun batch_fits :: "batch_query \<Rightarrow> batch_reply \<Rightarrow> bool" where
  "batch_fits QSlot r = (case r of RSlot \<Rightarrow> True | RGone e \<Rightarrow> True | _ \<Rightarrow> False)"
| "batch_fits QCtxErr r = (case r of RErr e \<Rightarrow> True | _ \<Rightarrow> False)"
| "batch_fits (QManagerAcquire t) r = (case r of RErr e \<Rightarrow> True | _ \<Rightarrow> False)"
| "batch_fits (QLimiterAcquire t) r = (case r of RErr e \<Rightarrow> True | _ \<Rightarrow> False)"
| "batch_fits (QExec b t s) r = (case r of RErr e \<Rightarrow> True | RPanic m \<Rightarrow> True | _ \<Rightarrow> False)"
| "batch_fits q r = (r = RUnit)"

fun batch_gain :: "batch_query \<Rightarrow> batch_reply \<Rightarrow> int" where
  "batch_gain QSlot r = (if r = RSlot then 1 else 0)"
| "batch_gain QSlotRelease r = - 1"
| "batch_gain q r = 0"

text \<open>A target is at work while one of its steps is being executed.\<close>

fun batch_busy :: "batch_query \<Rightarrow> bool" where
  "batch_busy (QExec b t s) = True"
| "batch_busy q = False"

definition calm_batch :: "batch_shared \<Rightarrow> batch_shared \<Rightarrow> bool" where
  "calm_batch sh sh' \<longleftrightarrow> bs_parent sh' = bs_parent sh"

lemma look_gone_keeps:
  "look_gone sh e = Some sh' \<Longrightarrow> bs_held sh' = bs_held sh \<and> bs_cap sh' = bs_cap sh \<and> bs_failed sh' = bs_failed sh"
  by (auto simp: look_gone_def split: option.splits if_splits)

lemma batch_answered:
  "(\<exists>r sh'. batch_answer sh q r = Some sh' \<and> calm_batch sh sh') \<or>
   bs_cap sh \<le> bs_held sh \<and> (\<exists>r. batch_fits q r \<and> batch_gain q r = 1) \<or>
   bs_held sh \<le> 0 \<and> (\<exists>r. batch_fits q r \<and> batch_gain q r = - 1)"
proof (cases q)
  case QSlot
  then show ?thesis by (auto simp: calm_batch_def intro: exI [of _ RSlot])
next
  case QSlotRelease
  then show ?thesis by (auto simp: calm_batch_def intro: exI [of _ RUnit])
next
  case QCtxErr
  then show ?thesis
    by (intro disjI1 exI [of _ "RErr (bs_ctx sh)"])
      (cases "bs_ctx sh"; simp add: calm_batch_def look_gone_def)
next
  case (QExec b t s)
  then show ?thesis by (intro disjI1 exI [of _ "RErr None"]) (simp add: calm_batch_def)
next
  case (QManagerAcquire t)
  then show ?thesis by (intro disjI1 exI [of _ "RErr None"]) (simp add: calm_batch_def)
next
  case (QLimiterAcquire t)
  then show ?thesis by (intro disjI1 exI [of _ "RErr None"]) (simp add: calm_batch_def)
next
  case QCancel
  then show ?thesis by (intro disjI1 exI [of _ RUnit]) (simp add: calm_batch_def split: option.split)
qed (intro disjI1 exI [of _ RUnit]; simp add: calm_batch_def)+

interpretation batch_pool: slot_pool batch_answer batch_fits batch_gain batch_busy bs_held bs_cap calm_batch
proof
  fix sh q r sh'
  assume ans: "batch_answer sh q r = Some sh'"
  show "batch_fits q r" using ans by (cases "(sh, q, r)" rule: batch_answer.cases) auto
  show "bs_held sh' = bs_held sh + batch_gain q r" "bs_cap sh' = bs_cap sh"
    using ans by (cases "(sh, q, r)" rule: batch_answer.cases; auto simp: look_gone_keeps split: if_splits option.splits)+
  show "bs_held sh \<le> bs_cap sh \<Longrightarrow> bs_held sh' \<le> bs_cap sh'"
    using ans by (cases "(sh, q, r)" rule: batch_answer.cases; auto simp: look_gone_keeps split: if_splits option.splits)
next
  fix sh q
  show "(\<exists>r sh'. batch_answer sh q r = Some sh' \<and> calm_batch sh sh') \<or>
   bs_cap sh \<le> bs_held sh \<and> (\<exists>r. batch_fits q r \<and> batch_gain q r = 1) \<or>
   bs_held sh \<le> 0 \<and> (\<exists>r. batch_fits q r \<and> batch_gain q r = - 1)" by (rule batch_answered)
qed (auto simp: calm_batch_def)

lemma executeSteps_owes: "owes batch_fits batch_gain batch_busy 1 (executeSteps c b t steps acc err) 1"
  by (induction steps arbitrary: acc err) (auto split: batch_reply.splits option.splits simp: Let_def)

lemma executeSteps_within: "within batch_fits (executeSteps c b t steps acc err) (2 * length steps)"
  by (induction steps arbitrary: acc err) (auto split: batch_reply.splits option.splits simp: Let_def)

definition tier_release :: "batch_query option \<Rightarrow> bool" where
  "tier_release release \<longleftrightarrow> (case release of None \<Rightarrow> True
     | Some q \<Rightarrow> (\<exists>t. q = QManagerRelease t \<or> q = QLimiterRelease t))"

lemma run_target_owes: "tier_release release \<Longrightarrow> owes batch_fits batch_gain batch_busy 0 (run_target c b t release) 1"
  unfolding run_target_def Let_def executeTarget_def
  by (rule owes_bind [OF executeSteps_owes])
    (auto simp: mark_failed_def tier_release_def split: sum.split option.splits)

lemma run_target_within:
  "tier_release release \<Longrightarrow> within batch_fits (run_target c b t release) (2 * length (pb_steps b) + 4)"
  unfolding run_target_def Let_def executeTarget_def
  by (rule within_bind [OF executeSteps_within])
    (auto simp: mark_failed_def tier_release_def split: sum.split option.splits)

lemma goroutine_owes: "owes batch_fits batch_gain batch_busy 0 (batch_goroutine c b t) 0"
  by (auto simp: batch_goroutine_def mark_failed_def tier_release_def intro!: run_target_owes
      split: batch_reply.splits option.splits)

lemma goroutine_within: "within batch_fits (batch_goroutine c b t) (2 * length (pb_steps b) + 6)"
  by (auto simp: batch_goroutine_def mark_failed_def tier_release_def
      intro!: run_target_within within_mono [OF run_target_within]
      split: batch_reply.splits option.splits)

section \<open>What a target does\<close>

text \<open>The calls of the callback in a path, each with its reply.\<close>

fun steps_called :: "(batch_query \<times> batch_reply) list \<Rightarrow> (plan_step \<times> batch_reply) list" where
  "steps_called [] = []"
| "steps_called ((QExec b t s, r) # h) = (s, r) # steps_called h"
| "steps_called ((q, r) # h) = steps_called h"

lemma steps_called_append [simp]: "steps_called (g @ h) = steps_called g @ steps_called h"
  by (induction g rule: steps_called.induct) auto

lemma steps_called_iff: "(s, r) \<in> set (steps_called h) \<longleftrightarrow> (\<exists>b t. (QExec b t s, r) \<in> set h)"
  by (induction h rule: steps_called.induct) auto

fun reply_error :: "batch_reply \<Rightarrow> batch_error option" where
  "reply_error (RErr e) = e"
| "reply_error r = None"

definition step_result :: "plan_step \<times> batch_reply \<Rightarrow> StepResult" where
  "step_result sr = \<lparr>sr_step = ps_name (fst sr), sr_error = reply_error (snd sr)\<rparr>"

definition all_fit :: "(batch_query \<times> batch_reply) list \<Rightarrow> bool" where
  "all_fit h \<longleftrightarrow> (\<forall>(q, r)\<in>set h. batch_fits q r)"

lemma all_fit_simps [simp]:
  "all_fit []" "all_fit ((q, r) # h) \<longleftrightarrow> batch_fits q r \<and> all_fit h" "all_fit (g @ h) \<longleftrightarrow> all_fit g \<and> all_fit h"
  by (auto simp: all_fit_def)

text \<open>What a target promises about the calls \<open>cs\<close> it made of the \<open>steps\<close> it was given.\<close>

definition calls_in_order :: "Controller \<Rightarrow> plan_step list \<Rightarrow> (plan_step \<times> batch_reply) list \<Rightarrow> bool" where
  "calls_in_order c steps cs \<longleftrightarrow>
    map fst cs = take (length cs) steps \<and> length cs \<le> length steps \<and>
    (c_target_policy c = PolicyAbort \<longrightarrow> (\<forall>sr\<in>set (butlast cs). snd sr = RErr None))"

definition all_done :: "plan_step list \<Rightarrow> (plan_step \<times> batch_reply) list \<Rightarrow> bool" where
  "all_done steps cs \<longleftrightarrow> cs = map (\<lambda>s. (s, RErr None)) steps"

fun outcome_of :: "string \<Rightarrow> plan_step list \<Rightarrow> StepResult list \<Rightarrow> batch_error option \<Rightarrow>
  (plan_step \<times> batch_reply) list \<Rightarrow> string + TargetResult \<Rightarrow> bool" where
  "outcome_of t steps acc err cs (Inl m) = (\<exists>cs' s. cs = cs' @ [(s, RPanic m)] \<and> (\<forall>sr\<in>set cs'. \<exists>e. snd sr = RErr e))"
| "outcome_of t steps acc err cs (Inr tr) =
    (tr_target tr = t \<and> tr_steps tr = acc @ map step_result cs \<and> (\<forall>sr\<in>set cs. \<exists>e. snd sr = RErr e) \<and>
     (tr_error tr = None \<longleftrightarrow> err = None \<and> all_done steps cs))"

lemma executeSteps_path:
  assumes "follow (executeSteps c b t steps acc err) h = Some (Ret res)" and "all_fit h"
  shows "calls_in_order c steps (steps_called h) \<and> outcome_of t steps acc err (steps_called h) res \<and>
    (\<forall>(q, r)\<in>set h. q = QCtxErr \<or> (\<exists>s. q = QExec b t s))"
  using assms
proof (induction steps arbitrary: acc err h)
  case Nil
  then show ?case by (cases h) (auto simp: calls_in_order_def all_done_def)
next
  case (Cons s steps)
  obtain g h1 where h: "h = (QCtxErr, RErr g) # h1"
    using Cons.prems by (cases h rule: steps_called.cases) (auto split: batch_reply.splits if_splits)
  show ?case
  proof (cases g)
    case (Some e)
    then show ?thesis using Cons.prems h
      by (cases h1) (auto simp: calls_in_order_def all_done_def)
  next
    case None
    obtain r h2 where h1: "h1 = (QExec b t s, r) # h2" and fit: "all_fit h2" "batch_fits (QExec b t s) r"
      using Cons.prems h None by (cases h1) (auto split: if_splits)
    show ?thesis
    proof (cases r)
      case (RPanic m)
      then have "h2 = []" "res = Inl m" using Cons.prems(1) h None h1 by (cases h2; auto)+
      then show ?thesis using h h1 None RPanic by (simp add: calls_in_order_def)
    next
      case (RErr e)
      let ?acc = "acc @ [\<lparr>sr_step = ps_name s, sr_error = e\<rparr>]"
      let ?err = "if e = None then err else if err = None then Some (StepFailed t (ps_name s) (the e)) else err"
      show ?thesis
      proof (cases "e \<noteq> None \<and> c_target_policy c = PolicyAbort")
        case True
        then have "h2 = []" "res = Inr \<lparr>tr_target = t, tr_steps = ?acc, tr_error = ?err\<rparr>"
          using Cons.prems(1) h None h1 RErr by (cases h2; auto simp: Let_def)+
        then show ?thesis using h h1 None RErr True
          by (auto simp: calls_in_order_def all_done_def step_result_def)
      next
        case False
        then have path: "follow (executeSteps c b t steps ?acc ?err) h2 = Some (Ret res)"
          using Cons.prems(1) h None h1 RErr by (auto simp: Let_def split: option.splits if_splits)
        note ih = Cons.IH [OF path fit(1)]
        have "calls_in_order c (s # steps) (steps_called h)"
          using ih h h1 None RErr False by (auto simp: calls_in_order_def)
        moreover have "outcome_of t (s # steps) acc err (steps_called h) res"
          using ih h h1 None RErr
          by (cases res) (auto simp: all_done_def step_result_def Cons_eq_append_conv intro: exI [of _ "(s, RErr e) # _"])
        moreover have "\<forall>(q, r)\<in>set h. q = QCtxErr \<or> (\<exists>s. q = QExec b t s)"
          using ih h h1 by auto
        ultimately show ?thesis by blast
      qed
    qed (use fit in auto)
  qed
qed

lemma follow_Ret: "follow (Ret a) h = Some (Ret x) \<longleftrightarrow> h = [] \<and> x = a"
  by (cases h) auto

lemma follow_Ask: "follow (Ask q k) h = Some (Ret x) \<longleftrightarrow> (\<exists>r h'. h = (q, r) # h' \<and> follow (k r) h' = Some (Ret x))"
  by (cases h) (auto split: if_splits)

lemmas follow_ret = follow_Ret follow_Ask

text \<open>What the goroutine of target \<open>t\<close> leaves behind after a complete path \<open>h\<close>.\<close>

definition complete_evidence :: "(plan_step \<times> batch_reply) list \<Rightarrow> TargetResult \<Rightarrow> bool" where
  "complete_evidence cs tr \<longleftrightarrow> tr_steps tr = map step_result cs \<and> (\<forall>sr\<in>set cs. \<exists>e. snd sr = RErr e)"

definition lost_evidence :: "string \<Rightarrow> (plan_step \<times> batch_reply) list \<Rightarrow> TargetResult \<Rightarrow> bool" where
  "lost_evidence t cs tr \<longleftrightarrow> (\<exists>m. tr = failed_result t (TargetPanicked t m) \<and> cs \<noteq> [] \<and> snd (last cs) = RPanic m)"

definition own_calls :: "plan_batch \<Rightarrow> string \<Rightarrow> (batch_query \<times> batch_reply) list \<Rightarrow> bool" where
  "own_calls b t h \<longleftrightarrow> (\<forall>b' t' s r. (QExec b' t' s, r) \<in> set h \<longrightarrow> b' = b \<and> t' = t)"

definition target_outcome :: "Controller \<Rightarrow> plan_batch \<Rightarrow> string \<Rightarrow> (batch_query \<times> batch_reply) list \<Rightarrow> TargetResult \<Rightarrow> bool" where
  "target_outcome c b t h tr \<longleftrightarrow>
    tr_target tr = t \<and>
    calls_in_order c (pb_steps b) (steps_called h) \<and>
    (complete_evidence (steps_called h) tr \<or> lost_evidence t (steps_called h) tr) \<and>
    (tr_error tr = None \<longrightarrow> all_done (pb_steps b) (steps_called h)) \<and>
    (pb_steps b \<noteq> [] \<longrightarrow> all_done (pb_steps b) (steps_called h) \<longrightarrow> tr_error tr = None) \<and>
    (tr_error tr \<noteq> None \<longrightarrow> QSetFailed \<in> fst ` set h) \<and>
    own_calls b t h"

lemma calls_in_order_Nil: "calls_in_order c steps []"
  by (simp add: calls_in_order_def)

lemma run_target_path:
  assumes path: "follow (run_target c b t release) h = Some (Ret tr)" and fit: "all_fit h" and rel: "tier_release release"
  shows "target_outcome c b t h tr"
proof -
  from path [unfolded run_target_def Let_def executeTarget_def follow_bind]
  obtain g g' res where h: "h = g @ g'"
    and g: "follow (executeSteps c b t (pb_steps b) [] None) g = Some (Ret res)"
    and g': "follow (case res of
          Inl m \<Rightarrow> (case release of None \<Rightarrow> Ask QSlotRelease (\<lambda>_. mark_failed c (Ret (failed_result t (TargetPanicked t m))))
             | Some q \<Rightarrow> Ask q (\<lambda>_. Ask QSlotRelease (\<lambda>_. mark_failed c (Ret (failed_result t (TargetPanicked t m))))))
        | Inr tr \<Rightarrow> if tr_error tr \<noteq> None
            then mark_failed c (case release of None \<Rightarrow> Ask QSlotRelease (\<lambda>_. Ret tr) | Some q \<Rightarrow> Ask q (\<lambda>_. Ask QSlotRelease (\<lambda>_. Ret tr)))
            else (case release of None \<Rightarrow> Ask QSlotRelease (\<lambda>_. Ret tr) | Some q \<Rightarrow> Ask q (\<lambda>_. Ask QSlotRelease (\<lambda>_. Ret tr)))) g'
      = Some (Ret tr)" by blast
  have first: "calls_in_order c (pb_steps b) (steps_called g)" "outcome_of t (pb_steps b) [] None (steps_called g) res"
    "\<forall>(q, r)\<in>set g. q = QCtxErr \<or> (\<exists>s. q = QExec b t s)"
    using executeSteps_path [OF g] fit h by auto
  have tail: "steps_called g' = []" "\<forall>(q, r)\<in>set g'. \<forall>b' t' s. q \<noteq> QExec b' t' s"
    "case res of Inl m \<Rightarrow> tr = failed_result t (TargetPanicked t m) \<and> QSetFailed \<in> fst ` set g'
     | Inr tr' \<Rightarrow> tr = tr' \<and> (tr_error tr \<noteq> None \<longrightarrow> QSetFailed \<in> fst ` set g')"
    using g' rel by (auto simp: follow_ret mark_failed_def tier_release_def split: sum.splits option.splits if_splits)
  have calls: "steps_called h = steps_called g" using h tail(1) by simp
  have own: "own_calls b t h"
    using h tail(2) first(3) unfolding own_calls_def by fastforce
  have flag: "QSetFailed \<in> fst ` set g' \<Longrightarrow> QSetFailed \<in> fst ` set h" using h by auto
  show ?thesis
  proof (cases res)
    case (Inl m)
    then obtain cs s where cs: "steps_called g = cs @ [(s, RPanic m)]" using first(2) by auto
    have tr: "tr = failed_result t (TargetPanicked t m)" "QSetFailed \<in> fst ` set h"
      using tail(3) Inl flag by auto
    have "\<not> all_done (pb_steps b) (steps_called g)"
      unfolding all_done_def cs by (metis (no_types, lifting) Inr_not_Inl append_is_Nil_conv batch_reply.distinct(19) last_map last_snoc list.discI map_is_Nil_conv snd_conv)
    moreover have "lost_evidence t (steps_called g) tr" using cs tr(1) by (auto simp: lost_evidence_def)
    ultimately show ?thesis using first(1) tr own calls
      unfolding target_outcome_def by (auto simp: failed_result_def)
  next
    case (Inr tr')
    then have tr: "tr = tr'" "tr_error tr \<noteq> None \<longrightarrow> QSetFailed \<in> fst ` set h" using tail(3) flag by auto
    have out: "tr_target tr = t" "complete_evidence (steps_called g) tr" "tr_error tr = None \<longleftrightarrow> all_done (pb_steps b) (steps_called g)"
      using first(2) Inr tr(1) by (auto simp: complete_evidence_def)
    show ?thesis unfolding target_outcome_def using out tr(2) first(1) own calls by simp
  qed
qed

lemma outcome_Cons:
  assumes "target_outcome c b t g tr" and "\<And>b' t' s. q \<noteq> QExec b' t' s"
  shows "target_outcome c b t ((q, r) # g) tr"
proof -
  have "steps_called ((q, r) # g) = steps_called g" using assms(2) by (cases q) auto
  moreover have "own_calls b t ((q, r) # g) \<longleftrightarrow> own_calls b t g"
    unfolding own_calls_def using assms(2) by (metis list.set_intros(2) prod.inject set_ConsD)
  moreover have "QSetFailed \<in> fst ` set g \<Longrightarrow> QSetFailed \<in> fst ` set ((q, r) # g)" by simp
  ultimately show ?thesis using assms(1) unfolding target_outcome_def by presburger
qed

lemma outcome_failed:
  assumes "steps_called h = []" "QSetFailed \<in> fst ` set h" "\<forall>b' t' s r. (QExec b' t' s, r) \<notin> set h"
  shows "target_outcome c b t h (failed_result t e)"
  using assms by (auto simp: target_outcome_def calls_in_order_Nil complete_evidence_def all_done_def failed_result_def own_calls_def)

lemma tier_path:
  assumes path: "follow (Ask acq (\<lambda>reply. case reply of
        RErr (Some e) \<Rightarrow> mark_failed c (Ask QSlotRelease (\<lambda>_. Ret (failed_result t (wrap e))))
      | _ \<Rightarrow> run_target c b t (Some rel))) h = Some (Ret tr)"
    and fit: "all_fit h" and tier: "acq = QManagerAcquire t \<or> acq = QLimiterAcquire t" "tier_release (Some rel)"
  shows "target_outcome c b t h tr"
proof -
  from path [unfolded follow_Ask] obtain r h1 where h: "h = (acq, r) # h1" by blast
  then obtain e where r: "r = RErr e" using fit tier(1) by (auto split: batch_reply.splits)
  show ?thesis
  proof (cases e)
    case None
    then have "follow (run_target c b t (Some rel)) h1 = Some (Ret tr)" using path h r by simp
    then show ?thesis using run_target_path [OF _ _ tier(2)] fit h tier(1) by (auto intro!: outcome_Cons)
  next
    case (Some e')
    then have "follow (mark_failed c (Ask QSlotRelease (\<lambda>_. Ret (failed_result t (wrap e'))))) h1 = Some (Ret tr)"
      using path h r by simp
    then show ?thesis using h tier(1)
      by (auto simp: follow_ret mark_failed_def intro!: outcome_failed split: if_splits)
  qed
qed

lemma goroutine_path:
  assumes path: "follow (batch_goroutine c b t) h = Some (Ret tr)" and fit: "all_fit h"
  shows "target_outcome c b t h tr"
proof -
  from path [unfolded batch_goroutine_def follow_Ask] obtain r h1 where h: "h = (QSlot, r) # h1" by blast
  consider (gone) e where "r = RGone e" | (slot) "r = RSlot" using fit h by (auto split: batch_reply.splits)
  then show ?thesis
  proof cases
    case gone
    then show ?thesis using path h by (auto simp: batch_goroutine_def follow_ret intro!: outcome_failed)
  next
    case slot
    have "target_outcome c b t h1 tr"
    proof (cases "c_manager c \<or> c_limiter c")
      case True
      then show ?thesis using path h slot fit
        by (auto simp: batch_goroutine_def tier_release_def split: if_splits intro: tier_path)
    next
      case False
      then show ?thesis using path h slot fit
        by (auto simp: batch_goroutine_def tier_release_def intro: run_target_path)
    qed
    then show ?thesis using h by (auto intro: outcome_Cons)
  qed
qed

section \<open>What a batch does\<close>

lemma those_Some: "those xs = Some ys \<longleftrightarrow> xs = map Some ys"
  by (induction xs arbitrary: ys) (auto split: option.splits)

lemma run_batch_fit:
  "run_batch c b parent acts = Some (sh, ts, h) \<Longrightarrow> all_fit (part_of i h)"
  unfolding run_batch_def all_fit_def
  by (auto simp: set_part_of dest: interleave_history [of batch_answer batch_fits, rotated] batch_pool.answer_fits)

lemma run_batch_failed:
  assumes "interleave batch_answer sh ts acts = Some (sh', ts', h)"
  shows "bs_failed sh' \<longleftrightarrow> bs_failed sh \<or> (\<exists>i r. (i, QSetFailed, r) \<in> set h)"
  using assms
proof (induction acts arbitrary: sh ts h)
  case (Cons a acts)
  obtain i r where a: "a = (i, r)" by force
  from Cons.prems [unfolded a] obtain q k sh1 h1 where step: "batch_answer sh q r = Some sh1"
    "interleave batch_answer sh1 (ts[i := k r]) acts = Some (sh', ts', h1)" "h = (i, q, r) # h1"
    by (elim interleave_ConsE)
  have "bs_failed sh1 \<longleftrightarrow> bs_failed sh \<or> q = QSetFailed"
    using step(1) by (cases "(sh, q, r)" rule: batch_answer.cases) (auto simp: look_gone_keeps split: if_splits option.splits)
  then show ?case using Cons.IH [OF step(2)] step(3) by auto
qed simp

lemma first_error_None: "first_error trs = None \<longleftrightarrow> (\<forall>tr\<in>set trs. tr_error tr = None)"
  by (induction trs) (auto simp: first_error_def)

text \<open>The result of a batch: a target result per target in the order of the plan, each with the
  outcome of its goroutine, and the first error among them.\<close>

lemma executeBatch_outcome:
  assumes run: "executeBatch c b parent acts = Some (br, parent', h)"
  shows "br_index br = pb_index b \<and> length (br_targets br) = length (pb_targets b) \<and>
    (\<forall>i < length (pb_targets b). target_outcome c b (pb_targets b ! i) (part_of i h) (br_targets br ! i)) \<and>
    br_error br = first_error (br_targets br) \<and>
    (\<forall>i q r. (i, q, r) \<in> set h \<longrightarrow> i < length (pb_targets b))"
proof (cases "pb_targets b = []")
  case True
  then show ?thesis using run by (auto simp: executeBatch_def first_error_def split: if_splits)
next
  case False
  from run False obtain sh ts trs where rb: "run_batch c b parent acts = Some (sh, ts, h)"
    and trs: "those (map returned ts) = Some trs"
    and br: "br = \<lparr>br_index = pb_index b, br_targets = trs, br_error = (if bs_failed sh then first_error trs else None)\<rparr>"
    by (auto simp: executeBatch_def split: option.splits)
  note run' = rb [unfolded run_batch_def]
  have len: "length ts = length (pb_targets b)" "length trs = length ts"
    using interleave_length [OF run'] trs [unfolded those_Some] by (simp, metis length_map)
  have out: "target_outcome c b (pb_targets b ! i) (part_of i h) (trs ! i)" if "i < length (pb_targets b)" for i
  proof -
    have "map returned ts ! i = map Some trs ! i" using trs [unfolded those_Some] by simp
    then have "ts ! i = Ret (trs ! i)" using that len by (cases "ts ! i") auto
    then show ?thesis using interleave_part [OF run', of i] that run_batch_fit [OF rb]
      by (intro goroutine_path) auto
  qed
  have "bs_failed sh" if bad: "\<not> (\<forall>tr\<in>set trs. tr_error tr = None)"
  proof -
    from bad obtain i where i: "i < length trs" "tr_error (trs ! i) \<noteq> None" by (auto simp: in_set_conv_nth)
    then have "QSetFailed \<in> fst ` set (part_of i h)" using out [of i] len by (auto simp: target_outcome_def)
    then show ?thesis using run_batch_failed [OF run'] by (auto simp: set_part_of)
  qed
  then have "\<not> bs_failed sh \<Longrightarrow> first_error trs = None" unfolding first_error_None by blast
  then have "br_error br = first_error trs" using br by simp
  then show ?thesis using br len out interleave_indices [OF run'] by auto
qed

lemma batch_balanced: "batch_pool.balanced (batch_start b parent) (map (batch_goroutine c b) ts) (map (\<lambda>_. 0) ts)
  \<longleftrightarrow> 0 \<le> batch_cap b"
  by (auto simp: batch_pool.balanced_def batch_start_def list_all2_conv_all_nth goroutine_owes)

lemma batch_cap_range: "pb_targets b \<noteq> [] \<Longrightarrow> 0 < batch_cap b" "0 \<le> batch_cap b" "batch_cap b \<le> int (length (pb_targets b))"
  "0 < pb_max_concurrency b \<Longrightarrow> batch_cap b \<le> pb_max_concurrency b"
  by (auto simp: batch_cap_def)

definition at_work :: "TargetResult batch_prog \<Rightarrow> bool" where
  "at_work = (\<lambda>p. case asking p of None \<Rightarrow> False | Some q \<Rightarrow> batch_busy q)"

lemma concurrency_respected:
  assumes run: "run_batch c b parent acts = Some (sh, ts, h)"
  shows "int (length (filter at_work ts)) \<le> batch_cap b"
proof -
  obtain ns where "batch_pool.balanced sh ts ns"
    using batch_pool.run_balanced [OF run [unfolded run_batch_def]] batch_balanced batch_cap_range(2) by blast
  from batch_pool.busy_bounded [OF this] batch_pool.run_cap [OF run [unfolded run_batch_def]]
  show ?thesis by (simp add: at_work_def batch_start_def)
qed

lemma batch_completes:
  assumes run: "run_batch c b parent acts = Some (sh, ts, h)" and some: "pb_targets b \<noteq> []"
  shows "length acts \<le> length (pb_targets b) * (2 * length (pb_steps b) + 6) \<and>
    (\<exists>acts' br h'. executeBatch c b parent (acts @ acts') = Some (br, bs_parent sh, h @ h'))"
proof
  note run' = run [unfolded run_batch_def]
  let ?n = "2 * length (pb_steps b) + 6"
  let ?ms = "map (\<lambda>_. ?n) (pb_targets b)"
  have within: "list_all2 (within batch_fits) (map (batch_goroutine c b) (pb_targets b)) ?ms"
    by (auto simp: list_all2_conv_all_nth goroutine_within)
  have total: "sum_list ?ms = length (pb_targets b) * ?n" by (simp add: sum_list_triv)
  show "length acts \<le> length (pb_targets b) * ?n" using batch_pool.run_length [OF run' within] total by simp
  obtain ns where bal: "batch_pool.balanced sh ts ns"
    using batch_pool.run_balanced [OF run'] batch_balanced batch_cap_range(2) by blast
  have cap: "0 < bs_cap sh" using batch_pool.run_cap [OF run'] batch_cap_range(1) [OF some] by (simp add: batch_start_def)
  obtain ms where ms: "list_all2 (within batch_fits) ts ms"
    using batch_pool.run_within [OF run' within] by blast
  from batch_pool.completes [OF bal ms cap] obtain acts' sh' ts' h' where
    rest: "interleave batch_answer sh ts acts' = Some (sh', ts', h')" "calm_batch sh sh'" "\<forall>p\<in>set ts'. returned p \<noteq> None"
    by blast
  have all: "run_batch c b parent (acts @ acts') = Some (sh', ts', h @ h')"
    unfolding run_batch_def interleave_append using run' rest(1) by simp
  have "map returned ts' = map Some (map (the \<circ> returned) ts')" using rest(3) by auto
  then have "those (map returned ts') = Some (map (the \<circ> returned) ts')" unfolding those_Some .
  then have "executeBatch c b parent (acts @ acts') = Some (\<lparr>br_index = pb_index b, br_targets = map (the \<circ> returned) ts',
      br_error = (if bs_failed sh' then first_error (map (the \<circ> returned) ts') else None)\<rparr>, bs_parent sh, h @ h')"
    using all rest(2) some by (simp add: executeBatch_def calm_batch_def)
  then show "\<exists>acts' br h'. executeBatch c b parent (acts @ acts') = Some (br, bs_parent sh, h @ h')" by blast
qed

section \<open>Cancelling a batch\<close>

text \<open>No step is started without a look at the context just before.\<close>

primrec checked :: "(batch_query, batch_reply, 'a) prog \<Rightarrow> bool \<Rightarrow> bool" where
  "checked (Ret a) = (\<lambda>ok. True)"
| "checked (Ask q k) = (\<lambda>ok. (batch_busy q \<longrightarrow> ok) \<and>
    (\<forall>r. batch_fits q r \<longrightarrow> checked (k r) (q = QCtxErr \<and> r = RErr None)))"

lemma checked_mono: "checked p ok \<Longrightarrow> (ok \<longrightarrow> ok') \<Longrightarrow> checked p ok'"
  by (cases p) auto

lemma checked_bind: "checked p ok \<Longrightarrow> (\<And>a. checked (f a) False) \<Longrightarrow> checked (bind_prog p f) ok"
proof (induction p arbitrary: ok)
  case (Ret a)
  then show ?case using checked_mono [of "f a" False ok] by simp
qed auto

lemma executeSteps_checked: "checked (executeSteps c b t steps acc err) False"
proof (induction steps arbitrary: acc err)
  case (Cons s steps)
  then show ?case by (auto split: batch_reply.splits option.splits simp: Let_def)
qed simp

lemma run_target_checked: "tier_release release \<Longrightarrow> checked (run_target c b t release) False"
  unfolding run_target_def Let_def executeTarget_def
  by (rule checked_bind [OF executeSteps_checked])
    (auto simp: mark_failed_def tier_release_def split: sum.split option.splits)

lemma goroutine_checked: "checked (batch_goroutine c b t) False"
  by (auto simp: batch_goroutine_def mark_failed_def tier_release_def intro!: run_target_checked
      split: batch_reply.splits option.splits)

lemma checked_follow: "follow p h = Some p' \<Longrightarrow> checked p ok \<Longrightarrow> all_fit h \<Longrightarrow> \<exists>ok'. checked p' ok'"
  by (induction p h arbitrary: ok rule: follow.induct) (auto split: if_splits)

lemma unchecked_calls:
  assumes "follow p h = Some p'" "checked p ok" "all_fit h" "(QCtxErr, RErr None) \<notin> set h"
  shows "length (steps_called h) \<le> (if ok then 1 else 0)"
  using assms
proof (induction p h arbitrary: ok rule: follow.induct)
  case (3 q' k q r h)
  then have "q = q'" and path: "follow (k r) h = Some p'" by (auto split: if_splits)
  moreover have "checked (k r) (q' = QCtxErr \<and> r = RErr None)" using 3 \<open>q = q'\<close> by simp
  moreover have "(q' = QCtxErr \<and> r = RErr None) = False" using 3 \<open>q = q'\<close> by auto
  ultimately have "checked (k r) False" by simp
  from 3(1) [OF \<open>q = q'\<close> path this] 3 have "length (steps_called h) \<le> 0" by simp
  then show ?case using 3(3) \<open>q = q'\<close> by (cases q) auto
qed auto

lemma gone_stays:
  assumes "interleave batch_answer sh ts acts = Some (sh', ts', h)" and "bs_ctx sh \<noteq> None"
  shows "(j, QCtxErr, RErr None) \<notin> set h"
  using assms
proof (induction acts arbitrary: sh ts h)
  case (Cons a acts)
  obtain i r where a: "a = (i, r)" by force
  from Cons.prems(1) [unfolded a] obtain q k sh1 h1 where step: "batch_answer sh q r = Some sh1"
    "interleave batch_answer sh1 (ts[i := k r]) acts = Some (sh', ts', h1)" "h = (i, q, r) # h1"
    by (elim interleave_ConsE)
  have "bs_ctx sh1 \<noteq> None \<and> \<not> (q = QCtxErr \<and> r = RErr None)"
    using step(1) Cons.prems(2)
    by (cases "(sh, q, r)" rule: batch_answer.cases) (auto simp: look_gone_def split: if_splits option.splits)
  then show ?case using Cons.IH [OF step(2)] step(3) by auto
qed simp

text \<open>Once a target has cancelled its batch, each target starts at most the one step it had already
  looked at the context for.\<close>

lemma cancel_stops:
  assumes run: "run_batch c b parent acts = Some (sh, ts, h1 @ (i, QCancel, r) # h2)" and j: "j < length (pb_targets b)"
  shows "length (steps_called (part_of j h2)) \<le> 1"
proof -
  let ?ts = "map (batch_goroutine c b) (pb_targets b)"
  note run' = run [unfolded run_batch_def]
  from interleave_split [OF run'] obtain acts0 acts1 sh0 ts0
    where first: "interleave batch_answer (batch_start b parent) ?ts acts0 = Some (sh0, ts0, h1)"
    and "interleave batch_answer sh0 ts0 acts1 = Some (sh, ts, [(i, QCancel, r)] @ h2)" by auto
  from interleave_split [OF this(2)] obtain acts2 acts3 sh1 ts1
    where cancel: "interleave batch_answer sh0 ts0 acts2 = Some (sh1, ts1, [(i, QCancel, r)])"
    and rest: "interleave batch_answer sh1 ts1 acts3 = Some (sh, ts, h2)" by blast
  have len: "length ts0 = length (pb_targets b)" "length ts1 = length (pb_targets b)"
    using interleave_length [OF first] interleave_length [OF cancel] by simp_all
  have fit: "all_fit (part_of j h1)" "all_fit (part_of j [(i, QCancel, r)])" "all_fit (part_of j h2)"
    using run_batch_fit [OF run, of j] by (auto simp: part_of_def split: if_splits)
  have "bs_ctx sh1 \<noteq> None"
    using interleave_single [OF cancel] by (cases r) (auto split: option.splits)
  then have "(QCtxErr, RErr None) \<notin> set (part_of j h2)" using gone_stays [OF rest] by (simp add: set_part_of)
  moreover obtain ok0 where "checked (ts0 ! j) ok0"
    using checked_follow [OF interleave_part [OF first, of j]] goroutine_checked fit(1) j by fastforce
  then obtain ok where "checked (ts1 ! j) ok"
    using checked_follow [OF interleave_part [OF cancel, of j]] fit(2) j len by fastforce
  ultimately show ?thesis
    using unchecked_calls [OF interleave_part [OF rest, of j]] fit(3) j len by (fastforce split: if_splits)
qed

section \<open>What a plan does\<close>

text \<open>The results of a plan: those of the batches that ran, in order, then perhaps one for a batch that
  was not started; under \<^verbatim>\<open>PolicyAbort\<close> only the last has an error.\<close>

definition plan_outcome :: "Controller \<Rightarrow> plan_batch list \<Rightarrow> BatchResult list \<Rightarrow> batch_history list \<Rightarrow> bool" where
  "plan_outcome c bs brs hs \<longleftrightarrow>
    length brs \<le> length bs \<and> length hs \<le> length brs \<and>
    (\<forall>k < length hs. \<exists>acts parent'. executeBatch c (bs ! k) None acts = Some (brs ! k, parent', hs ! k)) \<and>
    (\<forall>k < length brs. length hs \<le> k \<longrightarrow> br_error (brs ! k) \<noteq> None \<and> br_targets (brs ! k) = []) \<and>
    (c_batch_policy c = PolicyAbort \<longrightarrow> (\<forall>br\<in>set (butlast brs). br_error br = None))"

lemma plan_outcome_Cons:
  assumes "plan_outcome c bs brs hs" "executeBatch c b None acts = Some (br, parent', h)"
    and "c_batch_policy c = PolicyAbort \<longrightarrow> br_error br = None"
  shows "plan_outcome c (b # bs) (br # brs) (h # hs)"
  using assms unfolding plan_outcome_def by (auto simp: nth_Cons split: nat.splits)

lemma execute_batches_outcome:
  "execute_batches c parent bs scs = Some (brs, hs) \<Longrightarrow> plan_outcome c bs brs hs"
proof (induction bs arbitrary: parent scs brs hs)
  case Nil
  then show ?case by (auto simp: plan_outcome_def split: if_splits)
next
  case (Cons b bs)
  then obtain sc scs' where scs: "scs = sc # scs'" by (cases scs) auto
  show ?case
  proof (cases "sc_before sc")
    case (Some e)
    then show ?thesis using Cons.prems scs by (auto simp: plan_outcome_def split: if_splits)
  next
    case None
    then obtain br parent1 h where br: "executeBatch c b None (sc_acts sc) = Some (br, parent1, h)"
      using Cons.prems scs by (auto split: if_splits option.splits)
    have "brs = [br] \<and> hs = [h] \<or>
      (\<exists>brs' hs'. execute_batches c parent1 bs scs' = Some (brs', hs') \<and> brs = br # brs' \<and> hs = h # hs' \<and>
        (c_batch_policy c = PolicyAbort \<longrightarrow> br_error br = None))"
      using Cons.prems scs None br by (auto split: if_splits option.splits)
    then show ?thesis
    proof
      assume "brs = [br] \<and> hs = [h]"
      then show ?thesis using br by (auto simp: plan_outcome_def)
    next
      assume "\<exists>brs' hs'. execute_batches c parent1 bs scs' = Some (brs', hs') \<and> brs = br # brs' \<and> hs = h # hs' \<and>
        (c_batch_policy c = PolicyAbort \<longrightarrow> br_error br = None)"
      then show ?thesis using Cons.IH plan_outcome_Cons [OF _ br] by blast
    qed
  qed
qed

text \<open>Results without an error for every batch of the plan mean that every step of every batch
  returned without an error on every target.\<close>

lemma success_means_done:
  assumes out: "plan_outcome c bs brs hs" and all: "length brs = length bs"
    and ok: "\<forall>br\<in>set brs. br_error br = None" and k: "k < length bs" and i: "i < length (pb_targets (bs ! k))"
  shows "length hs = length bs \<and> steps_called (part_of i (hs ! k)) = map (\<lambda>s. (s, RErr None)) (pb_steps (bs ! k))"
proof -
  have "\<not> length hs < length brs" using out ok unfolding plan_outcome_def by (metis le_refl nth_mem)
  then have len: "length hs = length bs" using out all by (auto simp: plan_outcome_def)
  then obtain acts parent' where br: "executeBatch c (bs ! k) None acts = Some (brs ! k, parent', hs ! k)"
    using out k by (auto simp: plan_outcome_def)
  have "br_error (brs ! k) = None" using ok all k by simp
  then have "tr_error (br_targets (brs ! k) ! i) = None"
    using executeBatch_outcome [OF br] i by (auto simp: first_error_None)
  then have "all_done (pb_steps (bs ! k)) (steps_called (part_of i (hs ! k)))"
    using executeBatch_outcome [OF br] i by (auto simp: target_outcome_def)
  then show ?thesis using len by (simp add: all_done_def)
qed

section \<open>Properties\<close>

text \<open>
  C9. Under every schedule, no more targets of a batch execute a step at the same time than the batch has
  slots, which is at most \<^verbatim>\<open>MaxConcurrency\<close> when that is positive and at most the number of targets.
\<close>

theorem targets_within_concurrency:
  assumes "run_batch c b parent acts = Some (sh, ts, h)"
  shows "int (length (filter at_work ts)) \<le> batch_cap b \<and> batch_cap b \<le> int (length (pb_targets b)) \<and>
    (0 < pb_max_concurrency b \<longrightarrow> int (length (filter at_work ts)) \<le> pb_max_concurrency b)"
  using concurrency_respected [OF assms] batch_cap_range(3,4) [of b] by auto

text \<open>
  C18. Applying a batch ends: from whatever point a run has reached it goes on to a result without any
  help from outside, and no run takes more than six questions per target and two per step.
\<close>

theorem apply_returns:
  assumes "run_batch c b parent acts = Some (sh, ts, h)" and "pb_targets b \<noteq> []"
  shows "length acts \<le> length (pb_targets b) * (2 * length (pb_steps b) + 6) \<and>
    (\<exists>acts' br h'. executeBatch c b parent (acts @ acts') = Some (br, bs_parent sh, h @ h'))"
  using batch_completes [OF assms] .

text \<open>
  When \<^verbatim>\<open>Execute\<close> reports a result without an error for every batch, then on every target of every
  batch every step was executed, in the order of the plan, and none of them failed.
\<close>

theorem clean_apply_ran_everything:
  assumes "Execute c (Some p) True parent scs = Some (brs, hs)" and "length brs = length (pl_batches p)"
    and "\<forall>br\<in>set brs. br_error br = None"
    and "k < length (pl_batches p)" and "i < length (pb_targets (pl_batches p ! k))"
  shows "length hs = length (pl_batches p) \<and>
    steps_called (part_of i (hs ! k)) = map (\<lambda>s. (s, RErr None)) (pb_steps (pl_batches p ! k))"
  using success_means_done [OF execute_batches_outcome assms(2-5)] assms(1) by (simp add: Execute_def)

text \<open>
  When one target has cancelled its batch, every target executes at most one more step, the one it
  had already looked at the context for.
\<close>

theorem cancelled_batch_stops:
  assumes "run_batch c b parent acts = Some (sh, ts, h1 @ (i, QCancel, r) # h2)" and "j < length (pb_targets b)"
  shows "length (steps_called (part_of j h2)) \<le> 1"
  using cancel_stops [OF assms] .

section \<open>Examples\<close>

definition demo_undo :: "string \<Rightarrow> dsl_step" where
  "demo_undo n = DslStep n ''pkg'' ''remove'' None None None None True False False []"

definition demo_step :: "string \<Rightarrow> plan_step" where
  "demo_step n = \<lparr>ps_name = n, ps_module = ''pkg'', ps_action = ''install'', ps_args = None,
     ps_rollback = Some (RollbackSpec [demo_undo n] '''' '''' False []), ps_approval = None, ps_gate = None,
     ps_irreversible = False, ps_irreversible_reason = ''''\<rparr>"

definition demo_batch :: "int \<Rightarrow> plan_batch" where
  "demo_batch n = \<lparr>pb_index = 0, pb_targets = [''a'', ''b''], pb_steps = [demo_step ''one'', demo_step ''two''],
     pb_max_concurrency = n, pb_gate = None\<rparr>"

definition clean_target :: "nat \<Rightarrow> (nat \<times> batch_reply) list" where
  "clean_target i = [(i, RSlot), (i, RErr None), (i, RErr None), (i, RErr None), (i, RErr None), (i, RUnit)]"

definition fenced_acts :: "(nat \<times> batch_reply) list" where
  "fenced_acts = [(0, RSlot), (0, RErr None), (0, RErr None), (1, RSlot), (1, RErr None),
     (1, RErr (Some (CallbackFenced ''lease lost''))), (1, RUnit), (1, RUnit), (1, RUnit),
     (0, RErr (Some Canceled)), (0, RUnit), (0, RUnit), (0, RUnit)]"

lemmas demo_defs = demo_undo_def demo_step_def demo_batch_def clean_target_def fenced_acts_def run_batch_def
  batch_start_def batch_cap_def batch_goroutine_def run_target_def executeTarget_def mark_failed_def failed_result_def
  NewController_def look_gone_def ctx_causes_def

text \<open>
  A target that lost the execution lease fails with \<^verbatim>\<open>ErrFencedOut\<close> and cancels the batch; another
  target that comes earlier in the plan is then skipped, its error is the one the batch reports, and
  \<^verbatim>\<open>errors.Is(br.Error, ErrFencedOut)\<close>, by which the closure decides not to roll back, is false.
\<close>

theorem fenced_out_is_masked:
  "\<exists>br h. executeBatch (NewController []) (demo_batch 0) None fenced_acts = Some (br, None, h) \<and>
    (\<exists>tr\<in>set (br_targets br). case tr_error tr of None \<Rightarrow> False | Some e \<Rightarrow> is_fenced e) \<and>
    br_error br = Some (StepSkipped ''a'' ''two'' Canceled) \<and> \<not> is_fenced (StepSkipped ''a'' ''two'' Canceled)"
  by (simp add: executeBatch_def demo_defs first_error_def cong: Ask_weak_cong)

theorem targets_within_concurrency_witness:
  "\<exists>sh ts h. run_batch (NewController []) (demo_batch 1) None [(0, RSlot), (0, RErr None)] = Some (sh, ts, h) \<and>
    length (filter at_work ts) \<le> 1"
proof -
  obtain sh ts h where run: "run_batch (NewController []) (demo_batch 1) None [(0, RSlot), (0, RErr None)] = Some (sh, ts, h)"
    by (simp add: demo_defs cong: Ask_weak_cong)
  from targets_within_concurrency [OF this] run show ?thesis by (auto simp: demo_batch_def)
qed

theorem apply_returns_witness:
  "\<exists>acts br h. executeBatch (NewController []) (demo_batch 1) None ((0, RSlot) # acts) = Some (br, None, h)"
proof -
  obtain sh ts h where run: "run_batch (NewController []) (demo_batch 1) None [(0, RSlot)] = Some (sh, ts, h)" "bs_parent sh = None"
    by (simp add: demo_defs cong: Ask_weak_cong)
  from apply_returns [OF run(1)] run(2) show ?thesis by (auto simp: demo_batch_def)
qed

definition batches_plan :: "plan_batch list \<Rightarrow> plan" where
  "batches_plan bs = \<lparr>pl_id = ''p'', pl_workflow_name = ''w'', pl_batches = bs, pl_total_targets = 2, pl_created_at = 0,
     pl_risk_score = 0, pl_risk_factors = [], pl_approval_floor = '''', pl_approval = None, pl_rollback = None,
     pl_gate = None, pl_run_snapshot = None\<rparr>"

theorem clean_apply_ran_everything_witness:
  "\<exists>brs hs. Execute (NewController []) (Some (batches_plan [demo_batch 0])) True None
      [\<lparr>sc_before = None, sc_acts = clean_target 1 @ clean_target 0, sc_delay = None\<rparr>] = Some (brs, hs) \<and>
    steps_called (part_of 1 (hs ! 0)) = [(demo_step ''one'', RErr None), (demo_step ''two'', RErr None)]"
proof -
  obtain brs hs where run: "Execute (NewController []) (Some (batches_plan [demo_batch 0])) True None
      [\<lparr>sc_before = None, sc_acts = clean_target 1 @ clean_target 0, sc_delay = None\<rparr>] = Some (brs, hs)"
    "length brs = 1" "\<forall>br\<in>set brs. br_error br = None"
    by (simp add: Execute_def batches_plan_def executeBatch_def look_parent_def demo_defs first_error_def cong: Ask_weak_cong)
  from clean_apply_ran_everything [OF run(1), of 0 1] run show ?thesis
    by (auto simp: batches_plan_def demo_batch_def)
qed

theorem cancelled_batch_stops_witness:
  "\<exists>sh ts h1 h2. run_batch (NewController []) (demo_batch 0) None fenced_acts = Some (sh, ts, h1 @ (1, QCancel, RUnit) # h2) \<and>
    length (steps_called (part_of 0 h2)) \<le> 1"
proof -
  let ?one = "QExec (demo_batch 0) ''a'' (demo_step ''one'')" and ?fail = "QExec (demo_batch 0) ''b'' (demo_step ''one'')"
  obtain sh ts where run: "run_batch (NewController []) (demo_batch 0) None fenced_acts = Some (sh, ts,
    [(0, QSlot, RSlot), (0, QCtxErr, RErr None), (0, ?one, RErr None), (1, QSlot, RSlot), (1, QCtxErr, RErr None),
     (1, ?fail, RErr (Some (CallbackFenced ''lease lost''))), (1, QSetFailed, RUnit)] @ (1, QCancel, RUnit) #
    [(1, QSlotRelease, RUnit), (0, QCtxErr, RErr (Some Canceled)), (0, QSetFailed, RUnit), (0, QCancel, RUnit), (0, QSlotRelease, RUnit)])"
    by (simp add: demo_defs cong: Ask_weak_cong)
  from cancelled_batch_stops [OF this, of 0] have "length (steps_called (part_of 0 [(1, QSlotRelease, RUnit),
      (0, QCtxErr, RErr (Some Canceled)), (0, QSetFailed, RUnit), (0, QCancel, RUnit), (0, QSlotRelease, RUnit)])) \<le> 1"
    by (simp add: demo_batch_def)
  then show ?thesis using run by blast
qed

end
