(* ===== verification/Rollback.thy ===== *)
theory Rollback
  imports Batch_Controller "HOL-Library.Sublist"
begin

text \<open>
  \<^verbatim>\<open>internal/rollback\<close>: the ledger of what the forward run did (\<^verbatim>\<open>ledger.go\<close>), the manager that undoes it
  (\<^verbatim>\<open>manager.go\<close>) and the grading of the outcome (\<^verbatim>\<open>grading.go\<close>).

  As in the batch controller, what the manager asks of its surroundings (a slot of the semaphore, the
  callback that runs an undo step, the callback that restores a snapshot) is a question of a \<open>prog\<close>, and
  a batch of targets runs in any order a schedule says. The two callbacks may be missing; a map of maps
  to \<^verbatim>\<open>true\<close> is the list of its pairs. Durations and log lines are left out.
\<close>

section \<open>The ledger\<close>

record ExecutionLedger =
  lg_ran :: "(string \<times> string) list"
  lg_unknown :: "(string \<times> string) list"
  lg_compensated :: "(string \<times> string) list"
  lg_uncertain :: "(string \<times> string) list"

definition NewExecutionLedger :: ExecutionLedger where
  "NewExecutionLedger = \<lparr>lg_ran = [], lg_unknown = [], lg_compensated = [], lg_uncertain = []\<rparr>"

definition MarkRan :: "string \<Rightarrow> string \<Rightarrow> ExecutionLedger \<Rightarrow> ExecutionLedger" where
  "MarkRan target step l = (if target = '''' \<or> step = '''' then l
     else l\<lparr>lg_ran := List.insert (target, step) (lg_ran l),
            lg_compensated := removeAll (target, step) (lg_compensated l)\<rparr>)"

definition MarkCompensated :: "string \<Rightarrow> string \<Rightarrow> ExecutionLedger \<Rightarrow> ExecutionLedger" where
  "MarkCompensated target step l = (if target = '''' \<or> step = '''' then l
     else l\<lparr>lg_compensated := List.insert (target, step) (lg_compensated l)\<rparr>)"

definition AlreadyCompensated :: "ExecutionLedger \<Rightarrow> string \<Rightarrow> string \<Rightarrow> bool" where
  "AlreadyCompensated l target step = ((target, step) \<in> set (lg_compensated l))"

definition MarkCompensationUncertain :: "string \<Rightarrow> string \<Rightarrow> ExecutionLedger \<Rightarrow> ExecutionLedger" where
  "MarkCompensationUncertain target step l = (if target = '''' \<or> step = '''' then l
     else l\<lparr>lg_uncertain := List.insert (target, step) (lg_uncertain l)\<rparr>)"

definition CompensationUncertain :: "ExecutionLedger \<Rightarrow> string \<Rightarrow> string \<Rightarrow> bool" where
  "CompensationUncertain l target step = ((target, step) \<in> set (lg_uncertain l))"

definition MarkUnknown :: "string \<Rightarrow> string \<Rightarrow> ExecutionLedger \<Rightarrow> ExecutionLedger" where
  "MarkUnknown target step l = (if target = '''' \<or> step = '''' then l
     else (let l' = MarkRan target step l in l'\<lparr>lg_unknown := List.insert (target, step) (lg_unknown l')\<rparr>))"

definition Ran :: "ExecutionLedger \<Rightarrow> string \<Rightarrow> string \<Rightarrow> bool" where
  "Ran l target step = ((target, step) \<in> set (lg_ran l))"

definition SideEffectsUnknown :: "ExecutionLedger \<Rightarrow> string \<Rightarrow> string \<Rightarrow> bool" where
  "SideEffectsUnknown l target step = ((target, step) \<in> set (lg_unknown l))"

definition RanCount :: "ExecutionLedger option \<Rightarrow> nat" where
  "RanCount l = (case l of None \<Rightarrow> 0 | Some l \<Rightarrow> length (lg_ran l))"

definition CompensatedCount :: "ExecutionLedger option \<Rightarrow> nat" where
  "CompensatedCount l = (case l of None \<Rightarrow> 0 | Some l \<Rightarrow> length (lg_compensated l))"

definition mark_step :: "string \<Rightarrow> StepResult \<Rightarrow> ExecutionLedger \<Rightarrow> ExecutionLedger" where
  "mark_step target sr l = (if sr_error sr \<noteq> None then MarkUnknown target (sr_step sr) l else MarkRan target (sr_step sr) l)"

definition LedgerFromBatchResults :: "BatchResult option list \<Rightarrow> ExecutionLedger" where
  "LedgerFromBatchResults brs = fold (\<lambda>br l. case br of
       None \<Rightarrow> l
     | Some br \<Rightarrow> fold (\<lambda>tr l. fold (mark_step (tr_target tr)) (tr_steps tr) l) (br_targets br) l) brs NewExecutionLedger"

section \<open>Results\<close>

datatype rollback_error =
    PlanIsNil
  | UndoFailed string string string string
  | RestoreFailed string string string string

record StepRollbackResult =
  rr_orig :: string
  rr_step :: string
  rr_module :: string
  rr_action :: string
  rr_skipped :: bool
  rr_not_executed :: bool
  rr_already :: bool
  rr_unknown :: bool
  rr_dry_run :: bool
  rr_reason :: string
  rr_error :: "rollback_error option"

record TargetRollbackResult =
  rt_target :: string
  rt_steps :: "StepRollbackResult list"

record BatchRollbackResult =
  rb_index :: int
  rb_targets :: "TargetRollbackResult list"

record RollbackResult =
  ro_run_id :: string
  ro_batches :: "BatchRollbackResult list"
  ro_success :: bool
  ro_required :: nat
  ro_completed :: nat
  ro_unknown :: nat
  ro_partial :: bool
  ro_error :: "rollback_error option"

definition blank_step :: "string \<Rightarrow> StepRollbackResult" where
  "blank_step name = \<lparr>rr_orig = name, rr_step = '''', rr_module = '''', rr_action = '''', rr_skipped = False,
     rr_not_executed = False, rr_already = False, rr_unknown = False, rr_dry_run = False, rr_reason = '''', rr_error = None\<rparr>"

definition skipped_step :: "string \<Rightarrow> string \<Rightarrow> StepRollbackResult" where
  "skipped_step name reason = (blank_step name)\<lparr>rr_skipped := True, rr_reason := reason\<rparr>"

section \<open>The manager\<close>

record rb_manager =
  m_whitelist :: "string list"
  m_whitelist_all :: bool
  m_concurrency :: int
  m_stop_on_error :: bool
  m_restore :: bool
  m_run_id :: string
  m_dry_run :: bool

definition WithWhitelist :: "string list \<Rightarrow> rb_manager \<Rightarrow> rb_manager" where
  "WithWhitelist actions m = m\<lparr>m_whitelist := fold List.insert actions (m_whitelist m)\<rparr>"

definition WithWhitelistAll :: "rb_manager \<Rightarrow> rb_manager" where
  "WithWhitelistAll m = m\<lparr>m_whitelist_all := True\<rparr>"

definition WithConcurrency :: "int \<Rightarrow> rb_manager \<Rightarrow> rb_manager" where
  "WithConcurrency n m = (if 0 < n then m\<lparr>m_concurrency := n\<rparr> else m)"

definition WithStopOnError :: "bool \<Rightarrow> rb_manager \<Rightarrow> rb_manager" where
  "WithStopOnError b m = m\<lparr>m_stop_on_error := b\<rparr>"

definition WithDryRun :: "bool \<Rightarrow> rb_manager \<Rightarrow> rb_manager" where
  "WithDryRun on m = m\<lparr>m_dry_run := on\<rparr>"

definition WithSnapshotRestore :: "bool \<Rightarrow> rb_manager \<Rightarrow> rb_manager" where
  "WithSnapshotRestore fn m = m\<lparr>m_restore := fn\<rparr>"

definition WithRunID :: "string \<Rightarrow> rb_manager \<Rightarrow> rb_manager" where
  "WithRunID run m = m\<lparr>m_run_id := run\<rparr>"

definition SetRunID :: "string \<Rightarrow> rb_manager \<Rightarrow> rb_manager" where
  "SetRunID run m = m\<lparr>m_run_id := run\<rparr>"

definition NewManager :: "(rb_manager \<Rightarrow> rb_manager) list \<Rightarrow> rb_manager" where
  "NewManager opts = fold (\<lambda>opt m. opt m) opts
     \<lparr>m_whitelist = [], m_whitelist_all = False, m_concurrency = 1, m_stop_on_error = True, m_restore = False,
      m_run_id = '''', m_dry_run = False\<rparr>"

definition allows :: "rb_manager \<Rightarrow> string \<Rightarrow> bool" where
  "allows m moduleAction = (m_whitelist_all m \<or> moduleAction \<in> set (m_whitelist m))"

definition Whitelist :: "rb_manager \<Rightarrow> string list" where
  "Whitelist m = sort (m_whitelist m)"

definition compensationRepeatable :: "plan_step \<Rightarrow> bool" where
  "compensationRepeatable ps = (case ps_rollback ps of
      None \<Rightarrow> True
    | Some spec \<Rightarrow> rs_strategy spec = ''snapshot'' \<or> (\<forall>rb\<in>set (rs_steps spec). ds_idempotent rb))"

section \<open>Undoing on one target\<close>

datatype rb_query =
    KSlot
  | KSlotRelease
  | KExec string dsl_step
  | KRestore string string plan_step

datatype rb_reply = KUnit | KErr "string option"

type_synonym 'a rb_prog = "(rb_query, rb_reply, 'a) prog"

fun reply_err :: "rb_reply \<Rightarrow> string option" where
  "reply_err (KErr e) = e"
| "reply_err KUnit = None"

definition ErrStepNotWhitelisted :: string where
  "ErrStepNotWhitelisted = ''rollback step not whitelisted''"

definition restoreSnapshotStep :: "rb_manager \<Rightarrow> string \<Rightarrow> plan_step \<Rightarrow> StepRollbackResult rb_prog" where
  "restoreSnapshotStep m target ps =
    (let sr = (blank_step (ps_name ps))\<lparr>rr_step := ''snapshot:'' @ ps_name ps, rr_module := ps_module ps, rr_action := ps_action ps\<rparr>
     in if \<not> m_restore m then Ret (sr\<lparr>rr_skipped := True, rr_reason := ''snapshot restore not wired''\<rparr>)
        else if m_dry_run m
          then Ret (sr\<lparr>rr_skipped := True, rr_dry_run := True, rr_reason := ''dry-run: snapshot restore not applied''\<rparr>)
        else if m_run_id m = '''' then Ret (sr\<lparr>rr_skipped := True, rr_reason := ''snapshot restore without run id''\<rparr>)
        else Ask (KRestore (m_run_id m) target ps) (\<lambda>reply.
          Ret (sr\<lparr>rr_error := map_option (RestoreFailed (ps_module ps) (ps_action ps) target) (reply_err reply)\<rparr>)))"

definition executeRollbackStep :: "rb_manager \<Rightarrow> string \<Rightarrow> string \<Rightarrow> dsl_step \<Rightarrow> bool \<Rightarrow> StepRollbackResult rb_prog" where
  "executeRollbackStep m target origStepName rbStep has_exec =
    (let sr = (blank_step origStepName)\<lparr>rr_step := ds_name rbStep, rr_module := ds_module rbStep, rr_action := ds_action rbStep\<rparr>;
         name = ds_module rbStep @ ''.'' @ ds_action rbStep
     in if \<not> allows m name
          then Ret (sr\<lparr>rr_skipped := True, rr_reason := name @ '' not in rollback whitelist: '' @ ErrStepNotWhitelisted\<rparr>)
        else if \<not> has_exec
          then Ret (sr\<lparr>rr_skipped := True, rr_dry_run := True, rr_reason := ''no execute function''\<rparr>)
        else Ask (KExec target rbStep) (\<lambda>reply.
          Ret (sr\<lparr>rr_error := map_option (UndoFailed (ds_module rbStep) (ds_action rbStep) target) (reply_err reply)\<rparr>)))"

fun undo_steps :: "rb_manager \<Rightarrow> string \<Rightarrow> string \<Rightarrow> dsl_step list \<Rightarrow> bool \<Rightarrow> bool \<Rightarrow> StepRollbackResult list rb_prog" where
  "undo_steps m target orig [] has_exec unknown = Ret []"
| "undo_steps m target orig (rb # rbs) has_exec unknown =
    bind_prog (executeRollbackStep m target orig rb has_exec) (\<lambda>sr.
    bind_prog (undo_steps m target orig rbs has_exec unknown) (\<lambda>srs.
    Ret (sr\<lparr>rr_unknown := unknown\<rparr> # srs)))"

text \<open>One round of the loop of \<^verbatim>\<open>rollbackTarget\<close>: what is appended to the results for one step.\<close>

definition rollback_step :: "rb_manager \<Rightarrow> string \<Rightarrow> plan_step \<Rightarrow> bool \<Rightarrow> ExecutionLedger option \<Rightarrow>
  StepRollbackResult list rb_prog" where
  "rollback_step m target ps has_exec ledger =
    (let name = ps_name ps;
         known = (\<lambda>f. case ledger of None \<Rightarrow> False | Some l \<Rightarrow> f l target name);
         unknown = known SideEffectsUnknown
     in if known AlreadyCompensated
          then Ret [(skipped_step name ''already compensated by an earlier rollback'')\<lparr>rr_already := True\<rparr>]
        else if ledger \<noteq> None \<and> \<not> known Ran
          then Ret [(skipped_step name ''forward step not executed on this target'')\<lparr>rr_not_executed := True\<rparr>]
        else if known CompensationUncertain \<and> \<not> compensationRepeatable ps
          then Ret [skipped_step name (''refusing to re-run: a prior compensation is on record '' @
             ''but cannot be ordered against this execution, and the rollback step '' @ ''does not declare idempotent: true'')]
        else (case ps_rollback ps of
            None \<Rightarrow> Ret [(skipped_step name ''no rollback spec'')\<lparr>rr_unknown := unknown\<rparr>]
          | Some spec \<Rightarrow>
             if rs_strategy spec = ''snapshot''
             then bind_prog (restoreSnapshotStep m target ps) (\<lambda>sr. Ret [sr\<lparr>rr_unknown := unknown\<rparr>])
             else undo_steps m target name (rs_steps spec) has_exec unknown))"

fun rollback_all :: "rb_manager \<Rightarrow> string \<Rightarrow> plan_step list \<Rightarrow> bool \<Rightarrow> ExecutionLedger option \<Rightarrow>
  StepRollbackResult list rb_prog" where
  "rollback_all m target [] has_exec ledger = Ret []"
| "rollback_all m target (ps # steps) has_exec ledger =
    bind_prog (rollback_step m target ps has_exec ledger) (\<lambda>srs.
    bind_prog (rollback_all m target steps has_exec ledger) (\<lambda>rest. Ret (srs @ rest)))"

definition rollbackTarget :: "rb_manager \<Rightarrow> plan_step list \<Rightarrow> bool \<Rightarrow> ExecutionLedger option \<Rightarrow> string \<Rightarrow>
  TargetRollbackResult rb_prog" where
  "rollbackTarget m steps has_exec ledger target =
    bind_prog (rollback_all m target (rev steps) has_exec ledger) (\<lambda>srs.
    Ret \<lparr>rt_target = target, rt_steps = srs\<rparr>)"

section \<open>Undoing a batch\<close>

record rb_shared =
  ks_cap :: int
  ks_held :: int

fun rb_answer :: "rb_shared \<Rightarrow> rb_query \<Rightarrow> rb_reply \<Rightarrow> rb_shared option" where
  "rb_answer sh KSlot KUnit = (if ks_held sh < ks_cap sh then Some (sh\<lparr>ks_held := ks_held sh + 1\<rparr>) else None)"
| "rb_answer sh KSlotRelease KUnit = (if 0 < ks_held sh then Some (sh\<lparr>ks_held := ks_held sh - 1\<rparr>) else None)"
| "rb_answer sh (KExec t s) (KErr e) = Some sh"
| "rb_answer sh (KRestore r t ps) (KErr e) = Some sh"
| "rb_answer sh q r = None"

type_synonym rb_history = "(nat \<times> rb_query \<times> rb_reply) list"

fun serial_targets :: "(string \<Rightarrow> TargetRollbackResult rb_prog) \<Rightarrow> string list \<Rightarrow> TargetRollbackResult list rb_prog" where
  "serial_targets f [] = Ret []"
| "serial_targets f (t # ts) = bind_prog (f t) (\<lambda>tr. bind_prog (serial_targets f ts) (\<lambda>trs. Ret (tr # trs)))"

definition rollback_goroutine :: "(string \<Rightarrow> TargetRollbackResult rb_prog) \<Rightarrow> string \<Rightarrow> TargetRollbackResult rb_prog" where
  "rollback_goroutine f t = Ask KSlot (\<lambda>_. bind_prog (f t) (\<lambda>tr. Ask KSlotRelease (\<lambda>_. Ret tr)))"

text \<open>The goroutines of a batch: with a concurrency of one the caller itself, target after target.\<close>

definition rollback_threads :: "rb_manager \<Rightarrow> plan_batch \<Rightarrow> bool \<Rightarrow> ExecutionLedger option \<Rightarrow>
  TargetRollbackResult list rb_prog list" where
  "rollback_threads m b has_exec ledger =
    (let f = rollbackTarget m (pb_steps b) has_exec ledger
     in if m_concurrency m \<le> 1 then [serial_targets f (pb_targets b)]
        else map (\<lambda>t. bind_prog (rollback_goroutine f t) (\<lambda>tr. Ret [tr])) (pb_targets b))"

definition run_rollback :: "rb_manager \<Rightarrow> plan_batch \<Rightarrow> bool \<Rightarrow> ExecutionLedger option \<Rightarrow> (nat \<times> rb_reply) list \<Rightarrow>
  (rb_shared \<times> TargetRollbackResult list rb_prog list \<times> rb_history) option" where
  "run_rollback m b has_exec ledger acts =
    interleave rb_answer \<lparr>ks_cap = m_concurrency m, ks_held = 0\<rparr> (rollback_threads m b has_exec ledger) acts"

definition rollbackBatch :: "rb_manager \<Rightarrow> plan_batch \<Rightarrow> bool \<Rightarrow> ExecutionLedger option \<Rightarrow> (nat \<times> rb_reply) list \<Rightarrow>
  (BatchRollbackResult \<times> rb_history) option" where
  "rollbackBatch m b has_exec ledger acts =
    (if pb_targets b = [] then (if acts = [] then Some (\<lparr>rb_index = pb_index b, rb_targets = []\<rparr>, []) else None)
     else (case run_rollback m b has_exec ledger acts of
        None \<Rightarrow> None
      | Some (sh, ts, h) \<Rightarrow>
         (case those (map returned ts) of
            None \<Rightarrow> None
          | Some trss \<Rightarrow> Some (\<lparr>rb_index = pb_index b, rb_targets = concat trss\<rparr>, h))))"

section \<open>Undoing a plan\<close>

record rb_tally =
  ta_required :: nat
  ta_completed :: nat
  ta_unknown :: nat
  ta_error :: "rollback_error option"

definition tally_step :: "bool \<Rightarrow> StepRollbackResult \<Rightarrow> rb_tally \<Rightarrow> rb_tally" where
  "tally_step no_ledger sr t =
    (let t = (if rr_unknown sr then t\<lparr>ta_unknown := ta_unknown t + 1\<rparr> else t)
     in if rr_not_executed sr \<or> rr_already sr \<or> no_ledger \<and> rr_skipped sr then t
        else (let t = t\<lparr>ta_required := ta_required t + 1\<rparr>
          in if rr_skipped sr then t
             else if rr_error sr \<noteq> None then (if ta_error t = None then t\<lparr>ta_error := rr_error sr\<rparr> else t)
             else t\<lparr>ta_completed := ta_completed t + 1\<rparr>))"

definition steps_of_batch :: "BatchRollbackResult \<Rightarrow> StepRollbackResult list" where
  "steps_of_batch br = concat (map rt_steps (rb_targets br))"

definition tally_batch :: "bool \<Rightarrow> BatchRollbackResult \<Rightarrow> rb_tally \<Rightarrow> rb_tally" where
  "tally_batch no_ledger br t = fold (tally_step no_ledger) (steps_of_batch br) t"

text \<open>The loop over the batches, last first; a script has one schedule per batch that is undone.\<close>

fun rollback_batches :: "rb_manager \<Rightarrow> bool \<Rightarrow> ExecutionLedger option \<Rightarrow> plan_batch list \<Rightarrow> (nat \<times> rb_reply) list list \<Rightarrow>
  rb_tally \<Rightarrow> (BatchRollbackResult list \<times> rb_tally \<times> rb_history list) option" where
  "rollback_batches m has_exec ledger [] scs t = (if scs = [] then Some ([], t, []) else None)"
| "rollback_batches m has_exec ledger (b # bs) [] t = None"
| "rollback_batches m has_exec ledger (b # bs) (acts # scs) t =
    (case rollbackBatch m b has_exec ledger acts of
       None \<Rightarrow> None
     | Some (br, h) \<Rightarrow>
        (let t' = tally_batch (ledger = None) br t
         in if ta_error t' \<noteq> None \<and> m_stop_on_error m then (if scs = [] then Some ([br], t', [h]) else None)
            else (case rollback_batches m has_exec ledger bs scs t' of
                None \<Rightarrow> None
              | Some (brs, t'', hs) \<Rightarrow> Some (br # brs, t'', h # hs))))"

definition no_tally :: rb_tally where
  "no_tally = \<lparr>ta_required = 0, ta_completed = 0, ta_unknown = 0, ta_error = None\<rparr>"

definition RollbackWithLedger :: "rb_manager \<Rightarrow> plan option \<Rightarrow> bool \<Rightarrow> ExecutionLedger option \<Rightarrow>
  (nat \<times> rb_reply) list list \<Rightarrow> (RollbackResult \<times> rb_history list) option" where
  "RollbackWithLedger m p has_exec ledger scs =
    (case p of
       None \<Rightarrow> Some (\<lparr>ro_run_id = m_run_id m, ro_batches = [], ro_success = False, ro_required = 0, ro_completed = 0,
                    ro_unknown = 0, ro_partial = False, ro_error = Some PlanIsNil\<rparr>, [])
     | Some p \<Rightarrow>
        (case rollback_batches m has_exec ledger (rev (pl_batches p)) scs no_tally of
           None \<Rightarrow> None
         | Some (brs, t, hs) \<Rightarrow>
            (let success = (ta_error t = None \<and> ta_required t = ta_completed t)
             in Some (\<lparr>ro_run_id = m_run_id m, ro_batches = brs, ro_success = success, ro_required = ta_required t,
                   ro_completed = ta_completed t, ro_unknown = ta_unknown t,
                   ro_partial = (\<not> success \<and> 0 < ta_completed t), ro_error = ta_error t\<rparr>, hs))))"

definition Rollback :: "rb_manager \<Rightarrow> plan option \<Rightarrow> bool \<Rightarrow> (nat \<times> rb_reply) list list \<Rightarrow>
  (RollbackResult \<times> rb_history list) option" where
  "Rollback m p has_exec scs = RollbackWithLedger m p has_exec None scs"

section \<open>Reading the results\<close>

definition IsSkipped :: "StepRollbackResult \<Rightarrow> bool" where "IsSkipped sr = rr_skipped sr"

definition HasError :: "StepRollbackResult \<Rightarrow> bool" where "HasError sr = (\<not> rr_skipped sr \<and> rr_error sr \<noteq> None)"

definition NotWhitelisted :: "StepRollbackResult \<Rightarrow> bool" where
  "NotWhitelisted sr = (rr_skipped sr \<and> contains_str (rr_reason sr) ErrStepNotWhitelisted)"

datatype RollbackGrade = GradeSuccess | GradePartial | GradeFailure | GradeOther string

definition Grade :: "RollbackResult option \<Rightarrow> RollbackGrade" where
  "Grade result = (case result of
      None \<Rightarrow> GradeFailure
    | Some r \<Rightarrow> if ro_success r then GradeSuccess else if ro_partial r then GradePartial else GradeFailure)"

text \<open>An action is a callback that may fail; \<open>'w\<close> is whatever it acts on.\<close>

type_synonym 'w grade_call = "RollbackGrade \<Rightarrow> RollbackResult option \<Rightarrow> 'w \<Rightarrow> string option \<times> 'w"

record 'w Grader =
  on_partial_notify :: "'w grade_call option"
  on_partial_audit :: "'w grade_call option"
  on_failure_notify :: "'w grade_call option"
  on_failure_escalate :: "'w grade_call option"
  on_failure_audit :: "'w grade_call option"

definition WithPartialNotify :: "'w grade_call \<Rightarrow> 'w Grader \<Rightarrow> 'w Grader" where
  "WithPartialNotify f g = g\<lparr>on_partial_notify := Some f\<rparr>"

definition WithPartialAudit :: "'w grade_call \<Rightarrow> 'w Grader \<Rightarrow> 'w Grader" where
  "WithPartialAudit f g = g\<lparr>on_partial_audit := Some f\<rparr>"

definition WithFailureNotify :: "'w grade_call \<Rightarrow> 'w Grader \<Rightarrow> 'w Grader" where
  "WithFailureNotify f g = g\<lparr>on_failure_notify := Some f\<rparr>"

definition WithFailureEscalate :: "'w grade_call \<Rightarrow> 'w Grader \<Rightarrow> 'w Grader" where
  "WithFailureEscalate f g = g\<lparr>on_failure_escalate := Some f\<rparr>"

definition WithFailureAudit :: "'w grade_call \<Rightarrow> 'w Grader \<Rightarrow> 'w Grader" where
  "WithFailureAudit f g = g\<lparr>on_failure_audit := Some f\<rparr>"

definition NewGrader :: "('w Grader \<Rightarrow> 'w Grader) list \<Rightarrow> 'w Grader" where
  "NewGrader opts = fold (\<lambda>opt g. opt g) opts
     \<lparr>on_partial_notify = None, on_partial_audit = None, on_failure_notify = None, on_failure_escalate = None,
      on_failure_audit = None\<rparr>"

record 'w GradeAction =
  ga_grade :: RollbackGrade
  ga_notify :: "'w grade_call option"
  ga_escalate :: "'w grade_call option"
  ga_audit :: "'w grade_call option"

definition GetAction :: "'w Grader \<Rightarrow> RollbackGrade \<Rightarrow> 'w GradeAction" where
  "GetAction g grade = (case grade of
      GradeSuccess \<Rightarrow> \<lparr>ga_grade = GradeSuccess, ga_notify = None, ga_escalate = None, ga_audit = None\<rparr>
    | GradePartial \<Rightarrow> \<lparr>ga_grade = GradePartial, ga_notify = on_partial_notify g, ga_escalate = None, ga_audit = on_partial_audit g\<rparr>
    | GradeFailure \<Rightarrow> \<lparr>ga_grade = GradeFailure, ga_notify = on_failure_notify g, ga_escalate = on_failure_escalate g,
        ga_audit = on_failure_audit g\<rparr>
    | GradeOther s \<Rightarrow> \<lparr>ga_grade = GradeOther s, ga_notify = None, ga_escalate = None, ga_audit = None\<rparr>)"

fun dispatch_actions :: "RollbackGrade \<Rightarrow> RollbackResult option \<Rightarrow> (string \<times> 'w grade_call option) list \<Rightarrow> 'w \<Rightarrow>
  string option \<times> 'w" where
  "dispatch_actions grade result [] w = (None, w)"
| "dispatch_actions grade result ((what, None) # calls) w = dispatch_actions grade result calls w"
| "dispatch_actions grade result ((what, Some f) # calls) w =
    (case f grade result w of
       (Some e, w') \<Rightarrow> (Some (''rollback grade '' @ what @ '': '' @ e), w')
     | (None, w') \<Rightarrow> dispatch_actions grade result calls w')"

definition GradeAndAct :: "'w Grader \<Rightarrow> RollbackResult option \<Rightarrow> 'w \<Rightarrow> (RollbackGrade \<times> string option) \<times> 'w" where
  "GradeAndAct g result w =
    (let grade = Grade result; action = GetAction g grade;
         (err, w') = dispatch_actions grade result
           [(''notify'', ga_notify action), (''escalate'', ga_escalate action), (''audit'', ga_audit action)] w
     in ((grade, err), w'))"

section \<open>What is undone\<close>

text \<open>The steps the ledger lets the manager undo on a target, and what it may then ask for.\<close>

definition undo_permitted :: "ExecutionLedger option \<Rightarrow> string \<Rightarrow> plan_step \<Rightarrow> bool" where
  "undo_permitted ledger t ps = (case ledger of
      None \<Rightarrow> True
    | Some l \<Rightarrow> Ran l t (ps_name ps) \<and> \<not> AlreadyCompensated l t (ps_name ps) \<and>
        (CompensationUncertain l t (ps_name ps) \<longrightarrow> compensationRepeatable ps))"

fun undo_of :: "rb_manager \<Rightarrow> bool \<Rightarrow> string \<Rightarrow> plan_step \<Rightarrow> rb_query \<Rightarrow> bool" where
  "undo_of m has_exec t ps (KExec t' rb) = (t' = t \<and> has_exec \<and>
     allows m (ds_module rb @ ''.'' @ ds_action rb) \<and>
     (\<exists>spec. ps_rollback ps = Some spec \<and> rs_strategy spec \<noteq> ''snapshot'' \<and> rb \<in> set (rs_steps spec)))"
| "undo_of m has_exec t ps (KRestore run t' ps') = (t' = t \<and> ps' = ps \<and> run = m_run_id m \<and> run \<noteq> '''' \<and>
     m_restore m \<and> \<not> m_dry_run m \<and> (\<exists>spec. ps_rollback ps = Some spec \<and> rs_strategy spec = ''snapshot''))"
| "undo_of m has_exec t ps q = False"

lemma undo_steps_asks:
  "ps_rollback ps = Some spec \<Longrightarrow> rs_strategy spec \<noteq> ''snapshot'' \<Longrightarrow> set rbs \<subseteq> set (rs_steps spec) \<Longrightarrow>
   asks_only (undo_of m has_exec t ps) (undo_steps m t orig rbs has_exec unknown)"
  by (induction rbs) (auto simp: executeRollbackStep_def Let_def intro!: asks_only_bind)

lemma rollback_step_asks:
  "asks_only (\<lambda>q. undo_permitted ledger t ps \<and> undo_of m has_exec t ps q) (rollback_step m t ps has_exec ledger)"
proof (cases "undo_permitted ledger t ps")
  case True
  then have "asks_only (undo_of m has_exec t ps) (rollback_step m t ps has_exec ledger)"
    by (auto simp: rollback_step_def Let_def restoreSnapshotStep_def intro!: asks_only_bind undo_steps_asks split: option.split)
  from this show ?thesis by (rule asks_only_mono) (use True in simp)
next
  case False
  then show ?thesis by (auto simp: rollback_step_def undo_permitted_def Let_def split: option.splits)
qed

lemma rollback_all_asks:
  assumes "\<And>ps. ps \<in> set steps \<Longrightarrow> asks_only P (rollback_step m t ps has_exec ledger)"
  shows "asks_only P (rollback_all m t steps has_exec ledger)"
  using assms by (induction steps) (auto intro!: asks_only_bind)

definition rollback_asks :: "rb_manager \<Rightarrow> bool \<Rightarrow> ExecutionLedger option \<Rightarrow> plan_batch \<Rightarrow> rb_query \<Rightarrow> bool" where
  "rollback_asks m has_exec ledger b q \<longleftrightarrow> q = KSlot \<or> q = KSlotRelease \<or>
    (\<exists>t\<in>set (pb_targets b). \<exists>ps\<in>set (pb_steps b). undo_permitted ledger t ps \<and> undo_of m has_exec t ps q)"

lemma rollbackTarget_asks:
  "t \<in> set (pb_targets b) \<Longrightarrow> asks_only (rollback_asks m has_exec ledger b) (rollbackTarget m (pb_steps b) has_exec ledger t)"
  unfolding rollbackTarget_def
  by (intro asks_only_bind rollback_all_asks asks_only_mono [OF rollback_step_asks]) (auto simp: rollback_asks_def)

lemma serial_targets_asks:
  "(\<And>t. t \<in> set ts \<Longrightarrow> asks_only P (f t)) \<Longrightarrow> asks_only P (serial_targets f ts)"
  by (induction ts) (auto intro!: asks_only_bind)

lemma rollback_threads_asks: "p \<in> set (rollback_threads m b has_exec ledger) \<Longrightarrow> asks_only (rollback_asks m has_exec ledger b) p"
  by (auto simp: rollback_threads_def Let_def rollback_goroutine_def rollback_asks_def [of _ _ _ _ KSlot]
      rollback_asks_def [of _ _ _ _ KSlotRelease] split: if_splits
      intro!: serial_targets_asks asks_only_bind rollbackTarget_asks)

lemma rollbackBatch_asks:
  assumes "rollbackBatch m b has_exec ledger acts = Some (br, h)" and "(i, q, r) \<in> set h"
  shows "rollback_asks m has_exec ledger b q"
  using assms interleave_asks [of rb_answer _ "rollback_threads m b has_exec ledger" acts _ _ h _ i q r] rollback_threads_asks
  by (fastforce simp: rollbackBatch_def run_rollback_def split: if_splits option.splits)

lemma rollback_batches_asks:
  assumes "rollback_batches m has_exec ledger bs scs t = Some (brs, t', hs)" and "h \<in> set hs" and "(i, q, r) \<in> set h"
  shows "\<exists>b\<in>set bs. rollback_asks m has_exec ledger b q"
  using assms
proof (induction bs arbitrary: scs t brs hs)
  case (Cons b bs)
  then obtain acts scs' where scs: "scs = acts # scs'" by (cases scs) auto
  obtain br h1 where br: "rollbackBatch m b has_exec ledger acts = Some (br, h1)"
    using Cons.prems(1) scs by (auto split: option.splits)
  have "hs = [h1] \<or> (\<exists>t1 brs' hs'. rollback_batches m has_exec ledger bs scs' t1 = Some (brs', t', hs') \<and> hs = h1 # hs')"
    using Cons.prems(1) scs br by (auto simp: Let_def split: option.splits if_splits)
  then show ?case using Cons.IH Cons.prems(2,3) rollbackBatch_asks [OF br] by fastforce
qed (auto split: if_splits)

section \<open>The verdict\<close>

definition settled_step :: "bool \<Rightarrow> StepRollbackResult \<Rightarrow> bool" where
  "settled_step no_ledger sr \<longleftrightarrow> rr_not_executed sr \<or> rr_already sr \<or> no_ledger \<and> rr_skipped sr \<or>
     \<not> rr_skipped sr \<and> rr_error sr = None"

lemma tally_fold:
  "ta_completed t \<le> ta_required t \<Longrightarrow> (ta_error t \<noteq> None \<Longrightarrow> ta_completed t < ta_required t) \<Longrightarrow>
   t' = fold (tally_step nl) srs t \<Longrightarrow>
   ta_completed t' \<le> ta_required t' \<and> (ta_error t' \<noteq> None \<longrightarrow> ta_completed t' < ta_required t') \<and>
   (ta_completed t' = ta_required t' \<longleftrightarrow> ta_completed t = ta_required t \<and> (\<forall>sr\<in>set srs. settled_step nl sr))"
proof (induction srs arbitrary: t)
  case (Cons sr srs)
  let ?t = "tally_step nl sr t"
  have step: "ta_completed ?t \<le> ta_required ?t" "ta_error ?t \<noteq> None \<Longrightarrow> ta_completed ?t < ta_required ?t"
    "ta_completed ?t = ta_required ?t \<longleftrightarrow> ta_completed t = ta_required t \<and> settled_step nl sr"
    using Cons.prems(1,2) by (auto simp: tally_step_def Let_def settled_step_def split: if_splits)
  from Cons.IH [OF step(1,2)] Cons.prems(3) step(3) show ?case by auto
qed simp

lemma rollback_batches_verdict:
  assumes "rollback_batches m has_exec ledger bs scs t = Some (brs, t', hs)"
    and "ta_completed t \<le> ta_required t" and "ta_error t \<noteq> None \<longrightarrow> ta_completed t < ta_required t"
  shows "ta_completed t' \<le> ta_required t' \<and> (ta_error t' \<noteq> None \<longrightarrow> ta_completed t' < ta_required t') \<and>
    (ta_completed t' = ta_required t' \<longrightarrow> ta_completed t = ta_required t \<and> length brs = length bs \<and> length hs = length bs \<and>
      (\<forall>k < length bs. (\<exists>acts. rollbackBatch m (bs ! k) has_exec ledger acts = Some (brs ! k, hs ! k)) \<and>
        (\<forall>sr\<in>set (steps_of_batch (brs ! k)). settled_step (ledger = None) sr)))"
  using assms
proof (induction bs arbitrary: scs t brs hs)
  case (Cons b bs)
  then obtain acts scs' where scs: "scs = acts # scs'" by (cases scs) auto
  obtain br h1 where br: "rollbackBatch m b has_exec ledger acts = Some (br, h1)"
    using Cons.prems(1) scs by (auto split: option.splits)
  define t1 where "t1 = tally_batch (ledger = None) br t"
  have tally: "ta_completed t1 \<le> ta_required t1" "ta_error t1 \<noteq> None \<longrightarrow> ta_completed t1 < ta_required t1"
    "ta_completed t1 = ta_required t1 \<longleftrightarrow> ta_completed t = ta_required t \<and> (\<forall>sr\<in>set (steps_of_batch br). settled_step (ledger = None) sr)"
    using tally_fold [of t t1 "ledger = None" "steps_of_batch br"] Cons.prems(2,3) by (auto simp: t1_def tally_batch_def)
  have "ta_error t1 \<noteq> None \<and> t' = t1 \<or>
    (\<exists>brs' hs'. rollback_batches m has_exec ledger bs scs' t1 = Some (brs', t', hs') \<and> brs = br # brs' \<and> hs = h1 # hs')"
    using Cons.prems(1) scs br by (auto simp: Let_def t1_def split: option.splits if_splits)
  then show ?case
  proof (elim disjE exE conjE)
    assume "ta_error t1 \<noteq> None" "t' = t1"
    then show ?thesis using tally by auto
  next
    fix brs' hs'
    assume rest: "rollback_batches m has_exec ledger bs scs' t1 = Some (brs', t', hs')" "brs = br # brs'" "hs = h1 # hs'"
    note ih = Cons.IH [OF rest(1) tally(1,2)]
    show ?thesis
    proof (intro conjI impI)
      assume eq: "ta_completed t' = ta_required t'"
      then have "ta_completed t1 = ta_required t1" using ih by blast
      then show "ta_completed t = ta_required t" using tally(3) by blast
      have all: "length brs' = length bs" "length hs' = length bs" "\<forall>k < length bs. (\<exists>acts. rollbackBatch m (bs ! k) has_exec ledger acts = Some (brs' ! k, hs' ! k)) \<and>
        (\<forall>sr\<in>set (steps_of_batch (brs' ! k)). settled_step (ledger = None) sr)" using ih eq by blast+
      then show "length brs = length (b # bs)" "length hs = length (b # bs)" using rest by simp_all
      show "\<forall>k < length (b # bs). (\<exists>acts. rollbackBatch m ((b # bs) ! k) has_exec ledger acts = Some (brs ! k, hs ! k)) \<and>
        (\<forall>sr\<in>set (steps_of_batch (brs ! k)). settled_step (ledger = None) sr)"
        using all(3) br rest(2,3) tally(3) \<open>ta_completed t1 = ta_required t1\<close> by (auto simp: nth_Cons split: nat.splits)
    qed (use ih in auto)
  qed
qed (auto split: if_splits)

fun rb_fits :: "rb_query \<Rightarrow> rb_reply \<Rightarrow> bool" where
  "rb_fits (KExec t s) r = (case r of KErr e \<Rightarrow> True | KUnit \<Rightarrow> False)"
| "rb_fits (KRestore run t s) r = (case r of KErr e \<Rightarrow> True | KUnit \<Rightarrow> False)"
| "rb_fits q r = (r = KUnit)"

lemma rb_answer_fits: "rb_answer sh q r = Some sh' \<Longrightarrow> rb_fits q r"
  by (cases "(sh, q, r)" rule: rb_answer.cases) auto

definition rb_fit :: "(rb_query \<times> rb_reply) list \<Rightarrow> bool" where
  "rb_fit h \<longleftrightarrow> (\<forall>(q, r)\<in>set h. rb_fits q r)"

lemma rb_fit_simps [simp]:
  "rb_fit []" "rb_fit ((q, r) # h) \<longleftrightarrow> rb_fits q r \<and> rb_fit h" "rb_fit (g @ h) \<longleftrightarrow> rb_fit g \<and> rb_fit h"
  by (auto simp: rb_fit_def)

text \<open>The undo of a step has been carried out.\<close>

definition restored :: "rb_manager \<Rightarrow> string \<Rightarrow> plan_step \<Rightarrow> (rb_query \<times> rb_reply) set \<Rightarrow> bool" where
  "restored m t ps H \<longleftrightarrow> (\<exists>spec. ps_rollback ps = Some spec \<and>
    (if rs_strategy spec = ''snapshot'' then (KRestore (m_run_id m) t ps, KErr None) \<in> H
     else \<forall>rb\<in>set (rs_steps spec). (KExec t rb, KErr None) \<in> H))"

lemma restored_mono: "restored m t ps H \<Longrightarrow> H \<subseteq> H' \<Longrightarrow> restored m t ps H'"
  by (force simp: restored_def split: if_splits)

lemma executeRollbackStep_path:
  assumes "follow (executeRollbackStep m t orig rb has_exec) h = Some (Ret sr)" "rb_fit h" "settled_step False sr"
  shows "(KExec t rb, KErr None) \<in> set h"
  using assms
  by (auto simp: executeRollbackStep_def Let_def follow_ret settled_step_def blank_step_def split: if_splits rb_reply.splits)

lemma undo_steps_path:
  assumes "follow (undo_steps m t orig rbs has_exec unknown) h = Some (Ret srs)" "rb_fit h" "\<forall>sr\<in>set srs. settled_step False sr"
  shows "\<forall>rb\<in>set rbs. (KExec t rb, KErr None) \<in> set h"
  using assms
proof (induction rbs arbitrary: h srs)
  case (Cons rb rbs)
  from Cons.prems(1) obtain g g' sr srs' where h: "h = g @ g'" "srs = sr\<lparr>rr_unknown := unknown\<rparr> # srs'"
    "follow (executeRollbackStep m t orig rb has_exec) g = Some (Ret sr)"
    "follow (undo_steps m t orig rbs has_exec unknown) g' = Some (Ret srs')"
    by (auto simp: follow_bind follow_ret)
  have "settled_step False sr" using Cons.prems(3) h(2) by (simp add: settled_step_def)
  then have "(KExec t rb, KErr None) \<in> set g" using executeRollbackStep_path [OF h(3)] Cons.prems(2) h(1) by simp
  moreover have "\<forall>rb\<in>set rbs. (KExec t rb, KErr None) \<in> set g'" using Cons.IH [OF h(4)] Cons.prems(2,3) h(1,2) by simp
  ultimately show ?case using h(1) by auto
qed simp

lemma rollback_step_path:
  assumes path: "follow (rollback_step m t ps has_exec (Some l)) h = Some (Ret srs)" and fit: "rb_fit h"
    and ok: "\<forall>sr\<in>set srs. settled_step False sr"
    and ran: "Ran l t (ps_name ps)" "\<not> AlreadyCompensated l t (ps_name ps)"
  shows "restored m t ps (set h)"
proof (cases "CompensationUncertain l t (ps_name ps) \<and> \<not> compensationRepeatable ps")
  case True
  then show ?thesis using path ran ok
    by (auto simp: rollback_step_def Let_def follow_ret settled_step_def skipped_step_def blank_step_def)
next
  case False
  show ?thesis
  proof (cases "ps_rollback ps")
    case None
    then show ?thesis using path ran ok False
      by (auto simp: rollback_step_def Let_def follow_ret settled_step_def skipped_step_def blank_step_def)
  next
    case (Some spec)
    show ?thesis
    proof (cases "rs_strategy spec = ''snapshot''")
      case True
      then have "(KRestore (m_run_id m) t ps, KErr None) \<in> set h" using path ran ok False Some fit
        by (auto simp: rollback_step_def restoreSnapshotStep_def Let_def follow_bind follow_ret settled_step_def blank_step_def
            split: if_splits rb_reply.splits)
      then show ?thesis using Some True by (simp add: restored_def)
    next
      case strategy: False
      then have "follow (undo_steps m t (ps_name ps) (rs_steps spec) has_exec (SideEffectsUnknown l t (ps_name ps))) h = Some (Ret srs)"
        using path ran False Some by (auto simp: rollback_step_def Let_def split: if_splits)
      from undo_steps_path [OF this fit ok] show ?thesis using Some strategy by (simp add: restored_def)
    qed
  qed
qed

lemma rollback_all_path:
  assumes "follow (rollback_all m t steps has_exec (Some l)) h = Some (Ret srs)" "rb_fit h"
    "\<forall>sr\<in>set srs. settled_step False sr" "ps \<in> set steps" "Ran l t (ps_name ps)" "\<not> AlreadyCompensated l t (ps_name ps)"
  shows "restored m t ps (set h)"
  using assms
proof (induction steps arbitrary: h srs)
  case (Cons p steps)
  from Cons.prems(1) obtain g g' ss rest where h: "h = g @ g'" "srs = ss @ rest"
    "follow (rollback_step m t p has_exec (Some l)) g = Some (Ret ss)"
    "follow (rollback_all m t steps has_exec (Some l)) g' = Some (Ret rest)"
    by (auto simp: follow_bind follow_ret)
  show ?case
  proof (cases "ps = p")
    case True
    then have "restored m t ps (set g)" using rollback_step_path [OF h(3)] Cons.prems h(1,2) by simp
    then show ?thesis using h(1) restored_mono by (metis Un_upper1 set_append)
  next
    case False
    then have "restored m t ps (set g')" using Cons.IH [OF h(4)] Cons.prems h(1,2) by simp
    then show ?thesis using h(1) restored_mono by (metis Un_upper2 set_append)
  qed
qed simp

text \<open>In a run of a batch every target has its own path, and its result is among the results.\<close>

lemma serial_targets_path:
  assumes "follow (serial_targets f ts) h = Some (Ret trs)" "t \<in> set ts"
  shows "\<exists>g tr. follow (f t) g = Some (Ret tr) \<and> set g \<subseteq> set h \<and> tr \<in> set trs"
  using assms
proof (induction ts arbitrary: h trs)
  case (Cons u ts)
  from Cons.prems(1) obtain g g' tr rest where h: "h = g @ g'" "trs = tr # rest" "follow (f u) g = Some (Ret tr)"
    "follow (serial_targets f ts) g' = Some (Ret rest)" by (auto simp: follow_bind follow_ret)
  show ?case
  proof (cases "t = u")
    case True
    then show ?thesis using h by auto
  next
    case False
    then show ?thesis using Cons.IH [OF h(4)] Cons.prems(2) h(1,2) by fastforce
  qed
qed simp

lemma rollback_thread_path:
  assumes t: "t \<in> set (pb_targets b)"
  shows "\<exists>i < length (rollback_threads m b has_exec ledger). \<forall>h trs.
    follow (rollback_threads m b has_exec ledger ! i) h = Some (Ret trs) \<longrightarrow>
    (\<exists>g tr. follow (rollbackTarget m (pb_steps b) has_exec ledger t) g = Some (Ret tr) \<and> set g \<subseteq> set h \<and> tr \<in> set trs)"
proof (cases "m_concurrency m \<le> 1")
  case True
  then show ?thesis using serial_targets_path [OF _ t] by (auto simp: rollback_threads_def Let_def)
next
  case False
  obtain i where i: "i < length (pb_targets b)" "pb_targets b ! i = t" using t by (auto simp: in_set_conv_nth)
  have "\<exists>g tr. follow (rollbackTarget m (pb_steps b) has_exec ledger t) g = Some (Ret tr) \<and> set g \<subseteq> set h \<and> tr \<in> set trs"
    if "follow (rollback_threads m b has_exec ledger ! i) h = Some (Ret trs)" for h trs
    using that False i by (fastforce simp: rollback_threads_def rollback_goroutine_def Let_def follow_bind follow_ret)
  then show ?thesis using i False by (intro exI [of _ i]) (auto simp: rollback_threads_def Let_def)
qed

lemma rollbackBatch_restores:
  assumes run: "rollbackBatch m b has_exec (Some l) acts = Some (br, h)"
    and ok: "\<forall>sr\<in>set (steps_of_batch br). settled_step False sr"
    and t: "t \<in> set (pb_targets b)" and ps: "ps \<in> set (pb_steps b)" "Ran l t (ps_name ps)" "\<not> AlreadyCompensated l t (ps_name ps)"
  shows "restored m t ps (snd ` set h)"
proof -
  let ?ts = "rollback_threads m b has_exec (Some l)"
  from t have "pb_targets b \<noteq> []" by auto
  with run obtain sh ts trss where il: "interleave rb_answer \<lparr>ks_cap = m_concurrency m, ks_held = 0\<rparr> ?ts acts = Some (sh, ts, h)"
    and trss: "those (map returned ts) = Some trss" and br: "rb_targets br = concat trss"
    by (auto simp: rollbackBatch_def run_rollback_def split: option.splits)
  obtain i where i: "i < length ?ts" and path: "\<And>h trs. follow (?ts ! i) h = Some (Ret trs) \<Longrightarrow>
    \<exists>g tr. follow (rollbackTarget m (pb_steps b) has_exec (Some l) t) g = Some (Ret tr) \<and> set g \<subseteq> set h \<and> tr \<in> set trs"
    using rollback_thread_path [OF t] by blast
  have len: "length ts = length ?ts" "length trss = length ts"
    using interleave_length [OF il] trss [unfolded those_Some] by (simp, metis length_map)
  have "returned (ts ! i) = Some (trss ! i)" using trss [unfolded those_Some] i len by (metis nth_map)
  then have "ts ! i = Ret (trss ! i)" by (cases "ts ! i") auto
  then obtain g tr where g: "follow (rollbackTarget m (pb_steps b) has_exec (Some l) t) g = Some (Ret tr)"
    "set g \<subseteq> set (part_of i h)" "tr \<in> set (trss ! i)"
    using path [of "part_of i h" "trss ! i"] interleave_part [OF il i] by auto
  have fit: "rb_fit g"
    using g(2) interleave_history [of rb_answer rb_fits, OF _ il] rb_answer_fits by (fastforce simp: rb_fit_def set_part_of)
  have "tr \<in> set (rb_targets br)" using g(3) i len br by (metis UN_I nth_mem set_concat)
  then have settled: "\<forall>sr\<in>set (rt_steps tr). settled_step False sr" using ok by (auto simp: steps_of_batch_def)
  have "follow (rollback_all m t (rev (pb_steps b)) has_exec (Some l)) g = Some (Ret (rt_steps tr))"
    using g(1) by (auto simp: rollbackTarget_def follow_bind follow_ret)
  from rollback_all_path [OF this fit settled _ ps(2,3)] ps(1) have "restored m t ps (set g)" by simp
  moreover have "set g \<subseteq> snd ` set h" using g(2) by (force simp: part_of_def)
  ultimately show ?thesis by (rule restored_mono)
qed

lemma success_restores:
  assumes run: "RollbackWithLedger m (Some p) has_exec (Some l) scs = Some (res, hs)" and ok: "ro_success res"
    and b: "b \<in> set (pl_batches p)" and t: "t \<in> set (pb_targets b)"
    and ps: "ps \<in> set (pb_steps b)" "Ran l t (ps_name ps)" "\<not> AlreadyCompensated l t (ps_name ps)"
  shows "restored m t ps (snd ` (\<Union>h\<in>set hs. set h))"
proof -
  from run obtain brs ta where rb: "rollback_batches m has_exec (Some l) (rev (pl_batches p)) scs no_tally = Some (brs, ta, hs)"
    and res: "ro_success res \<longleftrightarrow> ta_error ta = None \<and> ta_required ta = ta_completed ta"
    by (auto simp: RollbackWithLedger_def Let_def split: option.splits)
  have all: "length hs = length (rev (pl_batches p))" "\<forall>k < length (rev (pl_batches p)).
      (\<exists>acts. rollbackBatch m (rev (pl_batches p) ! k) has_exec (Some l) acts = Some (brs ! k, hs ! k)) \<and>
      (\<forall>sr\<in>set (steps_of_batch (brs ! k)). settled_step False sr)"
    using rollback_batches_verdict [OF rb] ok res by (auto simp: no_tally_def)
  obtain k where k: "k < length (rev (pl_batches p))" "rev (pl_batches p) ! k = b"
    using b by (metis in_set_conv_nth set_rev)
  then obtain acts where "rollbackBatch m b has_exec (Some l) acts = Some (brs ! k, hs ! k)"
    "\<forall>sr\<in>set (steps_of_batch (brs ! k)). settled_step False sr" using all(2) by blast
  from rollbackBatch_restores [OF this t ps] have "restored m t ps (snd ` set (hs ! k))" .
  moreover have "hs ! k \<in> set hs" using k(1) all(1) by simp
  ultimately show ?thesis by (auto elim!: restored_mono)
qed

section \<open>The evidence\<close>

definition evidence :: "BatchResult option list \<Rightarrow> string \<Rightarrow> StepResult \<Rightarrow> bool" where
  "evidence brs t sr \<longleftrightarrow> (\<exists>br tr. Some br \<in> set brs \<and> tr \<in> set (br_targets br) \<and> tr_target tr = t \<and> sr \<in> set (tr_steps tr))"

definition ledger_pairs :: "BatchResult option list \<Rightarrow> (string \<times> StepResult) list" where
  "ledger_pairs brs = concat (map (\<lambda>br. case br of None \<Rightarrow> []
     | Some br \<Rightarrow> concat (map (\<lambda>tr. map (Pair (tr_target tr)) (tr_steps tr)) (br_targets br))) brs)"

lemma ledger_pairs_iff: "(t, sr) \<in> set (ledger_pairs brs) \<longleftrightarrow> evidence brs t sr"
  by (force simp: ledger_pairs_def evidence_def split: option.splits)

lemma target_pairs:
  "fold (\<lambda>tr. fold (mark_step (tr_target tr)) (tr_steps tr)) trs l =
   fold (\<lambda>(t, sr). mark_step t sr) (concat (map (\<lambda>tr. map (Pair (tr_target tr)) (tr_steps tr)) trs)) l"
  by (induction trs arbitrary: l) (simp_all add: fold_map comp_def)

lemma ledger_as_fold: "LedgerFromBatchResults brs = fold (\<lambda>(t, sr). mark_step t sr) (ledger_pairs brs) NewExecutionLedger"
proof -
  have "fold (\<lambda>br l. case br of None \<Rightarrow> l
     | Some br \<Rightarrow> fold (\<lambda>tr l. fold (mark_step (tr_target tr)) (tr_steps tr) l) (br_targets br) l) brs l =
    fold (\<lambda>(t, sr). mark_step t sr) (ledger_pairs brs) l" for l
    by (induction brs arbitrary: l) (auto simp: ledger_pairs_def target_pairs split: option.splits)
  then show ?thesis by (simp add: LedgerFromBatchResults_def)
qed

definition named_pairs :: "(StepResult \<Rightarrow> bool) \<Rightarrow> (string \<times> StepResult) list \<Rightarrow> (string \<times> string) list" where
  "named_pairs P prs = map (\<lambda>(t, sr). (t, sr_step sr)) (filter (\<lambda>(t, sr). t \<noteq> '''' \<and> sr_step sr \<noteq> '''' \<and> P sr) prs)"

lemma named_pairs_iff: "(t, s) \<in> set (named_pairs P prs) \<longleftrightarrow> t \<noteq> '''' \<and> s \<noteq> '''' \<and> (\<exists>sr. (t, sr) \<in> set prs \<and> sr_step sr = s \<and> P sr)"
  by (force simp: named_pairs_def)

definition marked :: "(string \<times> StepResult) list \<Rightarrow> ExecutionLedger \<Rightarrow> ExecutionLedger \<Rightarrow> bool" where
  "marked prs l l' \<longleftrightarrow>
    set (lg_ran l') = set (lg_ran l) \<union> set (named_pairs (\<lambda>sr. True) prs) \<and>
    set (lg_unknown l') = set (lg_unknown l) \<union> set (named_pairs (\<lambda>sr. sr_error sr \<noteq> None) prs) \<and>
    set (lg_compensated l') \<subseteq> set (lg_compensated l) \<and> lg_uncertain l' = lg_uncertain l"

lemma mark_step_marked: "marked [(t, sr)] l (mark_step t sr l)"
  by (auto simp: marked_def named_pairs_def mark_step_def MarkRan_def MarkUnknown_def Let_def)

lemma marked_trans: "marked ps l l1 \<Longrightarrow> marked qs l1 l2 \<Longrightarrow> marked (ps @ qs) l l2"
  by (auto simp: marked_def named_pairs_def)

lemma fold_marked: "marked prs l (fold (\<lambda>(t, sr). mark_step t sr) prs l)"
proof (induction prs arbitrary: l)
  case (Cons p prs)
  obtain t sr where "p = (t, sr)" by force
  then show ?case using marked_trans [OF mark_step_marked Cons.IH, of t sr l] by simp
qed (simp add: marked_def named_pairs_def)

lemma ledger_reads:
  "Ran (LedgerFromBatchResults brs) t s \<longleftrightarrow> t \<noteq> '''' \<and> s \<noteq> '''' \<and> (\<exists>sr. evidence brs t sr \<and> sr_step sr = s)"
  "SideEffectsUnknown (LedgerFromBatchResults brs) t s \<longleftrightarrow>
    t \<noteq> '''' \<and> s \<noteq> '''' \<and> (\<exists>sr. evidence brs t sr \<and> sr_step sr = s \<and> sr_error sr \<noteq> None)"
  "\<not> AlreadyCompensated (LedgerFromBatchResults brs) t s" "\<not> CompensationUncertain (LedgerFromBatchResults brs) t s"
  using fold_marked [of "ledger_pairs brs" NewExecutionLedger]
  by (auto simp: named_pairs_iff ledger_as_fold Ran_def SideEffectsUnknown_def AlreadyCompensated_def CompensationUncertain_def marked_def
      NewExecutionLedger_def ledger_pairs_iff)

text \<open>The results of the forward run are evidence of calls, and of every call when no callback panicked.\<close>

lemma evidence_called:
  assumes out: "plan_outcome c bs brs hs" and ev: "evidence (map Some brs) t sr"
  shows "\<exists>k < length hs. \<exists>i s r. (i, QExec (bs ! k) t s, r) \<in> set (hs ! k) \<and> s \<in> set (pb_steps (bs ! k)) \<and> ps_name s = sr_step sr"
proof -
  from ev obtain k i where k: "k < length brs" "i < length (br_targets (brs ! k))"
    "tr_target (br_targets (brs ! k) ! i) = t" "sr \<in> set (tr_steps (br_targets (brs ! k) ! i))"
    unfolding evidence_def by (auto simp: in_set_conv_nth) (metis in_set_conv_nth)
  have hk: "k < length hs"
  proof (rule ccontr)
    assume "\<not> k < length hs"
    then have "br_targets (brs ! k) = []" using out k(1) by (auto simp: plan_outcome_def)
    then show False using k(2) by simp
  qed
  then obtain acts parent' where br: "executeBatch c (bs ! k) None acts = Some (brs ! k, parent', hs ! k)"
    using out by (auto simp: plan_outcome_def)
  note ob = executeBatch_outcome [OF br]
  have i: "i < length (pb_targets (bs ! k))" using ob k(2) by simp
  then have outcome: "target_outcome c (bs ! k) (pb_targets (bs ! k) ! i) (part_of i (hs ! k)) (br_targets (brs ! k) ! i)"
    using ob by blast
  then have t: "t = pb_targets (bs ! k) ! i" using k(3) by (simp add: target_outcome_def)
  have "complete_evidence (steps_called (part_of i (hs ! k))) (br_targets (brs ! k) ! i)"
    using outcome k(4) by (auto simp: target_outcome_def lost_evidence_def failed_result_def)
  then obtain s r where s: "(s, r) \<in> set (steps_called (part_of i (hs ! k)))" "sr = step_result (s, r)"
    using k(4) by (auto simp: complete_evidence_def)
  then obtain b' t' where "(QExec b' t' s, r) \<in> set (part_of i (hs ! k))" by (auto simp: steps_called_iff)
  then have "(i, QExec (bs ! k) t s, r) \<in> set (hs ! k)"
    using outcome t by (auto simp: target_outcome_def own_calls_def set_part_of)
  moreover have "s \<in> set (pb_steps (bs ! k))"
  proof -
    have "map fst (steps_called (part_of i (hs ! k))) = take (length (steps_called (part_of i (hs ! k)))) (pb_steps (bs ! k))"
      using outcome by (simp add: target_outcome_def calls_in_order_def)
    then have "s \<in> set (take (length (steps_called (part_of i (hs ! k)))) (pb_steps (bs ! k)))"
      using s(1) by (metis fst_conv image_eqI list.set_map)
    then show ?thesis by (rule in_set_takeD)
  qed
  ultimately show ?thesis using hk s(2) by (auto simp: step_result_def)
qed

lemma called_evidence:
  assumes out: "plan_outcome c bs brs hs" and k: "k < length hs"
    and call: "(i, QExec b t s, r) \<in> set (hs ! k)" and calm: "\<forall>j q m. (j, q, RPanic m) \<notin> set (hs ! k)"
  shows "b = bs ! k \<and> t \<in> set (pb_targets b) \<and> s \<in> set (pb_steps b) \<and> (\<exists>sr. evidence (map Some brs) t sr \<and> sr_step sr = ps_name s)"
proof -
  obtain acts parent' where br: "executeBatch c (bs ! k) None acts = Some (brs ! k, parent', hs ! k)"
    using out k by (auto simp: plan_outcome_def)
  note ob = executeBatch_outcome [OF br]
  have i: "i < length (pb_targets (bs ! k))" using ob call by blast
  then have outcome: "target_outcome c (bs ! k) (pb_targets (bs ! k) ! i) (part_of i (hs ! k)) (br_targets (brs ! k) ! i)"
    using ob by blast
  let ?cs = "steps_called (part_of i (hs ! k))"
  have s: "(s, r) \<in> set ?cs" using call by (auto simp: steps_called_iff set_part_of)
  have own: "b = bs ! k" "t = pb_targets (bs ! k) ! i" "tr_target (br_targets (brs ! k) ! i) = t"
    using outcome call by (auto simp: target_outcome_def own_calls_def set_part_of)
  have "\<not> lost_evidence (pb_targets (bs ! k) ! i) ?cs (br_targets (brs ! k) ! i)"
  proof
    assume "lost_evidence (pb_targets (bs ! k) ! i) ?cs (br_targets (brs ! k) ! i)"
    then obtain m where "?cs \<noteq> []" "snd (last ?cs) = RPanic m" by (auto simp: lost_evidence_def)
    then have "(fst (last ?cs), RPanic m) \<in> set ?cs" by (metis last_in_set prod.collapse)
    then show False using calm by (auto simp: steps_called_iff set_part_of)
  qed
  then have "complete_evidence ?cs (br_targets (brs ! k) ! i)" using outcome by (simp add: target_outcome_def)
  then have "step_result (s, r) \<in> set (tr_steps (br_targets (brs ! k) ! i))" using s by (auto simp: complete_evidence_def)
  moreover have "Some (brs ! k) \<in> set (map Some brs)" "br_targets (brs ! k) ! i \<in> set (br_targets (brs ! k))"
    using out k i ob by (auto simp: plan_outcome_def)
  ultimately have ev: "evidence (map Some brs) t (step_result (s, r))" using own(3) by (auto simp: evidence_def)
  have "s \<in> set (pb_steps (bs ! k))"
    using outcome s by (metis (no_types, lifting) calls_in_order_def fst_conv image_eqI in_set_takeD list.set_map target_outcome_def)
  then show ?thesis using own i ev by (auto simp: step_result_def)
qed

section \<open>A run and its rollback\<close>

text \<open>What a rollback does to a target was done to that target by the run.\<close>

lemma rollback_follows_run:
  assumes out: "plan_outcome c bs brs hs"
    and undo: "RollbackWithLedger m (Some p) has_exec (Some (LedgerFromBatchResults (map Some brs))) rscs = Some (res, rhs)"
    and call: "rh \<in> set rhs" "(j, q, reply) \<in> set rh" "q \<noteq> KSlot" "q \<noteq> KSlotRelease"
  shows "\<exists>t ps. undo_of m has_exec t ps q \<and> (\<exists>b\<in>set (pl_batches p). ps \<in> set (pb_steps b)) \<and>
    (\<exists>k < length hs. \<exists>i s r. (i, QExec (bs ! k) t s, r) \<in> set (hs ! k) \<and> ps_name s = ps_name ps)"
proof -
  let ?l = "LedgerFromBatchResults (map Some brs)"
  from undo obtain rbrs ta where "rollback_batches m has_exec (Some ?l) (rev (pl_batches p)) rscs no_tally = Some (rbrs, ta, rhs)"
    by (auto simp: RollbackWithLedger_def Let_def split: option.splits)
  from rollback_batches_asks [OF this call(1,2)] call(3,4) obtain b t ps where b: "b \<in> set (pl_batches p)" "ps \<in> set (pb_steps b)"
    "undo_permitted (Some ?l) t ps" "undo_of m has_exec t ps q"
    by (auto simp: rollback_asks_def)
  then obtain sr where "evidence (map Some brs) t sr" "sr_step sr = ps_name ps"
    by (auto simp: undo_permitted_def ledger_reads)
  then show ?thesis using evidence_called [OF out] b by metis
qed

text \<open>A rollback that reports success has undone every step the run executed, when no callback panicked.\<close>

lemma rollback_undoes_run:
  assumes out: "plan_outcome c bs brs hs"
    and undo: "RollbackWithLedger m (Some p) has_exec (Some (LedgerFromBatchResults (map Some brs))) rscs = Some (res, rhs)"
    and ok: "ro_success res" and p: "take (length hs) bs = take (length hs) (pl_batches p)" "length hs \<le> length (pl_batches p)"
    and k: "k < length hs" and call: "(i, QExec b t s, r) \<in> set (hs ! k)"
    and calm: "\<forall>j q m. (j, q, RPanic m) \<notin> set (hs ! k)" and names: "t \<noteq> ''''" "ps_name s \<noteq> ''''"
  shows "restored m t s (snd ` (\<Union>h\<in>set rhs. set h))"
proof -
  note called = called_evidence [OF out k call calm]
  have "bs ! k = pl_batches p ! k" using p(1) k by (metis nth_take)
  then have b: "b \<in> set (pl_batches p)" using called k p(2) by auto
  have "Ran (LedgerFromBatchResults (map Some brs)) t (ps_name s)" using called names by (auto simp: ledger_reads)
  from success_restores [OF undo ok b _ _ this ledger_reads(3)] called show ?thesis by blast
qed

section \<open>A rollback returns\<close>

fun rb_gain :: "rb_query \<Rightarrow> rb_reply \<Rightarrow> int" where
  "rb_gain KSlot r = 1"
| "rb_gain KSlotRelease r = - 1"
| "rb_gain q r = 0"

definition idle :: "rb_query \<Rightarrow> bool" where "idle q = False"

lemma rb_answered:
  "(\<exists>r sh'. rb_answer sh q r = Some sh' \<and> True) \<or>
   ks_cap sh \<le> ks_held sh \<and> (\<exists>r. rb_fits q r \<and> rb_gain q r = 1) \<or>
   ks_held sh \<le> 0 \<and> (\<exists>r. rb_fits q r \<and> rb_gain q r = - 1)"
proof (cases q)
  case KSlot
  then show ?thesis by (auto intro: exI [of _ KUnit])
next
  case KSlotRelease
  then show ?thesis by (auto intro: exI [of _ KUnit])
qed (auto intro!: exI [of _ "KErr None"])

interpretation rb_pool: slot_pool rb_answer rb_fits rb_gain idle ks_held ks_cap "\<lambda>_ _. True"
proof
  fix sh q r sh'
  assume ans: "rb_answer sh q r = Some sh'"
  show "rb_fits q r" using ans by (rule rb_answer_fits)
  show "ks_held sh' = ks_held sh + rb_gain q r" "ks_cap sh' = ks_cap sh"
    using ans by (cases "(sh, q, r)" rule: rb_answer.cases; auto split: if_splits)+
  show "ks_held sh \<le> ks_cap sh \<Longrightarrow> ks_held sh' \<le> ks_cap sh'"
    using ans by (cases "(sh, q, r)" rule: rb_answer.cases; auto split: if_splits)
next
  fix sh q
  show "(\<exists>r sh'. rb_answer sh q r = Some sh' \<and> True) \<or>
   ks_cap sh \<le> ks_held sh \<and> (\<exists>r. rb_fits q r \<and> rb_gain q r = 1) \<or>
   ks_held sh \<le> 0 \<and> (\<exists>r. rb_fits q r \<and> rb_gain q r = - 1)" by (rule rb_answered)
qed simp_all

text \<open>No question of \<^verbatim>\<open>rollbackTarget\<close> is about the semaphore, and there are no more of them than undo steps.\<close>

definition undo_size :: "plan_step \<Rightarrow> nat" where
  "undo_size ps = (case ps_rollback ps of None \<Rightarrow> 0 | Some spec \<Rightarrow> Suc (length (rs_steps spec)))"

lemma asks_owes: "asks_only (\<lambda>q. \<forall>r. rb_gain q r = 0) p \<Longrightarrow> n = 0 \<or> n = 1 \<Longrightarrow> owes rb_fits rb_gain idle n p n"
  by (induction p) (auto simp: idle_def)

lemma rollbackTarget_owes: "n = 0 \<or> n = 1 \<Longrightarrow> owes rb_fits rb_gain idle n (rollbackTarget m steps has_exec ledger t) n"
proof (intro asks_owes)
  have "asks_only (\<lambda>q. \<forall>r. rb_gain q r = 0) (rollback_step m t ps has_exec ledger)" for ps
  proof (rule asks_only_mono [OF rollback_step_asks])
    fix q assume "undo_permitted ledger t ps \<and> undo_of m has_exec t ps q"
    then show "\<forall>r. rb_gain q r = 0" by (cases q) auto
  qed
  then show "asks_only (\<lambda>q. \<forall>r. rb_gain q r = 0) (rollbackTarget m steps has_exec ledger t)"
    unfolding rollbackTarget_def by (intro asks_only_bind rollback_all_asks) auto
qed

lemma undo_steps_within: "within rb_fits (undo_steps m t orig rbs has_exec unknown) (length rbs)"
proof (induction rbs)
  case (Cons rb rbs)
  have "within rb_fits (executeRollbackStep m t orig rb has_exec) 1"
    by (auto simp: executeRollbackStep_def Let_def)
  then have "within rb_fits (undo_steps m t orig (rb # rbs) has_exec unknown) (1 + (length rbs + 0))"
    unfolding undo_steps.simps by (intro within_bind Cons.IH) auto
  then show ?case by simp
qed simp

lemma rollback_step_within: "within rb_fits (rollback_step m t ps has_exec ledger) (undo_size ps)"
proof -
  have "within rb_fits (bind_prog (restoreSnapshotStep m t ps) (\<lambda>sr. Ret [f sr])) (1 + 0)" for f :: "StepRollbackResult \<Rightarrow> StepRollbackResult"
    by (intro within_bind) (auto simp: restoreSnapshotStep_def Let_def)
  then have "within rb_fits (bind_prog (restoreSnapshotStep m t ps) (\<lambda>sr. Ret [f sr])) (Suc n)" for f :: "StepRollbackResult \<Rightarrow> StepRollbackResult" and n
    by (rule within_mono) simp
  then show ?thesis
    by (auto simp: rollback_step_def Let_def undo_size_def intro!: within_mono [OF undo_steps_within] split: option.splits)
qed

lemma rollback_all_within: "within rb_fits (rollback_all m t steps has_exec ledger) (sum_list (map undo_size steps))"
proof (induction steps)
  case (Cons ps steps)
  have "within rb_fits (rollback_all m t (ps # steps) has_exec ledger) (undo_size ps + (sum_list (map undo_size steps) + 0))"
    unfolding rollback_all.simps by (intro within_bind rollback_step_within Cons.IH) auto
  then show ?case by simp
qed simp

definition undo_bound :: "plan_step list \<Rightarrow> nat" where "undo_bound steps = sum_list (map undo_size steps)"

lemma rollbackTarget_within: "within rb_fits (rollbackTarget m steps has_exec ledger t) (undo_bound steps)"
proof -
  have "within rb_fits (rollbackTarget m steps has_exec ledger t) (sum_list (map undo_size (rev steps)) + 0)"
    unfolding rollbackTarget_def by (intro within_bind rollback_all_within) auto
  then show ?thesis by (simp add: undo_bound_def rev_map [symmetric])
qed

lemma serial_targets_owes: "(\<And>t. owes rb_fits rb_gain idle 0 (f t) 0) \<Longrightarrow> owes rb_fits rb_gain idle 0 (serial_targets f ts) 0"
  by (induction ts) (auto intro!: owes_bind)

lemma serial_targets_within: "(\<And>t. within rb_fits (f t) n) \<Longrightarrow> within rb_fits (serial_targets f ts) (length ts * n)"
proof (induction ts)
  case (Cons t ts)
  have "within rb_fits (serial_targets f (t # ts)) (n + (length ts * n + 0))"
    unfolding serial_targets.simps by (intro within_bind Cons) auto
  then show ?case by simp
qed simp

definition thread_bounds :: "rb_manager \<Rightarrow> plan_batch \<Rightarrow> nat list" where
  "thread_bounds m b = (if m_concurrency m \<le> 1 then [length (pb_targets b) * undo_bound (pb_steps b)]
     else map (\<lambda>_. undo_bound (pb_steps b) + 2) (pb_targets b))"

lemma thread_bounds_total: "sum_list (thread_bounds m b) \<le> length (pb_targets b) * (undo_bound (pb_steps b) + 2)"
  by (simp add: thread_bounds_def sum_list_triv)

lemma goroutine_bounds:
  "owes rb_fits rb_gain idle 0 (bind_prog (rollback_goroutine (rollbackTarget m steps has_exec ledger) t) (\<lambda>tr. Ret [tr])) 0"
  "within rb_fits (bind_prog (rollback_goroutine (rollbackTarget m steps has_exec ledger) t) (\<lambda>tr. Ret [tr])) (undo_bound steps + 2)"
proof -
  let ?q = "\<lambda>tr. bind_prog (Ask KSlotRelease (\<lambda>_. Ret tr)) (\<lambda>tr :: TargetRollbackResult. Ret [tr])"
  have "owes rb_fits rb_gain idle 0 (rollback_goroutine (rollbackTarget m steps has_exec ledger) t) 0"
    unfolding rollback_goroutine_def by (auto simp: idle_def intro!: owes_bind [OF rollbackTarget_owes])
  then show "owes rb_fits rb_gain idle 0 (bind_prog (rollback_goroutine (rollbackTarget m steps has_exec ledger) t) (\<lambda>tr. Ret [tr])) 0"
    by (rule owes_bind) simp
  have "within rb_fits (bind_prog (rollbackTarget m steps has_exec ledger t) (\<lambda>tr. Ask KSlotRelease (\<lambda>_. Ret tr))) (undo_bound steps + 1)"
    by (intro within_bind rollbackTarget_within) auto
  then have "within rb_fits (rollback_goroutine (rollbackTarget m steps has_exec ledger) t) (undo_bound steps + 2)"
    by (simp add: rollback_goroutine_def)
  then have "within rb_fits (bind_prog (rollback_goroutine (rollbackTarget m steps has_exec ledger) t) (\<lambda>tr. Ret [tr])) (undo_bound steps + 2 + 0)"
    by (rule within_bind) simp
  then show "within rb_fits (bind_prog (rollback_goroutine (rollbackTarget m steps has_exec ledger) t) (\<lambda>tr. Ret [tr])) (undo_bound steps + 2)"
    by simp
qed

lemma threads_bounds: "list_all2 (within rb_fits) (rollback_threads m b has_exec ledger) (thread_bounds m b)"
  by (auto simp: rollback_threads_def thread_bounds_def Let_def list_all2_conv_all_nth
      simp del: add_2_eq_Suc' intro!: goroutine_bounds(2) serial_targets_within rollbackTarget_within)

lemma threads_balanced:
  assumes "0 \<le> cap"
  shows "rb_pool.balanced \<lparr>ks_cap = cap, ks_held = 0\<rparr> (rollback_threads m b has_exec ledger)
    (map (\<lambda>_. 0) (rollback_threads m b has_exec ledger))"
  using assms
  by (auto simp: rb_pool.balanced_def list_all2_conv_all_nth rollback_threads_def Let_def goroutine_bounds
      intro!: serial_targets_owes rollbackTarget_owes)

lemma rollback_completes:
  assumes run: "run_rollback m b has_exec ledger acts = Some (sh, ts, h)" and cap: "0 < m_concurrency m" and some: "pb_targets b \<noteq> []"
  shows "length acts \<le> length (pb_targets b) * (undo_bound (pb_steps b) + 2) \<and>
    (\<exists>acts' br h'. rollbackBatch m b has_exec ledger (acts @ acts') = Some (br, h @ h'))"
proof
  note run' = run [unfolded run_rollback_def]
  show "length acts \<le> length (pb_targets b) * (undo_bound (pb_steps b) + 2)"
    using rb_pool.run_length [OF run' threads_bounds] thread_bounds_total by (rule order_trans)
  obtain ns where bal: "rb_pool.balanced sh ts ns"
    using rb_pool.run_balanced [OF run' threads_balanced] cap by fastforce
  obtain ms where ms: "list_all2 (within rb_fits) ts ms" using rb_pool.run_within [OF run' threads_bounds] by blast
  have "0 < ks_cap sh" using rb_pool.run_cap [OF run'] cap by simp
  from rb_pool.completes [OF bal ms this] obtain acts' sh' ts' h' where
    rest: "interleave rb_answer sh ts acts' = Some (sh', ts', h')" "\<forall>p\<in>set ts'. returned p \<noteq> None" by blast
  have all: "run_rollback m b has_exec ledger (acts @ acts') = Some (sh', ts', h @ h')"
    unfolding run_rollback_def interleave_append using run' rest(1) by simp
  have "map returned ts' = map Some (map (the \<circ> returned) ts')" using rest(2) by auto
  then have "those (map returned ts') = Some (map (the \<circ> returned) ts')" unfolding those_Some .
  then show "\<exists>acts' br h'. rollbackBatch m b has_exec ledger (acts @ acts') = Some (br, h @ h')"
    using all some by (intro exI [of _ acts']) (auto simp: rollbackBatch_def)
qed

lemma rollbackBatch_returns: "0 < m_concurrency m \<Longrightarrow> \<exists>acts br h. rollbackBatch m b has_exec ledger acts = Some (br, h)"
proof (cases "pb_targets b = []")
  case True
  then show ?thesis by (intro exI [of _ "[]"]) (auto simp: rollbackBatch_def)
next
  case False
  assume "0 < m_concurrency m"
  then show ?thesis using rollback_completes [of m b has_exec ledger "[]"] False by (auto simp: run_rollback_def)
qed

lemma rollback_batches_return:
  assumes "0 < m_concurrency m"
  shows "\<exists>scs brs t' hs. rollback_batches m has_exec ledger bs scs t = Some (brs, t', hs)"
proof (induction bs arbitrary: t)
  case Nil
  then show ?case by (auto intro: exI [of _ "[]"])
next
  case (Cons b bs)
  obtain acts br h where br: "rollbackBatch m b has_exec ledger acts = Some (br, h)" using rollbackBatch_returns [OF assms] by blast
  obtain scs brs t' hs where rest: "rollback_batches m has_exec ledger bs scs (tally_batch (ledger = None) br t) = Some (brs, t', hs)"
    using Cons.IH by blast
  show ?case
  proof (cases "ta_error (tally_batch (ledger = None) br t) \<noteq> None \<and> m_stop_on_error m")
    case True
    then have "rollback_batches m has_exec ledger (b # bs) [acts] t = Some ([br], tally_batch (ledger = None) br t, [h])"
      using br by (simp add: Let_def)
    then show ?thesis by blast
  next
    case False
    then have "rollback_batches m has_exec ledger (b # bs) (acts # scs) t = Some (br # brs, t', h # hs)"
      using br rest by (auto simp: Let_def)
    then show ?thesis by blast
  qed
qed

section \<open>The order of a rollback\<close>

text \<open>What undoing a step can ask for, in order; the undo of a plan by a manager without concurrency.\<close>

definition undo_queries :: "rb_manager \<Rightarrow> string \<Rightarrow> plan_step \<Rightarrow> rb_query list" where
  "undo_queries m t ps = (case ps_rollback ps of
      None \<Rightarrow> []
    | Some spec \<Rightarrow> if rs_strategy spec = ''snapshot'' then [KRestore (m_run_id m) t ps] else map (KExec t) (rs_steps spec))"

definition reverse_order :: "rb_manager \<Rightarrow> plan_batch list \<Rightarrow> rb_query list" where
  "reverse_order m bs = concat (map (\<lambda>b. concat (map (\<lambda>t. concat (map (undo_queries m t) (rev (pb_steps b)))) (pb_targets b))) (rev bs))"

lemma undo_steps_order:
  "follow (undo_steps m t orig rbs has_exec unknown) h = Some (Ret srs) \<Longrightarrow> subseq (map fst h) (map (KExec t) rbs)"
proof (induction rbs arbitrary: h srs)
  case (Cons rb rbs)
  from Cons.prems obtain g g' sr srs' where h: "h = g @ g'"
    "follow (executeRollbackStep m t orig rb has_exec) g = Some (Ret sr)"
    "follow (undo_steps m t orig rbs has_exec unknown) g' = Some (Ret srs')"
    by (auto simp: follow_bind follow_ret)
  have "subseq (map fst g) [KExec t rb]" using h(2) by (auto simp: executeRollbackStep_def Let_def follow_ret split: if_splits)
  then have "subseq (map fst g @ map fst g') ([KExec t rb] @ map (KExec t) rbs)"
    using Cons.IH [OF h(3)] by (rule list_emb_append_mono)
  then show ?case using h(1) by simp
qed (simp add: follow_ret)

lemma rollback_step_order:
  assumes "follow (rollback_step m t ps has_exec ledger) h = Some (Ret srs)"
  shows "subseq (map fst h) (undo_queries m t ps)"
  using assms undo_steps_order
  by (fastforce simp: rollback_step_def restoreSnapshotStep_def undo_queries_def Let_def follow_bind follow_ret
      split: if_splits option.splits)

lemma rollback_all_order:
  "follow (rollback_all m t steps has_exec ledger) h = Some (Ret srs) \<Longrightarrow>
   subseq (map fst h) (concat (map (undo_queries m t) steps))"
proof (induction steps arbitrary: h srs)
  case (Cons ps steps)
  from Cons.prems obtain g g' ss rest where h: "h = g @ g'" "follow (rollback_step m t ps has_exec ledger) g = Some (Ret ss)"
    "follow (rollback_all m t steps has_exec ledger) g' = Some (Ret rest)"
    by (auto simp: follow_bind follow_ret)
  from list_emb_append_mono [OF rollback_step_order [OF h(2)] Cons.IH [OF h(3)]] show ?case using h(1) by simp
qed (simp add: follow_ret)

lemma serial_targets_order:
  assumes one: "\<And>t h tr. follow (f t) h = Some (Ret tr) \<Longrightarrow> subseq (map fst h) (q t)"
  shows "follow (serial_targets f ts) h = Some (Ret trs) \<Longrightarrow> subseq (map fst h) (concat (map q ts))"
proof (induction ts arbitrary: h trs)
  case (Cons t ts)
  from Cons.prems obtain g g' tr rest where h: "h = g @ g'" "follow (f t) g = Some (Ret tr)"
    "follow (serial_targets f ts) g' = Some (Ret rest)" by (auto simp: follow_bind follow_ret)
  from list_emb_append_mono [OF one [OF h(2)] Cons.IH [OF h(3)]] show ?case using h(1) by simp
qed (simp add: follow_ret)

lemma interleave_one:
  assumes "interleave answer sh [p] acts = Some (sh', ts', h)"
  shows "map snd h = part_of 0 h"
  using interleave_indices [OF assms] by (auto simp: part_of_def intro!: arg_cong [of _ _ "map snd"] filter_True [symmetric])

lemma rollbackBatch_order:
  assumes run: "rollbackBatch m b has_exec ledger acts = Some (br, h)" and serial: "m_concurrency m \<le> 1"
  shows "subseq (map (fst \<circ> snd) h) (concat (map (\<lambda>t. concat (map (undo_queries m t) (rev (pb_steps b)))) (pb_targets b)))"
proof (cases "pb_targets b = []")
  case True
  then show ?thesis using run by (auto simp: rollbackBatch_def split: if_splits)
next
  case False
  let ?f = "rollbackTarget m (pb_steps b) has_exec ledger"
  from run False serial obtain sh ts trss where il: "interleave rb_answer \<lparr>ks_cap = m_concurrency m, ks_held = 0\<rparr>
      [serial_targets ?f (pb_targets b)] acts = Some (sh, ts, h)" and trss: "those (map returned ts) = Some trss"
    by (auto simp: rollbackBatch_def run_rollback_def rollback_threads_def Let_def split: option.splits)
  obtain p where ts: "ts = [p]" using interleave_length [OF il] by (cases ts) auto
  then obtain trs where "p = Ret trs" using trss by (cases p) auto
  then have path: "follow (serial_targets ?f (pb_targets b)) (map snd h) = Some (Ret trs)"
    using interleave_part [OF il, of 0] interleave_one [OF il] ts by simp
  have "subseq (map fst g) (concat (map (undo_queries m t) (rev (pb_steps b))))"
    if "follow (?f t) g = Some (Ret tr)" for t g tr
    using that rollback_all_order by (fastforce simp: rollbackTarget_def follow_bind follow_ret)
  from serial_targets_order [of ?f, OF this path] show ?thesis by (simp add: comp_def)
qed

lemma rollback_batches_order:
  assumes "rollback_batches m has_exec ledger bs scs t = Some (brs, t', hs)" and "m_concurrency m \<le> 1"
  shows "subseq (map (fst \<circ> snd) (concat hs))
    (concat (map (\<lambda>b. concat (map (\<lambda>t. concat (map (undo_queries m t) (rev (pb_steps b)))) (pb_targets b))) bs))"
  using assms(1)
proof (induction bs arbitrary: scs t brs hs)
  case (Cons b bs)
  then obtain acts scs' where scs: "scs = acts # scs'" by (cases scs) auto
  obtain br h1 where br: "rollbackBatch m b has_exec ledger acts = Some (br, h1)"
    using Cons.prems scs by (auto split: option.splits)
  have "hs = [h1] \<or> (\<exists>t1 brs' hs'. rollback_batches m has_exec ledger bs scs' t1 = Some (brs', t', hs') \<and> hs = h1 # hs')"
    using Cons.prems scs br by (auto simp: Let_def split: option.splits if_splits)
  then show ?case
  proof (elim disjE exE conjE)
    assume "hs = [h1]"
    then show ?thesis using list_emb_append_mono [OF rollbackBatch_order [OF br assms(2)] list_emb_Nil] by (simp add: comp_def)
  next
    fix t1 brs' hs'
    assume "rollback_batches m has_exec ledger bs scs' t1 = Some (brs', t', hs')" "hs = h1 # hs'"
    then show ?thesis using list_emb_append_mono [OF rollbackBatch_order [OF br assms(2)] Cons.IH] by (simp add: comp_def)
  qed
qed (auto split: if_splits)

lemma undo_in_reverse:
  assumes "RollbackWithLedger m (Some p) has_exec ledger scs = Some (res, hs)" and "m_concurrency m \<le> 1"
  shows "subseq (map (fst \<circ> snd) (concat hs)) (reverse_order m (pl_batches p))"
proof -
  from assms(1) obtain brs ta where "rollback_batches m has_exec ledger (rev (pl_batches p)) scs no_tally = Some (brs, ta, hs)"
    by (auto simp: RollbackWithLedger_def Let_def split: option.splits)
  from rollback_batches_order [OF this assms(2)] show ?thesis by (simp add: reverse_order_def)
qed

lemma dry_run_asks_nothing:
  assumes run: "RollbackWithLedger m (Some p) False ledger scs = Some (res, hs)" and dry: "m_dry_run m"
    and call: "h \<in> set hs" "(i, q, r) \<in> set h"
  shows "q = KSlot \<or> q = KSlotRelease"
proof -
  from run obtain brs ta where "rollback_batches m False ledger (rev (pl_batches p)) scs no_tally = Some (brs, ta, hs)"
    by (auto simp: RollbackWithLedger_def Let_def split: option.splits)
  from rollback_batches_asks [OF this call] obtain b where "rollback_asks m False ledger b q" by blast
  then show ?thesis using dry by (cases q) (auto simp: rollback_asks_def)
qed

section \<open>Properties\<close>

text \<open>
  C8. A rollback with the ledger of a run only does to a target what undoes a step the run executed on
  that target: every undo step and every snapshot restore it asks for belongs to a step of the plan with
  the name of a step that was executed there, and an undo step is one its author declared and the whitelist allows.
\<close>

theorem rollback_only_undoes_the_run:
  assumes "Execute c (Some fwd) True parent scs = Some (brs, hs)"
    and "RollbackWithLedger m (Some p) has_exec (Some (LedgerFromBatchResults (map Some brs))) rscs = Some (res, rhs)"
    and "rh \<in> set rhs" "(j, q, reply) \<in> set rh" "q \<noteq> KSlot" "q \<noteq> KSlotRelease"
  shows "\<exists>t ps. undo_of m has_exec t ps q \<and> (\<exists>b\<in>set (pl_batches p). ps \<in> set (pb_steps b)) \<and>
    (\<exists>k < length hs. \<exists>i s r. (i, QExec (pl_batches fwd ! k) t s, r) \<in> set (hs ! k) \<and> ps_name s = ps_name ps)"
  using rollback_follows_run [OF execute_batches_outcome assms(2-6)] assms(1) by (simp add: Execute_def)

text \<open>
  A rollback of the batches that ran which reports success has carried out the undo of every step
  the run executed on every target, without an error, provided no callback of that batch panicked and target and step
  have names.
\<close>

theorem clean_rollback_undoes_the_run:
  assumes "Execute c (Some fwd) True parent scs = Some (brs, hs)"
    and "RollbackWithLedger m (Some p) has_exec (Some (LedgerFromBatchResults (map Some brs))) rscs = Some (res, rhs)"
    and "ro_success res" and "take (length hs) (pl_batches fwd) = take (length hs) (pl_batches p)" "length hs \<le> length (pl_batches p)"
    and "k < length hs" and "(i, QExec b t s, r) \<in> set (hs ! k)" and "\<forall>j q m. (j, q, RPanic m) \<notin> set (hs ! k)"
    and "t \<noteq> ''''" "ps_name s \<noteq> ''''"
  shows "restored m t s (snd ` (\<Union>h\<in>set rhs. set h))"
  using rollback_undoes_run [OF execute_batches_outcome assms(2-10)] assms(1) by (simp add: Execute_def)

text \<open>
  C20. A manager without concurrency undoes in reverse: what it asks for is, in order, part of the undo of the last
  batch first and within a batch, target by target, of the last step first. A dry run without a callback
  asks for nothing at all.
\<close>

theorem rollback_goes_backwards:
  assumes "RollbackWithLedger m (Some p) has_exec ledger scs = Some (res, hs)" and "m_concurrency m \<le> 1"
  shows "subseq (map (fst \<circ> snd) (concat hs)) (reverse_order m (pl_batches p)) \<and>
    (m_dry_run m \<longrightarrow> \<not> has_exec \<longrightarrow> (\<forall>h\<in>set hs. \<forall>(i, q, r)\<in>set h. q = KSlot \<or> q = KSlotRelease))"
  using undo_in_reverse [OF assms] dry_run_asks_nothing [of m p ledger scs res hs] assms(1) by fastforce

text \<open>
  A rollback returns whatever the plan, the ledger and the whitelist: a run of a batch that has begun can
  always be continued to its result, in no more questions than two per target and one per undo step.
\<close>

theorem rollback_returns:
  assumes "0 < m_concurrency m"
  shows "(\<exists>scs res hs. RollbackWithLedger m p has_exec ledger scs = Some (res, hs)) \<and>
    (\<forall>b acts sh ts h. run_rollback m b has_exec ledger acts = Some (sh, ts, h) \<longrightarrow> pb_targets b \<noteq> [] \<longrightarrow>
      length acts \<le> length (pb_targets b) * (undo_bound (pb_steps b) + 2) \<and>
      (\<exists>acts' br h'. rollbackBatch m b has_exec ledger (acts @ acts') = Some (br, h @ h')))"
proof
  show "\<exists>scs res hs. RollbackWithLedger m p has_exec ledger scs = Some (res, hs)"
  proof (cases p)
    case (Some pl)
    obtain scs brs t hs where "rollback_batches m has_exec ledger (rev (pl_batches pl)) scs no_tally = Some (brs, t, hs)"
      using rollback_batches_return [OF assms] by blast
    then show ?thesis using Some by (intro exI [of _ scs]) (simp add: RollbackWithLedger_def Let_def)
  qed (simp add: RollbackWithLedger_def)
qed (use rollback_completes assms in blast)

section \<open>Examples\<close>

definition demo_script :: "(nat \<times> batch_reply) list \<Rightarrow> batch_script" where
  "demo_script acts = \<lparr>sc_before = None, sc_acts = acts, sc_delay = None\<rparr>"

definition small_batch :: plan_batch where
  "small_batch = \<lparr>pb_index = 0, pb_targets = [''a''], pb_steps = [demo_step ''one'', demo_step ''two''],
     pb_max_concurrency = 0, pb_gate = None\<rparr>"

definition small_result :: "StepResult list \<Rightarrow> batch_error option \<Rightarrow> BatchResult" where
  "small_result srs e = \<lparr>br_index = 0, br_targets = [\<lparr>tr_target = ''a'', tr_steps = srs, tr_error = e\<rparr>], br_error = e\<rparr>"

definition failing_acts :: "(nat \<times> batch_reply) list" where
  "failing_acts = [(0, RSlot), (0, RErr None), (0, RErr (Some (CallbackError ''boom''))), (0, RUnit), (0, RUnit), (0, RUnit)]"

definition failing_history :: batch_history where
  "failing_history = [(0, QSlot, RSlot), (0, QCtxErr, RErr None),
     (0, QExec small_batch ''a'' (demo_step ''one''), RErr (Some (CallbackError ''boom''))),
     (0, QSetFailed, RUnit), (0, QCancel, RUnit), (0, QSlotRelease, RUnit)]"

definition failing_results :: "BatchResult list" where
  "failing_results = [small_result [\<lparr>sr_step = ''one'', sr_error = Some (CallbackError ''boom'')\<rparr>]
     (Some (StepFailed ''a'' ''one'' (CallbackError ''boom'')))]"

definition demo_manager :: rb_manager where
  "demo_manager = NewManager [WithWhitelistAll]"

definition undo_history :: rb_history where
  "undo_history = [(0, KExec ''a'' (demo_undo ''one''), KErr None)]"

lemmas small_defs = demo_script_def small_batch_def small_result_def failing_acts_def failing_history_def failing_results_def
  demo_manager_def undo_history_def NewManager_def WithWhitelistAll_def

lemmas undo_defs = RollbackWithLedger_def rollbackBatch_def run_rollback_def rollback_threads_def rollbackTarget_def
  rollback_step_def executeRollbackStep_def allows_def Let_def tally_batch_def steps_of_batch_def tally_step_def no_tally_def
  skipped_step_def blank_step_def

lemmas ledger_defs = LedgerFromBatchResults_def NewExecutionLedger_def mark_step_def MarkUnknown_def MarkRan_def Let_def
  Ran_def AlreadyCompensated_def CompensationUncertain_def SideEffectsUnknown_def

lemma failing_run:
  "Execute (NewController []) (Some (batches_plan [small_batch])) True None [demo_script failing_acts] = Some (failing_results, [failing_history])"
  by (simp add: Execute_def batches_plan_def executeBatch_def look_parent_def small_defs demo_defs first_error_def cong: Ask_weak_cong)

lemma failing_undo:
  "\<exists>res. RollbackWithLedger demo_manager (Some (batches_plan [small_batch])) True (Some (LedgerFromBatchResults (map Some failing_results)))
     [[(0, KErr None)]] = Some (res, [undo_history]) \<and> ro_success res"
  by (simp add: small_defs demo_step_def demo_undo_def batches_plan_def undo_defs ledger_defs cong: Ask_weak_cong)

theorem rollback_only_undoes_the_run_witness:
  "\<exists>t ps. undo_of demo_manager True t ps (KExec ''a'' (demo_undo ''one'')) \<and> ps_name ps = ''one''"
proof -
  obtain res where undo: "RollbackWithLedger demo_manager (Some (batches_plan [small_batch])) True
      (Some (LedgerFromBatchResults (map Some failing_results))) [[(0, KErr None)]] = Some (res, [undo_history])"
    using failing_undo by blast
  have call: "undo_history \<in> set [undo_history]" "(0, KExec ''a'' (demo_undo ''one''), KErr None) \<in> set undo_history"
    by (simp_all add: undo_history_def)
  from rollback_only_undoes_the_run [OF failing_run undo call] show ?thesis
    by (auto simp: failing_history_def demo_step_def)
qed

theorem clean_rollback_undoes_the_run_witness:
  "restored demo_manager ''a'' (demo_step ''one'') {(KExec ''a'' (demo_undo ''one''), KErr None)}"
proof -
  obtain res where undo: "RollbackWithLedger demo_manager (Some (batches_plan [small_batch])) True
      (Some (LedgerFromBatchResults (map Some failing_results))) [[(0, KErr None)]] = Some (res, [undo_history])" "ro_success res"
    using failing_undo by blast
  have "restored demo_manager ''a'' (demo_step ''one'') (snd ` (\<Union>h\<in>set [undo_history]. set h))"
    by (rule clean_rollback_undoes_the_run [OF failing_run undo, of 0 0 small_batch])
      (auto simp: failing_history_def batches_plan_def demo_step_def)
  then show ?thesis by (simp add: undo_history_def)
qed

theorem rollback_goes_backwards_witness:
  "subseq [KExec ''a'' (demo_undo ''one'')] (reverse_order demo_manager [small_batch])"
proof -
  obtain res where undo: "RollbackWithLedger demo_manager (Some (batches_plan [small_batch])) True
      (Some (LedgerFromBatchResults (map Some failing_results))) [[(0, KErr None)]] = Some (res, [undo_history])"
    using failing_undo by blast
  from rollback_goes_backwards [OF this] show ?thesis
    by (simp add: undo_history_def batches_plan_def demo_manager_def NewManager_def WithWhitelistAll_def)
qed

theorem rollback_returns_witness:
  "\<exists>scs res hs. RollbackWithLedger demo_manager (Some (batches_plan [small_batch])) True None scs = Some (res, hs)"
  using rollback_returns [of demo_manager "Some (batches_plan [small_batch])" True None]
  by (auto simp: demo_manager_def NewManager_def WithWhitelistAll_def)

definition panic_acts :: "(nat \<times> batch_reply) list" where
  "panic_acts = [(0, RSlot), (0, RErr None), (0, RErr None), (0, RErr None), (0, RPanic ''nil map''), (0, RUnit), (0, RUnit), (0, RUnit)]"


definition empty_spec_batch :: plan_batch where
  "empty_spec_batch = small_batch\<lparr>pb_steps := [(demo_step ''one'')\<lparr>ps_rollback := Some (RollbackSpec [] '''' '''' False [])\<rparr>]\<rparr>"

text \<open>
  A step whose rollback declares no undo steps leaves no trace in the result: a rollback of a run that
  executed it requires no compensation and reports success, though nothing was undone.
\<close>

theorem empty_rollback_counts_as_undone:
  "\<exists>res. RollbackWithLedger demo_manager (Some (batches_plan [empty_spec_batch])) True
     (Some (MarkRan ''a'' ''one'' NewExecutionLedger)) [[]] = Some (res, [[]]) \<and>
   ro_success res \<and> ro_required res = 0"
  by (simp add: empty_spec_batch_def small_defs demo_step_def batches_plan_def undo_defs ledger_defs cong: Ask_weak_cong)

end
