(* ===== verification/Closure.thy ===== *)
theory Closure
  imports Gate_Manager Rollback Locks
begin

text \<open>
  \<^verbatim>\<open>internal/engine/closure.go\<close> and \<^verbatim>\<open>snapshot_hook.go\<close>: the run of a plan from the first gate to the verdict.
  The hosts are locked through the lock manager of the theory \<open>Locks\<close>, the batches are applied by the
  controller of \<open>Batch_Controller\<close>, one at a time, and undone by the manager of \<open>Rollback\<close>.

  What is installed in the runner (the gates, the host guard, the snapshotters, the verdict sinks and the
  verifier after a rollback) are functions on the \<open>world\<close>. The required ones are not nil, and the gates are those of the
  manager once the plan's own have been put into it. A verdict has no latency, and no change id, which this code leaves empty. The context is a function of the tick of the
  world: \<^verbatim>\<open>ctx.Err()\<close> at that moment. A \<open>run_script\<close> has the schedules of the batches and of the
  rollback, and what has become of the world when a batch or the rollback has ended. \<^verbatim>\<open>None\<close> is a script that does not
  fit, or the retry of a lock out of fuel. Messages are constructors.
\<close>

section \<open>The vocabulary\<close>

datatype ClosurePhase = PhaseCompleted | PhaseRolledBack | PhasePartialRollback | PhaseRollbackIncomplete | PhaseFailed

datatype rollback_reason =
    CancelledBeforeBatch nat batch_error
  | FencedDuringBatch int
  | BatchFailed int batch_error
  | PostBatchGateFailed int
  | CancelledBeforePostApply batch_error
  | PostApplyGateFailed

datatype closure_error =
    NoRunID
  | NilPlan
  | HostGuardRefused string
  | GatesNotMaterialised string
  | PreApplyGateFailed
  | CancelledBeforeLocks batch_error
  | CancelledDuringLocks batch_error
  | LockRefused string lock_error
  | StepSnapshotFailed string string string
  | NoRunSnapshotter
  | RunSnapshotFailed string
  | FencedOut rollback_reason
  | RollbackSuppressed rollback_reason
  | RolledBackBecause rollback_reason
  | RollbackNotComplete rollback_reason "rollback_error option"

record GateVerdict =
  gv_run_id :: string
  gv_gate :: string
  gv_phase :: gate_phase
  gv_stage :: string
  gv_batch :: string
  gv_passed :: bool
  gv_message :: gate_message

record ClosureResult =
  cl_run_id :: string
  cl_plan_id :: string
  cl_phase :: ClosurePhase
  cl_batches :: "BatchResult list"
  cl_verify :: "GateResult list"
  cl_rollback :: "RollbackResult option"
  cl_manual :: bool
  cl_post_verify :: "GateResult list option"
  cl_error :: "closure_error option"
  cl_baseline_error :: "string option"

section \<open>The runner\<close>

type_synonym guarded = "world \<Rightarrow> string option \<times> world"

record run_snapshotter =
  rs_capture :: "string \<Rightarrow> string list \<Rightarrow> run_snapshot_spec \<Rightarrow> guarded"
  rs_restore :: "string \<Rightarrow> string list \<Rightarrow> run_snapshot_spec \<Rightarrow> guarded"

record ClosureRunner =
  cr_crypto :: crypto
  cr_fuel :: nat
  cr_locks :: lock_manager
  cr_rollback :: rb_manager
  cr_batch :: Controller
  cr_materialise :: "plan \<Rightarrow> guarded"
  cr_verifier :: GateManager
  cr_host_guard :: "(string list \<Rightarrow> guarded) option"
  cr_snapshotter :: "(string \<Rightarrow> string \<Rightarrow> plan_step \<Rightarrow> guarded) option"
  cr_run_snapshotter :: "run_snapshotter option"
  cr_recorder :: "(GateVerdict \<Rightarrow> world \<Rightarrow> world) option"
  cr_observer :: "(GateVerdict \<Rightarrow> world \<Rightarrow> world) option"
  cr_post_verifier :: "(GateManager \<times> (RollbackResult \<Rightarrow> GateInput \<Rightarrow> world \<Rightarrow> GateResult list \<times> world)) option"
  cr_visit :: "string list \<Rightarrow> string list"

record run_script =
  sx_ctx :: "nat \<Rightarrow> batch_error option"
  sx_gates :: "gate_phase \<Rightarrow> GateInput \<Rightarrow> world \<Rightarrow> (nat \<Rightarrow> gate_answer) \<times> (nat list \<times> string) \<times> world"
  sx_batches :: "batch_script list"
  sx_after_batch :: "batch_history list \<Rightarrow> world \<Rightarrow> world"
  sx_rollback :: "(nat \<times> rb_reply) list list"
  sx_after_rollback :: "rb_history list \<Rightarrow> world \<Rightarrow> world"

definition ctx_err :: "run_script \<Rightarrow> world \<Rightarrow> batch_error option" where
  "ctx_err sx w = sx_ctx sx (w_tick w)"

section \<open>Helpers\<close>

definition newRunID :: "world \<Rightarrow> string option \<times> world" where
  "newRunID w = (case rand_read w of (None, w1) \<Rightarrow> (None, w1) | (Some r, w1) \<Rightarrow> (Some (''run-'' @ r), w1))"

definition collectTargets :: "plan \<Rightarrow> string list" where
  "collectTargets p = fold (\<lambda>t out. if t \<in> set out then out else out @ [t]) (concat (map pb_targets (pl_batches p))) []"

definition countTargets :: "plan_batch list \<Rightarrow> int" where
  "countTargets bs = int (sum_list (map (length \<circ> pb_targets) bs))"

definition gatesPassed :: "GateResult list \<Rightarrow> bool" where
  "gatesPassed rs = list_all gr_passed rs"

definition gateInitiator :: "string \<Rightarrow> world \<Rightarrow> string \<times> world" where
  "gateInitiator run w = (if run = '''' then ('''', w)
     else (case GetRun run w of (Inr (Some r), w1) \<Rightarrow> (run_creator r, w1) | (_, w1) \<Rightarrow> ('''', w1)))"

definition gateVerdicts :: "string \<Rightarrow> GateManager \<Rightarrow> gate_phase \<Rightarrow> string \<Rightarrow> string \<Rightarrow> GateResult list \<Rightarrow> GateVerdict list" where
  "gateVerdicts run gm phase stage batch results =
    map (\<lambda>(i, gr). \<lparr>gv_run_id = run,
        gv_gate = (if i < length (Gates gm phase) then g_name (Gates gm phase ! i) else ''gate-'' @ itoa i),
        gv_phase = phase, gv_stage = stage, gv_batch = batch, gv_passed = gr_passed gr, gv_message = gr_message gr\<rparr>)
      (zip [0..<length results] results)"

fun sink_verdicts :: "ClosureRunner \<Rightarrow> GateVerdict list \<Rightarrow> world \<Rightarrow> world" where
  "sink_verdicts cr [] w = w"
| "sink_verdicts cr (v # vs) w =
    (let w1 = (case cr_recorder cr of None \<Rightarrow> w | Some f \<Rightarrow> f v w);
         w2 = (case cr_observer cr of None \<Rightarrow> w1 | Some f \<Rightarrow> f v w1)
     in sink_verdicts cr vs w2)"

definition recordGateVerdicts :: "ClosureRunner \<Rightarrow> string \<Rightarrow> GateManager \<Rightarrow> gate_phase \<Rightarrow> string \<Rightarrow> string \<Rightarrow>
  GateResult list \<Rightarrow> world \<Rightarrow> world" where
  "recordGateVerdicts cr run gm phase stage batch results w = sink_verdicts cr (gateVerdicts run gm phase stage batch results) w"

text \<open>A phase of gates of the forward run: the initiator is looked up, the gates run, the verdicts are recorded.\<close>

definition run_phase :: "ClosureRunner \<Rightarrow> run_script \<Rightarrow> gate_phase \<Rightarrow> GateInput \<Rightarrow> world \<Rightarrow> GateResult list \<times> world" where
  "run_phase cr sx phase input w = (case sx_gates sx phase input w of (answers, sched, w1) \<Rightarrow> (RunPhase (cr_verifier cr) phase answers sched, w1))"

definition forward_gates :: "ClosureRunner \<Rightarrow> run_script \<Rightarrow> string \<Rightarrow> gate_phase \<Rightarrow> string \<Rightarrow> string list \<Rightarrow> world \<Rightarrow> GateResult list \<times> world" where
  "forward_gates cr sx run phase batch targets w =
    (case gateInitiator run w of (who, w1) \<Rightarrow>
     (case run_phase cr sx phase \<lparr>gi_run_id = run, gi_initiator = who, gi_batch_id = batch, gi_targets = targets\<rparr> w1 of (rs, w2) \<Rightarrow>
       (rs, recordGateVerdicts cr run (cr_verifier cr) phase ''forward'' batch rs w2)))"

definition ResolveRollbackOnFailure :: "rollback_spec option \<Rightarrow> string" where
  "ResolveRollbackOnFailure spec = (case spec of
      None \<Rightarrow> RollbackOnFailureAuto
    | Some s \<Rightarrow> if rs_on_failure s = RollbackOnFailureManual then RollbackOnFailureManual else RollbackOnFailureAuto)"

definition rollbackPolicyOf :: "plan \<Rightarrow> string" where
  "rollbackPolicyOf p = ResolveRollbackOnFailure (pl_rollback p)"

definition postRollbackVerifyRequested :: "plan \<Rightarrow> bool" where
  "postRollbackVerifyRequested p = (case pl_rollback p of None \<Rightarrow> False | Some s \<Rightarrow> rs_verify_after s)"

definition adaptExecFunc :: "plan_step \<Rightarrow> dsl_step" where
  "adaptExecFunc s = DslStep (ps_name s) (ps_module s) (ps_action s) (ps_args s) (ps_rollback s) (ps_approval s) (ps_gate s)
     False False False []"

section \<open>Locks\<close>

fun releaseLocks :: "ClosureRunner \<Rightarrow> string \<Rightarrow> string list \<Rightarrow> world \<Rightarrow> world" where
  "releaseLocks cr owner [] w = w"
| "releaseLocks cr owner (t # ts) w = releaseLocks cr owner ts (snd (ManagerRelease (cr_locks cr) t owner w))"

text \<open>The locks taken so far are \<open>acquired\<close>; on a refusal they are given back, in the order a map is visited.\<close>

fun acquire_locks :: "ClosureRunner \<Rightarrow> run_script \<Rightarrow> string \<Rightarrow> string list \<Rightarrow> string list \<Rightarrow> world \<Rightarrow>
  ((closure_error + string list) \<times> world) option" where
  "acquire_locks cr sx owner [] acquired w = Some (Inr acquired, w)"
| "acquire_locks cr sx owner (t # ts) acquired w =
    (case ctx_err sx w of
       Some e \<Rightarrow> Some (Inl (CancelledDuringLocks e), releaseLocks cr owner (cr_visit cr acquired) w)
     | None \<Rightarrow>
        (case ManagerAcquire (cr_crypto cr) (cr_fuel cr) (cr_locks cr) t owner w of
           None \<Rightarrow> None
         | Some (Inl e, w1) \<Rightarrow> Some (Inl (LockRefused t e), releaseLocks cr owner (cr_visit cr acquired) w1)
         | Some (Inr l, w1) \<Rightarrow> acquire_locks cr sx owner ts (acquired @ [t]) w1))"

section \<open>Snapshots\<close>

definition isSnapshotStep :: "plan_step \<Rightarrow> bool" where
  "isSnapshotStep s = (case ps_rollback s of None \<Rightarrow> False | Some spec \<Rightarrow> rs_strategy spec = ''snapshot'')"

definition snapshot_pairs :: "plan \<Rightarrow> (string \<times> plan_step) list" where
  "snapshot_pairs p = concat (map (\<lambda>b. concat (map (\<lambda>t. map (Pair t) (filter isSnapshotStep (pb_steps b))) (pb_targets b))) (pl_batches p))"

fun capture_all :: "(string \<Rightarrow> string \<Rightarrow> plan_step \<Rightarrow> guarded) \<Rightarrow> string \<Rightarrow> (string \<times> plan_step) list \<Rightarrow> world \<Rightarrow>
  closure_error option \<times> world" where
  "capture_all f run [] w = (None, w)"
| "capture_all f run ((t, s) # xs) w =
    (case f run t s w of
       (Some e, w1) \<Rightarrow> (Some (StepSnapshotFailed t (ps_name s) e), w1)
     | (None, w1) \<Rightarrow> capture_all f run xs w1)"

definition captureSnapshots :: "ClosureRunner \<Rightarrow> string \<Rightarrow> plan \<Rightarrow> world \<Rightarrow> closure_error option \<times> world" where
  "captureSnapshots cr run p w = (case cr_snapshotter cr of None \<Rightarrow> (None, w) | Some f \<Rightarrow> capture_all f run (snapshot_pairs p) w)"

definition captureRunSnapshot :: "ClosureRunner \<Rightarrow> string \<Rightarrow> plan \<Rightarrow> string list \<Rightarrow> world \<Rightarrow> closure_error option \<times> world" where
  "captureRunSnapshot cr run p targets w = (case pl_run_snapshot p of
      None \<Rightarrow> (None, w)
    | Some spec \<Rightarrow> (case cr_run_snapshotter cr of
         None \<Rightarrow> (Some NoRunSnapshotter, w)
       | Some s \<Rightarrow> (case rs_capture s run targets spec w of
            (Some e, w1) \<Rightarrow> (Some (RunSnapshotFailed e), w1)
          | (None, w1) \<Rightarrow> (None, w1))))"

definition captureSnapshotsAndBaseline :: "ClosureRunner \<Rightarrow> string \<Rightarrow> plan \<Rightarrow> string list \<Rightarrow> world \<Rightarrow> closure_error option \<times> world" where
  "captureSnapshotsAndBaseline cr run p targets w =
    (case captureSnapshots cr run p w of
       (Some e, w1) \<Rightarrow> (Some e, w1)
     | (None, w1) \<Rightarrow> captureRunSnapshot cr run p targets w1)"

definition restoreRunSnapshot :: "ClosureRunner \<Rightarrow> string \<Rightarrow> plan \<Rightarrow> string list \<Rightarrow> guarded" where
  "restoreRunSnapshot cr run p targets w = (case (pl_run_snapshot p, cr_run_snapshotter cr) of
      (Some spec, Some s) \<Rightarrow> rs_restore s run targets spec w
    | _ \<Rightarrow> (None, w))"

section \<open>The batches\<close>

record batches_state =
  bl_results :: "BatchResult list"
  bl_verify :: "GateResult list"
  bl_executed :: "plan_batch list"
  bl_trigger :: "rollback_reason option"
  bl_fenced :: "rollback_reason option"
  bl_histories :: "batch_history list"

text \<open>With no callback the adapted one does nothing and returns nil.\<close>

definition nil_callback :: "batch_history list \<Rightarrow> bool" where
  "nil_callback hs = list_all (list_all (\<lambda>(i, q, r). batch_busy q \<longrightarrow> r = RErr None)) hs"

text \<open>The body of the loop once the context has been looked at: the new state and whether the loop goes on.\<close>

definition apply_batch :: "ClosureRunner \<Rightarrow> run_script \<Rightarrow> string \<Rightarrow> plan \<Rightarrow> bool \<Rightarrow> plan_batch \<Rightarrow> batch_script \<Rightarrow> batches_state \<Rightarrow> world \<Rightarrow>
  (batches_state \<times> bool \<times> world) option" where
  "apply_batch cr sx run p has_exec b sc st w =
    (case Execute (cr_batch cr) (Some (p\<lparr>pl_batches := [b], pl_total_targets := int (length (pb_targets b)), pl_run_snapshot := None\<rparr>))
            True None [sc] of
       None \<Rightarrow> None
     | Some (brs, hs) \<Rightarrow>
        if \<not> has_exec \<and> \<not> nil_callback hs then None
        else
        (let w1 = sx_after_batch sx hs w;
             st1 = st\<lparr>bl_results := bl_results st @ brs, bl_executed := bl_executed st @ [b], bl_histories := bl_histories st @ hs\<rparr>
         in case (if brs = [] then None else br_error (last brs)) of
              Some e \<Rightarrow>
                if is_fenced e then Some (st1\<lparr>bl_fenced := Some (FencedDuringBatch (pb_index b))\<rparr>, False, w1)
                else Some (st1\<lparr>bl_trigger := Some (BatchFailed (pb_index b) e)\<rparr>, False, w1)
            | None \<Rightarrow>
               (case forward_gates cr sx run PhasePostBatch (''batch-'' @ format_int (pb_index b)) (pb_targets b) w1 of (rs, w2) \<Rightarrow>
                 let st2 = st1\<lparr>bl_verify := bl_verify st1 @ rs\<rparr>
                 in if gatesPassed rs then Some (st2, True, w2)
                    else Some (st2\<lparr>bl_trigger := Some (PostBatchGateFailed (pb_index b))\<rparr>, False, w2))))"

fun run_batches :: "ClosureRunner \<Rightarrow> run_script \<Rightarrow> string \<Rightarrow> plan \<Rightarrow> bool \<Rightarrow> nat \<Rightarrow> plan_batch list \<Rightarrow> batch_script list \<Rightarrow>
  batches_state \<Rightarrow> world \<Rightarrow> (batches_state \<times> world) option" where
  "run_batches cr sx run p has_exec i [] scs st w = (if scs = [] then Some (st, w) else None)"
| "run_batches cr sx run p has_exec i (b # bs) scs st w =
    (case ctx_err sx w of
       Some e \<Rightarrow> if scs = [] then Some (st\<lparr>bl_trigger := Some (CancelledBeforeBatch i e)\<rparr>, w) else None
     | None \<Rightarrow>
        (case scs of
           [] \<Rightarrow> None
         | sc # scs' \<Rightarrow>
            (case apply_batch cr sx run p has_exec b sc st w of
               None \<Rightarrow> None
             | Some (st1, go, w1) \<Rightarrow>
                if go then run_batches cr sx run p has_exec (Suc i) bs scs' st1 w1
                else if scs' = [] then Some (st1, w1) else None)))"

section \<open>The rollback\<close>

definition executed_plan :: "plan \<Rightarrow> plan_batch list \<Rightarrow> plan" where
  "executed_plan p bs = p\<lparr>pl_batches := bs, pl_total_targets := countTargets bs, pl_run_snapshot := None\<rparr>"

definition rollback_path :: "ClosureRunner \<Rightarrow> run_script \<Rightarrow> plan \<Rightarrow> bool \<Rightarrow> string list \<Rightarrow> batches_state \<Rightarrow> rollback_reason \<Rightarrow> ClosureResult \<Rightarrow>
  world \<Rightarrow> (ClosureResult \<times> rb_history list \<times> world) option" where
  "rollback_path cr sx p has_exec targets st reason res w =
    (let run = cl_run_id res;
         ledger = LedgerFromBatchResults (map Some (bl_results st))
     in case RollbackWithLedger (SetRunID run (cr_rollback cr)) (Some (executed_plan p (bl_executed st))) has_exec (Some ledger) (sx_rollback sx) of
       None \<Rightarrow> None
     | Some (rb, rhs) \<Rightarrow>
        (let w1 = sx_after_rollback sx rhs w
         in case restoreRunSnapshot cr run p targets w1 of (baseline, w2) \<Rightarrow>
           (let (pv, w3) = (case cr_post_verifier cr of
                  None \<Rightarrow> (None, w2)
                | Some (gates, verify) \<Rightarrow>
                   if postRollbackVerifyRequested p then
                     (case gateInitiator run w2 of (who, w') \<Rightarrow>
                     (case verify rb \<lparr>gi_run_id = run, gi_initiator = who, gi_batch_id = '''', gi_targets = targets\<rparr> w' of (rs, w'') \<Rightarrow>
                       (Some rs, recordGateVerdicts cr run gates PhasePostApply ''rollback'' '''' rs w'')))
                   else (None, w2));
                phase = (if ro_success rb then PhaseRolledBack else if ro_partial rb then PhasePartialRollback else PhaseRollbackIncomplete);
                err = (if ro_success rb then RolledBackBecause reason else RollbackNotComplete reason (ro_error rb))
            in Some (res\<lparr>cl_phase := phase, cl_rollback := Some rb, cl_baseline_error := baseline, cl_post_verify := pv,
                      cl_error := Some err\<rparr>, rhs, w3))))"

section \<open>The run\<close>

definition blank_result :: "string \<Rightarrow> string \<Rightarrow> ClosureResult" where
  "blank_result run plan = \<lparr>cl_run_id = run, cl_plan_id = plan, cl_phase = PhaseCompleted, cl_batches = [], cl_verify = [],
     cl_rollback = None, cl_manual = False, cl_post_verify = None, cl_error = None, cl_baseline_error = None\<rparr>"

definition failed_run :: "closure_error \<Rightarrow> ClosureResult \<Rightarrow> ClosureResult" where
  "failed_run e res = res\<lparr>cl_phase := PhaseFailed, cl_error := Some e\<rparr>"

text \<open>What a run did: the histories of the batches and of the rollback.\<close>

type_synonym run_trace = "batch_history list \<times> rb_history list"

definition batches_started :: "GateResult list \<Rightarrow> batches_state" where
  "batches_started rs = \<lparr>bl_results = [], bl_verify = rs, bl_executed = [], bl_trigger = None, bl_fenced = None, bl_histories = []\<rparr>"

text \<open>The gates after the last batch, unless a rollback is due already.\<close>

definition post_apply :: "ClosureRunner \<Rightarrow> run_script \<Rightarrow> string \<Rightarrow> string list \<Rightarrow> batches_state \<Rightarrow> world \<Rightarrow>
  rollback_reason option \<times> GateResult list \<times> world" where
  "post_apply cr sx run targets st w =
    (case bl_trigger st of
       Some r \<Rightarrow> (Some r, bl_verify st, w)
     | None \<Rightarrow>
        (case ctx_err sx w of
           Some e \<Rightarrow> (Some (CancelledBeforePostApply e), bl_verify st, w)
         | None \<Rightarrow>
            (case forward_gates cr sx run PhasePostApply '''' targets w of (rs, w') \<Rightarrow>
              (if gatesPassed rs then None else Some PostApplyGateFailed, bl_verify st @ rs, w'))))"

text \<open>The verdict. The reason of a run that was fenced out is overwritten by what came after.\<close>

definition settle_run :: "ClosureRunner \<Rightarrow> run_script \<Rightarrow> plan \<Rightarrow> bool \<Rightarrow> string list \<Rightarrow> batches_state \<Rightarrow> rollback_reason option \<Rightarrow> ClosureResult \<Rightarrow>
  world \<Rightarrow> (ClosureResult \<times> rb_history list \<times> world) option" where
  "settle_run cr sx p has_exec targets st trigger res w =
    (case bl_fenced st of
       Some r \<Rightarrow> Some (failed_run (FencedOut (case trigger of None \<Rightarrow> r | Some r' \<Rightarrow> r')) res, [], w)
     | None \<Rightarrow>
        (case trigger of
           None \<Rightarrow> Some (res\<lparr>cl_phase := PhaseCompleted\<rparr>, [], w)
         | Some r \<Rightarrow>
            if rollbackPolicyOf p = RollbackOnFailureManual
            then Some ((failed_run (RollbackSuppressed r) res)\<lparr>cl_manual := True\<rparr>, [], w)
            else rollback_path cr sx p has_exec targets st r res w))"

text \<open>The part of \<^verbatim>\<open>Run\<close> under the locks, up to their release.\<close>

definition locked_run :: "ClosureRunner \<Rightarrow> run_script \<Rightarrow> plan \<Rightarrow> bool \<Rightarrow> string list \<Rightarrow> ClosureResult \<Rightarrow> world \<Rightarrow>
  (ClosureResult \<times> run_trace \<times> world) option" where
  "locked_run cr sx p has_exec targets res w =
    (case captureSnapshotsAndBaseline cr (cl_run_id res) p targets w of
       (Some e, w1) \<Rightarrow> Some (failed_run e res, ([], []), w1)
     | (None, w1) \<Rightarrow>
        (case run_batches cr sx (cl_run_id res) p has_exec 0 (pl_batches p) (sx_batches sx) (batches_started (cl_verify res)) w1 of
           None \<Rightarrow> None
         | Some (st, w2) \<Rightarrow>
            (case post_apply cr sx (cl_run_id res) targets st w2 of (trigger, verify, w3) \<Rightarrow>
              (case settle_run cr sx p has_exec targets st trigger (res\<lparr>cl_batches := bl_results st, cl_verify := verify\<rparr>) w3 of
                 None \<Rightarrow> None
               | Some (res2, rhs, w4) \<Rightarrow> Some (res2, (bl_histories st, rhs), w4)))))"

definition Run :: "ClosureRunner \<Rightarrow> run_script \<Rightarrow> plan option \<Rightarrow> bool \<Rightarrow> world \<Rightarrow> (ClosureResult option \<times> run_trace \<times> world) option" where
  "Run cr sx plan has_exec w =
    (case newRunID w of
       (None, w0) \<Rightarrow> Some (None, ([], []), w0)
     | (Some run, w0) \<Rightarrow>
        (case plan of
           None \<Rightarrow> Some (Some (failed_run NilPlan (blank_result run '''')), ([], []), w0)
         | Some p \<Rightarrow>
            (let res = blank_result run (pl_id p);
                 targets = collectTargets p;
                 stop = (\<lambda>e res w. Some (Some (failed_run e res), ([], []), w))
             in case (case cr_host_guard cr of None \<Rightarrow> (None, w0) | Some f \<Rightarrow> f targets w0) of
                  (Some e, w1) \<Rightarrow> stop (HostGuardRefused e) res w1
                | (None, w1) \<Rightarrow>
                   (case cr_materialise cr p w1 of
                      (Some e, w2) \<Rightarrow> stop (GatesNotMaterialised e) res w2
                    | (None, w2) \<Rightarrow>
                       (case forward_gates cr sx run PhasePreApply '''' targets w2 of (rs, w3) \<Rightarrow>
                         let res1 = res\<lparr>cl_verify := rs\<rparr>
                         in if \<not> gatesPassed rs then stop PreApplyGateFailed res1 w3
                            else (case ctx_err sx w3 of
                              Some e \<Rightarrow> stop (CancelledBeforeLocks e) res1 w3
                            | None \<Rightarrow>
                               (case acquire_locks cr sx run targets [] w3 of
                                  None \<Rightarrow> None
                                | Some (Inl e, w4) \<Rightarrow> stop e res1 w4
                                | Some (Inr acquired, w4) \<Rightarrow>
                                   (case locked_run cr sx p has_exec targets res1 w4 of
                                      None \<Rightarrow> None
                                    | Some (res2, tr, w5) \<Rightarrow> Some (Some res2, tr, releaseLocks cr run (cr_visit cr acquired) w5)))))))))"

section \<open>What the batches of a run leave behind\<close>

text \<open>The state of the loop while it goes on: every batch so far was applied without an error and every gate passed.\<close>

definition going :: "Controller \<Rightarrow> batches_state \<Rightarrow> bool" where
  "going c st \<longleftrightarrow> plan_outcome c (bl_executed st) (bl_results st) (bl_histories st) \<and>
    length (bl_results st) = length (bl_executed st) \<and> length (bl_histories st) = length (bl_executed st) \<and>
    (\<forall>br\<in>set (bl_results st). br_error br = None) \<and> bl_trigger st = None \<and> bl_fenced st = None"

definition stopped :: "Controller \<Rightarrow> batches_state \<Rightarrow> bool" where
  "stopped c st \<longleftrightarrow> plan_outcome c (bl_executed st) (bl_results st) (bl_histories st) \<and>
    (bl_trigger st \<noteq> None \<or> bl_fenced st \<noteq> None)"

lemma plan_outcome_snoc:
  assumes "plan_outcome c bs brs hs" "length brs = length bs" "length hs = length bs" "\<forall>br\<in>set brs. br_error br = None"
    and "plan_outcome c [b] [br] hs1"
  shows "plan_outcome c (bs @ [b]) (brs @ [br]) (hs @ hs1)"
proof -
  have hs1: "hs1 = [] \<or> (\<exists>h. hs1 = [h])" using assms(5) by (cases hs1) (auto simp: plan_outcome_def)
  show ?thesis using assms hs1 unfolding plan_outcome_def
    by (auto simp: nth_append less_Suc_eq)
qed

lemma execute_one:
  assumes "Execute c (Some p) True None [sc] = Some (brs, hs)" and "pl_batches p = [b]"
  shows "\<exists>br. brs = [br] \<and> plan_outcome c [b] [br] hs \<and> (br_error br = None \<longrightarrow> length hs = 1)"
proof -
  have run: "execute_batches c None [b] [sc] = Some (brs, hs)" using assms by (simp add: Execute_def)
  have out: "plan_outcome c [b] brs hs" by (rule execute_batches_outcome [OF run])
  have "brs \<noteq> []"
  proof
    assume "brs = []"
    then show False using run by (simp split: if_splits option.splits prod.splits)
  qed
  then obtain br where br: "brs = [br]" using out by (cases brs) (auto simp: plan_outcome_def)
  have "length hs \<le> 1" "\<forall>k < length brs. length hs \<le> k \<longrightarrow> br_error (brs ! k) \<noteq> None"
    using out br by (simp_all add: plan_outcome_def)
  then have "length hs \<le> 1" "length hs = 0 \<longrightarrow> br_error br \<noteq> None" using br by simp_all
  then have "br_error br = None \<Longrightarrow> length hs = 1" by linarith
  then show ?thesis using out br by (intro exI [of _ br]) simp
qed

definition gate_count :: "ClosureRunner \<Rightarrow> gate_phase \<Rightarrow> nat" where
  "gate_count cr ph = length (Gates (cr_verifier cr) ph)"

lemma forward_gates_count: "forward_gates cr sx run ph b ts w = (rs, w') \<Longrightarrow> length rs = gate_count cr ph"
  by (auto simp: forward_gates_def run_phase_def gate_count_def run_phase_length split: prod.splits)

lemma apply_batch_outcome:
  assumes run: "apply_batch cr sx run p has_exec b sc st w = Some (st', go, w')" and st: "going (cr_batch cr) st"
  shows "bl_executed st' = bl_executed st @ [b] \<and>
    (if go then going (cr_batch cr) st' \<and> (\<exists>rs. bl_verify st' = bl_verify st @ rs \<and> gatesPassed rs \<and> length rs = gate_count cr PhasePostBatch) else stopped (cr_batch cr) st')"
proof -
  let ?p = "p\<lparr>pl_batches := [b], pl_total_targets := int (length (pb_targets b)), pl_run_snapshot := None\<rparr>"
  from run obtain brs hs where ex: "Execute (cr_batch cr) (Some ?p) True None [sc] = Some (brs, hs)"
    by (auto simp: apply_batch_def split: option.splits)
  from execute_one [OF this, of b] obtain br where br: "brs = [br]" "plan_outcome (cr_batch cr) [b] [br] hs"
    "br_error br = None \<longrightarrow> length hs = 1" by auto
  have out: "plan_outcome (cr_batch cr) (bl_executed st @ [b]) (bl_results st @ [br]) (bl_histories st @ hs)"
    using plan_outcome_snoc [OF _ _ _ _ br(2)] st by (simp add: going_def)
  show ?thesis
  proof (cases "br_error br")
    case (Some e)
    then show ?thesis using run ex br out
      by (auto simp: apply_batch_def stopped_def Let_def split: if_splits)
  next
    case None
    then show ?thesis using run ex br out st
      by (auto simp: apply_batch_def stopped_def going_def Let_def split: if_splits prod.splits dest: forward_gates_count)
  qed
qed

lemma run_batches_outcome:
  assumes "run_batches cr sx run p has_exec i bs scs st w = Some (st', w')" and "going (cr_batch cr) st" and "gatesPassed (bl_verify st)"
  shows "(going (cr_batch cr) st' \<and> bl_executed st' = bl_executed st @ bs \<and> gatesPassed (bl_verify st') \<and>
      length (bl_verify st') = length (bl_verify st) + length bs * gate_count cr PhasePostBatch) \<or> stopped (cr_batch cr) st'"
  using assms
proof (induction bs arbitrary: i scs st w)
  case Nil
  then show ?case by (auto split: if_splits)
next
  case (Cons b bs)
  show ?case
  proof (cases "ctx_err sx w")
    case (Some e)
    then show ?thesis using Cons.prems by (auto simp: stopped_def going_def split: if_splits)
  next
    case None
    then obtain sc scs' where scs: "scs = sc # scs'" using Cons.prems(1) by (cases scs) auto
    then obtain st1 go w1 where ab: "apply_batch cr sx run p has_exec b sc st w = Some (st1, go, w1)"
      using Cons.prems(1) None by (auto split: option.splits)
    note out = apply_batch_outcome [OF ab Cons.prems(2)]
    show ?thesis
    proof (cases go)
      case True
      then have rest: "run_batches cr sx run p has_exec (Suc i) bs scs' st1 w1 = Some (st', w')"
        using Cons.prems(1) None scs ab by simp
      have "gatesPassed (bl_verify st1)" using out True Cons.prems(3) by (auto simp: gatesPassed_def)
      from Cons.IH [OF rest _ this] out True show ?thesis by auto
    next
      case False
      then show ?thesis using Cons.prems(1) None scs ab out by (auto split: if_splits)
    qed
  qed
qed

section \<open>What a verdict means\<close>

lemma started_going: "going c (batches_started rs)"
  by (simp add: going_def batches_started_def plan_outcome_def)

text \<open>A run with a verdict other than a failure went through the batches, and then either all went well or
  was rolled back.\<close>

lemma locked_run_cases:
  assumes "locked_run cr sx p has_exec targets res w = Some (res', (hs, rhs), w')" and "cl_phase res' \<noteq> PhaseFailed"
  obtains st w1 w2 where
    "run_batches cr sx (cl_run_id res) p has_exec 0 (pl_batches p) (sx_batches sx) (batches_started (cl_verify res)) w1 = Some (st, w2)"
    "hs = bl_histories st"
    "(bl_trigger st = None \<and> bl_fenced st = None \<and> rhs = [] \<and> (\<exists>rs. gatesPassed rs \<and> length rs = gate_count cr PhasePostApply \<and> cl_verify res' = bl_verify st @ rs) \<and>
       cl_phase res' = PhaseCompleted \<and> cl_rollback res' = cl_rollback res) \<or>
     (\<exists>r res1 w3. rollback_path cr sx p has_exec targets st r res1 w3 = Some (res', rhs, w') \<and> cl_run_id res1 = cl_run_id res)"
proof -
  obtain e w1 where cap: "captureSnapshotsAndBaseline cr (cl_run_id res) p targets w = (e, w1)" by force
  have e: "e = None" using assms cap by (auto simp: locked_run_def failed_run_def split: option.splits)
  obtain st w2 where rb: "run_batches cr sx (cl_run_id res) p has_exec 0 (pl_batches p) (sx_batches sx) (batches_started (cl_verify res)) w1 = Some (st, w2)"
    using assms(1) cap e by (auto simp: locked_run_def split: option.splits)
  obtain trigger verify w3 where pa: "post_apply cr sx (cl_run_id res) targets st w2 = (trigger, verify, w3)" by (metis prod_cases3)
  have settle: "settle_run cr sx p has_exec targets st trigger (res\<lparr>cl_batches := bl_results st, cl_verify := verify\<rparr>) w3 = Some (res', rhs, w')"
    and hs: "hs = bl_histories st"
    using assms(1) cap e rb pa by (auto simp: locked_run_def split: option.splits)
  have fenced: "bl_fenced st = None" using settle assms(2) by (auto simp: settle_run_def failed_run_def split: option.splits)
  show thesis
  proof (cases trigger)
    case None
    then have "bl_trigger st = None" "\<exists>rs. gatesPassed rs \<and> length rs = gate_count cr PhasePostApply \<and> verify = bl_verify st @ rs"
      using pa by (auto simp: post_apply_def split: option.splits prod.splits if_splits dest: forward_gates_count)
    then show thesis using settle fenced None by (intro that [OF rb hs] disjI1) (auto simp: settle_run_def)
  next
    case (Some r)
    then have "rollback_path cr sx p has_exec targets st r (res\<lparr>cl_batches := bl_results st, cl_verify := verify\<rparr>) w3 = Some (res', rhs, w')"
      using settle fenced assms(2) by (auto simp: settle_run_def failed_run_def split: if_splits)
    then show thesis
      by (intro that [OF rb hs] disjI2 exI [of _ r] exI [of _ "res\<lparr>cl_batches := bl_results st, cl_verify := verify\<rparr>"] exI [of _ w3]) simp
  qed
qed

lemma rollback_path_verdict:
  assumes "rollback_path cr sx p has_exec targets st r res1 w = Some (res', rhs, w')"
  obtains rb where "RollbackWithLedger (SetRunID (cl_run_id res1) (cr_rollback cr)) (Some (executed_plan p (bl_executed st))) has_exec
      (Some (LedgerFromBatchResults (map Some (bl_results st)))) (sx_rollback sx) = Some (rb, rhs)"
    "cl_rollback res' = Some rb" "cl_phase res' = PhaseRolledBack \<longleftrightarrow> ro_success rb" "cl_phase res' \<noteq> PhaseCompleted"
    "cl_phase res' \<noteq> PhaseFailed"
  using assms by (auto simp: rollback_path_def Let_def split: option.splits prod.splits if_splits)

text \<open>The shape of a run that was not refused before its first batch.\<close>

lemma Run_cases:
  assumes "Run cr sx plan has_exec w = Some (Some res, (hs, rhs), w')" and "cl_phase res \<noteq> PhaseFailed \<or> hs \<noteq> [] \<or> rhs \<noteq> []"
  obtains p run rs w1 w2 where "plan = Some p" "gatesPassed rs" "length rs = gate_count cr PhasePreApply"
    "locked_run cr sx p has_exec (collectTargets p) ((blank_result run (pl_id p))\<lparr>cl_verify := rs\<rparr>) w1 = Some (res, (hs, rhs), w2)"
proof -
  obtain run w0 where run: "newRunID w = (Some run, w0)" using assms(1) by (auto simp: Run_def split: option.splits prod.splits)
  obtain p where p: "plan = Some p" using assms run by (auto simp: Run_def failed_run_def split: option.splits)
  obtain g w1 where guard: "(case cr_host_guard cr of None \<Rightarrow> (None, w0) | Some f \<Rightarrow> f (collectTargets p) w0) = (g, w1)" by force
  have g: "g = None" using assms run p guard by (auto simp: Run_def failed_run_def Let_def split: option.splits)
  obtain m w2 where mat: "cr_materialise cr p w1 = (m, w2)" by force
  have m: "m = None" using assms run p guard g mat by (auto simp: Run_def failed_run_def Let_def split: option.splits)
  obtain rs w3 where fg: "forward_gates cr sx run PhasePreApply '''' (collectTargets p) w2 = (rs, w3)" by force
  have rs: "gatesPassed rs" "ctx_err sx w3 = None"
    using assms run p guard g mat m fg by (auto simp: Run_def failed_run_def Let_def split: option.splits if_splits)
  note start = run p guard g mat m fg rs
  obtain a w4 where al: "acquire_locks cr sx run (collectTargets p) [] w3 = Some (a, w4)"
    using assms(1) start by (auto simp: Run_def Let_def split: option.splits)
  obtain acq where a: "a = Inr acq"
    using assms start al by (cases a) (auto simp: Run_def failed_run_def Let_def)
  obtain w5 where "locked_run cr sx p has_exec (collectTargets p) ((blank_result run (pl_id p))\<lparr>cl_verify := rs\<rparr>) w4 = Some (res, (hs, rhs), w5)"
    using assms(1) start al a by (auto simp: Run_def Let_def split: option.splits)
  then show thesis using that p rs(1) forward_gates_count [OF fg] by blast
qed

lemma loop_outcome:
  assumes "run_batches cr sx run p has_exec 0 (pl_batches p) scs (batches_started rs) w = Some (st, w')" and "gatesPassed rs"
  shows "plan_outcome (cr_batch cr) (bl_executed st) (bl_results st) (bl_histories st)"
    and "bl_trigger st = None \<Longrightarrow> bl_fenced st = None \<Longrightarrow>
      bl_executed st = pl_batches p \<and> length (bl_results st) = length (pl_batches p) \<and> (\<forall>br\<in>set (bl_results st). br_error br = None) \<and>
      gatesPassed (bl_verify st) \<and> length (bl_verify st) = length rs + length (pl_batches p) * gate_count cr PhasePostBatch"
  using run_batches_outcome [OF assms(1) started_going] assms(2)
  by (auto simp: batches_started_def going_def stopped_def)

lemma completed_run:
  assumes run: "Run cr sx (Some p) has_exec w = Some (Some res, (hs, rhs), w')" and phase: "cl_phase res = PhaseCompleted"
  shows "rhs = [] \<and> cl_rollback res = None \<and> gatesPassed (cl_verify res) \<and>
    length (cl_verify res) = gate_count cr PhasePreApply + length (pl_batches p) * gate_count cr PhasePostBatch + gate_count cr PhasePostApply \<and> length hs = length (pl_batches p) \<and>
    (\<forall>k < length (pl_batches p). \<forall>i < length (pb_targets (pl_batches p ! k)).
      steps_called (part_of i (hs ! k)) = map (\<lambda>s. (s, RErr None)) (pb_steps (pl_batches p ! k)))"
proof -
  from run phase obtain rid rs w1 w2 where rs: "gatesPassed rs" "length rs = gate_count cr PhasePreApply" and
    lr: "locked_run cr sx p has_exec (collectTargets p) ((blank_result rid (pl_id p))\<lparr>cl_verify := rs\<rparr>) w1 = Some (res, (hs, rhs), w2)"
    by (auto elim!: Run_cases)
  from phase have "cl_phase res \<noteq> PhaseFailed" by simp
  with lr obtain st w3 w4 where rb: "run_batches cr sx rid p has_exec 0 (pl_batches p) (sx_batches sx) (batches_started rs) w3 = Some (st, w4)"
    and hs: "hs = bl_histories st"
    and ok: "bl_trigger st = None \<and> bl_fenced st = None \<and> rhs = [] \<and> (\<exists>rs. gatesPassed rs \<and> length rs = gate_count cr PhasePostApply \<and> cl_verify res = bl_verify st @ rs) \<and>
       cl_phase res = PhaseCompleted \<and> cl_rollback res = None"
    by (auto elim!: locked_run_cases elim: rollback_path_verdict simp: blank_result_def phase)
  from ok have st: "bl_executed st = pl_batches p" "length (bl_results st) = length (pl_batches p)"
    "\<forall>br\<in>set (bl_results st). br_error br = None" "gatesPassed (bl_verify st)"
    "length (bl_verify st) = length rs + length (pl_batches p) * gate_count cr PhasePostBatch"
    using loop_outcome(2) [OF rb rs(1)] by auto
  note out = loop_outcome(1) [OF rb rs(1), unfolded st(1)]
  have "\<forall>k < length (pl_batches p). \<forall>i < length (pb_targets (pl_batches p ! k)).
      steps_called (part_of i (hs ! k)) = map (\<lambda>s. (s, RErr None)) (pb_steps (pl_batches p ! k))"
    using success_means_done [OF out st(2,3)] hs by simp
  moreover have "length hs = length (pl_batches p)"
  proof -
    have "\<not> length (bl_histories st) < length (bl_results st)" using out st(3) unfolding plan_outcome_def by (metis le_refl nth_mem)
    then show ?thesis using out st(2) hs by (simp add: plan_outcome_def)
  qed
  moreover have "gatesPassed (cl_verify res)" using ok st(4) by (auto simp: gatesPassed_def)
  moreover have "length (cl_verify res) = gate_count cr PhasePreApply + length (pl_batches p) * gate_count cr PhasePostBatch + gate_count cr PhasePostApply"
    using ok st(5) rs(2) by auto
  ultimately show ?thesis using ok by simp
qed

text \<open>A run that called on the rollback manager: the manager got the ledger of what the batches did.\<close>

lemma rolled_back_run:
  assumes run: "Run cr sx (Some p) has_exec w = Some (Some res, (hs, rhs), w')"
    and undone: "rhs \<noteq> [] \<or> cl_phase res = PhaseRolledBack"
  obtains bs brs rb where "plan_outcome (cr_batch cr) bs brs hs"
    "RollbackWithLedger (SetRunID (cl_run_id res) (cr_rollback cr)) (Some (executed_plan p bs)) has_exec
       (Some (LedgerFromBatchResults (map Some brs))) (sx_rollback sx) = Some (rb, rhs)"
    "cl_phase res = PhaseRolledBack \<longrightarrow> ro_success rb"
proof -
  from undone have "cl_phase res \<noteq> PhaseFailed \<or> hs \<noteq> [] \<or> rhs \<noteq> []" by auto
  with run obtain rid rs w1 w2 where rs: "gatesPassed rs" and
    lr: "locked_run cr sx p has_exec (collectTargets p) ((blank_result rid (pl_id p))\<lparr>cl_verify := rs\<rparr>) w1 = Some (res, (hs, rhs), w2)"
    by (auto elim!: Run_cases)
  have nf: "cl_phase res \<noteq> PhaseFailed"
  proof
    assume failed: "cl_phase res = PhaseFailed"
    with lr have "rhs = []"
      by (auto simp: locked_run_def settle_run_def split: option.splits prod.splits if_splits elim: rollback_path_verdict)
    with undone failed show False by simp
  qed
  from lr nf obtain st w3 w4 r res1 w5 where rb: "run_batches cr sx rid p has_exec 0 (pl_batches p) (sx_batches sx) (batches_started rs) w3 = Some (st, w4)"
    and hs: "hs = bl_histories st" and path: "rollback_path cr sx p has_exec (collectTargets p) st r res1 w5 = Some (res, rhs, w2)"
    and id: "cl_run_id res1 = rid"
    using undone by (auto elim!: locked_run_cases simp: blank_result_def)
  have "cl_run_id res = rid" using path id by (auto simp: rollback_path_def Let_def split: option.splits prod.splits)
  from path obtain rbr where "RollbackWithLedger (SetRunID (cl_run_id res1) (cr_rollback cr)) (Some (executed_plan p (bl_executed st))) has_exec
      (Some (LedgerFromBatchResults (map Some (bl_results st)))) (sx_rollback sx) = Some (rbr, rhs)"
    "cl_phase res = PhaseRolledBack \<longleftrightarrow> ro_success rbr"
    by (rule rollback_path_verdict)
  then show thesis using that [OF loop_outcome(1) [OF rb rs, folded hs]] id \<open>cl_run_id res = rid\<close> by simp
qed

lemma rolled_back_undone:
  assumes run: "Run cr sx (Some p) has_exec w = Some (Some res, (hs, rhs), w')" and phase: "cl_phase res = PhaseRolledBack"
    and k: "k < length hs" and call: "(i, QExec b t s, r) \<in> set (hs ! k)"
    and calm: "\<forall>j q m. (j, q, RPanic m) \<notin> set (hs ! k)" and names: "t \<noteq> ''''" "ps_name s \<noteq> ''''"
  shows "restored (SetRunID (cl_run_id res) (cr_rollback cr)) t s (snd ` (\<Union>h\<in>set rhs. set h))"
proof -
  from run phase obtain bs brs rb where out: "plan_outcome (cr_batch cr) bs brs hs"
    and undo: "RollbackWithLedger (SetRunID (cl_run_id res) (cr_rollback cr)) (Some (executed_plan p bs)) has_exec
       (Some (LedgerFromBatchResults (map Some brs))) (sx_rollback sx) = Some (rb, rhs)" and ok: "ro_success rb"
    by (auto elim: rolled_back_run)
  have "length hs \<le> length bs" using out by (auto simp: plan_outcome_def)
  then show ?thesis
    by (intro rollback_undoes_run [OF out undo ok _ _ k call calm names]) (simp_all add: executed_plan_def)
qed

lemma undo_follows_run:
  assumes run: "Run cr sx (Some p) has_exec w = Some (Some res, (hs, rhs), w')"
    and call: "rh \<in> set rhs" "(j, q, reply) \<in> set rh" "q \<noteq> KSlot" "q \<noteq> KSlotRelease"
  shows "\<exists>t ps. undo_of (SetRunID (cl_run_id res) (cr_rollback cr)) has_exec t ps q \<and>
    (\<exists>k < length hs. \<exists>i b s r. (i, QExec b t s, r) \<in> set (hs ! k) \<and> ps_name s = ps_name ps)"
proof -
  have "rhs \<noteq> []" using call(1) by auto
  with run obtain bs brs rb where out: "plan_outcome (cr_batch cr) bs brs hs"
    and undo: "RollbackWithLedger (SetRunID (cl_run_id res) (cr_rollback cr)) (Some (executed_plan p bs)) has_exec
       (Some (LedgerFromBatchResults (map Some brs))) (sx_rollback sx) = Some (rb, rhs)"
    by (auto elim: rolled_back_run)
  from rollback_follows_run [OF out undo call] show ?thesis by blast
qed

text \<open>The gates are told who started the run they see: the run the engine made up, which no row of the table has.\<close>

lemma gates_see_no_initiator:
  assumes "quiet w" and "run \<notin> run_id ` set (t_runs (w_tbl w))"
  shows "fst (gateInitiator run w) = ''''"
  using assms by (auto simp: gateInitiator_def GetRun_def query_quiet find_Some_iff split: option.splits)

section \<open>The locks of a run\<close>

text \<open>
  \<open>own q w\<close> are the targets \<open>q\<close> has locked in \<open>w\<close>, \<open>ok w\<close> says that the table is one of a store that works. What the runner relies on:
  an acquisition that is granted adds the target and nothing else, one that is refused adds nothing, and a release takes the target away.
\<close>

locale run_locks =
  fixes m :: lock_manager
    and own :: "string \<Rightarrow> world \<Rightarrow> string set"
    and ok :: "world \<Rightarrow> bool"
  assumes acquire_own: "ok w \<Longrightarrow> ManagerAcquire c fuel m t q w = Some (r, w') \<Longrightarrow>
      ok w' \<and> (if isl r then own q w' = own q w else t \<noteq> '''' \<and> own q w' = insert t (own q w))"
    and release_own: "ok w \<Longrightarrow> t \<noteq> '''' \<Longrightarrow> ManagerRelease m t q w = (u, w') \<Longrightarrow> ok w' \<and> own q w' = own q w - {t}"
begin

lemma release_all:
  assumes "cr_locks cr = m" and "ok w" and "'''' \<notin> set ts"
  shows "ok (releaseLocks cr q ts w) \<and> own q (releaseLocks cr q ts w) = own q w - set ts"
  using assms(2,3)
proof (induction ts arbitrary: w)
  case (Cons t ts)
  obtain u w1 where rel: "ManagerRelease m t q w = (u, w1)" by force
  have "ok w1" "own q w1 = own q w - {t}" using release_own [OF Cons.prems(1) _ rel] Cons.prems(2) by auto
  with Cons.IH [of w1] Cons.prems(2) rel assms(1) show ?case by auto
qed simp

lemma acquire_all:
  assumes "cr_locks cr = m" and visit: "\<And>ts. set (cr_visit cr ts) = set ts"
    and "acquire_locks cr sx q ts acq w = Some (r, w')" and "ok w" and "'''' \<notin> set acq" and "own q w = set acq"
  shows "ok w' \<and> (case r of Inl e \<Rightarrow> own q w' = {} | Inr acq' \<Rightarrow> acq' = acq @ ts \<and> '''' \<notin> set acq' \<and> own q w' = set acq')"
  using assms(3,4,5,6)
proof (induction ts arbitrary: acq w)
  case (Cons t ts)
  have give_back: "ok v \<Longrightarrow> own q v = set acq \<Longrightarrow> ok (releaseLocks cr q (cr_visit cr acq) v) \<and> own q (releaseLocks cr q (cr_visit cr acq) v) = {}" for v
    using release_all [OF assms(1), of v "cr_visit cr acq" q] Cons.prems(3) visit by simp
  show ?case
  proof (cases "ctx_err sx w")
    case (Some e)
    then show ?thesis using Cons.prems give_back by auto
  next
    case None
    then obtain x w1 where acq: "ManagerAcquire (cr_crypto cr) (cr_fuel cr) m t q w = Some (x, w1)"
      using Cons.prems(1) assms(1) by (auto split: option.splits)
    note own = acquire_own [OF Cons.prems(2) acq]
    show ?thesis
    proof (cases x)
      case (Inl e)
      then show ?thesis using Cons.prems(1,4) None acq assms(1) own give_back [of w1] by auto
    next
      case (Inr l)
      then have rest: "acquire_locks cr sx q ts (acq @ [t]) w1 = Some (r, w')" using Cons.prems(1) None acq assms(1) by simp
      have "'''' \<notin> set (acq @ [t])" "own q w1 = set (acq @ [t])" "ok w1" using own Inr Cons.prems(3,4) by auto
      from Cons.IH [OF rest this(3,1,2)] show ?thesis by (auto split: sum.splits)
    qed
  qed
qed auto

end

definition lock_table :: "world \<Rightarrow> bool" where
  "lock_table w \<longleftrightarrow> quiet w \<and> key_unique lk_id (t_locks (w_tbl w)) \<and> key_unique lk_scope (t_locks (w_tbl w))"

definition owned :: "string \<Rightarrow> world \<Rightarrow> string set" where
  "owned q w = {t. \<exists>l\<in>set (t_locks (w_tbl w)). lk_scope l = scope t \<and> lk_owner l = q}"

lemma lock_table_tick [simp]: "lock_table (w\<lparr>w_tick := n\<rparr>) = lock_table w"
  by (simp add: lock_table_def)

lemma owned_tick [simp]: "owned q (w\<lparr>w_tick := n\<rparr>) = owned q w"
  by (simp add: owned_def)

lemma scope_inject [simp]: "scope t = scope t' \<longleftrightarrow> t = t'"
  by (simp add: scope_def)

lemma record_owned:
  assumes "lock_table w" and "recordAudit c fuel t q w = Some w'"
  shows "lock_table w' \<and> owned q' w' = owned q' w"
proof -
  let ?I = "\<lambda>tb. t_locks tb = t_locks (w_tbl w)"
  obtain x w1 where id: "newLockID w = (x, w1)" by force
  have w1: "w1 = w\<lparr>w_tick := Suc (w_tick w)\<rparr>" using id by (auto simp: newLockID_def rand_read_def split: option.splits)
  have "upheld ?I w' \<and> same_env w w'"
  proof (cases x)
    case None
    then show ?thesis using assms id w1 by (auto simp: recordAudit_def quiet_upheld lock_table_def)
  next
    case (Some i)
    let ?w2 = "w\<lparr>w_tick := Suc (Suc (w_tick w))\<rparr>"
    obtain a r where rec: "Record c fuel a ?w2 = Some (r, w')"
      using assms(2) id w1 Some by (auto simp: recordAudit_def time_now_def split: option.splits)
    have "upheld ?I ?w2" using assms(1) by (simp add: quiet_upheld lock_table_def)
    from Record_elsewhere [OF _ this rec] show ?thesis by (simp add: same_env_def)
  qed
  then have "t_locks (w_tbl w') = t_locks (w_tbl w)" "same_env w w'" unfolding upheld_def by blast+
  moreover from this(2) have "quiet w'" using assms(1) unfolding lock_table_def same_env_def quiet_def by presburger
  ultimately show ?thesis using assms(1) by (simp add: lock_table_def owned_def)
qed

lemma create_owned:
  assumes "lock_table w" and "CreateLock l w = (r, w')" and "lk_scope l = scope t" and "lk_owner l = q"
  shows "lock_table w' \<and> (if isl r then owned q w' = owned q w else owned q w' = insert t (owned q w))"
proof -
  let ?L = "t_locks (w_tbl w)"
  have q: "quiet w" using assms(1) by (simp add: lock_table_def)
  show ?thesis
  proof (cases "lk_id l \<in> lk_id ` set ?L \<or> lk_scope l \<in> lk_scope ` set ?L")
    case True
    then have "isl r \<and> w' = w\<lparr>w_tick := Suc (w_tick w)\<rparr>" using assms(2) q by (auto simp: CreateLock_def stmt_quiet)
    then show ?thesis using assms(1) by simp
  next
    case False
    then have w': "w' = w\<lparr>w_tbl := (w_tbl w)\<lparr>t_locks := ?L @ [l]\<rparr>, w_tick := Suc (w_tick w)\<rparr>" and "\<not> isl r"
      using assms(2) q by (auto simp: CreateLock_def stmt_quiet)
    have "lock_table w'" using assms(1) False by (simp add: lock_table_def w' key_unique_append)
    moreover have "owned q w' = insert t (owned q w)" using assms(3,4) by (auto simp: owned_def w')
    ultimately show ?thesis using \<open>\<not> isl r\<close> by simp
  qed
qed

lemma transfer_owned:
  assumes "lock_table w" and "UpdateLockOwnedBy (lk_id ex) q n now w = (Inr k, w')"
    and "find (\<lambda>l. lk_scope l = scope t) (t_locks (w_tbl w)) = Some ex"
  shows "lock_table w' \<and> (if k = 0 then owned q w' = owned q w else
    owned q w' = insert t (owned q w) \<and> find (\<lambda>l. lk_scope l = scope t) (t_locks (w_tbl w')) \<noteq> None)"
proof -
  let ?L = "t_locks (w_tbl w)" and ?P = "\<lambda>x. lk_id x = lk_id ex \<and> lk_expires_at x \<le> now"
  let ?f = "\<lambda>x. x\<lparr>lk_owner := q, lk_ttl_seconds := n, lk_acquired_at := now, lk_expires_at := now + n * second\<rparr>"
  have ex: "ex \<in> set ?L" "lk_scope ex = scope t" using assms(3) by (auto simp: find_Some_iff)
  have only: "x \<in> set ?L \<Longrightarrow> lk_id x = lk_id ex \<Longrightarrow> x = ex" for x
    using key_unique_eq [of lk_id ?L x ex] ex(1) assms(1) by (simp add: lock_table_def)
  have w': "w' = w\<lparr>w_tbl := (w_tbl w)\<lparr>t_locks := update_where ?P ?f ?L\<rparr>, w_tick := Suc (w_tick w)\<rparr>" and k: "k = count_where ?P ?L"
    using assms(1,2) by (auto simp: lock_table_def UpdateLockOwnedBy_def stmt_quiet Let_def)
  have set: "set (update_where ?P ?f ?L) = (\<lambda>x. if ?P x then ?f x else x) ` set ?L" by (simp add: update_where_def)
  have "lock_table w'" using assms(1) by (simp add: lock_table_def w')
  moreover have "owned q w' = owned q w" if "k = 0"
  proof -
    have "update_where ?P ?f ?L = ?L" using that k by (intro update_where_none) auto
    then show ?thesis by (simp add: owned_def w')
  qed
  moreover have "owned q w' = insert t (owned q w)" if "k \<noteq> 0"
  proof -
    have P: "?P ex" using that k only by auto
    have "t' \<in> owned q w' \<longleftrightarrow> t' = t \<or> t' \<in> owned q w" for t'
    proof -
      have "t' \<in> owned q w' \<longleftrightarrow> (\<exists>x\<in>set ?L. lk_scope x = scope t' \<and> (?P x \<or> lk_owner x = q))"
        by (simp add: owned_def w' set del: if_image_distrib) blast
      also have "\<dots> \<longleftrightarrow> t' = t \<or> t' \<in> owned q w"
      proof
        assume "\<exists>x\<in>set ?L. lk_scope x = scope t' \<and> (?P x \<or> lk_owner x = q)"
        then obtain x where x: "x \<in> set ?L" "lk_scope x = scope t'" "?P x \<or> lk_owner x = q" by blast
        show "t' = t \<or> t' \<in> owned q w"
        proof (cases "?P x")
          case True
          then have "x = ex" using only x(1) by simp
          then show ?thesis using x(2) ex(2) by simp
        qed (use x in \<open>auto simp: owned_def\<close>)
      qed (use P ex in \<open>auto simp: owned_def\<close>)
      finally show ?thesis .
    qed
    then show ?thesis by blast
  qed
  moreover have "find (\<lambda>l. lk_scope l = scope t) (t_locks (w_tbl w')) \<noteq> None"
    using assms(3) by (simp add: w' find_update_where)
  ultimately show ?thesis by simp
qed

lemma force_owned:
  assumes "lock_table w" and "ForceAcquire f t q ttl w = Some (r, w')"
  shows "lock_table w' \<and> (if isl r then owned q w' = owned q w else owned q w' = insert t (owned q w))"
  using assms
proof (induction f arbitrary: ttl w)
  case (Suc f)
  let ?L = "t_locks (w_tbl w)" and ?w2 = "w\<lparr>w_tick := Suc (Suc (w_tick w))\<rparr>" and ?now = "w_clock w (w_tick w)"
  let ?ttl = "if ttl \<le> 0 then DefaultTTL else ttl"
  have q: "quiet w" using Suc.prems(1) by (simp add: lock_table_def)
  have w2: "lock_table ?w2" "owned q ?w2 = owned q w" using Suc.prems(1) by simp_all
  consider (empty) "t = '''' \<or> q = ''''" | (free) "t \<noteq> ''''" "q \<noteq> ''''" "find (\<lambda>l. lk_scope l = scope t) ?L = None"
    | (held) ex where "t \<noteq> ''''" "q \<noteq> ''''" "find (\<lambda>l. lk_scope l = scope t) ?L = Some ex" by fastforce
  then show ?case
  proof cases
    case empty
    then show ?thesis using Suc.prems by (auto split: if_splits)
  next
    case free
    obtain x w3 where id: "newLockID ?w2 = (x, w3)" by force
    have w3: "w3 = w\<lparr>w_tick := Suc (Suc (Suc (w_tick w)))\<rparr>" using id by (auto simp: newLockID_def rand_read_def split: option.splits)
    show ?thesis
    proof (cases x)
      case None
      then show ?thesis using Suc.prems free q id w3 by (auto simp: time_now_def get_scope_quiet toStateLock_def Let_def)
    next
      case (Some i)
      obtain sl where sl: "toStateLock \<lparr>hl_target = t, hl_owner = q, hl_acquired_at = ?now, hl_expires_at = ?now + ?ttl, hl_ttl = ?ttl\<rparr> ?w2 = (Some sl, w3)"
        "lk_scope sl = scope t" "lk_owner sl = q"
        using id Some by (auto simp: toStateLock_def)
      obtain y w4 where cl: "CreateLock sl w3 = (y, w4)" by force
      have w4: "lock_table w4 \<and> (if isl y then owned q w4 = owned q w else owned q w4 = insert t (owned q w))"
        using create_owned [OF _ cl sl(2,3)] Suc.prems(1) w3 by simp
      have "ForceAcquire f t q ?ttl w4 = Some (r, w') \<and> isl y \<or> (r = Inl (LockStoreError (projl y)) \<and> w' = w4 \<and> isl y) \<or> (\<not> isl y \<and> \<not> isl r \<and> w' = w4)"
        using Suc.prems(2) free q sl(1) cl
        by (cases y) (auto simp: time_now_def get_scope_quiet Let_def split: if_splits)
      then show ?thesis using Suc.IH w4 by fastforce
    qed
  next
    case held
    show ?thesis
    proof (cases "\<not> ?now > lk_expires_at ex \<and> ?now \<noteq> lk_expires_at ex")
      case True
      then show ?thesis using Suc.prems held q by (auto simp: time_now_def get_scope_quiet Let_def)
    next
      case False
      obtain k w3 where up: "UpdateLockOwnedBy (lk_id ex) q (go_div ?ttl second) ?now ?w2 = (Inr k, w3)"
        using q by (auto simp: UpdateLockOwnedBy_def stmt_quiet Let_def)
      have w3: "lock_table w3 \<and> (if k = 0 then owned q w3 = owned q w else owned q w3 = insert t (owned q w) \<and>
          find (\<lambda>l. lk_scope l = scope t) (t_locks (w_tbl w3)) \<noteq> None)"
        using transfer_owned [OF w2(1) up] held(3) by simp
      have q3: "quiet w3" using w3 by (simp add: lock_table_def)
      show ?thesis
      proof (cases "k = 0")
        case True
        then have "ForceAcquire f t q ?ttl w3 = Some (r, w')"
          using Suc.prems(2) held q False up by (auto simp: time_now_def get_scope_quiet Let_def)
        from Suc.IH [OF _ this] w3 True show ?thesis by simp
      next
        case k: False
        then obtain l where "find (\<lambda>l. lk_scope l = scope t) (t_locks (w_tbl w3)) = Some l" using w3 by auto
        then have "r = Inr (fromStateLock l) \<and> w' = w3\<lparr>w_tick := Suc (w_tick w3)\<rparr>"
          using Suc.prems(2) held q q3 False up k by (auto simp: time_now_def get_scope_quiet Let_def)
        then show ?thesis using w3 k by simp
      qed
    qed
  qed
qed simp

lemma manager_owned:
  assumes "lock_table w" and "ManagerAcquire c fuel \<lparr>lm_store = stateLockStore f, lm_default_ttl = ttl\<rparr> t q w = Some (r, w')"
  shows "lock_table w' \<and> (if isl r then owned q w' = owned q w else t \<noteq> '''' \<and> owned q w' = insert t (owned q w))"
proof -
  let ?L = "t_locks (w_tbl w)" and ?w1 = "w\<lparr>w_tick := Suc (w_tick w)\<rparr>"
  have q: "quiet w" using assms(1) by (simp add: lock_table_def)
  note manager = ManagerAcquire_def stateLockStore_def StoreGet_def get_scope_quiet
  consider (empty) "t = '''' \<or> q = ''''" | (free) "t \<noteq> ''''" "q \<noteq> ''''" "find (\<lambda>l. lk_scope l = scope t) ?L = None"
    | (held) ex where "t \<noteq> ''''" "q \<noteq> ''''" "find (\<lambda>l. lk_scope l = scope t) ?L = Some ex" by fastforce
  then show ?thesis
  proof cases
    case empty
    then show ?thesis using assms by (auto simp: manager split: if_splits)
  next
    case free
    then have acq: "StoreAcquire t q ttl ?w1 = (r, w')" using assms(2) q by (simp add: manager)
    let ?ttl = "if ttl \<le> 0 then DefaultTTL else ttl" and ?now = "w_clock w (Suc (Suc (w_tick w)))"
    let ?w3 = "w\<lparr>w_tick := Suc (Suc (Suc (w_tick w)))\<rparr>"
    obtain x w4 where st: "toStateLock \<lparr>hl_target = t, hl_owner = q, hl_acquired_at = ?now, hl_expires_at = ?now + ?ttl, hl_ttl = ?ttl\<rparr> ?w3 = (x, w4)"
      by force
    have w4: "lock_table w4 \<and> owned q w4 = owned q w" "\<And>sl. x = Some sl \<Longrightarrow> lk_scope sl = scope t \<and> lk_owner sl = q"
      using st assms(1) by (auto simp: toStateLock_def newLockID_def rand_read_def split: option.splits)
    show ?thesis
    proof (cases x)
      case None
      then have "w' = w4 \<and> isl r" using acq free q st by (auto simp: StoreAcquire_def get_scope_quiet time_now_def Let_def)
      then show ?thesis using w4(1) by simp
    next
      case (Some sl)
      obtain y w5 where cl: "CreateLock sl w4 = (y, w5)" by force
      have "lock_table w5 \<and> (if isl y then owned q w5 = owned q w else owned q w5 = insert t (owned q w))"
        using create_owned [OF _ cl] w4 Some by simp
      moreover have "w' = w5 \<and> isl r = isl y"
        using acq free q st Some cl by (cases y) (auto simp: StoreAcquire_def get_scope_quiet time_now_def Let_def)
      ultimately show ?thesis using free(1) by simp
    qed
  next
    case held
    let ?w2 = "w\<lparr>w_tick := Suc (Suc (w_tick w))\<rparr>"
    show ?thesis
    proof (cases "LockExpired (Some (fromStateLock ex)) (w_clock w (Suc (w_tick w)))")
      case False
      then show ?thesis using assms held q by (auto simp: manager time_now_def)
    next
      case True
      then obtain y w3 where fa: "ForceAcquire f t q ttl ?w2 = Some (y, w3)"
        using assms(2) held q by (auto simp: manager time_now_def split: option.splits)
      have w3: "lock_table w3 \<and> (if isl y then owned q w3 = owned q w else owned q w3 = insert t (owned q w))"
        using force_owned [OF _ fa] assms(1) by simp
      show ?thesis
      proof (cases y)
        case (Inl e)
        then show ?thesis using assms(2) held q True fa w3 by (auto simp: manager time_now_def)
      next
        case (Inr l)
        then have "recordAudit c fuel t q w3 = Some w' \<and> \<not> isl r"
          using assms(2) held q True fa by (auto simp: manager time_now_def split: option.splits)
        then show ?thesis using record_owned [of w3] w3 Inr held(1) by auto
      qed
    qed
  qed
qed

lemma release_owned:
  assumes "lock_table w" and "t \<noteq> ''''" and "ManagerRelease \<lparr>lm_store = stateLockStore f, lm_default_ttl = ttl\<rparr> t q w = (u, w')"
  shows "lock_table w' \<and> owned q w' = owned q w - {t}"
proof -
  let ?L = "t_locks (w_tbl w)"
  have q: "quiet w" using assms(1) by (simp add: lock_table_def)
  note release = ManagerRelease_def stateLockStore_def StoreRelease_def get_scope_quiet
  show ?thesis
  proof (cases "find (\<lambda>l. lk_scope l = scope t) ?L")
    case None
    then have "w' = w\<lparr>w_tick := Suc (w_tick w)\<rparr>" using assms(2,3) q by (simp add: release)
    moreover have "t \<notin> owned q w" using None by (auto simp: owned_def find_None_iff)
    ultimately show ?thesis using assms(1) by simp
  next
    case (Some ex)
    then have ex: "ex \<in> set ?L" "lk_scope ex = scope t" by (auto simp: find_Some_iff)
    have only: "x \<in> set ?L \<Longrightarrow> lk_scope x = scope t \<or> lk_id x = lk_id ex \<Longrightarrow> x = ex" for x
      using key_unique_eq [of lk_scope ?L x ex] key_unique_eq [of lk_id ?L x ex] ex assms(1) by (auto simp: lock_table_def)
    show ?thesis
    proof (cases "lk_owner ex = q")
      case False
      then have "w' = w\<lparr>w_tick := Suc (w_tick w)\<rparr>" using assms(2,3) q Some by (simp add: release)
      moreover have "t \<notin> owned q w" using only False by (auto simp: owned_def)
      ultimately show ?thesis using assms(1) by simp
    next
      case True
      then have w': "w' = w\<lparr>w_tbl := (w_tbl w)\<lparr>t_locks := filter (\<lambda>l. \<not> (lk_id l = lk_id ex \<and> lk_owner l = q)) ?L\<rparr>, w_tick := Suc (Suc (w_tick w))\<rparr>"
        using assms(2,3) q Some by (simp add: release DeleteLockByIDAndOwner_def stmt_quiet Let_def)
      have "lock_table w'" using assms(1) by (simp add: lock_table_def w' key_unique_filter)
      moreover have "t' \<in> owned q w' \<longleftrightarrow> t' \<in> owned q w - {t}" for t'
      proof
        assume "t' \<in> owned q w'"
        then obtain x where x: "x \<in> set ?L" "lk_scope x = scope t'" "lk_owner x = q" "lk_id x \<noteq> lk_id ex" by (auto simp: owned_def w')
        then have "t' \<noteq> t" using only by auto
        then show "t' \<in> owned q w - {t}" using x by (auto simp: owned_def)
      next
        assume "t' \<in> owned q w - {t}"
        then obtain x where x: "x \<in> set ?L" "lk_scope x = scope t'" "lk_owner x = q" "t' \<noteq> t" by (auto simp: owned_def)
        then have "lk_id x \<noteq> lk_id ex" using only [OF x(1)] ex(2) x(2,4) scope_inject by metis
        then show "t' \<in> owned q w'" using x by (auto simp: owned_def w')
      qed
      ultimately show ?thesis by blast
    qed
  qed
qed

interpretation store_locks: run_locks "\<lparr>lm_store = stateLockStore f, lm_default_ttl = ttl\<rparr>" owned lock_table for f ttl
  by unfold_locales (fact manager_owned, fact release_owned)

text \<open>What leaves the locks alone: on a store that works, the table of locks is what it was.\<close>

definition lock_still :: "world \<Rightarrow> world \<Rightarrow> bool" where
  "lock_still w w' \<longleftrightarrow> (quiet w \<longrightarrow> quiet w' \<and> t_locks (w_tbl w') = t_locks (w_tbl w))"

definition locks_alone :: "ClosureRunner \<Rightarrow> run_script \<Rightarrow> bool" where
  "locks_alone cr sx \<longleftrightarrow>
    (\<forall>p w. lock_still w (snd (cr_materialise cr p w))) \<and>
    (\<forall>ph i w. lock_still w (snd (run_phase cr sx ph i w))) \<and>
    (\<forall>f\<in>set_option (cr_host_guard cr). \<forall>ts w. lock_still w (snd (f ts w))) \<and>
    (\<forall>f\<in>set_option (cr_snapshotter cr). \<forall>run t s w. lock_still w (snd (f run t s w))) \<and>
    (\<forall>s\<in>set_option (cr_run_snapshotter cr). \<forall>run ts spec w. lock_still w (snd (rs_capture s run ts spec w)) \<and> lock_still w (snd (rs_restore s run ts spec w))) \<and>
    (\<forall>f\<in>set_option (cr_recorder cr). \<forall>v w. lock_still w (f v w)) \<and>
    (\<forall>f\<in>set_option (cr_observer cr). \<forall>v w. lock_still w (f v w)) \<and>
    (\<forall>(gates, f)\<in>set_option (cr_post_verifier cr). \<forall>rb i w. lock_still w (snd (f rb i w))) \<and>
    (\<forall>hs w. lock_still w (sx_after_batch sx hs w)) \<and> (\<forall>hs w. lock_still w (sx_after_rollback sx hs w))"

lemma still_refl [simp, intro]: "lock_still w w" "lock_still w (w\<lparr>w_tick := n\<rparr>)"
  by (simp_all add: lock_still_def)

lemma still_trans [trans]: "lock_still w w1 \<Longrightarrow> lock_still w1 w2 \<Longrightarrow> lock_still w w2"
  by (simp add: lock_still_def)

lemma still_owned: "lock_still w w' \<Longrightarrow> lock_table w \<Longrightarrow> lock_table w' \<and> owned q w' = owned q w"
  by (simp add: lock_still_def lock_table_def owned_def)

lemma still_initiator: "gateInitiator run w = (who, w') \<Longrightarrow> lock_still w w'"
  by (auto simp: lock_still_def gateInitiator_def GetRun_def query_quiet split: if_splits option.splits)

lemma still_sink: "locks_alone cr sx \<Longrightarrow> lock_still w (sink_verdicts cr vs w)"
proof (induction vs arbitrary: w)
  case (Cons v vs)
  let ?w1 = "case cr_recorder cr of None \<Rightarrow> w | Some f \<Rightarrow> f v w"
  let ?w2 = "case cr_observer cr of None \<Rightarrow> ?w1 | Some f \<Rightarrow> f v ?w1"
  have "lock_still w ?w1" using Cons.prems by (auto simp: locks_alone_def split: option.splits)
  also have "lock_still ?w1 ?w2" using Cons.prems by (auto simp: locks_alone_def split: option.splits)
  also have "lock_still ?w2 (sink_verdicts cr vs ?w2)" using Cons by blast
  finally show ?case by (simp add: Let_def)
qed simp

lemma still_forward:
  assumes "locks_alone cr sx" and "forward_gates cr sx run ph b ts w = (rs, w')"
  shows "lock_still w w'"
proof -
  obtain who w1 where init: "gateInitiator run w = (who, w1)" by force
  let ?i = "\<lparr>gi_run_id = run, gi_initiator = who, gi_batch_id = b, gi_targets = ts\<rparr>"
  obtain rs' w2 where phase: "run_phase cr sx ph ?i w1 = (rs', w2)" by force
  have "lock_still w w1" by (rule still_initiator [OF init])
  also have "lock_still w1 w2" using assms(1) phase unfolding locks_alone_def by (metis snd_conv)
  also have "lock_still w2 w'" using assms init phase by (auto simp: forward_gates_def recordGateVerdicts_def intro: still_sink)
  finally show ?thesis .
qed

lemma still_capture_all:
  assumes "\<And>run t s w. lock_still w (snd (f run t s w))"
  shows "capture_all f run xs w = (e, w') \<Longrightarrow> lock_still w w'"
proof (induction xs arbitrary: w)
  case (Cons x xs)
  obtain t s where x: "x = (t, s)" by force
  obtain e1 w1 where f: "f run t s w = (e1, w1)" by force
  have w1: "lock_still w w1" using assms [of w run t s] f by simp
  then show ?case using Cons x f by (cases e1) (auto intro: still_trans)
qed auto

lemma still_capture:
  assumes "locks_alone cr sx" and "captureSnapshotsAndBaseline cr run p ts w = (e, w')"
  shows "lock_still w w'"
proof -
  obtain e1 w1 where cs: "captureSnapshots cr run p w = (e1, w1)" by force
  have "lock_still w w1"
  proof (cases "cr_snapshotter cr")
    case (Some f)
    have "\<And>run t s w. lock_still w (snd (f run t s w))" using assms(1) Some by (simp add: locks_alone_def)
    from still_capture_all [OF this] show ?thesis using cs Some by (simp add: captureSnapshots_def)
  qed (use cs in \<open>simp add: captureSnapshots_def\<close>)
  moreover have "captureRunSnapshot cr run p ts w1 = (e2, w2) \<Longrightarrow> lock_still w1 w2" for e2 w2
  proof -
    assume cap: "captureRunSnapshot cr run p ts w1 = (e2, w2)"
    show ?thesis
    proof (cases "pl_run_snapshot p = None \<or> cr_run_snapshotter cr = None")
      case False
      then obtain spec s where s: "pl_run_snapshot p = Some spec" "cr_run_snapshotter cr = Some s" by auto
      have "lock_still w1 (snd (rs_capture s run ts spec w1))" using assms(1) s by (simp add: locks_alone_def)
      then show ?thesis using cap s by (auto simp: captureRunSnapshot_def split: option.splits prod.splits)
    qed (use cap in \<open>auto simp: captureRunSnapshot_def split: option.splits\<close>)
  qed
  ultimately show ?thesis using assms(2) cs
    by (cases e1) (auto simp: captureSnapshotsAndBaseline_def intro: still_trans)
qed

lemma still_apply:
  assumes "locks_alone cr sx" and "apply_batch cr sx run p has_exec b sc st w = Some (st', go, w')"
  shows "lock_still w w'"
proof -
  let ?p = "p\<lparr>pl_batches := [b], pl_total_targets := int (length (pb_targets b)), pl_run_snapshot := None\<rparr>"
  from assms(2) obtain brs hs where ex: "Execute (cr_batch cr) (Some ?p) True None [sc] = Some (brs, hs)" "has_exec \<or> nil_callback hs"
    by (auto simp: apply_batch_def split: option.splits if_splits)
  let ?w1 = "sx_after_batch sx hs w"
  have w1: "lock_still w ?w1" using assms(1) by (simp add: locks_alone_def)
  obtain rs w2 where fg: "forward_gates cr sx run PhasePostBatch (''batch-'' @ format_int (pb_index b)) (pb_targets b) ?w1 = (rs, w2)" by force
  have w2: "lock_still w w2" using still_trans [OF w1 still_forward [OF assms(1) fg]] .
  have "w' = ?w1 \<or> w' = w2" using assms(2) ex fg by (auto simp: apply_batch_def Let_def split: option.splits if_splits)
  then show ?thesis using w1 w2 by blast
qed

lemma still_batches:
  assumes "locks_alone cr sx"
  shows "run_batches cr sx run p has_exec i bs scs st w = Some (st', w') \<Longrightarrow> lock_still w w'"
proof (induction bs arbitrary: i scs st w)
  case (Cons b bs)
  show ?case
  proof (cases "ctx_err sx w")
    case (Some e)
    then show ?thesis using Cons.prems by (auto split: if_splits)
  next
    case None
    then obtain sc scs' where scs: "scs = sc # scs'" using Cons.prems by (cases scs) auto
    then obtain st1 go w1 where ab: "apply_batch cr sx run p has_exec b sc st w = Some (st1, go, w1)"
      using Cons.prems None by (auto split: option.splits)
    have "lock_still w w1" by (rule still_apply [OF assms ab])
    moreover have "w' = w1 \<or> run_batches cr sx run p has_exec (Suc i) bs scs' st1 w1 = Some (st', w')"
      using Cons.prems None scs ab by (auto split: if_splits)
    ultimately show ?thesis using Cons.IH still_trans by blast
  qed
qed (auto split: if_splits)

lemma still_restore:
  assumes "locks_alone cr sx" and "restoreRunSnapshot cr run p ts w = (e, w')"
  shows "lock_still w w'"
proof (cases "pl_run_snapshot p = None \<or> cr_run_snapshotter cr = None")
  case False
  then obtain spec s where s: "pl_run_snapshot p = Some spec" "cr_run_snapshotter cr = Some s" by auto
  have "lock_still w (snd (rs_restore s run ts spec w))" using assms(1) s by (simp add: locks_alone_def)
  then show ?thesis using assms(2) s by (simp add: restoreRunSnapshot_def)
qed (use assms(2) in \<open>auto simp: restoreRunSnapshot_def split: option.splits\<close>)

lemma still_rollback:
  assumes alone: "locks_alone cr sx" and path: "rollback_path cr sx p has_exec ts st r res w = Some (res', rhs, w')"
  shows "lock_still w w' \<and> cl_run_id res' = cl_run_id res"
proof -
  let ?run = "cl_run_id res"
  from path obtain rb where rb: "RollbackWithLedger (SetRunID ?run (cr_rollback cr)) (Some (executed_plan p (bl_executed st))) has_exec
      (Some (LedgerFromBatchResults (map Some (bl_results st)))) (sx_rollback sx) = Some (rb, rhs)"
    by (rule rollback_path_verdict)
  let ?w1 = "sx_after_rollback sx rhs w"
  obtain base w2 where rs: "restoreRunSnapshot cr ?run p ts ?w1 = (base, w2)" by force
  have "lock_still w ?w1" using alone by (simp add: locks_alone_def)
  from still_trans [OF this still_restore [OF alone rs]] have w2: "lock_still w w2" .
  show ?thesis
  proof (cases "cr_post_verifier cr = None \<or> \<not> postRollbackVerifyRequested p")
    case True
    then have "w' = w2 \<and> cl_run_id res' = ?run" using path rb rs by (auto simp: rollback_path_def Let_def split: option.splits)
    then show ?thesis using w2 by simp
  next
    case False
    then obtain gates verify where pv: "cr_post_verifier cr = Some (gates, verify)" "postRollbackVerifyRequested p" by auto
    obtain who w3 where init: "gateInitiator ?run w2 = (who, w3)" by force
    let ?i = "\<lparr>gi_run_id = ?run, gi_initiator = who, gi_batch_id = '''', gi_targets = ts\<rparr>"
    obtain vs w4 where v: "verify rb ?i w3 = (vs, w4)" by force
    have "lock_still w3 (snd (verify rb ?i w3))" using alone pv(1) by (simp add: locks_alone_def)
    then have "lock_still w w4" using still_trans [OF w2 still_initiator [OF init]] v still_trans by simp
    moreover have "w' = recordGateVerdicts cr ?run gates PhasePostApply ''rollback'' '''' vs w4 \<and> cl_run_id res' = ?run"
      using path rb rs pv init v by (auto simp: rollback_path_def Let_def)
    ultimately show ?thesis using still_sink [OF alone] still_trans by (simp add: recordGateVerdicts_def)
  qed
qed

lemma still_locked_run:
  assumes alone: "locks_alone cr sx" and run: "locked_run cr sx p has_exec ts res w = Some (res', tr, w')"
  shows "lock_still w w' \<and> cl_run_id res' = cl_run_id res"
proof -
  obtain e w1 where cap: "captureSnapshotsAndBaseline cr (cl_run_id res) p ts w = (e, w1)" by force
  note w1 = still_capture [OF alone cap]
  show ?thesis
  proof (cases e)
    case (Some e')
    then show ?thesis using run cap w1 by (auto simp: locked_run_def failed_run_def)
  next
    case None
    then obtain st w2 where rb: "run_batches cr sx (cl_run_id res) p has_exec 0 (pl_batches p) (sx_batches sx) (batches_started (cl_verify res)) w1 = Some (st, w2)"
      using run cap by (auto simp: locked_run_def split: option.splits)
    obtain trigger verify w3 where pa: "post_apply cr sx (cl_run_id res) ts st w2 = (trigger, verify, w3)" by (metis prod_cases3)
    let ?res = "res\<lparr>cl_batches := bl_results st, cl_verify := verify\<rparr>"
    obtain rhs where settle: "settle_run cr sx p has_exec ts st trigger ?res w3 = Some (res', rhs, w')"
      using run cap None rb pa by (auto simp: locked_run_def split: option.splits)
    have "lock_still w2 w3" using pa still_forward [OF alone] by (auto simp: post_apply_def split: option.splits prod.splits)
    with still_trans [OF w1 still_batches [OF alone rb]] have "lock_still w w3" by (rule still_trans)
    moreover have "(w' = w3 \<and> cl_run_id res' = cl_run_id res) \<or> (\<exists>r. rollback_path cr sx p has_exec ts st r ?res w3 = Some (res', rhs, w'))"
      using settle by (auto simp: settle_run_def failed_run_def split: option.splits if_splits)
    then have "lock_still w3 w' \<and> cl_run_id res' = cl_run_id res" using still_rollback [OF alone, of p has_exec ts st _ ?res w3 res' rhs w'] by auto
    ultimately show ?thesis using still_trans by blast
  qed
qed


text \<open>The start of a run, before the locks: either it ends there, or the locks are asked for.\<close>

lemma still_start:
  assumes alone: "locks_alone cr sx" and run: "Run cr sx (Some p) has_exec w = Some (Some res, (hs, rhs), w')" and id: "newRunID w = (Some rid, w0)"
  obtains (stopped) "lock_still w w'" "hs = []" "rhs = []" "cl_run_id res = rid"
  | (refused) w3 e where "lock_still w w3" "acquire_locks cr sx rid (collectTargets p) [] w3 = Some (Inl e, w')" "hs = []" "rhs = []" "cl_run_id res = rid"
  | (went_on) w3 acq w4 res1 w5 where "lock_still w w3" "acquire_locks cr sx rid (collectTargets p) [] w3 = Some (Inr acq, w4)"
      "locked_run cr sx p has_exec (collectTargets p) res1 w4 = Some (res, (hs, rhs), w5)" "w' = releaseLocks cr rid (cr_visit cr acq) w5"
      "cl_run_id res1 = rid"
proof -
  let ?res = "blank_result rid (pl_id p)"
  have rid: "cl_run_id ?res = rid" by (simp add: blank_result_def)
  have w0: "lock_still w w0" using id by (auto simp: newRunID_def rand_read_def split: option.splits)
  obtain g w1 where guard: "(case cr_host_guard cr of None \<Rightarrow> (None, w0) | Some f \<Rightarrow> f (collectTargets p) w0) = (g, w1)" by force
  have "lock_still w0 w1"
  proof (cases "cr_host_guard cr")
    case (Some f)
    have "lock_still w0 (snd (f (collectTargets p) w0))" using alone Some by (simp add: locks_alone_def)
    then show ?thesis using guard Some by simp
  qed (use guard in simp)
  then have w1: "lock_still w w1" by (rule still_trans [OF w0])
  obtain e w2 where mat: "cr_materialise cr p w1 = (e, w2)" by force
  have "lock_still w1 (snd (cr_materialise cr p w1))" using alone by (simp add: locks_alone_def)
  then have w2: "lock_still w w2" using still_trans [OF w1] mat by simp
  obtain rs w3 where fg: "forward_gates cr sx rid PhasePreApply '''' (collectTargets p) w2 = (rs, w3)" by force
  have w3: "lock_still w w3" by (rule still_trans [OF w2 still_forward [OF alone fg]])
  note start = id guard mat fg
  show thesis
  proof (cases "g = None \<and> e = None \<and> gatesPassed rs \<and> ctx_err sx w3 = None")
    case False
    then have "lock_still w w' \<and> hs = [] \<and> rhs = [] \<and> cl_run_id res = rid"
      using run start w1 w2 w3 rid by (auto simp: Run_def failed_run_def Let_def split: option.splits if_splits)
    then show thesis using stopped by blast
  next
    case True
    then obtain a w4 where al: "acquire_locks cr sx rid (collectTargets p) [] w3 = Some (a, w4)"
      using run start by (auto simp: Run_def Let_def split: option.splits)
    show thesis
    proof (cases a)
      case (Inl e)
      then have "w' = w4 \<and> hs = [] \<and> rhs = [] \<and> cl_run_id res = rid"
        using run start True al rid by (auto simp: Run_def failed_run_def Let_def)
      then show thesis using refused [OF w3] al Inl by blast
    next
      case (Inr acq)
      then obtain w5 where "locked_run cr sx p has_exec (collectTargets p) (?res\<lparr>cl_verify := rs\<rparr>) w4 = Some (res, (hs, rhs), w5)"
        "w' = releaseLocks cr rid (cr_visit cr acq) w5"
        using run start True al by (auto simp: Run_def Let_def split: option.splits)
      then show thesis using went_on [OF w3] al Inr rid by simp
    qed
  qed
qed

lemma run_lock_discipline:
  assumes run: "Run cr sx (Some p) has_exec w = Some (Some res, (hs, rhs), w')"
    and m: "cr_locks cr = \<lparr>lm_store = stateLockStore f, lm_default_ttl = ttl\<rparr>" and visit: "\<And>ts. set (cr_visit cr ts) = set ts"
    and alone: "locks_alone cr sx" and table: "lock_table w" and fresh: "owned (cl_run_id res) w = {}"
  shows "owned (cl_run_id res) w' = {} \<and> (hs \<noteq> [] \<longrightarrow> (\<exists>res1 w1 w2.
    locked_run cr sx p has_exec (collectTargets p) res1 w1 = Some (res, (hs, rhs), w2) \<and>
    owned (cl_run_id res) w1 = set (collectTargets p) \<and> owned (cl_run_id res) w2 = set (collectTargets p)))"
proof -
  obtain rid w0 where id: "newRunID w = (Some rid, w0)" using run by (auto simp: Run_def split: option.splits prod.splits)
  from alone run id show ?thesis
  proof (cases rule: still_start)
    case stopped
    then show ?thesis using still_owned [OF stopped(1) table, of rid] fresh by simp
  next
    case (refused w3 e)
    have "lock_table w3" "owned rid w3 = set []" using still_owned [OF refused(1) table, of rid] fresh refused(5) by simp_all
    from store_locks.acquire_all [OF m visit refused(2) this(1) _ this(2)] show ?thesis using refused by simp
  next
    case (went_on w3 acq w4 res1 w5)
    have w5: "lock_still w4 w5" "cl_run_id res = rid" using still_locked_run [OF alone went_on(3)] went_on(5) by auto
    have "lock_table w3" "owned rid w3 = set []" using still_owned [OF went_on(1) table, of rid] fresh w5(2) by simp_all
    from store_locks.acquire_all [OF m visit went_on(2) this(1) _ this(2)]
    have w4: "lock_table w4" "acq = collectTargets p" "'''' \<notin> set acq" "owned rid w4 = set acq" by auto
    note held = still_owned [OF w5(1) w4(1), of rid]
    have "owned rid w' = {}"
      using store_locks.release_all [OF m, of w5 "cr_visit cr acq" rid] held w4(3,4) went_on(4) visit by simp
    then show ?thesis using went_on(3) w4 held w5(2) by auto
  qed
qed

section \<open>Properties\<close>

text \<open>
  C5. A run that ends as completed has executed every step of every batch on every target of the batch, in the order of the plan
  and without an error, has run every gate of its phases, those of a batch once for each batch, with a pass from all of them, and has rolled nothing back.
\<close>

theorem completed_run_applied_everything:
  assumes "Run cr sx (Some p) has_exec w = Some (Some res, (hs, rhs), w')" and "cl_phase res = PhaseCompleted"
  shows "rhs = [] \<and> cl_rollback res = None \<and> gatesPassed (cl_verify res) \<and>
    length (cl_verify res) = gate_count cr PhasePreApply + length (pl_batches p) * gate_count cr PhasePostBatch + gate_count cr PhasePostApply \<and> length hs = length (pl_batches p) \<and>
    (\<forall>k < length (pl_batches p). \<forall>i < length (pb_targets (pl_batches p ! k)).
      steps_called (part_of i (hs ! k)) = map (\<lambda>s. (s, RErr None)) (pb_steps (pl_batches p ! k)))"
  using completed_run [OF assms] .

text \<open>
  C6. A run that ends as rolled back has undone what it did: the undo of every step it executed on every target was carried
  out without an error, provided no callback of that batch panicked and target and step have names.
\<close>

theorem rolled_back_run_is_undone:
  assumes "Run cr sx (Some p) has_exec w = Some (Some res, (hs, rhs), w')" and "cl_phase res = PhaseRolledBack"
    and "k < length hs" and "(i, QExec b t s, r) \<in> set (hs ! k)"
    and "\<forall>j q m. (j, q, RPanic m) \<notin> set (hs ! k)" and "t \<noteq> ''''" "ps_name s \<noteq> ''''"
  shows "restored (SetRunID (cl_run_id res) (cr_rollback cr)) t s (snd ` (\<Union>h\<in>set rhs. set h))"
  using rolled_back_undone [OF assms] .


section \<open>Examples\<close>

definition demo_gates :: GateManager where
  "demo_gates = [\<lparr>g_name = ''pre'', g_phase = PhasePreApply\<rparr>, \<lparr>g_name = ''batch'', g_phase = PhasePostBatch\<rparr>,
     \<lparr>g_name = ''post'', g_phase = PhasePostApply\<rparr>]"

definition noop_pass :: GateResult where
  "noop_pass = \<lparr>gr_passed = True, gr_message = Said ''noop gate passed''\<rparr>"

lemma noop_pass_passed [simp]: "gr_passed noop_pass"
  by (simp add: noop_pass_def)

definition demo_runner :: ClosureRunner where
  "demo_runner = \<lparr>cr_crypto = demo_crypto, cr_fuel = 1, cr_locks = NewLockManager (stateLockStore 1), cr_rollback = demo_manager,
     cr_batch = NewController [], cr_materialise = (\<lambda>p w. (None, w)), cr_verifier = demo_gates,
     cr_host_guard = None, cr_snapshotter = None,
     cr_run_snapshotter = None, cr_recorder = None, cr_observer = None, cr_post_verifier = None, cr_visit = (\<lambda>ts. ts)\<rparr>"

definition scripted_run :: "(nat \<times> batch_reply) list \<Rightarrow> (nat \<times> rb_reply) list list \<Rightarrow> run_script" where
  "scripted_run acts undo = \<lparr>sx_ctx = (\<lambda>n. None), sx_gates = (\<lambda>ph i w. (\<lambda>n. NoopCheck ''health'' True None, ([0], ''''), w)), sx_batches = [demo_script acts], sx_after_batch = (\<lambda>hs w. w),
     sx_rollback = undo, sx_after_rollback = (\<lambda>hs w. w)\<rparr>"

lemma demo_lookup:
  "t_runs (w_tbl w) = [] \<Longrightarrow> quiet w \<Longrightarrow> gateInitiator run w = ('''', if run = '''' then w else w\<lparr>w_tick := Suc (w_tick w)\<rparr>)"
  by (simp add: gateInitiator_def GetRun_def query_quiet)

lemma demo_gates_pass:
  assumes "t_runs (w_tbl w) = []" and "quiet w" and "run \<noteq> ''''" and "ph \<noteq> PhaseGracePeriod"
  shows "forward_gates demo_runner (scripted_run acts undo) run ph b ts w = ([noop_pass], w\<lparr>w_tick := Suc (w_tick w)\<rparr>)"
proof -
  have "RunPhase demo_gates ph (\<lambda>n. NoopCheck ''health'' True None) ([0], '''') = [noop_pass]"
    using assms(4) by (cases ph) (simp_all add: RunPhase_def Gates_def demo_gates_def NoopCheck_def taken_def skip_rest_def noop_pass_def)
  then show ?thesis using assms(1-3)
    by (simp add: forward_gates_def run_phase_def demo_lookup recordGateVerdicts_def gateVerdicts_def demo_runner_def scripted_run_def)
qed

text \<open>A world of the example: no run has a row and no other process interferes.\<close>

definition calm_world :: "world \<Rightarrow> bool" where
  "calm_world w \<longleftrightarrow> quiet w \<and> t_runs (w_tbl w) = []"

lemma demo_locked:
  "\<exists>w'. acquire_locks demo_runner (scripted_run acts undo) (''run-'' @ r) [''a''] [] (still_world no_rows\<lparr>w_tick := n\<rparr>) = Some (Inr [''a''], w') \<and>
    calm_world w'"
  by (simp add: demo_runner_def scripted_run_def ctx_err_def ManagerAcquire_def NewLockManager_def stateLockStore_def StoreGet_def StoreAcquire_def
      get_scope_quiet Let_def time_now_def toStateLock_def newLockID_def rand_read_def CreateLock_def stmt_quiet calm_world_def
      no_rows_def DefaultTTL_def)

lemma itoa_0: "itoa 0 = ''0''"
  by code_simp

lemma demo_started:
  assumes "\<And>w. calm_world w \<Longrightarrow> \<exists>res w'. locked_run demo_runner (scripted_run acts undo) (batches_plan [small_batch]) True [''a'']
      ((blank_result ''run-0'' ''p'')\<lparr>cl_verify := [noop_pass]\<rparr>) w = Some (res, tr, w') \<and> cl_phase res = phase"
  shows "\<exists>res w'. Run demo_runner (scripted_run acts undo) (Some (batches_plan [small_batch])) True (still_world no_rows) =
    Some (Some res, tr, w') \<and> cl_phase res = phase"
proof -
  let ?w = "\<lambda>n. still_world no_rows\<lparr>w_tick := n\<rparr>"
  have gates: "forward_gates demo_runner (scripted_run acts undo) ''run-0'' PhasePreApply '''' [''a''] (?w 1) = ([noop_pass], ?w 2)"
    by (simp add: demo_gates_pass no_rows_def)
  obtain w4 where locks: "acquire_locks demo_runner (scripted_run acts undo) ''run-0'' [''a''] [] (?w 2) = Some (Inr [''a''], w4)" "calm_world w4"
    using demo_locked [of acts undo "''0''" 2] by auto
  have start: "newRunID (still_world no_rows) = (Some ''run-0'', ?w 1)" by (simp add: newRunID_def rand_read_def itoa_0)
  have plan: "collectTargets (batches_plan [small_batch]) = [''a'']" "pl_id (batches_plan [small_batch]) = ''p''"
    by (simp_all add: collectTargets_def batches_plan_def small_batch_def)
  obtain res w5 where "cl_phase res = phase" "locked_run demo_runner (scripted_run acts undo) (batches_plan [small_batch]) True [''a'']
      ((blank_result ''run-0'' ''p'')\<lparr>cl_verify := [noop_pass]\<rparr>) w4 = Some (res, tr, w5)"
    using assms [OF locks(2)] by blast
  then show ?thesis using start gates locks(1) plan
    by (auto simp: Run_def Let_def arg_cong [OF demo_runner_def, of cr_host_guard] arg_cong [OF demo_runner_def, of cr_materialise]
        arg_cong [OF scripted_run_def, of sx_ctx] gatesPassed_def ctx_err_def)
qed


definition clean_history :: batch_history where
  "clean_history = [(0, QSlot, RSlot), (0, QCtxErr, RErr None), (0, QExec small_batch ''a'' (demo_step ''one''), RErr None),
     (0, QCtxErr, RErr None), (0, QExec small_batch ''a'' (demo_step ''two''), RErr None), (0, QSlotRelease, RUnit)]"

lemma demo_applied:
  "Execute (NewController []) (Some ((batches_plan [small_batch])\<lparr>pl_batches := [small_batch], pl_total_targets := n, pl_run_snapshot := None\<rparr>))
    True None [demo_script (clean_target 0)] =
   Some ([small_result [\<lparr>sr_step = ''one'', sr_error = None\<rparr>, \<lparr>sr_step = ''two'', sr_error = None\<rparr>] None], [clean_history])"
  by (simp add: Execute_def batches_plan_def executeBatch_def look_parent_def small_defs demo_defs clean_history_def first_error_def cong: Ask_weak_cong)

lemma demo_failed:
  "Execute (NewController []) (Some ((batches_plan [small_batch])\<lparr>pl_batches := [small_batch], pl_total_targets := n, pl_run_snapshot := None\<rparr>))
    True None [demo_script failing_acts] = Some (failing_results, [failing_history])"
  by (simp add: Execute_def batches_plan_def executeBatch_def look_parent_def small_defs demo_defs first_error_def cong: Ask_weak_cong)

lemma demo_runner_simps:
  "cr_batch demo_runner = NewController []" "cr_snapshotter demo_runner = None" "cr_rollback demo_runner = demo_manager"
  "cr_run_snapshotter demo_runner = None" "cr_post_verifier demo_runner = None"
  by (simp_all add: demo_runner_def)

lemma scripted_run_simps:
  "sx_ctx (scripted_run acts undo) n = None" "sx_batches (scripted_run acts undo) = [demo_script acts]"
  "sx_after_batch (scripted_run acts undo) hs w = w" "sx_rollback (scripted_run acts undo) = undo"
  "sx_after_rollback (scripted_run acts undo) rhs w = w"
  by (simp_all add: scripted_run_def)

lemma batches_plan_simps:
  "pl_run_snapshot (batches_plan bs) = None" "pl_batches (batches_plan bs) = bs" "pl_rollback (batches_plan bs) = None"
  by (simp_all add: batches_plan_def)

lemmas scripted_run_defs = locked_run_def captureSnapshotsAndBaseline_def captureSnapshots_def captureRunSnapshot_def apply_batch_def Let_def
  demo_runner_simps scripted_run_simps batches_plan_simps ctx_err_def batches_started_def post_apply_def settle_run_def blank_result_def
  gatesPassed_def calm_world_def demo_gates_pass

lemma demo_completes:
  "\<exists>res w'. Run demo_runner (scripted_run (clean_target 0) []) (Some (batches_plan [small_batch])) True (still_world no_rows) =
    Some (Some res, ([clean_history], []), w') \<and> cl_phase res = PhaseCompleted"
  by (rule demo_started) (simp add: scripted_run_defs demo_applied small_result_def)

theorem completed_run_applied_everything_witness:
  "\<exists>res w'. Run demo_runner (scripted_run (clean_target 0) []) (Some (batches_plan [small_batch])) True (still_world no_rows) =
    Some (Some res, ([clean_history], []), w') \<and> gatesPassed (cl_verify res) \<and>
    steps_called (part_of 0 clean_history) = [(demo_step ''one'', RErr None), (demo_step ''two'', RErr None)]"
proof -
  obtain res w' where run: "Run demo_runner (scripted_run (clean_target 0) []) (Some (batches_plan [small_batch])) True (still_world no_rows) =
    Some (Some res, ([clean_history], []), w')" "cl_phase res = PhaseCompleted" using demo_completes by blast
  from completed_run_applied_everything [OF run] run show ?thesis by (simp add: batches_plan_simps small_batch_def)
qed


lemma demo_undone:
  "\<exists>rb. RollbackWithLedger (SetRunID ''run-0'' demo_manager) (Some (executed_plan (batches_plan [small_batch]) [small_batch])) True
     (Some (LedgerFromBatchResults (map Some failing_results))) [[(0, KErr None)]] = Some (rb, [undo_history]) \<and> ro_success rb"
  by (simp add: executed_plan_def SetRunID_def small_defs demo_step_def demo_undo_def batches_plan_def undo_defs ledger_defs cong: Ask_weak_cong)

lemma demo_rolls_back:
  "\<exists>res w'. Run demo_runner (scripted_run failing_acts [[(0, KErr None)]]) (Some (batches_plan [small_batch])) True (still_world no_rows) =
    Some (Some res, ([failing_history], [undo_history]), w') \<and> cl_phase res = PhaseRolledBack"
proof (rule demo_started)
  fix w assume w: "calm_world w"
  obtain rb where rb: "RollbackWithLedger (SetRunID ''run-0'' demo_manager) (Some (executed_plan (batches_plan [small_batch]) [small_batch])) True
     (Some (LedgerFromBatchResults (map Some failing_results))) [[(0, KErr None)]] = Some (rb, [undo_history])" "ro_success rb"
    using demo_undone by blast
  have last: "failing_results \<noteq> []" "br_error (last failing_results) = Some (StepFailed ''a'' ''one'' (CallbackError ''boom''))"
    by (simp_all add: failing_results_def small_result_def)
  show "\<exists>res w'. locked_run demo_runner (scripted_run failing_acts [[(0, KErr None)]]) (batches_plan [small_batch]) True [''a'']
      ((blank_result ''run-0'' ''p'')\<lparr>cl_verify := [noop_pass]\<rparr>) w =
      Some (res, ([failing_history], [undo_history]), w') \<and> cl_phase res = PhaseRolledBack"
    using w rb last
    by (simp add: scripted_run_defs demo_failed rollback_path_def restoreRunSnapshot_def rollbackPolicyOf_def ResolveRollbackOnFailure_def
        RollbackOnFailureManual_def RollbackOnFailureAuto_def)
qed

theorem rolled_back_run_is_undone_witness:
  "\<exists>run. restored (SetRunID run demo_manager) ''a'' (demo_step ''one'') {(KExec ''a'' (demo_undo ''one''), KErr None)}"
proof -
  obtain res w' where run: "Run demo_runner (scripted_run failing_acts [[(0, KErr None)]]) (Some (batches_plan [small_batch])) True (still_world no_rows) =
    Some (Some res, ([failing_history], [undo_history]), w')" "cl_phase res = PhaseRolledBack" using demo_rolls_back by blast
  have "restored (SetRunID (cl_run_id res) (cr_rollback demo_runner)) ''a'' (demo_step ''one'') (snd ` (\<Union>h\<in>set [undo_history]. set h))"
    by (rule rolled_back_run_is_undone [OF run, of 0 0 small_batch]) (auto simp: failing_history_def demo_step_def)
  then show ?thesis by (auto simp: undo_history_def demo_runner_simps)
qed



end
