(* ===== verification/Spec2Isabelle.thy ===== *)
theory Spec2Isabelle
  imports Audit_Chain Trace_Chain Locks Pause Retry_Budget Approval Takeover Authz Change_Lifecycle Plan_Generator Closure
begin

text \<open>
  A verification development for LEVEE (\<^verbatim>\<open>github.com/nexus/levee\<close>), a controller that plans,
  approves, executes, verifies and rolls back changes on fleets of hosts, written in Go.

  \<^bold>\<open>The program.\<close> A change is a row of the table of runs. It is planned from a workflow, scored
  (\<^verbatim>\<open>internal/risk\<close>), approved by people (\<^verbatim>\<open>internal/approval\<close>), executed on hosts that are locked
  for the time (\<^verbatim>\<open>internal/lock\<close>), may be paused (\<^verbatim>\<open>internal/pause\<close>) and retried within a budget
  (\<^verbatim>\<open>internal/retrybudget\<close>). The engine (\<^verbatim>\<open>internal/engine\<close>) runs the plan batch by batch, many hosts at a time
  (\<^verbatim>\<open>internal/batch\<close>), between verification gates (\<^verbatim>\<open>internal/verify\<close>), and undoes what it did when something fails
  (\<^verbatim>\<open>internal/rollback\<close>). Everything goes through one SQL database (\<^verbatim>\<open>internal/state\<close>), which several
  processes share, and every action leaves an entry in a hash-chained audit log and in a
  hash-chained trace per run (\<^verbatim>\<open>internal/audit\<close>). Several controllers form a cluster
  (\<^verbatim>\<open>internal/cluster\<close>): they register, elect a leader, hold leases on the runs they execute and
  take over the runs of a node that is gone.

  \<^bold>\<open>How it is modelled.\<close> The database is a record of tables, a store method is one atomic statement
  on them, and a \<open>world\<close> carries the tables together with everything the surroundings decide: which
  statement fails, what the clock and the random source answer, and what other processes write
  between two statements. An operation of the program maps a world to a result (errors as the
  left side of a sum) and a world, statement by statement in the order of the Go code. A theorem
  about an arbitrary world is therefore a theorem about all schedules of faults and interference;
  the theorems that need more say so with \<open>quiet\<close> (nothing fails, nobody interferes), \<open>upheld\<close> or
  \<open>db_steady\<close> (the others keep an invariant).

  Goroutines are programs of questions and answers (\<open>prog\<close> in \<open>Interleaving\<close>): a question is whatever the goroutine
  asks of what it shares with the others or of a callback, a schedule is the list of who moves next and
  what is answered, and \<open>None\<close> is a schedule that does not fit. A theorem about every schedule is a theorem about every
  interleaving, cancellation and panic.

  \<^bold>\<open>The theories.\<close>
  \<^item> \<open>Prelude\<close>: numerals, strings, 64-bit wrap-around, tables as lists.
  \<^item> \<open>State_Store\<close>: \<^verbatim>\<open>internal/state/store.go\<close> and \<^verbatim>\<open>sqlite.go\<close>: the rows, the world, the statements
    on runs, batches, steps, traces, approvals, locks, assignments and audits.
  \<^item> \<open>Audit_Canonical\<close>: \<^verbatim>\<open>internal/audit/canonical.go\<close>: the two byte encodings under the digest.
  \<^item> \<open>Hash_Chain\<close>: the locale of a hash chain, its integrity and what it binds, once for both chains.
  \<^item> \<open>Audit_Chain\<close>: \<^verbatim>\<open>auditchain.go\<close>, \<^verbatim>\<open>record.go\<close>: the paged walk, sealing, verifying, recording.
  \<^item> \<open>Trace_Chain\<close>: \<^verbatim>\<open>hashchain.go\<close>, \<^verbatim>\<open>verify.go\<close>, \<^verbatim>\<open>worm.go\<close>, \<^verbatim>\<open>seal_trace.go\<close>, \<^verbatim>\<open>trace.go\<close>: the chain of
    a run, its two builders and two verifiers, the write-once store.
  \<^item> \<open>Run_Status\<close>, \<open>Risk\<close>, \<open>Retry_Budget\<close>: the status vocabulary, the score and the approval
    floor, the attempts left.
  \<^item> \<open>Locks\<close>: \<^verbatim>\<open>internal/lock/lock.go\<close>; the contract \<open>safe_lock_store\<close> interpreted on the store.
  \<^item> \<open>Pause\<close>: \<^verbatim>\<open>internal/pause/pause.go\<close> and \<^verbatim>\<open>internal/audit/denial.go\<close>.
  \<^item> \<open>Approval\<close>: \<^verbatim>\<open>internal/approval\<close> and the adapter of \<^verbatim>\<open>cmd/levee/helpers.go\<close>; the contract
    \<open>ballot_store\<close> interpreted on the adapter.
  \<^item> \<open>Go_Text\<close>: UTF-8 validity, trimming, framed text and integers as Go reads them; \<open>Capability\<close>: the
    capabilities a node announces and their text form.
  \<^item> \<open>Cluster_Lease\<close>: the locale \<open>lease_table\<close>, one fenced lease per key; \<open>Exec_Guard\<close> interprets it on the
    execution leases of a run, \<open>Cluster_Locks\<close> on the cluster-wide locks (\<^verbatim>\<open>pg_registry.go\<close>).
  \<^item> \<open>Cluster_Nodes\<close>: registry, membership table, election and manager; \<open>Takeover\<close>: the sweep over the
    assignments of dead nodes, with the traces and audit entries it writes.
  \<^item> \<open>Role_Tree\<close>, \<open>Label_Condition\<close>, \<open>Policy\<close>, \<open>Authz\<close>: \<^verbatim>\<open>internal/permission\<close>, \<^verbatim>\<open>internal/authz\<close>: the inheritance of roles, the
    language of label conditions with its parser and printer, the policies and their evaluation, the
    permission matrix and the authorizer that combines them.
  \<^item> \<open>Plan_Hash\<close>: \<^verbatim>\<open>internal/plan\<close>: the plan, its impact and the hash an approval attests to.
  \<^item> \<open>Plan_Generator\<close>: \<^verbatim>\<open>internal/plan/generator.go\<close>, \<^verbatim>\<open>targetcaps.go\<close> and what they call in \<^verbatim>\<open>internal/dsl\<close> and
    \<^verbatim>\<open>internal/executor/irreversible.go\<close>: batches, order of the steps, irreversible actions, target bounds, the score.
  \<^item> \<open>Change_Service\<close>, \<open>Change_Lifecycle\<close>: \<^verbatim>\<open>internal/grpc/change_service.go\<close>: planning, applying,
    creating, cloning, voting, settling, pausing, cancelling, retrying, rolling back and archiving a
    change, each handler in full, statement by statement, with the callbacks the wiring installs as
    functions on the world.
  \<^item> \<open>Interleaving\<close>: programs of questions, their interleavings, and the locale \<open>slot_pool\<close> of goroutines that share a bounded
    number of slots: how many hold one, that they do not get stuck, how long they take.
  \<^item> \<open>Batch_Controller\<close>: \<^verbatim>\<open>internal/batch/controller.go\<close>; \<open>slot_pool\<close> interpreted on the targets of a batch.
  \<^item> \<open>Rollback\<close>: \<^verbatim>\<open>internal/rollback/ledger.go\<close>, \<^verbatim>\<open>manager.go\<close>, \<^verbatim>\<open>grading.go\<close>; \<open>slot_pool\<close> interpreted again.
  \<^item> \<open>Gate_Manager\<close>: \<^verbatim>\<open>internal/verify/gate.go\<close>: the registry of gates and the run of a phase.
  \<^item> \<open>Closure\<close>: \<^verbatim>\<open>internal/engine/closure.go\<close>, \<^verbatim>\<open>snapshot_hook.go\<close>: the run of a plan from the host guard to the verdict, over
    the four parts before it and \<open>Locks\<close>; the locale \<open>run_locks\<close> is what it relies on of the lock manager.

  \<^bold>\<open>What is shown.\<close> The chains: sealing and verification decide integrity exactly, an altered row
  is found unless two named payloads collide, a valid chain with a given tail determines the
  records, page and batch sizes and interrupted seals make no difference. The locks: an unexpired
  holder is never displaced. The approvals: the status of a record always agrees with the votes
  on it, no vote is lost, no settled record changes, under concurrency. The pause: exactly the
  live runs stop. The plans: the batches are the targets, the steps follow what they
  depend on, and a plan generated from a workflow with an irreversible step is never approved automatically. The cluster: a node that lost its lease is fenced out for good, two nodes never hold
  one lock, nodes that see the same members elect the same leader and their views converge, a
  sweep settles every run of a dead node and a takeover is all or nothing. The permissions: what the
  authorizer lets through, and how conditions are read and printed. The change service: without automatic approval the apply handler admits
  only the plan that was approved, an apply settles the run it claimed, a change is approved exactly by a quorum of
  the votes on it and a retry spends the budget it was given. The engine: a completed run has executed every step everywhere and every gate
  has passed, a run that was rolled back has undone every step it executed, a rollback touches nothing the run did not,
  the locks of the targets are held throughout and none is left, no more targets work at a time than the batch allows, and every batch and
  rollback comes to its end. Where the code does not do what its comments say, a theorem shows it.

  \<^bold>\<open>Fuel.\<close> Two loops of the code need not end. The walk over the audit table (\<open>walk_pages\<close>) gets
  a page per round and has fuel; the properties give the fuel they need in terms of the number of
  rows, and on a quiet store any larger amount gives the same. The retry in \<open>ForceAcquire\<close> can lose
  every race; its fuel counts the attempts, and out of fuel is the value \<open>None\<close>.

  \<^bold>\<open>Parameters.\<close> SHA-256 and HMAC (\<open>crypto\<close>) are arbitrary functions: no property assumes that they
  do not collide, the statements name the payloads that would have to. \<^verbatim>\<open>encoding/json\<close> at the type of
  the approval metadata (\<open>approval_codec\<close>) has the one law \<open>codec_ok\<close>, for valid UTF-8 and four-digit
  years; the list of capability names (\<open>names_codec\<close>) has the like law. Policy guards, observers, gates, snapshotters and the
  callbacks of the engine are functions on the world or answers in a schedule.

  \<^bold>\<open>Not modelled.\<close> The RPC and REST gateways, the read-only handlers and the command line
  (generated types and printing around the services), the parser and checker of the workflow language, plugins, agents and channels (network and processes),
  the probes behind the verification gates, snapshot files, notification and ticketing clients, credentials, the diagnosis and
  recommendation parts, the PostgreSQL twin of the store, tenancy, backup, observability.
\<close>

end
